(* ===== verification/Prelude.thy ===== *)
theory Prelude
  imports Main "HOL-Library.Word"
begin

text \<open>
  Shared vocabulary of the development: octet strings, the result type of code that may
  throw, a state-and-exception sequencing operator, and the generic facts on big-endian
  digit strings, list slices and words that the component theories use.

  The code's \<^verbatim>\<open>octet_vector\<close>, \<^verbatim>\<open>octet_span\<close> and raw buffers
  (\<^verbatim>\<open>securepath/util/types.hpp\<close>) are lists of 8-bit words. A function that may throw
  returns \<open>'e + 'a\<close> with \<open>Inl\<close> for the exception. A member function that may throw
  after it has changed its object is a function \<open>'s \<Rightarrow> ('e + 'a) \<times> 's\<close>: the object as
  it is left behind is part of the result on both paths, since callers catch exceptions
  and go on with the same object.
\<close>

unbundle bit_operations_syntax

section \<open>Types\<close>

type_synonym octet = "8 word"
type_synonym octets = "octet list"

type_synonym ('s, 'e, 'a) action = "'s \<Rightarrow> ('e + 'a) \<times> 's"

named_theorems action_simps \<open>equations of the state-and-exception operators\<close>

section \<open>Sequencing of actions that may throw\<close>

definition returnA :: "'a \<Rightarrow> ('s, 'e, 'a) action" where
  [action_simps]: "returnA x = (\<lambda>s. (Inr x, s))"

definition throwA :: "'e \<Rightarrow> ('s, 'e, 'a) action" where
  [action_simps]: "throwA e = (\<lambda>s. (Inl e, s))"

definition bindA :: "('s, 'e, 'a) action \<Rightarrow> ('a \<Rightarrow> ('s, 'e, 'b) action) \<Rightarrow> ('s, 'e, 'b) action" where
  "bindA m f = (\<lambda>s. case m s of (Inl e, s') \<Rightarrow> (Inl e, s') | (Inr x, s') \<Rightarrow> f x s')"

definition bindE :: "'e + 'a \<Rightarrow> ('a \<Rightarrow> 'e + 'b) \<Rightarrow> 'e + 'b" where
  "bindE r f = (case r of Inl e \<Rightarrow> Inl e | Inr x \<Rightarrow> f x)"

lemma bindE_simps [simp]:
  "bindE (Inl e) f = Inl e"
  "bindE (Inr x) f = f x"
  by (simp_all add: bindE_def)

lemma bindE_eq_Inr [simp]: "bindE r f = Inr y \<longleftrightarrow> (\<exists>x. r = Inr x \<and> f x = Inr y)"
  by (cases r) auto

lemma bindA_ok: "m s = (Inr x, s') \<Longrightarrow> bindA m f s = f x s'"
  by (simp add: bindA_def)

lemma bindA_err: "m s = (Inl e, s') \<Longrightarrow> bindA m f s = (Inl e, s')"
  by (simp add: bindA_def)

lemma bindA_return [simp]: "bindA (returnA x) f = f x"
  by (simp add: bindA_def returnA_def)

lemma bindA_throw [simp]: "bindA (throwA e) f = throwA e"
  by (simp add: bindA_def throwA_def)

lemma bindA_assoc: "bindA (bindA f g) h = bindA f (\<lambda>x. bindA (g x) h)"
  by (rule ext) (simp add: bindA_def split: prod.splits sum.splits)

lemma bindA_snd: "snd (bindA f g s) = (case f s of (Inl e, s') \<Rightarrow> s' | (Inr x, s') \<Rightarrow> snd (g x s'))"
  by (simp add: bindA_def split: prod.splits sum.splits)

lemma bindA_eq_Inr:
  "bindA m f s = (Inr y, s'') \<longleftrightarrow> (\<exists>x s'. m s = (Inr x, s') \<and> f x s' = (Inr y, s''))"
  by (auto simp: bindA_def split: prod.splits sum.splits)

lemma bindA_eq_Inl:
  "bindA m f s = (Inl e, s'') \<longleftrightarrow>
     m s = (Inl e, s'') \<or> (\<exists>x s'. m s = (Inr x, s') \<and> f x s' = (Inl e, s''))"
  by (auto simp: bindA_def split: prod.splits sum.splits)

section \<open>Big-endian digit strings\<close>

text \<open>The \<open>k\<close> lowest digits of \<open>n\<close> in base \<open>b\<close>, most significant first, and the value
  of a digit string.\<close>

fun be_digits :: "nat \<Rightarrow> nat \<Rightarrow> nat \<Rightarrow> nat list" where
  "be_digits b 0 n = []"
| "be_digits b (Suc k) n = be_digits b k (n div b) @ [n mod b]"

definition be_value :: "nat \<Rightarrow> nat list \<Rightarrow> nat" where
  "be_value b ds = foldl (\<lambda>a d. a * b + d) 0 ds"

lemma be_value_Nil [simp]: "be_value b [] = 0"
  by (simp add: be_value_def)

lemma be_value_snoc [simp]: "be_value b (ds @ [d]) = be_value b ds * b + d"
  by (simp add: be_value_def)

lemma be_value_single [simp]: "be_value b [d] = d"
  by (simp add: be_value_def)

lemma be_value_append: "be_value b (xs @ ys) = be_value b xs * b ^ length ys + be_value b ys"
proof (induction ys rule: rev_induct)
  case Nil
  then show ?case by simp
next
  case (snoc y ys)
  have "be_value b (xs @ ys @ [y]) = be_value b (xs @ ys) * b + y"
    using be_value_snoc [of b "xs @ ys" y] by simp
  also have "\<dots> = (be_value b xs * b ^ length ys + be_value b ys) * b + y"
    using snoc.IH by simp
  finally show ?case by (simp add: algebra_simps)
qed

lemma be_value_Cons: "be_value b (x # xs) = x * b ^ length xs + be_value b xs"
  using be_value_append [of b "[x]" xs] by simp

lemma length_be_digits [simp]: "length (be_digits b k n) = k"
  by (induction k arbitrary: n) auto

lemma be_value_digits: "be_value b (be_digits b k n) = n mod b ^ k"
proof (induction k arbitrary: n)
  case 0
  then show ?case by simp
next
  case (Suc k)
  have "be_value b (be_digits b (Suc k) n) = (n div b) mod b ^ k * b + n mod b"
    using Suc by simp
  also have "\<dots> = n mod b ^ Suc k"
    by (simp add: mod_mult2_eq algebra_simps)
  finally show ?case .
qed

lemma be_digits_bound: "0 < b \<Longrightarrow> d \<in> set (be_digits b k n) \<Longrightarrow> d < b"
  by (induction k arbitrary: n) auto

lemma be_value_less: "\<forall>d \<in> set ds. d < b \<Longrightarrow> be_value b ds < b ^ length ds"
proof (induction ds rule: rev_induct)
  case Nil
  then show ?case by simp
next
  case (snoc d ds)
  then have v: "be_value b ds < b ^ length ds" and d: "d < b" by auto
  have "be_value b ds * b + d < (be_value b ds + 1) * b" using d by simp
  also have "\<dots> \<le> b ^ length ds * b" using v by (intro mult_right_mono) auto
  finally show ?case by (simp add: mult.commute)
qed

lemma be_digits_value:
  "\<forall>d \<in> set ds. d < b \<Longrightarrow> be_digits b (length ds) (be_value b ds) = ds"
  by (induction ds rule: rev_induct) auto

lemma be_digits_nth: "i < k \<Longrightarrow> be_digits b k n ! i = (n div b ^ (k - i - 1)) mod b"
proof (induction k arbitrary: n)
  case 0
  then show ?case by simp
next
  case (Suc k)
  show ?case
  proof (cases "i = k")
    case True
    then show ?thesis by (simp add: nth_append)
  next
    case False
    with Suc.prems have i: "i < k" by simp
    then have e: "b * b ^ (k - i - 1) = b ^ (k - i)"
      by (simp add: power_Suc [symmetric] Suc_diff_Suc del: power_Suc)
    have "be_digits b (Suc k) n ! i = (n div b div b ^ (k - i - 1)) mod b"
      using i Suc.IH [OF i, of "n div b"] by (simp add: nth_append)
    also have "n div b div b ^ (k - i - 1) = n div b ^ (k - i)"
      by (simp only: div_mult2_eq [symmetric] e)
    finally show ?thesis by simp
  qed
qed

lemma map_be_digits:
  "map (\<lambda>i. (n div b ^ (k - i - 1)) mod b) [0..<k] = be_digits b k n"
  by (rule nth_equalityI) (simp_all add: be_digits_nth)

lemma be_value_eq_0D: "be_value b ds = 0 \<Longrightarrow> 0 < b \<Longrightarrow> d \<in> set ds \<Longrightarrow> d = 0"
  by (induction ds rule: rev_induct) auto

section \<open>Octet strings as numbers\<close>

definition be_nat :: "octets \<Rightarrow> nat" where
  "be_nat bs = be_value 256 (map unat bs)"

lemma unat_octet_less [simp]: "unat (x :: octet) < 256"
  using unsigned_less [of x, where ?'a = nat] by simp

lemma be_nat_Nil [simp]: "be_nat [] = 0"
  by (simp add: be_nat_def)

lemma be_nat_Cons: "be_nat (x # xs) = unat x * 256 ^ length xs + be_nat xs"
  by (simp add: be_nat_def be_value_Cons)

lemma be_nat_append: "be_nat (xs @ ys) = be_nat xs * 256 ^ length ys + be_nat ys"
  by (simp add: be_nat_def be_value_append)

lemma be_nat_less: "be_nat bs < 256 ^ length bs"
  using be_value_less [of "map unat bs" 256] by (auto simp: be_nat_def)

lemma be_nat_inj: "length xs = length ys \<Longrightarrow> be_nat xs = be_nat ys \<Longrightarrow> xs = ys"
proof -
  assume l: "length xs = length ys" and e: "be_nat xs = be_nat ys"
  have "map unat xs = be_digits 256 (length xs) (be_nat xs)"
    using be_digits_value [of "map unat xs" 256] by (auto simp: be_nat_def)
  also have "\<dots> = map unat ys"
    using be_digits_value [of "map unat ys" 256] l e by (auto simp: be_nat_def)
  finally show ?thesis
    by (rule map_injective) (simp add: inj_on_def word_unat_eq_iff)
qed

section \<open>Words and their bits\<close>

lemma and_exp_eq_0: "v AND 2 ^ n = 0 \<longleftrightarrow> \<not> bit (v :: 'a :: len word) n"
proof
  assume "v AND 2 ^ n = 0"
  then have "\<not> bit (v AND 2 ^ n) n" by simp
  then show "\<not> bit v n" using bit_imp_le_length [of v n] by (auto simp: bit_simps)
next
  assume "\<not> bit v n"
  then show "v AND 2 ^ n = 0" by (auto intro!: bit_word_eqI simp: bit_and_iff bit_exp_iff)
qed

lemma unat_drop_bit: "unat (drop_bit n (v :: 'a :: len word)) = unat v div 2 ^ n"
  by (metis drop_bit_eq_div unsigned_drop_bit_eq take_bit_drop_bit unsigned_take_bit_eq take_bit_word_eq_self drop_bit_take_bit le_add_diff_inverse2 order_refl)

lemma bit_unat_iff: "bit (v :: 'a :: len word) n \<longleftrightarrow> odd (unat v div 2 ^ n)"
proof -
  have "bit v n \<longleftrightarrow> bit (unat v) n"
    by (auto simp: bit_unsigned_iff dest: bit_imp_le_length)
  then show ?thesis by (simp add: bit_iff_odd)
qed

lemma xor_mask_nat:
  assumes "(v :: nat) < 2 ^ n"
  shows "v XOR mask n = 2 ^ n - 1 - v"
proof -
  have v: "bit v k \<Longrightarrow> k < n" for k
    using assms by (metis bit_take_bit_iff take_bit_nat_eq_self)
  have "(v XOR mask n) AND v = 0"
    by (rule bit_eqI) (auto simp: bit_simps dest: v)
  then have "(v XOR mask n) + v = (v XOR mask n) OR v" by (rule disjunctive_add_eq_or)
  also have "\<dots> = mask n" by (rule bit_eqI) (auto simp: bit_simps dest: v)
  finally show ?thesis by (simp add: mask_eq_exp_minus_1)
qed

lemma unat_xor_mask:
  assumes "unat (v :: 64 word) < 2 ^ n" "n \<le> 64"
  shows "unat (v XOR mask n) = 2 ^ n - 1 - unat v"
proof -
  have "unat (mask n :: 64 word) = mask n"
    using assms(2) by (auto intro!: bit_eqI simp: bit_simps)
  then show ?thesis using xor_mask_nat [OF assms(1)] by (simp add: unsigned_xor_eq)
qed

lemma sint_aux:
  assumes "0 \<le> (u::int)" "u < 18446744073709551616"
  shows "(u + 9223372036854775808) mod 18446744073709551616 - 9223372036854775808 = (if u < 9223372036854775808 then u else u - 18446744073709551616)"
proof (cases "u < 9223372036854775808")
  case True
  then have "(u + 9223372036854775808) mod 18446744073709551616 = u + 9223372036854775808"
    using assms by (intro mod_pos_pos_trivial) auto
  then show ?thesis using True by simp
next
  case False
  have "u + 9223372036854775808 = (u - 9223372036854775808) + 18446744073709551616" by simp
  then have "(u + 9223372036854775808) mod 18446744073709551616 = (u - 9223372036854775808) mod 18446744073709551616"
    by (metis mod_add_self2)
  also have "\<dots> = u - 9223372036854775808"
    using assms False by (intro mod_pos_pos_trivial) auto
  finally show ?thesis using False by simp
qed

lemma sint_unat:
  "sint (v :: 64 word) = (if unat v < 2 ^ 63 then int (unat v) else int (unat v) - 2 ^ 64)"
proof -
  have "sint v = (uint v + 2 ^ 63) mod 2 ^ Suc 63 - 2 ^ 63"
    using signed_take_bit_eq_take_bit_shift [of 63 "uint v"]
    by (simp only: sint_uint take_bit_eq_mod) simp
  moreover have "uint v < 18446744073709551616" using uint_lt2p [of v] by simp
  ultimately have "sint v = (if uint v < 9223372036854775808 then uint v else uint v - 18446744073709551616)"
    using sint_aux [of "uint v"] by simp
  moreover have "unat v < 9223372036854775808 \<longleftrightarrow> uint v < 9223372036854775808"
    by (simp only: unat_eq_nat_uint nat_less_iff uint_ge_0 of_nat_numeral)
  ultimately show ?thesis by simp
qed

lemma unat_not: "unat (NOT v :: 64 word) = 2 ^ 64 - 1 - unat v"
proof -
  have "v XOR mask 64 = NOT v" by (rule bit_word_eqI) (simp add: bit_simps)
  then show ?thesis using unat_xor_mask [of v 64] unsigned_less [of v, where ?'a = nat] by simp
qed

lemma sint_not: "unat (x :: 64 word) < 2 ^ 63 \<Longrightarrow> sint (NOT x) = - int (unat x) - 1"
proof -
  assume x: "unat x < 2 ^ 63"
  then have "\<not> unat (NOT x) < 2 ^ 63" unfolding unat_not by simp
  moreover have "int (unat (NOT x)) = 2 ^ 64 - 1 - int (unat x)" using x unfolding unat_not by simp
  ultimately show ?thesis by (simp only: sint_unat if_False)
qed

lemma and_0x80: "(b :: octet) AND 0x80 \<noteq> 0 \<longleftrightarrow> 128 \<le> unat b"
proof -
  have "b AND 2 ^ 7 \<noteq> 0 \<longleftrightarrow> odd (unat b div 2 ^ 7)" by (simp only: and_exp_eq_0 bit_unat_iff not_not)
  moreover have "unat b div 2 ^ 7 = (if 128 \<le> unat b then 1 else 0)"
    using unat_octet_less [of b] by (auto intro!: div_nat_eqI)
  ultimately show ?thesis by simp
qed

lemma unat_ucast_octet [simp]: "unat (ucast (b :: octet) :: 64 word) = unat b"
proof -
  have "unat b < 2 ^ 64" using unat_octet_less [of b] by (rule less_trans) simp
  then show ?thesis by (simp add: unsigned_ucast_eq take_bit_nat_eq_self)
qed

lemma sint_eqI: "sint x = sint y \<Longrightarrow> x = y"
  by (rule signed_word_eqI)

lemma bit_imp_less: "bit (v :: 'a :: len word) n \<Longrightarrow> unat v < 2 ^ k \<Longrightarrow> n < k"
proof (rule ccontr)
  assume b: "bit v n" and v: "unat v < 2 ^ k" and n: "\<not> n < k"
  have "unat v < 2 ^ n" using v by (rule less_le_trans) (use n in \<open>simp add: power_increasing\<close>)
  then show False using b by (simp add: bit_unat_iff)
qed

lemma unat_of_nat_octet: "n < 256 \<Longrightarrow> unat (of_nat n :: octet) = n"
  by (simp add: unat_of_nat)

lemma map_unat_eq: "map unat xs = map unat ys \<Longrightarrow> xs = (ys :: octets)"
  by (rule map_injective) (auto simp: inj_on_def word_unat_eq_iff)

lemma unat_or_0x80: "unat b < 128 \<Longrightarrow> unat (b OR 0x80 :: octet) = 128 + unat b"
proof -
  assume b: "unat b < 128"
  have "b AND 2 ^ 7 = 0"
    unfolding and_exp_eq_0 using bit_imp_less [of b 7 7] b by auto
  then have "b OR 0x80 = b + 0x80" by (simp add: disjunctive_add_eq_or)
  then show ?thesis using b by (simp add: unat_word_ariths)
qed

lemma unat_and_not_0x80: "unat (b AND NOT 0x80 :: octet) = unat b mod 128"
proof -
  have m: "NOT (0x80 :: octet) = mask 7" by (simp add: mask_eq_exp_minus_1)
  have "unat (b AND mask 7) = take_bit 7 (unat b)"
    by (simp only: take_bit_eq_mask [symmetric] unsigned_take_bit_eq)
  then show ?thesis unfolding m by (simp add: take_bit_eq_mod)
qed

end
