(* ===== verification/Asn_Util.thy ===== *)
theory Asn_Util
  imports Prelude
begin

text \<open>
  The octet-level integer coding of \<^verbatim>\<open>serialisation/codec/asn_der/util.hpp\<close>: the number of
  base-\<open>2 ^ block\<close> digits of a value, its digits, and the two's complement coding of signed
  and unsigned integers that the DER encoder and decoder share.

  An \<open>Integer\<close> template argument is \<^verbatim>\<open>std::int64_t\<close> or \<^verbatim>\<open>std::uint64_t\<close> (the serialiser
  promotes every integral type to one of them and passes its size as \<open>size_hint\<close>); both are
  a \<^typ>\<open>64 word\<close> here, with \<open>is_signed\<close> as \<^verbatim>\<open>numeric_limits<Type>::is_signed\<close>. The results of
  type \<^verbatim>\<open>std::uint_fast8_t\<close> stay below 11, so they are natural numbers.
\<close>

section \<open>Errors of the serialisation library\<close>

text \<open>\<^verbatim>\<open>element_not_present\<close> derives from \<^verbatim>\<open>serialisation_error\<close>; a handler for the former
  does not catch the latter.\<close>

datatype ser_error = Serialisation_error string | Element_not_present string

section \<open>Digits of an integer\<close>

fun high_bit_loop :: "64 word \<Rightarrow> nat \<Rightarrow> int" where
  "high_bit_loop value 0 = -1"
| "high_bit_loop value (Suc n) =
     (if value AND push_bit n 1 = 0 then high_bit_loop value n else int n)"

definition highest_bit_block :: "64 word \<Rightarrow> bool \<Rightarrow> nat \<Rightarrow> nat \<Rightarrow> nat" where
  "highest_bit_block value treat_as_signed size_hint block =
     (let b = high_bit_loop value (size_hint * 8);
          b = (if treat_as_signed \<and> (b + 1) mod int block = 0 then b + 1 else b)
      in if b < 0 then 0 else nat b div block)"

definition bits_from_position :: "64 word \<Rightarrow> nat \<Rightarrow> octet \<Rightarrow> octet" where
  "bits_from_position value pos bit_mask =
     (if pos < 64 then ucast (drop_bit pos value AND ucast bit_mask) else 0)"

definition encode_to_octets ::
    "64 word \<Rightarrow> nat \<Rightarrow> nat \<Rightarrow> bool \<Rightarrow> nat \<Rightarrow> octet \<Rightarrow> ser_error + octets" where
  "encode_to_octets value S size_hint treat_as_signed block msk =
     (let length = highest_bit_block value treat_as_signed size_hint block + 1
      in if length > S then Inl (Serialisation_error ''illegal size'')
         else let bit_mask = push_bit block 1 - 1
              in Inr (map (\<lambda>i. bits_from_position value ((length - i - 1) * block) bit_mask OR msk)
                       [0..<length]))"

definition decode_from_octets :: "octets \<Rightarrow> 64 word" where
  "decode_from_octets b =
     (case b of [] \<Rightarrow> 0
      | b0 # bs \<Rightarrow> foldl (\<lambda>ret bi. push_bit 8 ret OR ucast bi) (ucast b0) bs)"

section \<open>Signed and unsigned integers\<close>

definition octet_mask :: "nat \<Rightarrow> 64 word" where
  "octet_mask octets = push_bit 1 (push_bit (octets * 8 - 1) 1 - 1) OR 1"

definition translate_negative :: "64 word \<Rightarrow> nat \<Rightarrow> 64 word" where
  "translate_negative value size_hint =
     (let number = - (value + 1);
          octets = highest_bit_block number True size_hint 8 + 1
      in number XOR octet_mask octets)"

definition encode_integer :: "bool \<Rightarrow> 64 word \<Rightarrow> nat \<Rightarrow> nat \<Rightarrow> ser_error + octets" where
  "encode_integer is_signed value S size_hint =
     (if is_signed \<and> sint value < 0
      then encode_to_octets (translate_negative value size_hint) S size_hint False 8 0
      else encode_to_octets value S size_hint True 8 0)"

definition decode_integer :: "octets \<Rightarrow> nat \<Rightarrow> 64 word" where
  "decode_integer b size_hint =
     (if (b ! 0) AND 0x80 \<noteq> 0
      then let value = decode_from_octets b;
               octets = highest_bit_block value False size_hint 8 + 1;
               value = value XOR octet_mask octets
           in - value - 1
      else decode_from_octets b)"

section \<open>What an octet string denotes\<close>

text \<open>The integer a big-endian two's complement string denotes, and DER's rule that the
  first nine bits are not all equal (no redundant leading octet).\<close>

definition be_int :: "octets \<Rightarrow> int" where
  "be_int bs =
     (if bs \<noteq> [] \<and> 128 \<le> unat (hd bs) then int (be_nat bs) - 256 ^ length bs
      else int (be_nat bs))"

definition der_minimal :: "octets \<Rightarrow> bool" where
  "der_minimal bs \<longleftrightarrow> bs \<noteq> [] \<and>
     (length bs > 1 \<longrightarrow>
        \<not> (bs ! 0 = 0 \<and> unat (bs ! 1) < 128) \<and> \<not> (bs ! 0 = 255 \<and> 128 \<le> unat (bs ! 1)))"

section \<open>Digit count and digits\<close>

lemma high_bit_loop_range: "-1 \<le> high_bit_loop v n \<and> high_bit_loop v n < int n"
  by (induction n) auto

lemma high_bit_loop_lower: "0 \<le> high_bit_loop v n \<Longrightarrow> 2 ^ nat (high_bit_loop v n) \<le> unat v"
proof (induction n)
  case (Suc n)
  show ?case
  proof (cases "bit v n")
    case True
    then have "unat v div 2 ^ n \<noteq> 0" by (metis bit_unat_iff even_zero)
    with True show ?thesis by (auto simp: and_exp_eq_0 div_eq_0_iff)
  next
    case False
    with Suc show ?thesis by (simp add: and_exp_eq_0)
  qed
qed simp

lemma high_bit_loop_upper: "unat v < 2 ^ n \<Longrightarrow> unat v < 2 ^ nat (high_bit_loop v n + 1)"
proof (induction n)
  case (Suc n)
  show ?case
  proof (cases "bit v n")
    case True
    with Suc.prems show ?thesis by (simp add: and_exp_eq_0 nat_add_distrib)
  next
    case False
    then have "even (unat v div 2 ^ n)" by (simp add: bit_unat_iff)
    moreover have "unat v div 2 ^ n < 2"
      using Suc.prems by (simp add: less_mult_imp_div_less)
    ultimately have "unat v div 2 ^ n = 0"
      by (metis One_nat_def dvd_imp_le less_2_cases_iff odd_one)
    then have "unat v < 2 ^ n" by (simp add: div_eq_0_iff)
    with False Suc.IH show ?thesis by (simp add: and_exp_eq_0)
  qed
qed simp

lemma unat_bits_from_position:
  assumes "block \<le> 8"
  shows "unat (bits_from_position v pos (2 ^ block - 1)) = (unat v div 2 ^ pos) mod 2 ^ block"
proof (cases "pos < 64")
  case True
  have "ucast (drop_bit pos v AND ucast (mask block :: octet)) = (take_bit block (ucast (drop_bit pos v)) :: octet)"
    using assms by (auto simp: bit_eq_iff bit_simps)
  also have "unat \<dots> = take_bit block (unat (ucast (drop_bit pos v) :: octet))"
    by (simp add: unsigned_take_bit_eq)
  also have "\<dots> = take_bit block (take_bit 8 (unat (drop_bit pos v)))"
    by (simp add: unsigned_ucast_eq)
  also have "\<dots> = (unat v div 2 ^ pos) mod 2 ^ block"
    using assms by (simp add: unat_drop_bit min_def flip: take_bit_eq_mod)
  finally show ?thesis using True by (simp only: bits_from_position_def mask_eq_exp_minus_1 if_True)
next
  case False
  have "unat v < 2 ^ 64" using unsigned_less [of v, where ?'a = nat] by simp
  also have "\<dots> \<le> 2 ^ pos" using False by (intro power_increasing) auto
  finally show ?thesis using False by (simp add: bits_from_position_def)
qed

lemma hbb_unsigned:
  assumes "0 < block" "unat v < 2 ^ (size_hint * 8)"
  defines "L \<equiv> highest_bit_block v False size_hint block + 1"
  shows "unat v < (2 ^ block) ^ L" and "L = 1 \<or> (2 ^ block) ^ (L - 1) \<le> unat v"
    and "L \<le> (size_hint * 8 - 1) div block + 1"
proof -
  let ?b = "high_bit_loop v (size_hint * 8)"
  have up: "unat v < 2 ^ nat (?b + 1)" using assms(2) by (rule high_bit_loop_upper)
  have r: "-1 \<le> ?b" "?b < int (size_hint * 8)" using high_bit_loop_range [of v "size_hint * 8"] by auto
  have L: "L = (if ?b < 0 then 1 else nat ?b div block + 1)"
    by (simp add: L_def highest_bit_block_def Let_def)
  have k: "nat (?b + 1) \<le> block * L"
  proof (cases "?b < 0")
    case False
    then have "nat (?b + 1) = nat ?b + 1" by simp
    also have "\<dots> \<le> block * (nat ?b div block + 1)"
      using dividend_less_times_div [OF assms(1), of "nat ?b"] by simp
    finally show ?thesis using False L by simp
  qed (use assms(1) L r in simp)
  show "unat v < (2 ^ block) ^ L"
    using less_le_trans [OF up power_increasing [OF k]] by (simp add: power_mult)
  show "L = 1 \<or> (2 ^ block) ^ (L - 1) \<le> unat v"
  proof (cases "?b < 0")
    case False
    then have "2 ^ nat ?b \<le> unat v" by (simp add: high_bit_loop_lower)
    moreover have "(2::nat) ^ (block * (nat ?b div block)) \<le> 2 ^ nat ?b"
      by (rule power_increasing) auto
    ultimately show ?thesis using L False by (simp add: power_mult)
  qed (simp add: L)
  show "L \<le> (size_hint * 8 - 1) div block + 1"
    using r by (auto simp: L intro!: div_le_mono)
qed

lemma hbb_signed:
  assumes "unat v < 2 ^ (size_hint * 8)"
  defines "L \<equiv> highest_bit_block v True size_hint 8 + 1"
  shows "unat v < 2 ^ (8 * L - 1)" and "L = 1 \<or> 2 ^ (8 * (L - 1) - 1) \<le> unat v"
    and "L \<le> size_hint + 1"
    and "unat v < 2 ^ (size_hint * 8 - 1) \<Longrightarrow> 0 < size_hint \<Longrightarrow> L \<le> size_hint"
proof -
  let ?b = "high_bit_loop v (size_hint * 8)"
  have up: "unat v < 2 ^ nat (?b + 1)" using assms(1) by (rule high_bit_loop_upper)
  have r: "-1 \<le> ?b" "?b < int (size_hint * 8)" using high_bit_loop_range [of v "size_hint * 8"] by auto
  have L: "L = nat (?b + 1) div 8 + 1"
  proof (cases "?b < 0")
    case False
    then obtain n where n: "?b = int n" by (metis nonneg_int_cases not_less)
    then have "((?b + 1) mod 8 = 0) = (Suc n mod 8 = 0)" by presburger
    then show ?thesis using n by (auto simp: L_def highest_bit_block_def Let_def nat_add_distrib div_Suc)
  qed (use r in \<open>auto simp: L_def highest_bit_block_def Let_def\<close>)
  define m where "m = nat (?b + 1)"
  have Lm: "L = m div 8 + 1" and m: "m \<le> size_hint * 8" "nat ?b = m - 1"
    using L r by (auto simp: m_def)
  have k: "nat (?b + 1) \<le> 8 * L - 1" unfolding m_def [symmetric] Lm by presburger
  show "unat v < 2 ^ (8 * L - 1)"
    using less_le_trans [OF up power_increasing [OF k]] by simp
  show "L = 1 \<or> 2 ^ (8 * (L - 1) - 1) \<le> unat v"
  proof (cases "L = 1")
    case False
    then have b: "0 \<le> ?b" using L by simp
    have "8 * (L - 1) - 1 \<le> nat ?b" unfolding m(2) Lm by presburger
    then have "(2::nat) ^ (8 * (L - 1) - 1) \<le> 2 ^ nat ?b" by (rule power_increasing) simp
    also have "\<dots> \<le> unat v" using b by (rule high_bit_loop_lower)
    finally show ?thesis by simp
  qed simp
  show "L \<le> size_hint + 1" using m(1) Lm by simp
  show "L \<le> size_hint" if "unat v < 2 ^ (size_hint * 8 - 1)" and "0 < size_hint"
  proof (cases "?b < 0")
    case False
    then have "2 ^ nat ?b \<le> unat v" by (intro high_bit_loop_lower) simp
    then have "(2::nat) ^ (m - 1) < 2 ^ (size_hint * 8 - 1)"
      unfolding m(2) using that(1) by (rule le_less_trans)
    then have "m - 1 < size_hint * 8 - 1" by (rule power_less_imp_less_exp [rotated]) simp
    then have "m < 8 * size_hint" by linarith
    then show ?thesis unfolding Lm by (simp add: less_mult_imp_div_less Suc_leI mult.commute)
  qed (use L r that(2) in auto)
qed

lemma encode_to_octets_digits:
  assumes "block \<le> 8" "encode_to_octets v S h sg block 0 = Inr bs"
  shows "map unat bs = be_digits (2 ^ block) (highest_bit_block v sg h block + 1) (unat v)"
proof -
  let ?L = "highest_bit_block v sg h block + 1"
  have "bs = map (\<lambda>i. bits_from_position v ((?L - i - 1) * block) (push_bit block 1 - 1)) [0..<?L]"
    using assms(2) by (auto simp: encode_to_octets_def Let_def split: if_splits simp del: upt_Suc)
  then have "map unat bs = map (\<lambda>i. (unat v div (2 ^ block) ^ (?L - i - 1)) mod 2 ^ block) [0..<?L]"
    using assms(1) by (simp add: unat_bits_from_position power_mult [symmetric] mult.commute del: upt_Suc)
  then show ?thesis by (simp only: map_be_digits)
qed

lemma be_nat_encoded:
  assumes "encode_to_octets v S h sg 8 0 = Inr bs"
  shows "length bs = highest_bit_block v sg h 8 + 1" and "be_nat bs = unat v mod 256 ^ length bs"
proof -
  have m: "map unat bs = be_digits 256 (highest_bit_block v sg h 8 + 1) (unat v)"
    using encode_to_octets_digits [OF _ assms] by simp
  show l: "length bs = highest_bit_block v sg h 8 + 1"
    using arg_cong [OF m, of length] by (simp del: be_digits.simps)
  show "be_nat bs = unat v mod 256 ^ length bs"
    unfolding l by (simp add: be_nat_def m be_value_digits del: be_digits.simps)
qed

section \<open>Reading digits back\<close>

lemma push_bit_or_add:
  assumes "unat x < 2 ^ 56"
  shows "unat (push_bit 8 (x :: 64 word) OR ucast (b :: octet)) = unat x * 256 + unat b"
proof -
  have "push_bit 8 x OR ucast b = push_bit 8 x + ucast b"
    by (rule disjunctive_add [symmetric]) (auto simp: bit_simps dest: bit_imp_le_length)
  then have e: "push_bit 8 x OR ucast b = x * 256 + ucast b" by (simp add: push_bit_eq_mult)
  have "unat (push_bit 8 x OR ucast b) = (unat x * 256 + unat b) mod 2 ^ 64"
    unfolding e by (simp only: unat_word_ariths unat_ucast_octet) (simp add: mod_simps)
  moreover have "unat x < 72057594037927936" using assms by simp
  then have "unat x * 256 + unat b < 18446744073709551616"
    using unat_octet_less [of b] by linarith
  ultimately show ?thesis by simp
qed

lemma foldl_octets:
  "unat x * 256 ^ length bs + be_nat bs < 2 ^ 64 \<Longrightarrow>
   unat (foldl (\<lambda>ret bi. push_bit 8 ret OR ucast bi) (x :: 64 word) bs) = unat x * 256 ^ length bs + be_nat bs"
proof (induction bs arbitrary: x)
  case (Cons b bs)
  have "unat x * 256 \<le> unat x * 256 ^ Suc (length bs)" by simp
  also have "\<dots> < 2 ^ 64" using Cons.prems by simp
  finally have x: "unat x < 2 ^ 56" by simp
  have u: "unat (push_bit 8 x OR ucast b) = unat x * 256 + unat b"
    by (rule push_bit_or_add [OF x])
  then have "unat (push_bit 8 x OR ucast b) * 256 ^ length bs + be_nat bs = unat x * 256 ^ length (b # bs) + be_nat (b # bs)"
    by (simp add: be_nat_Cons algebra_simps)
  with Cons show ?case by simp
qed simp

lemma unat_decode_from_octets:
  "be_nat bs < 2 ^ 64 \<Longrightarrow> unat (decode_from_octets bs) = be_nat bs"
  by (cases bs) (simp_all add: decode_from_octets_def foldl_octets be_nat_Cons)

section \<open>Two's complement\<close>

lemma octet_mask_eq: "0 < k \<Longrightarrow> octet_mask k = mask (8 * k)"
proof (rule bit_word_eqI)
  fix n assume "0 < k" "n < LENGTH(64)"
  then show "bit (octet_mask k) n = bit (mask (8 * k) :: 64 word) n"
    unfolding octet_mask_def
    by (cases n) (auto simp: bit_simps mult.commute simp flip: mask_eq_exp_minus_1)
qed

lemma hd_be_nat:
  assumes "bs \<noteq> []"
  shows "unat (hd bs) = be_nat bs div 256 ^ (length bs - 1)"
proof (cases bs)
  case (Cons b bs')
  then show ?thesis using be_nat_less [of bs'] by (simp add: be_nat_Cons)
qed (use assms in simp)

lemma hd_ge_128: "bs \<noteq> [] \<Longrightarrow> 128 \<le> unat (hd bs) \<longleftrightarrow> 2 ^ (8 * length bs - 1) \<le> be_nat bs"
proof -
  assume b: "bs \<noteq> []"
  then obtain k where k: "length bs = Suc k" by (cases bs) auto
  have e: "(2::nat) ^ (8 * Suc k - 1) = 128 * 256 ^ k" by (simp add: power_add power_mult)
  have "128 \<le> be_nat bs div 256 ^ k \<longleftrightarrow> 128 * 256 ^ k \<le> be_nat bs"
    by (simp add: less_eq_div_iff_mult_less_eq)
  then show ?thesis using hd_be_nat [OF b] by (simp only: k e diff_Suc_1)
qed

lemma be_nat_lt_exp: "be_nat bs < 2 ^ (8 * length bs)"
  using be_nat_less [of bs] by (simp add: power_mult)

lemma be_int_ge_0: "bs \<noteq> [] \<Longrightarrow> be_nat bs < 2 ^ (8 * length bs - 1) \<Longrightarrow> be_int bs = int (be_nat bs)"
  using hd_ge_128 [of bs] by (simp add: be_int_def)

lemma be_int_lt_0: "bs \<noteq> [] \<Longrightarrow> 2 ^ (8 * length bs - 1) \<le> be_nat bs \<Longrightarrow>
    be_int bs = int (be_nat bs) - 2 ^ (8 * length bs)"
  using hd_ge_128 [of bs] by (simp add: be_int_def power_mult)

lemma be_int_eq_tl:
  assumes "tl bs \<noteq> []" "bs ! 0 = 0 \<and> unat (bs ! 1) < 128 \<or> bs ! 0 = 255 \<and> 128 \<le> unat (bs ! 1)"
  shows "be_int bs = be_int (tl bs)"
  using assms by (cases bs) (auto simp: be_int_def be_nat_Cons hd_conv_nth)

lemma be_int_range:
  assumes "bs \<noteq> []"
  shows "- (2 ^ (8 * length bs - 1)) \<le> be_int bs \<and> be_int bs < 2 ^ (8 * length bs - 1)"
proof -
  obtain k where k: "8 * length bs = Suc k" using assms by (cases bs) auto
  have nk: "int (be_nat bs) < 2 ^ Suc k" using be_nat_lt_exp [of bs] k
    by (metis of_nat_less_iff of_nat_numeral of_nat_power)
  show ?thesis
  proof (cases "be_nat bs < 2 ^ k")
    case True
    then have "int (be_nat bs) < 2 ^ k" by (metis of_nat_less_iff of_nat_numeral of_nat_power)
    moreover have "- (2 ^ k) \<le> int (be_nat bs)" by (rule order_trans [of _ 0]) simp_all
    ultimately show ?thesis using be_int_ge_0 [OF assms] True k by simp
  next
    case False
    then have "(2::int) ^ k \<le> int (be_nat bs)"
      by (metis not_less of_nat_le_iff of_nat_numeral of_nat_power)
    then show ?thesis using be_int_lt_0 [OF assms] False k nk by simp
  qed
qed

lemma der_minimalI:
  assumes "bs \<noteq> []" "length bs = 1 \<or> be_int bs < - (2 ^ (8 * (length bs - 1) - 1)) \<or> 2 ^ (8 * (length bs - 1) - 1) \<le> be_int bs"
  shows "der_minimal bs"
proof (rule ccontr)
  assume n: "\<not> der_minimal bs"
  then have "1 < length bs" and c: "bs ! 0 = 0 \<and> unat (bs ! 1) < 128 \<or> bs ! 0 = 255 \<and> 128 \<le> unat (bs ! 1)"
    using assms(1) by (auto simp: der_minimal_def)
  then have t: "tl bs \<noteq> []" by (cases bs) auto
  have "length (tl bs) = length bs - 1" by simp
  then show False
    using be_int_range [OF t] be_int_eq_tl [OF t c] assms(2) \<open>1 < length bs\<close> by auto
qed

lemma octets_unique:
  assumes "2 ^ (8 * k - 1) \<le> unat v" "unat v < 2 ^ (8 * k)" "0 < k" "k \<le> h"
  shows "highest_bit_block v False h 8 + 1 = k"
proof -
  let ?L = "highest_bit_block v False h 8 + 1"
  have "unat v < 2 ^ (h * 8)"
    using less_le_trans [OF assms(2) power_increasing [of "8 * k" "8 * h" 2]] assms(4)
    by (simp add: mult.commute)
  from hbb_unsigned [OF _ this, of 8]
  have L: "unat v < 2 ^ (8 * ?L)" "?L = 1 \<or> 2 ^ (8 * (?L - 1)) \<le> unat v"
    by (simp_all only: power_mult zero_less_numeral True_implies_equals)
  have "(2::nat) ^ (8 * k - 1) < 2 ^ (8 * ?L)" using assms(1) L(1) by (rule le_less_trans)
  then have "8 * k - 1 < 8 * ?L" by (rule power_less_imp_less_exp [rotated]) simp
  moreover have "8 * (?L - 1) < 8 * k"
  proof (cases "?L = 1")
    case False
    then have "(2::nat) ^ (8 * (?L - 1)) < 2 ^ (8 * k)"
      using L(2) assms(2) by (metis le_less_trans)
    then show ?thesis by (rule power_less_imp_less_exp [rotated]) simp
  qed (use assms(3) in simp)
  ultimately show ?thesis by auto
qed

lemma sint_decode_integer:
  assumes "bs \<noteq> []" "length bs \<le> h" "h \<le> 8"
  shows "sint (decode_integer bs h) = be_int bs"
proof -
  let ?k = "8 * length bs"
  have k: "?k \<le> 64" "0 < length bs" using assms by auto
  have lt: "be_nat bs < 2 ^ ?k" by (rule be_nat_lt_exp)
  then have "be_nat bs < 2 ^ 64" by (rule less_le_trans) (use k in \<open>intro power_increasing; simp\<close>)
  then have u: "unat (decode_from_octets bs) = be_nat bs" by (rule unat_decode_from_octets)
  have hd: "bs ! 0 = hd bs" using assms(1) by (simp add: hd_conv_nth)
  show ?thesis
  proof (cases "be_nat bs < 2 ^ (?k - 1)")
    case True
    then have "be_nat bs < 2 ^ 63"
      by (rule less_le_trans) (use k in \<open>intro power_increasing; simp\<close>)
    then show ?thesis using True hd_ge_128 [OF assms(1)]
      by (simp add: decode_integer_def hd and_0x80 be_int_ge_0 [OF assms(1)] sint_unat u)
  next
    case False
    let ?v = "decode_from_octets bs"
    let ?x = "?v XOR mask ?k"
    have o: "highest_bit_block ?v False h 8 + 1 = length bs"
      using octets_unique [of "length bs" ?v h] False lt k assms by (simp add: u)
    have x: "unat ?x = 2 ^ ?k - 1 - be_nat bs" using unat_xor_mask [of ?v ?k] lt k by (simp add: u)
    have "(2::nat) ^ ?k = 2 * 2 ^ (?k - 1)" using k by (metis Suc_diff_1 mult_eq_0_iff neq0_conv power_Suc zero_neq_numeral)
    then have xs: "unat ?x < 2 ^ (?k - 1)" using False x lt by simp
    then have "unat ?x < 2 ^ 63" by (rule less_le_trans) (use k in \<open>intro power_increasing; simp\<close>)
    then have "sint (NOT ?x) = - int (unat ?x) - 1" by (rule sint_not)
    moreover have "decode_integer bs h = NOT ?x"
      using False hd_ge_128 [OF assms(1)] octet_mask_eq [OF k(2)]
      by (simp only: decode_integer_def hd and_0x80 Let_def o not_eq_complement not_less if_True)
    moreover have "int (unat ?x) = 2 ^ ?k - 1 - int (be_nat bs)" using x lt by simp
    ultimately show ?thesis using be_int_lt_0 [OF assms(1)] False by simp
  qed
qed

lemma unat_decode_integer:
  assumes "bs \<noteq> []" "unat (hd bs) < 128" "be_nat bs < 2 ^ 64"
  shows "unat (decode_integer bs h) = be_nat bs"
proof -
  have "\<not> ((bs ! 0) AND 0x80 \<noteq> 0)" unfolding and_0x80 using assms by (simp add: hd_conv_nth)
  then show ?thesis using unat_decode_from_octets [OF assms(3)] by (simp add: decode_integer_def)
qed

lemma encode_nonneg:
  assumes "1 \<le> h" "h \<le> 8" "unat v < 2 ^ (8 * h)"
  obtains bs where "encode_to_octets v 9 h True 8 0 = Inr bs" "bs \<noteq> []" "be_nat bs = unat v"
    "be_int bs = int (unat v)" "der_minimal bs" "length bs \<le> h + 1"
    "unat v < 2 ^ (8 * h - 1) \<Longrightarrow> length bs \<le> h"
proof -
  let ?L = "highest_bit_block v True h 8 + 1"
  have "unat v < 2 ^ (h * 8)" using assms(3) by (simp add: mult.commute)
  note L = hbb_signed [OF this]
  have "?L \<le> 9" using L(3) assms(2) by simp
  then obtain bs where bs: "encode_to_octets v 9 h True 8 0 = Inr bs"
    by (simp add: encode_to_octets_def Let_def)
  note l = be_nat_encoded [OF bs]
  have ne: "bs \<noteq> []" using l(1) by auto
  have "(2::nat) ^ (8 * ?L - 1) \<le> 2 ^ (8 * ?L)" by (rule power_increasing) auto
  also have "\<dots> = 256 ^ ?L" by (simp only: power_mult) simp
  finally have "unat v < 256 ^ ?L" by (rule less_le_trans [OF L(1)])
  then have n: "be_nat bs = unat v" using l by simp
  have i: "be_int bs = int (unat v)" using be_int_ge_0 [OF ne] L(1) l(1) n by simp
  have "length bs = 1 \<or> 2 ^ (8 * (length bs - 1) - 1) \<le> be_int bs"
    using L(2) unfolding l(1) i by (metis of_nat_le_iff of_nat_numeral of_nat_power)
  then have m: "der_minimal bs" using der_minimalI [OF ne] by blast
  show ?thesis
    using that [OF bs ne n i m] L(3,4) l(1) assms(1) by (simp add: mult.commute)
qed

lemma translate_negative_eq:
  assumes "sint v < 0" "- (2 ^ (8 * h - 1)) \<le> sint v" "1 \<le> h" "h \<le> 8"
  defines "k \<equiv> highest_bit_block (NOT v) True h 8 + 1"
  shows "int (unat (NOT v)) = - sint v - 1"
    and "int (unat (translate_negative v h)) = 2 ^ (8 * k) + sint v"
    and "2 ^ (8 * k - 1) \<le> unat (translate_negative v h)" "unat (translate_negative v h) < 2 ^ (8 * k)"
    and "k \<le> h" "k = 1 \<or> 2 ^ (8 * (k - 1) - 1) \<le> unat (NOT v)"
proof -
  let ?n = "NOT v"
  have uv: "\<not> unat v < 2 ^ 63" "sint v = int (unat v) - 2 ^ 64"
    using assms(1) unfolding sint_unat by (auto split: if_splits)
  have vlt: "unat v < 2 ^ 64" using unsigned_less [of v, where ?'a = nat] by simp
  show n: "int (unat ?n) = - sint v - 1" using uv vlt unfolding unat_not by simp
  then have "int (unat ?n) < 2 ^ (8 * h - 1)" using assms(2) by linarith
  then have nlt: "unat ?n < 2 ^ (8 * h - 1)" by (metis of_nat_less_iff of_nat_numeral of_nat_power)
  then have "unat ?n < 2 ^ (h * 8)"
    by (rule less_le_trans) (use assms(3) in \<open>intro power_increasing; simp\<close>)
  note K = hbb_signed [OF this, folded k_def]
  show kh: "k \<le> h" using K(4) nlt assms(3) by (simp add: mult.commute)
  show "k = 1 \<or> 2 ^ (8 * (k - 1) - 1) \<le> unat (NOT v)" by (rule K(2))
  have k0: "0 < k" by (simp add: k_def)
  have "- (v + 1) = ?n" by (simp add: not_eq_complement)
  then have t: "translate_negative v h = ?n XOR mask (8 * k)"
    using octet_mask_eq [OF k0] unfolding translate_negative_def Let_def by (simp add: k_def)
  obtain j where j: "8 * k = Suc j" using k0 by (cases k) auto
  have nj: "unat ?n < 2 ^ j" using K(1) j by simp
  have u: "unat (translate_negative v h) = 2 ^ (8 * k) - 1 - unat ?n"
    unfolding t using nj kh assms(4) j by (intro unat_xor_mask) auto
  then show "int (unat (translate_negative v h)) = 2 ^ (8 * k) + sint v" using nj n j by simp
  show "2 ^ (8 * k - 1) \<le> unat (translate_negative v h)" using u nj j by simp
  show "unat (translate_negative v h) < 2 ^ (8 * k)" using u by simp
qed

lemma encode_negative:
  assumes "1 \<le> h" "h \<le> 8" "- (2 ^ (8 * h - 1)) \<le> sint v" "sint v < 0"
  obtains bs where "encode_to_octets (translate_negative v h) 9 h False 8 0 = Inr bs"
    "bs \<noteq> []" "be_int bs = sint v" "der_minimal bs" "length bs \<le> h"
proof -
  let ?t = "translate_negative v h"
  let ?k = "highest_bit_block (NOT v) True h 8 + 1"
  note T = translate_negative_eq [OF assms(4,3,1,2)]
  have L: "highest_bit_block ?t False h 8 + 1 = ?k"
    using octets_unique [OF T(3,4)] T(5) by simp
  then obtain bs where bs: "encode_to_octets ?t 9 h False 8 0 = Inr bs"
    using T(5) assms(2) by (simp add: encode_to_octets_def Let_def)
  note l = be_nat_encoded [OF bs, unfolded L]
  have ne: "bs \<noteq> []" using l(1) by auto
  have "256 ^ ?k = (2::nat) ^ (8 * ?k)" by (simp only: power_mult) simp
  then have n: "be_nat bs = unat ?t" using l T(4) by simp
  have i: "be_int bs = sint v"
    using be_int_lt_0 [OF ne] T(2,3) unfolding n l(1) by simp
  have "length bs = 1 \<or> be_int bs < - (2 ^ (8 * (length bs - 1) - 1))"
  proof (cases "?k = 1")
    case False
    then have "2 ^ (8 * (?k - 1) - 1) \<le> unat (NOT v)" using T(6) by blast
    then have "(2::int) ^ (8 * (?k - 1) - 1) \<le> int (unat (NOT v))"
      by (metis of_nat_le_iff of_nat_numeral of_nat_power)
    then show ?thesis using T(1) unfolding l(1) i by linarith
  qed (simp add: l(1))
  then have m: "der_minimal bs" using der_minimalI [OF ne] by blast
  show ?thesis using that [OF bs ne i m] T(5) l(1) by simp
qed

section \<open>Round trips\<close>

lemma encode_signed:
  assumes "1 \<le> h" "h \<le> 8" "- (2 ^ (8 * h - 1)) \<le> sint v" "sint v < 2 ^ (8 * h - 1)"
  shows "\<exists>bs. encode_integer True v 9 h = Inr bs \<and> length bs \<le> h \<and> be_int bs = sint v \<and>
           der_minimal bs \<and> decode_integer bs h = v"
proof (cases "sint v < 0")
  case True
  obtain bs where bs: "encode_to_octets (translate_negative v h) 9 h False 8 0 = Inr bs"
    "bs \<noteq> []" "be_int bs = sint v" "der_minimal bs" "length bs \<le> h"
    using encode_negative [OF assms(1-3) True] by blast
  then have "decode_integer bs h = v"
    using sint_decode_integer assms(2) by (intro sint_eqI) simp
  then show ?thesis using bs True by (auto simp: encode_integer_def)
next
  case False
  then have u: "sint v = int (unat v)" using uint_lt2p [of v] unfolding sint_unat by (auto split: if_splits)
  then have lt: "unat v < 2 ^ (8 * h - 1)"
    using assms(4) by (metis of_nat_less_iff of_nat_numeral of_nat_power)
  then have "unat v < 2 ^ (8 * h)"
    by (rule less_le_trans) (intro power_increasing; simp)
  with assms(1,2) obtain bs where bs: "encode_to_octets v 9 h True 8 0 = Inr bs" "bs \<noteq> []"
    "be_int bs = int (unat v)" "der_minimal bs" "unat v < 2 ^ (8 * h - 1) \<Longrightarrow> length bs \<le> h"
    using encode_nonneg by metis
  then have "decode_integer bs h = v"
    using sint_decode_integer assms(2) lt u by (intro sint_eqI) simp
  then show ?thesis using bs lt False u by (auto simp: encode_integer_def)
qed

text \<open>For every signed integer that fits in a type of \<open>h\<close> octets, \<open>1 \<le> h \<le> 8\<close>,
  \<open>encode_integer\<close> succeeds in the 9-octet buffer the encoder gives it, writes at most \<open>h\<close>
  octets that are the DER-minimal two's complement form of the value, and \<open>decode_integer\<close>
  of those octets is the value.\<close>

theorem encode_integer_signed_roundtrip:
  assumes "1 \<le> h" "h \<le> 8" "- (2 ^ (8 * h - 1)) \<le> sint v" "sint v < 2 ^ (8 * h - 1)"
  shows "\<exists>bs. encode_integer True v 9 h = Inr bs \<and> length bs \<le> h \<and> be_int bs = sint v \<and>
           der_minimal bs \<and> decode_integer bs h = v"
  using assms by (rule encode_signed)

theorem encode_integer_signed_roundtrip_witness:
  "\<exists>bs. encode_integer True (-129) 9 2 = Inr bs \<and> decode_integer bs 2 = -129"
  using encode_integer_signed_roundtrip [of 2 "-129"] by auto

lemma encode_unsigned:
  assumes "1 \<le> h" "h \<le> 8" "unat v < 2 ^ (8 * h)"
  shows "\<exists>bs. encode_integer False v 9 h = Inr bs \<and> length bs \<le> h + 1 \<and>
           be_int bs = int (unat v) \<and> der_minimal bs \<and> unat (hd bs) < 128 \<and>
           decode_integer bs h = v"
proof -
  obtain bs where bs: "encode_to_octets v 9 h True 8 0 = Inr bs" "bs \<noteq> []" "be_nat bs = unat v"
    "be_int bs = int (unat v)" "der_minimal bs" "length bs \<le> h + 1"
    using encode_nonneg [OF assms] by metis
  have "unat (hd bs) < 128"
    using bs(2-4) be_nat_less [of bs] by (auto simp: be_int_def split: if_splits)
  moreover have "unat v < 2 ^ 64" using unsigned_less [of v, where ?'a = nat] by simp
  ultimately have "unat (decode_integer bs h) = unat v"
    using unat_decode_integer [OF bs(2)] bs(3) by simp
  then show ?thesis
    using bs \<open>unat (hd bs) < 128\<close> by (auto simp: encode_integer_def word_unat_eq_iff)
qed

text \<open>For every unsigned integer that fits in \<open>h\<close> octets, \<open>encode_integer\<close> succeeds and
  writes at most \<open>h + 1\<close> octets (one more than the type, for the sign) that denote the value
  and are DER-minimal, with a clear sign bit, and \<open>decode_integer\<close> gives the value back.\<close>

theorem encode_integer_unsigned_roundtrip:
  assumes "1 \<le> h" "h \<le> 8" "unat v < 2 ^ (8 * h)"
  shows "\<exists>bs. encode_integer False v 9 h = Inr bs \<and> length bs \<le> h + 1 \<and>
           be_int bs = int (unat v) \<and> der_minimal bs \<and> unat (hd bs) < 128 \<and>
           decode_integer bs h = v"
  using assms by (rule encode_unsigned)

theorem encode_integer_unsigned_roundtrip_witness:
  "\<exists>bs. encode_integer False 200 9 1 = Inr bs \<and> length bs \<le> 2 \<and> decode_integer bs 1 = 200"
  using encode_integer_unsigned_roundtrip [of 1 200] by auto

end
