(* ===== verification/Octet_Stream.thy ===== *)
theory Octet_Stream
  imports Prelude
begin

text \<open>
  The in-memory streams of \<^verbatim>\<open>serialisation/octet_vector_stream.{hpp,cpp}\<close>: a reader over a
  span, a writer into a vector, and the combination of both. The interface the DER decoder's
  buffered reader needs from a stream is the locale \<open>octet_source\<close>; both readers implement it.

  A failed \<^verbatim>\<open>read\<close> returns \<^verbatim>\<open>false\<close> (here \<open>None\<close>) and leaves the target buffer alone, but
  moves the read position to the end.
\<close>

section \<open>Reader over a span\<close>

record octet_span_istream =
  data :: octets
  read_pos :: nat
  stream_size :: nat

definition make_istream_sized :: "octets \<Rightarrow> nat \<Rightarrow> octet_span_istream" where
  "make_istream_sized d n = \<lparr>data = d, read_pos = 0, stream_size = n\<rparr>"

definition make_istream :: "octets \<Rightarrow> octet_span_istream" where
  "make_istream d = make_istream_sized d (length d)"

definition istream_read ::
    "octet_span_istream \<Rightarrow> nat \<Rightarrow> octets option \<times> octet_span_istream" where
  "istream_read s n =
     (if read_pos s + n \<le> stream_size s
      then (Some (take n (drop (read_pos s) (data s))), s\<lparr>read_pos := read_pos s + n\<rparr>)
      else (None, s\<lparr>read_pos := stream_size s\<rparr>))"

section \<open>Writer into a vector\<close>

text \<open>\<open>resize\<close> of a vector: cut, or pad with zero octets.\<close>

definition resize :: "octets \<Rightarrow> nat \<Rightarrow> octets" where
  "resize v n = take n v @ replicate (n - length v) 0"

record octet_vector_ostream =
  vec :: octets
  write_pos :: nat

definition make_ostream_at :: "octets \<Rightarrow> nat \<Rightarrow> octet_vector_ostream" where
  "make_ostream_at v n = \<lparr>vec = v, write_pos = n\<rparr>"

definition make_ostream :: "octets \<Rightarrow> octet_vector_ostream" where
  "make_ostream v = make_ostream_at v (length v)"

definition overwrite :: "octets \<Rightarrow> nat \<Rightarrow> octets \<Rightarrow> octets" where
  "overwrite v n b = take n v @ b @ drop (n + length b) v"

definition ostream_write :: "octet_vector_ostream \<Rightarrow> octets \<Rightarrow> octet_vector_ostream" where
  "ostream_write s buf =
     (if buf = [] then s
      else let v = (if write_pos s > length (vec s) then resize (vec s) (write_pos s) else vec s);
               size_left = length v - write_pos s;
               v = (if size_left < length buf then resize v (length v + length buf - size_left)
                    else v)
           in s\<lparr>vec := overwrite v (write_pos s) buf, write_pos := write_pos s + length buf\<rparr>)"

section \<open>Both over one vector\<close>

record octet_vector_stream =
  istream :: octet_span_istream
  ostream :: octet_vector_ostream

definition make_vector_stream_at :: "octets \<Rightarrow> nat \<Rightarrow> octet_vector_stream" where
  "make_vector_stream_at v n = \<lparr>istream = make_istream_sized v n, ostream = make_ostream_at v n\<rparr>"

definition make_vector_stream :: "octets \<Rightarrow> octet_vector_stream" where
  "make_vector_stream v = make_vector_stream_at v (length v)"

definition vector_stream_read ::
    "octet_vector_stream \<Rightarrow> nat \<Rightarrow> octets option \<times> octet_vector_stream" where
  "vector_stream_read s n =
     (let (r, i) = istream_read (istream s) n in (r, s\<lparr>istream := i\<rparr>))"

definition vector_stream_write :: "octet_vector_stream \<Rightarrow> octets \<Rightarrow> octet_vector_stream" where
  "vector_stream_write s buf =
     (let out = ostream_write (ostream s) buf
      in \<lparr>istream = (istream s)\<lparr>data := vec out, stream_size := write_pos out\<rparr>, ostream = out\<rparr>)"

section \<open>The interface of a readable stream\<close>

text \<open>A source holds octets that are still to be read. Reading a non-zero number of them
  returns exactly the next ones; asking for more than there are fails and drains the source.\<close>

locale octet_source =
  fixes sread :: "'s \<Rightarrow> nat \<Rightarrow> octets option \<times> 's"
    and pending :: "'s \<Rightarrow> octets"
    and invar :: "'s \<Rightarrow> bool"
  assumes sread_some: "invar s \<Longrightarrow> 0 < n \<Longrightarrow> n \<le> length (pending s) \<Longrightarrow>
      \<exists>s'. sread s n = (Some (take n (pending s)), s') \<and> pending s' = drop n (pending s) \<and> invar s'"
    and sread_none: "invar s \<Longrightarrow> length (pending s) < n \<Longrightarrow>
      \<exists>s'. sread s n = (None, s') \<and> pending s' = [] \<and> invar s'"
begin

lemma sread_cases:
  assumes "invar s" "0 < n"
  obtains (ok) s' where "sread s n = (Some (take n (pending s)), s')" "n \<le> length (pending s)"
      "pending s' = drop n (pending s)" "invar s'"
  | (short) s' where "sread s n = (None, s')" "length (pending s) < n" "pending s' = []" "invar s'"
  using sread_some [OF assms] sread_none [OF assms(1), of n] by (meson not_le)

text \<open>Reading in two portions is reading at once.\<close>

lemma sread_append:
  assumes "invar s" "0 < m" "0 < n" "m + n \<le> length (pending s)"
  shows "\<exists>s1 s2 t. sread s m = (Some (take m (pending s)), s1) \<and>
           sread s1 n = (Some (take n (drop m (pending s))), s2) \<and>
           sread s (m + n) = (Some (take (m + n) (pending s)), t) \<and> pending s2 = pending t"
proof -
  obtain s1 where s1: "sread s m = (Some (take m (pending s)), s1)"
    "pending s1 = drop m (pending s)" "invar s1"
    using sread_some [of s m] assms by auto
  obtain s2 where s2: "sread s1 n = (Some (take n (pending s1)), s2)" "pending s2 = drop n (pending s1)"
    using sread_some [OF s1(3) assms(3)] assms(4) s1(2) by (metis add_le_imp_le_diff add.commute length_drop)
  obtain t where "sread s (m + n) = (Some (take (m + n) (pending s)), t)"
    "pending t = drop (m + n) (pending s)"
    using sread_some [of s "m + n"] assms by auto
  then show ?thesis using s1 s2 by (auto simp: add.commute)
qed

end

definition istream_pending :: "octet_span_istream \<Rightarrow> octets" where
  "istream_pending s = drop (read_pos s) (take (stream_size s) (data s))"

definition istream_ok :: "octet_span_istream \<Rightarrow> bool" where
  "istream_ok s \<longleftrightarrow> read_pos s \<le> stream_size s \<and> stream_size s \<le> length (data s)"

interpretation span: octet_source istream_read istream_pending istream_ok
proof (unfold_locales, goal_cases)
  case (1 s n)
  then show ?case
    by (auto simp: istream_read_def istream_pending_def istream_ok_def take_drop add.commute)
next
  case (2 s n)
  then show ?case by (auto simp: istream_read_def istream_pending_def istream_ok_def)
qed

lemma istream_pending_make [simp]: "istream_pending (make_istream d) = d"
  by (simp add: make_istream_def make_istream_sized_def istream_pending_def)

lemma istream_ok_make [simp]: "istream_ok (make_istream d)"
  by (simp add: make_istream_def make_istream_sized_def istream_ok_def)

section \<open>Writing\<close>

lemma length_resize [simp]: "length (resize v n) = n"
  by (simp add: resize_def)

lemma length_overwrite [simp]: "n + length b \<le> length v \<Longrightarrow> length (overwrite v n b) = length v"
  by (simp add: overwrite_def)

lemma resize_same [simp]: "resize v (length v) = v"
  by (simp add: resize_def)

text \<open>Whatever the write position, a write puts the octets there, keeps what is before them
  (padding a gap with zeros) and what is after them.\<close>

lemma ostream_write_vec:
  assumes "buf \<noteq> []"
  shows "vec (ostream_write s buf) =
      take (write_pos s) (vec s) @ replicate (write_pos s - length (vec s)) 0 @ buf @
      drop (write_pos s + length buf) (vec s)"
    and "write_pos (ostream_write s buf) = write_pos s + length buf"
  using assms
  by (auto simp: ostream_write_def Let_def overwrite_def resize_def min_def not_less)

lemma ostream_write_Nil [simp]: "ostream_write s [] = s"
  by (simp add: ostream_write_def)

lemma ostream_write_at_end:
  assumes "write_pos s = length (vec s)"
  shows "vec (ostream_write s buf) = vec s @ buf \<and>
         write_pos (ostream_write s buf) = length (vec (ostream_write s buf))"
  using assms by (cases "buf = []") (simp_all add: ostream_write_vec)

section \<open>The combined stream is a queue of octets\<close>

definition vector_stream_ok :: "octet_vector_stream \<Rightarrow> bool" where
  "vector_stream_ok s \<longleftrightarrow> data (istream s) = vec (ostream s) \<and>
     stream_size (istream s) = write_pos (ostream s) \<and> istream_ok (istream s)"

definition vector_stream_pending :: "octet_vector_stream \<Rightarrow> octets" where
  "vector_stream_pending s = istream_pending (istream s)"

lemma istream_read_frame:
  "istream_read s n = (r, s') \<Longrightarrow> data s' = data s \<and> stream_size s' = stream_size s"
  by (auto simp: istream_read_def split: if_splits)

lemma vector_stream_read_istream:
  assumes "istream_read (istream s) n = (r, i)" "vector_stream_ok s" "istream_ok i"
  shows "\<exists>s'. vector_stream_read s n = (r, s') \<and> vector_stream_pending s' = istream_pending i \<and>
    vector_stream_ok s'"
  using assms istream_read_frame [OF assms(1)]
  by (simp add: vector_stream_read_def vector_stream_ok_def vector_stream_pending_def)

interpretation vstream: octet_source vector_stream_read vector_stream_pending vector_stream_ok
proof (unfold_locales, goal_cases)
  case (1 s n)
  then have "istream_ok (istream s)" by (simp add: vector_stream_ok_def)
  then show ?case
    using 1 span.sread_some [of "istream s" n] vector_stream_read_istream [of s n]
    by (metis vector_stream_pending_def)
next
  case (2 s n)
  then have "istream_ok (istream s)" by (simp add: vector_stream_ok_def)
  then show ?case
    using 2 span.sread_none [of "istream s" n] vector_stream_read_istream [of s n]
    by (metis vector_stream_pending_def)
qed

text \<open>The combined stream is a first-in first-out queue of octets: over any vector with the
  write position inside it, a write appends its octets to the pending ones (wherever the write
  position is, and also when it overwrites stale octets of the vector), a read of at most the
  pending octets returns exactly the oldest ones and removes them, a larger read fails and drains
  the stream, and both keep the stream well formed.\<close>

theorem vector_stream_fifo:
  assumes "vector_stream_ok s"
  shows "vector_stream_pending (vector_stream_write s buf) = vector_stream_pending s @ buf \<and>
    vector_stream_ok (vector_stream_write s buf) \<and>
    (\<forall>n. 0 < n \<longrightarrow> n \<le> length (vector_stream_pending s) \<longrightarrow>
       (\<exists>s'. vector_stream_read s n = (Some (take n (vector_stream_pending s)), s') \<and>
         vector_stream_pending s' = drop n (vector_stream_pending s) \<and> vector_stream_ok s')) \<and>
    (\<forall>n. length (vector_stream_pending s) < n \<longrightarrow>
       (\<exists>s'. vector_stream_read s n = (None, s') \<and> vector_stream_pending s' = [] \<and> vector_stream_ok s'))"
proof (intro conjI allI impI)
  have ok: "read_pos (istream s) \<le> write_pos (ostream s)" "write_pos (ostream s) \<le> length (vec (ostream s))"
    "data (istream s) = vec (ostream s)" "stream_size (istream s) = write_pos (ostream s)"
    using assms by (auto simp: vector_stream_ok_def istream_ok_def)
  show "vector_stream_pending (vector_stream_write s buf) = vector_stream_pending s @ buf"
    using ok by (cases "buf = []") (simp_all add: vector_stream_pending_def vector_stream_write_def
        istream_pending_def ostream_write_vec Let_def)
  show "vector_stream_ok (vector_stream_write s buf)"
    using ok by (cases "buf = []") (simp_all add: vector_stream_ok_def vector_stream_write_def
        istream_ok_def ostream_write_vec Let_def)
qed (use assms in \<open>blast intro: vstream.sread_some vstream.sread_none\<close>)+

theorem vector_stream_fifo_witness:
  "vector_stream_pending (vector_stream_write (make_vector_stream_at [7, 8, 9] 1) [1, 2]) = [7, 1, 2]"
proof -
  have "vector_stream_ok (make_vector_stream_at [7, 8, 9] 1)" by code_simp
  from vector_stream_fifo [OF this, of "[1, 2]"]
  have "vector_stream_pending (vector_stream_write (make_vector_stream_at [7, 8, 9] 1) [1, 2]) =
      vector_stream_pending (make_vector_stream_at [7, 8, 9] 1) @ [1, 2]" by blast
  also have "vector_stream_pending (make_vector_stream_at [7, 8, 9] 1) = [7]" by code_simp
  finally show ?thesis by simp
qed

text \<open>A combined stream constructed with a write position past the end of its vector (the case
  \<^verbatim>\<open>octet_vector_ostream::write\<close> is written to support) claims, before the first write, more
  readable octets than the vector holds: a read of that many succeeds although fewer octets exist,
  so the code copies from beyond the end of the vector.\<close>

theorem vector_stream_past_end_read:
  assumes "length v < n"
  shows "\<exists>bs. fst (vector_stream_read (make_vector_stream_at v n) n) = Some bs \<and> length bs < n"
  using assms
  by (simp add: vector_stream_read_def make_vector_stream_at_def make_istream_sized_def istream_read_def)

theorem vector_stream_past_end_read_witness:
  "\<exists>bs. fst (vector_stream_read (make_vector_stream_at [] 4) 4) = Some bs \<and> length bs < 4"
  using vector_stream_past_end_read [of "[]" 4] by simp

end
