(* ===== verification/Buffered_Stream.thy ===== *)
theory Buffered_Stream
  imports Octet_Stream Asn_Util
begin

text \<open>
  The look-ahead reader of \<^verbatim>\<open>serialisation/codec/asn_der/buffered_stream.hpp\<close>, over any
  stream: the stream's \<^verbatim>\<open>read\<close> is the parameter \<open>sread\<close> of the operations, and what they
  rely on is the locale \<open>octet_source\<close>.

  Reads while a peek is open are kept in \<open>buffer\<close> so that they can be repeated. The section
  on the abstraction shows what a client sees: the octets from the current position on
  (\<open>upcoming\<close>) and the position (\<open>pos\<close>); every read takes the next octets off the former and
  advances the latter, peeking or not, and rolling a peek back restores both.
\<close>

record 's buffered_stream =
  stream :: 's
  buffer :: octets
  look_ahead_pos :: nat
  real_pos :: nat
  peek_count :: nat

definition make_buffered :: "'s \<Rightarrow> 's buffered_stream" where
  "make_buffered s = \<lparr>stream = s, buffer = [], look_ahead_pos = 0, real_pos = 0, peek_count = 0\<rparr>"

section \<open>Operations\<close>

definition read_from_buffer :: "nat \<Rightarrow> 's buffered_stream \<Rightarrow> octets \<times> 's buffered_stream" where
  "read_from_buffer s st =
     (if look_ahead_pos st < length (buffer st)
      then let rs = min s (length (buffer st) - look_ahead_pos st);
               buf = take rs (drop (look_ahead_pos st) (buffer st));
               st = st\<lparr>look_ahead_pos := look_ahead_pos st + rs\<rparr>
           in if peek_count st = 0 \<and> look_ahead_pos st = length (buffer st)
              then (buf, st\<lparr>real_pos := real_pos st + look_ahead_pos st, look_ahead_pos := 0,
                            buffer := []\<rparr>)
              else (buf, st)
      else ([], st))"

definition read_from_stream ::
    "('s \<Rightarrow> nat \<Rightarrow> octets option \<times> 's) \<Rightarrow> nat \<Rightarrow> ('s buffered_stream, ser_error, octets) action" where
  "read_from_stream sread s st =
     (case sread (stream st) s of
        (None, str) \<Rightarrow> (Inl (Serialisation_error ''end of stream''), st\<lparr>stream := str\<rparr>)
      | (Some buf, str) \<Rightarrow>
          (Inr buf,
           if peek_count st > 0
           then st\<lparr>stream := str, buffer := buffer st @ buf,
                   look_ahead_pos := look_ahead_pos st + s\<rparr>
           else st\<lparr>stream := str, real_pos := real_pos st + s\<rparr>))"

definition bs_read ::
    "('s \<Rightarrow> nat \<Rightarrow> octets option \<times> 's) \<Rightarrow> nat \<Rightarrow> ('s buffered_stream, ser_error, octets) action" where
  "bs_read sread s st =
     (let (buf, st) = read_from_buffer s st
      in if length buf \<noteq> s
         then (case read_from_stream sread (s - length buf) st of
                 (Inl e, st) \<Rightarrow> (Inl e, st)
               | (Inr rest, st) \<Rightarrow> (Inr (buf @ rest), st))
         else (Inr buf, st))"

definition bs_read1 ::
    "('s \<Rightarrow> nat \<Rightarrow> octets option \<times> 's) \<Rightarrow> ('s buffered_stream, ser_error, octet) action" where
  "bs_read1 sread = bindA (bs_read sread 1) (\<lambda>bs. returnA (hd bs))"

definition readable_bytes ::
    "('s \<Rightarrow> nat \<Rightarrow> octets option \<times> 's) \<Rightarrow> nat \<Rightarrow> 's buffered_stream \<Rightarrow> bool \<times> 's buffered_stream" where
  "readable_bytes sread s st =
     (let buffered = (if look_ahead_pos st < length (buffer st)
                      then length (buffer st) - look_ahead_pos st else 0)
      in if buffered \<ge> s then (True, st)
         else case sread (stream st) (s - buffered) of
                (None, str) \<Rightarrow> (False, st\<lparr>stream := str\<rparr>)
              | (Some rest, str) \<Rightarrow> (True, st\<lparr>stream := str, buffer := buffer st @ rest\<rparr>))"

definition is_peeking :: "'s buffered_stream \<Rightarrow> bool" where
  "is_peeking st \<longleftrightarrow> peek_count st > 0"

definition start_peek :: "'s buffered_stream \<Rightarrow> nat \<times> 's buffered_stream" where
  "start_peek st = (look_ahead_pos st, st\<lparr>peek_count := peek_count st + 1\<rparr>)"

definition end_peek :: "nat \<Rightarrow> bool \<Rightarrow> 's buffered_stream \<Rightarrow> 's buffered_stream" where
  "end_peek p commit st =
     (let st = st\<lparr>peek_count := peek_count st - 1\<rparr>
      in if commit then st else st\<lparr>look_ahead_pos := p\<rparr>)"

definition pos :: "'s buffered_stream \<Rightarrow> nat" where
  "pos st = real_pos st + look_ahead_pos st"

section \<open>What a client sees\<close>

definition upcoming :: "('s \<Rightarrow> octets) \<Rightarrow> 's buffered_stream \<Rightarrow> octets" where
  "upcoming pending st = drop (look_ahead_pos st) (buffer st) @ pending (stream st)"

definition buffered_ok :: "('s \<Rightarrow> bool) \<Rightarrow> 's buffered_stream \<Rightarrow> bool" where
  "buffered_ok invar st \<longleftrightarrow> invar (stream st) \<and> look_ahead_pos st \<le> length (buffer st)"

text \<open>A peek that is open at look-ahead position \<open>p\<close> can be rolled back: from \<open>p\<close> on, buffer
  and stream still hold the octets \<open>bs\<close> that were coming when it was opened, and the position
  there is \<open>q\<close>.\<close>

definition can_rewind ::
    "('s \<Rightarrow> octets) \<Rightarrow> nat \<Rightarrow> octets \<Rightarrow> nat \<Rightarrow> 's buffered_stream \<Rightarrow> bool" where
  "can_rewind pending p bs q st \<longleftrightarrow>
     p \<le> look_ahead_pos st \<and> drop p (buffer st) @ pending (stream st) = bs \<and> real_pos st + p = q"

text \<open>A sequence of reads, for statements about peeks that span several of them.\<close>

fun reads :: "('s \<Rightarrow> nat \<Rightarrow> octets option \<times> 's) \<Rightarrow> nat list \<Rightarrow>
    ('s buffered_stream, ser_error, octets) action" where
  "reads sread [] = returnA []"
| "reads sread (n # ns) = bindA (bs_read sread n) (\<lambda>b. bindA (reads sread ns) (\<lambda>bs. returnA (b @ bs)))"

context octet_source
begin

lemma read_from_buffer_ok:
  assumes "buffered_ok invar st" "read_from_buffer n st = (buf, st')"
  defines "k \<equiv> min n (length (buffer st) - look_ahead_pos st)"
  shows "buf = take k (drop (look_ahead_pos st) (buffer st))" "length buf = k"
    "upcoming pending st' = drop k (upcoming pending st)"
    "pos st' = pos st + k" "buffered_ok invar st'" "peek_count st' = peek_count st"
    "k < n \<Longrightarrow> drop (look_ahead_pos st') (buffer st') = []"
    "stream st' = stream st"
    "0 < peek_count st \<Longrightarrow> buffer st' = buffer st \<and> real_pos st' = real_pos st"
  using assms
  by (auto simp: read_from_buffer_def buffered_ok_def upcoming_def pos_def Let_def min_def
      add.commute split: if_splits)

lemma read_from_stream_ok:
  assumes "buffered_ok invar st" "drop (look_ahead_pos st) (buffer st) = []" "0 < n"
    "n \<le> length (upcoming pending st)"
  shows "\<exists>st'. read_from_stream sread n st = (Inr (take n (upcoming pending st)), st') \<and>
    upcoming pending st' = drop n (upcoming pending st) \<and> pos st' = pos st + n \<and>
    buffered_ok invar st' \<and> peek_count st' = peek_count st \<and>
    (\<forall>p bs q. 0 < peek_count st \<longrightarrow> can_rewind pending p bs q st \<longrightarrow> can_rewind pending p bs q st')"
proof -
  have la: "look_ahead_pos st = length (buffer st)" and i: "invar (stream st)"
    and u: "upcoming pending st = pending (stream st)"
    using assms(1,2) by (auto simp: buffered_ok_def upcoming_def)
  obtain str where str: "sread (stream st) n = (Some (take n (pending (stream st))), str)"
    "pending str = drop n (pending (stream st))" "invar str"
    using sread_some [OF i assms(3)] assms(4) u by auto
  show ?thesis
  proof (cases "0 < peek_count st")
    case True
    show ?thesis using True str la u assms(4)
      by (auto simp: read_from_stream_def upcoming_def pos_def buffered_ok_def can_rewind_def)
  next
    case False
    then show ?thesis using str la u assms(4)
      by (auto simp: read_from_stream_def upcoming_def pos_def buffered_ok_def)
  qed
qed

lemma bs_read_ok:
  assumes "buffered_ok invar st" "n \<le> length (upcoming pending st)"
  obtains st' where "bs_read sread n st = (Inr (take n (upcoming pending st)), st')"
    "upcoming pending st' = drop n (upcoming pending st)" "pos st' = pos st + n"
    "buffered_ok invar st'" "peek_count st' = peek_count st"
    "\<And>p bs q. 0 < peek_count st \<Longrightarrow> can_rewind pending p bs q st \<Longrightarrow> can_rewind pending p bs q st'"
proof -
  obtain buf st1 where 1: "read_from_buffer n st = (buf, st1)" by fastforce
  define k where "k = min n (length (buffer st) - look_ahead_pos st)"
  note b = read_from_buffer_ok [OF assms(1) 1, folded k_def]
  have rew1: "can_rewind pending p bs q st1" if "0 < peek_count st" "can_rewind pending p bs q st" for p bs q
    using that b(4,8,9) by (auto simp: can_rewind_def pos_def)
  have tk: "take k (upcoming pending st) = buf" using b(1) by (simp add: upcoming_def k_def)
  show ?thesis
  proof (cases "k = n")
    case True
    then show ?thesis
      using that [of st1] 1 b tk rew1 by (simp add: bs_read_def)
  next
    case False
    then have k: "k < n" by (simp add: k_def)
    obtain st2 where 2: "read_from_stream sread (n - k) st1 = (Inr (take (n - k) (upcoming pending st1)), st2)"
      "upcoming pending st2 = drop (n - k) (upcoming pending st1)" "pos st2 = pos st1 + (n - k)"
      "buffered_ok invar st2" "peek_count st2 = peek_count st1"
      "\<forall>p bs q. 0 < peek_count st1 \<longrightarrow> can_rewind pending p bs q st1 \<longrightarrow> can_rewind pending p bs q st2"
    proof -
      have "0 < n - k" "n - k \<le> length (upcoming pending st1)" using k b(3) assms(2) by auto
      from read_from_stream_ok [OF b(5) b(7) [OF k] this] that show thesis by blast
    qed
    have "buf @ take (n - k) (drop k (upcoming pending st)) = take n (upcoming pending st)"
      unfolding tk [symmetric] using k by (metis add_diff_inverse_nat not_less_iff_gr_or_eq take_add)
    then have "bs_read sread n st = (Inr (take n (upcoming pending st)), st2)"
      using 1 2(1) b(2,3) False by (simp add: bs_read_def)
    then show ?thesis
      using that [of st2] 2 b(3,4,6) k rew1 by simp
  qed
qed

lemma bs_read_short:
  assumes "buffered_ok invar st" "length (upcoming pending st) < n"
  obtains st' where "bs_read sread n st = (Inl (Serialisation_error ''end of stream''), st')"
    "buffered_ok invar st'" "peek_count st' = peek_count st" "upcoming pending st' = []"
proof -
  obtain buf st1 where 1: "read_from_buffer n st = (buf, st1)" by fastforce
  let ?k = "min n (length (buffer st) - look_ahead_pos st)"
  note b = read_from_buffer_ok [OF assms(1) 1]
  have k: "?k < n" using assms(2) by (auto simp: upcoming_def)
  have "length (pending (stream st1)) < n - ?k"
    using assms(2) b(8) by (auto simp: upcoming_def min_def)
  then obtain str where "sread (stream st1) (n - ?k) = (None, str)" "pending str = []" "invar str"
    using sread_none b(5) by (metis buffered_ok_def)
  then have "read_from_stream sread (n - ?k) st1 =
      (Inl (Serialisation_error ''end of stream''), st1\<lparr>stream := str\<rparr>)"
    and ok: "buffered_ok invar (st1\<lparr>stream := str\<rparr>)" "upcoming pending (st1\<lparr>stream := str\<rparr>) = []"
    using b(5,7) k by (auto simp: read_from_stream_def buffered_ok_def upcoming_def)
  then have "bs_read sread n st = (Inl (Serialisation_error ''end of stream''), st1\<lparr>stream := str\<rparr>)"
    using 1 b(2) k by (simp add: bs_read_def)
  then show ?thesis using that ok b(6) by simp
qed

lemma readable_bytes_eq:
  "readable_bytes sread n st =
     (if n \<le> length (buffer st) - look_ahead_pos st then (True, st)
      else case sread (stream st) (n - (length (buffer st) - look_ahead_pos st)) of
             (None, str) \<Rightarrow> (False, st\<lparr>stream := str\<rparr>)
           | (Some rest, str) \<Rightarrow> (True, st\<lparr>stream := str, buffer := buffer st @ rest\<rparr>))"
proof -
  have "(if look_ahead_pos st < length (buffer st) then length (buffer st) - look_ahead_pos st else 0)
      = length (buffer st) - look_ahead_pos st" by simp
  then show ?thesis unfolding readable_bytes_def Let_def by simp
qed

lemma readable_bytes_ok:
  assumes "buffered_ok invar st" "n \<le> length (upcoming pending st)"
  obtains st' where "readable_bytes sread n st = (True, st')"
    "upcoming pending st' = upcoming pending st" "pos st' = pos st" "buffered_ok invar st'"
    "peek_count st' = peek_count st"
    "\<And>p bs q. can_rewind pending p bs q st \<Longrightarrow> can_rewind pending p bs q st'"
proof (cases "n \<le> length (buffer st) - look_ahead_pos st")
  case True
  then show ?thesis using that [of st] assms(1) by (auto simp: readable_bytes_eq)
next
  case False
  let ?m = "n - (length (buffer st) - look_ahead_pos st)"
  have i: "invar (stream st)" "look_ahead_pos st \<le> length (buffer st)"
    using assms(1) by (auto simp: buffered_ok_def)
  have m: "0 < ?m" "?m \<le> length (pending (stream st))"
    using False assms(2) by (auto simp: upcoming_def)
  obtain str where str: "sread (stream st) ?m = (Some (take ?m (pending (stream st))), str)"
    "pending str = drop ?m (pending (stream st))" "invar str"
    using sread_some [OF i(1) m] by auto
  let ?st = "st\<lparr>stream := str, buffer := buffer st @ take ?m (pending (stream st))\<rparr>"
  have "readable_bytes sread n st = (True, ?st)"
    using False str(1) by (simp add: readable_bytes_eq)
  then show ?thesis
    by (rule that) (use i str in \<open>auto simp: upcoming_def pos_def buffered_ok_def can_rewind_def\<close>)
qed

lemma readable_bytes_short:
  assumes "buffered_ok invar st" "length (upcoming pending st) < n"
  obtains st' where "readable_bytes sread n st = (False, st')" "buffered_ok invar st'"
    "pos st' = pos st" "peek_count st' = peek_count st"
    "upcoming pending st = [] \<Longrightarrow> upcoming pending st' = []"
proof -
  have i: "invar (stream st)" "look_ahead_pos st \<le> length (buffer st)"
    using assms(1) by (auto simp: buffered_ok_def)
  let ?m = "n - (length (buffer st) - look_ahead_pos st)"
  have "length (pending (stream st)) < ?m" using assms(2) i by (auto simp: upcoming_def)
  then obtain str where "sread (stream st) ?m = (None, str)" "pending str = []" "invar str"
    using sread_none [OF i(1)] by auto
  moreover have "\<not> n \<le> length (buffer st) - look_ahead_pos st"
    using assms(2) by (auto simp: upcoming_def)
  ultimately have "readable_bytes sread n st = (False, st\<lparr>stream := str\<rparr>)"
    by (simp add: readable_bytes_eq)
  then show ?thesis
    by (rule that) (use i \<open>pending str = []\<close> \<open>invar str\<close> in
        \<open>auto simp: buffered_ok_def upcoming_def pos_def\<close>)
qed

lemma start_peek_rewind:
  assumes "buffered_ok invar st" "start_peek st = (p, st')"
  shows "can_rewind pending p (upcoming pending st) (pos st) st'" "0 < peek_count st'"
    "buffered_ok invar st'" "upcoming pending st' = upcoming pending st" "pos st' = pos st"
    "peek_count st' = peek_count st + 1"
    "\<And>p bs q. can_rewind pending p bs q st \<Longrightarrow> can_rewind pending p bs q st'"
  using assms by (auto simp: start_peek_def can_rewind_def upcoming_def pos_def buffered_ok_def)

lemma end_peek_rollback:
  assumes "buffered_ok invar st" "can_rewind pending p bs q st"
  shows "upcoming pending (end_peek p False st) = bs" "pos (end_peek p False st) = q"
    "buffered_ok invar (end_peek p False st)"
    "peek_count (end_peek p False st) = peek_count st - 1"
    "\<And>p' bs' q'. p' \<le> p \<Longrightarrow> can_rewind pending p' bs' q' st \<Longrightarrow>
       can_rewind pending p' bs' q' (end_peek p False st)"
  using assms by (auto simp: end_peek_def can_rewind_def upcoming_def pos_def buffered_ok_def)

lemma end_peek_commit:
  assumes "buffered_ok invar st"
  shows "upcoming pending (end_peek p True st) = upcoming pending st" "pos (end_peek p True st) = pos st"
    "buffered_ok invar (end_peek p True st)"
    "peek_count (end_peek p True st) = peek_count st - 1"
    "\<And>p' bs' q'. can_rewind pending p' bs' q' st \<Longrightarrow> can_rewind pending p' bs' q' (end_peek p True st)"
  using assms by (auto simp: end_peek_def can_rewind_def upcoming_def pos_def buffered_ok_def)

lemma reads_ok:
  assumes "buffered_ok invar st" "sum_list ns \<le> length (upcoming pending st)" "0 < peek_count st"
    "can_rewind pending p bs q st"
  shows "\<exists>st'. reads sread ns st = (Inr (take (sum_list ns) (upcoming pending st)), st') \<and>
    upcoming pending st' = drop (sum_list ns) (upcoming pending st) \<and>
    pos st' = pos st + sum_list ns \<and> buffered_ok invar st' \<and> can_rewind pending p bs q st'"
  using assms
proof (induction ns arbitrary: st)
  case Nil
  then show ?case by (simp add: returnA_def)
next
  case (Cons n ns)
  obtain st1 where 1: "bs_read sread n st = (Inr (take n (upcoming pending st)), st1)"
    "upcoming pending st1 = drop n (upcoming pending st)" "pos st1 = pos st + n"
    "buffered_ok invar st1" "0 < peek_count st1" "can_rewind pending p bs q st1"
    using bs_read_ok [OF Cons.prems(1), of n] Cons.prems by (metis add_leD1 sum_list.Cons)
  have "sum_list ns \<le> length (upcoming pending st1)" using 1(2) Cons.prems(2) by simp
  with Cons.IH [OF 1(4) this 1(5,6)] 1(1-3) show ?case
    by (auto simp: bindA_def returnA_def take_add add.commute)
qed

end

section \<open>The reader over an octet span\<close>

text \<open>Reading through the look-ahead buffer is reading from the position: whatever has been
  peeked or buffered before, a read of at most the upcoming octets returns exactly the next ones,
  removes them and advances the position by their number; a larger read throws ``end of stream''.\<close>

theorem buffered_read_refines:
  assumes "buffered_ok istream_ok st"
  shows "if n \<le> length (upcoming istream_pending st)
     then \<exists>st'. bs_read istream_read n st = (Inr (take n (upcoming istream_pending st)), st') \<and>
       upcoming istream_pending st' = drop n (upcoming istream_pending st) \<and>
       pos st' = pos st + n \<and> buffered_ok istream_ok st'
     else \<exists>st'. bs_read istream_read n st = (Inl (Serialisation_error ''end of stream''), st') \<and>
       buffered_ok istream_ok st'"
proof (cases "n \<le> length (upcoming istream_pending st)")
  case True
  then show ?thesis using span.bs_read_ok [OF assms True] by (metis (no_types, lifting))
next
  case False
  then show ?thesis using span.bs_read_short [OF assms] by (metis not_le)
qed

theorem buffered_read_refines_witness:
  "\<exists>st'. bs_read istream_read 2 (make_buffered (make_istream [5, 6, 7])) = (Inr [5, 6], st') \<and> pos st' = 2"
proof -
  have ok: "buffered_ok istream_ok (make_buffered (make_istream [5, 6, 7]))"
    and u: "upcoming istream_pending (make_buffered (make_istream [5, 6, 7])) = [5, 6, 7]"
    and p: "pos (make_buffered (make_istream [5, 6, 7])) = 0"
    by (simp_all add: buffered_ok_def make_buffered_def upcoming_def pos_def)
  show ?thesis using buffered_read_refines [OF ok, of 2] u p by auto
qed

text \<open>A peek can be taken back or kept: after \<open>start_peek\<close>, any sequence of reads that stays
  inside the stream returns the upcoming octets in order; then \<open>end_peek\<close> without commit restores
  the octets and the position from before the peek, and \<open>end_peek\<close> with commit leaves the reader
  exactly behind the octets that were read.\<close>

theorem peek_rollback_and_commit:
  assumes "buffered_ok istream_ok st" "start_peek st = (p, st1)"
    "sum_list ns \<le> length (upcoming istream_pending st)"
  shows "\<exists>st2. reads istream_read ns st1 = (Inr (take (sum_list ns) (upcoming istream_pending st)), st2) \<and>
    upcoming istream_pending (end_peek p False st2) = upcoming istream_pending st \<and>
    pos (end_peek p False st2) = pos st \<and>
    upcoming istream_pending (end_peek p True st2) = drop (sum_list ns) (upcoming istream_pending st) \<and>
    pos (end_peek p True st2) = pos st + sum_list ns"
proof -
  note s = span.start_peek_rewind [OF assms(1,2)]
  obtain st2 where 2: "reads istream_read ns st1 = (Inr (take (sum_list ns) (upcoming istream_pending st1)), st2)"
    "upcoming istream_pending st2 = drop (sum_list ns) (upcoming istream_pending st1)"
    "pos st2 = pos st1 + sum_list ns" "buffered_ok istream_ok st2"
    "can_rewind istream_pending p (upcoming istream_pending st) (pos st) st2"
    using span.reads_ok [OF s(3) _ s(2,1), of ns] s(4) assms(3) by auto
  show ?thesis
    using 2 s(4,5) span.end_peek_rollback [OF 2(4,5)] span.end_peek_commit [OF 2(4)] by auto
qed

theorem peek_rollback_and_commit_witness:
  "\<exists>st2. reads istream_read [1, 2] (snd (start_peek (make_buffered (make_istream [5, 6, 7, 8])))) =
       (Inr [5, 6, 7], st2) \<and> upcoming istream_pending (end_peek 0 False st2) = [5, 6, 7, 8]"
proof -
  let ?st = "make_buffered (make_istream [5, 6, 7, 8])"
  have ok: "buffered_ok istream_ok ?st" "upcoming istream_pending ?st = [5, 6, 7, 8]"
    "start_peek ?st = (0, snd (start_peek ?st))"
    by (simp_all add: buffered_ok_def make_buffered_def upcoming_def start_peek_def)
  show ?thesis using peek_rollback_and_commit [OF ok(1,3), of "[1, 2]"] ok(2) by auto
qed

end
