(* ===== verification/Asn_Encoder.thy ===== *)
theory Asn_Encoder
  imports Octet_Stream Asn_Util
begin

text \<open>
  The DER encoder of \<^verbatim>\<open>serialisation/codec/asn_der/asn_der_encoder.hpp\<close> with the types of
  \<^verbatim>\<open>serialisation/types.hpp\<close> and \<^verbatim>\<open>codec/asn_der/types.hpp\<close>, over an \<open>octet_vector_ostream\<close>
  (every use in the libraries is over that stream; its \<^verbatim>\<open>write\<close> never reports failure).

  The encoder keeps one buffer per open sequence or explicit tag (\<open>layers\<close>, innermost first):
  an element's header needs its length, so the contents are collected first and written to the
  next layer, or to the stream, when the element is closed.
\<close>

section \<open>Types\<close>

record tag_info =
  tag_type :: "octet option"
  tag :: "64 word"

abbreviation (input) universal_c :: octet where "universal_c \<equiv> 0"
abbreviation (input) context_specific_c :: octet where "context_specific_c \<equiv> 2"

abbreviation (input) tag_boolean :: "64 word" where "tag_boolean \<equiv> 0x01"
abbreviation (input) tag_integer :: "64 word" where "tag_integer \<equiv> 0x02"
abbreviation (input) tag_octet_string :: "64 word" where "tag_octet_string \<equiv> 0x04"
abbreviation (input) tag_sequence :: "64 word" where "tag_sequence \<equiv> 0x10"
abbreviation (input) tag_t61string :: "64 word" where "tag_t61string \<equiv> 0x14"

record asn_header =
  asn_class :: octet
  asn_tag :: "64 word"
  asn_length :: nat
  is_constructed :: bool

definition max_structure_size :: nat where
  "max_structure_size = 1024 * 1024 * 2"

definition max_constructed_size :: nat where
  "max_constructed_size = 1024 * 1024 * 512"

definition get_asn_class :: "tag_info option \<Rightarrow> octet" where
  "get_asn_class t =
     (case t of None \<Rightarrow> universal_c
      | Some i \<Rightarrow> (case tag_type i of None \<Rightarrow> context_specific_c | Some c \<Rightarrow> c))"

definition get_tag :: "tag_info option \<Rightarrow> 64 word \<Rightarrow> 64 word" where
  "get_tag t default_tag = (case t of None \<Rightarrow> default_tag | Some i \<Rightarrow> tag i)"

section \<open>State and output\<close>

record asn_encoder =
  out :: octet_vector_ostream
  layers :: "(asn_header \<times> octets) list"

type_synonym 'a enc = "(asn_encoder, ser_error, 'a) action"

definition make_encoder :: "octets \<Rightarrow> asn_encoder" where
  "make_encoder v = \<lparr>out = make_ostream v, layers = []\<rparr>"

definition enc_write :: "octets \<Rightarrow> unit enc" where
  "enc_write b st =
     (case layers st of
        [] \<Rightarrow> (Inr (), st\<lparr>out := ostream_write (out st) b\<rparr>)
      | (h, d) # ls \<Rightarrow> (Inr (), st\<lparr>layers := (h, d @ b) # ls\<rparr>))"

definition enc_push :: "asn_header \<Rightarrow> unit enc" where
  "enc_push info st = (Inr (), st\<lparr>layers := (info, []) # layers st\<rparr>)"

text \<open>\<^verbatim>\<open>pop\<close> asserts that a layer is open; the serialiser pairs every start with its end.\<close>

definition enc_pop :: "(asn_header \<times> octets) enc" where
  "enc_pop st = (Inr (hd (layers st)), st\<lparr>layers := tl (layers st)\<rparr>)"

section \<open>Headers\<close>

definition encode_tag_first_byte :: "octet \<Rightarrow> 64 word \<Rightarrow> bool \<Rightarrow> unit enc" where
  "encode_tag_first_byte asn_c t constructed =
     (let v = push_bit 6 asn_c OR ucast t;
          v = (if constructed then v OR 0x20 else v)
      in enc_write [v])"

definition clear_last_flag :: "octets \<Rightarrow> octets" where
  "clear_last_flag buffer = buffer[length buffer - 1 := last buffer AND NOT 0x80]"

definition encode_long_tag :: "asn_header \<Rightarrow> unit enc" where
  "encode_long_tag header =
     bindA (encode_tag_first_byte (asn_class header) 0x1f (is_constructed header)) (\<lambda>_.
       case encode_to_octets (asn_tag header) 10 8 False 7 0x80 of
         Inl e \<Rightarrow> throwA e
       | Inr buffer \<Rightarrow> enc_write (clear_last_flag buffer))"

definition encode_tag :: "asn_header \<Rightarrow> unit enc" where
  "encode_tag header =
     (if asn_tag header > 30 then encode_long_tag header
      else encode_tag_first_byte (asn_class header) (asn_tag header AND 0x1f) (is_constructed header))"

definition encode_long_length :: "asn_header \<Rightarrow> unit enc" where
  "encode_long_length header =
     (case encode_to_octets (of_nat (asn_length header)) 8 8 False 8 0 of
        Inl e \<Rightarrow> throwA e
      | Inr buffer \<Rightarrow>
          bindA (enc_write [0x80 OR of_nat (length buffer)]) (\<lambda>_. enc_write buffer))"

definition encode_length :: "asn_header \<Rightarrow> unit enc" where
  "encode_length header =
     (if asn_length header > 127 then encode_long_length header
      else enc_write [of_nat (asn_length header) AND NOT 0x80])"

definition encode_header :: "asn_header \<Rightarrow> unit enc" where
  "encode_header header = bindA (encode_tag header) (\<lambda>_. encode_length header)"

definition make_header :: "tag_info option \<Rightarrow> 64 word \<Rightarrow> nat \<Rightarrow> asn_header" where
  "make_header t default_tag n =
     \<lparr>asn_class = get_asn_class t, asn_tag = get_tag t default_tag, asn_length = n,
      is_constructed = False\<rparr>"

section \<open>Elements\<close>

definition enc_integer :: "bool \<Rightarrow> 64 word \<Rightarrow> tag_info option \<Rightarrow> nat \<Rightarrow> 64 word \<Rightarrow> unit enc" where
  "enc_integer is_signed value t size_hint default_tag =
     (case encode_integer is_signed value 9 size_hint of
        Inl e \<Rightarrow> throwA e
      | Inr buffer \<Rightarrow>
          bindA (encode_header (make_header t default_tag (length buffer))) (\<lambda>_. enc_write buffer))"

definition enc_big_integer :: "octets \<Rightarrow> tag_info option \<Rightarrow> 64 word \<Rightarrow> unit enc" where
  "enc_big_integer value t default_tag =
     bindA (encode_header (make_header t default_tag (length value))) (\<lambda>_. enc_write value)"

definition enc_string :: "octets \<Rightarrow> tag_info option \<Rightarrow> 64 word \<Rightarrow> unit enc" where
  "enc_string s t default_tag =
     (if length s > max_structure_size
      then throwA (Serialisation_error ''string too large to be decodable'')
      else bindA (encode_header (make_header t default_tag (length s))) (\<lambda>_.
             if s \<noteq> [] then enc_write s else returnA ()))"

definition encode_bool :: "bool \<Rightarrow> tag_info option \<Rightarrow> unit enc" where
  "encode_bool v t = enc_integer True (if v then 1 else 0) t 1 tag_boolean"

definition encode_int64 :: "64 word \<Rightarrow> tag_info option \<Rightarrow> nat \<Rightarrow> unit enc" where
  "encode_int64 v t size_hint = enc_integer True v t size_hint tag_integer"

definition encode_uint64 :: "64 word \<Rightarrow> tag_info option \<Rightarrow> nat \<Rightarrow> unit enc" where
  "encode_uint64 v t size_hint = enc_integer False v t size_hint tag_integer"

definition encode_big :: "octets \<Rightarrow> tag_info option \<Rightarrow> unit enc" where
  "encode_big v t = enc_big_integer v t tag_integer"

definition encode_str :: "octets \<Rightarrow> tag_info option \<Rightarrow> unit enc" where
  "encode_str s t = enc_string s t tag_t61string"

definition encode_octets :: "octets \<Rightarrow> tag_info option \<Rightarrow> unit enc" where
  "encode_octets s t = enc_string s t tag_octet_string"

definition encode_trailing :: "octets \<Rightarrow> unit enc" where
  "encode_trailing d = enc_write d"

definition enc_start_sequence :: "tag_info option \<Rightarrow> unit enc" where
  "enc_start_sequence t =
     enc_push \<lparr>asn_class = get_asn_class t, asn_tag = get_tag t tag_sequence, asn_length = 0,
               is_constructed = True\<rparr>"

definition enc_end_sequence :: "unit enc" where
  "enc_end_sequence =
     bindA enc_pop (\<lambda>(header, d).
       bindA (encode_header (header\<lparr>asn_length := length d\<rparr>)) (\<lambda>_.
         if d \<noteq> [] then enc_write d else returnA ()))"

definition enc_start_explicit_tag :: "tag_info \<Rightarrow> unit enc" where
  "enc_start_explicit_tag t =
     enc_push \<lparr>asn_class = (case tag_type t of None \<Rightarrow> context_specific_c | Some c \<Rightarrow> c),
               asn_tag = tag t, asn_length = 0, is_constructed = True\<rparr>"

definition enc_end_explicit_tag :: "unit enc" where
  "enc_end_explicit_tag = enc_end_sequence"

section \<open>What the encoder emits\<close>

text \<open>An action \<open>emits bs\<close> when it succeeds and does nothing but append \<open>bs\<close> to the output.\<close>

definition emits :: "unit enc \<Rightarrow> octets \<Rightarrow> bool" where
  "emits f bs \<longleftrightarrow> (\<forall>st. f st = enc_write bs st)"

lemma ostream_write_append:
  "ostream_write (ostream_write s b) c = ostream_write s (b @ c)"
proof (cases "b = [] \<or> c = []")
  case False
  have "min (length (vec s)) (write_pos s) + (write_pos s - length (vec s)) = write_pos s" by simp
  with False show ?thesis
    by (intro octet_vector_ostream.equality) (simp_all add: ostream_write_vec ac_simps)
qed auto

lemma enc_write_append: "bindA (enc_write b) (\<lambda>_. enc_write c) = enc_write (b @ c)"
proof
  fix st
  show "bindA (enc_write b) (\<lambda>_. enc_write c) st = enc_write (b @ c) st"
    by (cases "layers st") (auto simp: bindA_def enc_write_def ostream_write_append)
qed

lemma enc_write_Nil [simp]: "enc_write [] = returnA ()"
  by (rule ext) (auto simp: enc_write_def returnA_def split: list.splits)

lemma emits_write: "emits (enc_write bs) bs"
  by (simp add: emits_def)

lemma emits_return: "emits (returnA ()) []"
  by (simp add: emits_def)

lemma emits_eq: "emits f bs \<longleftrightarrow> f = enc_write bs"
  by (auto simp: emits_def)

lemma emits_bind: "emits f bs \<Longrightarrow> emits g cs \<Longrightarrow> emits (bindA f (\<lambda>_. g)) (bs @ cs)"
  by (simp add: emits_eq enc_write_append)

lemma emits_nested:
  assumes "emits f bs" "emits (encode_header (h\<lparr>asn_length := length bs\<rparr>)) hs"
  shows "emits (bindA (enc_push h) (\<lambda>_. bindA f (\<lambda>_. enc_end_sequence))) (hs @ bs)"
proof -
  have w: "(if bs \<noteq> [] then enc_write bs else returnA ()) = enc_write bs" by simp
  have "bindA (enc_push h) (\<lambda>_. bindA f (\<lambda>_. enc_end_sequence)) st = enc_write (hs @ bs) st" for st
    using assms(2)
    by (simp add: assms(1) [unfolded emits_eq] bindA_def [of "enc_push h"] enc_push_def
        bindA_def [of "enc_write bs"] enc_write_def [of bs] enc_end_sequence_def
        bindA_def [of enc_pop] enc_pop_def w emits_eq enc_write_append del: enc_write_Nil)
  then show ?thesis by (simp add: emits_def)
qed

end
