(* ===== verification/Asn_Decoder.thy ===== *)
theory Asn_Decoder
  imports Buffered_Stream Asn_Encoder
begin

text \<open>
  The DER decoder of \<^verbatim>\<open>serialisation/codec/asn_der/asn_der_decoder.hpp\<close> over an
  \<open>octet_span_istream\<close>, the stream every caller in the libraries uses. The state is the
  look-ahead reader and the stack of the end positions of the open sequences (innermost
  first). Log output is left out.
\<close>

section \<open>State\<close>

record asn_decoder =
  src :: "octet_span_istream buffered_stream"
  seq_pos :: "nat list"

type_synonym 'a dec = "(asn_decoder, ser_error, 'a) action"

definition max_structure_depth :: nat where
  "max_structure_depth = 64"

definition make_decoder :: "octets \<Rightarrow> asn_decoder" where
  "make_decoder d = \<lparr>src = make_buffered (make_istream d), seq_pos = []\<rparr>"

text \<open>A member function of the reader, run on the decoder's reader.\<close>

definition on_src :: "(octet_span_istream buffered_stream, ser_error, 'a) action \<Rightarrow> 'a dec" where
  "on_src f st = (case f (src st) of (r, s') \<Rightarrow> (r, st\<lparr>src := s'\<rparr>))"

definition dec_read :: "nat \<Rightarrow> octets dec" where
  "dec_read n = on_src (bs_read istream_read n)"

definition dec_read1 :: "octet dec" where
  "dec_read1 = on_src (bs_read1 istream_read)"

definition dec_readable_bytes :: "nat \<Rightarrow> bool dec" where
  "dec_readable_bytes n = on_src (\<lambda>s. case readable_bytes istream_read n s of (b, s') \<Rightarrow> (Inr b, s'))"

definition dec_start_peek :: "asn_decoder \<Rightarrow> nat \<times> asn_decoder" where
  "dec_start_peek st = (case start_peek (src st) of (p, s') \<Rightarrow> (p, st\<lparr>src := s'\<rparr>))"

definition dec_end_peek :: "nat \<Rightarrow> bool \<Rightarrow> asn_decoder \<Rightarrow> asn_decoder" where
  "dec_end_peek p commit st = st\<lparr>src := end_peek p commit (src st)\<rparr>"

definition position :: "asn_decoder \<Rightarrow> nat" where
  "position st = pos (src st)"

definition is_end_of_sequence :: "asn_decoder \<Rightarrow> bool" where
  "is_end_of_sequence st = (case seq_pos st of [] \<Rightarrow> False | p # _ \<Rightarrow> p \<le> position st)"

section \<open>Sequence stack\<close>

definition dec_push :: "nat \<Rightarrow> unit dec" where
  "dec_push n st =
     (if length (seq_pos st) \<ge> max_structure_depth
      then (Inl (Serialisation_error ''structure nesting too deep''), st)
      else (Inr (), st\<lparr>seq_pos := (position st + n) # seq_pos st\<rparr>))"

text \<open>Every successful read moves the position, whatever the reader holds; this is why the
  skipping loop of \<^verbatim>\<open>pop\<close> stops.\<close>

lemma bs_read1_pos:
  assumes "bs_read1 sread s = (Inr b, s')"
  shows "pos s' = pos s + 1"
  using assms
  by (auto simp: bs_read1_def bindA_def returnA_def bs_read_def read_from_buffer_def
      read_from_stream_def pos_def Let_def split: if_splits prod.splits sum.splits option.splits)

lemma dec_read1_position: "(Inr b, st') = dec_read1 st \<Longrightarrow> position st' = position st + 1"
  by (auto simp: dec_read1_def on_src_def position_def dest: bs_read1_pos split: prod.splits)

function skip_to :: "nat \<Rightarrow> unit dec" where
  "skip_to target st =
     (if position st < target
      then (case dec_read1 st of (Inl e, st') \<Rightarrow> (Inl e, st') | (Inr _, st') \<Rightarrow> skip_to target st')
      else (Inr (), st))"
  by pat_completeness auto
termination
  by (relation "measure (\<lambda>(target, st). target - position st)")
    (auto dest!: dec_read1_position)

declare skip_to.simps [simp del]

text \<open>\<^verbatim>\<open>pop\<close> asserts that a sequence is open; every caller opens one first.\<close>

definition dec_pop :: "unit dec" where
  "dec_pop st = (case seq_pos st of
       [] \<Rightarrow> (Inr (), st)
     | p # ps \<Rightarrow> skip_to p (st\<lparr>seq_pos := ps\<rparr>))"

section \<open>Headers\<close>

text \<open>The loop counter runs from 0 and the code throws when it would read a tenth
  continuation octet; \<open>left\<close> counts down the continuation octets still allowed.\<close>

fun decode_long_tag_loop :: "nat \<Rightarrow> 64 word \<Rightarrow> octet \<Rightarrow> 64 word dec" where
  "decode_long_tag_loop left ret b =
     (if b AND 0x80 \<noteq> 0
      then (case left of
              0 \<Rightarrow> throwA (Serialisation_error ''too long tag in asn header'')
            | Suc left' \<Rightarrow>
                bindA dec_read1 (decode_long_tag_loop left' (push_bit 7 ret OR ucast (b AND 0x7f))))
      else returnA (push_bit 7 ret OR ucast b))"

definition decode_long_tag :: "64 word dec" where
  "decode_long_tag = bindA dec_read1 (decode_long_tag_loop 9 0)"

definition decode_tag_number :: "octet \<Rightarrow> 64 word dec" where
  "decode_tag_number b =
     (if b AND 0x1f = 0x1f then decode_long_tag else returnA (ucast (b AND 0x1f)))"

definition decode_long_length :: "octet \<Rightarrow> nat dec" where
  "decode_long_length b =
     (let size = unat (b AND NOT 0x80)
      in if size > 8 \<or> size = 0
         then throwA (Serialisation_error ''illegal length in asn header'')
         else bindA (dec_read size) (\<lambda>buf. returnA (unat (decode_from_octets buf))))"

definition decode_length :: "nat dec" where
  "decode_length =
     bindA dec_read1 (\<lambda>b.
       if b AND 0x80 \<noteq> 0 then decode_long_length b else returnA (unat (b AND NOT 0x80)))"

definition decode_tag :: "asn_header dec" where
  "decode_tag =
     bindA dec_read1 (\<lambda>b.
       bindA (decode_tag_number b) (\<lambda>t.
         returnA \<lparr>asn_class = drop_bit 6 b, asn_tag = t, asn_length = 0,
                  is_constructed = (b AND 0x20 \<noteq> 0)\<rparr>))"

definition decode_any_header :: "asn_header dec" where
  "decode_any_header =
     bindA decode_tag (\<lambda>header.
       bindA decode_length (\<lambda>n.
         let max_size = (if is_constructed header then max_constructed_size else max_structure_size)
         in if n > max_size then throwA (Serialisation_error ''asn structure too big'')
            else returnA (header\<lparr>asn_length := n\<rparr>)))"

text \<open>The first test of \<^verbatim>\<open>decode_header\<close>: outside any sequence the element is absent at a clean
  end of the stream, inside one at the end of the sequence.\<close>

definition header_absent :: "bool dec" where
  "header_absent st =
     (if is_end_of_sequence st then (Inr True, st)
      else if seq_pos st = [] then bindA (dec_readable_bytes 1) (\<lambda>b. returnA (\<not> b)) st
           else (Inr False, st))"

definition decode_header :: "octet \<Rightarrow> 64 word \<Rightarrow> asn_header dec" where
  "decode_header cls t =
     bindA header_absent (\<lambda>absent.
       if absent
       then throwA (Element_not_present ''end of sequence when trying to decode header'')
       else bindA decode_any_header (\<lambda>header.
              if asn_class header \<noteq> cls \<or> asn_tag header \<noteq> t
              then throwA (Element_not_present ''asn class or tag does not match'')
              else returnA header))"

section \<open>Elements\<close>

definition dec_string :: "tag_info option \<Rightarrow> 64 word \<Rightarrow> octets dec" where
  "dec_string t default_tag =
     bindA (decode_header (get_asn_class t) (get_tag t default_tag)) (\<lambda>header.
       dec_read (asn_length header))"

definition dec_integer :: "bool \<Rightarrow> tag_info option \<Rightarrow> nat \<Rightarrow> 64 word \<Rightarrow> 64 word dec" where
  "dec_integer is_signed t size_hint default_tag =
     bindA (decode_header (get_asn_class t) (get_tag t default_tag)) (\<lambda>header.
       if asn_length header > size_hint + (if is_signed then 0 else 1)
       then throwA (Serialisation_error ''integer does not fit to given type'')
       else if asn_length header = 0
       then throwA (Serialisation_error ''integer must be at least one octet'')
       else bindA (dec_read (asn_length header)) (\<lambda>buf.
              if (buf ! 0) AND 0x80 \<noteq> 0 \<and> \<not> is_signed
              then throwA (Serialisation_error ''unsigned/signed mismatch'')
              else returnA (decode_integer buf size_hint)))"

definition dec_big_integer :: "tag_info option \<Rightarrow> 64 word \<Rightarrow> octets dec" where
  "dec_big_integer t default_tag =
     bindA (decode_header (get_asn_class t) (get_tag t default_tag)) (\<lambda>header.
       if asn_length header = 0
       then throwA (Serialisation_error ''integer must be at least one octet'')
       else dec_read (asn_length header))"

definition decode_bool :: "tag_info option \<Rightarrow> bool dec" where
  "decode_bool t = bindA (dec_integer True t 1 tag_boolean) (\<lambda>v. returnA (v \<noteq> 0))"

definition decode_int64 :: "tag_info option \<Rightarrow> nat \<Rightarrow> 64 word dec" where
  "decode_int64 t size_hint = dec_integer True t size_hint tag_integer"

definition decode_uint64 :: "tag_info option \<Rightarrow> nat \<Rightarrow> 64 word dec" where
  "decode_uint64 t size_hint = dec_integer False t size_hint tag_integer"

definition decode_big :: "tag_info option \<Rightarrow> octets dec" where
  "decode_big t = dec_big_integer t tag_integer"

definition decode_str :: "tag_info option \<Rightarrow> octets dec" where
  "decode_str t = dec_string t tag_t61string"

definition decode_octets :: "tag_info option \<Rightarrow> octets dec" where
  "decode_octets t = dec_string t tag_octet_string"

text \<open>The object is only assigned when there is something left; it is default-constructed by
  every caller, so nothing left reads as the empty vector.\<close>

definition decode_trailing :: "octets dec" where
  "decode_trailing st =
     (case seq_pos st of
        [] \<Rightarrow> (Inl (Serialisation_error ''trailing data decoded outside a sequence''), st)
      | p # _ \<Rightarrow> if position st < p then dec_read (p - position st) st else (Inr [], st))"

definition dec_start_sequence :: "tag_info option \<Rightarrow> unit dec" where
  "dec_start_sequence t =
     bindA (decode_header (get_asn_class t) (get_tag t tag_sequence)) (\<lambda>header.
       if \<not> is_constructed header then throwA (Serialisation_error ''invalid sequence'')
       else dec_push (asn_length header))"

definition dec_end_sequence :: "unit dec" where
  "dec_end_sequence = dec_pop"

definition dec_start_explicit_tag :: "tag_info \<Rightarrow> unit dec" where
  "dec_start_explicit_tag t =
     bindA (decode_header (case tag_type t of None \<Rightarrow> context_specific_c | Some c \<Rightarrow> c) (tag t))
       (\<lambda>header.
         if \<not> is_constructed header then throwA (Serialisation_error ''invalid explicit tag'')
         else dec_push (asn_length header))"

definition dec_end_explicit_tag :: "unit dec" where
  "dec_end_explicit_tag = dec_pop"

section \<open>Queries\<close>

text \<open>\<^verbatim>\<open>stream_peek_guard\<close>: whatever the guarded action does, the peek is rolled back.\<close>

definition guarded_peek :: "'a dec \<Rightarrow> 'a dec" where
  "guarded_peek f st =
     (let (p, st) = dec_start_peek st; (r, st) = f st in (r, dec_end_peek p False st))"

definition next_header :: "asn_header dec" where
  "next_header = guarded_peek decode_any_header"

definition next_tag :: "tag_info dec" where
  "next_tag = bindA next_header (\<lambda>h. returnA \<lparr>tag_type = Some (asn_class h), tag = asn_tag h\<rparr>)"

definition next_length :: "asn_decoder \<Rightarrow> nat \<times> asn_decoder" where
  "next_length st =
     (let p = position st
      in case guarded_peek (bindA decode_any_header (\<lambda>h st. (Inr (position st - p + asn_length h), st))) st of
           (Inl e, st) \<Rightarrow> (0, st)
         | (Inr n, st) \<Rightarrow> (n, st))"

definition has_next :: "asn_decoder \<Rightarrow> nat \<times> asn_decoder" where
  "has_next st =
     (let (n, st) = next_length st
      in if n = 0 then (0, st)
         else case dec_readable_bytes n st of
                (Inr True, st) \<Rightarrow> (n, st)
              | (_, st) \<Rightarrow> (0, st))"

end
