(* ===== verification/Asn_Codec.thy ===== *)
theory Asn_Codec
  imports Asn_Decoder
begin

text \<open>
  What the DER encoder writes, the DER decoder reads. The encoder side is \<open>emits f bs\<close> (the
  action succeeds and appends \<open>bs\<close>); the decoder side is \<open>parses d f bs x\<close>: with \<open>bs\<close> coming
  up, inside the innermost open sequence, and room for \<open>d\<close> more nested structures, the action
  returns \<open>x\<close> and leaves the decoder just behind \<open>bs\<close>, with everything a caller can see
  otherwise unchanged and every open peek still good to roll back.
\<close>

section \<open>Reading from the decoder's point of view\<close>

definition dec_ok :: "asn_decoder \<Rightarrow> bool" where
  "dec_ok st \<longleftrightarrow> buffered_ok istream_ok (src st)"

definition input :: "asn_decoder \<Rightarrow> octets" where
  "input st = upcoming istream_pending (src st)"

definition advances :: "nat \<Rightarrow> asn_decoder \<Rightarrow> asn_decoder \<Rightarrow> bool" where
  "advances n st st' \<longleftrightarrow> n \<le> length (input st) \<and> input st' = drop n (input st) \<and>
     position st' = position st + n \<and> seq_pos st' = seq_pos st \<and> dec_ok st' \<and>
     peek_count (src st') = peek_count (src st) \<and>
     (\<forall>p bs q. 0 < peek_count (src st) \<longrightarrow> can_rewind istream_pending p bs q (src st) \<longrightarrow>
        can_rewind istream_pending p bs q (src st'))"

definition inside :: "nat \<Rightarrow> asn_decoder \<Rightarrow> bool" where
  "inside n st \<longleftrightarrow> (case seq_pos st of [] \<Rightarrow> True | p # _ \<Rightarrow> position st + n \<le> p)"

definition parses :: "nat \<Rightarrow> 'a dec \<Rightarrow> octets \<Rightarrow> 'a \<Rightarrow> bool" where
  "parses d f bs x \<longleftrightarrow>
     (\<forall>st rest. dec_ok st \<longrightarrow> input st = bs @ rest \<longrightarrow> inside (length bs) st \<longrightarrow>
        length (seq_pos st) + d \<le> max_structure_depth \<longrightarrow>
        (\<exists>st'. f st = (Inr x, st') \<and> advances (length bs) st st'))"

lemma dec_ok_make [simp]: "dec_ok (make_decoder d)"
  by (simp add: dec_ok_def make_decoder_def make_buffered_def buffered_ok_def)

lemma input_make [simp]: "input (make_decoder d) = d"
  by (simp add: input_def make_decoder_def make_buffered_def upcoming_def)

lemma position_make [simp]: "position (make_decoder d) = 0"
  by (simp add: position_def make_decoder_def make_buffered_def pos_def)

lemma seq_pos_make [simp]: "seq_pos (make_decoder d) = []"
  by (simp add: make_decoder_def)

lemma advances_refl: "dec_ok st \<Longrightarrow> advances 0 st st"
  by (simp add: advances_def)

lemma advances_trans: "advances m st st' \<Longrightarrow> advances n st' st'' \<Longrightarrow> advances (m + n) st st''"
  by (auto simp: advances_def add.commute)

lemma advances_input: "advances (length bs) st st' \<Longrightarrow> input st = bs @ rest \<Longrightarrow> input st' = rest"
  by (simp add: advances_def)

lemma advances_inside: "advances m st st' \<Longrightarrow> inside (m + n) st \<Longrightarrow> inside n st'"
  by (auto simp: advances_def inside_def split: list.splits)

lemma dec_read_ok:
  assumes "dec_ok st" "n \<le> length (input st)"
  shows "\<exists>st'. dec_read n st = (Inr (take n (input st)), st') \<and> advances n st st'"
proof -
  obtain s where s: "bs_read istream_read n (src st) = (Inr (take n (upcoming istream_pending (src st))), s)"
    "upcoming istream_pending s = drop n (upcoming istream_pending (src st))" "pos s = pos (src st) + n"
    "buffered_ok istream_ok s" "peek_count s = peek_count (src st)"
    "\<And>p bs q. 0 < peek_count (src st) \<Longrightarrow> can_rewind istream_pending p bs q (src st) \<Longrightarrow>
       can_rewind istream_pending p bs q s"
    using span.bs_read_ok [OF assms [unfolded dec_ok_def input_def]] by (metis (no_types, lifting))
  then have "dec_read n st = (Inr (take n (input st)), st\<lparr>src := s\<rparr>)"
    by (simp add: dec_read_def on_src_def input_def)
  moreover have "advances n st (st\<lparr>src := s\<rparr>)"
    using s assms by (auto simp: advances_def input_def position_def dec_ok_def)
  ultimately show ?thesis by blast
qed

lemma dec_read1_eq: "dec_read1 = bindA (dec_read 1) (\<lambda>bs. returnA (hd bs))"
  by (rule ext) (auto simp: dec_read1_def dec_read_def on_src_def bs_read1_def bindA_def returnA_def
      split: prod.splits sum.splits)

section \<open>Combining parsers\<close>

lemma parsesI:
  assumes "\<And>st rest. dec_ok st \<Longrightarrow> input st = bs @ rest \<Longrightarrow> inside (length bs) st \<Longrightarrow>
      length (seq_pos st) + d \<le> max_structure_depth \<Longrightarrow>
      \<exists>st'. f st = (Inr x, st') \<and> advances (length bs) st st'"
  shows "parses d f bs x"
  using assms by (simp add: parses_def)

lemma parsesD:
  assumes "parses d f bs x" "dec_ok st" "input st = bs @ rest" "inside (length bs) st"
    "length (seq_pos st) + d \<le> max_structure_depth"
  obtains st' where "f st = (Inr x, st')" "advances (length bs) st st'"
  using assms unfolding parses_def by blast

lemma parses_return: "parses d (returnA x) [] x"
  by (auto simp: parses_def returnA_def intro: advances_refl)

lemma parses_bind:
  assumes "parses d f bs x" "parses d (g x) cs y"
  shows "parses d (bindA f g) (bs @ cs) y"
proof (rule parsesI)
  fix st rest
  assume st: "dec_ok st" "input st = (bs @ cs) @ rest" "inside (length (bs @ cs)) st"
    "length (seq_pos st) + d \<le> max_structure_depth"
  have "inside (length bs) st" using st(3) by (auto simp: inside_def split: list.splits)
  then obtain st1 where 1: "f st = (Inr x, st1)" "advances (length bs) st st1"
    using parsesD [OF assms(1) st(1), of "cs @ rest"] st by auto
  have "dec_ok st1" "seq_pos st1 = seq_pos st" using 1(2) by (auto simp: advances_def)
  moreover have "inside (length cs) st1" using advances_inside [OF 1(2)] st(3) by simp
  ultimately obtain st2 where 2: "g x st1 = (Inr y, st2)" "advances (length cs) st1 st2"
    using parsesD [OF assms(2)] advances_input [OF 1(2)] st by (metis append.assoc)
  show "\<exists>st'. bindA f g st = (Inr y, st') \<and> advances (length (bs @ cs)) st st'"
    using 1 2 advances_trans [OF 1(2) 2(2)] by (auto simp: bindA_ok)
qed

lemma parses_read: "parses d (dec_read (length bs)) bs bs"
proof (rule parsesI)
  fix st rest
  assume "dec_ok st" "input st = bs @ rest"
  then show "\<exists>st'. dec_read (length bs) st = (Inr bs, st') \<and> advances (length bs) st st'"
    using dec_read_ok [of st "length bs"] by simp
qed

lemma parses_read1: "parses d dec_read1 [b] b"
  using parses_bind [OF parses_read [of d "[b]"] parses_return, of "\<lambda>bs. hd bs" ] 
  by (simp add: dec_read1_eq)

lemma parses_if_True: "P \<Longrightarrow> parses d f bs x \<Longrightarrow> parses d (if P then f else g) bs x"
  by simp

lemma parses_weaken: "parses d f bs x \<Longrightarrow> d \<le> d' \<Longrightarrow> parses d' f bs x"
  by (auto simp: parses_def)

section \<open>The identifier octet\<close>

definition first_octet :: "octet \<Rightarrow> octet \<Rightarrow> bool \<Rightarrow> octet" where
  "first_octet cls t constructed =
     (let v = push_bit 6 cls OR t in if constructed then v OR 0x20 else v)"

lemma first_octet_decode:
  assumes "unat cls < 4" "unat t < 32"
  shows "drop_bit 6 (first_octet cls t c) = cls" "first_octet cls t c AND 0x20 \<noteq> 0 \<longleftrightarrow> c"
    "first_octet cls t c AND 0x1f = t"
proof -
  have b2: "bit cls n \<Longrightarrow> n < 2" for n using bit_imp_less [of cls n 2] assms by simp
  have b5: "bit t n \<Longrightarrow> n < 5" for n using bit_imp_less [of t n 5] assms by simp
  have f: "bit (first_octet cls t c) n \<longleftrightarrow> n < 8 \<and> (6 \<le> n \<and> bit cls (n - 6) \<or> bit t n \<or> c \<and> n = 5)" for n
  proof -
    have "(0x20 :: octet) = 2 ^ 5" by simp
    then have "bit (0x20 :: octet) n \<longleftrightarrow> n = 5" by (simp only: bit_exp_iff) auto
    then show ?thesis using b5 [of n] by (auto simp: first_octet_def Let_def bit_simps)
  qed
  show "drop_bit 6 (first_octet cls t c) = cls"
  proof (rule bit_word_eqI)
    fix n assume "n < LENGTH(8)"
    show "bit (drop_bit 6 (first_octet cls t c)) n = bit cls n"
      using b2 [of n] b5 [of "6 + n"] by (auto simp: bit_drop_bit_eq f)
  qed
  have "first_octet cls t c AND 2 ^ 5 = 0 \<longleftrightarrow> \<not> bit (first_octet cls t c) 5" by (rule and_exp_eq_0)
  then show "first_octet cls t c AND 0x20 \<noteq> 0 \<longleftrightarrow> c" using b5 [of 5] by (auto simp: f)
  have m: "(0x1f :: octet) = mask 5" by (simp add: mask_eq_exp_minus_1)
  show "first_octet cls t c AND 0x1f = t"
    unfolding m
  proof (rule bit_word_eqI)
    fix n assume "n < LENGTH(8)"
    then show "bit (first_octet cls t c AND mask 5) n = bit t n"
      using b5 [of n] by (auto simp: bit_and_iff bit_mask_iff f)
  qed
qed

lemma encode_tag_first_byte_eq:
  "encode_tag_first_byte cls t c = enc_write [first_octet cls (ucast t) c]"
  by (simp add: encode_tag_first_byte_def first_octet_def Let_def)

section \<open>High tag numbers\<close>

definition flagged :: "nat list \<Rightarrow> octets" where
  "flagged ds = map (\<lambda>d. of_nat (128 + d)) ds"

lemma push_bit_7_or:
  "unat b < 128 \<Longrightarrow> push_bit 7 ret OR ucast (b :: octet) = ret * 128 + (of_nat (unat b) :: 64 word)"
proof -
  assume "unat b < 128"
  then have b7: "bit b n \<Longrightarrow> n < 7" for n using bit_imp_less [of b n 7] by simp
  have "push_bit 7 ret AND ucast b = (0 :: 64 word)"
  proof (rule bit_word_eqI)
    fix n
    show "bit (push_bit 7 ret AND ucast b :: 64 word) n = bit (0 :: 64 word) n"
      using b7 [of n] by (auto simp: bit_simps)
  qed
  then have "push_bit 7 ret OR ucast b = push_bit 7 ret + (ucast b :: 64 word)"
    by (rule disjunctive_add_eq_or [symmetric])
  then show ?thesis by (simp add: push_bit_eq_mult)
qed

lemma octet_low7: "d < 128 \<Longrightarrow> unat ((of_nat (128 + d) :: octet) AND 0x7f) = d"
proof -
  assume d: "d < 128"
  have m: "(0x7f :: octet) = mask 7" by (simp add: mask_eq_exp_minus_1)
  have "unat ((of_nat (128 + d) :: octet) AND 0x7f) = take_bit 7 (unat (of_nat (128 + d) :: octet))"
    unfolding m by (simp add: unsigned_take_bit_eq flip: take_bit_eq_mask)
  also have "\<dots> = (128 + d) mod 128" using d by (simp add: take_bit_eq_mod unat_of_nat del: of_nat_add)
  finally show ?thesis using d by simp
qed

declare decode_long_tag_loop.simps [simp del]

lemma parses_long_tag_loop:
  assumes "length ds \<le> k" "\<forall>d \<in> set ds. d < 128" "e < 128"
  shows "parses n (bindA dec_read1 (decode_long_tag_loop k ret)) (flagged ds @ [of_nat e])
    (ret * 128 ^ Suc (length ds) + of_nat (be_value 128 (ds @ [e])))"
  using assms
proof (induction ds arbitrary: k ret)
  case Nil
  have "unat (of_nat e :: octet) = e" using Nil by (simp add: unat_of_nat_octet)
  then have "decode_long_tag_loop k ret (of_nat e) = returnA (ret * 128 + of_nat e)"
    using Nil push_bit_7_or [of "of_nat e" ret] by (simp add: and_0x80 [simplified] decode_long_tag_loop.simps)
  then have "parses n (decode_long_tag_loop k ret (of_nat e)) [] (ret * 128 + of_nat e)"
    by (simp only: parses_return)
  from parses_bind [where g = "decode_long_tag_loop k ret", OF parses_read1 this] show ?case
    by (simp add: flagged_def)
next
  case (Cons d ds)
  then obtain k' where k: "k = Suc k'" by (cases k) auto
  let ?b = "of_nat (128 + d) :: octet"
  have d: "d < 128" using Cons.prems by simp
  then have u: "unat ?b = 128 + d" by (intro unat_of_nat_octet) simp
  let ?ret = "ret * 128 + of_nat d"
  have "decode_long_tag_loop k ret ?b = bindA dec_read1 (decode_long_tag_loop k' ?ret)"
    using push_bit_7_or [of "?b AND 0x7f" ret] octet_low7 [OF d] d u k
    by (simp add: and_0x80 [simplified] decode_long_tag_loop.simps [of "Suc k'"] del: of_nat_add)
  moreover have "parses n (bindA dec_read1 (decode_long_tag_loop k' ?ret)) (flagged ds @ [of_nat e])
     (?ret * 128 ^ Suc (length ds) + of_nat (be_value 128 (ds @ [e])))"
    using Cons k by simp
  moreover have "?ret * 128 ^ Suc (length ds) + of_nat (be_value 128 (ds @ [e])) =
      ret * 128 ^ Suc (length (d # ds)) + of_nat (be_value 128 ((d # ds) @ [e]))"
    by (simp add: be_value_Cons algebra_simps)
  ultimately show ?case
    using parses_bind [where g = "decode_long_tag_loop k ret", OF parses_read1 [of n ?b]]
    by (simp add: flagged_def)
qed


lemma flagged_nth:
  assumes "i < L"
  shows "bits_from_position t ((L - i - 1) * 7) (2 ^ 7 - 1) OR 0x80 = (of_nat (128 + be_digits 128 L (unat t) ! i) :: octet)"
proof -
  have b: "be_digits 128 L (unat t) ! i < 128"
    by (rule be_digits_bound [of 128 _ L "unat t"]) (use assms in simp_all)
  have "(2::nat) ^ (k * 7) = 128 ^ k" for k by (simp only: mult.commute [of k] power_mult) simp
  then have "unat (bits_from_position t ((L - i - 1) * 7) (2 ^ 7 - 1)) = be_digits 128 L (unat t) ! i"
    using unat_bits_from_position [of 7 t "(L - i - 1) * 7"] be_digits_nth [OF assms, of 128 "unat t"]
    by simp
  then have "unat (bits_from_position t ((L - i - 1) * 7) (2 ^ 7 - 1) OR 0x80) = 128 + be_digits 128 L (unat t) ! i"
    using unat_or_0x80 b by simp
  also have "\<dots> = unat (of_nat (128 + be_digits 128 L (unat t) ! i) :: octet)"
    using b by (intro unat_of_nat_octet [symmetric]) simp
  finally show ?thesis by (simp only: word_unat_eq_iff)
qed

lemma encode_long_tag_octets:
  obtains ds e where "encode_to_octets t 10 8 False 7 0x80 = Inr (flagged (ds @ [e]))"
    "clear_last_flag (flagged (ds @ [e])) = flagged ds @ [of_nat e]"
    "length ds \<le> 9" "\<forall>d \<in> set ds. d < 128" "e < 128" "be_value 128 (ds @ [e]) = unat t"
proof -
  define L where "L = highest_bit_block t False 8 7 + 1"
  have lt: "unat t < 2 ^ (8 * 8)" using unsigned_less [of t, where ?'a = nat] by simp
  have L: "unat t < 128 ^ L" "L \<le> 10" "0 < L"
    using hbb_unsigned [of 7 t 8] lt by (simp_all add: L_def)
  let ?xs = "be_digits 128 L (unat t)"
  have dig: "\<forall>d \<in> set ?xs. d < 128" using be_digits_bound [of 128] by auto
  have "encode_to_octets t 10 8 False 7 0x80 =
      Inr (map (\<lambda>i. bits_from_position t ((L - i - 1) * 7) (push_bit 7 1 - 1) OR 0x80) [0..<L])"
    using L(2) unfolding encode_to_octets_def Let_def L_def [symmetric] by (simp only: not_less [symmetric] if_False)
  also have "map (\<lambda>i. bits_from_position t ((L - i - 1) * 7) (push_bit 7 1 - 1) OR 0x80) [0..<L] = flagged ?xs"
    using flagged_nth by (intro nth_equalityI) (simp_all add: flagged_def del: of_nat_add)
  finally have enc: "encode_to_octets t 10 8 False 7 0x80 = Inr (flagged ?xs)" .
  have "?xs \<noteq> []" using L(3) length_be_digits [of 128 L "unat t"] by (metis list.size(3) less_irrefl)
  then obtain ds e where x: "?xs = ds @ [e]" by (metis append_butlast_last_id)
  have e: "e < 128" using dig x by simp
  have "(of_nat (128 + e) :: octet) AND NOT 0x80 = of_nat e"
    using e by (simp only: word_unat_eq_iff unat_and_not_0x80) (simp add: unat_of_nat del: of_nat_add)
  then have "clear_last_flag (flagged (ds @ [e])) = flagged ds @ [of_nat e]"
    by (simp add: clear_last_flag_def flagged_def list_update_append del: of_nat_add)
  moreover have "length ds \<le> 9" using arg_cong [OF x, of length] L(2) by simp
  moreover have "be_value 128 (ds @ [e]) = unat t" using x L(1) be_value_digits [of 128 L "unat t"] by simp
  ultimately show ?thesis using that enc dig x e by simp
qed

section \<open>Headers\<close>

definition header_ok :: "asn_header \<Rightarrow> bool" where
  "header_ok h \<longleftrightarrow> unat (asn_class h) < 4 \<and>
     asn_length h \<le> (if is_constructed h then max_constructed_size else max_structure_size)"

lemma decode_tag_roundtrip:
  assumes "unat (asn_class h) < 4"
  shows "\<exists>bs. bs \<noteq> [] \<and> length bs \<le> 11 \<and> emits (encode_tag h) bs \<and> parses n decode_tag bs (h\<lparr>asn_length := 0\<rparr>)"
proof -
  have p: "parses n (decode_tag_number b) cs (asn_tag h) \<Longrightarrow> b = first_octet (asn_class h) t (is_constructed h) \<Longrightarrow>
      unat t < 32 \<Longrightarrow> parses n decode_tag (b # cs) (h\<lparr>asn_length := 0\<rparr>)" for b cs t
  proof -
    assume a: "parses n (decode_tag_number b) cs (asn_tag h)" "b = first_octet (asn_class h) t (is_constructed h)" "unat t < 32"
    have "parses n (returnA \<lparr>asn_class = drop_bit 6 b, asn_tag = asn_tag h, asn_length = 0, is_constructed = b AND 32 \<noteq> 0\<rparr>) []
        (h\<lparr>asn_length := 0\<rparr>)"
      using first_octet_decode [OF assms a(3)] a(2) by (cases h) (simp add: parses_return)
    from parses_bind [where g = "\<lambda>t. returnA \<lparr>asn_class = drop_bit 6 b, asn_tag = t, asn_length = 0, is_constructed = b AND 32 \<noteq> 0\<rparr>", OF a(1) this]
    have "parses n (bindA (decode_tag_number b) (\<lambda>t. returnA \<lparr>asn_class = drop_bit 6 b, asn_tag = t, asn_length = 0, is_constructed = b AND 32 \<noteq> 0\<rparr>)) cs (h\<lparr>asn_length := 0\<rparr>)"
      by simp
    from parses_bind [where g = "\<lambda>b. bindA (decode_tag_number b) (\<lambda>t. returnA \<lparr>asn_class = drop_bit 6 b, asn_tag = t, asn_length = 0, is_constructed = b AND 32 \<noteq> 0\<rparr>)", OF parses_read1 this]
    show ?thesis by (simp add: decode_tag_def)
  qed
  show ?thesis
  proof (cases "30 < asn_tag h")
    case True
    obtain ds e where d: "encode_to_octets (asn_tag h) 10 8 False 7 0x80 = Inr (flagged (ds @ [e]))"
      "clear_last_flag (flagged (ds @ [e])) = flagged ds @ [of_nat e]"
      "length ds \<le> 9" "\<forall>d \<in> set ds. d < 128" "e < 128" "be_value 128 (ds @ [e]) = unat (asn_tag h)"
      using encode_long_tag_octets by metis
    let ?b = "first_octet (asn_class h) 0x1f (is_constructed h)"
    have "emits (encode_tag h) (?b # flagged ds @ [of_nat e])"
      using True d(1,2) by (simp add: encode_tag_def encode_long_tag_def encode_tag_first_byte_eq emits_eq enc_write_append)
    moreover have "decode_tag_number ?b = decode_long_tag"
      using first_octet_decode(3) [OF assms, of "0x1f"] by (simp add: decode_tag_number_def)
    then have "parses n (decode_tag_number ?b) (flagged ds @ [of_nat e]) (asn_tag h)"
      using parses_long_tag_loop [OF d(3-5), of n 0, unfolded d(6)] by (simp add: decode_long_tag_def)
    then have "parses n decode_tag (?b # flagged ds @ [of_nat e]) (h\<lparr>asn_length := 0\<rparr>)" using p by simp
    moreover have "length (?b # flagged ds @ [of_nat e]) \<le> 11" using d(3) by (simp add: flagged_def)
    ultimately show ?thesis by blast
  next
    case False
    then have u: "unat (asn_tag h) < 31" by (simp add: word_less_nat_alt)
    have t: "asn_tag h AND 0x1f = asn_tag h"
    proof -
      have m: "(0x1f :: 64 word) = mask 5" by (simp add: mask_eq_exp_minus_1)
      have "unat (asn_tag h AND mask 5) = take_bit 5 (unat (asn_tag h))"
        by (simp only: take_bit_eq_mask [symmetric] unsigned_take_bit_eq)
      then show ?thesis using u unfolding m by (simp add: word_unat_eq_iff take_bit_eq_mod)
    qed
    let ?t = "ucast (asn_tag h) :: octet"
    let ?b = "first_octet (asn_class h) ?t (is_constructed h)"
    have ut: "unat ?t = unat (asn_tag h)" using u by (simp add: unsigned_ucast_eq take_bit_nat_eq_self)
    have b: "?b AND 0x1f = ?t" using first_octet_decode(3) [OF assms] u ut by simp
    have ne: "?t \<noteq> 0x1f" using u ut by auto
    have "ucast ?t = asn_tag h" using ut by (simp add: word_unat_eq_iff)
    then have "parses n (decode_tag_number ?b) [] (asn_tag h)"
      using b ne by (simp add: decode_tag_number_def parses_return)
    then have "parses n decode_tag [?b] (h\<lparr>asn_length := 0\<rparr>)" using p u ut by simp
    moreover have "emits (encode_tag h) [?b]"
      using False t by (simp add: encode_tag_def encode_tag_first_byte_eq emits_write)
    ultimately show ?thesis by (intro exI [of _ "[?b]"]) simp
  qed
qed

lemma decode_length_roundtrip:
  assumes "asn_length h < 2 ^ 64"
  shows "\<exists>bs. length bs \<le> 9 \<and> emits (encode_length h) bs \<and> parses n decode_length bs (asn_length h)"
proof (cases "127 < asn_length h")
  case True
  let ?v = "of_nat (asn_length h) :: 64 word"
  have u: "unat ?v = asn_length h" using assms by (simp add: unat_of_nat)
  define L where "L = highest_bit_block ?v False 8 8 + 1"
  have L: "unat ?v < 256 ^ L" "L \<le> 8" "0 < L"
    using hbb_unsigned [of 8 ?v 8] assms u by (simp_all add: L_def)
  obtain buf where buf: "encode_to_octets ?v 8 8 False 8 0 = Inr buf"
    using L(2) unfolding encode_to_octets_def Let_def L_def [symmetric] by (auto simp: not_less)
  have b: "length buf = L" "be_nat buf = asn_length h"
    using be_nat_encoded [OF buf] L(1) by (simp_all add: L_def u)
  let ?b = "0x80 OR of_nat L :: octet"
  have ub: "unat ?b = 128 + L"
    using unat_or_0x80 [of "of_nat L"] L(2) by (simp add: unat_of_nat or.commute)
  have sz: "unat (?b AND NOT 0x80) = L" using ub L(2) by (simp only: unat_and_not_0x80) simp
  have "emits (encode_length h) (?b # buf)"
    using True buf b(1) by (simp add: encode_length_def encode_long_length_def emits_eq enc_write_append)
  moreover have "parses n (decode_long_length ?b) buf (asn_length h)"
  proof -
    have "unat (decode_from_octets buf) = asn_length h"
      using unat_decode_from_octets [of buf] b(2) assms by simp
    then have "parses n (returnA (unat (decode_from_octets buf))) [] (asn_length h)"
      by (simp add: parses_return)
    from parses_bind [where g = "\<lambda>buf. returnA (unat (decode_from_octets buf))", OF parses_read this]
    show ?thesis unfolding decode_long_length_def Let_def sz using L b(1) by simp
  qed
  moreover have "?b AND 0x80 \<noteq> 0" unfolding and_0x80 ub by simp
  ultimately have "parses n decode_length (?b # buf) (asn_length h)"
    using parses_bind [where g = "\<lambda>b. if b AND 0x80 \<noteq> 0 then decode_long_length b else returnA (unat (b AND NOT 0x80))",
        OF parses_read1 [of n ?b], of buf "asn_length h"]
    by (simp add: decode_length_def)
  moreover have "length (?b # buf) \<le> 9" using b(1) L(2) by simp
  ultimately show ?thesis using \<open>emits (encode_length h) (?b # buf)\<close> by blast
next
  case False
  let ?b = "of_nat (asn_length h) AND NOT 0x80 :: octet"
  have u: "unat ?b = asn_length h" using False by (simp only: unat_and_not_0x80) (simp add: unat_of_nat)
  have "\<not> (?b AND 0x80 \<noteq> 0)" unfolding and_0x80 u using False by simp
  moreover have "unat (?b AND NOT 0x80) = asn_length h"
    unfolding unat_and_not_0x80 [of ?b] u using False by simp
  ultimately have "parses n (if ?b AND 0x80 \<noteq> 0 then decode_long_length ?b else returnA (unat (?b AND NOT 0x80))) [] (asn_length h)"
    by (simp only: if_False parses_return)
  from parses_bind [where g = "\<lambda>b. if b AND 0x80 \<noteq> 0 then decode_long_length b else returnA (unat (b AND NOT 0x80))", OF parses_read1 this]
  have "parses n decode_length [?b] (asn_length h)" by (simp add: decode_length_def)
  then show ?thesis using False by (intro exI [of _ "[?b]"]) (simp add: encode_length_def emits_write)
qed

lemma header_roundtrip:
  assumes "header_ok h"
  shows "\<exists>bs. bs \<noteq> [] \<and> length bs \<le> 20 \<and> emits (encode_header h) bs \<and> parses n decode_any_header bs h"
proof -
  have lt: "asn_length h < 2 ^ 64"
    using assms by (auto simp: header_ok_def max_constructed_size_def max_structure_size_def split: if_splits)
  have cls: "unat (asn_class h) < 4" using assms by (simp add: header_ok_def)
  obtain ts where t: "ts \<noteq> []" "emits (encode_tag h) ts" "parses n decode_tag ts (h\<lparr>asn_length := 0\<rparr>)" "length ts \<le> 11"
    using decode_tag_roundtrip [OF cls] by blast
  obtain ls where l: "emits (encode_length h) ls" "parses n decode_length ls (asn_length h)" "length ls \<le> 9"
    using decode_length_roundtrip [OF lt] by blast
  let ?k = "\<lambda>h0 m. let max_size = (if is_constructed h0 then max_constructed_size else max_structure_size)
       in if m > max_size then throwA (Serialisation_error ''asn structure too big'')
          else returnA (h0\<lparr>asn_length := m\<rparr>)"
  have "parses n (?k (h\<lparr>asn_length := 0\<rparr>) (asn_length h)) [] h"
    using assms by (cases h) (auto simp: header_ok_def Let_def intro: parses_return)
  from parses_bind [where g = "?k (h\<lparr>asn_length := 0\<rparr>)", OF l(2) this]
  have "parses n (bindA decode_length (?k (h\<lparr>asn_length := 0\<rparr>))) ls h" by simp
  from parses_bind [where g = "\<lambda>h0. bindA decode_length (?k h0)", OF t(3) this]
  have "parses n decode_any_header (ts @ ls) h" by (simp add: decode_any_header_def)
  moreover have "emits (encode_header h) (ts @ ls)"
    unfolding encode_header_def using t(2) l(1) by (rule emits_bind)
  moreover have "ts @ ls \<noteq> []" "length (ts @ ls) \<le> 20" using t(1,4) l(3) by simp_all
  ultimately show ?thesis by blast
qed

section \<open>Expected headers\<close>

lemma readable_bytes_advances:
  assumes "dec_ok st" "1 \<le> length (input st)"
  shows "\<exists>st'. dec_readable_bytes 1 st = (Inr True, st') \<and> advances 0 st st'"
proof -
  obtain s where s: "readable_bytes istream_read 1 (src st) = (True, s)"
    "upcoming istream_pending s = upcoming istream_pending (src st)" "pos s = pos (src st)"
    "buffered_ok istream_ok s" "peek_count s = peek_count (src st)"
    "\<And>p bs q. can_rewind istream_pending p bs q (src st) \<Longrightarrow> can_rewind istream_pending p bs q s"
    using span.readable_bytes_ok [OF assms [unfolded dec_ok_def input_def]] by (metis (no_types, lifting))
  then show ?thesis
    by (auto simp: dec_readable_bytes_def on_src_def advances_def input_def position_def dec_ok_def)
qed

lemma header_absent_False:
  assumes "dec_ok st" "input st = b # bs" "inside 1 st"
  shows "\<exists>st'. header_absent st = (Inr False, st') \<and> advances 0 st st'"
proof (cases "seq_pos st")
  case Nil
  then obtain st' where "dec_readable_bytes 1 st = (Inr True, st')" "advances 0 st st'"
    using readable_bytes_advances [of st] assms by auto
  then show ?thesis using Nil by (simp add: header_absent_def is_end_of_sequence_def bindA_ok returnA_def)
next
  case (Cons p ps)
  then show ?thesis using assms
    by (auto simp: header_absent_def is_end_of_sequence_def inside_def intro: advances_refl)
qed

lemma parses_decode_header:
  assumes "bs \<noteq> []" "parses n decode_any_header bs h" "asn_class h = cls" "asn_tag h = t"
  shows "parses n (decode_header cls t) bs h"
proof (rule parsesI)
  fix st rest
  assume st: "dec_ok st" "input st = bs @ rest" "inside (length bs) st"
    "length (seq_pos st) + n \<le> max_structure_depth"
  have "inside 1 st" using st(3) assms(1) by (cases bs) (auto simp: inside_def split: list.splits)
  then obtain st1 where 1: "header_absent st = (Inr False, st1)" "advances 0 st st1"
    using header_absent_False [OF st(1)] st(2) assms(1) by (cases bs) auto
  then have "dec_ok st1" "input st1 = bs @ rest" "inside (length bs) st1"
    "length (seq_pos st1) + n \<le> max_structure_depth"
    using st advances_inside [of 0 st st1] by (auto simp: advances_def)
  then obtain st2 where 2: "decode_any_header st1 = (Inr h, st2)" "advances (length bs) st1 st2"
    using parsesD [OF assms(2)] by metis
  have "decode_header cls t st = (Inr h, st2)"
    using assms(3,4) by (simp add: decode_header_def bindA_def 1(1) 2(1) returnA_def)
  then show "\<exists>st'. decode_header cls t st = (Inr h, st') \<and> advances (length bs) st st'"
    using advances_trans [OF 1(2) 2(2)] by simp
qed

section \<open>Elements\<close>

lemma make_header_simps [simp]:
  "asn_class (make_header t d n) = get_asn_class t" "asn_tag (make_header t d n) = get_tag t d"
  "asn_length (make_header t d n) = n" "is_constructed (make_header t d n) = False"
  by (simp_all add: make_header_def)

text \<open>Tags whose class, when given, is one of the four ASN.1 classes.\<close>

definition tag_ok :: "tag_info option \<Rightarrow> bool" where
  "tag_ok t \<longleftrightarrow> unat (get_asn_class t) < 4"

lemma tag_ok_None [simp]: "tag_ok None"
  by (simp add: tag_ok_def get_asn_class_def)

lemma tag_ok_context [simp]: "tag_ok (Some \<lparr>tag_type = None, tag = n\<rparr>)"
  by (simp add: tag_ok_def get_asn_class_def)

text \<open>A primitive element: header and contents, read by a decoder that expects its tag.\<close>

lemma primitive_roundtrip:
  assumes "tag_ok t" "length bs \<le> max_structure_size"
    and "\<And>h. asn_length h = length bs \<Longrightarrow> parses n (k h) bs x"
  shows "\<exists>hs. hs \<noteq> [] \<and>
    emits (bindA (encode_header (make_header t d (length bs))) (\<lambda>_. enc_write bs)) (hs @ bs) \<and>
    parses n (bindA (decode_header (get_asn_class t) (get_tag t d)) k) (hs @ bs) x"
proof -
  let ?h = "make_header t d (length bs)"
  have "header_ok ?h" using assms(1,2) by (simp add: header_ok_def tag_ok_def)
  then obtain hs where hs: "hs \<noteq> []" "emits (encode_header ?h) hs" "parses n decode_any_header hs ?h"
    using header_roundtrip by blast
  have "parses n (decode_header (get_asn_class t) (get_tag t d)) hs ?h"
    using parses_decode_header [OF hs(1,3)] by simp
  from parses_bind [where g = k, OF this assms(3)] emits_bind [OF hs(2) emits_write] hs(1)
  show ?thesis by auto
qed

lemma string_roundtrip:
  assumes "tag_ok t" "length s \<le> max_structure_size"
  shows "\<exists>hs. hs \<noteq> [] \<and> emits (enc_string s t d) (hs @ s) \<and> parses n (dec_string t d) (hs @ s) s"
proof -
  have w: "(if s \<noteq> [] then enc_write s else returnA ()) = enc_write s" by simp
  show ?thesis
    using primitive_roundtrip [OF assms, of n "\<lambda>h. dec_read (asn_length h)" s d] assms(2)
    by (simp add: enc_string_def dec_string_def w parses_read del: enc_write_Nil)
qed

lemma big_integer_roundtrip:
  assumes "tag_ok t" "length v \<le> max_structure_size" "v \<noteq> []"
  shows "\<exists>hs. hs \<noteq> [] \<and> emits (enc_big_integer v t d) (hs @ v) \<and> parses n (dec_big_integer t d) (hs @ v) v"
  using primitive_roundtrip [OF assms(1,2), of n "\<lambda>h. if asn_length h = 0
       then throwA (Serialisation_error ''integer must be at least one octet'') else dec_read (asn_length h)" v d]
    assms(3)
  by (simp add: enc_big_integer_def dec_big_integer_def parses_read)

lemma integer_roundtrip:
  assumes "tag_ok t" "encode_integer sg v 9 h = Inr bs" "bs \<noteq> []" "h \<le> 8"
    "length bs \<le> h + (if sg then 0 else 1)" "sg \<or> unat (hd bs) < 128" "decode_integer bs h = v"
  shows "\<exists>hs. hs \<noteq> [] \<and> emits (enc_integer sg v t h d) (hs @ bs) \<and> parses n (dec_integer sg t h d) (hs @ bs) v"
proof -
  let ?k2 = "\<lambda>buf. if (buf ! 0) AND 0x80 \<noteq> 0 \<and> \<not> sg
      then throwA (Serialisation_error ''unsigned/signed mismatch'')
      else returnA (decode_integer buf h) :: 64 word dec"
  let ?k = "\<lambda>hd. if asn_length hd > h + (if sg then 0 else 1)
       then throwA (Serialisation_error ''integer does not fit to given type'')
       else if asn_length hd = 0 then throwA (Serialisation_error ''integer must be at least one octet'')
       else bindA (dec_read (asn_length hd)) ?k2"
  have "\<not> ((bs ! 0) AND 0x80 \<noteq> 0 \<and> \<not> sg)"
    using assms(3,6) unfolding and_0x80 by (auto simp: hd_conv_nth)
  then have "parses n (?k2 bs) [] v" using assms(7) by (auto simp: parses_return)
  from parses_bind [where g = ?k2, OF parses_read this]
  have p: "parses n (bindA (dec_read (length bs)) ?k2) bs v" by simp
  have "length bs \<le> max_structure_size"
    using assms(4,5) by (auto simp: max_structure_size_def split: if_splits)
  from primitive_roundtrip [OF assms(1) this, of n ?k v d] p assms(3,5) show ?thesis
    unfolding enc_integer_def dec_integer_def assms(2) by simp
qed

section \<open>Properties of the codec\<close>

text \<open>The DER header round trip: for every header with one of the four classes, any 64-bit tag
  number (short and long form) and any length up to the decoder's limit for its kind (short and
  long form), the encoder writes octets from which the decoder reads exactly that header, and
  leaves whatever follows unread.\<close>

theorem asn_header_roundtrip:
  assumes "header_ok h"
  shows "\<exists>st st'. encode_header h (make_encoder []) = (Inr (), st) \<and>
    decode_any_header (make_decoder (vec (out st) @ rest)) = (Inr h, st') \<and> input st' = rest"
proof -
  obtain bs where bs: "bs \<noteq> []" "emits (encode_header h) bs" "parses 0 decode_any_header bs h"
    using header_roundtrip [OF assms] by blast
  obtain st' where "decode_any_header (make_decoder (bs @ rest)) = (Inr h, st')"
    "advances (length bs) (make_decoder (bs @ rest)) st'"
    using parsesD [OF bs(3) dec_ok_make, of "bs @ rest" rest] by (auto simp: inside_def max_structure_depth_def)
  moreover have "encode_header h (make_encoder []) = (Inr (), (make_encoder [])\<lparr>out := ostream_write (make_ostream []) bs\<rparr>)"
    using bs(2) by (simp add: emits_def enc_write_def make_encoder_def)
  moreover have "vec (ostream_write (make_ostream []) bs) = bs"
    using ostream_write_at_end [of "make_ostream []" bs] by (simp add: make_ostream_def make_ostream_at_def)
  ultimately show ?thesis using advances_input by auto
qed

theorem asn_header_roundtrip_witness:
  "\<exists>st st'. encode_header \<lparr>asn_class = 2, asn_tag = 1000, asn_length = 70000, is_constructed = True\<rparr> (make_encoder [])
      = (Inr (), st) \<and>
    decode_any_header (make_decoder (vec (out st) @ [9])) =
      (Inr \<lparr>asn_class = 2, asn_tag = 1000, asn_length = 70000, is_constructed = True\<rparr>, st') \<and> input st' = [9]"
  using asn_header_roundtrip [of "\<lparr>asn_class = 2, asn_tag = 1000, asn_length = 70000, is_constructed = True\<rparr>" "[9]"]
  by (simp add: header_ok_def max_constructed_size_def)

end
