(* ===== verification/Serialiser.thy ===== *)
theory Serialiser
  imports Asn_Codec
begin

text \<open>
  The \<^verbatim>\<open>serialiser\<close> and \<^verbatim>\<open>deserialiser\<close> of \<^verbatim>\<open>serialisation/serialiser.hpp\<close> and
  \<^verbatim>\<open>deserialiser.hpp\<close>, with \<^verbatim>\<open>sequence.hpp\<close>, \<^verbatim>\<open>container.hpp\<close>, \<^verbatim>\<open>tag.hpp\<close>, \<^verbatim>\<open>helpers.hpp\<close> and
  \<^verbatim>\<open>enum.hpp\<close>.

  The C++ overload set of \<^verbatim>\<open>handle\<close> and \<^verbatim>\<open>serialise\<close> is selected by the type of the object.
  Here the types that can be serialised are the datatype \<open>ty\<close>, their values the datatype
  \<open>val\<close>, and the overload set is one function by cases on the type. A user type whose
  \<^verbatim>\<open>serialise\<close> member opens a \<^verbatim>\<open>sequence\<close> and lists its fields is \<open>T_seq\<close>; an enum is the
  integer of its underlying type. \<^verbatim>\<open>explicit_tag(n, std::optional<T>&)\<close>, which has overloads of
  its own, is \<open>T_explicit_optional n T\<close>.
\<close>

section \<open>Types and values\<close>

datatype ty =
    T_bool
  | T_int nat
  | T_uint nat
  | T_integer
  | T_string
  | T_octets
  | T_trailing
  | T_optional ty
  | T_implicit "64 word" ty
  | T_explicit "64 word" ty
  | T_explicit_optional "64 word" ty
  | T_seq "ty list"
  | T_container ty

datatype val =
    V_bool bool
  | V_int "64 word"
  | V_integer octets
  | V_string octets
  | V_octets octets
  | V_trailing octets
  | V_optional "val option"
  | V_seq "val list"

abbreviation (input) context_tag :: "64 word \<Rightarrow> tag_info" where
  "context_tag n \<equiv> \<lparr>tag_type = None, tag = n\<rparr>"

section \<open>Serialiser\<close>

record serialiser =
  enc_state :: asn_encoder
  ser_tag :: "tag_info option"

type_synonym 'a ser = "(serialiser, ser_error, 'a) action"

definition on_enc :: "'a enc \<Rightarrow> 'a ser" where
  "on_enc f st = (case f (enc_state st) of (r, e) \<Rightarrow> (r, st\<lparr>enc_state := e\<rparr>))"

definition ser_use_current_tag :: "tag_info option ser" where
  "ser_use_current_tag st = (Inr (ser_tag st), st\<lparr>ser_tag := None\<rparr>)"

definition ser_set_tag :: "tag_info \<Rightarrow> unit ser" where
  "ser_set_tag t st = (Inr (), st\<lparr>ser_tag := Some t\<rparr>)"

text \<open>The scope of a \<^verbatim>\<open>sequence\<close> object: its destructor closes the sequence also when the body
  throws, and the exception of the body goes on.\<close>

definition ser_sequence :: "unit ser \<Rightarrow> unit ser" where
  "ser_sequence body =
     bindA (bindA ser_use_current_tag (\<lambda>t. on_enc (enc_start_sequence t))) (\<lambda>_ st.
       case body st of
         (Inr _, st) \<Rightarrow> on_enc enc_end_sequence st
       | (Inl e, st) \<Rightarrow> (Inl e, snd (on_enc enc_end_sequence st)))"

text \<open>A value that does not belong to its type cannot be written down in C++; the branches for it
  only make the functions total.\<close>

abbreviation (input) ill_typed :: ser_error where
  "ill_typed \<equiv> Serialisation_error ''ill-typed value''"

definition absent :: "ty \<Rightarrow> val \<Rightarrow> bool" where
  "absent t v = (case t of T_optional _ \<Rightarrow> v = V_optional None | _ \<Rightarrow> False)"

fun serialise_fields :: "(val \<Rightarrow> unit ser) list \<Rightarrow> val list \<Rightarrow> unit ser" where
  "serialise_fields (f # fs) (v # vs) = bindA (f v) (\<lambda>_. serialise_fields fs vs)"
| "serialise_fields [] [] = returnA ()"
| "serialise_fields _ _ = throwA ill_typed"

primrec serialise :: "ty \<Rightarrow> val \<Rightarrow> unit ser" where
  "serialise T_bool v =
     (case v of V_bool b \<Rightarrow> bindA ser_use_current_tag (\<lambda>t. on_enc (encode_bool b t))
      | _ \<Rightarrow> throwA ill_typed)"
| "serialise (T_int n) v =
     (case v of V_int i \<Rightarrow> bindA ser_use_current_tag (\<lambda>t. on_enc (encode_int64 i t n))
      | _ \<Rightarrow> throwA ill_typed)"
| "serialise (T_uint n) v =
     (case v of V_int i \<Rightarrow> bindA ser_use_current_tag (\<lambda>t. on_enc (encode_uint64 i t n))
      | _ \<Rightarrow> throwA ill_typed)"
| "serialise T_integer v =
     (case v of V_integer i \<Rightarrow> bindA ser_use_current_tag (\<lambda>t. on_enc (encode_big i t))
      | _ \<Rightarrow> throwA ill_typed)"
| "serialise T_string v =
     (case v of V_string s \<Rightarrow> bindA ser_use_current_tag (\<lambda>t. on_enc (encode_str s t))
      | _ \<Rightarrow> throwA ill_typed)"
| "serialise T_octets v =
     (case v of V_octets s \<Rightarrow> bindA ser_use_current_tag (\<lambda>t. on_enc (encode_octets s t))
      | _ \<Rightarrow> throwA ill_typed)"
| "serialise T_trailing v =
     (case v of V_trailing d \<Rightarrow> on_enc (encode_trailing d) | _ \<Rightarrow> throwA ill_typed)"
| "serialise (T_optional t) v =
     (case v of V_optional None \<Rightarrow> returnA () | V_optional (Some u) \<Rightarrow> serialise t u
      | _ \<Rightarrow> throwA ill_typed)"
| "serialise (T_implicit n t) v =
     (if absent t v then returnA ()
      else bindA (ser_set_tag (context_tag n)) (\<lambda>_. serialise t v))"
| "serialise (T_explicit n t) v =
     bindA (on_enc (enc_start_explicit_tag (context_tag n))) (\<lambda>_.
       bindA (serialise t v) (\<lambda>_. on_enc enc_end_explicit_tag))"
| "serialise (T_explicit_optional n t) v =
     (case v of
        V_optional None \<Rightarrow> returnA ()
      | V_optional (Some u) \<Rightarrow>
          bindA (on_enc (enc_start_explicit_tag (context_tag n))) (\<lambda>_.
            bindA (serialise t u) (\<lambda>_. on_enc enc_end_explicit_tag))
      | _ \<Rightarrow> throwA ill_typed)"
| "serialise (T_seq ts) v =
     (case v of V_seq vs \<Rightarrow> ser_sequence (serialise_fields (map serialise ts) vs)
      | _ \<Rightarrow> throwA ill_typed)"
| "serialise (T_container t) v =
     (case v of V_seq vs \<Rightarrow> ser_sequence (serialise_fields (map (\<lambda>_. serialise t) vs) vs)
      | _ \<Rightarrow> throwA ill_typed)"

definition asn_der_serialise :: "ty \<Rightarrow> val \<Rightarrow> ser_error + octets" where
  "asn_der_serialise t v =
     (case serialise t v \<lparr>enc_state = make_encoder [], ser_tag = None\<rparr> of
        (Inl e, _) \<Rightarrow> Inl e
      | (Inr _, st) \<Rightarrow> Inr (vec (out (enc_state st))))"

section \<open>Deserialiser\<close>

record deserialiser =
  dec_state :: asn_decoder
  des_tag :: "tag_info option"
  ex :: "ser_error option"

type_synonym 'a des = "(deserialiser, ser_error, 'a) action"

definition on_dec :: "'a dec \<Rightarrow> 'a des" where
  "on_dec f st = (case f (dec_state st) of (r, d) \<Rightarrow> (r, st\<lparr>dec_state := d\<rparr>))"

definition des_use_current_tag :: "tag_info option des" where
  "des_use_current_tag st = (Inr (des_tag st), st\<lparr>des_tag := None\<rparr>)"

definition des_set_tag :: "tag_info \<Rightarrow> unit des" where
  "des_set_tag t st = (Inr (), st\<lparr>des_tag := Some t\<rparr>)"

text \<open>\<^verbatim>\<open>end_sequence\<close> runs in a destructor: an exception is kept in \<open>ex\<close>, and the \<^verbatim>\<open>operator&\<close> that
  surrounds the object rethrows it.\<close>

definition des_end_sequence :: "deserialiser \<Rightarrow> deserialiser" where
  "des_end_sequence st =
     (case on_dec dec_end_sequence st of (Inr _, st) \<Rightarrow> st | (Inl e, st) \<Rightarrow> st\<lparr>ex := Some e\<rparr>)"

definition des_sequence :: "'a des \<Rightarrow> 'a des" where
  "des_sequence body =
     bindA (bindA des_use_current_tag (\<lambda>t. on_dec (dec_start_sequence t))) (\<lambda>_ st.
       case body st of (r, st) \<Rightarrow> (r, des_end_sequence st))"

definition amp :: "'a des \<Rightarrow> 'a des" where
  "amp f = bindA f (\<lambda>v st. case ex st of None \<Rightarrow> (Inr v, st) | Some e \<Rightarrow> (Inl e, st\<lparr>ex := None\<rparr>))"

text \<open>\<^verbatim>\<open>handle(std::optional<T>&, etag)\<close>: the peek is committed when nothing was thrown; only
  \<^verbatim>\<open>element_not_present\<close> means that the field is absent.\<close>

definition des_optional :: "tag_info option \<Rightarrow> val des \<Rightarrow> val des" where
  "des_optional etag f st =
     (let (p, d) = dec_start_peek (dec_state st);
          body = bindA (case etag of None \<Rightarrow> returnA () | Some t \<Rightarrow> on_dec (dec_start_explicit_tag t)) (\<lambda>_.
                   bindA (amp f) (\<lambda>v.
                     bindA (case etag of None \<Rightarrow> returnA () | Some t \<Rightarrow> on_dec dec_end_explicit_tag) (\<lambda>_.
                       returnA v)));
          (r, st) = body (st\<lparr>dec_state := d\<rparr>);
          st = st\<lparr>dec_state := dec_end_peek p (case r of Inr _ \<Rightarrow> True | Inl _ \<Rightarrow> False) (dec_state st)\<rparr>
      in case r of
           Inr v \<Rightarrow> (Inr (V_optional (Some v)), st)
         | Inl (Element_not_present _) \<Rightarrow> (Inr (V_optional None), st)
         | Inl e \<Rightarrow> (Inl e, st))"

fun deserialise_fields :: "val des list \<Rightarrow> val list des" where
  "deserialise_fields [] = returnA []"
| "deserialise_fields (f # fs) =
     bindA (amp f) (\<lambda>v. bindA (deserialise_fields fs) (\<lambda>vs. returnA (v # vs)))"

text \<open>The loop of \<^verbatim>\<open>container_serialise\<close>. An element that consumes nothing throws, so there are at
  most as many rounds as there are octets left to read, and one more that fails; the loop runs with that many.\<close>

fun container_loop :: "nat \<Rightarrow> val des \<Rightarrow> val list des" where
  "container_loop rounds f st =
     (if is_end_of_sequence (dec_state st) then (Inr [], st)
      else case rounds of
             0 \<Rightarrow> (Inl (Serialisation_error ''out of rounds''), st)
           | Suc rounds' \<Rightarrow>
               let pos_before = position (dec_state st)
               in bindA (amp f) (\<lambda>v st.
                    if position (dec_state st) = pos_before
                    then (Inl (Serialisation_error ''container element did not consume any data''), st)
                    else bindA (container_loop rounds' f) (\<lambda>vs. returnA (v # vs)) st) st)"

definition container_rounds :: "asn_decoder \<Rightarrow> nat" where
  "container_rounds st = Suc (length (input st))"

primrec deserialise :: "ty \<Rightarrow> val des" where
  "deserialise T_bool =
     bindA des_use_current_tag (\<lambda>t. bindA (on_dec (decode_bool t)) (\<lambda>b. returnA (V_bool b)))"
| "deserialise (T_int n) =
     bindA des_use_current_tag (\<lambda>t. bindA (on_dec (decode_int64 t n)) (\<lambda>i. returnA (V_int i)))"
| "deserialise (T_uint n) =
     bindA des_use_current_tag (\<lambda>t.
       bindA (on_dec (decode_uint64 t n)) (\<lambda>i. returnA (V_int (take_bit (8 * n) i))))"
| "deserialise T_integer =
     bindA des_use_current_tag (\<lambda>t. bindA (on_dec (decode_big t)) (\<lambda>i. returnA (V_integer i)))"
| "deserialise T_string =
     bindA des_use_current_tag (\<lambda>t. bindA (on_dec (decode_str t)) (\<lambda>s. returnA (V_string s)))"
| "deserialise T_octets =
     bindA des_use_current_tag (\<lambda>t. bindA (on_dec (decode_octets t)) (\<lambda>s. returnA (V_octets s)))"
| "deserialise T_trailing = bindA (on_dec decode_trailing) (\<lambda>d. returnA (V_trailing d))"
| "deserialise (T_optional t) = des_optional None (deserialise t)"
| "deserialise (T_implicit n t) =
     bindA (des_set_tag (context_tag n)) (\<lambda>_. amp (deserialise t))"
| "deserialise (T_explicit n t) =
     bindA (on_dec (dec_start_explicit_tag (context_tag n))) (\<lambda>_.
       bindA (amp (deserialise t)) (\<lambda>v.
         bindA (on_dec dec_end_explicit_tag) (\<lambda>_. returnA v)))"
| "deserialise (T_explicit_optional n t) = des_optional (Some (context_tag n)) (deserialise t)"
| "deserialise (T_seq ts) =
     bindA (des_sequence (deserialise_fields (map deserialise ts))) (\<lambda>vs. returnA (V_seq vs))"
| "deserialise (T_container t) =
     bindA (des_sequence (\<lambda>st. container_loop (container_rounds (dec_state st)) (deserialise t) st))
       (\<lambda>vs. returnA (V_seq vs))"

definition make_deserialiser :: "octets \<Rightarrow> deserialiser" where
  "make_deserialiser d = \<lparr>dec_state = make_decoder d, des_tag = None, ex = None\<rparr>"

definition asn_der_deserialise :: "ty \<Rightarrow> octets \<Rightarrow> ser_error + val" where
  "asn_der_deserialise t d = fst (amp (deserialise t) (make_deserialiser d))"

end
