(* ===== verification/Serialiser_Roundtrip.thy ===== *)
theory Serialiser_Roundtrip
  imports Serialiser
begin

text \<open>
  What a type serialises to, it deserialises from. The reference encoding \<open>der\<close> is a pure
  function from a type, the pending implicit tag and a value to octets; the stateful serialiser
  emits exactly it, and the deserialiser reads it back, for every well-formed type and every
  value within the decoder's limits.
\<close>

section \<open>Reference encoding\<close>

definition header_octets :: "asn_header \<Rightarrow> octets" where
  "header_octets h = vec (out (snd (encode_header h (make_encoder []))))"

definition element :: "octet \<Rightarrow> 64 word \<Rightarrow> bool \<Rightarrow> octets \<Rightarrow> octets" where
  "element cls t constructed c =
     header_octets \<lparr>asn_class = cls, asn_tag = t, asn_length = length c, is_constructed = constructed\<rparr> @ c"

definition int_octets :: "bool \<Rightarrow> 64 word \<Rightarrow> nat \<Rightarrow> octets" where
  "int_octets sg v n = (case encode_integer sg v 9 n of Inr bs \<Rightarrow> bs | Inl _ \<Rightarrow> [])"

abbreviation (input) tagged :: "tag_info option \<Rightarrow> 64 word \<Rightarrow> bool \<Rightarrow> octets \<Rightarrow> octets" where
  "tagged ct d constructed c \<equiv> element (get_asn_class ct) (get_tag ct d) constructed c"

fun apply_list :: "('a \<Rightarrow> 'b) list \<Rightarrow> 'a list \<Rightarrow> 'b list" where
  "apply_list (f # fs) (x # xs) = f x # apply_list fs xs"
| "apply_list _ _ = []"

primrec der :: "ty \<Rightarrow> tag_info option \<Rightarrow> val \<Rightarrow> octets" where
  "der T_bool ct v = (case v of V_bool b \<Rightarrow> tagged ct tag_boolean False (int_octets True (if b then 1 else 0) 1) | _ \<Rightarrow> [])"
| "der (T_int n) ct v = (case v of V_int i \<Rightarrow> tagged ct tag_integer False (int_octets True i n) | _ \<Rightarrow> [])"
| "der (T_uint n) ct v = (case v of V_int i \<Rightarrow> tagged ct tag_integer False (int_octets False i n) | _ \<Rightarrow> [])"
| "der T_integer ct v = (case v of V_integer i \<Rightarrow> tagged ct tag_integer False i | _ \<Rightarrow> [])"
| "der T_string ct v = (case v of V_string s \<Rightarrow> tagged ct tag_t61string False s | _ \<Rightarrow> [])"
| "der T_octets ct v = (case v of V_octets s \<Rightarrow> tagged ct tag_octet_string False s | _ \<Rightarrow> [])"
| "der T_trailing ct v = (case v of V_trailing d \<Rightarrow> d | _ \<Rightarrow> [])"
| "der (T_optional t) ct v = (case v of V_optional (Some u) \<Rightarrow> der t ct u | _ \<Rightarrow> [])"
| "der (T_implicit n t) ct v = der t (Some (context_tag n)) v"
| "der (T_explicit n t) ct v = element context_specific_c n True (der t None v)"
| "der (T_explicit_optional n t) ct v =
     (case v of V_optional (Some u) \<Rightarrow> element context_specific_c n True (der t None u) | _ \<Rightarrow> [])"
| "der (T_seq ts) ct v =
     (case v of V_seq vs \<Rightarrow> tagged ct tag_sequence True (concat (apply_list (map (\<lambda>t. der t None) ts) vs)) | _ \<Rightarrow> [])"
| "der (T_container t) ct v =
     (case v of V_seq vs \<Rightarrow> tagged ct tag_sequence True (concat (map (der t None) vs)) | _ \<Rightarrow> [])"

section \<open>Well-formed types and values\<close>

text \<open>Types that always write exactly one element with a header of their own, those among them
  whose header an implicit tag replaces, and the optional fields.\<close>

fun taggable :: "ty \<Rightarrow> bool" where
  "taggable (T_trailing) = False"
| "taggable (T_optional _) = False"
| "taggable (T_implicit _ _) = False"
| "taggable (T_explicit _ _) = False"
| "taggable (T_explicit_optional _ _) = False"
| "taggable _ = True"

fun headed :: "ty \<Rightarrow> bool" where
  "headed (T_implicit _ t) = taggable t"
| "headed (T_explicit _ _) = True"
| "headed t = taggable t"

fun optional_inner :: "ty \<Rightarrow> ty option" where
  "optional_inner (T_optional t) = Some t"
| "optional_inner (T_implicit n (T_optional t)) = Some t"
| "optional_inner (T_explicit_optional n t) = Some t"
| "optional_inner _ = None"

primrec ty_ok :: "ty \<Rightarrow> bool" where
  "ty_ok T_bool = True"
| "ty_ok (T_int n) = (1 \<le> n \<and> n \<le> 8)"
| "ty_ok (T_uint n) = (1 \<le> n \<and> n \<le> 8)"
| "ty_ok T_integer = True"
| "ty_ok T_string = True"
| "ty_ok T_octets = True"
| "ty_ok T_trailing = True"
| "ty_ok (T_optional t) = (headed t \<and> ty_ok t)"
| "ty_ok (T_implicit n t) = ((taggable t \<or> (\<exists>u. t = T_optional u \<and> taggable u)) \<and> ty_ok t)"
| "ty_ok (T_explicit n t) = (headed t \<and> ty_ok t)"
| "ty_ok (T_explicit_optional n t) = (headed t \<and> ty_ok t)"
| "ty_ok (T_seq ts) = (list_all ty_ok ts \<and> T_trailing \<notin> set (butlast ts))"
| "ty_ok (T_container t) = (headed t \<and> ty_ok t)"

text \<open>How many structures a type nests.\<close>

primrec depth :: "ty \<Rightarrow> nat" where
  "depth T_bool = 0"
| "depth (T_int n) = 0"
| "depth (T_uint n) = 0"
| "depth T_integer = 0"
| "depth T_string = 0"
| "depth T_octets = 0"
| "depth T_trailing = 0"
| "depth (T_optional t) = depth t"
| "depth (T_implicit n t) = depth t"
| "depth (T_explicit n t) = Suc (depth t)"
| "depth (T_explicit_optional n t) = Suc (depth t)"
| "depth (T_seq ts) = Suc (fold max (map depth ts) 0)"
| "depth (T_container t) = Suc (depth t)"

text \<open>Class and tag of the header a type writes, given the pending implicit tag.\<close>

primrec head_tag :: "ty \<Rightarrow> tag_info option \<Rightarrow> (octet \<times> 64 word) option" where
  "head_tag T_bool ct = Some (get_asn_class ct, get_tag ct tag_boolean)"
| "head_tag (T_int n) ct = Some (get_asn_class ct, get_tag ct tag_integer)"
| "head_tag (T_uint n) ct = Some (get_asn_class ct, get_tag ct tag_integer)"
| "head_tag T_integer ct = Some (get_asn_class ct, get_tag ct tag_integer)"
| "head_tag T_string ct = Some (get_asn_class ct, get_tag ct tag_t61string)"
| "head_tag T_octets ct = Some (get_asn_class ct, get_tag ct tag_octet_string)"
| "head_tag T_trailing ct = None"
| "head_tag (T_optional t) ct = head_tag t ct"
| "head_tag (T_implicit n t) ct = head_tag t (Some (context_tag n))"
| "head_tag (T_explicit n t) ct = Some (context_specific_c, n)"
| "head_tag (T_explicit_optional n t) ct = Some (context_specific_c, n)"
| "head_tag (T_seq ts) ct = Some (get_asn_class ct, get_tag ct tag_sequence)"
| "head_tag (T_container t) ct = Some (get_asn_class ct, get_tag ct tag_sequence)"

text \<open>An absent optional field is recognised by what follows it in the sequence: nothing, or an
  element with another header.\<close>

fun next_differs :: "(octet \<times> 64 word) option \<Rightarrow> ty list \<Rightarrow> val list \<Rightarrow> bool" where
  "next_differs ht (t # ts) (v # vs) =
     (if v = V_optional None then next_differs ht ts vs
      else if t = T_trailing then v = V_trailing []
      else head_tag t None \<noteq> ht)"
| "next_differs ht _ _ = True"

fun layout_ok :: "ty list \<Rightarrow> val list \<Rightarrow> bool" where
  "layout_ok (t # ts) (v # vs) =
     (layout_ok ts vs \<and> (v = V_optional None \<longrightarrow> next_differs (head_tag t None) ts vs))"
| "layout_ok _ _ = True"

primrec val_ok :: "ty \<Rightarrow> val \<Rightarrow> bool" where
  "val_ok T_bool v = (case v of V_bool _ \<Rightarrow> True | _ \<Rightarrow> False)"
| "val_ok (T_int n) v =
     (case v of V_int i \<Rightarrow> - (2 ^ (8 * n - 1)) \<le> sint i \<and> sint i < 2 ^ (8 * n - 1) | _ \<Rightarrow> False)"
| "val_ok (T_uint n) v = (case v of V_int i \<Rightarrow> unat i < 2 ^ (8 * n) | _ \<Rightarrow> False)"
| "val_ok T_integer v =
     (case v of V_integer i \<Rightarrow> i \<noteq> [] \<and> length i \<le> max_structure_size | _ \<Rightarrow> False)"
| "val_ok T_string v = (case v of V_string s \<Rightarrow> length s \<le> max_structure_size | _ \<Rightarrow> False)"
| "val_ok T_octets v = (case v of V_octets s \<Rightarrow> length s \<le> max_structure_size | _ \<Rightarrow> False)"
| "val_ok T_trailing v = (case v of V_trailing _ \<Rightarrow> True | _ \<Rightarrow> False)"
| "val_ok (T_optional t) v =
     (case v of V_optional None \<Rightarrow> True | V_optional (Some u) \<Rightarrow> val_ok t u | _ \<Rightarrow> False)"
| "val_ok (T_implicit n t) v = val_ok t v"
| "val_ok (T_explicit n t) v = (val_ok t v \<and> length (der t None v) \<le> max_constructed_size)"
| "val_ok (T_explicit_optional n t) v =
     (case v of V_optional None \<Rightarrow> True
      | V_optional (Some u) \<Rightarrow> val_ok t u \<and> length (der t None u) \<le> max_constructed_size
      | _ \<Rightarrow> False)"
| "val_ok (T_seq ts) v =
     (case v of
        V_seq vs \<Rightarrow> length vs = length ts \<and> list_all (\<lambda>b. b) (apply_list (map val_ok ts) vs) \<and> layout_ok ts vs \<and>
          length (concat (apply_list (map (\<lambda>t. der t None) ts) vs)) \<le> max_constructed_size
      | _ \<Rightarrow> False)"
| "val_ok (T_container t) v =
     (case v of
        V_seq vs \<Rightarrow> list_all (val_ok t) vs \<and> length (concat (map (der t None) vs)) \<le> max_constructed_size
      | _ \<Rightarrow> False)"

section \<open>Headers of elements\<close>

lemma header_octets_ok:
  assumes "header_ok h"
  shows "header_octets h \<noteq> [] \<and> emits (encode_header h) (header_octets h) \<and>
    parses n decode_any_header (header_octets h) h \<and> length (header_octets h) \<le> 20"
proof -
  obtain bs where bs: "bs \<noteq> []" "emits (encode_header h) bs" "parses n decode_any_header bs h" "length bs \<le> 20"
    using header_roundtrip [OF assms] by blast
  have "header_octets h = bs"
    using bs(2) ostream_write_at_end [of "make_ostream []" bs]
    by (simp add: header_octets_def emits_def enc_write_def make_encoder_def make_ostream_def
        make_ostream_at_def)
  then show ?thesis using bs by simp
qed

lemma header_octets_decode:
  assumes "header_ok h"
  shows "parses n (decode_header (asn_class h) (asn_tag h)) (header_octets h) h"
  using header_octets_ok [OF assms] parses_decode_header by blast

section \<open>The serialiser's side\<close>

definition writes :: "tag_info option \<Rightarrow> unit ser \<Rightarrow> octets \<Rightarrow> bool" where
  "writes ct f bs \<longleftrightarrow> (\<forall>st. ser_tag st = ct \<longrightarrow>
     f st = (Inr (), st\<lparr>enc_state := snd (enc_write bs (enc_state st)), ser_tag := None\<rparr>))"

lemma enc_write_Inr: "enc_write bs e = (Inr (), snd (enc_write bs e))"
  by (simp add: enc_write_def split: list.splits prod.splits)

lemma writes_return: "writes None (returnA ()) []"
  by (simp add: writes_def returnA_def)

lemma snd_enc_write_append:
  "snd (enc_write c (snd (enc_write b e))) = snd (enc_write (b @ c) e)"
  using enc_write_append [of b c, THEN fun_cong, of e] enc_write_Inr [of b e]
  by (simp add: bindA_def split: prod.splits sum.splits)

lemma writes_bind: "writes ct f bs \<Longrightarrow> writes None g cs \<Longrightarrow> writes ct (bindA f (\<lambda>_. g)) (bs @ cs)"
  by (simp add: writes_def bindA_def snd_enc_write_append)

lemma writes_on_enc: "emits f bs \<Longrightarrow> writes None (on_enc f) bs"
  by (simp add: writes_def on_enc_def emits_def) (metis (mono_tags, lifting) enc_write_Inr case_prod_conv serialiser.surjective serialiser.update_convs)

lemma writes_use_tag:
  "emits (f ct) bs \<Longrightarrow> writes ct (bindA ser_use_current_tag (\<lambda>t. on_enc (f t))) bs"
  unfolding writes_def bindA_def ser_use_current_tag_def on_enc_def emits_def
  by (simp split: prod.splits) (metis enc_write_Inr prod.inject)

lemma writes_set_tag:
  "writes (Some t) f bs \<Longrightarrow> writes ct (bindA (ser_set_tag t) (\<lambda>_. f)) bs"
  by (simp add: writes_def bindA_def ser_set_tag_def)

lemma enc_end_sequence_write:
  assumes "emits (encode_header (h\<lparr>asn_length := length bs\<rparr>)) hs"
  shows "enc_end_sequence (e\<lparr>layers := (h, bs) # layers e\<rparr>) = enc_write (hs @ bs) e"
proof -
  have w: "(if bs \<noteq> [] then enc_write bs else returnA ()) = enc_write bs" by simp
  have "enc_pop (e\<lparr>layers := (h, bs) # layers e\<rparr>) = (Inr (h, bs), e)" by (simp add: enc_pop_def)
  then have "enc_end_sequence (e\<lparr>layers := (h, bs) # layers e\<rparr>) =
      bindA (encode_header (h\<lparr>asn_length := length bs\<rparr>)) (\<lambda>_. enc_write bs) e"
    unfolding enc_end_sequence_def bindA_def [of enc_pop] w by (simp add: w del: enc_write_Nil)
  then show ?thesis using assms by (simp add: emits_eq enc_write_append)
qed

lemma enc_write_pushed:
  "snd (enc_write bs (e\<lparr>layers := (h, []) # layers e\<rparr>)) = e\<lparr>layers := (h, bs) # layers e\<rparr>"
  by (simp add: enc_write_def)

lemma writes_sequence:
  assumes "writes None body bs"
    "emits (encode_header \<lparr>asn_class = get_asn_class ct, asn_tag = get_tag ct tag_sequence,
       asn_length = length bs, is_constructed = True\<rparr>) hs"
  shows "writes ct (ser_sequence body) (hs @ bs)"
  unfolding writes_def
proof (intro allI impI)
  fix st :: serialiser
  assume ct: "ser_tag st = ct"
  let ?h = "\<lparr>asn_class = get_asn_class ct, asn_tag = get_tag ct tag_sequence, asn_length = 0, is_constructed = True\<rparr>"
  let ?e = "enc_state st"
  let ?s1 = "st\<lparr>ser_tag := None, enc_state := ?e\<lparr>layers := (?h, []) # layers ?e\<rparr>\<rparr>"
  have 1: "bindA ser_use_current_tag (\<lambda>t. on_enc (enc_start_sequence t)) st = (Inr (), ?s1)"
    using ct by (simp add: bindA_def ser_use_current_tag_def on_enc_def enc_start_sequence_def enc_push_def)
  have 2: "body ?s1 = (Inr (), ?s1\<lparr>enc_state := ?e\<lparr>layers := (?h, bs) # layers ?e\<rparr>\<rparr>)"
    using assms(1) by (simp add: writes_def enc_write_pushed)
  have 3: "enc_end_sequence (?e\<lparr>layers := (?h, bs) # layers ?e\<rparr>) = enc_write (hs @ bs) ?e"
    by (rule enc_end_sequence_write) (use assms(2) in simp)
  show "ser_sequence body st = (Inr (), st\<lparr>enc_state := snd (enc_write (hs @ bs) (enc_state st)), ser_tag := None\<rparr>)"
    unfolding ser_sequence_def
    by (simp add: bindA_def [of "bindA ser_use_current_tag (\<lambda>t. on_enc (enc_start_sequence t))"] 1 2)
      (simp add: on_enc_def 3 split: prod.splits, metis enc_write_Inr prod.inject)
qed

lemma writes_explicit:
  assumes "writes None body bs"
    "emits (encode_header \<lparr>asn_class = context_specific_c, asn_tag = n,
       asn_length = length bs, is_constructed = True\<rparr>) hs"
  shows "writes None (bindA (on_enc (enc_start_explicit_tag (context_tag n))) (\<lambda>_.
           bindA body (\<lambda>_. on_enc enc_end_explicit_tag))) (hs @ bs)"
  unfolding writes_def
proof (intro allI impI)
  fix st :: serialiser
  assume ct: "ser_tag st = None"
  let ?h = "\<lparr>asn_class = context_specific_c, asn_tag = n, asn_length = 0, is_constructed = True\<rparr>"
  let ?e = "enc_state st"
  let ?s1 = "st\<lparr>enc_state := ?e\<lparr>layers := (?h, []) # layers ?e\<rparr>\<rparr>"
  have 1: "on_enc (enc_start_explicit_tag (context_tag n)) st = (Inr (), ?s1)"
    by (simp add: on_enc_def enc_start_explicit_tag_def enc_push_def)
  have 2: "body ?s1 = (Inr (), ?s1\<lparr>enc_state := ?e\<lparr>layers := (?h, bs) # layers ?e\<rparr>, ser_tag := None\<rparr>)"
    using assms(1) ct by (simp add: writes_def enc_write_pushed)
  have 3: "enc_end_sequence (?e\<lparr>layers := (?h, bs) # layers ?e\<rparr>) = enc_write (hs @ bs) ?e"
    by (rule enc_end_sequence_write) (use assms(2) in simp)
  show "bindA (on_enc (enc_start_explicit_tag (context_tag n))) (\<lambda>_. bindA body (\<lambda>_. on_enc enc_end_explicit_tag)) st =
      (Inr (), st\<lparr>enc_state := snd (enc_write (hs @ bs) (enc_state st)), ser_tag := None\<rparr>)"
    by (simp add: bindA_def [of "on_enc (enc_start_explicit_tag (context_tag n))"] 1 bindA_def [of body] 2)
      (simp add: on_enc_def enc_end_explicit_tag_def 3 split: prod.splits, metis enc_write_Inr prod.inject)
qed

section \<open>The deserialiser's side\<close>

definition reads_as :: "nat \<Rightarrow> tag_info option \<Rightarrow> 'a des \<Rightarrow> octets \<Rightarrow> 'a \<Rightarrow> bool" where
  "reads_as d ct f bs x \<longleftrightarrow>
     (\<forall>st rest. dec_ok (dec_state st) \<longrightarrow> ex st = None \<longrightarrow> des_tag st = ct \<longrightarrow>
        input (dec_state st) = bs @ rest \<longrightarrow> inside (length bs) (dec_state st) \<longrightarrow>
        length (seq_pos (dec_state st)) + d \<le> max_structure_depth \<longrightarrow>
        (\<exists>ds. f st = (Inr x, st\<lparr>dec_state := ds, des_tag := None\<rparr>) \<and>
          advances (length bs) (dec_state st) ds))"

lemma reads_asD:
  assumes "reads_as d ct f bs x" "dec_ok (dec_state st)" "ex st = None" "des_tag st = ct"
    "input (dec_state st) = bs @ rest" "inside (length bs) (dec_state st)"
    "length (seq_pos (dec_state st)) + d \<le> max_structure_depth"
  obtains ds where "f st = (Inr x, st\<lparr>dec_state := ds, des_tag := None\<rparr>)"
    "advances (length bs) (dec_state st) ds"
  using assms unfolding reads_as_def by blast

lemma reads_as_amp: "reads_as d ct f bs x \<Longrightarrow> reads_as d ct (amp f) bs x"
  unfolding reads_as_def amp_def
  by (fastforce simp: bindA_def)

lemma reads_as_map:
  "reads_as d ct f bs x \<Longrightarrow> reads_as d ct (bindA f (\<lambda>v. returnA (c v))) bs (c x)"
  unfolding reads_as_def by (fastforce simp: bindA_def returnA_def)

lemma reads_as_weaken: "reads_as d ct f bs x \<Longrightarrow> d \<le> d' \<Longrightarrow> reads_as d' ct f bs x"
  by (simp add: reads_as_def)

lemma reads_as_use_tag:
  assumes "parses d (f ct) bs x"
  shows "reads_as d ct (bindA des_use_current_tag (\<lambda>t. bindA (on_dec (f t)) (\<lambda>b. returnA (c b)))) bs (c x)"
  unfolding reads_as_def
proof (intro allI impI)
  fix st :: deserialiser and rest
  assume st: "dec_ok (dec_state st)" "des_tag st = ct" "input (dec_state st) = bs @ rest"
    "inside (length bs) (dec_state st)" "length (seq_pos (dec_state st)) + d \<le> max_structure_depth"
  obtain ds where "f ct (dec_state st) = (Inr x, ds)" "advances (length bs) (dec_state st) ds"
    using parsesD [OF assms st(1,3-5)] .
  then show "\<exists>ds. bindA des_use_current_tag (\<lambda>t. bindA (on_dec (f t)) (\<lambda>b. returnA (c b))) st =
      (Inr (c x), st\<lparr>dec_state := ds, des_tag := None\<rparr>) \<and> advances (length bs) (dec_state st) ds"
    using st(2) by (intro exI [of _ ds]) (simp add: bindA_def des_use_current_tag_def on_dec_def returnA_def)
qed

lemma reads_as_set_tag:
  assumes "reads_as d (Some t) f bs x"
  shows "reads_as d ct (bindA (des_set_tag t) (\<lambda>_. f)) bs x"
  unfolding reads_as_def
proof (intro allI impI)
  fix st :: deserialiser and rest
  assume st: "dec_ok (dec_state st)" "ex st = None" "input (dec_state st) = bs @ rest"
    "inside (length bs) (dec_state st)" "length (seq_pos (dec_state st)) + d \<le> max_structure_depth"
  then obtain ds where "f (st\<lparr>des_tag := Some t\<rparr>) = (Inr x, st\<lparr>des_tag := Some t\<rparr>\<lparr>dec_state := ds, des_tag := None\<rparr>)"
    "advances (length bs) (dec_state st) ds"
    using reads_asD [OF assms, of "st\<lparr>des_tag := Some t\<rparr>"] by auto
  then show "\<exists>ds. bindA (des_set_tag t) (\<lambda>_. f) st = (Inr x, st\<lparr>dec_state := ds, des_tag := None\<rparr>) \<and>
      advances (length bs) (dec_state st) ds"
    by (auto simp: bindA_def des_set_tag_def)
qed

section \<open>Sequences\<close>

text \<open>The body of a sequence reads up to the end of the sequence exactly.\<close>

definition reads_exact :: "nat \<Rightarrow> 'a des \<Rightarrow> octets \<Rightarrow> 'a \<Rightarrow> bool" where
  "reads_exact d f bs x \<longleftrightarrow>
     (\<forall>st rest p ps. dec_ok (dec_state st) \<longrightarrow> ex st = None \<longrightarrow> des_tag st = None \<longrightarrow>
        input (dec_state st) = bs @ rest \<longrightarrow> seq_pos (dec_state st) = p # ps \<longrightarrow>
        position (dec_state st) + length bs = p \<longrightarrow> Suc (length ps) + d \<le> max_structure_depth \<longrightarrow>
        (\<exists>ds. f st = (Inr x, st\<lparr>dec_state := ds, des_tag := None\<rparr>) \<and>
          advances (length bs) (dec_state st) ds))"

lemma advances_seq_pos:
  "advances n (st\<lparr>seq_pos := qs\<rparr>) st' \<Longrightarrow> advances n st (st'\<lparr>seq_pos := seq_pos st\<rparr>)"
  by (simp add: advances_def input_def position_def dec_ok_def)

lemma dec_seq_pos_simps [simp]:
  "input (st\<lparr>seq_pos := qs\<rparr>) = input st" "position (st\<lparr>seq_pos := qs\<rparr>) = position st"
  "dec_ok (st\<lparr>seq_pos := qs\<rparr>) = dec_ok st"
  by (simp_all add: input_def position_def dec_ok_def)

lemma dec_pop_at_end:
  assumes "seq_pos st = p # ps" "position st = p"
  shows "dec_pop st = (Inr (), st\<lparr>seq_pos := ps\<rparr>)"
  using assms by (simp add: dec_pop_def skip_to.simps)

lemma reads_as_exact: "reads_as d None f bs x \<Longrightarrow> reads_exact d f bs x"
  unfolding reads_exact_def
proof (intro allI impI)
  fix st :: deserialiser and rest p ps
  assume a: "reads_as d None f bs x" "dec_ok (dec_state st)" "ex st = None" "des_tag st = None"
    "input (dec_state st) = bs @ rest" "seq_pos (dec_state st) = p # ps"
    "position (dec_state st) + length bs = p" "Suc (length ps) + d \<le> max_structure_depth"
  have "inside (length bs) (dec_state st)" using a(6,7) by (simp add: inside_def)
  with reads_asD [OF a(1-5)] a(6,8)
  show "\<exists>ds. f st = (Inr x, st\<lparr>dec_state := ds, des_tag := None\<rparr>) \<and> advances (length bs) (dec_state st) ds"
    by auto
qed

text \<open>Opening a structure whose header is \<open>h\<close>, reading its contents and closing it.\<close>

lemma structure_opened:
  assumes "header_ok h" "is_constructed h" "asn_length h = length bs"
    "dec_ok st" "input st = header_octets h @ bs @ rest" "inside (length (header_octets h @ bs)) st"
    "Suc (length (seq_pos st)) \<le> max_structure_depth"
  obtains st1 where
    "bindA (decode_header (asn_class h) (asn_tag h)) (\<lambda>header.
       if \<not> is_constructed header then throwA e else dec_push (asn_length header)) st =
     (Inr (), st1\<lparr>seq_pos := (position st1 + length bs) # seq_pos st\<rparr>)"
    "advances (length (header_octets h)) st st1"
proof -
  have "inside (length (header_octets h)) st" using assms(6) by (auto simp: inside_def split: list.splits)
  then obtain st1 where 1: "decode_header (asn_class h) (asn_tag h) st = (Inr h, st1)"
    "advances (length (header_octets h)) st st1"
    using parsesD [OF header_octets_decode [OF assms(1), of 0] assms(4), of "bs @ rest"] assms(5,7) by auto
  have "seq_pos st1 = seq_pos st" using 1(2) by (simp add: advances_def)
  then show ?thesis using that [OF _ 1(2)] 1(1) assms(2,3,7) by (simp add: bindA_def dec_push_def)
qed

lemma structure_body:
  assumes "reads_exact d f bs x" "advances n (dec_state st) st1" "input st1 = bs @ rest"
    "ex st = None" "des_tag st = None" "length (seq_pos (dec_state st)) + Suc d \<le> max_structure_depth"
  obtains ds where
    "f (st\<lparr>dec_state := st1\<lparr>seq_pos := (position st1 + length bs) # seq_pos (dec_state st)\<rparr>\<rparr>) =
       (Inr x, st\<lparr>dec_state := ds\<rparr>)"
    "seq_pos ds = position ds # seq_pos (dec_state st)"
    "advances (n + length bs) (dec_state st) (ds\<lparr>seq_pos := seq_pos (dec_state st)\<rparr>)"
proof -
  let ?p = "position st1 + length bs" and ?ps = "seq_pos (dec_state st)"
  let ?st = "st\<lparr>dec_state := st1\<lparr>seq_pos := ?p # ?ps\<rparr>\<rparr>"
  have ok: "dec_ok st1" "seq_pos st1 = ?ps" using assms(2) by (simp_all add: advances_def)
  obtain ds where ds: "f ?st = (Inr x, ?st\<lparr>dec_state := ds, des_tag := None\<rparr>)"
    "advances (length bs) (st1\<lparr>seq_pos := ?p # ?ps\<rparr>) ds"
    using assms(1) [unfolded reads_exact_def, rule_format, of ?st rest ?p ?ps] ok assms(3-6) by auto
  have "?st\<lparr>dec_state := ds, des_tag := None\<rparr> = st\<lparr>dec_state := ds\<rparr>" using assms(5) by simp
  moreover have "seq_pos ds = position ds # ?ps" using ds(2) by (simp add: advances_def)
  moreover have "advances (n + length bs) (dec_state st) (ds\<lparr>seq_pos := ?ps\<rparr>)"
    using advances_trans [OF assms(2) advances_seq_pos [OF ds(2)]] ok(2) by simp
  ultimately show ?thesis using that ds(1) by simp
qed

lemma reads_as_sequence:
  assumes "reads_exact d f bs x" "tag_ok ct" "length bs \<le> max_constructed_size"
  shows "reads_as (Suc d) ct (des_sequence f) (tagged ct tag_sequence True bs) x"
  unfolding reads_as_def
proof (intro allI impI)
  fix st :: deserialiser and rest
  let ?h = "\<lparr>asn_class = get_asn_class ct, asn_tag = get_tag ct tag_sequence, asn_length = length bs, is_constructed = True\<rparr>"
  let ?st = "st\<lparr>des_tag := None\<rparr>"
  assume st: "dec_ok (dec_state st)" "ex st = None" "des_tag st = ct"
    "input (dec_state st) = tagged ct tag_sequence True bs @ rest"
    "inside (length (tagged ct tag_sequence True bs)) (dec_state st)"
    "length (seq_pos (dec_state st)) + Suc d \<le> max_structure_depth"
  have "header_ok ?h" using assms(2,3) by (simp add: header_ok_def tag_ok_def)
  then obtain st1 where 1: "dec_start_sequence ct (dec_state st) =
      (Inr (), st1\<lparr>seq_pos := (position st1 + length bs) # seq_pos (dec_state st)\<rparr>)"
    "advances (length (header_octets ?h)) (dec_state st) st1"
    using structure_opened [of ?h bs "dec_state st" rest "Serialisation_error ''invalid sequence''"] st(1,4-6)
    by (auto simp: element_def dec_start_sequence_def)
  have "input st1 = bs @ rest" using advances_input [OF 1(2)] st(4) by (simp add: element_def)
  have s0: "advances (length (header_octets ?h)) (dec_state ?st) st1" "ex ?st = None" "des_tag ?st = None"
    "length (seq_pos (dec_state ?st)) + Suc d \<le> max_structure_depth" "dec_state ?st = dec_state st"
    using 1(2) st(2,6) by simp_all
  from \<open>input st1 = bs @ rest\<close> obtain ds where ds: "f (?st\<lparr>dec_state := st1\<lparr>seq_pos := (position st1 + length bs) # seq_pos (dec_state st)\<rparr>\<rparr>) =
       (Inr x, ?st\<lparr>dec_state := ds\<rparr>)" "seq_pos ds = position ds # seq_pos (dec_state st)"
    "advances (length (header_octets ?h) + length bs) (dec_state st) (ds\<lparr>seq_pos := seq_pos (dec_state st)\<rparr>)"
    using structure_body [OF assms(1) s0(1) _ s0(2-4)] unfolding s0(5) by blast
  have "des_sequence f st = (Inr x, ?st\<lparr>dec_state := ds\<lparr>seq_pos := seq_pos (dec_state st)\<rparr>\<rparr>)"
    using st(3) dec_pop_at_end [OF ds(2)] ds(1)
    by (simp add: des_sequence_def bindA_def des_use_current_tag_def on_dec_def 1(1) des_end_sequence_def dec_end_sequence_def)
  then show "\<exists>ds. des_sequence f st = (Inr x, st\<lparr>dec_state := ds, des_tag := None\<rparr>) \<and>
      advances (length (tagged ct tag_sequence True bs)) (dec_state st) ds"
    using ds(3) by (intro exI [of _ "ds\<lparr>seq_pos := seq_pos (dec_state st)\<rparr>"]) (simp add: element_def)
qed

definition explicit_body :: "64 word \<Rightarrow> 'a des \<Rightarrow> 'a des" where
  "explicit_body n f =
     bindA (on_dec (dec_start_explicit_tag (context_tag n))) (\<lambda>_.
       bindA (amp f) (\<lambda>v. bindA (on_dec dec_end_explicit_tag) (\<lambda>_. returnA v)))"

lemma reads_as_explicit:
  assumes "reads_as d None f bs x" "length bs \<le> max_constructed_size"
  shows "reads_as (Suc d) None (explicit_body n f) (element context_specific_c n True bs) x"
  unfolding reads_as_def
proof (intro allI impI)
  fix st :: deserialiser and rest
  let ?h = "\<lparr>asn_class = context_specific_c, asn_tag = n, asn_length = length bs, is_constructed = True\<rparr>"
  assume st: "dec_ok (dec_state st)" "ex st = None" "des_tag st = None"
    "input (dec_state st) = element context_specific_c n True bs @ rest"
    "inside (length (element context_specific_c n True bs)) (dec_state st)"
    "length (seq_pos (dec_state st)) + Suc d \<le> max_structure_depth"
  have "header_ok ?h" using assms(2) by (simp add: header_ok_def)
  then obtain st1 where 1: "dec_start_explicit_tag (context_tag n) (dec_state st) =
      (Inr (), st1\<lparr>seq_pos := (position st1 + length bs) # seq_pos (dec_state st)\<rparr>)"
    "advances (length (header_octets ?h)) (dec_state st) st1"
    using structure_opened [of ?h bs "dec_state st" rest "Serialisation_error ''invalid explicit tag''"] st(1,4-6)
    by (auto simp: element_def dec_start_explicit_tag_def)
  have "input st1 = bs @ rest" using advances_input [OF 1(2)] st(4) by (simp add: element_def)
  then obtain ds where ds: "amp f (st\<lparr>dec_state := st1\<lparr>seq_pos := (position st1 + length bs) # seq_pos (dec_state st)\<rparr>\<rparr>) =
       (Inr x, st\<lparr>dec_state := ds\<rparr>)" "seq_pos ds = position ds # seq_pos (dec_state st)"
    "advances (length (header_octets ?h) + length bs) (dec_state st) (ds\<lparr>seq_pos := seq_pos (dec_state st)\<rparr>)"
    using structure_body [OF reads_as_exact [OF reads_as_amp [OF assms(1)]] 1(2) _ st(2,3,6)] by blast
  have "explicit_body n f st = (Inr x, st\<lparr>dec_state := ds\<lparr>seq_pos := seq_pos (dec_state st)\<rparr>\<rparr>)"
    using dec_pop_at_end [OF ds(2)] ds(1)
    by (simp add: explicit_body_def bindA_def on_dec_def 1(1) dec_end_explicit_tag_def returnA_def)
  then show "\<exists>ds. explicit_body n f st = (Inr x, st\<lparr>dec_state := ds, des_tag := None\<rparr>) \<and>
      advances (length (element context_specific_c n True bs)) (dec_state st) ds"
    using ds(3) st(3) by (intro exI [of _ "ds\<lparr>seq_pos := seq_pos (dec_state st)\<rparr>"]) (simp add: element_def)
qed

section \<open>Optional fields\<close>

text \<open>The element with header \<open>ht\<close> is not there: the sequence is at its end, or the next element
  has another header.\<close>

definition other_header :: "(octet \<times> 64 word) option \<Rightarrow> octets \<Rightarrow> bool" where
  "other_header ht bs \<longleftrightarrow> (\<exists>h rest. bs = header_octets h @ rest \<and> header_ok h \<and> Some (asn_class h, asn_tag h) \<noteq> ht)"

definition absent_at :: "(octet \<times> 64 word) option \<Rightarrow> asn_decoder \<Rightarrow> bool" where
  "absent_at ht st \<longleftrightarrow> is_end_of_sequence st \<or>
     (\<exists>h rest. input st = header_octets h @ rest \<and> header_ok h \<and> inside (length (header_octets h)) st \<and>
        Some (asn_class h, asn_tag h) \<noteq> ht)"

definition misses :: "tag_info option \<Rightarrow> 'a des \<Rightarrow> (octet \<times> 64 word) option \<Rightarrow> bool" where
  "misses ct f ht \<longleftrightarrow>
     (\<forall>st. dec_ok (dec_state st) \<longrightarrow> ex st = None \<longrightarrow> des_tag st = ct \<longrightarrow> absent_at ht (dec_state st) \<longrightarrow>
        length (seq_pos (dec_state st)) \<le> max_structure_depth \<longrightarrow>
        (\<exists>m k ds. f st = (Inl (Element_not_present m), st\<lparr>dec_state := ds, des_tag := None\<rparr>) \<and>
          advances k (dec_state st) ds))"

definition skips :: "tag_info option \<Rightarrow> val des \<Rightarrow> (octet \<times> 64 word) option \<Rightarrow> bool" where
  "skips ct f ht \<longleftrightarrow>
     (\<forall>st. dec_ok (dec_state st) \<longrightarrow> ex st = None \<longrightarrow> des_tag st = ct \<longrightarrow> absent_at ht (dec_state st) \<longrightarrow>
        length (seq_pos (dec_state st)) \<le> max_structure_depth \<longrightarrow>
        (\<exists>ds. f st = (Inr (V_optional None), st\<lparr>dec_state := ds, des_tag := None\<rparr>) \<and>
          advances 0 (dec_state st) ds))"

lemma decode_header_absent:
  assumes "dec_ok st" "absent_at (Some (cls, t)) st" "length (seq_pos st) \<le> max_structure_depth"
  shows "\<exists>m k st'. decode_header cls t st = (Inl (Element_not_present m), st') \<and> advances k st st'"
proof (cases "is_end_of_sequence st")
  case True
  then show ?thesis using advances_refl [OF assms(1)]
    by (auto simp: decode_header_def header_absent_def bindA_def throwA_def)
next
  case False
  then obtain h rest where h: "input st = header_octets h @ rest" "header_ok h"
    "inside (length (header_octets h)) st" "(asn_class h, asn_tag h) \<noteq> (cls, t)"
    using assms(2) by (auto simp: absent_at_def)
  have hd: "header_octets h \<noteq> []" "parses 0 decode_any_header (header_octets h) h"
    using header_octets_ok [OF h(2)] by auto
  have "inside 1 st" using h(3) hd(1) by (cases "header_octets h") (auto simp: inside_def split: list.splits)
  then obtain st1 where 1: "header_absent st = (Inr False, st1)" "advances 0 st st1"
    using header_absent_False [OF assms(1)] h(1) hd(1) by (cases "header_octets h") auto
  then have "dec_ok st1" "input st1 = header_octets h @ rest" "inside (length (header_octets h)) st1"
    "length (seq_pos st1) + 0 \<le> max_structure_depth"
    using h(1,3) assms(3) advances_inside [of 0 st st1] by (auto simp: advances_def)
  then obtain st2 where 2: "decode_any_header st1 = (Inr h, st2)" "advances (length (header_octets h)) st1 st2"
    using parsesD [OF hd(2)] by metis
  have "decode_header cls t st = (Inl (Element_not_present ''asn class or tag does not match''), st2)"
    using h(4) by (simp add: decode_header_def bindA_def 1(1) 2(1) throwA_def)
  then show ?thesis using advances_trans [OF 1(2) 2(2)] by blast
qed

lemma misses_header:
  assumes "\<And>st. f st = bindA (decode_header cls t) k st"
  shows "misses None (bindA (on_dec f) g) (Some (cls, t))"
  unfolding misses_def
proof (intro allI impI)
  fix st :: deserialiser
  assume st: "dec_ok (dec_state st)" "des_tag st = None" "absent_at (Some (cls, t)) (dec_state st)"
    "length (seq_pos (dec_state st)) \<le> max_structure_depth"
  obtain m n ds where d: "decode_header cls t (dec_state st) = (Inl (Element_not_present m), ds)"
    "advances n (dec_state st) ds"
    using decode_header_absent [OF st(1,3,4)] by blast
  then have "f (dec_state st) = (Inl (Element_not_present m), ds)" using assms by (simp add: bindA_def)
  then have "bindA (on_dec f) g st = (Inl (Element_not_present m), st\<lparr>dec_state := ds, des_tag := None\<rparr>)"
    using st(2) by (simp add: bindA_def on_dec_def)
  then show "\<exists>m k ds. bindA (on_dec f) g st = (Inl (Element_not_present m), st\<lparr>dec_state := ds, des_tag := None\<rparr>) \<and>
      advances k (dec_state st) ds"
    using d(2) by blast
qed

lemma misses_use_tag:
  assumes "misses None (g ct) ht"
  shows "misses ct (bindA des_use_current_tag g) ht"
  unfolding misses_def
proof (intro allI impI)
  fix st :: deserialiser
  assume st: "dec_ok (dec_state st)" "ex st = None" "des_tag st = ct" "absent_at ht (dec_state st)"
    "length (seq_pos (dec_state st)) \<le> max_structure_depth"
  then have "bindA des_use_current_tag g st = g ct (st\<lparr>des_tag := None\<rparr>)"
    by (simp add: bindA_def des_use_current_tag_def)
  then show "\<exists>m k ds. bindA des_use_current_tag g st = (Inl (Element_not_present m), st\<lparr>dec_state := ds, des_tag := None\<rparr>) \<and>
      advances k (dec_state st) ds"
    using assms [unfolded misses_def, rule_format, of "st\<lparr>des_tag := None\<rparr>"] st by auto
qed

lemma misses_bind: "misses ct f ht \<Longrightarrow> misses ct (bindA f g) ht"
  unfolding misses_def by (fastforce simp: bindA_def)

lemma misses_amp: "misses ct f ht \<Longrightarrow> misses ct (amp f) ht"
  unfolding amp_def by (rule misses_bind)

lemma misses_set_tag: "misses (Some t) f ht \<Longrightarrow> misses ct (bindA (des_set_tag t) (\<lambda>_. f)) ht"
  unfolding misses_def
proof (intro allI impI)
  fix st :: deserialiser
  assume a: "\<forall>st. dec_ok (dec_state st) \<longrightarrow> ex st = None \<longrightarrow> des_tag st = Some t \<longrightarrow>
      absent_at ht (dec_state st) \<longrightarrow> length (seq_pos (dec_state st)) \<le> max_structure_depth \<longrightarrow>
      (\<exists>m k ds. f st = (Inl (Element_not_present m), st\<lparr>dec_state := ds, des_tag := None\<rparr>) \<and> advances k (dec_state st) ds)"
    "dec_ok (dec_state st)" "ex st = None" "absent_at ht (dec_state st)"
    "length (seq_pos (dec_state st)) \<le> max_structure_depth"
  show "\<exists>m k ds. bindA (des_set_tag t) (\<lambda>_. f) st = (Inl (Element_not_present m), st\<lparr>dec_state := ds, des_tag := None\<rparr>) \<and>
      advances k (dec_state st) ds"
    using a(1) [rule_format, of "st\<lparr>des_tag := Some t\<rparr>"] a(2-) by (auto simp: bindA_def des_set_tag_def)
qed

lemma skips_amp: "skips ct f ht \<Longrightarrow> skips ct (amp f) ht"
  unfolding skips_def amp_def by (fastforce simp: bindA_def)

lemma skips_set_tag: "skips (Some t) f ht \<Longrightarrow> skips ct (bindA (des_set_tag t) (\<lambda>_. f)) ht"
  unfolding skips_def
proof (intro allI impI)
  fix st :: deserialiser
  assume a: "\<forall>st. dec_ok (dec_state st) \<longrightarrow> ex st = None \<longrightarrow> des_tag st = Some t \<longrightarrow>
      absent_at ht (dec_state st) \<longrightarrow> length (seq_pos (dec_state st)) \<le> max_structure_depth \<longrightarrow>
      (\<exists>ds. f st = (Inr (V_optional None), st\<lparr>dec_state := ds, des_tag := None\<rparr>) \<and> advances 0 (dec_state st) ds)"
    "dec_ok (dec_state st)" "ex st = None" "absent_at ht (dec_state st)"
    "length (seq_pos (dec_state st)) \<le> max_structure_depth"
  show "\<exists>ds. bindA (des_set_tag t) (\<lambda>_. f) st = (Inr (V_optional None), st\<lparr>dec_state := ds, des_tag := None\<rparr>) \<and>
      advances 0 (dec_state st) ds"
    using a(1) [rule_format, of "st\<lparr>des_tag := Some t\<rparr>"] a(2-) by (auto simp: bindA_def des_set_tag_def)
qed

text \<open>\<open>des_optional\<close> is a peek around the element, with or without its explicit tag.\<close>

definition peeked :: "val des \<Rightarrow> val des" where
  "peeked f st =
     (let (p, d) = dec_start_peek (dec_state st);
          (r, st) = f (st\<lparr>dec_state := d\<rparr>);
          st = st\<lparr>dec_state := dec_end_peek p (case r of Inr _ \<Rightarrow> True | Inl _ \<Rightarrow> False) (dec_state st)\<rparr>
      in case r of
           Inr v \<Rightarrow> (Inr (V_optional (Some v)), st)
         | Inl (Element_not_present _) \<Rightarrow> (Inr (V_optional None), st)
         | Inl e \<Rightarrow> (Inl e, st))"

lemma bindA_return_right: "bindA f returnA = f"
  by (rule ext) (auto simp: bindA_def returnA_def split: prod.splits sum.splits)

lemma des_optional_peeked:
  "des_optional None f = peeked (amp f)"
  "des_optional (Some (context_tag n)) f = peeked (explicit_body n f)"
  by (rule ext, simp add: des_optional_def peeked_def explicit_body_def Let_def bindA_return_right)+

lemma peek_started:
  assumes "dec_ok st" "dec_start_peek st = (p, d)"
  shows "advances 0 (st\<lparr>src := src d\<rparr>) d" "dec_ok d" "input d = input st" "position d = position st"
    "seq_pos d = seq_pos st" "peek_count (src d) = Suc (peek_count (src st))"
    "can_rewind istream_pending p (input st) (position st) (src d)"
    "\<And>p' bs q. can_rewind istream_pending p' bs q (src st) \<Longrightarrow> p' \<le> p \<and> can_rewind istream_pending p' bs q (src d)"
  using assms
  by (auto simp: dec_start_peek_def start_peek_def dec_ok_def buffered_ok_def input_def upcoming_def
      position_def pos_def can_rewind_def advances_def)


lemma peeked_present:
  assumes "reads_as d ct f bs x"
  shows "reads_as d ct (peeked f) bs (V_optional (Some x))"
  unfolding reads_as_def
proof (intro allI impI)
  fix st :: deserialiser and rest
  assume st: "dec_ok (dec_state st)" "ex st = None" "des_tag st = ct"
    "input (dec_state st) = bs @ rest" "inside (length bs) (dec_state st)"
    "length (seq_pos (dec_state st)) + d \<le> max_structure_depth"
  obtain p dd where p: "dec_start_peek (dec_state st) = (p, dd)" by fastforce
  note d = peek_started [OF st(1) p]
  have ins: "inside (length bs) dd" using st(5) unfolding inside_def d(4,5) .
  obtain ds where ds: "f (st\<lparr>dec_state := dd\<rparr>) = (Inr x, st\<lparr>dec_state := dd\<rparr>\<lparr>dec_state := ds, des_tag := None\<rparr>)"
    "advances (length bs) dd ds"
    using reads_asD [OF assms, of "st\<lparr>dec_state := dd\<rparr>" rest] st(2-6) d(2,3,5) ins by auto
  let ?ds = "dec_end_peek p True ds"
  have "buffered_ok istream_ok (src ds)" using ds(2) by (simp add: advances_def dec_ok_def)
  note c = span.end_peek_commit [OF this, of p]
  have "can_rewind istream_pending p' bs' q (end_peek p True (src ds))"
    if "can_rewind istream_pending p' bs' q (src (dec_state st))" for p' bs' q
    using d(8) [OF that] ds(2) d(6) span.end_peek_commit(5) [of "src ds" p' bs' q p]
    by (auto simp: advances_def dec_ok_def)
  then have "advances (length bs) (dec_state st) ?ds"
    using ds(2) d(2-6) c(1-4)
    by (auto simp: advances_def dec_end_peek_def input_def position_def dec_ok_def)
  moreover have "peeked f st = (Inr (V_optional (Some x)), st\<lparr>dec_state := ?ds, des_tag := None\<rparr>)"
    using p ds(1) by (simp add: peeked_def)
  ultimately show "\<exists>ds. peeked f st = (Inr (V_optional (Some x)), st\<lparr>dec_state := ds, des_tag := None\<rparr>) \<and>
      advances (length bs) (dec_state st) ds" by blast
qed

lemma peeked_absent:
  assumes "misses ct f ht"
  shows "skips ct (peeked f) ht"
  unfolding skips_def
proof (intro allI impI)
  fix st :: deserialiser
  assume st: "dec_ok (dec_state st)" "ex st = None" "des_tag st = ct" "absent_at ht (dec_state st)"
    "length (seq_pos (dec_state st)) \<le> max_structure_depth"
  obtain p dd where p: "dec_start_peek (dec_state st) = (p, dd)" by fastforce
  note d = peek_started [OF st(1) p]
  have "absent_at ht dd" using st(4) unfolding absent_at_def is_end_of_sequence_def inside_def d(3-5) .
  then obtain m k ds where ds: "f (st\<lparr>dec_state := dd\<rparr>) =
      (Inl (Element_not_present m), st\<lparr>dec_state := dd\<rparr>\<lparr>dec_state := ds, des_tag := None\<rparr>)" "advances k dd ds"
    using assms [unfolded misses_def, rule_format, of "st\<lparr>dec_state := dd\<rparr>"] st(2,3,5) d(2,5) by auto
  let ?ds = "dec_end_peek p False ds"
  have k: "buffered_ok istream_ok (src ds)" "can_rewind istream_pending p (input (dec_state st)) (position (dec_state st)) (src ds)"
    using ds(2) d(6,7) by (auto simp: advances_def dec_ok_def)
  note r = span.end_peek_rollback [OF k]
  have "can_rewind istream_pending p' bs q (end_peek p False (src ds))"
    if "can_rewind istream_pending p' bs q (src (dec_state st))" for p' bs q
    using d(8) [OF that] ds(2) d(6) r(5) by (auto simp: advances_def)
  then have "advances 0 (dec_state st) ?ds"
    using ds(2) d r by (auto simp: advances_def dec_end_peek_def input_def position_def dec_ok_def)
  moreover have "peeked f st = (Inr (V_optional None), st\<lparr>dec_state := ?ds, des_tag := None\<rparr>)"
    using p ds(1) by (simp add: peeked_def)
  ultimately show "\<exists>ds. peeked f st = (Inr (V_optional None), st\<lparr>dec_state := ds, des_tag := None\<rparr>) \<and>
      advances 0 (dec_state st) ds" by blast
qed

section \<open>Fields and containers\<close>

lemma reads_exact_return: "reads_exact d (returnA x) [] x"
  unfolding reads_exact_def
proof (intro allI impI)
  fix st :: deserialiser
  assume "dec_ok (dec_state st)" "des_tag st = None"
  then show "\<exists>ds. returnA x st = (Inr x, st\<lparr>dec_state := ds, des_tag := None\<rparr>) \<and> advances (length []) (dec_state st) ds"
    by (intro exI [of _ "dec_state st"]) (simp add: returnA_def advances_refl)
qed

lemma reads_exact_bind:
  assumes "reads_as d None f bs x" "reads_exact d (g x) cs y"
  shows "reads_exact d (bindA f g) (bs @ cs) y"
  unfolding reads_exact_def
proof (intro allI impI)
  fix st :: deserialiser and rest p ps
  assume st: "dec_ok (dec_state st)" "ex st = None" "des_tag st = None" "input (dec_state st) = (bs @ cs) @ rest"
    "seq_pos (dec_state st) = p # ps" "position (dec_state st) + length (bs @ cs) = p"
    "Suc (length ps) + d \<le> max_structure_depth"
  obtain d1 where 1: "f st = (Inr x, st\<lparr>dec_state := d1, des_tag := None\<rparr>)" "advances (length bs) (dec_state st) d1"
    using reads_asD [OF assms(1) st(1-3), of "cs @ rest"] st(4-7) by (auto simp: inside_def)
  obtain d2 where 2: "g x (st\<lparr>dec_state := d1, des_tag := None\<rparr>) =
      (Inr y, st\<lparr>dec_state := d1, des_tag := None\<rparr>\<lparr>dec_state := d2, des_tag := None\<rparr>)" "advances (length cs) d1 d2"
    using assms(2) [unfolded reads_exact_def, rule_format, of "st\<lparr>dec_state := d1, des_tag := None\<rparr>" rest p ps]
      1(2) st(2-7) by (auto simp: advances_def)
  show "\<exists>ds. bindA f g st = (Inr y, st\<lparr>dec_state := ds, des_tag := None\<rparr>) \<and> advances (length (bs @ cs)) (dec_state st) ds"
    using advances_trans [OF 1(2) 2(2)] 1(1) 2(1) by (intro exI [of _ d2]) (simp add: bindA_def)
qed

lemma reads_exact_skip:
  assumes "skips None f ht" "cs = [] \<or> other_header ht cs" "reads_exact d (g (V_optional None)) cs y"
  shows "reads_exact d (bindA f g) cs y"
  unfolding reads_exact_def
proof (intro allI impI)
  fix st :: deserialiser and rest p ps
  assume st: "dec_ok (dec_state st)" "ex st = None" "des_tag st = None" "input (dec_state st) = cs @ rest"
    "seq_pos (dec_state st) = p # ps" "position (dec_state st) + length cs = p"
    "Suc (length ps) + d \<le> max_structure_depth"
  have "absent_at ht (dec_state st)"
    using assms(2) st(4-6)
    by (fastforce simp: absent_at_def is_end_of_sequence_def other_header_def inside_def)
  then obtain d1 where 1: "f st = (Inr (V_optional None), st\<lparr>dec_state := d1, des_tag := None\<rparr>)" "advances 0 (dec_state st) d1"
    using assms(1) [unfolded skips_def, rule_format, OF st(1-3)] st(5,7) by auto
  obtain d2 where 2: "g (V_optional None) (st\<lparr>dec_state := d1, des_tag := None\<rparr>) =
      (Inr y, st\<lparr>dec_state := d1, des_tag := None\<rparr>\<lparr>dec_state := d2, des_tag := None\<rparr>)" "advances (length cs) d1 d2"
    using assms(3) [unfolded reads_exact_def, rule_format, of "st\<lparr>dec_state := d1, des_tag := None\<rparr>" rest p ps]
      1(2) st(2-7) by (auto simp: advances_def)
  show "\<exists>ds. bindA f g st = (Inr y, st\<lparr>dec_state := ds, des_tag := None\<rparr>) \<and> advances (length cs) (dec_state st) ds"
    using advances_trans [OF 1(2) 2(2)] 1(1) 2(1) by (intro exI [of _ d2]) (simp add: bindA_def)
qed

lemma reads_exact_map:
  "reads_exact d f bs x \<Longrightarrow> reads_exact d (bindA f (\<lambda>v. returnA (c v))) bs (c x)"
  unfolding reads_exact_def by (fastforce simp: bindA_def returnA_def)

lemma reads_exact_trailing: "reads_exact d (amp (deserialise T_trailing)) bs (V_trailing bs)"
  unfolding reads_exact_def
proof (intro allI impI)
  fix st :: deserialiser and rest p ps
  assume st: "dec_ok (dec_state st)" "ex st = None" "des_tag st = None" "input (dec_state st) = bs @ rest"
    "seq_pos (dec_state st) = p # ps" "position (dec_state st) + length bs = p"
  have "\<exists>ds. decode_trailing (dec_state st) = (Inr bs, ds) \<and> advances (length bs) (dec_state st) ds"
  proof (cases "bs = []")
    case True
    then show ?thesis using st by (simp add: decode_trailing_def advances_refl)
  next
    case False
    then show ?thesis using dec_read_ok [OF st(1), of "length bs"] st(4-6)
      by (auto simp: decode_trailing_def)
  qed
  then obtain ds where "decode_trailing (dec_state st) = (Inr bs, ds)" "advances (length bs) (dec_state st) ds" by blast
  then show "\<exists>ds. amp (deserialise T_trailing) st = (Inr (V_trailing bs), st\<lparr>dec_state := ds, des_tag := None\<rparr>) \<and>
      advances (length bs) (dec_state st) ds"
    using st(2,3) by (intro exI [of _ ds]) (simp add: amp_def bindA_def on_dec_def returnA_def)
qed

declare container_loop.simps [simp del]

lemma reads_exact_container_loop:
  assumes "list_all (\<lambda>v. enc v \<noteq> [] \<and> reads_as d None f (enc v) v) vs" "length (concat (map enc vs)) \<le> rounds"
  shows "reads_exact d (container_loop rounds f) (concat (map enc vs)) vs"
  using assms
proof (induction vs arbitrary: rounds)
  case Nil
  show ?case unfolding reads_exact_def
  proof (intro allI impI)
    fix st :: deserialiser and rest p ps
    assume "dec_ok (dec_state st)" "des_tag st = None" "seq_pos (dec_state st) = p # ps"
      "position (dec_state st) + length (concat (map enc [])) = p"
    then show "\<exists>ds. container_loop rounds f st = (Inr [], st\<lparr>dec_state := ds, des_tag := None\<rparr>) \<and>
        advances (length (concat (map enc []))) (dec_state st) ds"
      by (intro exI [of _ "dec_state st"]) (simp add: container_loop.simps is_end_of_sequence_def advances_refl)
  qed
next
  case (Cons v vs)
  then obtain r where r: "rounds = Suc r" by (cases rounds) auto
  have v: "enc v \<noteq> []" "reads_as d None (amp f) (enc v) v" using Cons.prems(1) reads_as_amp by auto
  have vs: "length (concat (map enc vs)) \<le> r" using Cons.prems(2) r v(1) by (cases "enc v") simp_all
  have ih: "reads_exact d (bindA (container_loop r f) (\<lambda>vs. returnA (v # vs))) (concat (map enc vs)) (v # vs)"
    using reads_exact_map [OF Cons.IH [OF _ vs]] Cons.prems(1) by simp
  show ?case unfolding reads_exact_def
  proof (intro allI impI)
    fix st :: deserialiser and rest p ps
    assume st: "dec_ok (dec_state st)" "ex st = None" "des_tag st = None"
      "input (dec_state st) = concat (map enc (v # vs)) @ rest" "seq_pos (dec_state st) = p # ps"
      "position (dec_state st) + length (concat (map enc (v # vs))) = p" "Suc (length ps) + d \<le> max_structure_depth"
    obtain d1 where 1: "amp f st = (Inr v, st\<lparr>dec_state := d1, des_tag := None\<rparr>)" "advances (length (enc v)) (dec_state st) d1"
      using reads_asD [OF v(2) st(1-3), of "concat (map enc vs) @ rest"] st(4-7) by (auto simp: inside_def)
    let ?st = "st\<lparr>dec_state := d1, des_tag := None\<rparr>"
    obtain d2 where 2: "bindA (container_loop r f) (\<lambda>vs. returnA (v # vs)) ?st =
        (Inr (v # vs), ?st\<lparr>dec_state := d2, des_tag := None\<rparr>)" "advances (length (concat (map enc vs))) d1 d2"
      using ih [unfolded reads_exact_def, rule_format, of ?st rest p ps] 1(2) st(2-7) by (auto simp: advances_def)
    have "\<not> is_end_of_sequence (dec_state st)" "position d1 \<noteq> position (dec_state st)"
      using st(5,6) v(1) 1(2) by (auto simp: is_end_of_sequence_def advances_def)
    then have "container_loop rounds f st = (Inr (v # vs), ?st\<lparr>dec_state := d2, des_tag := None\<rparr>)"
      using 2(1) by (simp add: container_loop.simps [of "Suc r"] r Let_def bindA_def [of "amp f"] 1(1))
    then show "\<exists>ds. container_loop rounds f st = (Inr (v # vs), st\<lparr>dec_state := ds, des_tag := None\<rparr>) \<and>
        advances (length (concat (map enc (v # vs)))) (dec_state st) ds"
      using advances_trans [OF 1(2) 2(2)] by (intro exI [of _ d2]) simp
  qed
qed

lemma reads_exact_container:
  assumes "list_all (\<lambda>v. enc v \<noteq> [] \<and> reads_as d None f (enc v) v) vs"
  shows "reads_exact d (\<lambda>st. container_loop (container_rounds (dec_state st)) f st) (concat (map enc vs)) vs"
  unfolding reads_exact_def
proof (intro allI impI)
  fix st :: deserialiser and rest p ps
  assume st: "dec_ok (dec_state st)" "ex st = None" "des_tag st = None"
    "input (dec_state st) = concat (map enc vs) @ rest" "seq_pos (dec_state st) = p # ps"
    "position (dec_state st) + length (concat (map enc vs)) = p" "Suc (length ps) + d \<le> max_structure_depth"
  have "length (concat (map enc vs)) \<le> container_rounds (dec_state st)"
    using st(4) by (simp add: container_rounds_def)
  from reads_exact_container_loop [OF assms this, unfolded reads_exact_def, rule_format, OF st]
  show "\<exists>ds. container_loop (container_rounds (dec_state st)) f st =
      (Inr vs, st\<lparr>dec_state := ds, des_tag := None\<rparr>) \<and> advances (length (concat (map enc vs))) (dec_state st) ds" .
qed


section \<open>Primitive elements\<close>

definition codes :: "tag_info option \<Rightarrow> unit ser \<Rightarrow> nat \<Rightarrow> 'a des \<Rightarrow> octets \<Rightarrow> 'a \<Rightarrow> bool" where
  "codes ct w d r bs v \<longleftrightarrow> writes ct w bs \<and> reads_as d ct r bs v"

lemma emits_unique: "emits f bs \<Longrightarrow> emits f cs \<Longrightarrow> bs = cs"
proof -
  assume "emits f bs" "emits f cs"
  then have "enc_write bs (make_encoder []) = enc_write cs (make_encoder [])" by (simp add: emits_def)
  then show "bs = cs"
    using ostream_write_at_end [of "make_ostream []" bs] ostream_write_at_end [of "make_ostream []" cs]
    by (simp add: enc_write_def make_encoder_def make_ostream_def make_ostream_at_def)
qed

lemma element_emits:
  assumes "tag_ok ct" "length bs \<le> max_structure_size"
  shows "emits (bindA (encode_header (make_header ct d (length bs))) (\<lambda>_. enc_write bs)) (tagged ct d False bs)"
proof -
  have "header_ok (make_header ct d (length bs))" using assms by (simp add: header_ok_def tag_ok_def)
  from emits_bind [OF _ emits_write] header_octets_ok [OF this] show ?thesis
    by (simp add: element_def make_header_def)
qed

lemma codes_primitive:
  assumes "emits (w ct) (hs @ bs)" "parses d (r ct) (hs @ bs) x" "emits (w ct) (tagged ct t False bs)"
  shows "codes ct (bindA ser_use_current_tag (\<lambda>t. on_enc (w t))) d
    (bindA des_use_current_tag (\<lambda>t. bindA (on_dec (r t)) (\<lambda>b. returnA (c b)))) (tagged ct t False bs) (c x)"
  using writes_use_tag [where f = w, OF assms(3)] reads_as_use_tag [where f = r and c = c, OF assms(2)] emits_unique [OF assms(1,3)]
  by (simp add: codes_def)

lemma codes_integer:
  assumes "tag_ok ct" "encode_integer sg v 9 h = Inr bs" "bs \<noteq> []" "h \<le> 8"
    "length bs \<le> h + (if sg then 0 else 1)" "sg \<or> unat (hd bs) < 128" "decode_integer bs h = v"
  shows "codes ct (bindA ser_use_current_tag (\<lambda>t. on_enc (enc_integer sg v t h d))) n
    (bindA des_use_current_tag (\<lambda>t. bindA (on_dec (dec_integer sg t h d)) (\<lambda>b. returnA (c b))))
    (tagged ct d False (int_octets sg v h)) (c v)"
proof -
  obtain hs where hs: "emits (enc_integer sg v ct h d) (hs @ bs)" "parses n (dec_integer sg ct h d) (hs @ bs) v"
    using integer_roundtrip [OF assms] by blast
  have "length bs \<le> max_structure_size" using assms(4,5) by (auto simp: max_structure_size_def split: if_splits)
  from element_emits [OF assms(1) this] have "emits (enc_integer sg v ct h d) (tagged ct d False bs)"
    using assms(2) by (simp add: enc_integer_def)
  from codes_primitive [where w = "\<lambda>t. enc_integer sg v t h d" and r = "\<lambda>t. dec_integer sg t h d" and c = c, OF hs this] show ?thesis using assms(2) by (simp add: int_octets_def)
qed

lemma codes_string:
  assumes "tag_ok ct" "length s \<le> max_structure_size"
  shows "codes ct (bindA ser_use_current_tag (\<lambda>t. on_enc (enc_string s t d))) n
    (bindA des_use_current_tag (\<lambda>t. bindA (on_dec (dec_string t d)) (\<lambda>b. returnA (c b))))
    (tagged ct d False s) (c s)"
proof -
  obtain hs where hs: "emits (enc_string s ct d) (hs @ s)" "parses n (dec_string ct d) (hs @ s) s"
    using string_roundtrip [OF assms] by blast
  have w: "(if s \<noteq> [] then enc_write s else returnA ()) = enc_write s" by simp
  from element_emits [OF assms] have "emits (enc_string s ct d) (tagged ct d False s)"
    using assms(2) by (simp add: enc_string_def w del: enc_write_Nil)
  from codes_primitive [where w = "\<lambda>t. enc_string s t d" and r = "\<lambda>t. dec_string t d", OF hs this] show ?thesis .
qed

lemma codes_big_integer:
  assumes "tag_ok ct" "length s \<le> max_structure_size" "s \<noteq> []"
  shows "codes ct (bindA ser_use_current_tag (\<lambda>t. on_enc (enc_big_integer s t d))) n
    (bindA des_use_current_tag (\<lambda>t. bindA (on_dec (dec_big_integer t d)) (\<lambda>b. returnA (c b))))
    (tagged ct d False s) (c s)"
proof -
  obtain hs where hs: "emits (enc_big_integer s ct d) (hs @ s)" "parses n (dec_big_integer ct d) (hs @ s) s"
    using big_integer_roundtrip [OF assms] by blast
  from element_emits [OF assms(1,2)] have "emits (enc_big_integer s ct d) (tagged ct d False s)"
    by (simp add: enc_big_integer_def)
  from codes_primitive [where w = "\<lambda>t. enc_big_integer s t d" and r = "\<lambda>t. dec_big_integer t d", OF hs this] show ?thesis .
qed

section \<open>Every headed type\<close>

text \<open>The octets are one element: a well-formed header of the given class and tag, and as many
  octets as it says.\<close>

definition headed_by :: "(octet \<times> 64 word) option \<Rightarrow> octets \<Rightarrow> bool" where
  "headed_by ht bs \<longleftrightarrow> (\<exists>h rest. bs = header_octets h @ rest \<and> header_ok h \<and>
     asn_length h = length rest \<and> Some (asn_class h, asn_tag h) = ht)"

lemma element_head:
  assumes "unat cls < 4" "length c \<le> (if b then max_constructed_size else max_structure_size)"
  shows "headed_by (Some (cls, t)) (element cls t b c)"
  unfolding headed_by_def using assms
  by (intro exI [of _ "\<lparr>asn_class = cls, asn_tag = t, asn_length = length c, is_constructed = b\<rparr>"] exI [of _ c])
    (simp add: element_def header_ok_def)

lemma int_octets_small: "length (int_octets sg v n) \<le> 9"
  by (auto simp: int_octets_def encode_integer_def encode_to_octets_def Let_def split: sum.splits if_splits)

lemma der_head:
  assumes "headed t" "ty_ok t" "val_ok t v" "tag_ok ct" "ct = None \<or> taggable t"
  shows "headed_by (head_tag t ct) (der t ct v)"
proof -
  have s: "length (int_octets sg v n) \<le> max_structure_size" for sg v n
    using int_octets_small [of sg v n] by (simp add: max_structure_size_def)
  have p: "headed_by (head_tag t ct) (der t ct v)"
    if "taggable t" "val_ok t v" "tag_ok ct" for t ct v
    using that s by (cases t; cases v) (auto simp: tag_ok_def intro!: element_head)
  show ?thesis
  proof (cases t)
    case (T_implicit n u)
    then show ?thesis using p [of u v "Some (context_tag n)"] assms by simp
  next
    case (T_explicit n u)
    then show ?thesis using element_head [of context_specific_c "der u None v" True n] assms by simp
  qed (use p [of t v ct] assms in simp_all)
qed

lemma misses_headed:
  assumes "headed t" "ct = None \<or> taggable t"
  shows "misses ct (deserialise t) (head_tag t ct)"
proof -
  have p: "misses ct (deserialise t) (head_tag t ct)" if "taggable t" for t ct
    using that
    by (cases t) (auto simp: des_sequence_def decode_bool_def decode_int64_def decode_uint64_def decode_big_def
        decode_str_def decode_octets_def dec_integer_def dec_string_def dec_big_integer_def dec_start_sequence_def
        bindA_assoc intro!: misses_use_tag misses_header)
  show ?thesis
  proof (cases t)
    case (T_implicit n u)
    then show ?thesis using p [of u "Some (context_tag n)"] assms by (auto intro: misses_set_tag misses_amp)
  next
    case (T_explicit n u)
    then show ?thesis using assms by (auto simp: dec_start_explicit_tag_def intro!: misses_header)
  qed (use p [of t ct] assms in simp_all)
qed


text \<open>What the main induction carries: a headed type codes its values.\<close>

definition coded :: "ty \<Rightarrow> bool" where
  "coded t \<longleftrightarrow> (\<forall>ct v. headed t \<longrightarrow> ty_ok t \<longrightarrow> val_ok t v \<longrightarrow> tag_ok ct \<longrightarrow> ct = None \<or> taggable t \<longrightarrow>
     codes ct (serialise t v) (depth t) (deserialise t) (der t ct v) v)"

lemma coded_bool: "coded T_bool"
proof -
  have "codes ct (serialise T_bool (V_bool b)) 0 (deserialise T_bool) (der T_bool ct (V_bool b)) (V_bool b)"
    if "tag_ok ct" for ct b
  proof -
    let ?v = "if b then 1 else 0 :: 64 word"
    obtain bs where bs: "encode_integer True ?v 9 1 = Inr bs" "length bs \<le> 1" "der_minimal bs" "decode_integer bs 1 = ?v"
      using encode_signed [of 1 ?v] by (cases b) auto
    have "codes ct (bindA ser_use_current_tag (\<lambda>t. on_enc (enc_integer True ?v t 1 tag_boolean))) 0
        (bindA des_use_current_tag (\<lambda>t. bindA (on_dec (dec_integer True t 1 tag_boolean)) (\<lambda>v. returnA (V_bool (v \<noteq> 0)))))
        (tagged ct tag_boolean False (int_octets True ?v 1)) (V_bool (?v \<noteq> 0))"
      by (rule codes_integer [OF that bs(1)]) (use bs in \<open>auto simp: der_minimal_def\<close>)
    moreover have "on_dec (decode_bool t) = bindA (on_dec (dec_integer True t 1 tag_boolean)) (\<lambda>v. returnA (v \<noteq> 0))" for t
      by (rule ext) (simp add: decode_bool_def on_dec_def bindA_def returnA_def split: prod.splits sum.splits)
    ultimately show ?thesis by (cases b) (simp_all add: encode_bool_def bindA_assoc)
  qed
  then show ?thesis by (auto simp: coded_def split: val.splits)
qed

lemma coded_int: "coded (T_int n)"
  unfolding coded_def
proof (intro allI impI)
  fix ct v
  assume a: "ty_ok (T_int n)" "val_ok (T_int n) v" "tag_ok ct"
  then obtain i where v: "v = V_int i" "1 \<le> n" "n \<le> 8" "- (2 ^ (8 * n - 1)) \<le> sint i" "sint i < 2 ^ (8 * n - 1)"
    by (auto split: val.splits)
  obtain bs where bs: "encode_integer True i 9 n = Inr bs" "length bs \<le> n" "der_minimal bs" "decode_integer bs n = i"
    using encode_signed [OF v(2-5)] by auto
  show "codes ct (serialise (T_int n) v) (depth (T_int n)) (deserialise (T_int n)) (der (T_int n) ct v) v"
    unfolding serialise.simps deserialise.simps der.simps depth.simps v(1) val.simps encode_int64_def decode_int64_def
    by (rule codes_integer [OF a(3) bs(1)]) (use bs v in \<open>auto simp: der_minimal_def\<close>)
qed

lemma coded_uint: "coded (T_uint n)"
  unfolding coded_def
proof (intro allI impI)
  fix ct v
  assume a: "ty_ok (T_uint n)" "val_ok (T_uint n) v" "tag_ok ct"
  then obtain i where v: "v = V_int i" "1 \<le> n" "n \<le> 8" "unat i < 2 ^ (8 * n)"
    by (auto split: val.splits)
  obtain bs where bs: "encode_integer False i 9 n = Inr bs" "length bs \<le> n + 1" "der_minimal bs"
    "unat (hd bs) < 128" "decode_integer bs n = i"
    using encode_unsigned [OF v(2-4)] by auto
  have t: "take_bit (8 * n) i = i" using v(4) by (simp add: word_unat_eq_iff unsigned_take_bit_eq take_bit_nat_eq_self)
  have "codes ct (serialise (T_uint n) v) (depth (T_uint n)) (deserialise (T_uint n)) (der (T_uint n) ct v) (V_int (take_bit (8 * n) i))"
    unfolding serialise.simps deserialise.simps der.simps depth.simps v(1) val.simps encode_uint64_def decode_uint64_def
    by (rule codes_integer [OF a(3) bs(1)]) (use bs v in \<open>auto simp: der_minimal_def\<close>)
  then show "codes ct (serialise (T_uint n) v) (depth (T_uint n)) (deserialise (T_uint n)) (der (T_uint n) ct v) v"
    using t v(1) by simp
qed

lemma coded_strings: "coded T_string" "coded T_octets" "coded T_integer"
  unfolding coded_def
  by (auto simp: encode_str_def decode_str_def encode_octets_def decode_octets_def encode_big_def decode_big_def
      intro!: codes_string codes_big_integer split: val.splits)

lemma coded_implicit: "coded t \<Longrightarrow> coded (T_implicit n t)"
  unfolding coded_def
proof (intro allI impI)
  fix ct v
  assume a: "\<forall>ct v. headed t \<longrightarrow> ty_ok t \<longrightarrow> val_ok t v \<longrightarrow> tag_ok ct \<longrightarrow> ct = None \<or> taggable t \<longrightarrow>
     codes ct (serialise t v) (depth t) (deserialise t) (der t ct v) v"
    "headed (T_implicit n t)" "ty_ok (T_implicit n t)" "val_ok (T_implicit n t) v"
  have t: "taggable t" "headed t" using a(2) by (cases t; simp)+
  then have "\<not> absent t v" by (auto simp: absent_def split: ty.splits)
  with a t have "codes (Some (context_tag n)) (serialise t v) (depth t) (deserialise t) (der t (Some (context_tag n)) v) v"
    by simp
  with \<open>\<not> absent t v\<close> show "codes ct (serialise (T_implicit n t) v) (depth (T_implicit n t)) (deserialise (T_implicit n t)) (der (T_implicit n t) ct v) v"
    by (auto simp: codes_def intro: writes_set_tag reads_as_set_tag reads_as_amp)
qed

lemma deserialise_explicit: "deserialise (T_explicit n t) = explicit_body n (deserialise t)"
  by (simp add: explicit_body_def)

lemma coded_explicit: "coded t \<Longrightarrow> coded (T_explicit n t)"
  unfolding coded_def
proof (intro allI impI)
  fix ct :: "tag_info option" and v
  assume a: "\<forall>ct v. headed t \<longrightarrow> ty_ok t \<longrightarrow> val_ok t v \<longrightarrow> tag_ok ct \<longrightarrow> ct = None \<or> taggable t \<longrightarrow>
     codes ct (serialise t v) (depth t) (deserialise t) (der t ct v) v"
    "ty_ok (T_explicit n t)" "val_ok (T_explicit n t) v" "ct = None \<or> taggable (T_explicit n t)"
  let ?bs = "der t None v"
  let ?h = "\<lparr>asn_class = context_specific_c, asn_tag = n, asn_length = length ?bs, is_constructed = True\<rparr>"
  have c: "writes None (serialise t v) ?bs" "reads_as (depth t) None (deserialise t) ?bs v"
    using a(1) [rule_format, of v None] a(2,3) by (auto simp: codes_def)
  have l: "length ?bs \<le> max_constructed_size" using a(3) by simp
  then have "emits (encode_header ?h) (header_octets ?h)" using header_octets_ok [of ?h] by (simp add: header_ok_def)
  with writes_explicit [OF c(1)] reads_as_explicit [OF c(2) l, of n] a(4)
  show "codes ct (serialise (T_explicit n t) v) (depth (T_explicit n t)) (deserialise (T_explicit n t)) (der (T_explicit n t) ct v) v"
    by (simp add: codes_def element_def deserialise_explicit del: deserialise.simps)
qed


section \<open>Fields of a sequence\<close>

definition coded_field :: "ty \<Rightarrow> bool" where
  "coded_field t \<longleftrightarrow> coded t \<and> (\<forall>u. optional_inner t = Some u \<longrightarrow> coded u)"

lemma coded_codes:
  "coded t \<Longrightarrow> headed t \<Longrightarrow> ty_ok t \<Longrightarrow> val_ok t v \<Longrightarrow> tag_ok ct \<Longrightarrow> ct = None \<or> taggable t \<Longrightarrow>
     writes ct (serialise t v) (der t ct v) \<and> reads_as (depth t) ct (deserialise t) (der t ct v) v"
  unfolding coded_def codes_def by blast

lemma taggable_headed: "taggable t \<Longrightarrow> headed t"
  by (cases t) auto

lemma headed_not_optional: "headed t \<Longrightarrow> ty_ok t \<Longrightarrow> \<not> val_ok t (V_optional x)"
proof (induction t)
  case (T_implicit n t)
  then show ?case by (cases t) auto
qed auto

lemma field_kinds:
  assumes "ty_ok t" "t \<noteq> T_trailing" "\<not> headed t"
  obtains (optional) u where "t = T_optional u" "headed u" "ty_ok u"
    | (implicit) n u where "t = T_implicit n (T_optional u)" "taggable u" "ty_ok u"
    | (explicit) n u where "t = T_explicit_optional n u" "headed u" "ty_ok u"
  using assms by (cases t) auto

lemma explicit_codes:
  assumes "coded u" "headed u" "ty_ok u" "val_ok u v" "length (der u None v) \<le> max_constructed_size"
  shows "writes None (serialise (T_explicit n u) v) (der (T_explicit n u) None v) \<and>
    reads_as (Suc (depth u)) None (explicit_body n (deserialise u)) (der (T_explicit n u) None v) v"
  using coded_codes [OF coded_explicit [OF assms(1)], of n v None] assms(2-) deserialise_explicit by simp

lemma field_writes:
  assumes "coded_field t" "ty_ok t" "val_ok t v"
  shows "writes None (serialise t v) (der t None v)"
proof (cases "t = T_trailing \<or> headed t")
  case True
  then show ?thesis using assms coded_codes [of t v None]
    by (auto simp: coded_field_def encode_trailing_def writes_on_enc emits_write split: val.splits)
next
  case False
  with assms(2) have "t \<noteq> T_trailing" "\<not> headed t" by auto
  with assms(2) show ?thesis
  proof (cases rule: field_kinds)
    case (optional u)
    then show ?thesis using assms coded_codes [of u _ None]
      by (auto simp: coded_field_def writes_return split: val.splits option.splits)
  next
    case (implicit n u)
    then show ?thesis using assms coded_codes [of u _ "Some (context_tag n)"] taggable_headed
      by (auto simp: coded_field_def absent_def writes_return writes_set_tag split: val.splits option.splits)
  next
    case (explicit n u)
    then show ?thesis using assms explicit_codes [of u _ n]
      by (auto simp: coded_field_def writes_return split: val.splits option.splits)
  qed
qed

lemma field_present:
  assumes "coded_field t" "ty_ok t" "val_ok t v" "t \<noteq> T_trailing" "v \<noteq> V_optional None"
  shows "reads_as (depth t) None (deserialise t) (der t None v) v \<and> headed_by (head_tag t None) (der t None v)"
proof (cases "headed t")
  case True
  then show ?thesis using assms coded_codes [of t v None] der_head [of t v None]
    by (auto simp: coded_field_def)
next
  case False
  from assms(2,4) False show ?thesis
  proof (cases rule: field_kinds)
    case (optional u)
    obtain w where w: "v = V_optional (Some w)" "val_ok u w"
      using assms(3,5) optional by (auto split: val.splits option.splits)
    have "coded u" using assms(1) optional by (simp add: coded_field_def)
    then show ?thesis
      using optional w coded_codes [of u w None] der_head [of u w None]
      by (auto simp: des_optional_peeked intro: peeked_present reads_as_amp)
  next
    case (implicit n u)
    obtain w where w: "v = V_optional (Some w)" "val_ok u w"
      using assms(3,5) implicit by (auto split: val.splits option.splits)
    have "coded u" using assms(1) implicit by (simp add: coded_field_def)
    then show ?thesis
      using implicit w coded_codes [of u w "Some (context_tag n)"] der_head [of u w "Some (context_tag n)"] taggable_headed
      by (auto simp: des_optional_peeked intro!: peeked_present reads_as_amp reads_as_set_tag)
  next
    case (explicit n u)
    obtain w where w: "v = V_optional (Some w)" "val_ok u w" "length (der u None w) \<le> max_constructed_size"
      using assms(3,5) explicit by (auto split: val.splits option.splits)
    have "coded u" using assms(1) explicit by (simp add: coded_field_def)
    then show ?thesis
      using explicit w explicit_codes [of u w n] element_head [of context_specific_c "der u None w" True n]
      by (auto simp: des_optional_peeked intro!: peeked_present)
  qed
qed

lemma field_absent:
  assumes "ty_ok t" "val_ok t (V_optional None)"
  shows "skips None (deserialise t) (head_tag t None) \<and> der t None (V_optional None) = []"
proof -
  have "t \<noteq> T_trailing" "\<not> headed t" using assms headed_not_optional by auto
  with assms(1) show ?thesis
  proof (cases rule: field_kinds)
    case (optional u)
    then show ?thesis using misses_headed [of u None]
      by (auto simp: des_optional_peeked intro: peeked_absent misses_amp)
  next
    case (implicit n u)
    then show ?thesis using misses_headed [of u "Some (context_tag n)"] taggable_headed
      by (auto simp: des_optional_peeked intro!: peeked_absent misses_amp skips_amp skips_set_tag)
  next
    case (explicit n u)
    then show ?thesis using misses_headed [of "T_explicit n u" None]
      by (auto simp: des_optional_peeked explicit_body_def intro: peeked_absent)
  qed
qed

lemma next_differs_concat:
  assumes "list_all (\<lambda>t. coded_field t \<and> ty_ok t) ts" "length vs = length ts"
    "list_all (\<lambda>b. b) (apply_list (map val_ok ts) vs)" "T_trailing \<notin> set (butlast ts)" "next_differs ht ts vs"
  shows "concat (apply_list (map (\<lambda>t. der t None) ts) vs) = [] \<or>
    other_header ht (concat (apply_list (map (\<lambda>t. der t None) ts) vs))"
  using assms
proof (induction ht ts vs rule: next_differs.induct)
  case (1 ht t ts v vs)
  consider (absent) "v = V_optional None" | (trailing) "v \<noteq> V_optional None" "t = T_trailing"
    | (present) "v \<noteq> V_optional None" "t \<noteq> T_trailing" by blast
  then show ?case
  proof cases
    case absent
    have "der t None v = []" using field_absent [of t] 1(2,4) absent by simp
    have "T_trailing \<notin> set (butlast ts)" using 1(5) by (cases ts) auto
    with \<open>der t None v = []\<close> show ?thesis using 1 absent by simp
  next
    case trailing
    then have "ts = []" "v = V_trailing []" using 1(5,6) by (auto split: if_splits)
    then show ?thesis using trailing by simp
  next
    case present
    then have "headed_by (head_tag t None) (der t None v)" "head_tag t None \<noteq> ht"
      using field_present [of t v] 1(2,4,6) by auto
    then show ?thesis by (fastforce simp: headed_by_def other_header_def)
  qed
qed auto

lemma fields_write:
  assumes "list_all (\<lambda>t. coded_field t \<and> ty_ok t) ts" "length vs = length ts"
    "list_all (\<lambda>b. b) (apply_list (map val_ok ts) vs)"
  shows "writes None (serialise_fields (map serialise ts) vs) (concat (apply_list (map (\<lambda>t. der t None) ts) vs))"
  using assms
proof (induction ts arbitrary: vs)
  case Nil
  then show ?case by (simp add: writes_return)
next
  case (Cons t ts)
  then obtain v ws where "vs = v # ws" by (cases vs) auto
  with Cons show ?case by (simp add: writes_bind field_writes)
qed

lemma fields_read:
  assumes "list_all (\<lambda>t. coded_field t \<and> ty_ok t \<and> depth t \<le> d) ts" "length vs = length ts"
    "list_all (\<lambda>b. b) (apply_list (map val_ok ts) vs)" "T_trailing \<notin> set (butlast ts)" "layout_ok ts vs"
  shows "reads_exact d (deserialise_fields (map deserialise ts)) (concat (apply_list (map (\<lambda>t. der t None) ts) vs)) vs"
  using assms
proof (induction ts arbitrary: vs)
  case Nil
  then show ?case by (simp add: reads_exact_return)
next
  case (Cons t ts)
  then obtain v ws where vs: "vs = v # ws" by (cases vs) auto
  let ?rest = "concat (apply_list (map (\<lambda>t. der t None) ts) ws)"
  have tr: "T_trailing \<notin> set (butlast ts)" using Cons.prems(4) by (auto split: if_splits)
  have ih: "reads_exact d (bindA (deserialise_fields (map deserialise ts)) (\<lambda>vs. returnA (v # vs))) ?rest (v # ws)"
    using reads_exact_map [OF Cons.IH [of ws]] Cons.prems vs tr by simp
  consider (absent) "v = V_optional None" | (trailing) "v \<noteq> V_optional None" "t = T_trailing"
    | (present) "v \<noteq> V_optional None" "t \<noteq> T_trailing" by blast
  then show ?case
  proof cases
    case absent
    then have f: "skips None (amp (deserialise t)) (head_tag t None)" "der t None v = []"
      using field_absent [of t] Cons.prems(1,3) vs skips_amp by auto
    have ts: "list_all (\<lambda>t. coded_field t \<and> ty_ok t) ts"
      using Cons.prems(1) by (auto simp: list_all_iff)
    have "?rest = [] \<or> other_header (head_tag t None) ?rest"
      using next_differs_concat [OF ts _ _ tr, of ws "head_tag t None"] Cons.prems(2,3,5) vs absent by simp
    from reads_exact_skip [OF f(1) this, of d "\<lambda>v. bindA (deserialise_fields (map deserialise ts)) (\<lambda>vs. returnA (v # vs))"]
    show ?thesis using ih f(2) vs absent by simp
  next
    case trailing
    then obtain bs where bs: "ts = []" "ws = []" "v = V_trailing bs"
      using Cons.prems(2,3,4) vs by (auto split: val.splits if_splits)
    then show ?thesis using reads_exact_map [OF reads_exact_trailing [of d bs], of "\<lambda>v. [v]"] trailing vs
      by simp
  next
    case present
    then have "reads_as d None (amp (deserialise t)) (der t None v) v"
      using field_present [of t v] Cons.prems(1,3) vs by (auto intro: reads_as_weaken reads_as_amp)
    from reads_exact_bind [OF this, where g = "\<lambda>v. bindA (deserialise_fields (map deserialise ts)) (\<lambda>vs. returnA (v # vs))", OF ih]
    show ?thesis using vs by simp
  qed
qed

section \<open>Sequences, containers, and every type\<close>

lemma fold_max_ge: "x \<in> set xs \<Longrightarrow> x \<le> fold max xs (a :: nat)"
proof (induction xs arbitrary: a)
  case (Cons y ys)
  have "a \<le> fold max ys a" for a by (induction ys arbitrary: a) (simp, simp, meson le_trans max.cobounded2)
  then show ?case using Cons by (auto intro: le_trans [OF max.cobounded1])
qed simp

lemma codes_structure:
  assumes "writes None w bs" "reads_exact d r bs x" "tag_ok ct" "length bs \<le> max_constructed_size"
  shows "codes ct (ser_sequence w) (Suc d) (bindA (des_sequence r) (\<lambda>v. returnA (c v)))
    (tagged ct tag_sequence True bs) (c x)"
proof -
  let ?h = "\<lparr>asn_class = get_asn_class ct, asn_tag = get_tag ct tag_sequence, asn_length = length bs, is_constructed = True\<rparr>"
  have "emits (encode_header ?h) (header_octets ?h)"
    using header_octets_ok [of ?h] assms(3,4) by (simp add: header_ok_def tag_ok_def)
  from writes_sequence [OF assms(1) this] reads_as_map [OF reads_as_sequence [OF assms(2-4)], of c]
  show ?thesis by (simp add: codes_def element_def)
qed

lemma coded_seq:
  assumes "\<And>t. t \<in> set ts \<Longrightarrow> coded_field t"
  shows "coded (T_seq ts)"
  unfolding coded_def
proof (intro allI impI)
  fix ct v
  assume a: "ty_ok (T_seq ts)" "val_ok (T_seq ts) v" "tag_ok ct"
  then obtain vs where v: "v = V_seq vs" "length vs = length ts" "list_all (\<lambda>b. b) (apply_list (map val_ok ts) vs)"
    "layout_ok ts vs" "length (concat (apply_list (map (\<lambda>t. der t None) ts) vs)) \<le> max_constructed_size"
    by (auto split: val.splits)
  let ?d = "fold max (map depth ts) 0"
  have ts: "list_all (\<lambda>t. coded_field t \<and> ty_ok t) ts" "list_all (\<lambda>t. coded_field t \<and> ty_ok t \<and> depth t \<le> ?d) ts"
    using a(1) assms fold_max_ge [of _ "map depth ts" 0] by (auto simp: list_all_iff)
  have "T_trailing \<notin> set (butlast ts)" using a(1) by simp
  from codes_structure [OF fields_write [OF ts(1) v(2,3)] fields_read [OF ts(2) v(2,3) this v(4)] a(3) v(5), of V_seq]
  show "codes ct (serialise (T_seq ts) v) (depth (T_seq ts)) (deserialise (T_seq ts)) (der (T_seq ts) ct v) v"
    by (simp add: v(1))
qed

lemma headed_by_nonempty: "headed_by ht bs \<Longrightarrow> bs \<noteq> []"
  using header_octets_ok by (auto simp: headed_by_def)

lemma coded_container:
  assumes "coded t"
  shows "coded (T_container t)"
  unfolding coded_def
proof (intro allI impI)
  fix ct v
  assume a: "ty_ok (T_container t)" "val_ok (T_container t) v" "tag_ok ct"
  then obtain vs where v: "v = V_seq vs" "list_all (val_ok t) vs" "length (concat (map (der t None) vs)) \<le> max_constructed_size"
    by (auto split: val.splits)
  have t: "headed t" "ty_ok t" using a(1) by simp_all
  have c: "writes None (serialise t u) (der t None u)" "reads_as (depth t) None (deserialise t) (der t None u) u"
    "der t None u \<noteq> []" if "u \<in> set vs" for u
    using coded_codes [OF assms t, of u None] der_head [OF t, of u None] headed_by_nonempty v(2) that
    by (auto simp: list_all_iff)
  have "writes None (serialise_fields (map (\<lambda>_. serialise t) us) us) (concat (map (der t None) us))"
    if "set us \<subseteq> set vs" for us
    using that by (induction us) (auto simp: writes_return writes_bind c)
  moreover have "reads_exact (depth t) (\<lambda>st. container_loop (container_rounds (dec_state st)) (deserialise t) st)
      (concat (map (der t None) vs)) vs"
    using c by (intro reads_exact_container) (simp add: list_all_iff)
  ultimately show "codes ct (serialise (T_container t) v) (depth (T_container t)) (deserialise (T_container t)) (der (T_container t) ct v) v"
    using codes_structure [OF _ _ a(3) v(3), of _ "depth t" _ vs V_seq] by (simp add: v(1))
qed

lemma coded_field_all: "coded_field t"
proof (induction t)
  case (T_seq ts)
  then show ?case using coded_seq by (auto simp: coded_field_def)
next
  case (T_implicit n t)
  then have "coded t" "coded (T_implicit n t)" by (simp_all add: coded_field_def coded_implicit)
  with T_implicit show ?case by (cases t) (auto simp: coded_field_def)
qed (auto simp: coded_field_def coded_bool coded_int coded_uint coded_strings coded_explicit coded_container,
  auto simp: coded_def)

lemma coded_all: "coded t"
  using coded_field_all by (simp add: coded_field_def)

section \<open>Encoded sizes\<close>

lemma length_element:
  assumes "unat cls < 4" "length c \<le> (if constructed then max_constructed_size else max_structure_size)"
  shows "length (element cls t constructed c) \<le> 20 + length c"
  using header_octets_ok [of "\<lparr>asn_class = cls, asn_tag = t, asn_length = length c, is_constructed = constructed\<rparr>"] assms
  by (auto simp: element_def header_ok_def)

lemma length_primitive:
  assumes "length c \<le> max_structure_size"
  shows "length (element 0 t False c) \<le> 20 + length c"
  using length_element [of 0 c False t] assms by simp

lemma length_constructed:
  assumes "length c \<le> max_constructed_size"
  shows "length (element 0 t True c) \<le> 20 + length c"
  using length_element [of 0 c True t] assms by simp

lemma length_int_element: "length (element 0 t False (int_octets sg v n)) \<le> 29"
  using length_primitive [of "int_octets sg v n" t] int_octets_small [of sg v n] by (simp add: max_structure_size_def)

lemmas encoded_sizes = length_primitive length_constructed length_int_element

lemma asn_der_ok:
  assumes "headed t" "ty_ok t" "val_ok t v" "depth t \<le> max_structure_depth"
  shows "asn_der_serialise t v = Inr (der t None v)" "asn_der_deserialise t (der t None v @ rest) = Inr v"
proof -
  have c: "writes None (serialise t v) (der t None v)" "reads_as (depth t) None (amp (deserialise t)) (der t None v) v"
    using coded_codes [OF coded_all assms(1-3), of None] reads_as_amp by auto
  have "vec (ostream_write (make_ostream []) (der t None v)) = der t None v"
    using ostream_write_at_end [of "make_ostream []" "der t None v"] by (simp add: make_ostream_def make_ostream_at_def)
  then show "asn_der_serialise t v = Inr (der t None v)"
    using c(1) by (simp add: asn_der_serialise_def writes_def enc_write_def make_encoder_def)
  have "\<exists>st. amp (deserialise t) (make_deserialiser (der t None v @ rest)) = (Inr v, st)"
    using reads_asD [OF c(2), of "make_deserialiser (der t None v @ rest)" rest] assms(4)
    by (auto simp: make_deserialiser_def inside_def)
  then show "asn_der_deserialise t (der t None v @ rest) = Inr v" by (auto simp: asn_der_deserialise_def)
qed

text \<open>An upper bound of the encoded size that is easy to evaluate, and the conditions on a value other than
  its encoded size.\<close>

primrec bound :: "ty \<Rightarrow> val \<Rightarrow> nat" where
  "bound T_bool v = 29"
| "bound (T_int n) v = 29"
| "bound (T_uint n) v = 29"
| "bound T_integer v = (case v of V_integer s \<Rightarrow> 20 + length s | _ \<Rightarrow> 0)"
| "bound T_string v = (case v of V_string s \<Rightarrow> 20 + length s | _ \<Rightarrow> 0)"
| "bound T_octets v = (case v of V_octets s \<Rightarrow> 20 + length s | _ \<Rightarrow> 0)"
| "bound T_trailing v = (case v of V_trailing s \<Rightarrow> length s | _ \<Rightarrow> 0)"
| "bound (T_optional t) v = (case v of V_optional (Some u) \<Rightarrow> bound t u | _ \<Rightarrow> 0)"
| "bound (T_implicit n t) v = bound t v"
| "bound (T_explicit n t) v = 20 + bound t v"
| "bound (T_explicit_optional n t) v = (case v of V_optional (Some u) \<Rightarrow> 20 + bound t u | _ \<Rightarrow> 0)"
| "bound (T_seq ts) v = (case v of V_seq vs \<Rightarrow> 20 + sum_list (apply_list (map bound ts) vs) | _ \<Rightarrow> 0)"
| "bound (T_container t) v = (case v of V_seq vs \<Rightarrow> 20 + sum_list (map (bound t) vs) | _ \<Rightarrow> 0)"

primrec shape_ok :: "ty \<Rightarrow> val \<Rightarrow> bool" where
  "shape_ok T_bool v = val_ok T_bool v"
| "shape_ok (T_int n) v = val_ok (T_int n) v"
| "shape_ok (T_uint n) v = val_ok (T_uint n) v"
| "shape_ok T_integer v = val_ok T_integer v"
| "shape_ok T_string v = val_ok T_string v"
| "shape_ok T_octets v = val_ok T_octets v"
| "shape_ok T_trailing v = val_ok T_trailing v"
| "shape_ok (T_optional t) v = (case v of V_optional None \<Rightarrow> True | V_optional (Some u) \<Rightarrow> shape_ok t u | _ \<Rightarrow> False)"
| "shape_ok (T_implicit n t) v = shape_ok t v"
| "shape_ok (T_explicit n t) v = shape_ok t v"
| "shape_ok (T_explicit_optional n t) v =
     (case v of V_optional None \<Rightarrow> True | V_optional (Some u) \<Rightarrow> shape_ok t u | _ \<Rightarrow> False)"
| "shape_ok (T_seq ts) v =
     (case v of
        V_seq vs \<Rightarrow> length vs = length ts \<and> list_all (\<lambda>b. b) (apply_list (map shape_ok ts) vs) \<and> layout_ok ts vs
      | _ \<Rightarrow> False)"
| "shape_ok (T_container t) v = (case v of V_seq vs \<Rightarrow> list_all (shape_ok t) vs | _ \<Rightarrow> False)"

abbreviation fits :: "ty \<Rightarrow> bool" where
  "fits t \<equiv> \<forall>ct v. tag_ok ct \<longrightarrow> shape_ok t v \<longrightarrow> bound t v \<le> max_constructed_size \<longrightarrow>
     val_ok t v \<and> length (der t ct v) \<le> bound t v"

lemma tagged_size:
  assumes "tag_ok ct" "length c \<le> max_structure_size \<or> constructed \<and> length c \<le> max_constructed_size"
  shows "length (tagged ct d constructed c) \<le> 20 + length c"
proof -
  have "unat (get_asn_class ct) < 4" using assms(1) by (auto simp: tag_ok_def)
  moreover have "max_structure_size \<le> max_constructed_size" by (simp add: max_structure_size_def max_constructed_size_def)
  ultimately show ?thesis using assms(2) by (intro length_element) auto
qed

lemma fits_None: "fits t \<Longrightarrow> shape_ok t v \<Longrightarrow> bound t v \<le> max_constructed_size \<Longrightarrow>
    val_ok t v \<and> length (der t None v) \<le> bound t v"
  using tag_ok_None by blast

lemma fits_fields:
  assumes "\<forall>t \<in> set ts. fits t" "length vs = length ts" "list_all (\<lambda>b. b) (apply_list (map shape_ok ts) vs)"
    "sum_list (apply_list (map bound ts) vs) \<le> max_constructed_size"
  shows "list_all (\<lambda>b. b) (apply_list (map val_ok ts) vs) \<and>
    length (concat (apply_list (map (\<lambda>t. der t None) ts) vs)) \<le> sum_list (apply_list (map bound ts) vs)"
  using assms
proof (induction ts arbitrary: vs)
  case (Cons t ts)
  obtain v us where vs: "vs = v # us" using Cons.prems(2) by (cases vs) auto
  have "val_ok t v \<and> length (der t None v) \<le> bound t v"
    using Cons.prems by (intro fits_None) (simp_all add: vs)
  moreover have "list_all (\<lambda>b. b) (apply_list (map val_ok ts) us) \<and>
    length (concat (apply_list (map (\<lambda>t. der t None) ts) us)) \<le> sum_list (apply_list (map bound ts) us)"
    using Cons.prems by (intro Cons.IH) (auto simp: vs)
  ultimately show ?case by (simp add: vs)
qed simp

lemma fits_elements:
  assumes "fits t" "list_all (shape_ok t) vs" "sum_list (map (bound t) vs) \<le> max_constructed_size"
  shows "list_all (val_ok t) vs \<and> length (concat (map (der t None) vs)) \<le> sum_list (map (bound t) vs)"
  using assms(2,3)
proof (induction vs)
  case (Cons v vs)
  have "val_ok t v \<and> length (der t None v) \<le> bound t v" using Cons.prems by (intro fits_None [OF assms(1)]) simp_all
  then show ?case using Cons by simp
qed simp

lemma int_size: "tag_ok ct \<Longrightarrow> length (tagged ct d False (int_octets sg v n)) \<le> 29"
  using tagged_size [of ct "int_octets sg v n" False d] int_octets_small [of sg v n] by (simp add: max_structure_size_def)

lemma fits_all: "fits t"
proof (induction t)
  case (T_seq ts)
  show ?case
  proof (intro allI impI)
    fix ct v assume a: "tag_ok ct" "shape_ok (T_seq ts) v" "bound (T_seq ts) v \<le> max_constructed_size"
    obtain vs where vs: "v = V_seq vs" using a(2) by (cases v) auto
    have f: "list_all (\<lambda>b. b) (apply_list (map val_ok ts) vs) \<and>
      length (concat (apply_list (map (\<lambda>t. der t None) ts) vs)) \<le> sum_list (apply_list (map bound ts) vs)"
      using T_seq a by (intro fits_fields) (simp_all add: vs)
    then show "val_ok (T_seq ts) v \<and> length (der (T_seq ts) ct v) \<le> bound (T_seq ts) v"
      using a tagged_size [OF a(1), of "concat (apply_list (map (\<lambda>t. der t None) ts) vs)" True tag_sequence] by (simp add: vs)
  qed
next
  case (T_container t)
  show ?case
  proof (intro allI impI)
    fix ct v assume a: "tag_ok ct" "shape_ok (T_container t) v" "bound (T_container t) v \<le> max_constructed_size"
    obtain vs where vs: "v = V_seq vs" using a(2) by (cases v) auto
    have "list_all (val_ok t) vs \<and> length (concat (map (der t None) vs)) \<le> sum_list (map (bound t) vs)"
      using T_container a by (intro fits_elements) (simp_all add: vs)
    then show "val_ok (T_container t) v \<and> length (der (T_container t) ct v) \<le> bound (T_container t) v"
      using a tagged_size [OF a(1), of "concat (map (der t None) vs)" True tag_sequence] by (simp add: vs)
  qed
next
  case (T_explicit n t)
  have "length (element context_specific_c n True (der t None v)) \<le> 20 + bound t v \<and> length (der t None v) \<le> max_constructed_size \<and> val_ok t v"
    if "shape_ok t v" "20 + bound t v \<le> max_constructed_size" for v
    using fits_None [OF T_explicit, of v] that length_element [of context_specific_c "der t None v" True n] by simp
  then show ?case by simp
next
  case (T_explicit_optional n t)
  have "length (element context_specific_c n True (der t None v)) \<le> 20 + bound t v \<and> length (der t None v) \<le> max_constructed_size \<and> val_ok t v"
    if "shape_ok t v" "20 + bound t v \<le> max_constructed_size" for v
    using fits_None [OF T_explicit_optional, of v] that length_element [of context_specific_c "der t None v" True n] by simp
  then show ?case by (simp split: val.splits option.splits)
qed (auto intro!: int_size tagged_size split: val.splits option.splits)

lemma val_ok_bound: "shape_ok t v \<Longrightarrow> bound t v \<le> max_constructed_size \<Longrightarrow> val_ok t v"
  using fits_all [of t] tag_ok_None by blast

section \<open>Properties of the serialiser\<close>

text \<open>C3: The round trip of the serialiser: for every well-formed type (integers of 1 to 8 octets,
  strings, octet strings, booleans, optional, implicitly and explicitly tagged fields, sequences,
  containers and trailing data, nested up to the decoder's depth limit) and every value of it within the
  decoder's size limits, serialising succeeds and yields the reference DER encoding, and
  deserialising those octets, whatever follows them, gives the value back.\<close>

theorem asn_der_roundtrip:
  assumes "headed t" "ty_ok t" "val_ok t v" "depth t \<le> max_structure_depth"
  shows "asn_der_serialise t v = Inr (der t None v) \<and> asn_der_deserialise t (der t None v @ rest) = Inr v"
  using asn_der_ok [OF assms] by blast

theorem asn_der_roundtrip_witness:
  "asn_der_deserialise (T_seq [T_uint 2, T_optional (T_container T_string), T_explicit_optional 1 T_bool])
     [0x30, 9, 2, 2, 1, 0x2c, 0xa1, 3, 1, 1, 1, 7, 7] =
     Inr (V_seq [V_int 300, V_optional None, V_optional (Some (V_bool True))])"
proof -
  let ?t = "T_seq [T_uint 2, T_optional (T_container T_string), T_explicit_optional 1 T_bool]"
  let ?v = "V_seq [V_int 300, V_optional None, V_optional (Some (V_bool True))]"
  have b: "der T_bool None (V_bool True) = [1, 1, 1]" by code_simp
  have u: "der (T_uint 2) None (V_int 300) = [2, 2, 1, 0x2c]" by code_simp
  have d: "der ?t None ?v = [0x30, 9, 2, 2, 1, 0x2c, 0xa1, 3, 1, 1, 1]" by code_simp
  have e: "der (T_explicit 1 T_bool) None (V_bool True) = [0xa1, 3, 1, 1, 1]" by code_simp
  have "val_ok ?t ?v" using b u e
    by (simp add: max_constructed_size_def get_asn_class_def)
  then show ?thesis
    using asn_der_roundtrip [of ?t ?v "[7, 7]"] d by (simp add: max_structure_depth_def)
qed


end
