(* ===== verification/Serialiser_Findings.thy ===== *)
theory Serialiser_Findings
  imports Serialiser_Roundtrip "HOL-Library.Code_Target_Numeral"
begin

text \<open>Concrete inputs on which the serialiser and the deserialiser disagree, evaluated on the model.\<close>

text \<open>The unsigned decoder allows one octet more than the type has, for the sign, and does not
  look whether it is zero: 256 read into an 8-bit field is 0.\<close>

lemma uint8_overflow_accepted: "asn_der_deserialise (T_uint 1) [2, 2, 1, 0] = Inr (V_int 0)"
  by code_simp

text \<open>An \<^verbatim>\<open>integer\<close> without octets is written, and refused when it is read back.\<close>

lemma empty_integer_not_loadable:
  "asn_der_serialise T_integer (V_integer []) = Inr [2, 0]"
  "asn_der_deserialise T_integer [2, 0] = Inl (Serialisation_error ''integer must be at least one octet'')"
  by code_simp+

text \<open>When the element inside an explicitly tagged optional is of another kind, the peek is rolled
  back but the sequence opened for the explicit tag stays on the stack.\<close>

lemma explicit_optional_mismatch_leaves_sequence_open:
  "seq_pos (dec_state (snd (deserialise (T_seq [T_explicit_optional 1 T_bool])
     (make_deserialiser [0x30, 5, 0xa1, 3, 4, 1, 7])))) = [7]"
  by code_simp

end
