(* ===== verification/Deserialiser_Total.thy ===== *)
theory Deserialiser_Total
  imports Serialiser_Roundtrip
begin

text \<open>
  Deserialising octets that nobody vouches for. The loop over the elements of a container is the only one of the deserialiser whose
  end depends on its input; here it is shown to end by itself within the rounds it is given, whatever the octets are. This
  follows from what every operation of the reader does: the position never goes back, and no operation makes more octets of
  what there was.
\<close>

section \<open>What every operation does to the reader\<close>

text \<open>The position behind the last octet the reader can still come to.\<close>

definition extent :: "octet_span_istream buffered_stream \<Rightarrow> nat" where
  "extent b = real_pos b + length (buffer b) + length (istream_pending (stream b))"

definition flows :: "octet_span_istream buffered_stream \<Rightarrow> octet_span_istream buffered_stream \<Rightarrow> bool" where
  "flows b b' \<longleftrightarrow> buffered_ok istream_ok b' \<and> extent b' \<le> extent b \<and> pos b \<le> pos b' \<and> peek_count b' = peek_count b \<and>
     (0 < peek_count b \<longrightarrow> length (buffer b) \<le> length (buffer b') \<and> real_pos b' = real_pos b)"

abbreviation (input) out_of_rounds :: ser_error where
  "out_of_rounds \<equiv> Serialisation_error ''out of rounds''"

definition flowing :: "('s \<Rightarrow> octet_span_istream buffered_stream) \<Rightarrow> ('s, ser_error, 'a) action \<Rightarrow> bool" where
  "flowing g f \<longleftrightarrow> (\<forall>st r st'. buffered_ok istream_ok (g st) \<longrightarrow> f st = (r, st') \<longrightarrow> flows (g st) (g st') \<and> r \<noteq> Inl out_of_rounds)"

named_theorems flowing_intros

lemma flowingI:
  "(\<And>st r st'. buffered_ok istream_ok (g st) \<Longrightarrow> f st = (r, st') \<Longrightarrow> flows (g st) (g st') \<and> r \<noteq> Inl out_of_rounds) \<Longrightarrow> flowing g f"
  by (auto simp: flowing_def)

lemma flowingD: "flowing g f \<Longrightarrow> buffered_ok istream_ok (g st) \<Longrightarrow> f st = (r, st') \<Longrightarrow> flows (g st) (g st') \<and> r \<noteq> Inl out_of_rounds"
  by (auto simp: flowing_def)

lemma flows_refl: "buffered_ok istream_ok b \<Longrightarrow> flows b b"
  by (simp add: flows_def)

lemma flows_trans: "flows a b \<Longrightarrow> flows b c \<Longrightarrow> flows a c"
  by (auto simp: flows_def)

lemma flows_ok: "flows a b \<Longrightarrow> buffered_ok istream_ok b"
  by (simp add: flows_def)

lemma flowing_return [flowing_intros]: "flowing g (returnA x)"
  by (rule flowingI) (auto simp: returnA_def flows_refl)

lemma flowing_throw [flowing_intros]: "e \<noteq> out_of_rounds \<Longrightarrow> flowing g (throwA e)"
  by (rule flowingI) (auto simp: throwA_def flows_refl)

lemma flowing_bind [flowing_intros]:
  assumes "flowing g m" "\<And>x. flowing g (f x)"
  shows "flowing g (bindA m f)"
proof (rule flowingI)
  fix st r st'
  assume ok: "buffered_ok istream_ok (g st)" and b: "bindA m f st = (r, st')"
  obtain r1 st1 where 1: "m st = (r1, st1)" by fastforce
  note m = flowingD [OF assms(1) ok 1]
  show "flows (g st) (g st') \<and> r \<noteq> Inl out_of_rounds"
  proof (cases r1)
    case (Inl e)
    then show ?thesis using 1 b m by (auto simp: bindA_def)
  next
    case (Inr x)
    then have "f x st1 = (r, st')" using 1 b by (simp add: bindA_def)
    then show ?thesis using flowingD [OF assms(2), of st1 x r st'] m flows_ok flows_trans by blast
  qed
qed

lemma read_from_buffer_flows:
  assumes "buffered_ok istream_ok b" "read_from_buffer n b = (buf, b')"
  shows "flows b b' \<and> (length buf < n \<longrightarrow> look_ahead_pos b' = length (buffer b'))"
  using assms by (auto simp: read_from_buffer_def flows_def extent_def pos_def buffered_ok_def Let_def min_def split: if_splits)

lemma istream_read_pending:
  assumes "istream_ok s" "0 < n" "istream_read s n = (r, s')"
  shows "istream_ok s' \<and> (case r of None \<Rightarrow> istream_pending s' = [] | Some bs \<Rightarrow> length bs = n \<and> length (istream_pending s) = n + length (istream_pending s'))"
proof (cases "n \<le> length (istream_pending s)")
  case True
  from span.sread_some [OF assms(1,2) True] show ?thesis using assms(3) True by auto
next
  case False
  then obtain s1 where "istream_read s n = (None, s1)" "istream_pending s1 = []" "istream_ok s1"
    using span.sread_none [OF assms(1)] by (metis not_le)
  then show ?thesis using assms(3) by auto
qed

lemma read_from_stream_flows:
  assumes "buffered_ok istream_ok b" "look_ahead_pos b = length (buffer b)" "0 < n" "read_from_stream istream_read n b = (r, b')"
  shows "flows b b' \<and> r \<noteq> Inl out_of_rounds"
proof -
  obtain q s where q: "istream_read (stream b) n = (q, s)" by fastforce
  have "istream_ok (stream b)" using assms(1) by (simp add: buffered_ok_def)
  note p = istream_read_pending [OF this assms(3) q]
  show ?thesis using assms q p
    by (cases q) (auto simp: read_from_stream_def flows_def extent_def pos_def buffered_ok_def)
qed

lemma flowing_bs_read: "flowing (\<lambda>b. b) (bs_read istream_read n)"
proof (rule flowingI)
  fix b r b'
  assume ok: "buffered_ok istream_ok b" and rd: "bs_read istream_read n b = (r, b')"
  obtain buf b1 where 1: "read_from_buffer n b = (buf, b1)" by fastforce
  note f = read_from_buffer_flows [OF ok 1]
  have len: "length buf \<le> n" using 1 by (auto simp: read_from_buffer_def Let_def split: if_splits)
  show "flows b b' \<and> r \<noteq> Inl out_of_rounds"
  proof (cases "length buf = n")
    case True
    then show ?thesis using 1 rd f by (auto simp: bs_read_def)
  next
    case False
    obtain q b2 where 2: "read_from_stream istream_read (n - length buf) b1 = (q, b2)" by fastforce
    have "flows b1 b2 \<and> q \<noteq> Inl out_of_rounds"
      using f len False by (intro read_from_stream_flows [OF _ _ _ 2]) (auto simp: flows_def)
    then show ?thesis using 1 2 False rd f flows_trans by (cases q) (auto simp: bs_read_def)
  qed
qed

section \<open>The decoder\<close>

lemma flowing_on_src: "flowing (\<lambda>b. b) f \<Longrightarrow> flowing src (on_src f)"
  by (rule flowingI) (auto simp: on_src_def dest: flowingD split: prod.splits)

lemma flowing_dec_read [flowing_intros]: "flowing src (dec_read n)" "flowing src dec_read1"
  by (simp_all add: dec_read_def dec_read1_def bs_read1_def flowing_on_src flowing_bs_read flowing_bind flowing_return)

lemma flowing_readable [flowing_intros]: "flowing src (dec_readable_bytes n)"
  unfolding dec_readable_bytes_def
proof (intro flowing_on_src flowingI)
  fix b b' and r :: "ser_error + bool"
  assume ok: "buffered_ok istream_ok b" and e: "(case readable_bytes istream_read n b of (x, s') \<Rightarrow> (Inr x, s')) = (r, b')"
  obtain x s where x: "readable_bytes istream_read n b = (x, s)" by fastforce
  have "flows b s"
  proof (cases "n \<le> length (buffer b) - look_ahead_pos b")
    case True
    then show ?thesis using x ok by (auto simp: span.readable_bytes_eq flows_refl)
  next
    case False
    let ?n = "n - (length (buffer b) - look_ahead_pos b)"
    obtain q t where q: "istream_read (stream b) ?n = (q, t)" by fastforce
    have "istream_ok (stream b)" "0 < ?n" using ok False by (auto simp: buffered_ok_def)
    note p = istream_read_pending [OF this q]
    show ?thesis using x q p False ok
      by (cases q) (auto simp: span.readable_bytes_eq flows_def extent_def pos_def buffered_ok_def)
  qed
  then show "flows b b' \<and> r \<noteq> Inl out_of_rounds" using e x by auto
qed

lemma flowing_same: "(\<And>st r st'. f st = (r, st') \<Longrightarrow> g st' = g st \<and> r \<noteq> Inl out_of_rounds) \<Longrightarrow> flowing g f"
  by (rule flowingI) (metis flows_refl)

lemma flowing_if [flowing_intros]: "(P \<Longrightarrow> flowing g a) \<Longrightarrow> (\<not> P \<Longrightarrow> flowing g b) \<Longrightarrow> flowing g (if P then a else b)"
  by simp

lemma flowing_push [flowing_intros]: "flowing src (dec_push n)"
  by (rule flowing_same) (auto simp: dec_push_def split: if_splits)

lemma flowing_skip_to: "flowing src (skip_to target)"
proof (rule flowingI)
  fix st r st'
  show "buffered_ok istream_ok (src st) \<Longrightarrow> skip_to target st = (r, st') \<Longrightarrow> flows (src st) (src st') \<and> r \<noteq> Inl out_of_rounds"
  proof (induction target st rule: skip_to.induct)
    case (1 target st)
    show ?case
    proof (cases "position st < target")
      case True
      obtain q st1 where q: "dec_read1 st = (q, st1)" by fastforce
      note f = flowingD [OF flowing_dec_read(2) "1.prems"(1) q]
      show ?thesis
      proof (cases q)
        case (Inl e)
        then show ?thesis using True q f "1.prems"(2) by (auto simp: skip_to.simps [of target st])
      next
        case (Inr x)
        then have "skip_to target st1 = (r, st')" using True q "1.prems"(2) by (simp add: skip_to.simps [of target st])
        then show ?thesis using "1.IH" [OF True q [symmetric] Inr] f flows_ok flows_trans by blast
      qed
    next
      case False
      then show ?thesis using "1.prems" by (auto simp: skip_to.simps [of target st] flows_refl)
    qed
  qed
qed

lemma flowing_pop [flowing_intros]: "flowing src dec_pop"
proof (rule flowingI)
  fix st r st'
  assume "buffered_ok istream_ok (src st)" "dec_pop st = (r, st')"
  then show "flows (src st) (src st') \<and> r \<noteq> Inl out_of_rounds"
    using flowingD [OF flowing_skip_to, of "st\<lparr>seq_pos := tl (seq_pos st)\<rparr>" "hd (seq_pos st)" r st']
    by (cases "seq_pos st") (auto simp: dec_pop_def flows_refl)
qed

lemma flowing_long_tag_loop: "flowing src (decode_long_tag_loop left ret b)"
proof (induction left arbitrary: ret b)
  case 0
  show ?case by (subst decode_long_tag_loop.simps) (auto intro!: flowing_intros)
next
  case (Suc left)
  show ?case by (subst decode_long_tag_loop.simps) (auto intro!: flowing_intros Suc)
qed

lemma flowing_header [flowing_intros]: "flowing src decode_any_header"
  unfolding decode_any_header_def decode_tag_def decode_length_def decode_tag_number_def decode_long_tag_def decode_long_length_def Let_def
  by (intro flowing_intros flowing_long_tag_loop) simp_all

lemma flowing_header_absent [flowing_intros]: "flowing src header_absent"
proof (rule flowingI)
  fix st r st'
  assume ok: "buffered_ok istream_ok (src st)" and h: "header_absent st = (r, st')"
  have "flowing src (bindA (dec_readable_bytes 1) (\<lambda>b. returnA (\<not> b)))" by (intro flowing_intros)
  from flowingD [OF this ok] show "flows (src st) (src st') \<and> r \<noteq> Inl out_of_rounds"
    using ok h by (auto simp: header_absent_def flows_refl split: if_splits)
qed

lemma flowing_decode_header [flowing_intros]: "flowing src (decode_header c t)"
  unfolding decode_header_def by (intro flowing_intros) simp_all

lemma flowing_elements [flowing_intros]:
  "flowing src (dec_string t d)" "flowing src (dec_integer s t n d)" "flowing src (dec_big_integer t d)"
  "flowing src (dec_start_sequence t)" "flowing src (dec_start_explicit_tag i)"
  unfolding dec_string_def dec_integer_def dec_big_integer_def dec_start_sequence_def dec_start_explicit_tag_def
  by (intro flowing_intros; simp)+

lemma flowing_trailing [flowing_intros]: "flowing src decode_trailing"
proof (rule flowingI)
  fix st r st'
  assume ok: "buffered_ok istream_ok (src st)" and d: "decode_trailing st = (r, st')"
  show "flows (src st) (src st') \<and> r \<noteq> Inl out_of_rounds"
    using flowingD [OF flowing_dec_read(1) ok] ok d by (auto simp: decode_trailing_def flows_refl split: list.splits if_splits)
qed


section \<open>The deserialiser\<close>

abbreviation (input) reader :: "deserialiser \<Rightarrow> octet_span_istream buffered_stream" where
  "reader st \<equiv> src (dec_state st)"

definition sound :: "deserialiser \<Rightarrow> bool" where
  "sound st \<longleftrightarrow> buffered_ok istream_ok (reader st) \<and> ex st \<noteq> Some out_of_rounds"

definition settling :: "'a des \<Rightarrow> bool" where
  "settling f \<longleftrightarrow> (\<forall>st r st'. sound st \<longrightarrow> f st = (r, st') \<longrightarrow> sound st' \<and> flows (reader st) (reader st') \<and> r \<noteq> Inl out_of_rounds)"

named_theorems settling_intros

lemma settlingI:
  "(\<And>st r st'. sound st \<Longrightarrow> f st = (r, st') \<Longrightarrow> sound st' \<and> flows (reader st) (reader st') \<and> r \<noteq> Inl out_of_rounds) \<Longrightarrow> settling f"
  by (auto simp: settling_def)

lemma settlingD: "settling f \<Longrightarrow> sound st \<Longrightarrow> f st = (r, st') \<Longrightarrow> sound st' \<and> flows (reader st) (reader st') \<and> r \<noteq> Inl out_of_rounds"
  by (auto simp: settling_def)

lemma sound_flows: "sound st \<Longrightarrow> flows (reader st) (reader st)"
  by (simp add: sound_def flows_refl)

lemma settling_return [settling_intros]: "settling (returnA x)"
  by (rule settlingI) (auto simp: returnA_def sound_flows)

lemma settling_bind [settling_intros]:
  assumes "settling m" "\<And>x. settling (f x)"
  shows "settling (bindA m f)"
proof (rule settlingI)
  fix st r st'
  assume ok: "sound st" and b: "bindA m f st = (r, st')"
  obtain r1 st1 where 1: "m st = (r1, st1)" by fastforce
  note m = settlingD [OF assms(1) ok 1]
  show "sound st' \<and> flows (reader st) (reader st') \<and> r \<noteq> Inl out_of_rounds"
  proof (cases r1)
    case (Inl e)
    then show ?thesis using 1 b m by (auto simp: bindA_def)
  next
    case (Inr x)
    then have "f x st1 = (r, st')" using 1 b by (simp add: bindA_def)
    then show ?thesis using settlingD [OF assms(2), of st1 x r st'] m flows_trans by blast
  qed
qed

lemma settling_on_dec: "flowing src f \<Longrightarrow> settling (on_dec f)"
proof (rule settlingI)
  fix st r st'
  assume f: "flowing src f" and s: "sound st" and o: "on_dec f st = (r, st')"
  obtain d where "f (dec_state st) = (r, d)" "st' = st\<lparr>dec_state := d\<rparr>" using o by (auto simp: on_dec_def split: prod.splits)
  then show "sound st' \<and> flows (reader st) (reader st') \<and> r \<noteq> Inl out_of_rounds"
    using flowingD [OF f, of "dec_state st" r d] s by (auto simp: sound_def flows_ok)
qed

lemma settling_tags [settling_intros]: "settling des_use_current_tag" "settling (des_set_tag t)"
  by (auto simp: settling_def des_use_current_tag_def des_set_tag_def sound_def flows_refl)

lemma settling_amp [settling_intros]:
  assumes "settling f"
  shows "settling (amp f)"
  unfolding amp_def
  by (intro settling_bind assms settlingI) (auto simp: sound_def flows_refl split: option.splits)

lemma settling_end_sequence: "sound st \<Longrightarrow> sound (des_end_sequence st) \<and> flows (reader st) (reader (des_end_sequence st))"
proof -
  assume s: "sound st"
  obtain r st1 where o: "on_dec dec_end_sequence st = (r, st1)" by fastforce
  have "flowing src dec_end_sequence" unfolding dec_end_sequence_def by (rule flowing_pop)
  from settlingD [OF settling_on_dec [OF this] s o] show ?thesis
    using o by (cases r) (auto simp: des_end_sequence_def sound_def)
qed

lemma settling_sequence [settling_intros]:
  assumes "settling f"
  shows "settling (des_sequence f)"
  unfolding des_sequence_def
proof (intro settling_bind settling_tags settling_on_dec flowing_intros settlingI)
  fix st r st'
  assume s: "sound st" and o: "(case f st of (r, st) \<Rightarrow> (r, des_end_sequence st)) = (r, st')"
  obtain st1 where f: "f st = (r, st1)" "st' = des_end_sequence st1" using o by (auto split: prod.splits)
  note 1 = settlingD [OF assms s f(1)]
  then show "sound st' \<and> flows (reader st) (reader st') \<and> r \<noteq> Inl out_of_rounds"
    using settling_end_sequence [of st1] f(2) flows_trans by blast
qed

lemma settling_optional [settling_intros]:
  assumes "settling f"
  shows "settling (des_optional etag f)"
proof (rule settlingI)
  fix st r st'
  assume s: "sound st" and o: "des_optional etag f st = (r, st')"
  let ?body = "bindA (case etag of None \<Rightarrow> returnA () | Some t \<Rightarrow> on_dec (dec_start_explicit_tag t)) (\<lambda>_.
      bindA (amp f) (\<lambda>v. bindA (case etag of None \<Rightarrow> returnA () | Some t \<Rightarrow> on_dec dec_end_explicit_tag) (\<lambda>_. returnA v)))"
  obtain p d where d: "dec_start_peek (dec_state st) = (p, d)" by fastforce
  obtain q st1 where b: "?body (st\<lparr>dec_state := d\<rparr>) = (q, st1)" by fastforce
  have body: "settling ?body"
    by (cases etag) (auto simp: dec_end_explicit_tag_def intro!: settling_intros assms settling_on_dec flowing_intros)
  have p: "p = look_ahead_pos (reader st)" "src d = (reader st)\<lparr>peek_count := peek_count (reader st) + 1\<rparr>"
    using d by (auto simp: dec_start_peek_def start_peek_def)
  have "sound (st\<lparr>dec_state := d\<rparr>)" using s p(2) by (simp add: sound_def buffered_ok_def)
  note 1 = settlingD [OF body this b]
  define st2 where "st2 = st1\<lparr>dec_state := dec_end_peek p (case q of Inr _ \<Rightarrow> True | Inl _ \<Rightarrow> False) (dec_state st1)\<rparr>"
  have "flows (reader st) (reader st2)"
    using 1 p s by (auto simp: st2_def dec_end_peek_def end_peek_def Let_def flows_def extent_def pos_def buffered_ok_def sound_def)
  moreover then have "sound st2" using 1 by (simp add: sound_def flows_ok st2_def)
  moreover have "st' = st2" "r \<noteq> Inl out_of_rounds"
    using o d b 1 by (auto simp: des_optional_def st2_def Let_def split: sum.splits ser_error.splits)
  ultimately show "sound st' \<and> flows (reader st) (reader st') \<and> r \<noteq> Inl out_of_rounds" by simp
qed


lemma input_extent: "buffered_ok istream_ok (src st) \<Longrightarrow> position st + length (input st) = extent (src st)"
  by (simp add: position_def input_def upcoming_def extent_def pos_def buffered_ok_def)

lemma container_loop_steady:
  assumes "settling f"
  shows "\<lbrakk> sound st; length (input (dec_state st)) < rounds; container_loop rounds f st = (r, st') \<rbrakk>
    \<Longrightarrow> sound st' \<and> flows (reader st) (reader st') \<and> r \<noteq> Inl out_of_rounds"
proof (induction rounds arbitrary: st r st')
  case (Suc rounds)
  show ?case
  proof (cases "is_end_of_sequence (dec_state st)")
    case True
    then show ?thesis using Suc.prems sound_flows by (auto simp: container_loop.simps [of "Suc rounds"])
  next
    case False
    obtain q st1 where 1: "amp f st = (q, st1)" by fastforce
    note a = settlingD [OF settling_amp [OF assms] Suc.prems(1) 1]
    show ?thesis
    proof (cases q)
      case (Inl e)
      then show ?thesis using 1 a False Suc.prems(3) by (auto simp: container_loop.simps [of "Suc rounds"] bindA_def)
    next
      case (Inr v)
      show ?thesis
      proof (cases "position (dec_state st1) = position (dec_state st)")
        case True
        then show ?thesis using 1 a Inr False Suc.prems(3) by (auto simp: container_loop.simps [of "Suc rounds"] bindA_def)
      next
        case moved: False
        obtain q2 st2 where 2: "container_loop rounds f st1 = (q2, st2)" by fastforce
        have "position (dec_state st) < position (dec_state st1)" "extent (reader st1) \<le> extent (reader st)"
          using a moved by (auto simp: flows_def position_def)
        then have "length (input (dec_state st1)) < rounds"
          using input_extent [of "dec_state st"] input_extent [of "dec_state st1"] Suc.prems(1,2) a by (simp add: sound_def)
        then have "sound st2 \<and> flows (reader st1) (reader st2) \<and> q2 \<noteq> Inl out_of_rounds" using Suc.IH a 2 by blast
        moreover have "st' = st2" "\<And>e. r = Inl e \<Longrightarrow> q2 = Inl e"
          using 1 2 Inr False moved Suc.prems(3)
          by (auto simp: container_loop.simps [of "Suc rounds"] bindA_def returnA_def split: sum.splits)
        ultimately show ?thesis using a flows_trans by blast
      qed
    qed
  qed
qed simp

lemma settling_container [settling_intros]:
  assumes "settling f"
  shows "settling (\<lambda>st. container_loop (container_rounds (dec_state st)) f st)"
  by (rule settlingI) (rule container_loop_steady [OF assms], auto simp: container_rounds_def)

lemma settling_fields: "list_all settling fs \<Longrightarrow> settling (deserialise_fields fs)"
  by (induction fs) (auto intro!: settling_intros)

lemma settling_deserialise: "settling (deserialise t)"
proof (induction t)
  case (T_seq ts)
  then have "settling (deserialise_fields (map deserialise ts))" by (intro settling_fields) (simp add: list_all_iff)
  then show ?case by (auto intro!: settling_intros)
qed (auto simp: decode_bool_def decode_int64_def decode_uint64_def decode_big_def decode_str_def decode_octets_def dec_end_explicit_tag_def
    intro!: settling_intros settling_on_dec flowing_intros)

section \<open>Properties\<close>

text \<open>C39: Deserialising ends by itself on any octets: the loop over the elements of a container, the only loop whose end depends on the
  input, never uses up the rounds it is given, one more than there are octets, for every type and every input, well-formed or
  not.\<close>

theorem deserialise_never_out_of_rounds: "asn_der_deserialise t d \<noteq> Inl (Serialisation_error ''out of rounds'')"
proof -
  obtain r st where a: "amp (deserialise t) (make_deserialiser d) = (r, st)" by fastforce
  have "sound (make_deserialiser d)" using dec_ok_make [of d] by (simp add: sound_def make_deserialiser_def dec_ok_def)
  from settlingD [OF settling_amp [OF settling_deserialise] this a] show ?thesis using a by (simp add: asn_der_deserialise_def)
qed

end
