(* ===== verification/Crypto_Keys.thy ===== *)
theory Crypto_Keys
  imports Serialiser_Roundtrip "HOL-Library.List_Lexorder"
begin

text \<open>
  Identities of the crypto library: suites (\<^verbatim>\<open>crypto/suite.cpp\<close>, \<^verbatim>\<open>detail/suite_parameters.cpp\<close>), the
  framing of signed messages (\<^verbatim>\<open>detail/framing.cpp\<close>), signatures and public keys
  (\<^verbatim>\<open>signature.hpp\<close>, \<^verbatim>\<open>public_key.cpp\<close>, \<^verbatim>\<open>detail/public_key_impl.cpp\<close>).

  The algorithms themselves are Botan's and stand as the parameter \<open>crypto\<close>: SHA3-256 and the
  ML-DSA verification of a framed message. What the code signs and hashes is computed: it is the
  DER encoding of the listed fields, given here by the reference encoding \<open>der\<close> that the
  serialiser emits for values within its limits.
\<close>

section \<open>Suites\<close>

datatype suite = Pq1 | Pq1_high

definition default_suite :: suite where
  "default_suite = Pq1"

definition suite_value :: "suite \<Rightarrow> 64 word" where
  "suite_value s = (case s of Pq1 \<Rightarrow> 1 | Pq1_high \<Rightarrow> 2)"

definition is_known :: "64 word \<Rightarrow> bool" where
  "is_known v \<longleftrightarrow> v = 1 \<or> v = 2"

datatype crypto_errc =
    No_such_root_key | No_such_key | Invalid_certificate_chain | Invalid_certificate_chain_ca_level
  | Invalid_crypto_data | Invalid_operation | Invalid_public_key | Invalid_certificate
  | Signature_not_authentic

datatype util_errc =
    Unknown_error | Exception_occurred | Not_implemented | Not_supported | Invalid_data | No_such_data | Timeout
  | Invalid_state | Constraint_violation | Invalid_argument

datatype crypto_error =
    Crypto_errc crypto_errc
  | Util_errc util_errc
  | Invalid_key_size
  | Invalid_iv_size
  | Invalid_tag
  | Wrong_key
  | Invalid_context string
  | Invalid_cert_type
  | Unknown_suite string
  | Invalid_key string
  | Bad_ciphertext string
  | Malformed ser_error

definition suite_of_value :: "64 word \<Rightarrow> crypto_error + suite" where
  "suite_of_value v =
     (if \<not> is_known v then Inl (Unknown_suite ''unknown crypto suite in serialised data'')
      else Inr (if v = 1 then Pq1 else Pq1_high))"

record suite_parameters =
  x448 :: bool
  x_key_size :: nat
  sig_public_size :: nat
  sig_seed_size :: nat
  signature_size :: nat
  kem_public_size :: nat
  kem_seed_size :: nat
  kem_ciphertext_size :: nat

definition parameters :: "suite \<Rightarrow> suite_parameters" where
  "parameters s = (case s of
       Pq1 \<Rightarrow> \<lparr>x448 = False, x_key_size = 32, sig_public_size = 1952, sig_seed_size = 32, signature_size = 3309,
               kem_public_size = 1184, kem_seed_size = 64, kem_ciphertext_size = 1088\<rparr>
     | Pq1_high \<Rightarrow> \<lparr>x448 = True, x_key_size = 56, sig_public_size = 2592, sig_seed_size = 32, signature_size = 4627,
               kem_public_size = 1568, kem_seed_size = 64, kem_ciphertext_size = 1568\<rparr>)"

section \<open>Framing of signed messages\<close>

text \<open>The characters of a C++ string as octets.\<close>

definition octets_of :: "string \<Rightarrow> octets" where
  "octets_of s = map (\<lambda>c. of_nat (of_char c)) s"

definition frame_message :: "string \<Rightarrow> octets \<Rightarrow> crypto_error + octets" where
  "frame_message ctx message =
     (if length ctx > 255 then Inl (Invalid_context ''signature context longer than 255 octets'')
      else Inr (octets_of ''SPSIG'' @ [of_nat (length ctx)] @ octets_of ctx @ message))"

lemma octets_of_inj: "octets_of s = octets_of t \<longleftrightarrow> s = t"
proof -
  have "inj (\<lambda>c :: char. of_nat (of_char c) :: octet)"
  proof (rule injI)
    fix x y :: char assume "(of_nat (of_char x) :: octet) = of_nat (of_char y)"
    then have "unat (of_nat (of_char x) :: octet) = unat (of_nat (of_char y) :: octet)" by simp
    then have "(of_char x :: nat) = of_char y" by (simp add: unat_of_nat_octet)
    then show "x = y" by simp
  qed
  then show ?thesis by (auto simp: octets_of_def inj_map_eq_map)
qed

lemma length_octets_of [simp]: "length (octets_of s) = length s"
  by (simp add: octets_of_def)

section \<open>Signatures and public keys\<close>

record crypto =
  sha3_256 :: "octets \<Rightarrow> octets"
  ml_dsa_verify :: "suite \<Rightarrow> octets \<Rightarrow> octets \<Rightarrow> octets \<Rightarrow> bool"

record signature =
  sig_version :: "64 word"
  sig_issuer :: octets
  sig_octets :: octets

definition sig_is_valid :: "signature \<Rightarrow> bool" where
  "sig_is_valid s \<longleftrightarrow> sig_octets s \<noteq> []"

text \<open>Identifiers of keys and certificates are octet vectors in a sequence of their own.\<close>

abbreviation (input) id_ty :: ty where
  "id_ty \<equiv> T_seq [T_octets]"

abbreviation (input) id_val :: "octets \<Rightarrow> val" where
  "id_val i \<equiv> V_seq [V_octets i]"

definition signature_ty :: ty where
  "signature_ty = T_seq [T_uint 4, id_ty, T_octets]"

definition signature_val :: "signature \<Rightarrow> val" where
  "signature_val s = V_seq [V_int (sig_version s), id_val (sig_issuer s), V_octets (sig_octets s)]"

record public_key =
  pk_version :: "64 word"
  pk_suite :: suite
  sig_pk :: octets
  kem_x_pk :: octets
  kem_pq_pk :: octets
  certificate_ids :: "octets list"
  self_sig :: signature
  pk_trailing :: octets
  key_id :: octets

definition pk_is_valid :: "public_key \<Rightarrow> bool" where
  "pk_is_valid k \<longleftrightarrow>
     length (sig_pk k) = sig_public_size (parameters (pk_suite k)) \<and>
     length (kem_x_pk k) = x_key_size (parameters (pk_suite k)) \<and>
     length (kem_pq_pk k) = kem_public_size (parameters (pk_suite k))"

definition construct_id :: "crypto \<Rightarrow> public_key \<Rightarrow> octets" where
  "construct_id c k =
     sha3_256 c (der (T_seq [T_uint 2, T_octets, T_octets, T_octets]) None
       (V_seq [V_int (suite_value (pk_suite k)), V_octets (sig_pk k), V_octets (kem_x_pk k), V_octets (kem_pq_pk k)]))"

definition signature_content :: "public_key \<Rightarrow> octets" where
  "signature_content k =
     der (T_seq [T_uint 2, T_uint 2, T_octets, T_octets, T_octets, T_container id_ty, T_trailing]) None
       (V_seq [V_int (pk_version k), V_int (suite_value (pk_suite k)), V_octets (sig_pk k), V_octets (kem_x_pk k),
               V_octets (kem_pq_pk k), V_seq (map id_val (certificate_ids k)), V_trailing (pk_trailing k)])"

definition verify_framed :: "crypto \<Rightarrow> public_key \<Rightarrow> octets \<Rightarrow> octets \<Rightarrow> bool" where
  "verify_framed c k framed sig \<longleftrightarrow> pk_is_valid k \<and> ml_dsa_verify c (pk_suite k) (sig_pk k) framed sig"

definition verify :: "crypto \<Rightarrow> public_key \<Rightarrow> signature \<Rightarrow> octets \<Rightarrow> string \<Rightarrow> crypto_error + bool" where
  "verify c k s d ctx = bindE (frame_message ctx d) (\<lambda>framed. Inr (verify_framed c k framed (sig_octets s)))"

abbreviation (input) self_signature_context :: string where
  "self_signature_context \<equiv> ''sp-key''"

definition pk_verify_me :: "crypto \<Rightarrow> public_key \<Rightarrow> crypto_error + bool" where
  "pk_verify_me c k =
     bindE (verify c k (self_sig k) (signature_content k) self_signature_context)
       (\<lambda>ok. Inr (ok \<and> construct_id c k = key_id k))"

text \<open>\<^verbatim>\<open>std::set<certificate_id>\<close> keeps the identifiers in lexicographic order, which is also the order
  in which they are serialised.\<close>

definition references_certificate :: "public_key \<Rightarrow> octets \<Rightarrow> bool" where
  "references_certificate k cid \<longleftrightarrow> cid \<in> set (certificate_ids k)"

definition add_certificate_id :: "octets \<Rightarrow> public_key \<Rightarrow> public_key" where
  "add_certificate_id cid k =
     (if cid \<in> set (certificate_ids k) then k else k\<lparr>certificate_ids := insort cid (certificate_ids k)\<rparr>)"

definition remove_certificate_id :: "octets \<Rightarrow> public_key \<Rightarrow> public_key" where
  "remove_certificate_id cid k = k\<lparr>certificate_ids := removeAll cid (certificate_ids k)\<rparr>"

section \<open>Properties\<close>

text \<open>Signed messages are separated by their context: two framed messages are equal only when
  context and message are equal, so that a signature made in one context never counts in another
  and never for another split of the same octets.\<close>

theorem frame_message_injective:
  assumes "frame_message ctx m = Inr f" "frame_message ctx' m' = Inr f"
  shows "ctx = ctx' \<and> m = m'"
proof -
  have l: "length ctx \<le> 255" "length ctx' \<le> 255"
    and e: "[of_nat (length ctx)] @ octets_of ctx @ m = [of_nat (length ctx') :: octet] @ octets_of ctx' @ m'"
    using assms by (auto simp: frame_message_def split: if_splits)
  then have "unat (of_nat (length ctx) :: octet) = unat (of_nat (length ctx') :: octet)" by simp
  then have n: "length ctx = length ctx'" using l by (simp add: unat_of_nat_octet)
  from e have "octets_of ctx @ m = octets_of ctx' @ m'" by simp
  then show ?thesis using n octets_of_inj by (simp add: append_eq_append_conv)
qed

theorem frame_message_injective_witness:
  "frame_message ''sp-cert'' [1] = Inr (octets_of ''SPSIG'' @ [7] @ octets_of ''sp-cert'' @ [1]) \<and>
   (''sp-cert'' = ''sp-cert'' \<and> [1 :: octet] = [1])"
  using frame_message_injective [of "''sp-cert''" "[1]" "octets_of ''SPSIG'' @ [7] @ octets_of ''sp-cert'' @ [1]" "''sp-cert''" "[1]"]
  by (simp add: frame_message_def)

lemma frame_message_ok [simp]: "length ctx \<le> 255 \<Longrightarrow>
    frame_message ctx m = Inr (octets_of ''SPSIG'' @ [of_nat (length ctx)] @ octets_of ctx @ m)"
  by (simp add: frame_message_def)

lemma certificate_ids_ordered:
  assumes "sorted (certificate_ids k)" "distinct (certificate_ids k)"
  shows "sorted (certificate_ids (add_certificate_id cid k)) \<and> distinct (certificate_ids (add_certificate_id cid k))"
    "sorted (certificate_ids (remove_certificate_id cid k)) \<and> distinct (certificate_ids (remove_certificate_id cid k))"
  using assms
  by (auto simp: add_certificate_id_def remove_certificate_id_def sorted_insort distinct_insort distinct_removeAll
      removeAll_filter_not_eq intro: sorted_filter [where f = id, simplified])

lemma references_after:
  "references_certificate (add_certificate_id cid k) c \<longleftrightarrow> c = cid \<or> references_certificate k c"
  "references_certificate (remove_certificate_id cid k) c \<longleftrightarrow> c \<noteq> cid \<and> references_certificate k c"
  by (auto simp: references_certificate_def add_certificate_id_def remove_certificate_id_def set_insort_key)

end
