(* ===== verification/Byte_Order.thy ===== *)
theory Byte_Order
  imports Prelude
begin

text \<open>
  \<^verbatim>\<open>util/byte_order.hpp\<close>: fixed-width integers to and from octets, and the bounded cursors
  \<^verbatim>\<open>endian_export\<close> and \<^verbatim>\<open>endian_import\<close> over a buffer. A type \<^verbatim>\<open>T\<close> of \<open>n = sizeof(T)\<close> octets,
  \<open>n \<le> 8\<close>, is its bit pattern, a \<open>64 word\<close> below \<open>2 ^ (8 * n)\<close>: signed types are converted
  through their unsigned counterparts, which keeps the bits.
\<close>

section \<open>Conversions\<close>

datatype endian = Big | Little

text \<open>The loop of \<^verbatim>\<open>endian_convert<endian::little>::to_endian\<close>; the big-endian one stores the same
  octets from the last index down.\<close>

primrec to_little :: "nat \<Rightarrow> 64 word \<Rightarrow> octets" where
  "to_little 0 value = []"
| "to_little (Suc i) value = ucast (value AND 0xFF) # to_little i (drop_bit 8 value)"

definition to_endian :: "endian \<Rightarrow> nat \<Rightarrow> 64 word \<Rightarrow> octets" where
  "to_endian e n v = (case e of Little \<Rightarrow> to_little n v | Big \<Rightarrow> rev (to_little n v))"

primrec from_little :: "octets \<Rightarrow> nat \<Rightarrow> 64 word" where
  "from_little [] shift = 0"
| "from_little (b # bs) shift = push_bit shift (ucast b) OR from_little bs (shift + 8)"

definition from_endian :: "endian \<Rightarrow> octets \<Rightarrow> 64 word" where
  "from_endian e source = (case e of Little \<Rightarrow> from_little source 0 | Big \<Rightarrow> from_little (rev source) 0)"

section \<open>Cursors\<close>

datatype range_error = Out_of_range string

text \<open>The memory a cursor points to, the size it was given and its position.\<close>

record endian_cursor =
  mem :: octets
  cursor_size :: nat
  cursor_pos :: nat

definition make_cursor :: "octets \<Rightarrow> nat \<Rightarrow> endian_cursor" where
  "make_cursor p s = \<lparr>mem = p, cursor_size = s, cursor_pos = 0\<rparr>"

definition store :: "octets \<Rightarrow> nat \<Rightarrow> octets \<Rightarrow> octets" where
  "store dst off bs = take off dst @ bs @ drop (off + length bs) dst"

definition endian_put :: "endian \<Rightarrow> nat \<Rightarrow> 64 word \<Rightarrow> (endian_cursor, range_error, unit) action" where
  "endian_put e n v st =
     (if cursor_pos st + n > cursor_size st then (Inl (Out_of_range ''endian_export''), st)
      else (Inr (), st\<lparr>mem := store (mem st) (cursor_pos st) (to_endian e n v), cursor_pos := cursor_pos st + n\<rparr>))"

primrec endian_put_array :: "endian \<Rightarrow> nat \<Rightarrow> 64 word list \<Rightarrow> (endian_cursor, range_error, unit) action" where
  "endian_put_array e n [] = returnA ()"
| "endian_put_array e n (v # vs) = bindA (endian_put e n v) (\<lambda>_. endian_put_array e n vs)"

definition endian_get :: "endian \<Rightarrow> nat \<Rightarrow> (endian_cursor, range_error, 64 word) action" where
  "endian_get e n st =
     (if cursor_pos st + n > cursor_size st then (Inl (Out_of_range ''endian_import''), st)
      else (Inr (from_endian e (take n (drop (cursor_pos st) (mem st)))), st\<lparr>cursor_pos := cursor_pos st + n\<rparr>))"

primrec endian_get_array :: "endian \<Rightarrow> nat \<Rightarrow> nat \<Rightarrow> (endian_cursor, range_error, 64 word list) action" where
  "endian_get_array e n 0 = returnA []"
| "endian_get_array e n (Suc s) =
     bindA (endian_get e n) (\<lambda>v. bindA (endian_get_array e n s) (\<lambda>vs. returnA (v # vs)))"

section \<open>Conversions are inverse\<close>

lemma length_to_little [simp]: "length (to_little n v) = n"
  by (induction n arbitrary: v) auto

lemma length_to_endian [simp]: "length (to_endian e n v) = n"
  by (simp add: to_endian_def split: endian.splits)

lemma bit_from_little:
  "bit (from_little (to_little n v) shift) k \<longleftrightarrow> shift \<le> k \<and> k < shift + 8 * n \<and> k < 64 \<and> bit v (k - shift)"
proof (induction n arbitrary: v shift)
  case 0
  then show ?case by simp
next
  case (Suc n)
  have m: "(0xFF :: 64 word) = mask 8" by (simp add: mask_eq_exp_minus_1)
  have b: "bit (ucast (ucast (v AND 0xFF) :: octet) :: 64 word) j \<longleftrightarrow> j < 8 \<and> bit v j" for j
    unfolding m by (auto simp: bit_simps)
  have "bit (push_bit shift (ucast (ucast (v AND 0xFF) :: octet) :: 64 word)) k \<longleftrightarrow>
      shift \<le> k \<and> k < 64 \<and> k - shift < 8 \<and> bit v (k - shift)"
    unfolding bit_push_bit_iff b by (auto dest: bit_imp_le_length)
  then show ?case using Suc [of "drop_bit 8 v" "shift + 8"]
    by (auto simp: bit_or_iff bit_drop_bit_eq)
qed

lemma from_to_little: "unat v < 2 ^ (8 * n) \<Longrightarrow> n \<le> 8 \<Longrightarrow> from_little (to_little n v) 0 = v"
proof (rule bit_word_eqI)
  fix k assume a: "unat v < 2 ^ (8 * n)" "n \<le> 8" "k < LENGTH(64)"
  show "bit (from_little (to_little n v) 0) k = bit v k"
    using bit_from_little [of n v 0 k] bit_imp_less [of v k "8 * n"] a by auto
qed

lemma from_to_endian:
  "unat v < 2 ^ (8 * n) \<Longrightarrow> n \<le> 8 \<Longrightarrow> from_endian e (to_endian e n v) = v"
  by (simp add: from_endian_def to_endian_def from_to_little split: endian.splits)

lemma be_nat_to_big: "n \<le> 8 \<Longrightarrow> unat v < 2 ^ (8 * n) \<Longrightarrow> be_nat (to_endian Big n v) = unat v"
proof (induction n arbitrary: v)
  case 0
  then show ?case by (simp add: to_endian_def be_nat_def)
next
  case (Suc n)
  have u: "unat (drop_bit 8 v) = unat v div 256" by (simp add: unat_drop_bit)
  have "unat v div 256 < 2 ^ (8 * n)"
    using Suc.prems(2) by (simp add: less_mult_imp_div_less power_add mult.commute)
  then have ih: "be_nat (to_endian Big n (drop_bit 8 v)) = unat v div 256"
    using Suc.IH [of "drop_bit 8 v"] Suc.prems(1) u by simp
  have m: "(0xFF :: 64 word) = mask 8" by (simp add: mask_eq_exp_minus_1)
  have "unat (ucast (v AND 0xFF) :: octet) = unat v mod 256"
    unfolding m by (simp only: unsigned_ucast_eq unsigned_take_bit_eq take_bit_eq_mask [symmetric])
      (simp add: take_bit_eq_mod)
  then have "be_nat (to_endian Big (Suc n) v) = be_nat (to_endian Big n (drop_bit 8 v)) * 256 + unat v mod 256"
    by (simp add: to_endian_def be_nat_def)
  then show ?case using ih by simp
qed

text \<open>Byte order conversion round trip: for both byte orders and every width of one to eight octets,
  reading back the octets written for a value gives the value, and the big-endian octets denote it.\<close>

theorem endian_roundtrip:
  assumes "n \<le> 8" "unat v < 2 ^ (8 * n)"
  shows "from_endian e (to_endian e n v) = v \<and> be_nat (to_endian Big n v) = unat v"
  using assms from_to_endian be_nat_to_big by simp

theorem endian_roundtrip_witness:
  "from_endian Little (to_endian Little 4 0xDEADBEEF) = 0xDEADBEEF \<and> be_nat (to_endian Big 4 0xDEADBEEF) = 0xDEADBEEF"
  using endian_roundtrip [of 4 "0xDEADBEEF" Little] by simp

section \<open>Cursors over one buffer\<close>

lemma store_inside:
  assumes "off + length bs \<le> length dst"
  shows "length (store dst off bs) = length dst" "take (length bs) (drop off (store dst off bs)) = bs"
    "k \<le> off \<Longrightarrow> take k (store dst off bs) = take k dst"
  using assms by (auto simp: store_def)

lemma endian_put_array_ok:
  assumes "cursor_size st \<le> length (mem st)" "cursor_pos st + n * length vs \<le> cursor_size st"
  shows "\<exists>st'. endian_put_array e n vs st = (Inr (), st') \<and> cursor_pos st' = cursor_pos st + n * length vs \<and>
    cursor_size st' = cursor_size st \<and> length (mem st') = length (mem st) \<and>
    take (cursor_pos st) (mem st') = take (cursor_pos st) (mem st) \<and>
    take (n * length vs) (drop (cursor_pos st) (mem st')) = concat (map (to_endian e n) vs)"
  using assms
proof (induction vs arbitrary: st)
  case Nil
  then show ?case by (simp add: returnA_def)
next
  case (Cons v vs)
  let ?p = "cursor_pos st"
  let ?st = "st\<lparr>mem := store (mem st) ?p (to_endian e n v), cursor_pos := ?p + n\<rparr>"
  have fit: "?p + length (to_endian e n v) \<le> length (mem st)" using Cons.prems by simp
  note s = store_inside [OF fit]
  obtain st' where st': "endian_put_array e n vs ?st = (Inr (), st')" "cursor_pos st' = ?p + n + n * length vs"
    "cursor_size st' = cursor_size st" "length (mem st') = length (mem st)"
    "take (?p + n) (mem st') = take (?p + n) (store (mem st) ?p (to_endian e n v))"
    "take (n * length vs) (drop (?p + n) (mem st')) = concat (map (to_endian e n) vs)"
    using Cons.IH [of ?st] Cons.prems s(1) by (auto simp: add.assoc)
  have "take ?p (mem st') = take ?p (mem st)"
    using arg_cong [OF st'(5), of "take ?p"] s(3) [of ?p] by (simp add: min_def)
  moreover have "take n (drop ?p (mem st')) = to_endian e n v"
    using arg_cong [OF st'(5), of "drop ?p"] s(2) by (simp add: drop_take)
  then have "take (n * length (v # vs)) (drop ?p (mem st')) = concat (map (to_endian e n) (v # vs))"
    using st'(6) by (simp add: take_add add.commute)
  ultimately show ?case
    using st'(1-4) Cons.prems(2) by (simp add: bindA_def endian_put_def add.assoc)
qed

lemma endian_get_array_ok:
  assumes "n \<le> 8" "list_all (\<lambda>v. unat v < 2 ^ (8 * n)) vs" "cursor_pos st + n * length vs \<le> cursor_size st"
    "take (n * length vs) (drop (cursor_pos st) (mem st)) = concat (map (to_endian e n) vs)"
  shows "endian_get_array e n (length vs) st = (Inr vs, st\<lparr>cursor_pos := cursor_pos st + n * length vs\<rparr>)"
  using assms
proof (induction vs arbitrary: st)
  case Nil
  then show ?case by (simp add: returnA_def)
next
  case (Cons v vs)
  let ?st = "st\<lparr>cursor_pos := cursor_pos st + n\<rparr>"
  have t: "take n (drop (cursor_pos st) (mem st)) = to_endian e n v"
    using arg_cong [OF Cons.prems(4), of "take n"] by (simp add: min_def)
  have "take (n * length vs) (drop (cursor_pos ?st) (mem ?st)) = concat (map (to_endian e n) vs)"
    using arg_cong [OF Cons.prems(4), of "drop n"] by (simp add: drop_take add.commute)
  then have "endian_get_array e n (length vs) ?st = (Inr vs, ?st\<lparr>cursor_pos := cursor_pos ?st + n * length vs\<rparr>)"
    using Cons.prems by (intro Cons.IH) auto
  then show ?case
    using Cons.prems t from_to_endian [of v n e]
    by (simp add: bindA_def endian_get_def returnA_def add.assoc)
qed

text \<open>What an \<^verbatim>\<open>endian_export\<close> cursor puts into a buffer of sufficient size, an \<^verbatim>\<open>endian_import\<close>
  cursor over it gets back, for every number of values of the same width, and the buffer keeps its size.\<close>

theorem endian_cursor_roundtrip:
  assumes "n \<le> 8" "list_all (\<lambda>v. unat v < 2 ^ (8 * n)) vs" "s \<le> length p" "n * length vs \<le> s"
  shows "\<exists>st. endian_put_array e n vs (make_cursor p s) = (Inr (), st) \<and>
    fst (endian_get_array e n (length vs) (make_cursor (mem st) s)) = Inr vs \<and>
    length (mem st) = length p"
proof -
  obtain st where st: "endian_put_array e n vs (make_cursor p s) = (Inr (), st)" "length (mem st) = length p"
    "take (n * length vs) (mem st) = concat (map (to_endian e n) vs)"
    using endian_put_array_ok [of "make_cursor p s" n vs e] assms(3,4) by (auto simp: make_cursor_def)
  have "endian_get_array e n (length vs) (make_cursor (mem st) s) =
      (Inr vs, (make_cursor (mem st) s)\<lparr>cursor_pos := n * length vs\<rparr>)"
    using endian_get_array_ok [OF assms(1,2), of "make_cursor (mem st) s" e] assms(4) st(3) by (simp add: make_cursor_def)
  with st(1,2) show ?thesis by simp
qed

theorem endian_cursor_roundtrip_witness:
  "\<exists>st. endian_put_array Big 2 [258, 65535] (make_cursor [0, 0, 0, 0, 9] 5) = (Inr (), st) \<and>
     fst (endian_get_array Big 2 (length [258 :: 64 word, 65535]) (make_cursor (mem st) 5)) = Inr [258, 65535]"
  using endian_cursor_roundtrip [of 2 "[258, 65535]" 5 "[0, 0, 0, 0, 9]" Big] by auto

end
