(* ===== verification/Aes_Gcm.thy ===== *)
theory Aes_Gcm
  imports Crypto_Keys Byte_Order
begin

text \<open>
  The incremental AES-256-GCM ciphers of \<^verbatim>\<open>crypto/aes_gcm.cpp\<close> and the content encrypted with them
  (\<^verbatim>\<open>encrypted_content.cpp\<close>). Botan's primitives are the parameter \<open>aes\<close>: the CTR keystream
  of a key and an initial counter block, and GCM encryption of a whole message.
\<close>

unbundle bit_operations_syntax

section \<open>Primitives\<close>

text \<open>\<open>keystream a k iv i\<close> is octet \<open>i\<close> of the CTR stream; \<open>gcm_seal\<close> gives the ciphertext followed by
  the 16 octets of the tag, \<open>gcm_open\<close> undoes it and fails on a wrong tag.\<close>

record aes =
  keystream :: "octets \<Rightarrow> octets \<Rightarrow> nat \<Rightarrow> octet"
  gcm_seal :: "octets \<Rightarrow> octets \<Rightarrow> octets \<Rightarrow> octets \<Rightarrow> octets"
  gcm_open :: "octets \<Rightarrow> octets \<Rightarrow> octets \<Rightarrow> octets \<Rightarrow> octets option"

definition ctr_cipher :: "(nat \<Rightarrow> octet) \<Rightarrow> nat \<Rightarrow> octets \<Rightarrow> octets" where
  "ctr_cipher ks i d = map2 (XOR) d (map ks [i..<i + length d])"

definition aes_gcm_key_size :: nat where
  "aes_gcm_key_size = 32"

definition aes_gcm_iv_size :: nat where
  "aes_gcm_iv_size = 12"

definition aes_gcm_tag_size :: nat where
  "aes_gcm_tag_size = 16"

definition aes_gcm_max_data_size :: nat where
  "aes_gcm_max_data_size = (2 ^ 39 - 256) div 8"

definition aes_gcm_implicit_counter_iv_size :: nat where
  "aes_gcm_implicit_counter_iv_size = 4"

section \<open>State\<close>

text \<open>The two subclasses differ in what follows a tag; the second one counts messages.\<close>

datatype gcm_kind = Single_message | Implicit_counter octets "64 word"

record gcm =
  gcm_key :: octets
  encrypting :: bool
  finished :: bool
  ctr_iv :: octets
  ctr_pos :: nat
  nonce :: octets
  aad :: octets
  plain :: octets
  kind :: gcm_kind

definition gcm_init :: "octets \<Rightarrow> bool \<Rightarrow> gcm_kind \<Rightarrow> crypto_error + gcm" where
  "gcm_init key enc k =
     (if length key \<noteq> aes_gcm_key_size then Inl Invalid_key_size
      else Inr \<lparr>gcm_key = key, encrypting = enc, finished = False, ctr_iv = [], ctr_pos = 0, nonce = [], aad = [],
                plain = [], kind = k\<rparr>)"

definition gcm_start :: "octets \<Rightarrow> gcm \<Rightarrow> crypto_error + gcm" where
  "gcm_start n g =
     (if length n \<noteq> aes_gcm_iv_size then Inl Invalid_iv_size
      else Inr (g\<lparr>nonce := n, ctr_iv := n @ [0, 0, 0, 2], ctr_pos := 0, aad := [], plain := []\<rparr>))"

definition gcm_finish :: "gcm \<Rightarrow> gcm" where
  "gcm_finish g = g\<lparr>finished := True, aad := [], plain := []\<rparr>"

definition check_usable :: "gcm \<Rightarrow> crypto_error + unit" where
  "check_usable g = (if finished g then Inl (Util_errc Invalid_state) else Inr ())"

text \<open>\<^verbatim>\<open>counter_++\<close> wraps at 64 bits.\<close>

definition next_nonce :: "octets \<Rightarrow> 64 word \<Rightarrow> octets" where
  "next_nonce iv counter = iv @ to_endian Big 8 counter"

definition start_next :: "octets \<Rightarrow> 64 word \<Rightarrow> gcm \<Rightarrow> crypto_error + gcm" where
  "start_next iv counter g = gcm_start (next_nonce iv counter) (g\<lparr>kind := Implicit_counter iv (counter + 1)\<rparr>)"

section \<open>Operations\<close>

text \<open>With \<open>in_place\<close> the output overwrites the input before the plaintext is recorded.\<close>

definition gcm_process :: "aes \<Rightarrow> bool \<Rightarrow> octets \<Rightarrow> gcm \<Rightarrow> crypto_error + octets \<times> gcm" where
  "gcm_process a in_place d g =
     bindE (check_usable g) (\<lambda>_.
       if length d > aes_gcm_max_data_size - length (plain g) then Inl (Util_errc Constraint_violation)
       else let out = ctr_cipher (keystream a (gcm_key g) (ctr_iv g)) (ctr_pos g) d;
                begin_after = (if in_place then out else d);
                p = (if encrypting g then begin_after else out)
            in Inr (out, g\<lparr>ctr_pos := ctr_pos g + length d, plain := plain g @ p\<rparr>))"

definition gcm_process_auth :: "octets \<Rightarrow> gcm \<Rightarrow> crypto_error + gcm" where
  "gcm_process_auth d g = bindE (check_usable g) (\<lambda>_. Inr (g\<lparr>aad := aad g @ d\<rparr>))"

definition after_tag :: "gcm \<Rightarrow> crypto_error + gcm" where
  "after_tag g = (case kind g of
       Single_message \<Rightarrow> Inr (gcm_finish g)
     | Implicit_counter iv counter \<Rightarrow> start_next iv counter g)"

definition gcm_tag :: "aes \<Rightarrow> nat \<Rightarrow> gcm \<Rightarrow> crypto_error + octets \<times> gcm" where
  "gcm_tag a tag_size g =
     bindE (check_usable g) (\<lambda>_.
       if tag_size = 0 \<or> tag_size > aes_gcm_tag_size then Inl (Util_errc Invalid_argument)
       else let buf = gcm_seal a (gcm_key g) (nonce g) (aad g) (plain g);
                t = take tag_size (drop (length buf - aes_gcm_tag_size) buf)
            in bindE (after_tag g) (\<lambda>g'. Inr (t, g')))"

definition gcm_seek :: "64 word \<Rightarrow> gcm \<Rightarrow> crypto_error + gcm" where
  "gcm_seek counter g = (case kind g of
       Single_message \<Rightarrow> Inl (Util_errc Not_supported)
     | Implicit_counter iv _ \<Rightarrow> start_next iv counter g)"

definition tag_matches :: "octets \<Rightarrow> octets \<Rightarrow> bool" where
  "tag_matches l r \<longleftrightarrow> length l = length r \<and> l = r"

definition create_aes_gcm_stream :: "octets \<Rightarrow> octets \<Rightarrow> bool \<Rightarrow> crypto_error + gcm" where
  "create_aes_gcm_stream key iv enc = bindE (gcm_init key enc Single_message) (gcm_start iv)"

definition create_aes_gcm_implicit_counter :: "octets \<Rightarrow> octets \<Rightarrow> 64 word \<Rightarrow> bool \<Rightarrow> crypto_error + gcm" where
  "create_aes_gcm_implicit_counter key iv counter enc =
     bindE (gcm_init key enc (Implicit_counter iv counter)) (\<lambda>g.
       if length iv \<noteq> aes_gcm_implicit_counter_iv_size then Inl Invalid_iv_size
       else start_next iv counter g)"

section \<open>Encrypted content\<close>

record encrypted_content =
  ec_iv :: octets
  ec_content :: octets
  ec_tag :: octets

text \<open>The fresh initialisation vector of \<^verbatim>\<open>random_octet_vector\<close> is an argument.\<close>

definition seal_content :: "aes \<Rightarrow> octets \<Rightarrow> octets \<Rightarrow> octets \<Rightarrow> crypto_error + encrypted_content" where
  "seal_content a iv d sym_key =
     bindE (create_aes_gcm_stream sym_key iv True) (\<lambda>g. bindE (gcm_process_auth iv g) (\<lambda>g.
       bindE (gcm_process a False d g) (\<lambda>(encdata, g). bindE (gcm_tag a aes_gcm_tag_size g) (\<lambda>(t, _).
         Inr \<lparr>ec_iv = iv, ec_content = encdata, ec_tag = t\<rparr>))))"

definition open_content :: "aes \<Rightarrow> octets \<Rightarrow> octets \<Rightarrow> octets \<Rightarrow> octets \<Rightarrow> crypto_error + octets" where
  "open_content a iv d t sym_key =
     bindE (create_aes_gcm_stream sym_key iv False) (\<lambda>g. bindE (gcm_process_auth iv g) (\<lambda>g.
       bindE (gcm_process a False d g) (\<lambda>(result, g). bindE (gcm_tag a aes_gcm_tag_size g) (\<lambda>(t', _).
         if \<not> tag_matches t' t then Inl Invalid_tag else Inr result))))"

definition encrypt_content :: "aes \<Rightarrow> octets \<Rightarrow> octets \<Rightarrow> octets \<Rightarrow> crypto_error + encrypted_content" where
  "encrypt_content a iv d sym_key = seal_content a iv d sym_key"

definition decrypt_content :: "aes \<Rightarrow> encrypted_content \<Rightarrow> octets \<Rightarrow> crypto_error + octets" where
  "decrypt_content a ec sym_key = open_content a (ec_iv ec) (ec_content ec) (ec_tag ec) sym_key"

section \<open>The keystream\<close>

lemma length_ctr_cipher [simp]: "length (ctr_cipher ks i d) = length d"
  by (simp add: ctr_cipher_def)

lemma ctr_cipher_simps [simp]:
  "ctr_cipher ks i [] = []"
  "ctr_cipher ks i (b # d) = (b XOR ks i) # ctr_cipher ks (Suc i) d"
  by (simp_all add: ctr_cipher_def upt_conv_Cons del: upt_Suc)

lemma ctr_cipher_append: "ctr_cipher ks i (d @ e) = ctr_cipher ks i d @ ctr_cipher ks (i + length d) e"
  by (induction d arbitrary: i) simp_all

lemma ctr_cipher_twice: "ctr_cipher ks i (ctr_cipher ks i d) = d"
  by (induction d arbitrary: i) (simp_all add: xor.assoc)

section \<open>Any interleaving of data and associated data\<close>

datatype gcm_op = Auth octets | Data octets

primrec op_auth :: "gcm_op \<Rightarrow> octets" where
  "op_auth (Auth d) = d"
| "op_auth (Data d) = []"

primrec op_data :: "gcm_op \<Rightarrow> octets" where
  "op_data (Auth d) = []"
| "op_data (Data d) = d"

fun gcm_run :: "aes \<Rightarrow> gcm_op list \<Rightarrow> gcm \<Rightarrow> crypto_error + octets \<times> gcm" where
  "gcm_run a [] g = Inr ([], g)"
| "gcm_run a (Auth d # ops) g = bindE (gcm_process_auth d g) (gcm_run a ops)"
| "gcm_run a (Data d # ops) g =
     bindE (gcm_process a False d g) (\<lambda>(out, g). bindE (gcm_run a ops g) (\<lambda>(rest, g). Inr (out @ rest, g)))"

abbreviation all_auth :: "gcm_op list \<Rightarrow> octets" where
  "all_auth ops \<equiv> concat (map op_auth ops)"

abbreviation all_data :: "gcm_op list \<Rightarrow> octets" where
  "all_data ops \<equiv> concat (map op_data ops)"

lemma gcm_run_ok:
  assumes "\<not> finished g" "length (plain g) + length (all_data ops) \<le> aes_gcm_max_data_size"
  shows "gcm_run a ops g =
    (let out = ctr_cipher (keystream a (gcm_key g) (ctr_iv g)) (ctr_pos g) (all_data ops)
     in Inr (out, g\<lparr>ctr_pos := ctr_pos g + length (all_data ops), aad := aad g @ all_auth ops,
                    plain := plain g @ (if encrypting g then all_data ops else out)\<rparr>))"
  using assms
proof (induction ops arbitrary: g)
  case Nil
  then show ?case by simp
next
  case (Cons op ops)
  show ?case
  proof (cases op)
    case (Auth d)
    then show ?thesis using Cons by (simp add: gcm_process_auth_def check_usable_def Let_def)
  next
    case (Data d)
    then show ?thesis
      using Cons by (simp add: gcm_process_def check_usable_def Let_def ctr_cipher_append add.assoc)
  qed
qed

definition fresh_gcm :: "octets \<Rightarrow> octets \<Rightarrow> bool \<Rightarrow> gcm_kind \<Rightarrow> gcm" where
  "fresh_gcm key n enc k = \<lparr>gcm_key = key, encrypting = enc, finished = False, ctr_iv = n @ [0, 0, 0, 2], ctr_pos = 0,
     nonce = n, aad = [], plain = [], kind = k\<rparr>"

lemma create_single: "length key = 32 \<Longrightarrow> length iv = 12 \<Longrightarrow>
    create_aes_gcm_stream key iv enc = Inr (fresh_gcm key iv enc Single_message)"
  by (simp add: create_aes_gcm_stream_def gcm_init_def gcm_start_def fresh_gcm_def aes_gcm_key_size_def aes_gcm_iv_size_def)

lemma create_counter: "length key = 32 \<Longrightarrow> length iv = 4 \<Longrightarrow>
    create_aes_gcm_implicit_counter key iv counter enc =
      Inr (fresh_gcm key (next_nonce iv counter) enc (Implicit_counter iv (counter + 1)))"
  by (simp add: create_aes_gcm_implicit_counter_def gcm_init_def gcm_start_def fresh_gcm_def start_next_def next_nonce_def
      aes_gcm_key_size_def aes_gcm_iv_size_def aes_gcm_implicit_counter_iv_size_def)

text \<open>The tag of a whole message.\<close>

definition gcm_message_tag :: "aes \<Rightarrow> octets \<Rightarrow> octets \<Rightarrow> octets \<Rightarrow> octets \<Rightarrow> octets" where
  "gcm_message_tag a key n ad p = (let buf = gcm_seal a key n ad p in drop (length buf - 16) buf)"

lemma gcm_tag_single:
  assumes "\<not> finished g" "kind g = Single_message"
  shows "gcm_tag a 16 g = Inr (take 16 (gcm_message_tag a (gcm_key g) (nonce g) (aad g) (plain g)), gcm_finish g)"
  using assms by (simp add: gcm_tag_def check_usable_def after_tag_def aes_gcm_tag_size_def gcm_message_tag_def Let_def)

text \<open>C10: Incremental encryption and decryption agree, whatever the segmentation: feed an encryptor any
  interleaving of data and associated data, and a decryptor with the same key and nonce any
  interleaving of the same associated data and of the ciphertext; the decryptor then gives back the
  plaintext and both end with the same tag, that of GCM over the concatenated inputs.\<close>

theorem gcm_segmentation_independent:
  assumes "length key = 32" "length iv = 12" "length (all_data ops) \<le> aes_gcm_max_data_size"
    "all_auth ops' = all_auth ops" 
    "all_data ops' = ctr_cipher (keystream a key (iv @ [0, 0, 0, 2])) 0 (all_data ops)"
  shows "\<exists>g g'.
    bindE (create_aes_gcm_stream key iv True) (gcm_run a ops) = Inr (all_data ops', g) \<and>
    bindE (create_aes_gcm_stream key iv False) (gcm_run a ops') = Inr (all_data ops, g') \<and>
    gcm_tag a 16 g = Inr (take 16 (gcm_message_tag a key iv (all_auth ops) (all_data ops)), gcm_finish g) \<and>
    gcm_tag a 16 g' = Inr (take 16 (gcm_message_tag a key iv (all_auth ops) (all_data ops)), gcm_finish g')"
proof -
  let ?g = "\<lambda>enc. fresh_gcm key iv enc Single_message"
  have f: "\<not> finished (?g enc)" "plain (?g enc) = []" "aad (?g enc) = []" "gcm_key (?g enc) = key" "ctr_pos (?g enc) = 0"
    "ctr_iv (?g enc) = iv @ [0, 0, 0, 2]" "nonce (?g enc) = iv" "encrypting (?g enc) = enc" "kind (?g enc) = Single_message" for enc
    by (simp_all add: fresh_gcm_def)
  have l: "length (all_data ops') \<le> aes_gcm_max_data_size" unfolding assms(5) using assms(3) by simp
  show ?thesis
    using gcm_run_ok [of "?g True" ops a] gcm_run_ok [of "?g False" ops' a] assms(3) l
    by (simp add: create_single assms(1,2) f Let_def assms(4,5) ctr_cipher_twice gcm_tag_single)
qed


text \<open>A toy instance of the primitives for the examples.\<close>

definition demo_aes :: aes where
  "demo_aes = \<lparr>keystream = (\<lambda>k iv i. of_nat (i + 1)), gcm_seal = (\<lambda>k n ad p. ctr_cipher (\<lambda>i. of_nat (i + 1)) 0 p @
       replicate 15 (of_nat (length ad)) @ [foldr (XOR) p 0]),
     gcm_open = (\<lambda>k n ad c. let p = ctr_cipher (\<lambda>i. of_nat (i + 1)) 0 (take (length c - 16) c)
       in if drop (length c - 16) c = replicate 15 (of_nat (length ad)) @ [foldr (XOR) p 0] then Some p else None)\<rparr>"

theorem gcm_segmentation_independent_witness:
  "\<exists>g g'. bindE (create_aes_gcm_stream (replicate 32 0) (replicate 12 0) True) (gcm_run demo_aes [Auth [1], Data [5, 6], Auth [2], Data [7]])
       = Inr ([4, 4, 4], g) \<and>
     bindE (create_aes_gcm_stream (replicate 32 0) (replicate 12 0) False) (gcm_run demo_aes [Data [4], Auth [1, 2], Data [4, 4]])
       = Inr ([5, 6, 7], g')"
proof -
  let ?ops = "[Auth [1], Data [5, 6], Auth [2], Data [7]]" and ?ops' = "[Data [4], Auth [1, 2], Data [4, 4]]"
  have "all_data ?ops' = ctr_cipher (keystream demo_aes (replicate 32 0) (replicate 12 0 @ [0, 0, 0, 2])) 0 (all_data ?ops)"
    by (simp add: demo_aes_def)
  then show ?thesis
    using gcm_segmentation_independent [of "replicate 32 0" "replicate 12 0" ?ops ?ops' demo_aes]
    by (auto simp: aes_gcm_max_data_size_def)
qed

section \<open>Nonces of the implicit counter\<close>

fun gcm_messages :: "aes \<Rightarrow> gcm_op list list \<Rightarrow> gcm \<Rightarrow> crypto_error + (octets \<times> octets) list \<times> gcm" where
  "gcm_messages a [] g = Inr ([], g)"
| "gcm_messages a (m # ms) g =
     bindE (gcm_run a m g) (\<lambda>(out, g1). bindE (gcm_tag a aes_gcm_tag_size g1) (\<lambda>(t, g2).
       bindE (gcm_messages a ms g2) (\<lambda>(r, g3). Inr ((nonce g, out @ t) # r, g3))))"

lemma next_nonce_inj: "next_nonce iv x = next_nonce iv y \<longleftrightarrow> x = y"
proof
  assume "next_nonce iv x = next_nonce iv y"
  then have "from_endian Big (to_endian Big 8 x) = from_endian Big (to_endian Big 8 y)" by (simp add: next_nonce_def)
  moreover have "unat x < 2 ^ (8 * 8)" "unat y < 2 ^ (8 * 8)" using unsigned_less [of x] unsigned_less [of y] by simp_all
  ultimately show "x = y" by (simp add: from_to_endian)
qed simp

lemma gcm_tag_counter:
  assumes "\<not> finished g" "kind g = Implicit_counter iv cnt" "length iv = 4"
  shows "\<exists>t. gcm_tag a aes_gcm_tag_size g = Inr (t, g\<lparr>kind := Implicit_counter iv (cnt + 1), nonce := next_nonce iv cnt,
    ctr_iv := next_nonce iv cnt @ [0, 0, 0, 2], ctr_pos := 0, aad := [], plain := []\<rparr>)"
  using assms
  by (simp add: gcm_tag_def check_usable_def after_tag_def start_next_def gcm_start_def next_nonce_def Let_def
      aes_gcm_tag_size_def aes_gcm_iv_size_def)

lemma gcm_messages_nonces:
  assumes "\<not> finished g" "kind g = Implicit_counter iv (cnt + 1)" "length iv = 4" "nonce g = next_nonce iv cnt" "plain g = []"
    "list_all (\<lambda>m. length (all_data m) \<le> aes_gcm_max_data_size) ms"
  shows "\<exists>r g'. gcm_messages a ms g = Inr (r, g') \<and> map fst r = map (\<lambda>n. next_nonce iv (cnt + of_nat n)) [0..<length ms]"
  using assms
proof (induction ms arbitrary: g cnt)
  case (Cons m ms)
  obtain out g1 where g1: "gcm_run a m g = Inr (out, g1)" "\<not> finished g1" "kind g1 = Implicit_counter iv (cnt + 1)"
    using gcm_run_ok [of g m a] Cons.prems by (auto simp: Let_def)
  obtain t where t: "gcm_tag a aes_gcm_tag_size g1 = Inr (t, g1\<lparr>kind := Implicit_counter iv (cnt + 1 + 1),
      nonce := next_nonce iv (cnt + 1), ctr_iv := next_nonce iv (cnt + 1) @ [0, 0, 0, 2], ctr_pos := 0, aad := [], plain := []\<rparr>)"
    (is "_ = Inr (t, ?g2)") using gcm_tag_counter [OF g1(2,3) Cons.prems(3)] by blast
  have "\<exists>r g'. gcm_messages a ms ?g2 = Inr (r, g') \<and> map fst r = map (\<lambda>n. next_nonce iv (cnt + 1 + of_nat n)) [0..<length ms]"
    using Cons.prems g1 by (intro Cons.IH) simp_all
  then obtain r g' where r: "gcm_messages a ms ?g2 = Inr (r, g')"
    "map fst r = map (\<lambda>n. next_nonce iv (cnt + 1 + of_nat n)) [0..<length ms]" by blast
  have "map (\<lambda>n. next_nonce iv (cnt + of_nat n)) [0..<length (m # ms)] =
      next_nonce iv cnt # map (\<lambda>n. next_nonce iv (cnt + 1 + of_nat n)) [0..<length ms]"
    by (simp add: upt_conv_Cons map_Suc_upt [symmetric] add.assoc del: upt_Suc)
  then show ?case using g1(1) t r Cons.prems(4) by simp
qed simp

lemma of_nat_word_inj: "i < 2 ^ 64 \<Longrightarrow> j < 2 ^ 64 \<Longrightarrow> (of_nat i :: 64 word) = of_nat j \<longleftrightarrow> i = j"
  by (simp add: word_unat_eq_iff unat_of_nat)

text \<open>C12: The implicit counter never repeats a nonce: over up to \<open>2 ^ 64\<close> messages, whatever their content
  and the initial counter, and across the wrap-around of the counter, every message is processed
  under a nonce of its own.\<close>

theorem implicit_counter_nonces_distinct:
  assumes "length key = 32" "length iv = 4" "length ms \<le> 2 ^ 64"
    "list_all (\<lambda>m. length (all_data m) \<le> aes_gcm_max_data_size) ms"
  shows "\<exists>r g'. bindE (create_aes_gcm_implicit_counter key iv counter enc) (gcm_messages a ms) = Inr (r, g') \<and>
    length r = length ms \<and> distinct (map fst r)"
proof -
  let ?g = "fresh_gcm key (next_nonce iv counter) enc (Implicit_counter iv (counter + 1))"
  obtain r g' where r: "gcm_messages a ms ?g = Inr (r, g')"
    "map fst r = map (\<lambda>n. next_nonce iv (counter + of_nat n)) [0..<length ms]"
    using gcm_messages_nonces [of ?g iv counter ms a] assms by (auto simp: fresh_gcm_def)
  have "inj_on (\<lambda>n. next_nonce iv (counter + of_nat n)) {0..<length ms}"
    using assms(3) by (auto simp: inj_on_def next_nonce_inj of_nat_word_inj)
  then have "distinct (map fst r)" unfolding r(2) by (simp add: distinct_map)
  moreover have "length r = length ms" using arg_cong [OF r(2), of length] by simp
  ultimately show ?thesis using r(1) assms(1,2) by (simp add: create_counter)
qed

theorem implicit_counter_nonces_distinct_witness:
  "\<exists>r g'. bindE (create_aes_gcm_implicit_counter (replicate 32 0) [1, 2, 3, 4] (-1) True)
      (gcm_messages demo_aes [[Data [1]], [Auth [2], Data [3, 4]]]) = Inr (r, g') \<and> distinct (map fst r)"
  using implicit_counter_nonces_distinct [of "replicate 32 0" "[1, 2, 3, 4]" "[[Data [1]], [Auth [2], Data [3, 4]]]" "-1" True demo_aes]
  by (auto simp: aes_gcm_max_data_size_def)

section \<open>Misuse\<close>

lemma single_message_finished:
  assumes "kind g = Single_message" "gcm_tag a n g = Inr (t, g')"
  shows "gcm_process a b d g' = Inl (Util_errc Invalid_state)" "gcm_process_auth d g' = Inl (Util_errc Invalid_state)"
    "gcm_tag a m g' = Inl (Util_errc Invalid_state)"
  using assms
  by (auto simp: gcm_tag_def after_tag_def gcm_finish_def gcm_process_def gcm_process_auth_def check_usable_def Let_def
      split: if_splits)

text \<open>Encrypting in place gives the right ciphertext and the wrong tag: the plaintext is recorded after it
  has been overwritten, so that the tag is the one of a message whose plaintext is the ciphertext.\<close>

theorem gcm_in_place_tag_of_ciphertext:
  assumes "length key = 32" "length iv = 12" "length d \<le> aes_gcm_max_data_size"
  shows "\<exists>out g g'. out = ctr_cipher (keystream a key (iv @ [0, 0, 0, 2])) 0 d \<and>
    bindE (create_aes_gcm_stream key iv True) (gcm_process a True d) = Inr (out, g) \<and>
    gcm_tag a 16 g = Inr (take 16 (gcm_message_tag a key iv [] out), g')"
  using assms
  by (simp add: create_single gcm_process_def check_usable_def fresh_gcm_def gcm_tag_single Let_def)

lemma demo_message_tag [simp]:
  "gcm_message_tag demo_aes k n ad p = replicate 15 (of_nat (length ad)) @ [foldr (XOR) p 0]"
  by (simp add: gcm_message_tag_def demo_aes_def)

theorem gcm_in_place_tag_of_ciphertext_witness:
  "\<exists>g g'. bindE (create_aes_gcm_stream (replicate 32 0) (replicate 12 0) True) (gcm_process demo_aes True [5]) = Inr ([4], g) \<and>
     gcm_tag demo_aes 16 g = Inr (replicate 15 0 @ [4], g') \<and>
     take 16 (gcm_message_tag demo_aes (replicate 32 0) (replicate 12 0) [] [5]) = replicate 15 0 @ [5]"
proof -
  have k: "ctr_cipher (keystream demo_aes (replicate 32 0) (replicate 12 0 @ [0, 0, 0, 2])) 0 [5] = [4]"
    by (simp add: demo_aes_def)
  show ?thesis
    using gcm_in_place_tag_of_ciphertext [of "replicate 32 0" "replicate 12 0" "[5]" demo_aes]
    unfolding k by (auto simp: aes_gcm_max_data_size_def)
qed

section \<open>Encrypted content\<close>

lemma seal_content_eq:
  "seal_content a iv d key =
     (if length key \<noteq> 32 then Inl Invalid_key_size else if length iv \<noteq> 12 then Inl Invalid_iv_size
      else if length d > aes_gcm_max_data_size then Inl (Util_errc Constraint_violation)
      else Inr \<lparr>ec_iv = iv, ec_content = ctr_cipher (keystream a key (iv @ [0, 0, 0, 2])) 0 d,
                ec_tag = take 16 (gcm_message_tag a key iv iv d)\<rparr>)"
  by (simp add: seal_content_def create_aes_gcm_stream_def gcm_init_def gcm_start_def aes_gcm_key_size_def aes_gcm_iv_size_def
      gcm_process_auth_def check_usable_def gcm_process_def gcm_tag_single [simplified] gcm_tag_def after_tag_def Let_def
      aes_gcm_tag_size_def gcm_message_tag_def)

lemma open_content_eq:
  "open_content a iv d t key =
     (if length key \<noteq> 32 then Inl Invalid_key_size else if length iv \<noteq> 12 then Inl Invalid_iv_size
      else if length d > aes_gcm_max_data_size then Inl (Util_errc Constraint_violation)
      else let r = ctr_cipher (keystream a key (iv @ [0, 0, 0, 2])) 0 d
           in if take 16 (gcm_message_tag a key iv iv r) = t then Inr r else Inl Invalid_tag)"
  by (auto simp: open_content_def create_aes_gcm_stream_def gcm_init_def gcm_start_def aes_gcm_key_size_def aes_gcm_iv_size_def
      gcm_process_auth_def check_usable_def gcm_process_def gcm_tag_def after_tag_def Let_def tag_matches_def
      aes_gcm_tag_size_def gcm_message_tag_def)

lemma open_iff_seal: "open_content a iv c t key = Inr d \<longleftrightarrow> seal_content a iv d key = Inr \<lparr>ec_iv = iv, ec_content = c, ec_tag = t\<rparr>"
proof (cases "length key = 32 \<and> length iv = 12")
  case True
  let ?x = "ctr_cipher (keystream a key (iv @ [0, 0, 0, 2])) 0"
  have "?x c = d \<longleftrightarrow> ?x d = c" using ctr_cipher_twice by metis
  moreover have "length (?x c) = length c" by simp
  ultimately show ?thesis using True unfolding seal_content_eq open_content_eq Let_def by (cases "?x c = d") auto
qed (simp add: seal_content_eq open_content_eq)

text \<open>Decryption accepts exactly the output of encryption: a content decrypts to some data under a key if and
  only if encrypting that data under the key and the content's initialisation vector gives that content. So what was
  encrypted decrypts to itself, and any change of ciphertext or tag that another encryption would not
  produce is refused.\<close>

theorem decrypt_content_iff_encrypted:
  "decrypt_content a ec sym_key = Inr d \<longleftrightarrow> encrypt_content a (ec_iv ec) d sym_key = Inr ec"
  by (cases ec) (simp add: decrypt_content_def encrypt_content_def open_iff_seal)


end
