(* ===== verification/Certificates.thy ===== *)
theory Certificates
  imports Crypto_Keys
begin

text \<open>
  Certificates and certificate chains: \<^verbatim>\<open>crypto/certificate.cpp\<close>, \<^verbatim>\<open>certificate_revocation.cpp\<close>,
  \<^verbatim>\<open>key_certificate.cpp\<close> and \<^verbatim>\<open>certificate_chain.cpp\<close>. The certificate store and the key store are
  seen through their \<^verbatim>\<open>find\<close> functions.
\<close>

section \<open>Revocations and certificates\<close>

record revocation =
  rev_version :: "64 word"
  rev_cid :: octets
  rev_sig :: signature
  rev_trailing :: octets

record certificate =
  cert_version :: "64 word"
  cert_type :: "64 word"
  cert_data :: octets
  cert_sig :: signature
  cert_revocation :: "revocation option"
  cert_trailing :: octets

abbreviation (input) certificate_context :: string where
  "certificate_context \<equiv> ''sp-cert''"

abbreviation (input) revocation_context :: string where
  "revocation_context \<equiv> ''sp-revocation''"

definition rev_make_sig_data :: "revocation \<Rightarrow> octets" where
  "rev_make_sig_data r =
     der (T_seq [T_int 4, id_ty, T_trailing]) None (V_seq [V_int (rev_version r), id_val (rev_cid r), V_trailing (rev_trailing r)])"

definition rev_verify_me :: "crypto \<Rightarrow> revocation \<Rightarrow> public_key \<Rightarrow> crypto_error + bool" where
  "rev_verify_me c r k = verify c k (rev_sig r) (rev_make_sig_data r) revocation_context"

definition cert_make_sig_data :: "certificate \<Rightarrow> octets" where
  "cert_make_sig_data ct =
     der (T_seq [T_int 4, T_int 4, T_octets, T_trailing]) None
       (V_seq [V_int (cert_version ct), V_int (cert_type ct), V_octets (cert_data ct), V_trailing (cert_trailing ct)])"

definition cert_verify_me :: "crypto \<Rightarrow> certificate \<Rightarrow> public_key \<Rightarrow> crypto_error + bool" where
  "cert_verify_me c ct k = verify c k (cert_sig ct) (cert_make_sig_data ct) certificate_context"

definition cert_id :: "crypto \<Rightarrow> certificate \<Rightarrow> octets" where
  "cert_id c ct = sha3_256 c (der signature_ty None (signature_val (cert_sig ct)))"

definition cert_issuer :: "certificate \<Rightarrow> octets" where
  "cert_issuer ct = sig_issuer (cert_sig ct)"

definition cert_is_revoked :: "crypto \<Rightarrow> certificate \<Rightarrow> public_key \<Rightarrow> crypto_error + bool" where
  "cert_is_revoked c ct k =
     (case cert_revocation ct of
        None \<Rightarrow> Inr False
      | Some r \<Rightarrow>
          if sig_is_valid (cert_sig ct) \<and> rev_cid r = cert_id c ct then rev_verify_me c r k else Inr False)"

definition cert_is_authentic :: "crypto \<Rightarrow> certificate \<Rightarrow> public_key \<Rightarrow> crypto_error + bool" where
  "cert_is_authentic c ct k =
     bindE (cert_verify_me c ct k) (\<lambda>ok. if ok then bindE (cert_is_revoked c ct k) (\<lambda>r. Inr (\<not> r)) else Inr False)"

section \<open>Key certificates\<close>

text \<open>Host names are octets; \<^verbatim>\<open>std::tolower\<close> of the C locale changes the letters A to Z only.\<close>

definition lower_octet :: "octet \<Rightarrow> octet" where
  "lower_octet b = (if 65 \<le> b \<and> b \<le> 90 then b + 32 else b)"

definition to_lower :: "octets \<Rightarrow> octets" where
  "to_lower s = map lower_octet s"

definition ends_with :: "octets \<Rightarrow> octets \<Rightarrow> bool" where
  "ends_with s t \<longleftrightarrow> length t \<le> length s \<and> drop (length s - length t) s = t"

abbreviation (input) dot :: octet where
  "dot \<equiv> 46"

text \<open>A restriction is its host name; without one there is no restriction.\<close>

definition is_subset_of :: "octets \<Rightarrow> octets \<Rightarrow> bool" where
  "is_subset_of mine other \<longleftrightarrow>
     (if other = [] then True
      else let other_host = to_lower other; my_host = to_lower mine;
               other_host_sub = (if hd other_host \<noteq> dot then dot # other_host else other_host)
           in my_host = other_host \<or> ends_with my_host other_host_sub)"

definition merge_restrictions :: "octets \<Rightarrow> octets \<Rightarrow> crypto_error + octets" where
  "merge_restrictions r1 r2 =
     (if is_subset_of r1 r2 then Inr r1 else if is_subset_of r2 r1 then Inr r2
      else Inl (Crypto_errc Invalid_operation))"

record key_certificate_data =
  kc_subject :: octets
  kc_ca_level :: nat
  kc_restrictions :: octets
  kc_metadata :: octets

definition key_certificate_ty :: ty where
  "key_certificate_ty = T_seq [T_int 4, id_ty, T_uint 2, T_seq [T_string, T_trailing], T_octets, T_trailing]"

abbreviation (input) key_certificate_type :: "64 word" where
  "key_certificate_type \<equiv> 1"

text \<open>\<^verbatim>\<open>cert.extract<key_certificate_data>()\<close>.\<close>

definition extract_key_certificate :: "certificate \<Rightarrow> crypto_error + key_certificate_data" where
  "extract_key_certificate ct =
     (if cert_type ct \<noteq> key_certificate_type then Inl Invalid_cert_type
      else case asn_der_deserialise key_certificate_ty (cert_data ct) of
             Inl e \<Rightarrow> Inl (Malformed e)
           | Inr (V_seq [V_int _, V_seq [V_octets sub], V_int ca, V_seq [V_string host, _], V_octets meta, _]) \<Rightarrow>
               Inr \<lparr>kc_subject = sub, kc_ca_level = unat (take_bit 16 ca), kc_restrictions = host, kc_metadata = meta\<rparr>
           | Inr _ \<Rightarrow> Inl (Malformed ill_typed))"

section \<open>Links of a chain\<close>

record key_cert_pair =
  subject :: public_key
  cert :: certificate

record check_data =
  ca_level :: int
  restriction :: octets

abbreviation (input) int_max :: int where
  "int_max \<equiv> 2147483647"

text \<open>\<open>Inr None\<close> is the empty error, \<open>Inl\<close> an exception.\<close>

definition check_link_certificate ::
    "crypto \<Rightarrow> public_key \<Rightarrow> certificate \<Rightarrow> public_key \<Rightarrow> crypto_error + crypto_errc option" where
  "check_link_certificate c key ct previous_key =
     bindE (cert_is_authentic c ct previous_key) (\<lambda>authentic.
       if \<not> authentic then Inr (Some Invalid_certificate)
       else bindE (pk_verify_me c key) (\<lambda>ok.
         if \<not> ok then Inr (Some Invalid_public_key)
         else if cert_type ct \<noteq> key_certificate_type then Inr (Some Invalid_certificate)
         else if key_id previous_key \<noteq> cert_issuer ct then Inr (Some Invalid_crypto_data)
         else Inr None))"

definition check_link_data ::
    "crypto \<Rightarrow> public_key \<Rightarrow> certificate \<Rightarrow> key_certificate_data \<Rightarrow> check_data \<Rightarrow> crypto_errc option \<times> check_data" where
  "check_link_data c key ct kc d =
     (if kc_subject kc \<noteq> key_id key then (Some Invalid_crypto_data, d)
      else if \<not> references_certificate key (cert_id c ct) then (Some Invalid_crypto_data, d)
      else if ca_level d \<le> int (kc_ca_level kc) then (Some Invalid_certificate_chain_ca_level, d)
      else let d = d\<lparr>ca_level := int (kc_ca_level kc)\<rparr>
           in if \<not> is_subset_of (kc_restrictions kc) (restriction d) then (Some Invalid_crypto_data, d)
              else (None, d\<lparr>restriction := kc_restrictions kc\<rparr>))"

definition check_link ::
    "crypto \<Rightarrow> public_key \<Rightarrow> certificate \<Rightarrow> public_key \<Rightarrow> check_data \<Rightarrow> crypto_error + crypto_errc option \<times> check_data" where
  "check_link c key ct previous_key d =
     bindE (check_link_certificate c key ct previous_key) (\<lambda>err.
       if err \<noteq> None then Inr (err, d)
       else bindE (extract_key_certificate ct) (\<lambda>kc. Inr (check_link_data c key ct kc d)))"

section \<open>Chains\<close>

record certificate_chain =
  chain_version :: "64 word"
  root_key_id :: octets
  links :: "key_cert_pair list"

record key_access =
  find_key :: "octets \<Rightarrow> public_key option"
  find_root_key :: "octets \<Rightarrow> public_key option"

type_synonym cert_access = "octets \<Rightarrow> certificate option"

definition max_chain_length :: nat where
  "max_chain_length = 16"

definition chain_is_valid :: "certificate_chain \<Rightarrow> bool" where
  "chain_is_valid cc \<longleftrightarrow> links cc \<noteq> [] \<and> root_key_id cc \<noteq> []"

definition chain_subject :: "certificate_chain \<Rightarrow> crypto_error + public_key" where
  "chain_subject cc =
     (if \<not> chain_is_valid cc then Inl (Crypto_errc Invalid_certificate_chain) else Inr (subject (last (links cc))))"

definition is_revoked_in_store :: "crypto \<Rightarrow> cert_access \<Rightarrow> certificate \<Rightarrow> public_key \<Rightarrow> crypto_error + bool" where
  "is_revoked_in_store c certs ct previous =
     (case certs (cert_id c ct) of None \<Rightarrow> Inr False | Some stored \<Rightarrow> cert_is_revoked c stored previous)"

record chain_verify =
  previous :: public_key
  previous_ca_level :: int
  previous_restriction :: octets

definition check_chain_element ::
    "crypto \<Rightarrow> cert_access \<Rightarrow> key_cert_pair \<Rightarrow> chain_verify \<Rightarrow> crypto_error + bool \<times> chain_verify" where
  "check_chain_element c certs elem ver =
     bindE (check_link c (subject elem) (cert elem) (previous ver)
         \<lparr>ca_level = previous_ca_level ver, restriction = previous_restriction ver\<rparr>) (\<lambda>(err, d).
       if err \<noteq> None then Inr (False, ver)
       else bindE (is_revoked_in_store c certs (cert elem) (previous ver)) (\<lambda>revoked.
         if revoked then Inr (False, ver)
         else Inr (True, \<lparr>previous = subject elem, previous_ca_level = ca_level d, previous_restriction = restriction d\<rparr>)))"

primrec check_elements :: "crypto \<Rightarrow> cert_access \<Rightarrow> key_cert_pair list \<Rightarrow> chain_verify \<Rightarrow> crypto_error + bool" where
  "check_elements c certs [] ver = Inr True"
| "check_elements c certs (e # es) ver =
     bindE (check_chain_element c certs e ver) (\<lambda>(ok, ver'). if ok then check_elements c certs es ver' else Inr False)"

definition chain_is_authentic :: "crypto \<Rightarrow> key_access \<Rightarrow> cert_access \<Rightarrow> certificate_chain \<Rightarrow> crypto_error + bool" where
  "chain_is_authentic c keys certs cc =
     (if length (links cc) > max_chain_length then Inr False
      else if \<not> chain_is_valid cc then Inr False
      else case find_root_key keys (root_key_id cc) of
             None \<Rightarrow> Inr False
           | Some root \<Rightarrow>
               check_elements c certs (links cc)
                 \<lparr>previous = root, previous_ca_level = int_max, previous_restriction = []\<rparr>)"

definition subject_ca_level :: "certificate_chain \<Rightarrow> crypto_error + nat" where
  "subject_ca_level cc =
     (if \<not> chain_is_valid cc then Inl (Crypto_errc Invalid_certificate_chain)
      else bindE (extract_key_certificate (cert (last (links cc)))) (\<lambda>kc. Inr (kc_ca_level kc)))"

definition subject_restrictions :: "certificate_chain \<Rightarrow> crypto_error + octets" where
  "subject_restrictions cc =
     (if \<not> chain_is_valid cc then Inl (Crypto_errc Invalid_certificate_chain)
      else bindE (extract_key_certificate (cert (last (links cc)))) (\<lambda>kc. Inr (kc_restrictions kc)))"

definition chain_is_authentic_for ::
    "crypto \<Rightarrow> key_access \<Rightarrow> cert_access \<Rightarrow> octets \<Rightarrow> certificate_chain \<Rightarrow> crypto_error + bool" where
  "chain_is_authentic_for c keys certs rest cc =
     bindE (chain_is_authentic c keys certs cc) (\<lambda>ok.
       if ok then bindE (subject_restrictions cc) (\<lambda>r. Inr (is_subset_of rest r)) else Inr False)"

definition add_link :: "crypto \<Rightarrow> public_key \<Rightarrow> certificate \<Rightarrow> certificate_chain \<Rightarrow> crypto_error + certificate_chain" where
  "add_link c key ct cc =
     (if links cc = [] then Inl (Crypto_errc No_such_root_key)
      else bindE (subject_ca_level cc) (\<lambda>lvl. bindE (subject_restrictions cc) (\<lambda>r. bindE (chain_subject cc) (\<lambda>sub.
        bindE (check_link c key ct sub \<lparr>ca_level = int lvl, restriction = r\<rparr>) (\<lambda>(err, _).
          case err of Some e \<Rightarrow> Inl (Crypto_errc e)
          | None \<Rightarrow> Inr (cc\<lparr>links := links cc @ [\<lparr>subject = key, cert = ct\<rparr>]\<rparr>))))))"

definition add_link_root ::
    "crypto \<Rightarrow> key_access \<Rightarrow> public_key \<Rightarrow> certificate \<Rightarrow> certificate_chain \<Rightarrow> crypto_error + certificate_chain" where
  "add_link_root c keys key ct cc =
     (if links cc = []
      then (case find_root_key keys (cert_issuer ct) of
              None \<Rightarrow> Inl (Crypto_errc No_such_root_key)
            | Some root \<Rightarrow>
                bindE (check_link c key ct root \<lparr>ca_level = int_max, restriction = []\<rparr>) (\<lambda>(err, _).
                  case err of Some e \<Rightarrow> Inl (Crypto_errc e)
                  | None \<Rightarrow> Inr (cc\<lparr>root_key_id := key_id root, links := [\<lparr>subject = key, cert = ct\<rparr>]\<rparr>)))
      else bindE (chain_subject cc) (\<lambda>sub. bindE (subject_ca_level cc) (\<lambda>lvl. bindE (subject_restrictions cc) (\<lambda>r.
        bindE (check_link c key ct sub \<lparr>ca_level = int lvl, restriction = r\<rparr>) (\<lambda>(err, _).
          case err of Some e \<Rightarrow> Inl (Crypto_errc e)
          | None \<Rightarrow> Inr (cc\<lparr>links := links cc @ [\<lparr>subject = key, cert = ct\<rparr>]\<rparr>))))))"

section \<open>Building a chain\<close>

definition try_complete ::
    "crypto \<Rightarrow> key_access \<Rightarrow> cert_access \<Rightarrow> certificate \<Rightarrow> key_cert_pair list \<Rightarrow> crypto_error + certificate_chain option" where
  "try_complete c keys certs ct list =
     (let cc = \<lparr>chain_version = 1, root_key_id = cert_issuer ct, links = rev list\<rparr>
      in bindE (chain_is_authentic c keys certs cc) (\<lambda>ok. Inr (if ok then Some cc else None)))"

definition level_left :: "nat option \<Rightarrow> nat" where
  "level_left last_ca_level = (case last_ca_level of None \<Rightarrow> 2 ^ 16 + 1 | Some l \<Rightarrow> 2 ^ 16 - l)"

lemma uint16_less: "unat (take_bit 16 (w :: 64 word)) < 2 ^ 16"
  by (simp only: unsigned_take_bit_eq take_bit_nat_less_exp)

lemma extract_ca_level: "extract_key_certificate ct = Inr kc \<Longrightarrow> kc_ca_level kc < 2 ^ 16"
  unfolding extract_key_certificate_def
  by (auto simp del: take_bit_eq_mod simp: uint16_less [simplified] split: if_splits sum.splits val.splits list.splits)

text \<open>\<^verbatim>\<open>build_list\<close>, \<^verbatim>\<open>consider\<close> and \<^verbatim>\<open>follow_issuer\<close> of \<^verbatim>\<open>chain_builder\<close>, over the certificate identifiers of the
  subject that are left to look at. Going up to an issuer raises the CA level, so the search ends.\<close>

function build_list ::
    "crypto \<Rightarrow> key_access \<Rightarrow> cert_access \<Rightarrow> public_key \<Rightarrow> nat option \<Rightarrow> key_cert_pair list \<Rightarrow> octets list \<Rightarrow>
     crypto_error + certificate_chain option" where
  "build_list c keys certs sub last_ca_level list [] = Inr None"
| "build_list c keys certs sub last_ca_level list (cid # cids) =
     (case certs cid of
        None \<Rightarrow> build_list c keys certs sub last_ca_level list cids
      | Some ct \<Rightarrow>
          if cert_type ct \<noteq> key_certificate_type then build_list c keys certs sub last_ca_level list cids
          else case extract_key_certificate ct of
                 Inl e \<Rightarrow> Inl e
               | Inr kc \<Rightarrow>
                   if \<not> (case last_ca_level of None \<Rightarrow> True | Some l \<Rightarrow> l < kc_ca_level kc)
                   then build_list c keys certs sub last_ca_level list cids
                   else case (if find_root_key keys (cert_issuer ct) \<noteq> None
                              then try_complete c keys certs ct (list @ [\<lparr>subject = sub, cert = ct\<rparr>])
                              else case find_key keys (cert_issuer ct) of
                                     None \<Rightarrow> Inr None
                                   | Some key \<Rightarrow> build_list c keys certs key (Some (kc_ca_level kc))
                                       (list @ [\<lparr>subject = sub, cert = ct\<rparr>]) (certificate_ids key)) of
                          Inl e \<Rightarrow> Inl e
                        | Inr (Some cc) \<Rightarrow> Inr (Some cc)
                        | Inr None \<Rightarrow> build_list c keys certs sub last_ca_level list cids)"
  by pat_completeness auto
termination
  by (relation "measures [\<lambda>(_, _, _, _, l, _, _). level_left l, \<lambda>(_, _, _, _, _, _, ids). length ids]")
    (auto simp: level_left_def dest!: extract_ca_level split: option.splits)

definition create_certificate_chain ::
    "crypto \<Rightarrow> key_access \<Rightarrow> cert_access \<Rightarrow> public_key \<Rightarrow> crypto_error + certificate_chain option" where
  "create_certificate_chain c keys certs sub = build_list c keys certs sub None [] (certificate_ids sub)"


section \<open>Restrictions narrow\<close>

lemma ends_with_iff: "ends_with s t \<longleftrightarrow> (\<exists>p. s = p @ t)"
  by (auto simp: ends_with_def) (metis append_take_drop_id)

lemma ends_with_trans: "ends_with a b \<Longrightarrow> ends_with b c \<Longrightarrow> ends_with a c"
  by (auto simp: ends_with_iff)

lemma to_lower_eq_Nil [simp]: "to_lower [] = []" "to_lower s = [] \<longleftrightarrow> s = []" "[] = to_lower s \<longleftrightarrow> s = []"
  by (auto simp: to_lower_def)

lemma is_subset_of_iff:
  "is_subset_of a b \<longleftrightarrow> b = [] \<or> to_lower a = to_lower b \<or>
     ends_with (to_lower a) ((if hd (to_lower b) \<noteq> dot then [dot] else []) @ to_lower b)"
  by (auto simp: is_subset_of_def Let_def)

lemma is_subset_of_ends_with: "is_subset_of a b \<Longrightarrow> ends_with (to_lower a) (to_lower b)"
  by (auto simp: is_subset_of_iff ends_with_iff)

lemma is_subset_of_refl: "is_subset_of a a"
  by (simp add: is_subset_of_iff)

lemma is_subset_of_nothing [simp]: "is_subset_of a []"
  by (simp add: is_subset_of_iff)

lemma is_subset_of_trans:
  assumes "is_subset_of a b" "is_subset_of b c"
  shows "is_subset_of a c"
proof (cases "c = [] \<or> to_lower b = to_lower c")
  case True
  then show ?thesis using assms by (auto simp: is_subset_of_iff)
next
  case False
  then have "ends_with (to_lower b) ((if hd (to_lower c) \<noteq> dot then [dot] else []) @ to_lower c)"
    using assms(2) by (auto simp: is_subset_of_iff)
  then show ?thesis using ends_with_trans [OF is_subset_of_ends_with [OF assms(1)]]
    by (auto simp: is_subset_of_iff)
qed

section \<open>What an accepted chain guarantees\<close>

definition link_holds :: "crypto \<Rightarrow> cert_access \<Rightarrow> public_key \<times> key_cert_pair \<Rightarrow> key_certificate_data \<Rightarrow> bool" where
  "link_holds c certs = (\<lambda>(issuer, e) kc.
     cert_is_authentic c (cert e) issuer = Inr True \<and>
     cert_issuer (cert e) = key_id issuer \<and>
     is_revoked_in_store c certs (cert e) issuer = Inr False \<and>
     pk_verify_me c (subject e) = Inr True \<and>
     extract_key_certificate (cert e) = Inr kc \<and>
     kc_subject kc = key_id (subject e) \<and>
     references_certificate (subject e) (cert_id c (cert e)))"

definition narrower :: "key_certificate_data \<Rightarrow> key_certificate_data \<Rightarrow> bool" where
  "narrower outer inner \<longleftrightarrow>
     kc_ca_level inner < kc_ca_level outer \<and> is_subset_of (kc_restrictions inner) (kc_restrictions outer)"

lemma extracted_type: "extract_key_certificate ct = Inr kc \<Longrightarrow> cert_type ct = key_certificate_type"
  by (auto simp: extract_key_certificate_def split: if_splits)

lemma check_link_certificate_ok:
  "check_link_certificate c key ct prev = Inr None \<longleftrightarrow>
     cert_is_authentic c ct prev = Inr True \<and> pk_verify_me c key = Inr True \<and>
     cert_type ct = key_certificate_type \<and> cert_issuer ct = key_id prev"
  by (auto simp: check_link_certificate_def split: if_splits)

lemma check_link_data_ok:
  "check_link_data c key ct kc d = (None, d') \<longleftrightarrow>
     kc_subject kc = key_id key \<and> references_certificate key (cert_id c ct) \<and> int (kc_ca_level kc) < ca_level d \<and>
     is_subset_of (kc_restrictions kc) (restriction d) \<and>
     d' = \<lparr>ca_level = int (kc_ca_level kc), restriction = kc_restrictions kc\<rparr>"
  by (cases d) (auto simp: check_link_data_def Let_def)

lemma check_link_ok:
  "check_link c key ct prev d = Inr (None, d') \<longleftrightarrow>
     check_link_certificate c key ct prev = Inr None \<and>
     (\<exists>kc. extract_key_certificate ct = Inr kc \<and> check_link_data c key ct kc d = (None, d'))"
  by (auto simp: check_link_def split: if_splits)

lemma check_element_ok:
  "check_chain_element c certs e ver = Inr (True, ver') \<longleftrightarrow>
     (\<exists>kc. link_holds c certs (previous ver, e) kc \<and> int (kc_ca_level kc) < previous_ca_level ver \<and>
        is_subset_of (kc_restrictions kc) (previous_restriction ver) \<and>
        ver' = \<lparr>previous = subject e, previous_ca_level = int (kc_ca_level kc), previous_restriction = kc_restrictions kc\<rparr>)"
  (is "?l \<longleftrightarrow> ?r")
proof -
  have "?l \<longleftrightarrow> (\<exists>d. check_link c (subject e) (cert e) (previous ver)
           \<lparr>ca_level = previous_ca_level ver, restriction = previous_restriction ver\<rparr> = Inr (None, d) \<and>
         is_revoked_in_store c certs (cert e) (previous ver) = Inr False \<and>
         ver' = \<lparr>previous = subject e, previous_ca_level = ca_level d, previous_restriction = restriction d\<rparr>)"
    by (auto simp: check_chain_element_def split: if_splits prod.splits; blast)
  also have "\<dots> \<longleftrightarrow> ?r" by (auto simp: check_link_ok check_link_certificate_ok check_link_data_ok link_holds_def dest: extracted_type)
  finally show ?thesis .
qed


abbreviation hops :: "public_key \<Rightarrow> key_cert_pair list \<Rightarrow> (public_key \<times> key_cert_pair) list" where
  "hops root es \<equiv> zip (root # map subject es) es"

abbreviation below :: "int \<Rightarrow> octets \<Rightarrow> key_certificate_data \<Rightarrow> bool" where
  "below lvl rest kc \<equiv> int (kc_ca_level kc) < lvl \<and> is_subset_of (kc_restrictions kc) rest"

lemma below_narrower: "below lvl rest kc \<Longrightarrow> list_all (narrower kc) kcs \<Longrightarrow> list_all (below lvl rest) kcs"
  by (auto simp: list_all_iff narrower_def intro: is_subset_of_trans)

lemma list_all_narrower:
  "list_all (below (int (kc_ca_level kc)) (kc_restrictions kc)) = list_all (narrower kc)"
  by (auto simp: narrower_def list_all_iff fun_eq_iff)

lemma trusted_Cons:
  "(\<exists>kcs. list_all2 (link_holds c certs) (hops prev (e # es)) kcs \<and> sorted_wrt narrower kcs \<and> list_all (below lvl rest) kcs) \<longleftrightarrow>
   (\<exists>kc. link_holds c certs (prev, e) kc \<and> below lvl rest kc \<and>
     (\<exists>kcs. list_all2 (link_holds c certs) (hops (subject e) es) kcs \<and> sorted_wrt narrower kcs \<and> list_all (narrower kc) kcs))"
  (is "?l \<longleftrightarrow> ?r")
proof
  assume ?l
  then show ?r by (auto simp: list_all2_Cons1 list_all_iff) blast
next
  assume ?r
  then obtain kc kcs where kc: "link_holds c certs (prev, e) kc" "below lvl rest kc"
    and kcs: "list_all2 (link_holds c certs) (hops (subject e) es) kcs" "sorted_wrt narrower kcs" "list_all (narrower kc) kcs"
    by blast
  have "list_all2 (link_holds c certs) (hops prev (e # es)) (kc # kcs)" using kc kcs by simp
  moreover have "sorted_wrt narrower (kc # kcs)" using kcs by (simp add: list_all_iff)
  moreover have "list_all (below lvl rest) (kc # kcs)" using kc(2) below_narrower [OF kc(2) kcs(3)] by simp
  ultimately show ?l by blast
qed

lemma check_elements_ok:
  "check_elements c certs es ver = Inr True \<longleftrightarrow>
     (\<exists>kcs. list_all2 (link_holds c certs) (hops (previous ver) es) kcs \<and> sorted_wrt narrower kcs \<and>
        list_all (below (previous_ca_level ver) (previous_restriction ver)) kcs)"
proof (induction es arbitrary: ver)
  case (Cons e es)
  have "check_elements c certs (e # es) ver = Inr True \<longleftrightarrow>
      (\<exists>ver'. check_chain_element c certs e ver = Inr (True, ver') \<and> check_elements c certs es ver' = Inr True)"
    by (auto simp: split: if_splits)
  also have "\<dots> \<longleftrightarrow> (\<exists>kc. link_holds c certs (previous ver, e) kc \<and>
      below (previous_ca_level ver) (previous_restriction ver) kc \<and>
      check_elements c certs es \<lparr>previous = subject e, previous_ca_level = int (kc_ca_level kc),
        previous_restriction = kc_restrictions kc\<rparr> = Inr True)"
    unfolding check_element_ok by blast
  also have "\<dots> \<longleftrightarrow> (\<exists>kcs. list_all2 (link_holds c certs) (hops (previous ver) (e # es)) kcs \<and> sorted_wrt narrower kcs \<and>
        list_all (below (previous_ca_level ver) (previous_restriction ver)) kcs)"
    unfolding Cons.IH trusted_Cons check_data.simps chain_verify.simps list_all_narrower ..
  finally show ?case .
qed simp

definition chain_trusted :: "crypto \<Rightarrow> cert_access \<Rightarrow> public_key \<Rightarrow> key_cert_pair list \<Rightarrow> key_certificate_data list \<Rightarrow> bool" where
  "chain_trusted c certs root es kcs \<longleftrightarrow>
     list_all2 (link_holds c certs) (hops root es) kcs \<and> sorted_wrt narrower kcs"

lemma trusted_levels:
  assumes "list_all2 (link_holds c certs) es kcs"
  shows "list_all (below int_max []) kcs"
  using assms
  by (induction rule: list_all2_induct) (auto simp: link_holds_def dest!: extract_ca_level)

lemma check_all_elements:
  "check_elements c certs es \<lparr>previous = root, previous_ca_level = int_max, previous_restriction = []\<rparr> = Inr True \<longleftrightarrow>
     (\<exists>kcs. chain_trusted c certs root es kcs)"
  unfolding check_elements_ok chain_trusted_def chain_verify.simps using trusted_levels by blast

text \<open>C4: A chain is accepted exactly when it is anchored in a known root key, has one to sixteen links, every
  certificate is authentic under the key before it, was issued by that key and is not revoked in the
  verifier's own store, every subject key verifies itself, is the key its certificate names and refers
  back to that certificate, and along the chain the CA levels fall strictly and the restrictions only
  narrow, between any two links.\<close>

theorem chain_is_authentic_iff:
  "chain_is_authentic c keys certs cc = Inr True \<longleftrightarrow>
     root_key_id cc \<noteq> [] \<and> length (links cc) \<in> {1..16} \<and>
     (\<exists>root kcs. find_root_key keys (root_key_id cc) = Some root \<and>
        list_all2 (link_holds c certs) (zip (root # map subject (links cc)) (links cc)) kcs \<and>
        sorted_wrt narrower kcs)"
  by (auto simp: chain_is_authentic_def max_chain_length_def chain_is_valid_def check_all_elements chain_trusted_def
      Suc_le_eq split: option.splits)

lemma authentic_trusted:
  "chain_is_authentic c keys certs cc = Inr True \<longleftrightarrow>
     root_key_id cc \<noteq> [] \<and> links cc \<noteq> [] \<and> length (links cc) \<le> 16 \<and>
     (\<exists>root kcs. find_root_key keys (root_key_id cc) = Some root \<and> chain_trusted c certs root (links cc) kcs)"
  by (auto simp: chain_is_authentic_def max_chain_length_def chain_is_valid_def check_all_elements split: option.splits)

section \<open>Adding a link\<close>

lemma trusted_length: "chain_trusted c certs root es kcs \<Longrightarrow> length kcs = length es"
  by (auto simp: chain_trusted_def dest: list_all2_lengthD)

lemma list_all2_snoc: "list_all2 P (xs @ [x]) (ys @ [y]) \<longleftrightarrow> list_all2 P xs ys \<and> P x y"
  by (subst list_all2_rev [symmetric]) (simp add: conj_commute)

lemma trusted_snoc:
  "chain_trusted c certs root (es @ [e]) (kcs @ [kc]) \<longleftrightarrow>
     chain_trusted c certs root es kcs \<and> link_holds c certs (last (root # map subject es), e) kc \<and>
     list_all (\<lambda>k. narrower k kc) kcs"
proof -
  have "hops root (es @ [e]) = hops root es @ [(last (root # map subject es), e)]"
    by (induction es arbitrary: root) auto
  then show ?thesis unfolding chain_trusted_def by (simp only: list_all2_snoc) (auto simp: sorted_wrt_append list_all_iff)
qed

lemma narrower_trans: "narrower a b \<Longrightarrow> narrower b c \<Longrightarrow> narrower a c"
  by (auto simp: narrower_def intro: is_subset_of_trans)

lemma trusted_last:
  assumes "chain_trusted c certs root es kcs" "es \<noteq> []"
  shows "extract_key_certificate (cert (last es)) = Inr (last kcs)" "kcs \<noteq> []"
proof -
  have "length kcs = length es" by (rule trusted_length [OF assms(1)])
  then show "kcs \<noteq> []" using assms(2) by auto
  then have "chain_trusted c certs root (butlast es @ [last es]) (butlast kcs @ [last kcs])" using assms by simp
  then show "extract_key_certificate (cert (last es)) = Inr (last kcs)" unfolding trusted_snoc by (simp add: link_holds_def)
qed

text \<open>Adding a link to an accepted chain that is not full gives an accepted chain, unless the verifier's
  store holds the new certificate as revoked: the checks of \<^verbatim>\<open>add_link\<close> are those of
  \<^verbatim>\<open>is_authentic\<close>.\<close>

theorem add_link_keeps_authentic:
  assumes auth: "chain_is_authentic c keys certs cc = Inr True"
    and added: "add_link c key ct cc = Inr cc'"
    and room: "length (links cc) < 16"
    and store: "is_revoked_in_store c certs ct (subject (last (links cc))) = Inr False"
  shows "chain_is_authentic c keys certs cc' = Inr True"
proof -
  obtain root kcs where root: "find_root_key keys (root_key_id cc) = Some root"
    and trusted: "chain_trusted c certs root (links cc) kcs"
    and ne: "root_key_id cc \<noteq> []" "links cc \<noteq> []"
    using auth unfolding authentic_trusted by blast
  note l = trusted_last [OF trusted ne(2)]
  have lvl: "subject_ca_level cc = Inr (kc_ca_level (last kcs))" "subject_restrictions cc = Inr (kc_restrictions (last kcs))"
    using l(1) ne by (auto simp: subject_ca_level_def subject_restrictions_def chain_is_valid_def)
  obtain d' where link: "check_link c key ct (subject (last (links cc)))
        \<lparr>ca_level = int (kc_ca_level (last kcs)), restriction = kc_restrictions (last kcs)\<rparr> = Inr (None, d')"
    and cc': "cc' = cc\<lparr>links := links cc @ [\<lparr>subject = key, cert = ct\<rparr>]\<rparr>"
    using added ne by (auto simp: add_link_def lvl chain_subject_def chain_is_valid_def split: option.splits)
  then obtain kc where "link_holds c certs (subject (last (links cc)), \<lparr>subject = key, cert = ct\<rparr>) kc"
      and nar: "narrower (last kcs) kc"
    using store by (auto simp: check_link_ok check_link_certificate_ok check_link_data_ok link_holds_def narrower_def)
  moreover have "list_all (\<lambda>k. narrower k kc) kcs"
  proof -
    have "sorted_wrt narrower (butlast kcs @ [last kcs])" using trusted l(2) by (simp add: chain_trusted_def)
    then have "list_all (\<lambda>k. narrower k kc) (butlast kcs @ [last kcs])"
      using nar by (auto simp: sorted_wrt_append list_all_iff intro: narrower_trans)
    then show ?thesis using l(2) by simp
  qed
  ultimately have "chain_trusted c certs root (links cc') (kcs @ [kc])"
    using trusted ne by (simp add: cc' trusted_snoc last_map)
  then show ?thesis using root ne room unfolding authentic_trusted by (auto simp: cc')
qed


text \<open>What \<^verbatim>\<open>key_certificate_data\<close> is serialised to is extracted again.\<close>

abbreviation key_certificate_val :: "octets \<Rightarrow> 64 word \<Rightarrow> octets \<Rightarrow> octets \<Rightarrow> val" where
  "key_certificate_val sub lvl host meta \<equiv> V_seq [V_int 1, id_val sub, V_int lvl,
     V_seq [V_string host, V_trailing []], V_octets meta, V_trailing []]"

lemma key_certificate_val_ok:
  assumes "length sub \<le> max_structure_size" "length host \<le> max_structure_size" "length meta \<le> max_structure_size"
    "unat lvl < 2 ^ 16"
  shows "val_ok key_certificate_ty (key_certificate_val sub lvl host meta)"
proof -
  have c: "get_asn_class None = 0" by (simp add: get_asn_class_def)
  have s: "length (element 0 t False x) \<le> 20 + max_structure_size" if "length x \<le> max_structure_size" for t x
    using length_primitive [OF that, of t] that by simp
  have n: "length (element 0 t True (element 0 u False x)) \<le> 40 + max_structure_size"
    if "length x \<le> max_structure_size" for t u x
  proof -
    have "length (element 0 u False x) \<le> max_constructed_size"
      using s [OF that, of u] by (simp add: max_structure_size_def max_constructed_size_def)
    then show ?thesis using length_constructed [of "element 0 u False x" t] s [OF that, of u] by simp
  qed
  have big: "40 + max_structure_size + (40 + max_structure_size) + (20 + max_structure_size) + 58 \<le> max_constructed_size"
    by (simp add: max_structure_size_def max_constructed_size_def)
  show ?thesis
    using assms s [OF assms(1), of tag_octet_string] s [OF assms(2), of tag_t61string] s [OF assms(3), of tag_octet_string]
      n [OF assms(1), of tag_sequence tag_octet_string] n [OF assms(2), of tag_sequence tag_t61string]
      length_int_element [of tag_integer True 1 4] length_int_element [of tag_integer False lvl 2] big
    by (simp add: key_certificate_ty_def c get_tag_def)
qed

lemma key_certificate_ty_ok:
  "headed key_certificate_ty" "ty_ok key_certificate_ty" "depth key_certificate_ty \<le> max_structure_depth"
  by (simp_all add: key_certificate_ty_def max_structure_depth_def)

lemmas key_certificate_der = asn_der_ok [OF key_certificate_ty_ok(1,2) key_certificate_val_ok key_certificate_ty_ok(3)]

lemma extract_encoded:
  assumes "length sub \<le> max_structure_size" "length host \<le> max_structure_size" "length meta \<le> max_structure_size"
    "unat lvl < 2 ^ 16" "cert_type ct = key_certificate_type"
    "cert_data ct = der key_certificate_ty None (key_certificate_val sub lvl host meta)"
  shows "extract_key_certificate ct =
    Inr \<lparr>kc_subject = sub, kc_ca_level = unat lvl, kc_restrictions = host, kc_metadata = meta\<rparr>"
proof -
  have "asn_der_deserialise key_certificate_ty (cert_data ct) = Inr (key_certificate_val sub lvl host meta)"
    using key_certificate_der(2) [OF assms(1-4), of "[]"] unfolding assms(6) append_Nil2 .
  moreover have "unat (take_bit 16 lvl) = unat lvl"
    using assms(4) by (simp only: unsigned_take_bit_eq take_bit_nat_eq_self)
  ultimately show ?thesis using assms(5) unfolding extract_key_certificate_def by (simp del: take_bit_eq_mod)
qed

section \<open>A chain of two links\<close>

definition demo_crypto :: crypto where
  "demo_crypto = \<lparr>sha3_256 = (\<lambda>x. [last x]), ml_dsa_verify = (\<lambda>_ _ _ s. s \<noteq> [])\<rparr>"

definition demo_key :: "octet \<Rightarrow> octets list \<Rightarrow> public_key" where
  "demo_key i cids = \<lparr>pk_version = 2, pk_suite = Pq1, sig_pk = replicate 1952 0, kem_x_pk = replicate 32 0,
     kem_pq_pk = replicate 1183 0 @ [i], certificate_ids = cids, self_sig = \<lparr>sig_version = 2, sig_issuer = [i], sig_octets = [1]\<rparr>,
     pk_trailing = [], key_id = [i]\<rparr>"

definition demo_cert :: "octet \<Rightarrow> octet \<Rightarrow> octet \<Rightarrow> 64 word \<Rightarrow> octets \<Rightarrow> certificate" where
  "demo_cert i issuer sub lvl host = \<lparr>cert_version = 1, cert_type = key_certificate_type,
     cert_data = der key_certificate_ty None (V_seq [V_int 1, id_val [sub], V_int lvl,
       V_seq [V_string host, V_trailing []], V_octets [], V_trailing []]),
     cert_sig = \<lparr>sig_version = 2, sig_issuer = [issuer], sig_octets = [i]\<rparr>, cert_revocation = None, cert_trailing = []\<rparr>"

definition demo_keys :: key_access where
  "demo_keys = \<lparr>find_key = (\<lambda>i. if i = [2] then Some (demo_key 2 [[21]]) else None),
     find_root_key = (\<lambda>i. if i = [1] then Some (demo_key 1 []) else None)\<rparr>"

definition demo_certs :: cert_access where
  "demo_certs i = (if i = [21] then Some (demo_cert 21 1 2 5 []) else if i = [31] then Some (demo_cert 31 2 3 0 [97]) else None)"

definition demo_chain :: certificate_chain where
  "demo_chain = \<lparr>chain_version = 1, root_key_id = [1], links = [\<lparr>subject = demo_key 2 [[21]], cert = demo_cert 21 1 2 5 []\<rparr>]\<rparr>"

definition demo_link :: key_cert_pair where
  "demo_link = \<lparr>subject = demo_key 3 [[31]], cert = demo_cert 31 2 3 0 [97]\<rparr>"

lemma demo_key_valid [simp]: "pk_is_valid (demo_key i cids)"
  by (simp add: pk_is_valid_def demo_key_def parameters_def)

lemma demo_verify [simp]: "length ctx \<le> 255 \<Longrightarrow> verify demo_crypto (demo_key i cids) s d ctx = Inr (sig_octets s \<noteq> [])"
  by (simp add: verify_def verify_framed_def demo_crypto_def bindE_def)

lemma demo_key_verifies [simp]: "pk_verify_me demo_crypto (demo_key i cids) = Inr True"
proof -
  have "construct_id demo_crypto (demo_key i cids) = key_id (demo_key i cids)"
    by (simp add: construct_id_def demo_crypto_def demo_key_def element_def Let_def)
  then show ?thesis by (simp add: pk_verify_me_def bindE_def) (simp add: demo_key_def)
qed

lemma demo_cert_authentic [simp]: "cert_is_authentic demo_crypto (demo_cert i a b l h) (demo_key j cids) = Inr True"
  by (simp add: cert_is_authentic_def cert_verify_me_def bindE_def) (simp add: demo_cert_def cert_is_revoked_def)

lemma demo_cert_not_revoked [simp]: "cert_is_revoked c (demo_cert i a b l h) k = Inr False"
  by (simp add: demo_cert_def cert_is_revoked_def)

lemma demo_cert_id [simp]: "cert_id demo_crypto (demo_cert i a b l h) = [i]" "cert_issuer (demo_cert i a b l h) = [a]"
    "cert_type (demo_cert i a b l h) = key_certificate_type"
  by (auto simp: cert_id_def cert_issuer_def demo_crypto_def demo_cert_def signature_ty_def signature_val_def element_def
      Let_def)

lemma demo_extract [simp]:
  "extract_key_certificate (demo_cert 21 1 2 5 []) =
     Inr \<lparr>kc_subject = [2], kc_ca_level = 5, kc_restrictions = [], kc_metadata = []\<rparr>"
  "extract_key_certificate (demo_cert 31 2 3 0 [97]) =
     Inr \<lparr>kc_subject = [3], kc_ca_level = 0, kc_restrictions = [97], kc_metadata = []\<rparr>"
  using extract_encoded [of "[2]" "[]" "[]" 5 "demo_cert 21 1 2 5 []"] extract_encoded [of "[3]" "[97]" "[]" 0 "demo_cert 31 2 3 0 [97]"]
  by (simp_all add: demo_cert_def max_structure_size_def)

lemma demo_key_fields [simp]: "key_id (demo_key i cids) = [i]" "certificate_ids (demo_key i cids) = cids"
  by (simp_all add: demo_key_def)

lemma demo_not_revoked [simp]: "is_revoked_in_store demo_crypto demo_certs (demo_cert i a b l h) k = Inr False"
  by (simp add: is_revoked_in_store_def demo_certs_def)

lemma demo_chain_authentic: "chain_is_authentic demo_crypto demo_keys demo_certs demo_chain = Inr True"
  by (simp add: chain_is_authentic_def chain_is_valid_def max_chain_length_def demo_keys_def demo_chain_def
      check_chain_element_def check_link_def check_link_certificate_def check_link_data_def bindE_def
      references_certificate_def)

lemma demo_link_added: "add_link demo_crypto (subject demo_link) (cert demo_link) demo_chain =
    Inr (demo_chain\<lparr>links := links demo_chain @ [demo_link]\<rparr>)"
  by (simp add: add_link_def chain_subject_def subject_ca_level_def subject_restrictions_def chain_is_valid_def
      demo_chain_def demo_link_def check_link_def check_link_certificate_def check_link_data_def bindE_def
      references_certificate_def)

theorem add_link_keeps_authentic_witness:
  "chain_is_authentic demo_crypto demo_keys demo_certs (demo_chain\<lparr>links := links demo_chain @ [demo_link]\<rparr>) = Inr True"
  by (rule add_link_keeps_authentic [OF demo_chain_authentic demo_link_added]) (simp_all add: demo_chain_def demo_link_def)


section \<open>The chain builder\<close>

lemma try_complete_ok:
  "try_complete c keys certs ct list = Inr (Some cc) \<longleftrightarrow>
     cc = \<lparr>chain_version = 1, root_key_id = cert_issuer ct, links = rev list\<rparr> \<and> chain_is_authentic c keys certs cc = Inr True"
  by (auto simp: try_complete_def Let_def split: if_splits)

text \<open>What the builder does with one suitable certificate, and which certificates are suitable.\<close>

definition follow_certificate ::
    "crypto \<Rightarrow> key_access \<Rightarrow> cert_access \<Rightarrow> public_key \<Rightarrow> key_cert_pair list \<Rightarrow> certificate \<Rightarrow> key_certificate_data \<Rightarrow>
     crypto_error + certificate_chain option" where
  "follow_certificate c keys certs sub list ct kc =
     (if find_root_key keys (cert_issuer ct) \<noteq> None
      then try_complete c keys certs ct (list @ [\<lparr>subject = sub, cert = ct\<rparr>])
      else case find_key keys (cert_issuer ct) of
             None \<Rightarrow> Inr None
           | Some key \<Rightarrow> build_list c keys certs key (Some (kc_ca_level kc))
               (list @ [\<lparr>subject = sub, cert = ct\<rparr>]) (certificate_ids key))"

definition suitable :: "cert_access \<Rightarrow> nat option \<Rightarrow> octets \<Rightarrow> certificate \<Rightarrow> key_certificate_data \<Rightarrow> bool" where
  "suitable certs l cid ct kc \<longleftrightarrow> certs cid = Some ct \<and> cert_type ct = key_certificate_type \<and>
     extract_key_certificate ct = Inr kc \<and> (case l of None \<Rightarrow> True | Some n \<Rightarrow> n < kc_ca_level kc)"

lemma build_list_Cons:
  "build_list c keys certs sub l list (cid # cids) =
     (case certs cid of
        None \<Rightarrow> build_list c keys certs sub l list cids
      | Some ct \<Rightarrow>
          if cert_type ct \<noteq> key_certificate_type then build_list c keys certs sub l list cids
          else case extract_key_certificate ct of
                 Inl e \<Rightarrow> Inl e
               | Inr kc \<Rightarrow>
                   if \<not> (case l of None \<Rightarrow> True | Some n \<Rightarrow> n < kc_ca_level kc)
                   then build_list c keys certs sub l list cids
                   else case follow_certificate c keys certs sub list ct kc of
                          Inl e \<Rightarrow> Inl e
                        | Inr (Some cc) \<Rightarrow> Inr (Some cc)
                        | Inr None \<Rightarrow> build_list c keys certs sub l list cids)"
  unfolding follow_certificate_def by simp

lemma build_list_found:
  "build_list c keys certs sub l list (cid # cids) = Inr (Some cc) \<Longrightarrow>
     build_list c keys certs sub l list cids = Inr (Some cc) \<or>
     (\<exists>ct kc. suitable certs l cid ct kc \<and> follow_certificate c keys certs sub list ct kc = Inr (Some cc))"
  unfolding build_list_Cons suitable_def by (auto split: option.splits if_splits sum.splits)

lemma build_list_nothing:
  "build_list c keys certs sub l list ids = Inr None \<Longrightarrow> cid \<in> set ids \<Longrightarrow> suitable certs l cid ct kc \<Longrightarrow>
     follow_certificate c keys certs sub list ct kc = Inr None"
proof (induction ids)
  case (Cons i ids)
  then show ?case
    unfolding build_list_Cons by (cases "cid = i") (auto simp: suitable_def split: option.splits if_splits sum.splits)
qed simp

lemma suitable_level: "suitable certs l cid ct kc \<Longrightarrow> level_left (Some (kc_ca_level kc)) < level_left l"
  by (auto simp: suitable_def level_left_def dest!: extract_ca_level split: option.splits)

lemma build_list_sound:
  "build_list c keys certs sub l list ids = Inr (Some cc) \<Longrightarrow>
     chain_is_authentic c keys certs cc = Inr True \<and>
     subject (last (links cc)) = (case list of [] \<Rightarrow> sub | e # _ \<Rightarrow> subject e)"
proof (induction "level_left l" arbitrary: sub l list ids rule: less_induct)
  case less
  from less.prems show ?case
  proof (induction ids)
    case (Cons cid cids)
    from build_list_found [OF Cons.prems] show ?case
    proof (elim disjE exE conjE)
      fix ct kc
      assume a: "suitable certs l cid ct kc" "follow_certificate c keys certs sub list ct kc = Inr (Some cc)"
      show ?thesis
      proof (cases "find_root_key keys (cert_issuer ct)")
        case None
        then obtain key where "build_list c keys certs key (Some (kc_ca_level kc))
            (list @ [\<lparr>subject = sub, cert = ct\<rparr>]) (certificate_ids key) = Inr (Some cc)"
          using a(2) by (auto simp: follow_certificate_def split: option.splits)
        from less.hyps [OF suitable_level [OF a(1)] this] show ?thesis by (auto split: list.splits)
      next
        case (Some root)
        then show ?thesis using a(2) by (auto simp: follow_certificate_def try_complete_ok split: list.splits)
      qed
    qed (rule Cons.IH)
  qed simp
qed

text \<open>Whatever chain the builder returns is accepted by \<^verbatim>\<open>is_authentic\<close> with the same stores, and it is
  a chain for the key it was asked for.\<close>

theorem create_certificate_chain_sound:
  assumes "create_certificate_chain c keys certs sub = Inr (Some cc)"
  shows "chain_is_authentic c keys certs cc = Inr True \<and> chain_subject cc = Inr sub"
proof -
  have "chain_is_authentic c keys certs cc = Inr True" "subject (last (links cc)) = sub"
    using build_list_sound assms by (fastforce simp: create_certificate_chain_def)+
  moreover have "chain_is_valid cc"
    using calculation(1) by (simp add: chain_is_authentic_def split: if_splits)
  ultimately show ?thesis by (simp add: chain_subject_def)
qed


lemma trusted_nth:
  assumes "chain_trusted c certs root es kcs" "i < length es"
  shows "link_holds c certs ((root # map subject es) ! i, es ! i) (kcs ! i)"
proof -
  have "link_holds c certs (hops root es ! i) (kcs ! i)"
    using assms by (auto simp: chain_trusted_def dest: list_all2_nthD)
  moreover have "hops root es ! i = ((root # map subject es) ! i, es ! i)"
    using assms(2) by (subst nth_zip) auto
  ultimately show ?thesis by simp
qed

lemma trusted_levels_fall:
  assumes "chain_trusted c certs root es kcs" "i < j" "j < length es"
  shows "kc_ca_level (kcs ! j) < kc_ca_level (kcs ! i)"
  using assms trusted_length [OF assms(1)]
  by (auto simp: chain_trusted_def narrower_def sorted_wrt_iff_nth_less)

lemma trusted_at:
  assumes "chain_trusted c certs root (up @ e # down) kcs"
  shows "\<exists>kc. link_holds c certs (last (root # map subject up), e) kc \<and>
    (\<forall>d ds. down = d # ds \<longrightarrow> (\<exists>kc'. extract_key_certificate (cert d) = Inr kc' \<and> kc_ca_level kc' < kc_ca_level kc))"
proof (intro exI conjI allI impI)
  have "(root # map subject (up @ e # down)) ! length up = last (root # map subject up)"
    by (induction up arbitrary: root) auto
  then show "link_holds c certs (last (root # map subject up), e) (kcs ! length up)"
    using trusted_nth [OF assms, of "length up"] by (simp add: nth_append)
next
  fix d ds assume d: "down = d # ds"
  then have "link_holds c certs ((root # map subject (up @ e # down)) ! Suc (length up), d) (kcs ! Suc (length up))"
    using trusted_nth [OF assms, of "Suc (length up)"] by (simp add: nth_append)
  then show "extract_key_certificate (cert d) = Inr (kcs ! Suc (length up))" by (simp add: link_holds_def)
  show "kc_ca_level (kcs ! Suc (length up)) < kc_ca_level (kcs ! length up)"
    using trusted_levels_fall [OF assms, of "length up" "Suc (length up)"] d by simp
qed

text \<open>The stores know what the chain is made of: all its certificates, and its intermediate keys, none of
  which is a root key itself.\<close>

definition chain_in_stores :: "crypto \<Rightarrow> key_access \<Rightarrow> cert_access \<Rightarrow> certificate_chain \<Rightarrow> bool" where
  "chain_in_stores c keys certs cc \<longleftrightarrow>
     list_all (\<lambda>e. certs (cert_id c (cert e)) = Some (cert e)) (links cc) \<and>
     list_all (\<lambda>e. find_key keys (key_id (subject e)) = Some (subject e) \<and>
       find_root_key keys (key_id (subject e)) = None) (butlast (links cc)) \<and>
     map_option key_id (find_root_key keys (root_key_id cc)) = Some (root_key_id cc)"

lemma demo_chain2_authentic:
  "chain_is_authentic demo_crypto demo_keys demo_certs (demo_chain\<lparr>links := links demo_chain @ [demo_link]\<rparr>) = Inr True"
  by (simp add: chain_is_authentic_def chain_is_valid_def max_chain_length_def demo_keys_def demo_chain_def demo_link_def
      check_chain_element_def check_link_def check_link_certificate_def check_link_data_def bindE_def
      references_certificate_def)

abbreviation level_of :: "nat option \<Rightarrow> key_cert_pair list \<Rightarrow> bool" where
  "level_of l list \<equiv> l \<noteq> None \<longrightarrow> list \<noteq> [] \<and>
     (\<exists>kc. extract_key_certificate (cert (last list)) = Inr kc \<and> l = Some (kc_ca_level kc))"

lemma chain_suitable:
  assumes "chain_trusted c certs root (links cc) kcs" "chain_in_stores c keys certs cc"
    "links cc = up @ e # rev list" "level_of l list"
  shows "\<exists>kc. link_holds c certs (last (root # map subject up), e) kc \<and>
    suitable certs l (cert_id c (cert e)) (cert e) kc \<and> cert_id c (cert e) \<in> set (certificate_ids (subject e))"
proof -
  obtain kc where kc: "link_holds c certs (last (root # map subject up), e) kc"
    "\<And>d ds. rev list = d # ds \<Longrightarrow> \<exists>kc'. extract_key_certificate (cert d) = Inr kc' \<and> kc_ca_level kc' < kc_ca_level kc"
    using trusted_at [of c certs root up e "rev list" kcs] assms(1,3) by auto
  have "n < kc_ca_level kc" if "l = Some n" for n
  proof -
    from that assms(4) obtain k where k: "list \<noteq> []" "extract_key_certificate (cert (last list)) = Inr k" "n = kc_ca_level k"
      by auto
    then have "rev list = last list # rev (butlast list)" by (metis append_butlast_last_id rev.simps(2) rev_rev_ident rev_append append.simps(1,2) rev_singleton_conv)
    from kc(2) [OF this] k show ?thesis by simp
  qed
  moreover have "certs (cert_id c (cert e)) = Some (cert e)"
    using assms(2,3) by (simp add: chain_in_stores_def)
  ultimately show ?thesis using kc(1)
    by (auto simp: suitable_def link_holds_def references_certificate_def split: option.splits dest: extracted_type)
qed

lemma build_list_complete:
  assumes auth: "chain_is_authentic c keys certs cc = Inr True" and stores: "chain_in_stores c keys certs cc"
  shows "links cc = up @ e # rev list \<Longrightarrow> level_of l list \<Longrightarrow>
    build_list c keys certs (subject e) l list (certificate_ids (subject e)) \<noteq> Inr None"
proof (induction up arbitrary: e list l rule: rev_induct)
  case (Nil e list l)
  obtain root kcs where r: "find_root_key keys (root_key_id cc) = Some root"
    and t: "chain_trusted c certs root (links cc) kcs" using auth unfolding authentic_trusted by blast
  obtain kc where kc: "link_holds c certs (root, e) kc" "suitable certs l (cert_id c (cert e)) (cert e) kc"
      "cert_id c (cert e) \<in> set (certificate_ids (subject e))"
    using chain_suitable [OF t stores Nil] by auto
  have issuer: "cert_issuer (cert e) = root_key_id cc"
    using kc(1) r stores by (simp add: link_holds_def chain_in_stores_def)
  have "cc\<lparr>chain_version := 1\<rparr> = \<lparr>chain_version = 1, root_key_id = cert_issuer (cert e), links = rev (list @ [e])\<rparr>"
    using Nil(1) issuer by (cases cc) simp
  moreover have "chain_is_authentic c keys certs (cc\<lparr>chain_version := 1\<rparr>) = Inr True"
    using auth unfolding authentic_trusted by simp
  ultimately have "follow_certificate c keys certs (subject e) list (cert e) kc = Inr (Some (cc\<lparr>chain_version := 1\<rparr>))"
    using r issuer by (cases e) (auto simp: follow_certificate_def try_complete_ok)
  then show ?case using build_list_nothing [OF _ kc(3,2)] by fastforce
next
  case (snoc y up e list l)
  obtain root kcs where t: "chain_trusted c certs root (links cc) kcs" using auth unfolding authentic_trusted by blast
  obtain kc where kc: "link_holds c certs (subject y, e) kc" "suitable certs l (cert_id c (cert e)) (cert e) kc"
      "cert_id c (cert e) \<in> set (certificate_ids (subject e))"
    using chain_suitable [OF t stores snoc(2,3)] by auto
  have y: "find_key keys (cert_issuer (cert e)) = Some (subject y)" "find_root_key keys (cert_issuer (cert e)) = None"
    using kc(1) stores snoc(2) by (auto simp: link_holds_def chain_in_stores_def butlast_append list_all_iff)
  have "build_list c keys certs (subject y) (Some (kc_ca_level kc)) (list @ [e]) (certificate_ids (subject y)) \<noteq> Inr None"
    using snoc(2) kc(2) by (intro snoc(1)) (simp_all add: suitable_def)
  then have "follow_certificate c keys certs (subject e) list (cert e) kc \<noteq> Inr None"
    using y by (cases e) (simp add: follow_certificate_def)
  then show ?case using build_list_nothing [OF _ kc(3,2)] by blast
qed

text \<open>Verification with the fixed contexts does not throw, so that only a key certificate whose data cannot be
  extracted makes the check of a chain, or the builder, throw.\<close>

definition well_formed :: "certificate \<Rightarrow> bool" where
  "well_formed ct \<longleftrightarrow> cert_type ct = key_certificate_type \<longrightarrow> (\<exists>kc. extract_key_certificate ct = Inr kc)"

lemma bindE_returns: "\<not> isl (bindE r f) \<longleftrightarrow> \<not> isl r \<and> (\<forall>x. r = Inr x \<longrightarrow> \<not> isl (f x))"
  by (cases r) auto

lemma verify_returns: "length ctx \<le> 255 \<Longrightarrow> \<not> isl (verify c k s d ctx)"
  by (simp add: verify_def frame_message_def)

lemma cert_verify_returns: "\<not> isl (cert_verify_me c ct k)"
  by (simp add: cert_verify_me_def verify_returns)

lemma cert_is_revoked_returns: "\<not> isl (cert_is_revoked c ct k)"
  by (simp add: cert_is_revoked_def rev_verify_me_def verify_returns split: option.splits)

lemma cert_is_authentic_returns: "\<not> isl (cert_is_authentic c ct k)"
  by (simp add: cert_is_authentic_def bindE_returns cert_verify_returns cert_is_revoked_returns)

lemma pk_verify_me_returns: "\<not> isl (pk_verify_me c k)"
  by (simp add: pk_verify_me_def bindE_returns verify_returns)

lemma check_link_certificate_returns: "\<not> isl (check_link_certificate c key ct p)"
  by (simp add: check_link_certificate_def bindE_returns cert_is_authentic_returns pk_verify_me_returns)

lemma check_link_certificate_key: "check_link_certificate c key ct p = Inr None \<Longrightarrow> cert_type ct = key_certificate_type"
  by (auto simp: check_link_certificate_def split: if_splits)

lemma check_link_returns:
  assumes "well_formed ct"
  shows "\<not> isl (check_link c key ct p d)"
proof -
  have "\<not> isl (extract_key_certificate ct)" if "check_link_certificate c key ct p = Inr None"
    using assms check_link_certificate_key [OF that] by (auto simp: well_formed_def)
  then show ?thesis by (simp add: check_link_def bindE_returns check_link_certificate_returns)
qed

lemma check_chain_element_returns: "well_formed (cert e) \<Longrightarrow> \<not> isl (check_chain_element c certs e ver)"
  by (simp add: check_chain_element_def bindE_returns check_link_returns is_revoked_in_store_def cert_is_revoked_returns
      split: prod.splits option.splits)

lemma check_elements_returns:
  "list_all (\<lambda>e. well_formed (cert e)) es \<Longrightarrow> \<not> isl (check_elements c certs es ver)"
  by (induction es arbitrary: ver) (simp_all add: bindE_returns check_chain_element_returns split: prod.splits)

lemma chain_check_returns:
  "list_all (\<lambda>e. well_formed (cert e)) (links cc) \<Longrightarrow> \<not> isl (chain_is_authentic c keys certs cc)"
  by (simp add: chain_is_authentic_def check_elements_returns split: option.splits)

lemma try_complete_returns:
  "list_all (\<lambda>e. well_formed (cert e)) list \<Longrightarrow> \<not> isl (try_complete c keys certs ct list)"
  by (simp add: try_complete_def bindE_returns chain_check_returns Let_def)

lemma build_list_returns:
  assumes store: "\<And>cid ct. certs cid = Some ct \<Longrightarrow> well_formed ct"
  shows "list_all (\<lambda>e. well_formed (cert e)) list \<Longrightarrow> \<not> isl (build_list c keys certs sub l list ids)"
proof (induction "level_left l" arbitrary: sub l list ids rule: less_induct)
  case less
  have f: "\<not> isl (follow_certificate c keys certs sub list ct kc)" if s: "suitable certs l cid ct kc" for cid ct kc
  proof -
    have "list_all (\<lambda>e. well_formed (cert e)) (list @ [\<lparr>subject = sub, cert = ct\<rparr>])"
      using less.prems s store [of cid ct] by (simp add: suitable_def)
    then show ?thesis using less.hyps [OF suitable_level [OF s]]
      by (simp add: follow_certificate_def try_complete_returns split: option.splits)
  qed
  show ?case
  proof (induction ids)
    case (Cons cid cids)
    show ?case
    proof (cases "certs cid")
      case (Some ct)
      have "\<not> isl (extract_key_certificate ct)" if "cert_type ct = key_certificate_type"
        using store [OF Some] that by (auto simp: well_formed_def)
      then show ?thesis using Cons Some f [of cid ct] unfolding build_list_Cons suitable_def
        by (auto split: sum.splits option.splits)
    qed (use Cons in \<open>simp add: build_list_Cons\<close>)
  qed simp
qed


text \<open>One such certificate is enough, when it is referenced first, however good the others are.\<close>

lemma malformed_certificate_stops_builder:
  assumes "certificate_ids sub = cid # cids" "certs cid = Some ct" "cert_type ct = key_certificate_type"
    "extract_key_certificate ct = Inl e"
  shows "create_certificate_chain c keys certs sub = Inl e"
  using assms by (simp add: create_certificate_chain_def)

text \<open>C16: The builder misses no chain: when an accepted chain for a key exists whose certificates and intermediate
  keys are in the stores, and the data of every key certificate in the store can be extracted, the builder returns
  a chain, which is accepted by \<^verbatim>\<open>is_authentic\<close> and is a chain for that key.\<close>

theorem create_certificate_chain_complete:
  assumes "chain_is_authentic c keys certs cc = Inr True" "chain_in_stores c keys certs cc" "chain_subject cc = Inr sub"
    "\<And>cid ct. certs cid = Some ct \<Longrightarrow> well_formed ct"
  shows "\<exists>found. create_certificate_chain c keys certs sub = Inr (Some found) \<and>
    chain_is_authentic c keys certs found = Inr True \<and> chain_subject found = Inr sub"
proof -
  have "links cc \<noteq> []" using assms(1) unfolding authentic_trusted by blast
  moreover have "subject (last (links cc)) = sub" using assms(3) by (simp add: chain_subject_def split: if_splits)
  ultimately have "create_certificate_chain c keys certs sub \<noteq> Inr None"
    using build_list_complete [OF assms(1,2), of "butlast (links cc)" "last (links cc)" "[]" None]
    by (simp add: create_certificate_chain_def)
  moreover have "\<not> isl (create_certificate_chain c keys certs sub)"
    using build_list_returns [of certs "[]"] assms(4) by (simp add: create_certificate_chain_def)
  ultimately obtain found where "create_certificate_chain c keys certs sub = Inr (Some found)"
    by (cases "create_certificate_chain c keys certs sub") auto
  then show ?thesis using create_certificate_chain_sound by blast
qed

lemma demo_chain_found: "create_certificate_chain demo_crypto demo_keys demo_certs (subject demo_link) =
    Inr (Some (demo_chain\<lparr>links := links demo_chain @ [demo_link]\<rparr>))"
  using demo_chain2_authentic
  by (simp add: create_certificate_chain_def demo_link_def demo_certs_def demo_keys_def try_complete_def bindE_def demo_chain_def)

theorem create_certificate_chain_sound_witness:
  "chain_subject (demo_chain\<lparr>links := links demo_chain @ [demo_link]\<rparr>) = Inr (subject demo_link)"
  using create_certificate_chain_sound [OF demo_chain_found] by blast

lemma demo_certs_well_formed: "demo_certs cid = Some ct \<Longrightarrow> well_formed ct"
  by (auto simp: demo_certs_def well_formed_def split: if_splits)

theorem create_certificate_chain_complete_witness:
  "\<exists>found. create_certificate_chain demo_crypto demo_keys demo_certs (subject demo_link) = Inr (Some found) \<and>
    chain_is_authentic demo_crypto demo_keys demo_certs found = Inr True \<and> chain_subject found = Inr (subject demo_link)"
proof -
  let ?cc = "demo_chain\<lparr>links := links demo_chain @ [demo_link]\<rparr>"
  have "chain_in_stores demo_crypto demo_keys demo_certs ?cc"
    by (simp add: chain_in_stores_def demo_chain_def demo_link_def demo_keys_def demo_certs_def)
  moreover have "chain_subject ?cc = Inr (subject demo_link)"
    by (simp add: chain_subject_def chain_is_valid_def demo_chain_def)
  ultimately show ?thesis
    using create_certificate_chain_complete [OF demo_chain2_authentic] demo_certs_well_formed by blast
qed


end
