(* ===== verification/Private_Keys.thy ===== *)
theory Private_Keys
  imports Aes_Gcm Certificates
begin

text \<open>
  Private keys and what they do: key pairs (\<^verbatim>\<open>detail/private_key_impl.cpp\<close>, \<^verbatim>\<open>key_generation.cpp\<close>),
  signing keys, certificates and revocations, the hybrid key encapsulation
  (\<^verbatim>\<open>detail/hybrid_kem.cpp\<close>) and encryption to a public key (\<^verbatim>\<open>public_key.cpp\<close>,
  \<^verbatim>\<open>private_key.cpp\<close>, \<^verbatim>\<open>encrypted_key.cpp\<close>). The key agreement, ML-KEM, ML-DSA and HKDF of Botan are the
  parameter \<open>pk_prims\<close>; where they throw, they give \<open>None\<close>. Random values are arguments.
\<close>

section \<open>Primitives\<close>

record pk_prims =
  x_public :: "bool \<Rightarrow> octets \<Rightarrow> octets"
  x_derive :: "bool \<Rightarrow> octets \<Rightarrow> octets \<Rightarrow> octets option"
  ml_kem_public :: "suite \<Rightarrow> octets \<Rightarrow> octets"
  ml_kem_encrypt :: "suite \<Rightarrow> octets \<Rightarrow> octets \<Rightarrow> (octets \<times> octets) option"
  ml_kem_decrypt :: "suite \<Rightarrow> octets \<Rightarrow> octets \<Rightarrow> octets option"
  ml_dsa_public :: "suite \<Rightarrow> octets \<Rightarrow> octets"
  ml_dsa_sign :: "suite \<Rightarrow> octets \<Rightarrow> octets \<Rightarrow> octets \<Rightarrow> octets"
  hkdf_sha3_256 :: "octets \<Rightarrow> string \<Rightarrow> octets"

text \<open>What is documented of them: Diffie-Hellman, decapsulation after encapsulation, verification after
  signing, and the sizes of the suites.\<close>

definition prims_ok :: "crypto \<Rightarrow> aes \<Rightarrow> pk_prims \<Rightarrow> bool" where
  "prims_ok c a p \<longleftrightarrow>
     (\<forall>f k e. x_derive p f k (x_public p f e) = x_derive p f e (x_public p f k)) \<and>
     (\<forall>f k. length (x_public p f k) = (if f then 56 else 32)) \<and>
     (\<forall>s k. length (ml_kem_public p s k) = kem_public_size (parameters s)) \<and>
     (\<forall>s k r ct ss. ml_kem_encrypt p s (ml_kem_public p s k) r = Some (ct, ss) \<longrightarrow>
        ml_kem_decrypt p s k ct = Some ss \<and> length ct = kem_ciphertext_size (parameters s)) \<and>
     (\<forall>s k. length (ml_dsa_public p s k) = sig_public_size (parameters s)) \<and>
     (\<forall>s k m r. length (ml_dsa_sign p s k m r) = signature_size (parameters s) \<and> ml_dsa_verify c s (ml_dsa_public p s k) m (ml_dsa_sign p s k m r)) \<and>
     (\<forall>k n ad m. length (gcm_seal a k n ad m) = length m + 16 \<and> gcm_open a k n ad (gcm_seal a k n ad m) = Some m)"

section \<open>Hybrid key encapsulation\<close>

record kem_public_key =
  kpub_suite :: suite
  kpub_x :: octets
  kpub_pq :: octets

record kem_private_key =
  kpriv_suite :: suite
  kpriv_x :: octets
  kpriv_seed :: octets

record kem_encapsulation =
  enc_ct_x :: octets
  enc_ct_pq :: octets
  enc_key :: octets

definition suite_name :: "suite \<Rightarrow> string" where
  "suite_name s = (case s of Pq1 \<Rightarrow> ''pq1'' | Pq1_high \<Rightarrow> ''pq1_high'')"

definition combine_shared_secrets :: "pk_prims \<Rightarrow> suite \<Rightarrow> octets \<Rightarrow> octets \<Rightarrow> octets \<Rightarrow> octets \<Rightarrow> octets" where
  "combine_shared_secrets p s ss_pq ss_x ct_x pk_x =
     hkdf_sha3_256 p (ss_pq @ ss_x @ ct_x @ pk_x) (''securepath-kem-v1/'' @ suite_name s)"

definition check_public_sizes :: "kem_public_key \<Rightarrow> crypto_error + unit" where
  "check_public_sizes pk =
     (let q = parameters (kpub_suite pk)
      in if length (kpub_x pk) \<noteq> x_key_size q \<or> length (kpub_pq pk) \<noteq> kem_public_size q
         then Inl (Invalid_key ''kem public key does not match the suite'') else Inr ())"

definition check_private_sizes :: "kem_private_key \<Rightarrow> crypto_error + unit" where
  "check_private_sizes sk =
     (let q = parameters (kpriv_suite sk)
      in if length (kpriv_x sk) \<noteq> x_key_size q \<or> length (kpriv_seed sk) \<noteq> kem_seed_size q
         then Inl (Invalid_key ''kem private key does not match the suite'') else Inr ())"

definition kem_public_part :: "pk_prims \<Rightarrow> kem_private_key \<Rightarrow> crypto_error + kem_public_key" where
  "kem_public_part p sk =
     bindE (check_private_sizes sk) (\<lambda>_.
       Inr \<lparr>kpub_suite = kpriv_suite sk, kpub_x = x_public p (x448 (parameters (kpriv_suite sk))) (kpriv_x sk),
            kpub_pq = ml_kem_public p (kpriv_suite sk) (kpriv_seed sk)\<rparr>)"

text \<open>\<open>eph\<close> is the ephemeral private key, \<open>r\<close> the randomness of ML-KEM.\<close>

definition kem_encapsulate :: "pk_prims \<Rightarrow> octets \<Rightarrow> octets \<Rightarrow> kem_public_key \<Rightarrow> crypto_error + kem_encapsulation" where
  "kem_encapsulate p eph r pk =
     (let s = kpub_suite pk; f = x448 (parameters s); failed = Inl (Invalid_key ''kem encapsulation failed: '')
      in bindE (check_public_sizes pk) (\<lambda>_.
           case x_derive p f eph (kpub_x pk) of
             None \<Rightarrow> failed
           | Some ss_x \<Rightarrow>
               (case ml_kem_encrypt p s (kpub_pq pk) r of
                  None \<Rightarrow> failed
                | Some (ct_pq, ss_pq) \<Rightarrow>
                    let ct_x = x_public p f eph
                    in Inr \<lparr>enc_ct_x = ct_x, enc_ct_pq = ct_pq,
                            enc_key = combine_shared_secrets p s ss_pq ss_x ct_x (kpub_x pk)\<rparr>)))"

definition kem_decapsulate :: "pk_prims \<Rightarrow> kem_private_key \<Rightarrow> octets \<Rightarrow> octets \<Rightarrow> crypto_error + octets" where
  "kem_decapsulate p sk ct_x ct_pq =
     (let s = kpriv_suite sk; q = parameters s; f = x448 q; failed = Inl (Bad_ciphertext ''kem decapsulation failed: '')
      in bindE (check_private_sizes sk) (\<lambda>_.
           if length ct_x \<noteq> x_key_size q \<or> length ct_pq \<noteq> kem_ciphertext_size q
           then Inl (Bad_ciphertext ''kem ciphertext does not match the suite'')
           else case x_derive p f (kpriv_x sk) ct_x of
                  None \<Rightarrow> failed
                | Some ss_x \<Rightarrow>
                    (case ml_kem_decrypt p s (kpriv_seed sk) ct_pq of
                       None \<Rightarrow> failed
                     | Some ss_pq \<Rightarrow>
                         Inr (combine_shared_secrets p s ss_pq ss_x ct_x (x_public p f (kpriv_x sk))))))"

section \<open>Private keys\<close>

record private_key =
  sk_version :: "64 word"
  sk_suite :: suite
  sk_public :: public_key
  sig_seed :: octets
  kem_x_sk :: octets
  kem_pq_seed :: octets
  metadata :: "octets \<rightharpoonup> octets"
  sk_trailing :: octets

definition sk_is_valid :: "private_key \<Rightarrow> bool" where
  "sk_is_valid k \<longleftrightarrow>
     (let q = parameters (sk_suite k)
      in length (sig_seed k) = sig_seed_size q \<and> length (kem_x_sk k) = x_key_size q \<and>
         length (kem_pq_seed k) = kem_seed_size q \<and> pk_is_valid (sk_public k) \<and> pk_suite (sk_public k) = sk_suite k)"

definition no_signature :: signature where
  "no_signature = \<lparr>sig_version = 2, sig_issuer = [], sig_octets = []\<rparr>"

definition make_public_key_impl :: "crypto \<Rightarrow> suite \<Rightarrow> octets \<Rightarrow> octets \<Rightarrow> octets \<Rightarrow> public_key" where
  "make_public_key_impl c s sig x pq =
     (let k = \<lparr>pk_version = 2, pk_suite = s, sig_pk = sig, kem_x_pk = x, kem_pq_pk = pq, certificate_ids = [],
               self_sig = no_signature, pk_trailing = [], key_id = []\<rparr>
      in k\<lparr>key_id := construct_id c k\<rparr>)"

definition make_public_key :: "crypto \<Rightarrow> pk_prims \<Rightarrow> suite \<Rightarrow> octets \<Rightarrow> kem_private_key \<Rightarrow> crypto_error + public_key" where
  "make_public_key c p s seed kem =
     (if length seed \<noteq> sig_seed_size (parameters s) then Inl (Invalid_key ''signing key seed does not match the suite'')
      else bindE (kem_public_part p kem) (\<lambda>kem_pk.
             Inr (make_public_key_impl c s (ml_dsa_public p s seed) (kpub_x kem_pk) (kpub_pq kem_pk))))"

definition make_private_key_impl :: "crypto \<Rightarrow> pk_prims \<Rightarrow> suite \<Rightarrow> octets \<Rightarrow> kem_private_key \<Rightarrow> crypto_error + private_key" where
  "make_private_key_impl c p s seed kem =
     bindE (make_public_key c p s seed kem) (\<lambda>pk.
       Inr \<lparr>sk_version = 2, sk_suite = s, sk_public = pk, sig_seed = seed, kem_x_sk = kpriv_x kem,
            kem_pq_seed = kpriv_seed kem, metadata = Map.empty, sk_trailing = []\<rparr>)"

definition sign_framed :: "pk_prims \<Rightarrow> octets \<Rightarrow> private_key \<Rightarrow> octets \<Rightarrow> crypto_error + octets" where
  "sign_framed p r k framed =
     (if \<not> sk_is_valid k then Inl (Invalid_key ''cannot sign with an empty private key'')
      else Inr (ml_dsa_sign p (sk_suite k) (sig_seed k) framed r))"

definition sk_sign :: "pk_prims \<Rightarrow> octets \<Rightarrow> private_key \<Rightarrow> octets \<Rightarrow> string \<Rightarrow> crypto_error + signature" where
  "sk_sign p r k d ctx =
     bindE (frame_message ctx d) (\<lambda>framed. bindE (sign_framed p r k framed) (\<lambda>s.
       Inr \<lparr>sig_version = 2, sig_issuer = key_id (sk_public k), sig_octets = s\<rparr>))"

definition pk_sign_me :: "pk_prims \<Rightarrow> octets \<Rightarrow> private_key \<Rightarrow> public_key \<Rightarrow> crypto_error + public_key" where
  "pk_sign_me p r k pk =
     bindE (sk_sign p r k (signature_content pk) self_signature_context) (\<lambda>s. Inr (pk\<lparr>self_sig := s\<rparr>))"

text \<open>The constructor of \<^verbatim>\<open>private_key\<close> signs its own public key.\<close>

definition make_private_key :: "pk_prims \<Rightarrow> octets \<Rightarrow> private_key \<Rightarrow> crypto_error + private_key" where
  "make_private_key p r k = bindE (pk_sign_me p r k (sk_public k)) (\<lambda>pk. Inr (k\<lparr>sk_public := pk\<rparr>))"

text \<open>\<^verbatim>\<open>generate_private_key\<close> with the random seeds as arguments.\<close>

definition generate_private_key ::
    "crypto \<Rightarrow> pk_prims \<Rightarrow> octets \<Rightarrow> suite \<Rightarrow> octets \<Rightarrow> octets \<Rightarrow> octets \<Rightarrow> crypto_error + private_key" where
  "generate_private_key c p r s seed x pq =
     bindE (make_private_key_impl c p s seed \<lparr>kpriv_suite = s, kpriv_x = x, kpriv_seed = pq\<rparr>) (make_private_key p r)"

definition set_public_key :: "pk_prims \<Rightarrow> octets \<Rightarrow> public_key \<Rightarrow> private_key \<Rightarrow> crypto_error + private_key" where
  "set_public_key p r pk k =
     (if key_id pk \<noteq> key_id (sk_public k)
      then Inl (Invalid_key ''invalid public key, id does not match with the private key'')
      else bindE (pk_sign_me p r k pk) (\<lambda>pk. Inr (k\<lparr>sk_public := pk\<rparr>)))"

definition set_metadata :: "octets \<Rightarrow> octets \<Rightarrow> private_key \<Rightarrow> private_key" where
  "set_metadata key d k = k\<lparr>metadata := (metadata k)(key := if d = [] then None else Some d)\<rparr>"

definition get_metadata :: "octets \<Rightarrow> private_key \<Rightarrow> octets" where
  "get_metadata key k = (case metadata k key of None \<Rightarrow> [] | Some d \<Rightarrow> d)"

section \<open>Issuing and revoking certificates\<close>

definition cert_sign_me :: "pk_prims \<Rightarrow> octets \<Rightarrow> private_key \<Rightarrow> certificate \<Rightarrow> crypto_error + certificate" where
  "cert_sign_me p r k ct =
     bindE (sk_sign p r k (cert_make_sig_data ct) certificate_context) (\<lambda>s. Inr (ct\<lparr>cert_sig := s\<rparr>))"

definition make_certificate :: "64 word \<Rightarrow> octets \<Rightarrow> certificate" where
  "make_certificate type d = \<lparr>cert_version = 1, cert_type = type, cert_data = d, cert_sig = no_signature,
     cert_revocation = None, cert_trailing = []\<rparr>"

definition create_key_certificate ::
    "pk_prims \<Rightarrow> octets \<Rightarrow> private_key \<Rightarrow> octets \<Rightarrow> 64 word \<Rightarrow> octets \<Rightarrow> octets \<Rightarrow> crypto_error + certificate" where
  "create_key_certificate p r k subject_id ca rest meta =
     (case asn_der_serialise key_certificate_ty (key_certificate_val subject_id ca rest meta) of
        Inl e \<Rightarrow> Inl (Malformed e)
      | Inr d \<Rightarrow> cert_sign_me p r k (make_certificate key_certificate_type d))"

definition revoke_certificate :: "crypto \<Rightarrow> pk_prims \<Rightarrow> octets \<Rightarrow> private_key \<Rightarrow> certificate \<Rightarrow> crypto_error + revocation" where
  "revoke_certificate c p r k ct =
     (if key_id (sk_public k) \<noteq> cert_issuer ct then Inl (Crypto_errc Invalid_public_key)
      else let rv = \<lparr>rev_version = 1, rev_cid = cert_id c ct, rev_sig = no_signature, rev_trailing = []\<rparr>
           in bindE (sk_sign p r k (rev_make_sig_data rv) revocation_context) (\<lambda>s. Inr (rv\<lparr>rev_sig := s\<rparr>)))"

definition set_revocation :: "revocation \<Rightarrow> certificate \<Rightarrow> certificate" where
  "set_revocation rv ct = ct\<lparr>cert_revocation := Some rv\<rparr>"

section \<open>Encryption to a public key\<close>

record hybrid_ciphertext =
  hc_version :: "64 word"
  hc_suite :: suite
  hc_ct_x :: octets
  hc_ct_pq :: octets
  hc_iv :: octets
  hc_encrypted :: octets
  hc_tag :: octets

definition hybrid_ciphertext_ty :: ty where
  "hybrid_ciphertext_ty = T_seq [T_uint 2, T_uint 2, T_octets, T_octets, T_octets, T_octets, T_octets]"

definition hybrid_ciphertext_val :: "hybrid_ciphertext \<Rightarrow> val" where
  "hybrid_ciphertext_val h =
     V_seq [V_int (hc_version h), V_int (suite_value (hc_suite h)), V_octets (hc_ct_x h), V_octets (hc_ct_pq h),
            V_octets (hc_iv h), V_octets (hc_encrypted h), V_octets (hc_tag h)]"

definition deserialise_hybrid :: "octets \<Rightarrow> crypto_error + hybrid_ciphertext" where
  "deserialise_hybrid cipher =
     (case asn_der_deserialise hybrid_ciphertext_ty cipher of
        Inl e \<Rightarrow> Inl (Malformed e)
      | Inr (V_seq [V_int ver, V_int s, V_octets ctx, V_octets ctpq, V_octets iv, V_octets enc, V_octets t]) \<Rightarrow>
          bindE (suite_of_value s) (\<lambda>s.
            Inr \<lparr>hc_version = ver, hc_suite = s, hc_ct_x = ctx, hc_ct_pq = ctpq, hc_iv = iv, hc_encrypted = enc, hc_tag = t\<rparr>)
      | Inr _ \<Rightarrow> Inl (Malformed ill_typed))"

record encrypt_randomness =
  rnd_eph :: octets
  rnd_kem :: octets
  rnd_iv :: octets

definition pk_encrypt :: "aes \<Rightarrow> pk_prims \<Rightarrow> encrypt_randomness \<Rightarrow> public_key \<Rightarrow> octets \<Rightarrow> crypto_error + octets" where
  "pk_encrypt a p r k msg =
     (if \<not> pk_is_valid k then Inl (Invalid_key ''cannot encrypt with an empty public key'')
      else bindE (kem_encapsulate p (rnd_eph r) (rnd_kem r)
                    \<lparr>kpub_suite = pk_suite k, kpub_x = kem_x_pk k, kpub_pq = kem_pq_pk k\<rparr>) (\<lambda>enc.
        let buf = gcm_seal a (enc_key enc) (rnd_iv r) (key_id k) msg;
            n = length buf - aes_gcm_tag_size;
            ct = \<lparr>hc_version = 1, hc_suite = pk_suite k, hc_ct_x = enc_ct_x enc, hc_ct_pq = enc_ct_pq enc,
                  hc_iv = rnd_iv r, hc_encrypted = take n buf, hc_tag = drop n buf\<rparr>
        in case asn_der_serialise hybrid_ciphertext_ty (hybrid_ciphertext_val ct) of
             Inl e \<Rightarrow> Inl (Malformed e)
           | Inr d \<Rightarrow> Inr d))"

text \<open>Any exception of the deserialiser becomes \<^verbatim>\<open>bad_ciphertext\<close>.\<close>

definition parse_ciphertext :: "octets \<Rightarrow> suite \<Rightarrow> crypto_error + hybrid_ciphertext" where
  "parse_ciphertext cipher expected =
     (case deserialise_hybrid cipher of
        Inl _ \<Rightarrow> Inl (Bad_ciphertext ''malformed ciphertext: '')
      | Inr ct \<Rightarrow>
          if hc_version ct \<noteq> 1 then Inl (Bad_ciphertext ''unsupported ciphertext version'')
          else if hc_suite ct \<noteq> expected then Inl (Bad_ciphertext ''ciphertext suite does not match the key'')
          else if length (hc_iv ct) \<noteq> aes_gcm_iv_size \<or> length (hc_tag ct) \<noteq> aes_gcm_tag_size
          then Inl (Bad_ciphertext ''malformed ciphertext: iv or tag size'')
          else Inr ct)"

definition open_hybrid :: "aes \<Rightarrow> octets \<Rightarrow> octets \<Rightarrow> hybrid_ciphertext \<Rightarrow> crypto_error + octets" where
  "open_hybrid a key kid ct =
     (case gcm_open a key (hc_iv ct) kid (hc_encrypted ct @ hc_tag ct) of
        None \<Rightarrow> Inl (Bad_ciphertext ''authentication failed'')
      | Some d \<Rightarrow> Inr d)"

definition sk_decapsulate :: "pk_prims \<Rightarrow> private_key \<Rightarrow> octets \<Rightarrow> octets \<Rightarrow> crypto_error + octets" where
  "sk_decapsulate p k ct_x ct_pq =
     (if \<not> sk_is_valid k then Inl (Invalid_key ''cannot decrypt with an empty private key'')
      else kem_decapsulate p \<lparr>kpriv_suite = sk_suite k, kpriv_x = kem_x_sk k, kpriv_seed = kem_pq_seed k\<rparr> ct_x ct_pq)"

definition sk_decrypt :: "aes \<Rightarrow> pk_prims \<Rightarrow> private_key \<Rightarrow> octets \<Rightarrow> crypto_error + octets" where
  "sk_decrypt a p k cipher =
     bindE (parse_ciphertext cipher (sk_suite k)) (\<lambda>ct.
       bindE (sk_decapsulate p k (hc_ct_x ct) (hc_ct_pq ct)) (\<lambda>key. open_hybrid a key (key_id (sk_public k)) ct))"

record encrypted_key =
  ek_version :: "64 word"
  ek_key_id :: octets
  ek_data :: octets

definition encrypt_key :: "aes \<Rightarrow> pk_prims \<Rightarrow> encrypt_randomness \<Rightarrow> public_key \<Rightarrow> octets \<Rightarrow> crypto_error + encrypted_key" where
  "encrypt_key a p r pk key = bindE (pk_encrypt a p r pk key) (\<lambda>d. Inr \<lparr>ek_version = 1, ek_key_id = key_id pk, ek_data = d\<rparr>)"

definition decrypt_key :: "aes \<Rightarrow> pk_prims \<Rightarrow> private_key \<Rightarrow> encrypted_key \<Rightarrow> crypto_error + octets" where
  "decrypt_key a p k ek =
     (if ek_key_id ek \<noteq> key_id (sk_public k) then Inl Wrong_key else sk_decrypt a p k (ek_data ek))"

section \<open>Enveloped content\<close>

record enveloped_content =
  ev_version :: "64 word"
  ev_keys :: "encrypted_key list"
  ev_iv :: octets
  ev_encrypted :: octets
  ev_tag :: octets

definition enveloped_decrypt :: "aes \<Rightarrow> pk_prims \<Rightarrow> enveloped_content \<Rightarrow> private_key \<Rightarrow> crypto_error + octets" where
  "enveloped_decrypt a p ev k =
     (case dropWhile (\<lambda>ek. ek_key_id ek \<noteq> key_id (sk_public k)) (ev_keys ev) of
        [] \<Rightarrow> Inl Wrong_key
      | ek # _ \<Rightarrow> bindE (decrypt_key a p k ek) (\<lambda>sym_key. open_content a (ev_iv ev) (ev_encrypted ev) (ev_tag ev) sym_key))"

definition enveloped_add :: "encrypted_key \<Rightarrow> enveloped_content \<Rightarrow> enveloped_content" where
  "enveloped_add ek ev = ev\<lparr>ev_keys := ev_keys ev @ [ek]\<rparr>"

record enveloper =
  en_data :: octets
  en_sym_key :: octets
  en_keys :: "encrypted_key list"

definition make_enveloper :: "octets \<Rightarrow> octets \<Rightarrow> enveloper" where
  "make_enveloper sym_key d = \<lparr>en_data = d, en_sym_key = sym_key, en_keys = []\<rparr>"

definition enveloper_add :: "aes \<Rightarrow> pk_prims \<Rightarrow> encrypt_randomness \<Rightarrow> public_key \<Rightarrow> enveloper \<Rightarrow> crypto_error + enveloper" where
  "enveloper_add a p r pk en =
     bindE (encrypt_key a p r pk (en_sym_key en)) (\<lambda>ek. Inr (en\<lparr>en_keys := en_keys en @ [ek]\<rparr>))"

definition enveloper_result :: "aes \<Rightarrow> octets \<Rightarrow> enveloper \<Rightarrow> crypto_error + enveloped_content" where
  "enveloper_result a iv en =
     bindE (seal_content a iv (en_data en) (en_sym_key en)) (\<lambda>ec.
       Inr \<lparr>ev_version = 0, ev_keys = en_keys en, ev_iv = ec_iv ec, ev_encrypted = ec_content ec, ev_tag = ec_tag ec\<rparr>)"

fun enveloper_add_all :: "aes \<Rightarrow> pk_prims \<Rightarrow> (encrypt_randomness \<times> public_key) list \<Rightarrow> enveloper \<Rightarrow> crypto_error + enveloper" where
  "enveloper_add_all a p [] en = Inr en"
| "enveloper_add_all a p ((r, pk) # ks) en = bindE (enveloper_add a p r pk en) (enveloper_add_all a p ks)"

definition envelope ::
    "aes \<Rightarrow> pk_prims \<Rightarrow> octets \<Rightarrow> octets \<Rightarrow> (encrypt_randomness \<times> public_key) list \<Rightarrow> octets \<Rightarrow> crypto_error + enveloped_content" where
  "envelope a p sym_key iv ks d = bindE (enveloper_add_all a p ks (make_enveloper sym_key d)) (enveloper_result a iv)"

section \<open>Key pairs\<close>

text \<open>A private key whose public key was built from its seeds.\<close>

definition key_pair :: "crypto \<Rightarrow> pk_prims \<Rightarrow> private_key \<Rightarrow> bool" where
  "key_pair c p k \<longleftrightarrow>
     (let q = parameters (sk_suite k); pk = sk_public k
      in length (sig_seed k) = sig_seed_size q \<and> length (kem_x_sk k) = x_key_size q \<and> length (kem_pq_seed k) = kem_seed_size q \<and>
         pk_suite pk = sk_suite k \<and> sig_pk pk = ml_dsa_public p (sk_suite k) (sig_seed k) \<and>
         kem_x_pk pk = x_public p (x448 q) (kem_x_sk k) \<and> kem_pq_pk pk = ml_kem_public p (sk_suite k) (kem_pq_seed k) \<and>
         key_id pk = construct_id c pk)"

lemma x_key_size_eq: "x_key_size (parameters s) = (if x448 (parameters s) then 56 else 32)"
  by (simp add: parameters_def split: suite.splits)

lemma key_pair_valid:
  assumes "prims_ok c a p" "key_pair c p k"
  shows "sk_is_valid k" "pk_is_valid (sk_public k)"
proof -
  show "pk_is_valid (sk_public k)" 
    using assms by (simp add: key_pair_def Let_def prims_ok_def pk_is_valid_def x_key_size_eq)
  then show "sk_is_valid k" using assms(2) by (simp add: sk_is_valid_def key_pair_def Let_def)
qed

lemma construct_id_fields [simp]: "construct_id c (k\<lparr>key_id := i\<rparr>) = construct_id c k"
  "construct_id c (k\<lparr>self_sig := s\<rparr>) = construct_id c k" "construct_id c (k\<lparr>certificate_ids := ids\<rparr>) = construct_id c k"
  by (simp_all add: construct_id_def)

lemma signature_content_fields [simp]: "signature_content (k\<lparr>self_sig := s\<rparr>) = signature_content k"
  by (simp add: signature_content_def)

lemma make_public_key_impl_fields:
  "pk_suite (make_public_key_impl c s sg x pq) = s" "sig_pk (make_public_key_impl c s sg x pq) = sg"
  "kem_x_pk (make_public_key_impl c s sg x pq) = x" "kem_pq_pk (make_public_key_impl c s sg x pq) = pq"
  "key_id (make_public_key_impl c s sg x pq) = construct_id c (make_public_key_impl c s sg x pq)"
  by (simp_all add: make_public_key_impl_def Let_def construct_id_def)

lemma sign_verify:
  assumes "prims_ok c a p" "key_pair c p k" "length ctx \<le> 255"
  shows "\<exists>s. sk_sign p r k d ctx = Inr s \<and> sig_is_valid s \<and> sig_issuer s = key_id (sk_public k) \<and>
    sig_version s = 2 \<and> length (sig_octets s) \<le> 4627 \<and>
    (\<forall>pk. pk_is_valid pk \<longrightarrow> pk_suite pk = sk_suite k \<longrightarrow> sig_pk pk = sig_pk (sk_public k) \<longrightarrow> verify c pk s d ctx = Inr True)"
proof -
  define s where "s = \<lparr>sig_version = 2, sig_issuer = key_id (sk_public k),
    sig_octets = ml_dsa_sign p (sk_suite k) (sig_seed k) (octets_of ''SPSIG'' @ [of_nat (length ctx)] @ octets_of ctx @ d) r\<rparr>"
  have l: "length (sig_octets s) = signature_size (parameters (sk_suite k))" using assms(1) by (simp add: s_def prims_ok_def)
  have "signature_size (parameters t) \<in> {1..4627}" for t by (simp add: parameters_def split: suite.splits)
  then have "sig_octets s \<noteq> []" "length (sig_octets s) \<le> 4627" using l by (metis atLeastAtMost_iff list.size(3) not_one_le_zero, simp)
  moreover have "sk_sign p r k d ctx = Inr s"
    using assms(3) key_pair_valid(1) [OF assms(1,2)] by (simp add: sk_sign_def sign_framed_def s_def)
  moreover have "verify c pk s d ctx = Inr True" if "pk_is_valid pk" "pk_suite pk = sk_suite k" "sig_pk pk = sig_pk (sk_public k)" for pk
    using that assms by (simp add: verify_def verify_framed_def s_def key_pair_def Let_def prims_ok_def)
  ultimately show ?thesis by (simp add: s_def sig_is_valid_def)
qed

lemma sign_me_verifies:
  assumes "prims_ok c a p" "key_pair c p k" "pk_is_valid pk" "pk_suite pk = sk_suite k" "sig_pk pk = sig_pk (sk_public k)"
    "key_id pk = construct_id c pk"
  shows "\<exists>s. pk_sign_me p r k pk = Inr (pk\<lparr>self_sig := s\<rparr>) \<and> pk_verify_me c (pk\<lparr>self_sig := s\<rparr>) = Inr True"
proof -
  obtain s where s: "sk_sign p r k (signature_content pk) self_signature_context = Inr s"
    "verify c (pk\<lparr>self_sig := s\<rparr>) s (signature_content pk) self_signature_context = Inr True"
    using sign_verify [OF assms(1,2), of self_signature_context r "signature_content pk"] assms(3-5)
    by (force simp: pk_is_valid_def)
  then show ?thesis using assms(6) by (auto simp: pk_sign_me_def pk_verify_me_def)
qed

text \<open>A generated private key is a valid pair whose public key verifies itself.\<close>

theorem generated_key_verifies:
  assumes "prims_ok c a p" "length seed = sig_seed_size (parameters s)" "length x = x_key_size (parameters s)"
    "length pq = kem_seed_size (parameters s)"
  shows "\<exists>k. generate_private_key c p r s seed x pq = Inr k \<and> sk_is_valid k \<and> key_pair c p k \<and>
    pk_verify_me c (sk_public k) = Inr True"
proof -
  define pk where "pk = make_public_key_impl c s (ml_dsa_public p s seed) (x_public p (x448 (parameters s)) x) (ml_kem_public p s pq)"
  define k where "k = \<lparr>sk_version = 2, sk_suite = s, sk_public = pk, sig_seed = seed, kem_x_sk = x, kem_pq_seed = pq,
    metadata = Map.empty, sk_trailing = []\<rparr>"
  have impl: "make_private_key_impl c p s seed \<lparr>kpriv_suite = s, kpriv_x = x, kpriv_seed = pq\<rparr> = Inr k"
    using assms(2-4) by (simp add: make_private_key_impl_def make_public_key_def kem_public_part_def check_private_sizes_def
        Let_def k_def pk_def)
  have kp: "key_pair c p k" 
    using assms(2-4) by (simp add: key_pair_def k_def pk_def make_public_key_impl_fields Let_def)
  have pk: "sk_public k = pk" "key_id pk = construct_id c pk" "pk_suite pk = sk_suite k"
    by (simp_all add: k_def pk_def make_public_key_impl_fields)
  obtain sg where sg: "pk_sign_me p r k pk = Inr (pk\<lparr>self_sig := sg\<rparr>)" "pk_verify_me c (pk\<lparr>self_sig := sg\<rparr>) = Inr True"
    using sign_me_verifies [OF assms(1) kp, of pk r] key_pair_valid [OF assms(1) kp] pk by auto
  have "key_pair c p (k\<lparr>sk_public := pk\<lparr>self_sig := sg\<rparr>\<rparr>)" using kp pk(1) by (simp add: key_pair_def Let_def)
  then show ?thesis
    using impl sg key_pair_valid [OF assms(1)] pk(1) by (simp add: generate_private_key_def make_private_key_def)
qed

text \<open>A certificate issued with a private key is authentic under its public key, and no longer once the
  issuer's revocation is attached; a revocation by another key is refused.\<close>

theorem certificate_lifecycle:
  assumes "prims_ok c a p" "key_pair c p k" 
    "length sub \<le> max_structure_size" "length host \<le> max_structure_size" "length meta \<le> max_structure_size" "unat lvl < 2 ^ 16"
  shows "\<exists>ct rv. create_key_certificate p r k sub lvl host meta = Inr ct \<and>
    cert_issuer ct = key_id (sk_public k) \<and> cert_is_authentic c ct (sk_public k) = Inr True \<and>
    extract_key_certificate ct = Inr \<lparr>kc_subject = sub, kc_ca_level = unat lvl, kc_restrictions = host, kc_metadata = meta\<rparr> \<and>
    revoke_certificate c p r' k ct = Inr rv \<and> cert_is_authentic c (set_revocation rv ct) (sk_public k) = Inr False"
proof -
  let ?pk = "sk_public k"
  have pk: "pk_is_valid ?pk" "pk_suite ?pk = sk_suite k"
    using key_pair_valid [OF assms(1,2)] assms(2) by (simp_all add: key_pair_def Let_def)
  define d where "d = der key_certificate_ty None (key_certificate_val sub lvl host meta)"
  define ct0 where "ct0 = make_certificate key_certificate_type d"
  obtain s where s: "sk_sign p r k (cert_make_sig_data ct0) certificate_context = Inr s" "sig_is_valid s" "sig_issuer s = key_id ?pk"
    "verify c ?pk s (cert_make_sig_data ct0) certificate_context = Inr True"
    using sign_verify [OF assms(1,2), of certificate_context r "cert_make_sig_data ct0"] pk by auto
  define ct where "ct = ct0\<lparr>cert_sig := s\<rparr>"
  have created: "create_key_certificate p r k sub lvl host meta = Inr ct"
    using key_certificate_der(1) [OF assms(3-6)] s(1)
    by (simp add: create_key_certificate_def cert_sign_me_def d_def ct0_def ct_def)
  have issuer: "cert_issuer ct = key_id ?pk" by (simp add: cert_issuer_def ct_def s(3))
  have sd: "cert_make_sig_data ct = cert_make_sig_data ct0" by (simp add: cert_make_sig_data_def ct_def)
  have auth: "cert_is_authentic c ct ?pk = Inr True"
  proof -
    have "cert_verify_me c ct ?pk = Inr True" using s(4) by (simp add: cert_verify_me_def sd) (simp add: ct_def)
    moreover have "cert_is_revoked c ct ?pk = Inr False" by (simp add: ct_def ct0_def make_certificate_def cert_is_revoked_def)
    ultimately show ?thesis by (simp add: cert_is_authentic_def)
  qed
  have ext: "extract_key_certificate ct = Inr \<lparr>kc_subject = sub, kc_ca_level = unat lvl, kc_restrictions = host, kc_metadata = meta\<rparr>"
    by (rule extract_encoded [OF assms(3-6)]) (simp_all add: ct_def ct0_def make_certificate_def d_def)
  define rv0 where "rv0 = \<lparr>rev_version = 1, rev_cid = cert_id c ct, rev_sig = no_signature, rev_trailing = []\<rparr>"
  obtain s' where s': "sk_sign p r' k (rev_make_sig_data rv0) revocation_context = Inr s'"
    "verify c ?pk s' (rev_make_sig_data rv0) revocation_context = Inr True"
    using sign_verify [OF assms(1,2), of revocation_context r' "rev_make_sig_data rv0"] pk by auto
  define rv where "rv = rv0\<lparr>rev_sig := s'\<rparr>"
  have revoked: "revoke_certificate c p r' k ct = Inr rv"
    using s'(1) issuer by (simp add: revoke_certificate_def rv0_def rv_def)
  have "cert_is_revoked c (set_revocation rv ct) ?pk = Inr True"
  proof -
    have "rev_verify_me c rv ?pk = Inr True"
      using s'(2) by (simp add: rev_verify_me_def rv_def rev_make_sig_data_def)
    moreover have "cert_id c (set_revocation rv ct) = rev_cid rv" by (simp add: cert_id_def set_revocation_def rv_def rv0_def)
    ultimately show ?thesis using s(2) by (simp add: cert_is_revoked_def) (simp add: set_revocation_def ct_def)
  qed
  moreover have "cert_verify_me c (set_revocation rv ct) ?pk = Inr True"
    using s(4) by (simp add: cert_verify_me_def cert_make_sig_data_def set_revocation_def ct_def)
  ultimately have "cert_is_authentic c (set_revocation rv ct) ?pk = Inr False"
    by (simp add: cert_is_authentic_def)
  then show ?thesis using created issuer auth ext revoked by blast
qed


section \<open>Encryption round trips\<close>

lemma kem_roundtrip:
  assumes "prims_ok c a p" "key_pair c p k"
    "kem_encapsulate p eph r \<lparr>kpub_suite = pk_suite (sk_public k), kpub_x = kem_x_pk (sk_public k), kpub_pq = kem_pq_pk (sk_public k)\<rparr> = Inr enc"
  shows "sk_decapsulate p k (enc_ct_x enc) (enc_ct_pq enc) = Inr (enc_key enc)"
    "length (enc_ct_x enc) \<le> 56" "length (enc_ct_pq enc) \<le> 1568"
proof -
  let ?s = "sk_suite k" let ?f = "x448 (parameters ?s)"
  have kp: "pk_suite (sk_public k) = ?s" "kem_x_pk (sk_public k) = x_public p ?f (kem_x_sk k)"
    "kem_pq_pk (sk_public k) = ml_kem_public p ?s (kem_pq_seed k)"
    "length (kem_x_sk k) = x_key_size (parameters ?s)" "length (kem_pq_seed k) = kem_seed_size (parameters ?s)"
    using assms(2) by (simp_all add: key_pair_def Let_def)
  obtain ss_x ct_pq ss_pq where e: "x_derive p ?f eph (x_public p ?f (kem_x_sk k)) = Some ss_x"
    "ml_kem_encrypt p ?s (ml_kem_public p ?s (kem_pq_seed k)) r = Some (ct_pq, ss_pq)"
    "enc = \<lparr>enc_ct_x = x_public p ?f eph, enc_ct_pq = ct_pq,
       enc_key = combine_shared_secrets p ?s ss_pq ss_x (x_public p ?f eph) (x_public p ?f (kem_x_sk k))\<rparr>"
    using assms(3) unfolding kem_encapsulate_def kp by (auto simp: Let_def split: option.splits)
  have d: "ml_kem_decrypt p ?s (kem_pq_seed k) ct_pq = Some ss_pq" "length ct_pq = kem_ciphertext_size (parameters ?s)"
    "x_derive p ?f (kem_x_sk k) (x_public p ?f eph) = Some ss_x" "length (x_public p ?f eph) = (if ?f then 56 else 32)"
    using assms(1) e(1,2) by (auto simp: prims_ok_def)
  show "sk_decapsulate p k (enc_ct_x enc) (enc_ct_pq enc) = Inr (enc_key enc)"
    using key_pair_valid [OF assms(1,2)] d
    by (simp add: sk_decapsulate_def kem_decapsulate_def check_private_sizes_def Let_def kp e(3) x_key_size_eq)
  show "length (enc_ct_x enc) \<le> 56" using d(4) by (simp add: e(3))
  show "length (enc_ct_pq enc) \<le> 1568" using d(2) by (simp add: e(3) parameters_def split: suite.splits)
qed

lemma suite_value_roundtrip [simp]: "suite_of_value (suite_value s) = Inr s"
  by (simp add: suite_of_value_def suite_value_def is_known_def split: suite.splits)

lemma hybrid_der:
  assumes "unat (hc_version h) < 2 ^ 16" "length (hc_ct_x h) \<le> 56" "length (hc_ct_pq h) \<le> 1568" "length (hc_iv h) \<le> 12"
    "length (hc_encrypted h) \<le> max_structure_size" "length (hc_tag h) \<le> 16"
  shows "asn_der_serialise hybrid_ciphertext_ty (hybrid_ciphertext_val h) = Inr (der hybrid_ciphertext_ty None (hybrid_ciphertext_val h))"
    "deserialise_hybrid (der hybrid_ciphertext_ty None (hybrid_ciphertext_val h)) = Inr h"
proof -
  have c: "get_asn_class None = 0" by (simp add: get_asn_class_def)
  have s: "length (element 0 tag_octet_string False x) \<le> 20 + n" if "length x \<le> n" "n \<le> max_structure_size" for x n
    using length_primitive [of x tag_octet_string] that by simp
  have u: "unat (suite_value t) < 2 ^ 16" for t by (simp add: suite_value_def split: suite.splits)
  have m: "(56 :: nat) \<le> max_structure_size" "(1568 :: nat) \<le> max_structure_size" "(12 :: nat) \<le> max_structure_size" "(16 :: nat) \<le> max_structure_size"
    "max_structure_size + 2000 \<le> max_constructed_size" by (simp_all add: max_structure_size_def max_constructed_size_def)
  have v: "val_ok hybrid_ciphertext_ty (hybrid_ciphertext_val h)"
    using assms u [of "hc_suite h"] s [OF assms(2) m(1)] s [OF assms(3) m(2)] s [OF assms(4) m(3)] s [OF assms(5)] s [OF assms(6) m(4)] m
      length_int_element [of tag_integer False "hc_version h" 2] length_int_element [of tag_integer False "suite_value (hc_suite h)" 2]
    by (simp add: hybrid_ciphertext_ty_def hybrid_ciphertext_val_def c get_tag_def)
  have t: "headed hybrid_ciphertext_ty" "ty_ok hybrid_ciphertext_ty" "depth hybrid_ciphertext_ty \<le> max_structure_depth"
    by (simp_all add: hybrid_ciphertext_ty_def max_structure_depth_def)
  note ok = asn_der_ok [OF t(1,2) v t(3)]
  show "asn_der_serialise hybrid_ciphertext_ty (hybrid_ciphertext_val h) = Inr (der hybrid_ciphertext_ty None (hybrid_ciphertext_val h))"
    by (rule ok(1))
  have "asn_der_deserialise hybrid_ciphertext_ty (der hybrid_ciphertext_ty None (hybrid_ciphertext_val h)) = Inr (hybrid_ciphertext_val h)"
    using ok(2) [of "[]"] by simp
  then show "deserialise_hybrid (der hybrid_ciphertext_ty None (hybrid_ciphertext_val h)) = Inr h"
    unfolding deserialise_hybrid_def by (simp add: hybrid_ciphertext_val_def)
qed

lemma pk_roundtrip:
  assumes "prims_ok c a p" "key_pair c p k" "length (rnd_iv r) = 12" "length msg \<le> max_structure_size"
    "pk_encrypt a p r (sk_public k) msg = Inr cipher"
  shows "sk_decrypt a p k cipher = Inr msg"
proof -
  let ?pk = "sk_public k"
  obtain enc where enc: "kem_encapsulate p (rnd_eph r) (rnd_kem r) \<lparr>kpub_suite = pk_suite ?pk, kpub_x = kem_x_pk ?pk, kpub_pq = kem_pq_pk ?pk\<rparr> = Inr enc"
    using assms(5) by (auto simp: pk_encrypt_def split: if_splits)
  note kem = kem_roundtrip [OF assms(1,2) enc]
  let ?buf = "gcm_seal a (enc_key enc) (rnd_iv r) (key_id ?pk) msg"
  let ?n = "length ?buf - aes_gcm_tag_size"
  let ?h = "\<lparr>hc_version = 1, hc_suite = pk_suite ?pk, hc_ct_x = enc_ct_x enc, hc_ct_pq = enc_ct_pq enc,
    hc_iv = rnd_iv r, hc_encrypted = take ?n ?buf, hc_tag = drop ?n ?buf\<rparr>"
  have g: "length ?buf = length msg + 16" "gcm_open a (enc_key enc) (rnd_iv r) (key_id ?pk) ?buf = Some msg"
    using assms(1) by (simp_all add: prims_ok_def)
  have h: "asn_der_serialise hybrid_ciphertext_ty (hybrid_ciphertext_val ?h) = Inr (der hybrid_ciphertext_ty None (hybrid_ciphertext_val ?h))"
    "deserialise_hybrid (der hybrid_ciphertext_ty None (hybrid_ciphertext_val ?h)) = Inr ?h"
    using hybrid_der [of ?h] kem(2,3) assms(3,4) g(1) by (simp_all add: aes_gcm_tag_size_def)
  have c: "cipher = der hybrid_ciphertext_ty None (hybrid_ciphertext_val ?h)"
    using assms(5) enc h(1) by (simp add: pk_encrypt_def Let_def split: if_splits)
  have "parse_ciphertext cipher (sk_suite k) = Inr ?h"
    using h(2) assms(2,3) g(1)
    by (simp add: parse_ciphertext_def c key_pair_def Let_def aes_gcm_iv_size_def aes_gcm_tag_size_def)
  then show ?thesis using kem(1) g(2) by (simp add: sk_decrypt_def open_hybrid_def)
qed


section \<open>Envelopes\<close>

lemma encrypt_key_id: "encrypt_key a p r pk key = Inr ek \<Longrightarrow> ek_key_id ek = key_id pk"
  by (auto simp: encrypt_key_def)

lemma encrypted_key_roundtrip:
  assumes "prims_ok c a p" "key_pair c p k" "length (rnd_iv r) = 12" "length key \<le> max_structure_size"
    "encrypt_key a p r (sk_public k) key = Inr ek"
  shows "decrypt_key a p k ek = Inr key"
  using pk_roundtrip [OF assms(1-4)] assms(5) by (auto simp: encrypt_key_def decrypt_key_def)

lemma enveloper_add_all_keys:
  "enveloper_add_all a p ks en = Inr en' \<Longrightarrow>
     \<exists>eks. en' = en\<lparr>en_keys := en_keys en @ eks\<rparr> \<and>
       list_all2 (\<lambda>(r, pk) ek. encrypt_key a p r pk (en_sym_key en) = Inr ek) ks eks"
proof (induction ks arbitrary: en)
  case (Cons rk ks)
  obtain r pk where rk: "rk = (r, pk)" by (cases rk)
  from Cons.prems obtain ek where ek: "encrypt_key a p r pk (en_sym_key en) = Inr ek"
    "enveloper_add_all a p ks (en\<lparr>en_keys := en_keys en @ [ek]\<rparr>) = Inr en'"
    by (auto simp: rk enveloper_add_def)
  from Cons.IH [OF ek(2)] obtain eks where eks: "en' = en\<lparr>en_keys := en_keys en @ ek # eks\<rparr>"
    "list_all2 (\<lambda>(r, pk) ek. encrypt_key a p r pk (en_sym_key en) = Inr ek) ks eks" by auto
  then show ?case using ek(1) by (intro exI [of _ "ek # eks"]) (simp add: rk)
qed simp

lemma envelope_parts:
  assumes "envelope a p sym_key iv ks d = Inr ev"
  shows "list_all2 (\<lambda>(r, pk) ek. encrypt_key a p r pk sym_key = Inr ek) ks (ev_keys ev)"
    "open_content a (ev_iv ev) (ev_encrypted ev) (ev_tag ev) sym_key = Inr d"
proof -
  obtain en where en: "enveloper_add_all a p ks (make_enveloper sym_key d) = Inr en" "enveloper_result a iv en = Inr ev"
    using assms by (auto simp: envelope_def)
  from enveloper_add_all_keys [OF en(1)] obtain eks where eks:
    "en = (make_enveloper sym_key d)\<lparr>en_keys := eks\<rparr>"
    "list_all2 (\<lambda>(r, pk) ek. encrypt_key a p r pk sym_key = Inr ek) ks eks"
    by (auto simp: make_enveloper_def)
  have r: "ev_keys ev = eks" "seal_content a iv d sym_key = Inr \<lparr>ec_iv = ev_iv ev, ec_content = ev_encrypted ev, ec_tag = ev_tag ev\<rparr>"
    using en(2) by (auto simp: eks(1) enveloper_result_def make_enveloper_def)
  then show "list_all2 (\<lambda>(r, pk) ek. encrypt_key a p r pk sym_key = Inr ek) ks (ev_keys ev)" using eks(2) by simp
  have "ev_iv ev = iv" using r(2) by (simp add: seal_content_eq split: if_splits)
  then show "open_content a (ev_iv ev) (ev_encrypted ev) (ev_tag ev) sym_key = Inr d"
    using r(2) by (simp add: open_iff_seal)
qed

lemma list_all2_member:
  "list_all2 P xs ys \<Longrightarrow> x \<in> set xs \<Longrightarrow> \<exists>y \<in> set ys. P x y"
  "list_all2 P xs ys \<Longrightarrow> y \<in> set ys \<Longrightarrow> \<exists>x \<in> set xs. P x y"
  by (induction rule: list_all2_induct) auto

lemma dropWhile_first: "x \<in> set xs \<Longrightarrow> \<not> P x \<Longrightarrow> \<exists>y ys. dropWhile P xs = y # ys \<and> \<not> P y \<and> y \<in> set xs"
  by (induction xs) auto

lemma envelope_opens:
  assumes "prims_ok c a p" "envelope a p sym_key iv ks d = Inr ev" "key_pair c p k"
    "sk_public k \<in> snd ` set ks" "list_all (\<lambda>(r, pk). length (rnd_iv r) = 12) ks"
    "list_all (\<lambda>(r, pk). key_id pk = key_id (sk_public k) \<longrightarrow> pk = sk_public k) ks"
  shows "enveloped_decrypt a p ev k = Inr d"
proof -
  note ev = envelope_parts [OF assms(2)]
  have len: "length sym_key = 32" using ev(2) by (simp add: open_content_eq split: if_splits)
  have rel: "\<exists>r. encrypt_key a p r (sk_public k) sym_key = Inr ek \<and> length (rnd_iv r) = 12"
    if "ek \<in> set (ev_keys ev)" "ek_key_id ek = key_id (sk_public k)" for ek
  proof -
    note ek = that
    obtain r pk where "(r, pk) \<in> set ks" "encrypt_key a p r pk sym_key = Inr ek"
      using list_all2_member(2) [OF ev(1) ek(1)] by auto
    moreover from this have "key_id pk = key_id (sk_public k)" using ek(2) encrypt_key_id by metis
    ultimately show ?thesis using assms(5,6) by (auto simp: list_all_iff)
  qed
  obtain r where "(r, sk_public k) \<in> set ks" using assms(4) by auto
  then obtain ek where "ek \<in> set (ev_keys ev)" "encrypt_key a p r (sk_public k) sym_key = Inr ek"
    using list_all2_member(1) [OF ev(1)] by fastforce
  then obtain e es where e: "dropWhile (\<lambda>ek. ek_key_id ek \<noteq> key_id (sk_public k)) (ev_keys ev) = e # es"
    "ek_key_id e = key_id (sk_public k)" "e \<in> set (ev_keys ev)"
    using dropWhile_first [of ek "ev_keys ev" "\<lambda>ek. ek_key_id ek \<noteq> key_id (sk_public k)"] encrypt_key_id by auto
  from rel [OF e(3,2)] obtain r' where "encrypt_key a p r' (sk_public k) sym_key = Inr e" "length (rnd_iv r') = 12" by blast
  then have "decrypt_key a p k e = Inr sym_key"
    using encrypted_key_roundtrip [OF assms(1,3)] len by (simp add: max_structure_size_def)
  then show ?thesis using e(1) ev(2) by (simp add: enveloped_decrypt_def)
qed

text \<open>C7: Every recipient of an envelope reads it: whoever holds the private key of one of the public keys the
  content was enveloped for gets the content back, whatever the other recipients.\<close>

theorem envelope_roundtrip:
  assumes "prims_ok c a p" "envelope a p sym_key iv ks d = Inr ev" "key_pair c p k"
    "sk_public k \<in> snd ` set ks" "list_all (\<lambda>(r, pk). length (rnd_iv r) = 12) ks"
    "list_all (\<lambda>(r, pk). key_id pk = key_id (sk_public k) \<longrightarrow> pk = sk_public k) ks"
  shows "enveloped_decrypt a p ev k = Inr d"
  by (rule envelope_opens [OF assms])

section \<open>An example\<close>

definition demo_prims :: pk_prims where
  "demo_prims = \<lparr>x_public = (\<lambda>f k. replicate (if f then 56 else 32) 0), x_derive = (\<lambda>f k e. Some [1]),
     ml_kem_public = (\<lambda>s k. replicate (kem_public_size (parameters s)) 0),
     ml_kem_encrypt = (\<lambda>s k r. Some (replicate (kem_ciphertext_size (parameters s)) 0, [2])),
     ml_kem_decrypt = (\<lambda>s k ct. Some [2]), ml_dsa_public = (\<lambda>s k. replicate (sig_public_size (parameters s)) 0),
     ml_dsa_sign = (\<lambda>s k m r. replicate (signature_size (parameters s)) 3), hkdf_sha3_256 = (\<lambda>ikm info. replicate 32 0)\<rparr>"

lemma signature_size_pos: "0 < signature_size (parameters s)"
  by (simp add: parameters_def split: suite.splits)

lemma demo_prims_ok: "prims_ok demo_crypto demo_aes demo_prims"
  by (simp add: prims_ok_def demo_prims_def demo_crypto_def demo_aes_def ctr_cipher_twice signature_size_pos Let_def)

definition demo_sk :: private_key where
  "demo_sk = \<lparr>sk_version = 2, sk_suite = Pq1, sk_public = make_public_key_impl demo_crypto Pq1 (replicate 1952 0) (replicate 32 0) (replicate 1184 0),
     sig_seed = replicate 32 0, kem_x_sk = replicate 32 0, kem_pq_seed = replicate 64 0, metadata = Map.empty, sk_trailing = []\<rparr>"

lemma demo_key_pair: "key_pair demo_crypto demo_prims demo_sk"
  by (simp add: key_pair_def demo_sk_def make_public_key_impl_fields demo_prims_def parameters_def Let_def)

definition demo_randomness :: encrypt_randomness where
  "demo_randomness = \<lparr>rnd_eph = [], rnd_kem = [], rnd_iv = replicate 12 0\<rparr>"

theorem generated_key_verifies_witness:
  "\<exists>k. generate_private_key demo_crypto demo_prims [] Pq1_high (replicate 32 0) (replicate 56 0) (replicate 64 0) = Inr k \<and>
     pk_verify_me demo_crypto (sk_public k) = Inr True"
  using generated_key_verifies [OF demo_prims_ok, of "replicate 32 0" Pq1_high "replicate 56 0" "replicate 64 0" "[]"]
  by (auto simp: parameters_def)

theorem certificate_lifecycle_witness:
  "\<exists>ct rv. create_key_certificate demo_prims [] demo_sk [7] 3 [] [] = Inr ct \<and>
     cert_is_authentic demo_crypto ct (sk_public demo_sk) = Inr True \<and>
     revoke_certificate demo_crypto demo_prims [] demo_sk ct = Inr rv \<and>
     cert_is_authentic demo_crypto (set_revocation rv ct) (sk_public demo_sk) = Inr False"
  using certificate_lifecycle [OF demo_prims_ok demo_key_pair, of "[7]" "[]" "[]" 3 "[]" "[]"]
  by (auto simp: max_structure_size_def)

lemma demo_envelope: "\<exists>ev. envelope demo_aes demo_prims (replicate 32 0) (replicate 12 0) [(demo_randomness, sk_public demo_sk)] [1, 2, 3] = Inr ev"
proof -
  let ?pk = "sk_public demo_sk"
  have v: "pk_is_valid ?pk" by (rule key_pair_valid [OF demo_prims_ok demo_key_pair])
  obtain enc where enc: "kem_encapsulate demo_prims [] [] \<lparr>kpub_suite = pk_suite ?pk, kpub_x = kem_x_pk ?pk, kpub_pq = kem_pq_pk ?pk\<rparr> = Inr enc"
    by (simp add: kem_encapsulate_def check_public_sizes_def demo_sk_def make_public_key_impl_fields demo_prims_def parameters_def Let_def)
  note kem = kem_roundtrip [OF demo_prims_ok demo_key_pair enc]
  have g: "length (gcm_seal demo_aes k n ad m) = length m + 16" for k n ad m using demo_prims_ok by (simp add: prims_ok_def)
  have "\<exists>d. pk_encrypt demo_aes demo_prims demo_randomness ?pk (replicate 32 0) = Inr d"
    using v enc kem(2,3) g
    by (simp add: pk_encrypt_def Let_def demo_randomness_def hybrid_der(1) aes_gcm_tag_size_def max_structure_size_def)
  then show ?thesis
    by (auto simp: envelope_def enveloper_add_def encrypt_key_def make_enveloper_def enveloper_result_def seal_content_eq
        aes_gcm_max_data_size_def simp del: bindE_eq_Inr)
qed

theorem envelope_roundtrip_witness:
  "\<exists>ev. envelope demo_aes demo_prims (replicate 32 0) (replicate 12 0) [(demo_randomness, sk_public demo_sk)] [1, 2, 3] = Inr ev \<and>
     enveloped_decrypt demo_aes demo_prims ev demo_sk = Inr [1, 2, 3]"
proof -
  obtain ev where ev: "envelope demo_aes demo_prims (replicate 32 0) (replicate 12 0) [(demo_randomness, sk_public demo_sk)] [1, 2, 3] = Inr ev"
    using demo_envelope by blast
  have "enveloped_decrypt demo_aes demo_prims ev demo_sk = Inr [1, 2, 3]"
    by (rule envelope_roundtrip [OF demo_prims_ok ev demo_key_pair]) (simp_all add: demo_randomness_def)
  with ev show ?thesis by blast
qed

lemma envelope_refused:
  assumes "envelope a p sym_key iv ks d = Inr ev" "key_id (sk_public k) \<notin> key_id ` snd ` set ks"
  shows "enveloped_decrypt a p ev k = Inl Wrong_key"
proof -
  have "ek_key_id ek \<noteq> key_id (sk_public k)" if "ek \<in> set (ev_keys ev)" for ek
  proof -
    note ek = that
    obtain r pk where "(r, pk) \<in> set ks" "encrypt_key a p r pk sym_key = Inr ek"
      using list_all2_member(2) [OF envelope_parts(1) [OF assms(1)] ek] by auto
    then show ?thesis using assms(2) encrypt_key_id by (metis image_eqI snd_conv)
  qed
  then have "dropWhile (\<lambda>ek. ek_key_id ek \<noteq> key_id (sk_public k)) (ev_keys ev) = []" by simp
  then show ?thesis by (simp only: enveloped_decrypt_def list.case)
qed

end
