(* ===== verification/Crypto_Wire.thy ===== *)
theory Crypto_Wire
  imports Private_Keys
begin

text \<open>
  Keys, signatures, certificates and chains on the wire: the \<^verbatim>\<open>serialise\<close> members of
  \<^verbatim>\<open>public_key_impl\<close>, \<^verbatim>\<open>signature\<close>, \<^verbatim>\<open>certificate_revocation\<close>, \<^verbatim>\<open>certificate\<close>,
  \<^verbatim>\<open>key_cert_pair\<close> and \<^verbatim>\<open>certificate_chain\<close>. Each has its type and value in the serialiser's model and
  the reading of a value back, with what the code does on the way: the suite is checked, the
  identifiers of a set are ordered and deduplicated and the key identifier is recomputed.
\<close>

section \<open>Types\<close>

definition public_key_ty :: ty where
  "public_key_ty = T_seq [T_uint 2, T_uint 2, T_octets, T_octets, T_octets, T_container id_ty, signature_ty, T_trailing]"

definition revocation_ty :: ty where
  "revocation_ty = T_seq [T_int 4, id_ty, signature_ty, T_trailing]"

definition certificate_ty :: ty where
  "certificate_ty = T_seq [T_int 4, T_int 4, T_octets, signature_ty, T_optional revocation_ty, T_trailing]"

definition key_cert_pair_ty :: ty where
  "key_cert_pair_ty = T_seq [public_key_ty, certificate_ty]"

definition certificate_chain_ty :: ty where
  "certificate_chain_ty = T_seq [T_int 4, id_ty, T_container key_cert_pair_ty]"

section \<open>Values\<close>

definition public_key_val :: "public_key \<Rightarrow> val" where
  "public_key_val k =
     V_seq [V_int (pk_version k), V_int (suite_value (pk_suite k)), V_octets (sig_pk k), V_octets (kem_x_pk k),
            V_octets (kem_pq_pk k), V_seq (map id_val (certificate_ids k)), signature_val (self_sig k),
            V_trailing (pk_trailing k)]"

definition revocation_val :: "revocation \<Rightarrow> val" where
  "revocation_val r =
     V_seq [V_int (rev_version r), id_val (rev_cid r), signature_val (rev_sig r), V_trailing (rev_trailing r)]"

definition certificate_val :: "certificate \<Rightarrow> val" where
  "certificate_val ct =
     V_seq [V_int (cert_version ct), V_int (cert_type ct), V_octets (cert_data ct), signature_val (cert_sig ct),
            V_optional (map_option revocation_val (cert_revocation ct)), V_trailing (cert_trailing ct)]"

definition key_cert_pair_val :: "key_cert_pair \<Rightarrow> val" where
  "key_cert_pair_val e = V_seq [public_key_val (subject e), certificate_val (cert e)]"

definition certificate_chain_val :: "certificate_chain \<Rightarrow> val" where
  "certificate_chain_val cc =
     V_seq [V_int (chain_version cc), id_val (root_key_id cc), V_seq (map key_cert_pair_val (links cc))]"

section \<open>Reading\<close>

abbreviation (input) bad_value :: "crypto_error + 'a" where
  "bad_value \<equiv> Inl (Malformed ill_typed)"

primrec mapE :: "('a \<Rightarrow> 'e + 'b) \<Rightarrow> 'a list \<Rightarrow> 'e + 'b list" where
  "mapE f [] = Inr []"
| "mapE f (x # xs) = bindE (f x) (\<lambda>y. bindE (mapE f xs) (\<lambda>ys. Inr (y # ys)))"

definition id_of :: "val \<Rightarrow> crypto_error + octets" where
  "id_of v = (case v of V_seq [V_octets i] \<Rightarrow> Inr i | _ \<Rightarrow> bad_value)"

definition signature_of :: "val \<Rightarrow> crypto_error + signature" where
  "signature_of v = (case v of
       V_seq [V_int ver, i, V_octets d] \<Rightarrow>
         bindE (id_of i) (\<lambda>i. Inr \<lparr>sig_version = ver, sig_issuer = i, sig_octets = d\<rparr>)
     | _ \<Rightarrow> bad_value)"

definition set_of :: "octets list \<Rightarrow> octets list" where
  "set_of is = foldl (\<lambda>s i. if i \<in> set s then s else insort i s) [] is"

definition public_key_of :: "crypto \<Rightarrow> val \<Rightarrow> crypto_error + public_key" where
  "public_key_of c v = (case v of
       V_seq [V_int ver, V_int s, V_octets sig, V_octets x, V_octets pq, V_seq cids, sg, V_trailing tr] \<Rightarrow>
         bindE (suite_of_value s) (\<lambda>s. bindE (mapE id_of cids) (\<lambda>cids. bindE (signature_of sg) (\<lambda>sg.
           let k = \<lparr>pk_version = ver, pk_suite = s, sig_pk = sig, kem_x_pk = x, kem_pq_pk = pq, certificate_ids = set_of cids,
                    self_sig = sg, pk_trailing = tr, key_id = []\<rparr>
           in Inr (k\<lparr>key_id := construct_id c k\<rparr>))))
     | _ \<Rightarrow> bad_value)"

definition revocation_of :: "val \<Rightarrow> crypto_error + revocation" where
  "revocation_of v = (case v of
       V_seq [V_int ver, i, sg, V_trailing tr] \<Rightarrow>
         bindE (id_of i) (\<lambda>i. bindE (signature_of sg) (\<lambda>sg.
           Inr \<lparr>rev_version = ver, rev_cid = i, rev_sig = sg, rev_trailing = tr\<rparr>))
     | _ \<Rightarrow> bad_value)"

definition certificate_of :: "val \<Rightarrow> crypto_error + certificate" where
  "certificate_of v = (case v of
       V_seq [V_int ver, V_int t, V_octets d, sg, V_optional rv, V_trailing tr] \<Rightarrow>
         bindE (signature_of sg) (\<lambda>sg.
           bindE (case rv of None \<Rightarrow> Inr None | Some r \<Rightarrow> bindE (revocation_of r) (\<lambda>r. Inr (Some r))) (\<lambda>rv.
             Inr \<lparr>cert_version = ver, cert_type = t, cert_data = d, cert_sig = sg, cert_revocation = rv, cert_trailing = tr\<rparr>))
     | _ \<Rightarrow> bad_value)"

definition key_cert_pair_of :: "crypto \<Rightarrow> val \<Rightarrow> crypto_error + key_cert_pair" where
  "key_cert_pair_of c v = (case v of
       V_seq [k, ct] \<Rightarrow>
         bindE (public_key_of c k) (\<lambda>k. bindE (certificate_of ct) (\<lambda>ct. Inr \<lparr>subject = k, cert = ct\<rparr>))
     | _ \<Rightarrow> bad_value)"

definition certificate_chain_of :: "crypto \<Rightarrow> val \<Rightarrow> crypto_error + certificate_chain" where
  "certificate_chain_of c v = (case v of
       V_seq [V_int ver, i, V_seq es] \<Rightarrow>
         bindE (id_of i) (\<lambda>i. bindE (mapE (key_cert_pair_of c) es) (\<lambda>es.
           Inr \<lparr>chain_version = ver, root_key_id = i, links = es\<rparr>))
     | _ \<Rightarrow> bad_value)"

text \<open>\<^verbatim>\<open>asn_der_deserialise<T>\<close> for these types.\<close>

definition read_der :: "ty \<Rightarrow> (val \<Rightarrow> crypto_error + 'a) \<Rightarrow> octets \<Rightarrow> crypto_error + 'a" where
  "read_der t of_val d = (case asn_der_deserialise t d of Inl e \<Rightarrow> Inl (Malformed e) | Inr v \<Rightarrow> of_val v)"

definition write_der :: "ty \<Rightarrow> val \<Rightarrow> crypto_error + octets" where
  "write_der t v = (case asn_der_serialise t v of Inl e \<Rightarrow> Inl (Malformed e) | Inr d \<Rightarrow> Inr d)"

section \<open>Round trips\<close>

text \<open>What holds of every key object: the identifier is computed from the key, the set is in order.\<close>

definition key_wf :: "crypto \<Rightarrow> public_key \<Rightarrow> bool" where
  "key_wf c k \<longleftrightarrow> key_id k = construct_id c k \<and> sorted (certificate_ids k) \<and> distinct (certificate_ids k)"

definition chain_wf :: "crypto \<Rightarrow> certificate_chain \<Rightarrow> bool" where
  "chain_wf c cc \<longleftrightarrow> list_all (\<lambda>e. key_wf c (subject e)) (links cc)"

lemma mapE_map: "(\<And>x. x \<in> set xs \<Longrightarrow> f (g x) = Inr x) \<Longrightarrow> mapE f (map g xs) = Inr xs"
  by (induction xs) auto

lemma id_of_val [simp]: "id_of (id_val i) = Inr i"
  by (simp add: id_of_def)

lemma signature_of_val [simp]: "signature_of (signature_val s) = Inr s"
  by (simp add: signature_of_def signature_val_def)

lemma set_of_sorted: "sorted xs \<Longrightarrow> distinct xs \<Longrightarrow> set_of xs = xs"
proof (induction xs rule: rev_induct)
  case (snoc x xs)
  have "insort x xs = xs @ [x]"
    using snoc.prems by (intro sorted_insort_is_snoc) (auto simp: sorted_append)
  then show ?case using snoc by (simp add: set_of_def sorted_append)
qed (simp add: set_of_def)

lemma public_key_of_val:
  assumes "key_wf c k"
  shows "public_key_of c (public_key_val k) = Inr k"
proof -
  have "mapE id_of (map id_val (certificate_ids k)) = Inr (certificate_ids k)" by (rule mapE_map) simp
  moreover have "construct_id c \<lparr>pk_version = pk_version k, pk_suite = pk_suite k, sig_pk = sig_pk k, kem_x_pk = kem_x_pk k,
      kem_pq_pk = kem_pq_pk k, certificate_ids = certificate_ids k, self_sig = self_sig k, pk_trailing = pk_trailing k, key_id = []\<rparr> =
      key_id k" using assms by (simp add: key_wf_def construct_id_def)
  ultimately show ?thesis
    using assms by (simp add: public_key_of_def public_key_val_def key_wf_def set_of_sorted Let_def)
qed

lemma revocation_of_val [simp]: "revocation_of (revocation_val r) = Inr r"
  by (simp add: revocation_of_def revocation_val_def)

lemma certificate_of_val [simp]: "certificate_of (certificate_val ct) = Inr ct"
  by (cases "cert_revocation ct") (simp_all add: certificate_of_def certificate_val_def)

lemma certificate_chain_of_val:
  assumes "chain_wf c cc"
  shows "certificate_chain_of c (certificate_chain_val cc) = Inr cc"
proof -
  have "mapE (key_cert_pair_of c) (map key_cert_pair_val (links cc)) = Inr (links cc)"
    using assms public_key_of_val by (intro mapE_map) (auto simp: chain_wf_def list_all_iff key_cert_pair_of_def key_cert_pair_val_def)
  then show ?thesis by (simp add: certificate_chain_of_def certificate_chain_val_def)
qed

lemma wire_ty_ok:
  "headed certificate_chain_ty" "ty_ok certificate_chain_ty" "depth certificate_chain_ty \<le> max_structure_depth"
  by (simp_all add: certificate_chain_ty_def key_cert_pair_ty_def public_key_ty_def certificate_ty_def signature_ty_def
      revocation_ty_def max_structure_depth_def)

text \<open>A certificate chain survives the wire: written and read back, whatever follows it, every key with its
  identifier and certificate references, every certificate with its revocation, and so its
  authenticity, are what they were.\<close>

theorem certificate_chain_wire_roundtrip:
  assumes "chain_wf c cc" "val_ok certificate_chain_ty (certificate_chain_val cc)"
  shows "\<exists>d. write_der certificate_chain_ty (certificate_chain_val cc) = Inr d \<and>
    read_der certificate_chain_ty (certificate_chain_of c) (d @ rest) = Inr cc"
  using asn_der_ok [OF wire_ty_ok(1,2) assms(2) wire_ty_ok(3)] certificate_chain_of_val [OF assms(1)]
  by (simp add: write_der_def read_der_def)

definition wire_chain :: certificate_chain where
  "wire_chain = \<lparr>chain_version = 1, root_key_id = [1], links =
     [\<lparr>subject = \<lparr>pk_version = 2, pk_suite = Pq1, sig_pk = [1], kem_x_pk = [2], kem_pq_pk = [3], certificate_ids = [[4], [5]],
         self_sig = \<lparr>sig_version = 2, sig_issuer = [3], sig_octets = [6]\<rparr>, pk_trailing = [], key_id = [3]\<rparr>,
       cert = \<lparr>cert_version = 1, cert_type = 1, cert_data = [7], cert_sig = \<lparr>sig_version = 2, sig_issuer = [1], sig_octets = [8]\<rparr>,
         cert_revocation = None, cert_trailing = []\<rparr>\<rparr>]\<rparr>"

lemma wire_chain_ok: "chain_wf demo_crypto wire_chain" "val_ok certificate_chain_ty (certificate_chain_val wire_chain)"
proof -
  show "chain_wf demo_crypto wire_chain"
    by (simp add: chain_wf_def key_wf_def wire_chain_def construct_id_def demo_crypto_def element_def)
  show "val_ok certificate_chain_ty (certificate_chain_val wire_chain)"
    by (rule val_ok_bound)
      (simp_all add: certificate_chain_ty_def key_cert_pair_ty_def public_key_ty_def certificate_ty_def signature_ty_def
        revocation_ty_def wire_chain_def certificate_chain_val_def key_cert_pair_val_def public_key_val_def certificate_val_def
        signature_val_def suite_value_def max_structure_size_def max_constructed_size_def)
qed

theorem certificate_chain_wire_roundtrip_witness:
  "\<exists>d. write_der certificate_chain_ty (certificate_chain_val wire_chain) = Inr d \<and>
    read_der certificate_chain_ty (certificate_chain_of demo_crypto) (d @ [9, 9]) = Inr wire_chain"
  by (rule certificate_chain_wire_roundtrip [OF wire_chain_ok])


end
