(* ===== verification/Handshake.thy ===== *)
theory Handshake
  imports Crypto_Wire
begin

text \<open>
  The authentication handshake inside the TLS channel: \<^verbatim>\<open>network/encryption/context.cpp\<close>, the hello exchange of
  \<^verbatim>\<open>handshake/handshake.cpp\<close> and the two concrete handshakes, public key (\<^verbatim>\<open>pk_handshake.cpp\<close>) and shared
  secret (\<^verbatim>\<open>ss_handshake.cpp\<close>). Exceptions are values of a sum type until a \<^verbatim>\<open>catch\<close> turns them into
  the error state; the TLS exporter and the random values are arguments.
\<close>

section \<open>Data\<close>

record net_env =
  ne_crypto :: crypto
  ne_prims :: pk_prims
  ne_hmac :: "octets \<Rightarrow> octets \<Rightarrow> octets option"

datatype endpoint_role = Client | Server

record handshake_binding =
  local_binding :: octets
  remote_binding :: octets

record handshake_data =
  hd_tag :: "64 word"
  hd_address :: octets
  hd_binding :: handshake_binding
  hd_require_host :: "bool option"
  hd_role :: endpoint_role

datatype op_state = In_progress | Succeeded | Failed

type_synonym handshake_result = "op_state \<times> octets"

abbreviation (input) tag_public_key :: "64 word" where "tag_public_key \<equiv> 2"
abbreviation (input) tag_shared_secret :: "64 word" where "tag_shared_secret \<equiv> 4"

abbreviation (input) failed :: handshake_result where
  "failed \<equiv> (Failed, [])"

datatype handshake_error =
    Crypto_failure crypto_error | No_own_credentials | No_shared_secret | No_such_handshake | No_exporter

definition liftE :: "crypto_error + 'a \<Rightarrow> handshake_error + 'a" where
  "liftE r = (case r of Inl e \<Rightarrow> Inl (Crypto_failure e) | Inr x \<Rightarrow> Inr x)"

text \<open>The constructors that can be registered for a tag.\<close>

datatype constructor_kind = Client_pk_only | Server_pk_only | Pk_by_role | Client_ss_only | Server_ss_only

record net_context =
  ctx_keys :: key_access
  ctx_certs :: cert_access
  ctx_secrets :: "octets \<Rightarrow> octets option"
  ctx_my_key :: "private_key option"
  ctx_my_chain :: "certificate_chain option"
  ctx_handshakes :: "64 word \<rightharpoonup> constructor_kind"
  ctx_suite :: suite
  ctx_secret_id :: octets
  ctx_auth_remote :: bool

definition make_context ::
    "key_access \<Rightarrow> cert_access \<Rightarrow> (octets \<Rightarrow> octets option) \<Rightarrow> private_key option \<Rightarrow> certificate_chain option \<Rightarrow> net_context" where
  "make_context keys certs secrets my_key my_chain =
     \<lparr>ctx_keys = keys, ctx_certs = certs, ctx_secrets = secrets, ctx_my_key = my_key, ctx_my_chain = my_chain,
      ctx_handshakes = Map.empty, ctx_suite = default_suite, ctx_secret_id = [], ctx_auth_remote = True\<rparr>"

definition add_handshake :: "64 word \<Rightarrow> constructor_kind \<Rightarrow> net_context \<Rightarrow> net_context" where
  "add_handshake t k ctx = ctx\<lparr>ctx_handshakes := (ctx_handshakes ctx)(t \<mapsto> k)\<rparr>"

definition enable_client_pk_handshake :: "net_context \<Rightarrow> net_context" where
  "enable_client_pk_handshake = add_handshake tag_public_key Client_pk_only"

definition enable_server_pk_handshake :: "net_context \<Rightarrow> net_context" where
  "enable_server_pk_handshake = add_handshake tag_public_key Server_pk_only"

definition enable_pk_handshake :: "net_context \<Rightarrow> net_context" where
  "enable_pk_handshake = add_handshake tag_public_key Pk_by_role"

definition enable_client_ss_handshake :: "net_context \<Rightarrow> net_context" where
  "enable_client_ss_handshake = add_handshake tag_shared_secret Client_ss_only"

definition enable_server_ss_handshake :: "net_context \<Rightarrow> net_context" where
  "enable_server_ss_handshake = add_handshake tag_shared_secret Server_ss_only"

datatype tls_group_params = Hybrid_secp384r1_ml_kem_1024 | Hybrid_x25519_ml_kem_768

definition tls_group :: "net_context \<Rightarrow> tls_group_params" where
  "tls_group ctx = (if ctx_suite ctx = Pq1_high then Hybrid_secp384r1_ml_kem_1024 else Hybrid_x25519_ml_kem_768)"

section \<open>Messages\<close>

abbreviation (input) current_version :: "64 word" where "current_version \<equiv> 2"

definition hello_id_size :: nat where
  "hello_id_size = 16"

record client_hello =
  ch_version :: "64 word"
  ch_suite :: suite
  ch_request :: "64 word"
  ch_client_id :: octets

record server_hello =
  sh_version :: "64 word"
  sh_suite :: suite
  sh_response :: "64 word"
  sh_server_id :: octets
  sh_auth :: octets

definition client_hello_ty :: ty where
  "client_hello_ty = T_seq [T_uint 2, T_uint 2, T_int 4, T_octets]"

definition server_hello_ty :: ty where
  "server_hello_ty = T_seq [T_uint 2, T_uint 2, T_int 4, T_octets, T_octets]"

definition ack_ty :: ty where
  "ack_ty = T_seq [T_uint 2]"

definition client_hello_val :: "client_hello \<Rightarrow> val" where
  "client_hello_val h = V_seq [V_int (ch_version h), V_int (suite_value (ch_suite h)), V_int (ch_request h), V_octets (ch_client_id h)]"

definition server_hello_val :: "server_hello \<Rightarrow> val" where
  "server_hello_val h = V_seq [V_int (sh_version h), V_int (suite_value (sh_suite h)), V_int (sh_response h),
     V_octets (sh_server_id h), V_octets (sh_auth h)]"

definition client_hello_of :: "val \<Rightarrow> crypto_error + client_hello" where
  "client_hello_of v = (case v of
       V_seq [V_int ver, V_int s, V_int req, V_octets i] \<Rightarrow>
         bindE (suite_of_value s) (\<lambda>s. Inr \<lparr>ch_version = ver, ch_suite = s, ch_request = req, ch_client_id = i\<rparr>)
     | _ \<Rightarrow> bad_value)"

definition server_hello_of :: "val \<Rightarrow> crypto_error + server_hello" where
  "server_hello_of v = (case v of
       V_seq [V_int ver, V_int s, V_int resp, V_octets i, V_octets auth] \<Rightarrow>
         bindE (suite_of_value s) (\<lambda>s.
           Inr \<lparr>sh_version = ver, sh_suite = s, sh_response = resp, sh_server_id = i, sh_auth = auth\<rparr>)
     | _ \<Rightarrow> bad_value)"

definition ack_val :: "64 word \<Rightarrow> val" where
  "ack_val ver = V_seq [V_int ver]"

definition ack_of :: "val \<Rightarrow> crypto_error + 64 word" where
  "ack_of v = (case v of V_seq [V_int ver] \<Rightarrow> Inr ver | _ \<Rightarrow> bad_value)"

record auth_credentials =
  cr_key :: public_key
  cr_chain :: certificate_chain
  cr_sig :: signature

definition auth_credentials_ty :: ty where
  "auth_credentials_ty = T_seq [public_key_ty, certificate_chain_ty, signature_ty]"

definition auth_ty :: ty where
  "auth_ty = T_seq [T_optional auth_credentials_ty]"

definition auth_credentials_val :: "auth_credentials \<Rightarrow> val" where
  "auth_credentials_val cr = V_seq [public_key_val (cr_key cr), certificate_chain_val (cr_chain cr), signature_val (cr_sig cr)]"

definition auth_val :: "auth_credentials option \<Rightarrow> val" where
  "auth_val cr = V_seq [V_optional (map_option auth_credentials_val cr)]"

definition auth_credentials_of :: "crypto \<Rightarrow> val \<Rightarrow> crypto_error + auth_credentials" where
  "auth_credentials_of c v = (case v of
       V_seq [k, cc, sg] \<Rightarrow>
         bindE (public_key_of c k) (\<lambda>k. bindE (certificate_chain_of c cc) (\<lambda>cc. bindE (signature_of sg) (\<lambda>sg.
           Inr \<lparr>cr_key = k, cr_chain = cc, cr_sig = sg\<rparr>)))
     | _ \<Rightarrow> bad_value)"

definition auth_of :: "crypto \<Rightarrow> val \<Rightarrow> crypto_error + auth_credentials option" where
  "auth_of c v = (case v of
       V_seq [V_optional None] \<Rightarrow> Inr None
     | V_seq [V_optional (Some u)] \<Rightarrow> bindE (auth_credentials_of c u) (\<lambda>cr. Inr (Some cr))
     | _ \<Rightarrow> bad_value)"

record auth_ss =
  ss_secret_id :: octets
  ss_mac :: octets

definition auth_ss_ty :: ty where
  "auth_ss_ty = T_seq [T_octets, T_octets]"

definition auth_ss_val :: "auth_ss \<Rightarrow> val" where
  "auth_ss_val m = V_seq [V_octets (ss_secret_id m), V_octets (ss_mac m)]"

definition auth_ss_of :: "val \<Rightarrow> crypto_error + auth_ss" where
  "auth_ss_of v = (case v of
       V_seq [V_octets i, V_octets m] \<Rightarrow> Inr \<lparr>ss_secret_id = i, ss_mac = m\<rparr>
     | _ \<Rightarrow> bad_value)"

section \<open>Concrete handshakes\<close>

abbreviation (input) auth_context :: string where
  "auth_context \<equiv> ''sp-tls-auth''"

definition make_auth ::
    "net_env \<Rightarrow> octets \<Rightarrow> net_context \<Rightarrow> handshake_binding \<Rightarrow> bool \<Rightarrow> handshake_error + auth_credentials option" where
  "make_auth e r ctx b required =
     (case (ctx_my_key ctx, ctx_my_chain ctx) of
        (Some k, Some cc) \<Rightarrow>
          bindE (liftE (sk_sign (ne_prims e) r k (local_binding b) auth_context)) (\<lambda>s.
            Inr (Some \<lparr>cr_key = sk_public k, cr_chain = cc, cr_sig = s\<rparr>))
      | _ \<Rightarrow> if required then Inl No_own_credentials else Inr None)"

definition verify_credentials ::
    "net_env \<Rightarrow> net_context \<Rightarrow> auth_credentials \<Rightarrow> handshake_binding \<Rightarrow> octets option \<Rightarrow> handshake_error + bool" where
  "verify_credentials e ctx cr b rest =
     bindE (liftE (case rest of
                     Some host \<Rightarrow> chain_is_authentic_for (ne_crypto e) (ctx_keys ctx) (ctx_certs ctx) host (cr_chain cr)
                   | None \<Rightarrow> chain_is_authentic (ne_crypto e) (ctx_keys ctx) (ctx_certs ctx) (cr_chain cr))) (\<lambda>ok.
       if \<not> ok then Inr False
       else bindE (liftE (chain_subject (cr_chain cr))) (\<lambda>sub.
         if key_id sub \<noteq> key_id (cr_key cr) then Inr False
         else liftE (verify (ne_crypto e) (cr_key cr) (cr_sig cr) (remote_binding b) auth_context)))"

definition make_auth_ss :: "net_env \<Rightarrow> net_context \<Rightarrow> octets \<Rightarrow> handshake_binding \<Rightarrow> handshake_error + octets" where
  "make_auth_ss e ctx sid b =
     (case ctx_secrets ctx sid of
        None \<Rightarrow> Inl No_shared_secret
      | Some secret \<Rightarrow>
          (case ne_hmac e secret (local_binding b) of
             None \<Rightarrow> Inl No_shared_secret
           | Some mac \<Rightarrow> liftE (write_der auth_ss_ty (auth_ss_val \<lparr>ss_secret_id = sid, ss_mac = mac\<rparr>))))"

definition verify_auth_ss :: "net_env \<Rightarrow> net_context \<Rightarrow> auth_ss \<Rightarrow> handshake_binding \<Rightarrow> handshake_error + bool" where
  "verify_auth_ss e ctx msg b =
     (case ctx_secrets ctx (ss_secret_id msg) of
        None \<Rightarrow> Inr False
      | Some secret \<Rightarrow>
          (case ne_hmac e secret (remote_binding b) of
             None \<Rightarrow> Inl No_shared_secret
           | Some mac \<Rightarrow> Inr (length (ss_mac msg) = length mac \<and> mac = ss_mac msg)))"

datatype concrete =
    Client_pk handshake_data bool "public_key option"
  | Server_pk handshake_binding "public_key option"
  | Client_ss octets handshake_binding
  | Server_ss octets handshake_binding

text \<open>\<^verbatim>\<open>catch(std::exception const&)\<close> around a step gives the error state.\<close>

definition caught :: "handshake_error + handshake_result \<Rightarrow> handshake_result" where
  "caught r = (case r of Inl _ \<Rightarrow> failed | Inr x \<Rightarrow> x)"

definition restriction_of :: "handshake_data \<Rightarrow> octets option" where
  "restriction_of info =
     (let restrict = (case hd_require_host info of None \<Rightarrow> True | Some b \<Rightarrow> b)
      in if restrict then Some (hd_address info) else None)"

definition verify_server_and_reply ::
    "net_env \<Rightarrow> octets \<Rightarrow> net_context \<Rightarrow> octets \<Rightarrow> handshake_data \<Rightarrow> public_key option \<Rightarrow> handshake_result \<times> concrete" where
  "verify_server_and_reply e r ctx d info rk =
     (let unchanged = Client_pk info False rk
      in case liftE (read_der auth_ty (auth_of (ne_crypto e)) d) of
           Inl _ \<Rightarrow> (failed, unchanged)
         | Inr None \<Rightarrow> (failed, unchanged)
         | Inr (Some cr) \<Rightarrow>
             (case verify_credentials e ctx cr (hd_binding info) (restriction_of info) of
                Inl _ \<Rightarrow> (failed, unchanged)
              | Inr False \<Rightarrow> (failed, unchanged)
              | Inr True \<Rightarrow>
                    (caught (bindE (make_auth e r ctx (hd_binding info) False) (\<lambda>reply.
                       bindE (liftE (write_der auth_ty (auth_val reply))) (\<lambda>packet. Inr (In_progress, packet)))),
                     Client_pk info True (Some (cr_key cr)))))"

definition client_pk_ack :: "octets \<Rightarrow> handshake_result" where
  "client_pk_ack d =
     (case read_der ack_ty ack_of d of
        Inl _ \<Rightarrow> failed
      | Inr ver \<Rightarrow> if ver \<noteq> current_version then failed else (Succeeded, []))"

definition server_pk_handle ::
    "net_env \<Rightarrow> net_context \<Rightarrow> octets \<Rightarrow> handshake_binding \<Rightarrow> public_key option \<Rightarrow> handshake_result \<times> concrete" where
  "server_pk_handle e ctx d b rk =
     (let ack = (\<lambda>rk. (caught (bindE (liftE (write_der ack_ty (ack_val current_version))) (\<lambda>p. Inr (Succeeded, p))), Server_pk b rk))
      in case liftE (read_der auth_ty (auth_of (ne_crypto e)) d) of
           Inl _ \<Rightarrow> (failed, Server_pk b rk)
         | Inr (Some cr) \<Rightarrow>
             (case verify_credentials e ctx cr b None of
                Inl _ \<Rightarrow> (failed, Server_pk b rk)
              | Inr False \<Rightarrow> (failed, Server_pk b rk)
              | Inr True \<Rightarrow> ack (Some (cr_key cr)))
         | Inr None \<Rightarrow> if ctx_auth_remote ctx then (failed, Server_pk b rk) else ack rk)"

definition client_ss_handle :: "net_env \<Rightarrow> net_context \<Rightarrow> octets \<Rightarrow> octets \<Rightarrow> handshake_binding \<Rightarrow> handshake_result" where
  "client_ss_handle e ctx d sid b =
     caught (bindE (liftE (read_der auth_ss_ty auth_ss_of d)) (\<lambda>msg.
       if ss_secret_id msg = sid
       then bindE (verify_auth_ss e ctx msg b) (\<lambda>ok. Inr (if ok then (Succeeded, []) else failed))
       else Inr failed))"

definition server_ss_handle :: "net_env \<Rightarrow> net_context \<Rightarrow> octets \<Rightarrow> handshake_binding \<Rightarrow> handshake_result" where
  "server_ss_handle e ctx d b =
     caught (bindE (liftE (read_der auth_ss_ty auth_ss_of d)) (\<lambda>msg.
       bindE (verify_auth_ss e ctx msg b) (\<lambda>ok.
         if ok then bindE (make_auth_ss e ctx (ss_secret_id msg) b) (\<lambda>p. Inr (Succeeded, p)) else Inr failed)))"

definition concrete_start :: "net_env \<Rightarrow> octets \<Rightarrow> net_context \<Rightarrow> concrete \<Rightarrow> handshake_result" where
  "concrete_start e r ctx h = (case h of
       Client_pk _ _ _ \<Rightarrow> failed
     | Server_pk b _ \<Rightarrow>
         caught (bindE (make_auth e r ctx b True) (\<lambda>msg.
           bindE (liftE (write_der auth_ty (auth_val msg))) (\<lambda>p. Inr (In_progress, p))))
     | Client_ss sid b \<Rightarrow> caught (bindE (make_auth_ss e ctx sid b) (\<lambda>p. Inr (In_progress, p)))
     | Server_ss _ _ \<Rightarrow> (In_progress, []))"

definition concrete_handle :: "net_env \<Rightarrow> octets \<Rightarrow> net_context \<Rightarrow> octets \<Rightarrow> concrete \<Rightarrow> handshake_result \<times> concrete" where
  "concrete_handle e r ctx d h = (case h of
       Client_pk info verified rk \<Rightarrow>
         if \<not> verified then verify_server_and_reply e r ctx d info rk else (client_pk_ack d, h)
     | Server_pk b rk \<Rightarrow> server_pk_handle e ctx d b rk
     | Client_ss sid b \<Rightarrow> (client_ss_handle e ctx d sid b, h)
     | Server_ss sid b \<Rightarrow> (server_ss_handle e ctx d b, h))"

definition remote_public_key :: "concrete \<Rightarrow> public_key option" where
  "remote_public_key h = (case h of Client_pk _ _ rk \<Rightarrow> rk | Server_pk _ rk \<Rightarrow> rk | _ \<Rightarrow> None)"

definition construct_handshake :: "net_context \<Rightarrow> handshake_data \<Rightarrow> handshake_error + concrete" where
  "construct_handshake ctx info =
     (let cpk = Client_pk info False None; spk = Server_pk (hd_binding info) None
      in case ctx_handshakes ctx (hd_tag info) of
           None \<Rightarrow> Inl No_such_handshake
         | Some Client_pk_only \<Rightarrow> Inr cpk
         | Some Server_pk_only \<Rightarrow> Inr spk
         | Some Pk_by_role \<Rightarrow> Inr (if hd_role info = Server then spk else cpk)
         | Some Client_ss_only \<Rightarrow> Inr (Client_ss (ctx_secret_id ctx) (hd_binding info))
         | Some Server_ss_only \<Rightarrow> Inr (Server_ss (ctx_secret_id ctx) (hd_binding info)))"

section \<open>The driver\<close>

type_synonym exporter_function = "string \<Rightarrow> octets \<Rightarrow> nat \<Rightarrow> octets option"

record handshake =
  hs_role :: endpoint_role
  hs_requested :: handshake_data
  hs_client_id :: octets
  hs_server_id :: octets
  hs_hello_sent :: bool
  hs_concrete :: "concrete option"

abbreviation (input) binding_label :: string where "binding_label \<equiv> ''EXPORTER-securepath-auth''"

definition binding_size :: nat where
  "binding_size = 32"

definition no_binding :: handshake_binding where
  "no_binding = \<lparr>local_binding = [], remote_binding = []\<rparr>"

definition make_handshake_data :: "64 word \<Rightarrow> bool option \<Rightarrow> handshake_data" where
  "make_handshake_data t d = \<lparr>hd_tag = t, hd_address = [], hd_binding = no_binding, hd_require_host = d, hd_role = Client\<rparr>"

definition make_handshake :: "endpoint_role \<Rightarrow> handshake" where
  "make_handshake role = \<lparr>hs_role = role, hs_requested = make_handshake_data 0 None, hs_client_id = [], hs_server_id = [],
     hs_hello_sent = False, hs_concrete = None\<rparr>"

definition role_byte :: "endpoint_role \<Rightarrow> octet" where
  "role_byte r = (case r of Client \<Rightarrow> 1 | Server \<Rightarrow> 2)"

definition other_role :: "endpoint_role \<Rightarrow> endpoint_role" where
  "other_role r = (case r of Client \<Rightarrow> Server | Server \<Rightarrow> Client)"

definition binding_context :: "octet \<Rightarrow> octets \<Rightarrow> octets \<Rightarrow> octets" where
  "binding_context role client_id server_id = [role] @ client_id @ server_id"

definition derive_binding :: "exporter_function \<Rightarrow> handshake \<Rightarrow> handshake_error + handshake_binding" where
  "derive_binding xp hs =
     (let value = (\<lambda>role. xp binding_label (binding_context (role_byte role) (hs_client_id hs) (hs_server_id hs)) binding_size)
      in case (value (hs_role hs), value (other_role (hs_role hs))) of
           (Some l, Some r) \<Rightarrow> Inr \<lparr>local_binding = l, remote_binding = r\<rparr>
         | _ \<Rightarrow> Inl No_exporter)"

text \<open>The binding and the role stay set when no handshake can be constructed.\<close>

definition make_concrete :: "exporter_function \<Rightarrow> net_context \<Rightarrow> handshake \<Rightarrow> (handshake_error + concrete) \<times> handshake" where
  "make_concrete xp ctx hs =
     (case derive_binding xp hs of
        Inl e \<Rightarrow> (Inl e, hs)
      | Inr b \<Rightarrow>
          let req = (hs_requested hs)\<lparr>hd_binding := b, hd_role := hs_role hs\<rparr>
          in case construct_handshake ctx req of
               Inl e \<Rightarrow> (Inl e, hs\<lparr>hs_requested := req\<rparr>)
             | Inr h \<Rightarrow> (Inr h, hs\<lparr>hs_requested := req, hs_concrete := Some h\<rparr>))"

definition handshake_start :: "octets \<Rightarrow> net_context \<Rightarrow> handshake_data \<Rightarrow> handshake \<Rightarrow> handshake_error + handshake_result \<times> handshake" where
  "handshake_start rid ctx info hs =
     bindE (liftE (write_der client_hello_ty (client_hello_val
         \<lparr>ch_version = current_version, ch_suite = ctx_suite ctx, ch_request = hd_tag info, ch_client_id = rid\<rparr>))) (\<lambda>p.
       Inr ((In_progress, p), hs\<lparr>hs_requested := info, hs_hello_sent := True, hs_client_id := rid\<rparr>))"

definition handle_client_hello ::
    "net_env \<Rightarrow> exporter_function \<Rightarrow> octets \<Rightarrow> octets \<Rightarrow> net_context \<Rightarrow> octets \<Rightarrow> handshake \<Rightarrow> handshake_result \<times> handshake" where
  "handle_client_hello e xp rid r ctx d hs =
     (case read_der client_hello_ty client_hello_of d of
        Inl _ \<Rightarrow> (failed, hs)
      | Inr hello \<Rightarrow>
          if ch_version hello \<noteq> current_version then (failed, hs)
          else if ch_suite hello \<noteq> ctx_suite ctx then (failed, hs)
          else
            let hs = hs\<lparr>hs_client_id := ch_client_id hello, hs_server_id := rid,
                        hs_requested := make_handshake_data (ch_request hello) None\<rparr>
            in case make_concrete xp ctx hs of
                 (Inl _, hs) \<Rightarrow> (failed, hs)
               | (Inr h, hs) \<Rightarrow>
                   let first = concrete_start e r ctx h
                   in if fst first = Failed then (failed, hs)
                      else (caught (bindE (liftE (write_der server_hello_ty (server_hello_val
                              \<lparr>sh_version = current_version, sh_suite = ctx_suite ctx, sh_response = ch_request hello,
                               sh_server_id = hs_server_id hs, sh_auth = snd first\<rparr>))) (\<lambda>p. Inr (In_progress, p))), hs))"

definition handle_server_hello ::
    "net_env \<Rightarrow> exporter_function \<Rightarrow> octets \<Rightarrow> net_context \<Rightarrow> octets \<Rightarrow> handshake \<Rightarrow> handshake_result \<times> handshake" where
  "handle_server_hello e xp r ctx d hs =
     (case read_der server_hello_ty server_hello_of d of
        Inl _ \<Rightarrow> (failed, hs)
      | Inr hello \<Rightarrow>
          if sh_version hello \<noteq> current_version then (failed, hs)
          else if sh_response hello \<noteq> hd_tag (hs_requested hs) \<or> sh_suite hello \<noteq> ctx_suite ctx then (failed, hs)
          else
            let hs = hs\<lparr>hs_server_id := sh_server_id hello\<rparr>
            in case make_concrete xp ctx hs of
                 (Inl _, hs) \<Rightarrow> (failed, hs)
               | (Inr h, hs) \<Rightarrow>
                   if sh_auth hello \<noteq> []
                   then (let (res, h) = concrete_handle e r ctx (sh_auth hello) h
                         in (res, hs\<lparr>hs_concrete := Some h\<rparr>))
                   else (concrete_start e r ctx h, hs))"

definition handle_packet ::
    "net_env \<Rightarrow> exporter_function \<Rightarrow> octets \<Rightarrow> octets \<Rightarrow> net_context \<Rightarrow> octets \<Rightarrow> handshake \<Rightarrow> handshake_result \<times> handshake" where
  "handle_packet e xp rid r ctx d hs =
     (if hs_hello_sent hs then handle_server_hello e xp r ctx d (hs\<lparr>hs_hello_sent := False\<rparr>)
      else case hs_concrete hs of
             None \<Rightarrow> handle_client_hello e xp rid r ctx d hs
           | Some h \<Rightarrow>
               let (res, h') = concrete_handle e r ctx d h in (res, hs\<lparr>hs_concrete := Some h'\<rparr>))"

section \<open>Messages survive the wire\<close>

lemma wire_ok:
  assumes "headed t" "ty_ok t" "depth t \<le> max_structure_depth" "shape_ok t v" "bound t v \<le> max_constructed_size" "of_val v = Inr x"
  shows "write_der t v = Inr (der t None v)" "read_der t of_val (der t None v) = Inr x"
proof -
  note ok = asn_der_ok [OF assms(1,2) val_ok_bound [OF assms(4,5)] assms(3)]
  show "write_der t v = Inr (der t None v)" using ok(1) by (simp add: write_der_def)
  show "read_der t of_val (der t None v) = Inr x" using ok(2) [of "[]"] assms(6) by (simp add: read_der_def)
qed

definition tag_in_range :: "64 word \<Rightarrow> bool" where
  "tag_in_range t \<longleftrightarrow> - (2 ^ 31) \<le> sint t \<and> sint t < 2 ^ 31"

lemma suite_value_small: "unat (suite_value s) < 65536"
  by (simp add: suite_value_def split: suite.splits)

lemma client_hello_wire:
  assumes "unat (ch_version h) < 2 ^ 16" "tag_in_range (ch_request h)" "length (ch_client_id h) \<le> 1000"
  shows "write_der client_hello_ty (client_hello_val h) = Inr (der client_hello_ty None (client_hello_val h))"
    "read_der client_hello_ty client_hello_of (der client_hello_ty None (client_hello_val h)) = Inr h"
  by (rule wire_ok; use assms suite_value_small in \<open>simp add: client_hello_ty_def client_hello_val_def client_hello_of_def tag_in_range_def
      max_structure_depth_def max_structure_size_def max_constructed_size_def\<close>)+

lemma server_hello_wire:
  assumes "unat (sh_version h) < 2 ^ 16" "tag_in_range (sh_response h)" "length (sh_server_id h) \<le> 1000"
    "length (sh_auth h) \<le> max_structure_size"
  shows "write_der server_hello_ty (server_hello_val h) = Inr (der server_hello_ty None (server_hello_val h))"
    "read_der server_hello_ty server_hello_of (der server_hello_ty None (server_hello_val h)) = Inr h"
  by (rule wire_ok; use assms suite_value_small in \<open>simp add: server_hello_ty_def server_hello_val_def server_hello_of_def tag_in_range_def
      max_structure_depth_def max_structure_size_def max_constructed_size_def\<close>)+

lemma ack_wire:
  "write_der ack_ty (ack_val 2) = Inr (der ack_ty None (ack_val 2))"
  "read_der ack_ty ack_of (der ack_ty None (ack_val 2)) = Inr 2"
  by (rule wire_ok; simp add: ack_ty_def ack_val_def ack_of_def max_structure_depth_def max_constructed_size_def)+

lemma auth_ss_wire:
  assumes "length (ss_secret_id m) \<le> 10000" "length (ss_mac m) \<le> 10000"
  shows "write_der auth_ss_ty (auth_ss_val m) = Inr (der auth_ss_ty None (auth_ss_val m))"
    "read_der auth_ss_ty auth_ss_of (der auth_ss_ty None (auth_ss_val m)) = Inr m"
  by (rule wire_ok; use assms in \<open>simp add: auth_ss_ty_def auth_ss_val_def auth_ss_of_def max_structure_depth_def
      max_structure_size_def max_constructed_size_def\<close>)+

text \<open>Credentials of a size that the encoder accepts.\<close>

definition wire_sized :: "public_key \<Rightarrow> certificate_chain \<Rightarrow> bool" where
  "wire_sized k cc \<longleftrightarrow> shape_ok public_key_ty (public_key_val k) \<and> shape_ok certificate_chain_ty (certificate_chain_val cc) \<and>
     length (key_id k) \<le> 1000 \<and> bound public_key_ty (public_key_val k) + bound certificate_chain_ty (certificate_chain_val cc) \<le> 2000000"

lemma credential_values [simp]:
  "public_key_val k \<noteq> V_optional None" "certificate_chain_val cc \<noteq> V_optional None" "signature_val s \<noteq> V_optional None"
  by (simp_all add: public_key_val_def certificate_chain_val_def signature_val_def)

lemma auth_of_val:
  assumes "key_wf c (cr_key cr)" "chain_wf c (cr_chain cr)"
  shows "auth_of c (auth_val (Some cr)) = Inr (Some cr)"
  using public_key_of_val [OF assms(1)] certificate_chain_of_val [OF assms(2)]
  by (simp add: auth_of_def auth_val_def auth_credentials_of_def auth_credentials_val_def)

lemma auth_types: "headed auth_ty" "ty_ok auth_ty" "depth auth_ty \<le> max_structure_depth"
  by (simp_all add: auth_ty_def auth_credentials_ty_def certificate_chain_ty_def key_cert_pair_ty_def public_key_ty_def
      certificate_ty_def signature_ty_def revocation_ty_def max_structure_depth_def)

lemma signature_sized:
  assumes "unat (sig_version s) < 2 ^ 32" "length (sig_issuer s) \<le> 1000" "length (sig_octets s) \<le> 4627"
  shows "shape_ok signature_ty (signature_val s)" "bound signature_ty (signature_val s) \<le> 6000"
  using assms by (simp_all add: signature_ty_def signature_val_def max_structure_size_def)

lemma auth_wire:
  assumes "key_wf c (cr_key cr)" "chain_wf c (cr_chain cr)" "wire_sized (cr_key cr) (cr_chain cr)"
    "unat (sig_version (cr_sig cr)) < 2 ^ 32" "length (sig_issuer (cr_sig cr)) \<le> 1000" "length (sig_octets (cr_sig cr)) \<le> 4627"
  shows "write_der auth_ty (auth_val (Some cr)) = Inr (der auth_ty None (auth_val (Some cr)))"
    "read_der auth_ty (auth_of c) (der auth_ty None (auth_val (Some cr))) = Inr (Some cr)"
    "length (der auth_ty None (auth_val (Some cr))) \<le> max_structure_size" "der auth_ty None (auth_val (Some cr)) \<noteq> []"
proof -
  note s = signature_sized [OF assms(4-6)]
  have sh: "shape_ok auth_ty (auth_val (Some cr))" and b: "bound auth_ty (auth_val (Some cr)) \<le> 2010000"
    using assms(3) s
    by (simp_all add: auth_ty_def auth_val_def auth_credentials_ty_def auth_credentials_val_def wire_sized_def)
  have b': "bound auth_ty (auth_val (Some cr)) \<le> max_constructed_size" using b by (simp add: max_constructed_size_def)
  note w = wire_ok [where of_val = "auth_of c", OF auth_types sh b' auth_of_val [OF assms(1,2)]]
  show "write_der auth_ty (auth_val (Some cr)) = Inr (der auth_ty None (auth_val (Some cr)))"
    "read_der auth_ty (auth_of c) (der auth_ty None (auth_val (Some cr))) = Inr (Some cr)" by (rule w)+
  have "length (der auth_ty None (auth_val (Some cr))) \<le> bound auth_ty (auth_val (Some cr))"
    using fits_None [OF fits_all sh b'] by blast
  then show "length (der auth_ty None (auth_val (Some cr))) \<le> max_structure_size" using b by (simp add: max_structure_size_def)
  show "der auth_ty None (auth_val (Some cr)) \<noteq> []"
    using der_head [OF auth_types(1,2) val_ok_bound [OF sh b'], of None] headed_by_nonempty by simp
qed


section \<open>Credentials\<close>

lemma liftE_simps [simp]: "liftE (Inr x) = Inr x" "liftE (Inl e) = Inl (Crypto_failure e)"
  by (simp_all add: liftE_def)

lemma caught_simps [simp]: "caught (Inr x) = x" "caught (Inl e) = (Failed, [])"
  by (simp_all add: caught_def)

text \<open>What one side brings along, and what the other side's stores make of it.\<close>

definition presents :: "net_env \<Rightarrow> net_context \<Rightarrow> private_key \<Rightarrow> certificate_chain \<Rightarrow> bool" where
  "presents e ctx k cc \<longleftrightarrow> ctx_my_key ctx = Some k \<and> ctx_my_chain ctx = Some cc \<and>
     key_pair (ne_crypto e) (ne_prims e) k \<and> key_wf (ne_crypto e) (sk_public k) \<and> chain_wf (ne_crypto e) cc \<and>
     map_sum id key_id (chain_subject cc) = Inr (key_id (sk_public k)) \<and> wire_sized (sk_public k) cc"

definition accepts :: "net_env \<Rightarrow> net_context \<Rightarrow> certificate_chain \<Rightarrow> octets option \<Rightarrow> bool" where
  "accepts e ctx cc rest \<longleftrightarrow>
     (case rest of
        None \<Rightarrow> chain_is_authentic (ne_crypto e) (ctx_keys ctx) (ctx_certs ctx) cc = Inr True
      | Some host \<Rightarrow> chain_is_authentic_for (ne_crypto e) (ctx_keys ctx) (ctx_certs ctx) host cc = Inr True)"

lemma make_auth_ok:
  assumes "prims_ok (ne_crypto e) a (ne_prims e)" "presents e ctx k cc"
  shows "\<exists>cr d. make_auth e r ctx b req = Inr (Some cr) \<and> cr_key cr = sk_public k \<and> cr_chain cr = cc \<and>
    verify (ne_crypto e) (sk_public k) (cr_sig cr) (local_binding b) auth_context = Inr True \<and>
    write_der auth_ty (auth_val (Some cr)) = Inr d \<and> read_der auth_ty (auth_of (ne_crypto e)) d = Inr (Some cr) \<and>
    d \<noteq> [] \<and> length d \<le> max_structure_size"
proof -
  have kp: "key_pair (ne_crypto e) (ne_prims e) k" and ctx: "ctx_my_key ctx = Some k" "ctx_my_chain ctx = Some cc"
    and wf: "key_wf (ne_crypto e) (sk_public k)" "chain_wf (ne_crypto e) cc" and sz: "wire_sized (sk_public k) cc"
    using assms(2) by (simp_all add: presents_def)
  obtain s where s: "sk_sign (ne_prims e) r k (local_binding b) auth_context = Inr s" "sig_issuer s = key_id (sk_public k)"
    "sig_version s = 2" "length (sig_octets s) \<le> 4627" 
    "verify (ne_crypto e) (sk_public k) s (local_binding b) auth_context = Inr True"
    using sign_verify [OF assms(1) kp, of auth_context r "local_binding b"] key_pair_valid [OF assms(1) kp] kp
    by (auto simp: key_pair_def Let_def)
  let ?cr = "\<lparr>cr_key = sk_public k, cr_chain = cc, cr_sig = s\<rparr>"
  have "make_auth e r ctx b req = Inr (Some ?cr)" using s(1) ctx by (simp add: make_auth_def)
  moreover have "length (sig_issuer s) \<le> 1000" using sz s(2) by (simp add: wire_sized_def)
  ultimately show ?thesis using auth_wire [of "ne_crypto e" ?cr] wf sz s(3-5) by auto
qed

lemma verify_credentials_ok:
  assumes "accepts e ctx cc rest" "cr_chain cr = cc" "cr_key cr = k" "map_sum id key_id (chain_subject cc) = Inr (key_id k)"
    "verify (ne_crypto e) k (cr_sig cr) (remote_binding b) auth_context = Inr True"
  shows "verify_credentials e ctx cr b rest = Inr True"
proof -
  obtain sub where "chain_subject cc = Inr sub" "key_id sub = key_id k" using assms(4) by (cases "chain_subject cc") auto
  then show ?thesis using assms by (cases rest) (simp_all add: verify_credentials_def accepts_def)
qed

lemma verify_credentials_True:
  assumes "verify_credentials e ctx cr b rest = Inr True"
  shows "accepts e ctx (cr_chain cr) rest" "map_sum id key_id (chain_subject (cr_chain cr)) = Inr (key_id (cr_key cr))"
    "verify (ne_crypto e) (cr_key cr) (cr_sig cr) (remote_binding b) auth_context = Inr True"
proof -
  have l: "liftE r = Inr x \<longleftrightarrow> r = Inr x" for r :: "crypto_error + 'x" and x by (cases r) simp_all
  show "accepts e ctx (cr_chain cr) rest" "map_sum id key_id (chain_subject (cr_chain cr)) = Inr (key_id (cr_key cr))"
    "verify (ne_crypto e) (cr_key cr) (cr_sig cr) (remote_binding b) auth_context = Inr True"
    using assms by (auto simp: verify_credentials_def accepts_def l split: if_splits option.splits)
qed

section \<open>Bindings\<close>

text \<open>Both sides know the same pair of identifiers: what one signs is what the other verifies.\<close>

abbreviation side_binding :: "(string \<Rightarrow> octets \<Rightarrow> nat \<Rightarrow> octets) \<Rightarrow> endpoint_role \<Rightarrow> octets \<Rightarrow> octets \<Rightarrow> octets" where
  "side_binding f role cid sid \<equiv> f binding_label (binding_context (role_byte role) cid sid) binding_size"

lemma derive_binding_total:
  "derive_binding (\<lambda>l c n. Some (f l c n)) hs =
     Inr \<lparr>local_binding = side_binding f (hs_role hs) (hs_client_id hs) (hs_server_id hs),
          remote_binding = side_binding f (other_role (hs_role hs)) (hs_client_id hs) (hs_server_id hs)\<rparr>"
  by (simp add: derive_binding_def Let_def)

lemma binding_context_separated:
  assumes "binding_context (role_byte r) c s = binding_context (role_byte r') c' s'" "length c = length c'"
  shows "r = r' \<and> c = c' \<and> s = s'"
  using assms by (auto simp: binding_context_def role_byte_def split: endpoint_role.splits)

section \<open>The public key handshake\<close>

lemma client_starts:
  assumes "tag_in_range (hd_tag info)" "length cid \<le> 1000"
  shows "\<exists>p. handshake_start cid ctx info hs =
      Inr ((In_progress, p), hs\<lparr>hs_requested := info, hs_hello_sent := True, hs_client_id := cid\<rparr>) \<and>
    read_der client_hello_ty client_hello_of p =
      Inr \<lparr>ch_version = 2, ch_suite = ctx_suite ctx, ch_request = hd_tag info, ch_client_id = cid\<rparr>"
  using client_hello_wire [of "\<lparr>ch_version = 2, ch_suite = ctx_suite ctx, ch_request = hd_tag info, ch_client_id = cid\<rparr>"] assms
  by (simp add: handshake_start_def)


abbreviation exporter_of :: "(string \<Rightarrow> octets \<Rightarrow> nat \<Rightarrow> octets) \<Rightarrow> exporter_function" where
  "exporter_of f \<equiv> \<lambda>l c n. Some (f l c n)"

abbreviation binding_for :: "(string \<Rightarrow> octets \<Rightarrow> nat \<Rightarrow> octets) \<Rightarrow> endpoint_role \<Rightarrow> octets \<Rightarrow> octets \<Rightarrow> handshake_binding" where
  "binding_for f role cid sid \<equiv> \<lparr>local_binding = side_binding f role cid sid, remote_binding = side_binding f (other_role role) cid sid\<rparr>"

definition serves_pk :: "net_context \<Rightarrow> bool" where
  "serves_pk ctx \<longleftrightarrow> ctx_handshakes ctx tag_public_key = Some Server_pk_only \<or> ctx_handshakes ctx tag_public_key = Some Pk_by_role"

definition dials_pk :: "net_context \<Rightarrow> bool" where
  "dials_pk ctx \<longleftrightarrow> ctx_handshakes ctx tag_public_key = Some Client_pk_only \<or> ctx_handshakes ctx tag_public_key = Some Pk_by_role"

lemma make_concrete_pk_server:
  assumes "serves_pk ctx" "hd_tag (hs_requested hs) = tag_public_key" "hs_role hs = Server"
  shows "make_concrete (exporter_of f) ctx hs =
    (let b = binding_for f Server (hs_client_id hs) (hs_server_id hs)
     in (Inr (Server_pk b None), hs\<lparr>hs_requested := (hs_requested hs)\<lparr>hd_binding := b, hd_role := Server\<rparr>,
           hs_concrete := Some (Server_pk b None)\<rparr>))"
  using assms by (auto simp: make_concrete_def derive_binding_total construct_handshake_def serves_pk_def Let_def)

lemma make_concrete_pk_client:
  assumes "dials_pk ctx" "hd_tag (hs_requested hs) = tag_public_key" "hs_role hs = Client"
  shows "make_concrete (exporter_of f) ctx hs =
    (let b = binding_for f Client (hs_client_id hs) (hs_server_id hs);
         info = (hs_requested hs)\<lparr>hd_binding := b, hd_role := Client\<rparr>
     in (Inr (Client_pk info False None), hs\<lparr>hs_requested := info, hs_concrete := Some (Client_pk info False None)\<rparr>))"
  using assms by (auto simp: make_concrete_def derive_binding_total construct_handshake_def dials_pk_def Let_def)

lemma server_answers:
  assumes "prims_ok (ne_crypto e) a (ne_prims e)" "presents e ctx k cc" "serves_pk ctx" "length sid \<le> 1000"
    "read_der client_hello_ty client_hello_of p =
      Inr \<lparr>ch_version = 2, ch_suite = ctx_suite ctx, ch_request = tag_public_key, ch_client_id = cid\<rparr>"
  shows "\<exists>q hs cr d. handle_packet e (exporter_of f) sid r ctx p (make_handshake Server) = ((In_progress, q), hs) \<and>
    hs_hello_sent hs = False \<and> hs_concrete hs = Some (Server_pk (binding_for f Server cid sid) None) \<and>
    hd_tag (hs_requested hs) = tag_public_key \<and>
    read_der server_hello_ty server_hello_of q = Inr \<lparr>sh_version = 2, sh_suite = ctx_suite ctx, sh_response = tag_public_key,
      sh_server_id = sid, sh_auth = d\<rparr> \<and>
    d \<noteq> [] \<and> read_der auth_ty (auth_of (ne_crypto e)) d = Inr (Some cr) \<and> cr_key cr = sk_public k \<and> cr_chain cr = cc \<and>
    verify (ne_crypto e) (sk_public k) (cr_sig cr) (side_binding f Server cid sid) auth_context = Inr True"
proof -
  let ?b = "binding_for f Server cid sid"
  obtain cr d where cr: "make_auth e r ctx ?b True = Inr (Some cr)" "cr_key cr = sk_public k" "cr_chain cr = cc"
    "verify (ne_crypto e) (sk_public k) (cr_sig cr) (side_binding f Server cid sid) auth_context = Inr True"
    and d: "write_der auth_ty (auth_val (Some cr)) = Inr d" "read_der auth_ty (auth_of (ne_crypto e)) d = Inr (Some cr)"
    "d \<noteq> []" "length d \<le> max_structure_size"
    using make_auth_ok [OF assms(1,2), of r ?b True] by auto
  let ?h = "\<lparr>sh_version = 2, sh_suite = ctx_suite ctx, sh_response = tag_public_key, sh_server_id = sid, sh_auth = d\<rparr>"
  have w: "write_der server_hello_ty (server_hello_val ?h) = Inr (der server_hello_ty None (server_hello_val ?h))"
    "read_der server_hello_ty server_hello_of (der server_hello_ty None (server_hello_val ?h)) = Inr ?h"
    using server_hello_wire [of ?h] assms(4) d(4) by (simp_all add: tag_in_range_def)
  have "concrete_start e r ctx (Server_pk ?b None) = (In_progress, d)" using cr(1) d(1) by (simp add: concrete_start_def)
  then have "handle_packet e (exporter_of f) sid r ctx p (make_handshake Server) =
    ((In_progress, der server_hello_ty None (server_hello_val ?h)), (make_handshake Server)\<lparr>hs_client_id := cid, hs_server_id := sid,
       hs_requested := (make_handshake_data tag_public_key None)\<lparr>hd_binding := ?b, hd_role := Server\<rparr>,
       hs_concrete := Some (Server_pk ?b None)\<rparr>)"
    using w(1) assms(3,5)
    by (simp add: handle_packet_def handle_client_hello_def make_handshake_def make_handshake_data_def make_concrete_pk_server Let_def)
  then show ?thesis using w(2) d cr by (simp add: make_handshake_def make_handshake_data_def)
qed

lemma restriction_of_fields [simp]: "restriction_of (info\<lparr>hd_binding := b, hd_role := r\<rparr>) = restriction_of info"
  by (simp add: restriction_of_def)

lemma client_replies:
  assumes "prims_ok (ne_crypto e) a (ne_prims e)" "presents e ctx k cc" "dials_pk ctx" "accepts e ctx scc (restriction_of info)"
    "hd_tag info = tag_public_key" "map_sum id key_id (chain_subject scc) = Inr (key_id sk)"
    "read_der server_hello_ty server_hello_of q = Inr \<lparr>sh_version = 2, sh_suite = ctx_suite ctx, sh_response = tag_public_key,
      sh_server_id = sid, sh_auth = d\<rparr>" "d \<noteq> []" 
    "read_der auth_ty (auth_of (ne_crypto e)) d = Inr (Some cr)" "cr_key cr = sk" "cr_chain cr = scc"
    "verify (ne_crypto e) sk (cr_sig cr) (side_binding f Server cid sid) auth_context = Inr True"
    "hs = (make_handshake Client)\<lparr>hs_requested := info, hs_hello_sent := True, hs_client_id := cid\<rparr>"
  shows "\<exists>p hs' cr' info'. handle_packet e (exporter_of f) rid r ctx q hs = ((In_progress, p), hs') \<and> p \<noteq> [] \<and> hs_hello_sent hs' = False \<and>
    hs_concrete hs' = Some (Client_pk info' True (Some sk)) \<and>
    read_der auth_ty (auth_of (ne_crypto e)) p = Inr (Some cr') \<and> cr_key cr' = sk_public k \<and> cr_chain cr' = cc \<and>
    verify (ne_crypto e) (sk_public k) (cr_sig cr') (side_binding f Client cid sid) auth_context = Inr True"
proof -
  let ?b = "binding_for f Client cid sid" let ?info = "info\<lparr>hd_binding := ?b, hd_role := Client\<rparr>"
  obtain cr' p where cr': "make_auth e r ctx ?b False = Inr (Some cr')" "cr_key cr' = sk_public k" "cr_chain cr' = cc"
    "verify (ne_crypto e) (sk_public k) (cr_sig cr') (side_binding f Client cid sid) auth_context = Inr True"
    and p: "write_der auth_ty (auth_val (Some cr')) = Inr p" "read_der auth_ty (auth_of (ne_crypto e)) p = Inr (Some cr')" "p \<noteq> []"
    using make_auth_ok [OF assms(1,2), of r ?b False] by auto
  have "verify_credentials e ctx cr ?b (restriction_of info) = Inr True"
    by (rule verify_credentials_ok [OF assms(4,11,10,6)]) (use assms(12) in \<open>simp add: other_role_def\<close>)
  then have c: "concrete_handle e r ctx d (Client_pk ?info False None) = ((In_progress, p), Client_pk ?info True (Some sk))"
    using assms(9,10) cr'(1) p(1) by (simp add: concrete_handle_def verify_server_and_reply_def Let_def)
  have "handle_packet e (exporter_of f) rid r ctx q hs =
      ((In_progress, p), hs\<lparr>hs_hello_sent := False, hs_server_id := sid, hs_requested := ?info,
         hs_concrete := Some (Client_pk ?info True (Some sk))\<rparr>)"
    using assms(3,5,7,8) c
    by (simp add: handle_packet_def handle_server_hello_def make_concrete_pk_client make_handshake_def assms(13) Let_def)
  then show ?thesis using p(2,3) cr' by auto
qed


lemma pk_run:
  assumes "prims_ok (ne_crypto e) a (ne_prims e)" "presents e cctx ck ccc" "presents e sctx sk scc"
    "dials_pk cctx" "serves_pk sctx" "ctx_suite cctx = ctx_suite sctx"
    "accepts e cctx scc (restriction_of info)" "accepts e sctx ccc None" "hd_tag info = tag_public_key"
    "length cid = hello_id_size" "length sid = hello_id_size"
  shows "\<exists>p1 c1 p2 s1 p3 c2 p4 s2 c3.
    handshake_start cid cctx info (make_handshake Client) = Inr ((In_progress, p1), c1) \<and>
    handle_packet e (\<lambda>l c n. Some (f l c n)) sid r1 sctx p1 (make_handshake Server) = ((In_progress, p2), s1) \<and> hd_tag (hs_requested s1) = tag_public_key \<and>
    handle_packet e (\<lambda>l c n. Some (f l c n)) rid r2 cctx p2 c1 = ((In_progress, p3), c2) \<and> p3 \<noteq> [] \<and>
    handle_packet e (\<lambda>l c n. Some (f l c n)) rid r3 sctx p3 s1 = ((Succeeded, p4), s2) \<and>
    handle_packet e (\<lambda>l c n. Some (f l c n)) rid r4 cctx p4 c2 = ((Succeeded, []), c3) \<and>
    map_option remote_public_key (hs_concrete c3) = Some (Some (sk_public sk)) \<and>
    map_option remote_public_key (hs_concrete s2) = Some (Some (sk_public ck))"
proof -
  have ids: "length cid \<le> 1000" "length sid \<le> 1000" using assms(10,11) by (simp_all add: hello_id_size_def)
  have subj: "map_sum id key_id (chain_subject scc) = Inr (key_id (sk_public sk))"
    "map_sum id key_id (chain_subject ccc) = Inr (key_id (sk_public ck))" using assms(2,3) by (simp_all add: presents_def)
  let ?c1 = "(make_handshake Client)\<lparr>hs_requested := info, hs_hello_sent := True, hs_client_id := cid\<rparr>"
  have t: "tag_in_range (hd_tag info)" by (simp add: assms(9) tag_in_range_def)
  obtain p1 where p1: "handshake_start cid cctx info (make_handshake Client) = Inr ((In_progress, p1), ?c1)"
    "read_der client_hello_ty client_hello_of p1 =
      Inr \<lparr>ch_version = 2, ch_suite = ctx_suite sctx, ch_request = tag_public_key, ch_client_id = cid\<rparr>"
    using client_starts [OF t ids(1), of cctx "make_handshake Client"] assms(6,9) by auto
  obtain p2 s1 cr d where s1: "handle_packet e (exporter_of f) sid r1 sctx p1 (make_handshake Server) = ((In_progress, p2), s1)"
      "hd_tag (hs_requested s1) = tag_public_key" "hs_hello_sent s1 = False" "hs_concrete s1 = Some (Server_pk (binding_for f Server cid sid) None)"
      "read_der server_hello_ty server_hello_of p2 = Inr \<lparr>sh_version = 2, sh_suite = ctx_suite cctx, sh_response = tag_public_key,
        sh_server_id = sid, sh_auth = d\<rparr>" "d \<noteq> []" "read_der auth_ty (auth_of (ne_crypto e)) d = Inr (Some cr)"
      "cr_key cr = sk_public sk" "cr_chain cr = scc"
      "verify (ne_crypto e) (sk_public sk) (cr_sig cr) (side_binding f Server cid sid) auth_context = Inr True"
    using server_answers [OF assms(1,3,5) ids(2) p1(2), of f r1] assms(6) by auto
  obtain p3 c2 cr' info' where c2: "handle_packet e (exporter_of f) rid r2 cctx p2 ?c1 = ((In_progress, p3), c2)" "p3 \<noteq> []" "hs_hello_sent c2 = False"
      "hs_concrete c2 = Some (Client_pk info' True (Some (sk_public sk)))"
      "read_der auth_ty (auth_of (ne_crypto e)) p3 = Inr (Some cr')" "cr_key cr' = sk_public ck" "cr_chain cr' = ccc"
      "verify (ne_crypto e) (sk_public ck) (cr_sig cr') (side_binding f Client cid sid) auth_context = Inr True"
    using client_replies [where f = f and cid = cid and sid = sid, OF assms(1,2,4,7,9) subj(1) s1(5-10) refl, of rid r2] by auto
  have v: "verify_credentials e sctx cr' (binding_for f Server cid sid) None = Inr True"
    by (rule verify_credentials_ok [OF assms(8) c2(7,6) subj(2)]) (use c2(8) in \<open>simp add: other_role_def\<close>)
  obtain s2 p4 where s2: "handle_packet e (exporter_of f) rid r3 sctx p3 s1 = ((Succeeded, p4), s2)"
      "hs_concrete s2 = Some (Server_pk (binding_for f Server cid sid) (Some (sk_public ck)))"
      "read_der ack_ty ack_of p4 = Inr 2"
    using v c2(5,6) ack_wire by (simp add: handle_packet_def s1(3,4) concrete_handle_def server_pk_handle_def Let_def)
  have "handle_packet e (exporter_of f) rid r4 cctx p4 c2 = ((Succeeded, []), c2)"
    using s2(3) by (simp add: handle_packet_def c2(3,4) concrete_handle_def client_pk_ack_def)
  then show ?thesis using p1(1) s1(1,2) c2(1,2,4) s2(1,2) by (fastforce simp: remote_public_key_def)
qed

text \<open>C13: Two honest sides that accept each other's chains authenticate mutually: over any TLS channel (any exporter
  that both ends share) the hello exchange and the public key handshake end with success on both sides
  after five messages, and each side holds the other's key.\<close>

theorem pk_handshake_honest_run:
  assumes "prims_ok (ne_crypto e) a (ne_prims e)" "presents e cctx ck ccc" "presents e sctx sk scc"
    "dials_pk cctx" "serves_pk sctx" "ctx_suite cctx = ctx_suite sctx"
    "accepts e cctx scc (restriction_of info)" "accepts e sctx ccc None" "hd_tag info = tag_public_key"
    "length cid = hello_id_size" "length sid = hello_id_size"
  shows "\<exists>p1 c1 p2 s1 p3 c2 p4 s2 c3.
    handshake_start cid cctx info (make_handshake Client) = Inr ((In_progress, p1), c1) \<and>
    handle_packet e (\<lambda>l c n. Some (f l c n)) sid r1 sctx p1 (make_handshake Server) = ((In_progress, p2), s1) \<and>
    handle_packet e (\<lambda>l c n. Some (f l c n)) rid r2 cctx p2 c1 = ((In_progress, p3), c2) \<and>
    handle_packet e (\<lambda>l c n. Some (f l c n)) rid r3 sctx p3 s1 = ((Succeeded, p4), s2) \<and>
    handle_packet e (\<lambda>l c n. Some (f l c n)) rid r4 cctx p4 c2 = ((Succeeded, []), c3) \<and>
    map_option remote_public_key (hs_concrete c3) = Some (Some (sk_public sk)) \<and>
    map_option remote_public_key (hs_concrete s2) = Some (Some (sk_public ck))"
  using pk_run [OF assms, of f r1 rid r2 r3 r4] by blast

section \<open>What success guarantees\<close>

text \<open>The proof a peer gave: a chain accepted by the own stores for the key it signed the binding with.\<close>

definition proven :: "net_env \<Rightarrow> net_context \<Rightarrow> octets option \<Rightarrow> octets \<Rightarrow> public_key \<Rightarrow> bool" where
  "proven e ctx rest b k \<longleftrightarrow>
     (\<exists>cr :: auth_credentials. cr_key cr = k \<and> accepts e ctx (cr_chain cr) rest \<and>
        map_sum id key_id (chain_subject (cr_chain cr)) = Inr (key_id k) \<and>
        verify (ne_crypto e) k (cr_sig cr) b auth_context = Inr True)"

lemma verified_proven: "verify_credentials e ctx cr b rest = Inr True \<Longrightarrow> proven e ctx rest (remote_binding b) (cr_key cr)"
  using verify_credentials_True [of e ctx cr b rest] by (auto simp: proven_def)

lemma server_pk_success:
  assumes "server_pk_handle e ctx d b rk = ((Succeeded, p), h)" "ctx_auth_remote ctx"
  shows "\<exists>k. h = Server_pk b (Some k) \<and> proven e ctx None (remote_binding b) k"
  using assms verified_proven
  by (auto simp: server_pk_handle_def Let_def split: sum.splits option.splits bool.splits)

lemma make_concrete_server:
  assumes "make_concrete xp ctx hs = (Inr h, hs')" "serves_pk ctx" "hd_tag (hs_requested hs) = tag_public_key" "hs_role hs = Server"
  shows "\<exists>b. h = Server_pk b None \<and> hs_concrete hs' = Some h \<and> derive_binding xp hs = Inr b"
  using assms
  by (auto simp: make_concrete_def construct_handshake_def serves_pk_def Let_def split: sum.splits option.splits)

lemma make_concrete_client:
  assumes "make_concrete xp ctx hs = (Inr h, hs')" "dials_pk ctx" "hd_tag (hs_requested hs) = tag_public_key" "hs_role hs = Client"
  shows "\<exists>b. h = Client_pk ((hs_requested hs)\<lparr>hd_binding := b, hd_role := Client\<rparr>) False None \<and> hs_concrete hs' = Some h \<and>
    derive_binding xp hs = Inr b"
  using assms
  by (auto simp: make_concrete_def construct_handshake_def dials_pk_def Let_def split: sum.splits option.splits)

lemma derive_binding_remote:
  "derive_binding xp hs = Inr b \<Longrightarrow>
     xp binding_label (binding_context (role_byte (other_role (hs_role hs))) (hs_client_id hs) (hs_server_id hs)) binding_size =
       Some (remote_binding b)"
  by (auto simp: derive_binding_def Let_def split: option.splits)


lemma client_hello_accepted:
  assumes "handle_client_hello e xp sid r ctx p1 hs = ((In_progress, p2), hs')"
  shows "\<exists>(hello :: client_hello) h. make_concrete xp ctx (hs\<lparr>hs_client_id := ch_client_id hello, hs_server_id := sid,
    hs_requested := make_handshake_data (ch_request hello) None\<rparr>) = (Inr h, hs')"
proof (cases "read_der client_hello_ty client_hello_of p1")
  case (Inr hello)
  then show ?thesis using assms
    by (intro exI [of _ hello]) (auto simp: handle_client_hello_def Let_def split: sum.splits if_splits prod.splits)
qed (use assms in \<open>simp add: handle_client_hello_def\<close>)

lemma server_hello_accepted:
  assumes "handle_server_hello e xp r ctx d hs = ((st, p), hs')" "p \<noteq> []"
  shows "\<exists>(hello :: server_hello) h hs1. make_concrete xp ctx (hs\<lparr>hs_server_id := sh_server_id hello\<rparr>) = (Inr h, hs1) \<and>
    (sh_auth hello \<noteq> [] \<longrightarrow> (\<exists>h'. concrete_handle e r ctx (sh_auth hello) h = ((st, p), h') \<and> hs' = hs1\<lparr>hs_concrete := Some h'\<rparr>)) \<and>
    (sh_auth hello = [] \<longrightarrow> concrete_start e r ctx h = (st, p))"
proof (cases "read_der server_hello_ty server_hello_of d")
  case (Inr hello)
  then show ?thesis using assms
    by (intro exI [of _ hello]) (auto simp: handle_server_hello_def Let_def split: sum.splits if_splits prod.splits)
qed (use assms in \<open>simp add: handle_server_hello_def\<close>)


lemma client_pk_discloses:
  assumes "verify_server_and_reply e r ctx d info rk = ((st, p), h)" "p \<noteq> []"
  shows "\<exists>k. h = Client_pk info True (Some k) \<and> proven e ctx (restriction_of info) (remote_binding (hd_binding info)) k"
  using assms verified_proven
  by (auto simp: verify_server_and_reply_def Let_def split: sum.splits option.splits bool.splits)



section \<open>The shared secret handshake\<close>

lemma make_auth_ss_ok:
  assumes "ctx_secrets ctx sid = Some secret" "ne_hmac e secret (local_binding b) = Some mac" "length sid \<le> 10000" "length mac \<le> 10000"
  shows "\<exists>d. make_auth_ss e ctx sid b = Inr d \<and> read_der auth_ss_ty auth_ss_of d = Inr \<lparr>ss_secret_id = sid, ss_mac = mac\<rparr>"
  using assms auth_ss_wire [of "\<lparr>ss_secret_id = sid, ss_mac = mac\<rparr>"] by (simp add: make_auth_ss_def)

definition ss_ready :: "net_env \<Rightarrow> net_context \<Rightarrow> octets \<Rightarrow> octets \<Rightarrow> bool" where
  "ss_ready e ctx sid secret \<longleftrightarrow> ctx_secrets ctx sid = Some secret \<and> length sid \<le> 10000 \<and>
     (\<forall>m. \<exists>mac. ne_hmac e secret m = Some mac \<and> length mac \<le> 10000)"

lemma ss_server_answers:
  assumes "ctx_handshakes ctx tag_shared_secret = Some Server_ss_only" "length rid \<le> 1000"
    "read_der client_hello_ty client_hello_of p =
      Inr \<lparr>ch_version = 2, ch_suite = ctx_suite ctx, ch_request = tag_shared_secret, ch_client_id = cid\<rparr>"
  shows "\<exists>q hs. handle_packet e (exporter_of f) rid r ctx p (make_handshake Server) = ((In_progress, q), hs) \<and>
    hs_hello_sent hs = False \<and> hs_concrete hs = Some (Server_ss (ctx_secret_id ctx) (binding_for f Server cid rid)) \<and>
    read_der server_hello_ty server_hello_of q = Inr \<lparr>sh_version = 2, sh_suite = ctx_suite ctx, sh_response = tag_shared_secret,
      sh_server_id = rid, sh_auth = []\<rparr>"
  using assms server_hello_wire [of "\<lparr>sh_version = 2, sh_suite = ctx_suite ctx, sh_response = tag_shared_secret,
      sh_server_id = rid, sh_auth = []\<rparr>"]
  by (simp add: handle_packet_def handle_client_hello_def make_handshake_def make_handshake_data_def make_concrete_def
      derive_binding_total construct_handshake_def concrete_start_def tag_in_range_def Let_def)

lemma ss_client_starts:
  assumes "ctx_handshakes ctx tag_shared_secret = Some Client_ss_only" "hd_tag info = tag_shared_secret"
    "read_der server_hello_ty server_hello_of q = Inr \<lparr>sh_version = 2, sh_suite = ctx_suite ctx, sh_response = tag_shared_secret,
      sh_server_id = rid, sh_auth = []\<rparr>"
    "make_auth_ss e ctx (ctx_secret_id ctx) (binding_for f Client cid rid) = Inr p"
    "hs = (make_handshake Client)\<lparr>hs_requested := info, hs_hello_sent := True, hs_client_id := cid\<rparr>"
  shows "\<exists>hs'. handle_packet e (exporter_of f) i r ctx q hs = ((In_progress, p), hs') \<and> hs_hello_sent hs' = False \<and>
    hs_concrete hs' = Some (Client_ss (ctx_secret_id ctx) (binding_for f Client cid rid))"
  using assms
  by (simp add: handle_packet_def handle_server_hello_def make_handshake_def make_concrete_def derive_binding_total
      construct_handshake_def concrete_start_def Let_def)

text \<open>Two sides that hold the same secret under the client's identifier authenticate each other: the client
  speaks first, and both sides succeed after four messages.\<close>

theorem ss_handshake_honest_run:
  assumes "ctx_handshakes cctx tag_shared_secret = Some Client_ss_only" "ctx_handshakes sctx tag_shared_secret = Some Server_ss_only"
    "ctx_suite cctx = ctx_suite sctx" "hd_tag info = tag_shared_secret"
    "ss_ready e cctx (ctx_secret_id cctx) secret" "ss_ready e sctx (ctx_secret_id cctx) secret"
    "length cid = hello_id_size" "length sid = hello_id_size"
  shows "\<exists>p1 c1 p2 s1 p3 c2 p4 s2 c3.
    handshake_start cid cctx info (make_handshake Client) = Inr ((In_progress, p1), c1) \<and>
    handle_packet e (\<lambda>l c n. Some (f l c n)) sid r1 sctx p1 (make_handshake Server) = ((In_progress, p2), s1) \<and>
    handle_packet e (\<lambda>l c n. Some (f l c n)) rid r2 cctx p2 c1 = ((In_progress, p3), c2) \<and>
    handle_packet e (\<lambda>l c n. Some (f l c n)) rid r3 sctx p3 s1 = ((Succeeded, p4), s2) \<and>
    handle_packet e (\<lambda>l c n. Some (f l c n)) rid r4 cctx p4 c2 = ((Succeeded, []), c3)"
proof -
  let ?id = "ctx_secret_id cctx" let ?bc = "binding_for f Client cid sid" let ?bs = "binding_for f Server cid sid"
  let ?c1 = "(make_handshake Client)\<lparr>hs_requested := info, hs_hello_sent := True, hs_client_id := cid\<rparr>"
  have ids: "length cid \<le> 1000" "length sid \<le> 1000" using assms(7,8) by (simp_all add: hello_id_size_def)
  have t: "tag_in_range (hd_tag info)" by (simp add: assms(4) tag_in_range_def)
  have sec: "ctx_secrets cctx ?id = Some secret" "ctx_secrets sctx ?id = Some secret" "length ?id \<le> 10000"
    using assms(5,6) by (simp_all add: ss_ready_def)
  obtain mc ms where mac: "ne_hmac e secret (side_binding f Client cid sid) = Some mc" "length mc \<le> 10000"
    "ne_hmac e secret (side_binding f Server cid sid) = Some ms" "length ms \<le> 10000"
    using assms(5) unfolding ss_ready_def by blast
  obtain p1 where p1: "handshake_start cid cctx info (make_handshake Client) = Inr ((In_progress, p1), ?c1)"
    "read_der client_hello_ty client_hello_of p1 =
      Inr \<lparr>ch_version = 2, ch_suite = ctx_suite sctx, ch_request = tag_shared_secret, ch_client_id = cid\<rparr>"
    using client_starts [OF t ids(1), of cctx "make_handshake Client"] assms(3,4) by auto
  obtain p2 s1 where s1: "handle_packet e (exporter_of f) sid r1 sctx p1 (make_handshake Server) = ((In_progress, p2), s1)"
    "hs_hello_sent s1 = False" "hs_concrete s1 = Some (Server_ss (ctx_secret_id sctx) ?bs)"
    "read_der server_hello_ty server_hello_of p2 = Inr \<lparr>sh_version = 2, sh_suite = ctx_suite cctx, sh_response = tag_shared_secret,
      sh_server_id = sid, sh_auth = []\<rparr>"
    using ss_server_answers [OF assms(2) ids(2) p1(2), of e f r1] assms(3) by auto
  obtain p3 where p3: "make_auth_ss e cctx ?id ?bc = Inr p3" "read_der auth_ss_ty auth_ss_of p3 = Inr \<lparr>ss_secret_id = ?id, ss_mac = mc\<rparr>"
    using make_auth_ss_ok [OF sec(1), of e ?bc mc] mac(1,2) sec(3) by auto
  obtain c2 where c2: "handle_packet e (exporter_of f) rid r2 cctx p2 ?c1 = ((In_progress, p3), c2)" "hs_hello_sent c2 = False"
    "hs_concrete c2 = Some (Client_ss ?id ?bc)"
    using ss_client_starts [where f = f and cid = cid and rid = sid, OF assms(1,4) s1(4) p3(1) refl, of rid r2] by auto
  obtain p4 where p4: "make_auth_ss e sctx ?id ?bs = Inr p4" "read_der auth_ss_ty auth_ss_of p4 = Inr \<lparr>ss_secret_id = ?id, ss_mac = ms\<rparr>"
    using make_auth_ss_ok [OF sec(2), of e ?bs ms] mac(3,4) sec(3) by auto
  have "handle_packet e (exporter_of f) rid r3 sctx p3 s1 = ((Succeeded, p4), s1\<lparr>hs_concrete := hs_concrete s1\<rparr>)"
    using p3(2) p4(1) sec(2) mac(1)
    by (simp add: handle_packet_def s1(2,3) concrete_handle_def server_ss_handle_def verify_auth_ss_def other_role_def)
  moreover have "handle_packet e (exporter_of f) rid r4 cctx p4 c2 = ((Succeeded, []), c2\<lparr>hs_concrete := hs_concrete c2\<rparr>)"
    using p4(2) sec(1) mac(3)
    by (simp add: handle_packet_def c2(2,3) concrete_handle_def client_ss_handle_def verify_auth_ss_def other_role_def)
  ultimately show ?thesis using p1(1) s1(1) c2(1) by blast
qed


section \<open>Two nodes\<close>

definition node_sk :: private_key where
  "node_sk = \<lparr>sk_version = 2, sk_suite = Pq1, sk_public = demo_key 0 [[21]],
     sig_seed = replicate 32 0, kem_x_sk = replicate 32 0, kem_pq_seed = replicate 64 0, metadata = Map.empty, sk_trailing = []\<rparr>"

definition node_chain :: certificate_chain where
  "node_chain = \<lparr>chain_version = 1, root_key_id = [1], links = [\<lparr>subject = demo_key 0 [[21]], cert = demo_cert 21 1 0 5 []\<rparr>]\<rparr>"

definition node_env :: net_env where
  "node_env = \<lparr>ne_crypto = demo_crypto, ne_prims = demo_prims, ne_hmac = (\<lambda>k m. Some (replicate 64 0))\<rparr>"

definition node_context :: net_context where
  "node_context = enable_pk_handshake (make_context demo_keys (\<lambda>_. None) (\<lambda>_. None) (Some node_sk) (Some node_chain))"

abbreviation (input) node_exporter :: "string \<Rightarrow> octets \<Rightarrow> nat \<Rightarrow> octets" where
  "node_exporter \<equiv> \<lambda>l c n. take n (c @ replicate n 0)"

lemma node_key_pair: "key_pair demo_crypto demo_prims node_sk"
proof -
  have "replicate 1183 0 @ [0] = replicate 1184 (0 :: octet)" by (simp add: replicate_append_same flip: replicate_Suc)
  then show ?thesis
    by (simp add: key_pair_def node_sk_def demo_prims_def parameters_def demo_key_def construct_id_def demo_crypto_def element_def Let_def)
qed

lemma node_cert [simp]: "extract_key_certificate (demo_cert 21 1 0 5 []) =
    Inr \<lparr>kc_subject = [0], kc_ca_level = 5, kc_restrictions = [], kc_metadata = []\<rparr>"
  using extract_encoded [of "[0]" "[]" "[]" 5 "demo_cert 21 1 0 5 []"] by (simp add: demo_cert_def max_structure_size_def)

lemma node_chain_authentic: "chain_is_authentic demo_crypto demo_keys (\<lambda>_. None) node_chain = Inr True"
  by (simp add: chain_is_authentic_def chain_is_valid_def max_chain_length_def demo_keys_def node_chain_def is_revoked_in_store_def
      check_chain_element_def check_link_def check_link_certificate_def check_link_data_def references_certificate_def bindE_def)

lemma node_cert_sized: "length (cert_data (demo_cert 21 1 0 5 [])) \<le> 10000"
proof -
  let ?v = "V_seq [V_int 1, id_val [0], V_int 5, V_seq [V_string [], V_trailing []], V_octets [], V_trailing []]"
  have "shape_ok key_certificate_ty ?v" "bound key_certificate_ty ?v \<le> 10000"
    by (simp_all add: key_certificate_ty_def max_structure_size_def)
  then show ?thesis using fits_None [OF fits_all, of key_certificate_ty ?v] by (simp add: demo_cert_def max_constructed_size_def)
qed

lemma node_cert_fields:
  "cert_version (demo_cert i a b l h) = 1" "cert_sig (demo_cert i a b l h) = \<lparr>sig_version = 2, sig_issuer = [a], sig_octets = [i]\<rparr>"
  "cert_revocation (demo_cert i a b l h) = None" "cert_trailing (demo_cert i a b l h) = []"
  by (simp_all add: demo_cert_def)

lemma node_wire_sized: "wire_sized (demo_key 0 [[21]]) node_chain"
proof -
  have "shape_ok certificate_ty (certificate_val (demo_cert 21 1 0 5 []))" "bound certificate_ty (certificate_val (demo_cert 21 1 0 5 [])) \<le> 20000"
    using node_cert_sized by (simp_all add: certificate_ty_def certificate_val_def signature_ty_def signature_val_def node_cert_fields
      max_structure_size_def)
  moreover have "shape_ok public_key_ty (public_key_val (demo_key 0 [[21]]))" "bound public_key_ty (public_key_val (demo_key 0 [[21]])) \<le> 20000"
    by (simp_all add: public_key_ty_def public_key_val_def demo_key_def signature_ty_def signature_val_def suite_value_def max_structure_size_def)
  ultimately show ?thesis
    by (simp add: wire_sized_def node_chain_def certificate_chain_ty_def certificate_chain_val_def key_cert_pair_ty_def key_cert_pair_val_def
      max_structure_size_def)
qed

lemma node_context_fields:
  "ctx_my_key node_context = Some node_sk" "ctx_my_chain node_context = Some node_chain" "ctx_keys node_context = demo_keys"
  "ctx_certs node_context = (\<lambda>_. None)" "ctx_auth_remote node_context" "serves_pk node_context" "dials_pk node_context"
  by (simp_all add: node_context_def enable_pk_handshake_def add_handshake_def make_context_def serves_pk_def dials_pk_def)

lemma node_wf: "key_wf demo_crypto (demo_key 0 [[21]])"
  by (simp add: key_wf_def demo_key_def construct_id_def demo_crypto_def element_def)

lemma node_presents: "presents node_env node_context node_sk node_chain"
  by (simp add: presents_def node_env_def node_context_fields node_key_pair)
    (simp add: node_sk_def node_wf node_wire_sized, simp add: node_chain_def chain_wf_def node_wf chain_subject_def chain_is_valid_def)

lemma node_accepts: "accepts node_env node_context node_chain None"
  using node_chain_authentic by (simp add: accepts_def node_env_def node_context_fields)

abbreviation (input) node_info :: handshake_data where
  "node_info \<equiv> make_handshake_data 2 (Some False)"

lemma node_prims: "prims_ok (ne_crypto node_env) demo_aes (ne_prims node_env)"
  by (simp add: node_env_def demo_prims_ok)

lemma node_accepts_info: "accepts node_env node_context node_chain (restriction_of node_info)"
  using node_accepts by (simp add: restriction_of_def make_handshake_data_def)

lemma node_tag: "hd_tag node_info = 2"
  by (simp add: make_handshake_data_def)

lemma node_id: "length (replicate 16 (7 :: octet)) = hello_id_size"
  by (simp add: hello_id_size_def)

lemmas node_run = node_prims node_presents node_presents node_context_fields(7,6) refl node_accepts_info node_accepts node_tag node_id node_id

theorem pk_handshake_honest_run_witness:
  "\<exists>p1 c1 p2 s1 p3 c2 p4 s2 c3.
    handshake_start (replicate 16 7) node_context node_info (make_handshake Client) = Inr ((In_progress, p1), c1) \<and>
    handle_packet node_env (\<lambda>l c n. Some (node_exporter l c n)) (replicate 16 7) [] node_context p1 (make_handshake Server) = ((In_progress, p2), s1) \<and>
    handle_packet node_env (\<lambda>l c n. Some (node_exporter l c n)) [] [] node_context p2 c1 = ((In_progress, p3), c2) \<and>
    handle_packet node_env (\<lambda>l c n. Some (node_exporter l c n)) [] [] node_context p3 s1 = ((Succeeded, p4), s2) \<and>
    handle_packet node_env (\<lambda>l c n. Some (node_exporter l c n)) [] [] node_context p4 c2 = ((Succeeded, []), c3) \<and>
    map_option remote_public_key (hs_concrete c3) = Some (Some (sk_public node_sk)) \<and>
    map_option remote_public_key (hs_concrete s2) = Some (Some (sk_public node_sk))"
  by (rule pk_handshake_honest_run [OF node_run])



definition secret_context :: "(net_context \<Rightarrow> net_context) \<Rightarrow> net_context" where
  "secret_context enable = enable (make_context demo_keys (\<lambda>_. None) (\<lambda>i. if i = [] then Some [1] else None) None None)"

theorem ss_handshake_honest_run_witness:
  "\<exists>p1 c1 p2 s1 p3 c2 p4 s2 c3.
    handshake_start (replicate 16 7) (secret_context enable_client_ss_handshake) (make_handshake_data 4 None) (make_handshake Client) =
      Inr ((In_progress, p1), c1) \<and>
    handle_packet node_env (\<lambda>l c n. Some (node_exporter l c n)) (replicate 16 7) [] (secret_context enable_server_ss_handshake) p1
      (make_handshake Server) = ((In_progress, p2), s1) \<and>
    handle_packet node_env (\<lambda>l c n. Some (node_exporter l c n)) [] [] (secret_context enable_client_ss_handshake) p2 c1 =
      ((In_progress, p3), c2) \<and>
    handle_packet node_env (\<lambda>l c n. Some (node_exporter l c n)) [] [] (secret_context enable_server_ss_handshake) p3 s1 =
      ((Succeeded, p4), s2) \<and>
    handle_packet node_env (\<lambda>l c n. Some (node_exporter l c n)) [] [] (secret_context enable_client_ss_handshake) p4 c2 =
      ((Succeeded, []), c3)"
  by (rule ss_handshake_honest_run [where secret = "[1]"])
    (simp_all add: secret_context_def enable_client_ss_handshake_def enable_server_ss_handshake_def add_handshake_def make_context_def
      make_handshake_data_def ss_ready_def node_env_def hello_id_size_def)


end
