(* ===== verification/Tls_Stream.thy ===== *)
theory Tls_Stream
  imports Prelude "HOL-Library.Multiset" "HOL-Library.Code_Target_Numeral"
begin

text \<open>
  The asynchronous TLS stream of \<^verbatim>\<open>network/encryption/tls_stream.cpp\<close> as a state machine. Every
  public operation and every completion of a socket operation runs on one strand, so a run of the
  stream is a sequence of these steps, and each is a function on the state.

  What the stream does to the outside is written to \<open>calls\<close>, in order: the user handlers it calls
  or posts, with their results, and the socket operations it starts. A user handler that runs
  inside a step (\<^verbatim>\<open>deliver_read\<close>) and calls the stream again is a further step.

  Botan's TLS channel is outside: what it does when it is given data or told to send or close is
  an argument of the step, the list of callbacks it makes and whether it throws. Sending, closing
  and constructing a channel only emit data. Log output is left out.
\<close>

section \<open>Errors\<close>

datatype socket_error = Eof | Connection_reset | Operation_aborted | Other_socket_error nat

datatype net_errc =
    Connection_closed | Tls_failure | Handshake_failed | Already_connected | Operation_in_progress
  | Invalid_data | Invalid_record | Timed_out | Socket_failure nat

definition map_tls_exception :: "bool \<Rightarrow> net_errc" where
  "map_tls_exception handshake_done = (if handshake_done then Tls_failure else Handshake_failed)"

definition map_socket_error :: "socket_error \<Rightarrow> net_errc" where
  "map_socket_error ec = (case ec of Other_socket_error n \<Rightarrow> Socket_failure n | _ \<Rightarrow> Connection_closed)"

section \<open>State\<close>

type_synonym handler = nat

datatype tls_call =
    Handshake_done handler "net_errc option"
  | Read_done handler "net_errc option" octets
  | Write_done handler "net_errc option" nat
  | Shutdown_done handler "net_errc option"
  | Socket_read
  | Socket_write octets
  | Socket_shutdown_send
  | Socket_close

record out_item =
  item_data :: octets
  item_handler :: "handler option"
  user_bytes :: nat

record tls_stream =
  channel :: bool
  handshake_handler :: "handler option"
  shutdown_handler :: "handler option"
  pending_read :: "(handler \<times> nat) option"
  plain_in :: octets
  plain_pos :: nat
  out_queue :: "out_item list"
  kex_parameters :: string
  tls_error :: "net_errc option"
  reading :: bool
  writing :: bool
  activated :: bool
  peer_closed :: bool
  closing :: bool
  closed :: bool
  calls :: "tls_call list"

definition read_high_water_mark :: nat where
  "read_high_water_mark = 1024 * 1024"

definition make_tls_stream :: tls_stream where
  "make_tls_stream = \<lparr>channel = False, handshake_handler = None, shutdown_handler = None, pending_read = None,
     plain_in = [], plain_pos = 0, out_queue = [], kex_parameters = [], tls_error = None, reading = False,
     writing = False, activated = False, peer_closed = False, closing = False, closed = False, calls = []\<rparr>"

definition call :: "tls_call \<Rightarrow> tls_stream \<Rightarrow> tls_stream" where
  "call c st = st\<lparr>calls := calls st @ [c]\<rparr>"

definition error_or_closed :: "tls_stream \<Rightarrow> net_errc" where
  "error_or_closed st = (case tls_error st of Some e \<Rightarrow> e | None \<Rightarrow> Connection_closed)"

section \<open>Errors and closing\<close>

fun fail_items :: "net_errc \<Rightarrow> out_item list \<Rightarrow> tls_stream \<Rightarrow> tls_stream" where
  "fail_items ec [] st = st"
| "fail_items ec (i # is) st =
     fail_items ec is (case item_handler i of None \<Rightarrow> st | Some h \<Rightarrow> call (Write_done h (Some ec) 0) st)"

definition fail_pending :: "net_errc \<Rightarrow> tls_stream \<Rightarrow> tls_stream" where
  "fail_pending ec st =
     (let st = (case handshake_handler st of None \<Rightarrow> st
                | Some h \<Rightarrow> call (Handshake_done h (Some ec)) (st\<lparr>handshake_handler := None\<rparr>));
          st = (case pending_read st of None \<Rightarrow> st
                | Some (h, _) \<Rightarrow> call (Read_done h (Some ec) []) (st\<lparr>pending_read := None\<rparr>));
          st = fail_items ec (out_queue st) (st\<lparr>out_queue := []\<rparr>)
      in case shutdown_handler st of None \<Rightarrow> st
         | Some h \<Rightarrow> call (Shutdown_done h (Some ec)) (st\<lparr>shutdown_handler := None\<rparr>))"

definition fail :: "net_errc \<Rightarrow> tls_stream \<Rightarrow> tls_stream" where
  "fail ec st =
     (if tls_error st \<noteq> None \<or> closed st then st
      else fail_pending ec (call Socket_close (st\<lparr>tls_error := Some ec, closed := True\<rparr>)))"

definition tls_close :: "tls_stream \<Rightarrow> tls_stream" where
  "tls_close st =
     (if closed st then st
      else fail_pending (error_or_closed st) (call Socket_close (st\<lparr>closed := True\<rparr>)))"

definition finish_shutdown :: "tls_stream \<Rightarrow> tls_stream" where
  "finish_shutdown st =
     (if \<not> closing st \<or> writing st \<or> out_queue st \<noteq> [] \<or> closed st then st
      else let st = call Socket_shutdown_send st;
               st = (if peer_closed st then (call Socket_close st)\<lparr>closed := True\<rparr> else st)
           in case shutdown_handler st of None \<Rightarrow> st
              | Some h \<Rightarrow> call (Shutdown_done h None) (st\<lparr>shutdown_handler := None\<rparr>))"

section \<open>Socket write side\<close>

fun complete_markers :: "out_item list \<Rightarrow> tls_stream \<Rightarrow> tls_stream" where
  "complete_markers [] st = st\<lparr>out_queue := []\<rparr>"
| "complete_markers (i # is) st =
     (if item_data i = []
      then complete_markers is
             (case item_handler i of None \<Rightarrow> st
              | Some h \<Rightarrow> call (Write_done h (tls_error st) (if tls_error st \<noteq> None then 0 else user_bytes i)) st)
      else st\<lparr>out_queue := i # is\<rparr>)"

definition complete_write_markers :: "tls_stream \<Rightarrow> tls_stream" where
  "complete_write_markers st = complete_markers (out_queue st) st"

definition start_write :: "tls_stream \<Rightarrow> tls_stream" where
  "start_write st =
     (if writing st \<or> closed st then st
      else let st = complete_write_markers st
           in case out_queue st of
                [] \<Rightarrow> if closing st then finish_shutdown st else st
              | i # _ \<Rightarrow> call (Socket_write (item_data i)) (st\<lparr>writing := True\<rparr>))"

definition on_written :: "socket_error option \<Rightarrow> tls_stream \<Rightarrow> tls_stream" where
  "on_written ec st =
     (let st = st\<lparr>writing := False\<rparr>
      in if closed st then st
         else let st = (if out_queue st \<noteq> [] then st\<lparr>out_queue := tl (out_queue st)\<rparr> else st)
              in case ec of Some e \<Rightarrow> fail (map_socket_error e) st | None \<Rightarrow> start_write st)"

definition on_emit :: "octets \<Rightarrow> tls_stream \<Rightarrow> tls_stream" where
  "on_emit d st =
     start_write (st\<lparr>out_queue := out_queue st @ [\<lparr>item_data = d, item_handler = None, user_bytes = 0\<rparr>]\<rparr>)"

definition do_write :: "octets \<Rightarrow> handler \<Rightarrow> octets list \<times> bool \<Rightarrow> tls_stream \<Rightarrow> tls_stream" where
  "do_write d h resp st =
     (if tls_error st \<noteq> None \<or> closed st \<or> closing st \<or> \<not> activated st
      then call (Write_done h (Some (error_or_closed st)) 0) st
      else let (emitted, threw) = resp;
               st = fold on_emit emitted st
           in if threw
              then let st = fail (map_tls_exception True) st in call (Write_done h (tls_error st) 0) st
              else start_write (st\<lparr>out_queue := out_queue st @
                     [\<lparr>item_data = [], item_handler = Some h, user_bytes = length d\<rparr>]\<rparr>))"

section \<open>Socket read side\<close>

definition start_read :: "tls_stream \<Rightarrow> tls_stream" where
  "start_read st =
     (let paused = (length (plain_in st) - plain_pos st \<ge> read_high_water_mark)
      in if reading st \<or> closed st \<or> tls_error st \<noteq> None \<or> peer_closed st \<or> paused then st
         else call Socket_read (st\<lparr>reading := True\<rparr>))"

definition compact_plain_in :: "tls_stream \<Rightarrow> tls_stream" where
  "compact_plain_in st =
     (if plain_pos st = length (plain_in st) then st\<lparr>plain_in := [], plain_pos := 0\<rparr>
      else if plain_pos st > length (plain_in st) div 2
      then st\<lparr>plain_in := drop (plain_pos st) (plain_in st), plain_pos := 0\<rparr>
      else st)"

definition deliver_read :: "tls_stream \<Rightarrow> tls_stream" where
  "deliver_read st =
     (case pending_read st of
        None \<Rightarrow> st
      | Some (h, room) \<Rightarrow>
          let available = length (plain_in st) - plain_pos st
          in if available > 0
             then let n = min available room;
                      d = take n (drop (plain_pos st) (plain_in st));
                      st = compact_plain_in (st\<lparr>plain_pos := plain_pos st + n\<rparr>)
                  in call (Read_done h None d) (st\<lparr>pending_read := None\<rparr>)
             else if tls_error st \<noteq> None \<or> peer_closed st
             then call (Read_done h (Some (error_or_closed st)) []) (st\<lparr>pending_read := None\<rparr>)
             else st)"

definition on_record :: "octets \<Rightarrow> tls_stream \<Rightarrow> tls_stream" where
  "on_record d st = st\<lparr>plain_in := plain_in st @ d\<rparr>"

definition do_read_some :: "nat \<Rightarrow> handler \<Rightarrow> tls_stream \<Rightarrow> tls_stream" where
  "do_read_some room h st =
     (if pending_read st \<noteq> None then call (Read_done h (Some Operation_in_progress) []) st
      else if closed st \<or> closing st then call (Read_done h (Some (error_or_closed st)) []) st
      else start_read (deliver_read (st\<lparr>pending_read := Some (h, room)\<rparr>)))"

section \<open>Session events\<close>

datatype channel_event =
    Emit octets
  | Record octets
  | Alert_close_notify
  | Alert_fatal
  | Alert_warning
  | Established "string option"
  | Session_activated

definition on_established :: "string option \<Rightarrow> tls_stream \<Rightarrow> tls_stream" where
  "on_established kex st = st\<lparr>kex_parameters := (case kex of None \<Rightarrow> [] | Some k \<Rightarrow> k)\<rparr>"

definition on_activated :: "tls_stream \<Rightarrow> tls_stream" where
  "on_activated st =
     (let st = st\<lparr>activated := True\<rparr>
      in case handshake_handler st of None \<Rightarrow> st
         | Some h \<Rightarrow> call (Handshake_done h None) (st\<lparr>handshake_handler := None\<rparr>))"

definition on_close_notify :: "tls_stream \<Rightarrow> tls_stream" where
  "on_close_notify st = st\<lparr>peer_closed := True\<rparr>"

definition on_fatal_alert :: "tls_stream \<Rightarrow> tls_stream" where
  "on_fatal_alert st = fail (if activated st then Tls_failure else Handshake_failed) st"

fun on_channel_event :: "channel_event \<Rightarrow> tls_stream \<Rightarrow> tls_stream" where
  "on_channel_event (Emit d) st = on_emit d st"
| "on_channel_event (Record d) st = on_record d st"
| "on_channel_event Alert_close_notify st = on_close_notify st"
| "on_channel_event Alert_fatal st = on_fatal_alert st"
| "on_channel_event Alert_warning st = st"
| "on_channel_event (Established k) st = on_established k st"
| "on_channel_event Session_activated st = on_activated st"

definition on_read :: "socket_error + channel_event list \<times> bool \<Rightarrow> tls_stream \<Rightarrow> tls_stream" where
  "on_read r st =
     (let st = st\<lparr>reading := False\<rparr>
      in if closed st then st
         else case r of
           Inl ec \<Rightarrow>
             if closing st \<or> activated st
             then finish_shutdown (deliver_read (st\<lparr>peer_closed := True\<rparr>))
             else fail (map_socket_error ec) st
         | Inr (events, threw) \<Rightarrow>
             let st = fold on_channel_event events st
             in if threw then fail (map_tls_exception (activated st)) st
                else start_read (deliver_read st))"

section \<open>Handshake and shutdown\<close>

definition do_handshake :: "octets list \<times> bool \<Rightarrow> tls_stream \<Rightarrow> tls_stream" where
  "do_handshake resp st =
     (let (emitted, threw) = resp;
          st = fold on_emit emitted st
      in if threw then fail (map_tls_exception False) st
         else start_read (st\<lparr>channel := True\<rparr>))"

definition async_handshake :: "handler \<Rightarrow> octets list \<times> bool \<Rightarrow> tls_stream \<Rightarrow> tls_stream" where
  "async_handshake h resp st =
     (if channel st \<or> closed st then call (Handshake_done h (Some Already_connected)) st
      else do_handshake resp (st\<lparr>handshake_handler := Some h\<rparr>))"

text \<open>\<open>emitted\<close> is what \<^verbatim>\<open>channel_->close()\<close> emits; an exception from it is only logged.\<close>

definition do_shutdown :: "handler \<Rightarrow> octets list \<Rightarrow> tls_stream \<Rightarrow> tls_stream" where
  "do_shutdown h emitted st =
     (if closed st \<or> closing st \<or> tls_error st \<noteq> None
      then call (Shutdown_done h (Some (error_or_closed st))) st
      else let st = st\<lparr>closing := True, shutdown_handler := Some h\<rparr>;
               st = (case pending_read st of None \<Rightarrow> st
                     | Some (p, _) \<Rightarrow> call (Read_done p (Some Connection_closed) []) (st\<lparr>pending_read := None\<rparr>));
               st = (if channel st then fold on_emit emitted st else st)
           in start_write st)"

section \<open>Queries\<close>

definition is_active :: "tls_stream \<Rightarrow> bool" where
  "is_active st \<longleftrightarrow> activated st \<and> \<not> closed st \<and> \<not> closing st \<and> tls_error st = None \<and> \<not> peer_closed st"

definition negotiated_group :: "string option \<Rightarrow> tls_stream \<Rightarrow> bool" where
  "negotiated_group group_name st \<longleftrightarrow>
     activated st \<and> (case group_name of None \<Rightarrow> ''?'' | Some g \<Rightarrow> g) = kex_parameters st"

text \<open>\<open>export\<close> is the channel's key material export.\<close>

definition exporter :: "('l \<Rightarrow> 'c \<Rightarrow> nat \<Rightarrow> octets) \<Rightarrow> 'l \<Rightarrow> 'c \<Rightarrow> nat \<Rightarrow> tls_stream \<Rightarrow> net_errc + octets" where
  "exporter export label ctx n st =
     (if \<not> channel st \<or> \<not> activated st then Inl Invalid_data else Inr (export label ctx n))"

section \<open>Runs\<close>

datatype tls_event =
    Handshake_op handler "octets list \<times> bool"
  | Read_op handler nat
  | Write_op handler octets "octets list \<times> bool"
  | Shutdown_op handler "octets list"
  | Close_op
  | Socket_read_done "socket_error + channel_event list \<times> bool"
  | Socket_write_done "socket_error option"

text \<open>A socket operation completes only when it has been started.\<close>

inductive tls_step :: "tls_stream \<Rightarrow> tls_event \<Rightarrow> tls_stream \<Rightarrow> bool" where
  step_handshake: "tls_step st (Handshake_op h r) (async_handshake h r st)"
| step_read: "tls_step st (Read_op h n) (do_read_some n h st)"
| step_write: "tls_step st (Write_op h d r) (do_write d h r st)"
| step_shutdown: "tls_step st (Shutdown_op h e) (do_shutdown h e st)"
| step_close: "tls_step st Close_op (tls_close st)"
| step_socket_read: "reading st \<Longrightarrow> tls_step st (Socket_read_done r) (on_read r st)"
| step_socket_write: "writing st \<Longrightarrow> tls_step st (Socket_write_done ec) (on_written ec st)"

inductive_cases tls_stepE: "tls_step st e st'"

inductive tls_run :: "tls_stream \<Rightarrow> tls_event list \<Rightarrow> tls_stream \<Rightarrow> bool" where
  run_nil: "tls_run st [] st"
| run_snoc: "tls_run st es st1 \<Longrightarrow> tls_step st1 e st2 \<Longrightarrow> tls_run st (es @ [e]) st2"

section \<open>No handler is lost or called twice\<close>

text \<open>The handlers the stream still holds, the handlers it has called, and both together.\<close>

definition held :: "tls_stream \<Rightarrow> handler multiset" where
  "held st = mset (case handshake_handler st of None \<Rightarrow> [] | Some h \<Rightarrow> [h]) +
     mset (case shutdown_handler st of None \<Rightarrow> [] | Some h \<Rightarrow> [h]) +
     mset (case pending_read st of None \<Rightarrow> [] | Some (h, _) \<Rightarrow> [h]) +
     mset (List.map_filter item_handler (out_queue st))"

fun completed :: "tls_call \<Rightarrow> handler list" where
  "completed (Handshake_done h _) = [h]"
| "completed (Read_done h _ _) = [h]"
| "completed (Write_done h _ _) = [h]"
| "completed (Shutdown_done h _) = [h]"
| "completed _ = []"

definition account :: "tls_stream \<Rightarrow> handler multiset" where
  "account st = held st + mset (concat (map completed (calls st)))"

lemma map_filter_simps [simp]:
  "List.map_filter f [] = []"
  "List.map_filter f (x # xs) = (case f x of None \<Rightarrow> List.map_filter f xs | Some y \<Rightarrow> y # List.map_filter f xs)"
  "List.map_filter f (xs @ ys) = List.map_filter f xs @ List.map_filter f ys"
  by (simp_all add: List.map_filter_def split: option.splits)

lemma account_call [simp]: "account (call c st) = account st + mset (completed c)"
  by (simp add: account_def held_def call_def)

lemma account_fail_items: "account (fail_items ec is st) = account st + mset (List.map_filter item_handler is)"
  by (induction "is" arbitrary: st) (auto split: option.splits)

lemma account_complete_markers:
  "account (complete_markers is st) + mset (List.map_filter item_handler (out_queue st)) =
     account st + mset (List.map_filter item_handler is)"
  by (induction "is" arbitrary: st) (auto simp: account_def held_def call_def split: option.splits)

lemma account_fields [simp]:
  "account (st\<lparr>closed := b\<rparr>) = account st" "account (st\<lparr>tls_error := e\<rparr>) = account st"
  "account (st\<lparr>writing := b\<rparr>) = account st" "account (st\<lparr>reading := b\<rparr>) = account st"
  "account (st\<lparr>plain_in := d\<rparr>) = account st" "account (st\<lparr>plain_pos := n\<rparr>) = account st"
  "account (st\<lparr>peer_closed := b\<rparr>) = account st" "account (st\<lparr>activated := b\<rparr>) = account st"
  "account (st\<lparr>channel := b\<rparr>) = account st" "account (st\<lparr>kex_parameters := k\<rparr>) = account st"
  "account (st\<lparr>closing := b\<rparr>) = account st"
  by (simp_all add: account_def held_def)


lemma account_take:
  "handshake_handler st = Some h \<Longrightarrow> add_mset h (account (st\<lparr>handshake_handler := None\<rparr>)) = account st"
  "shutdown_handler st = Some h \<Longrightarrow> add_mset h (account (st\<lparr>shutdown_handler := None\<rparr>)) = account st"
  "pending_read st = Some (h, n) \<Longrightarrow> add_mset h (account (st\<lparr>pending_read := None\<rparr>)) = account st"
  "account (st\<lparr>out_queue := []\<rparr>) + mset (List.map_filter item_handler (out_queue st)) = account st"
  by (simp_all add: account_def held_def)

lemma account_put:
  "handshake_handler st = None \<Longrightarrow> account (st\<lparr>handshake_handler := Some h\<rparr>) = add_mset h (account st)"
  "shutdown_handler st = None \<Longrightarrow> account (st\<lparr>shutdown_handler := Some h\<rparr>) = add_mset h (account st)"
  "pending_read st = None \<Longrightarrow> account (st\<lparr>pending_read := Some (h, n)\<rparr>) = add_mset h (account st)"
  "account (st\<lparr>out_queue := out_queue st @ [i]\<rparr>) =
     account st + mset (case item_handler i of None \<Rightarrow> [] | Some h \<Rightarrow> [h])"
  by (simp_all add: account_def held_def split: option.splits)

lemma account_fail_pending [simp]: "account (fail_pending ec st) = account st"
proof -
  define s1 where "s1 = (case handshake_handler st of None \<Rightarrow> st
    | Some h \<Rightarrow> call (Handshake_done h (Some ec)) (st\<lparr>handshake_handler := None\<rparr>))"
  define s2 where "s2 = (case pending_read s1 of None \<Rightarrow> s1
    | Some (h, _) \<Rightarrow> call (Read_done h (Some ec) []) (s1\<lparr>pending_read := None\<rparr>))"
  define s3 where "s3 = fail_items ec (out_queue s2) (s2\<lparr>out_queue := []\<rparr>)"
  have "account s1 = account st" by (auto simp: s1_def account_take split: option.splits)
  moreover have "account s2 = account s1" by (auto simp: s2_def account_take split: option.splits)
  moreover have "account s3 = account s2" by (simp add: s3_def account_fail_items account_take)
  moreover have "account (fail_pending ec st) = account s3"
    unfolding fail_pending_def Let_def s1_def [symmetric] s2_def [symmetric] s3_def [symmetric]
    by (auto simp: account_take split: option.splits)
  ultimately show ?thesis by simp
qed

lemma account_fail [simp]: "account (fail ec st) = account st"
  by (simp add: fail_def)

lemma account_close [simp]: "account (tls_close st) = account st"
  by (simp add: tls_close_def)

lemma account_finish_shutdown [simp]: "account (finish_shutdown st) = account st"
  by (auto simp: finish_shutdown_def Let_def account_take split: option.splits)

lemma account_complete_write_markers [simp]: "account (complete_write_markers st) = account st"
  using account_complete_markers [of "out_queue st" st] by (simp add: complete_write_markers_def)

lemma account_start_write [simp]: "account (start_write st) = account st"
  by (auto simp: start_write_def Let_def split: list.splits)

lemma account_on_emit [simp]: "account (on_emit d st) = account st"
  by (simp add: on_emit_def account_put)

lemma account_fold_emit [simp]: "account (fold on_emit ds st) = account st"
  by (induction ds arbitrary: st) auto

lemma account_start_read [simp]: "account (start_read st) = account st"
  by (simp add: start_read_def Let_def)

lemma account_compact [simp]: "account (compact_plain_in st) = account st"
  by (simp add: compact_plain_in_def)

lemma compact_fields [simp]:
  "pending_read (compact_plain_in st) = pending_read st" "calls (compact_plain_in st) = calls st"
  by (simp_all add: compact_plain_in_def)

lemma account_deliver_read [simp]: "account (deliver_read st) = account st"
  by (auto simp: deliver_read_def Let_def account_take split: option.splits)

lemma account_channel_event [simp]: "account (on_channel_event e st) = account st"
  by (cases e) (auto simp: on_record_def on_close_notify_def on_fatal_alert_def on_established_def
      on_activated_def Let_def account_take split: option.splits)

lemma account_fold_event [simp]: "account (fold on_channel_event es st) = account st"
  by (induction es arbitrary: st) auto

lemma account_on_read [simp]: "account (on_read r st) = account st"
  by (auto simp: on_read_def Let_def split: sum.splits)

text \<open>The invariant of the stream; \<open>hs\<close> says that the channel is just being constructed.\<close>

definition tls_ok :: "bool \<Rightarrow> tls_stream \<Rightarrow> bool" where
  "tls_ok hs st \<longleftrightarrow>
     (\<not> channel st \<and> \<not> hs \<and> \<not> closed st \<longrightarrow> handshake_handler st = None) \<and>
     (shutdown_handler st \<noteq> None \<longrightarrow> closing st) \<and>
     (closing st \<longrightarrow> pending_read st = None) \<and>
     (closed st \<longrightarrow> pending_read st = None \<and> shutdown_handler st = None \<and>
        List.map_filter item_handler (out_queue st) = []) \<and>
     (tls_error st \<noteq> None \<longrightarrow> closed st) \<and>
     (writing st \<and> \<not> closed st \<longrightarrow> out_queue st \<noteq> [] \<and> item_data (hd (out_queue st)) \<noteq> []) \<and>
     list_all (\<lambda>i. item_data i = [] \<or> item_handler i = None) (out_queue st) \<and>
     plain_pos st \<le> length (plain_in st)"

text \<open>The handler that an event brings.\<close>

fun submitted :: "tls_event \<Rightarrow> handler list" where
  "submitted (Handshake_op h _) = [h]"
| "submitted (Read_op h _) = [h]"
| "submitted (Write_op h _ _) = [h]"
| "submitted (Shutdown_op h _) = [h]"
| "submitted _ = []"

lemma call_fields [simp]:
  "channel (call c st) = channel st" "handshake_handler (call c st) = handshake_handler st"
  "shutdown_handler (call c st) = shutdown_handler st" "pending_read (call c st) = pending_read st"
  "plain_in (call c st) = plain_in st" "plain_pos (call c st) = plain_pos st" "out_queue (call c st) = out_queue st"
  "tls_error (call c st) = tls_error st" "reading (call c st) = reading st" "writing (call c st) = writing st"
  "activated (call c st) = activated st" "peer_closed (call c st) = peer_closed st" "closing (call c st) = closing st"
  "closed (call c st) = closed st" "calls (call c st) = calls st @ [c]"
  by (simp_all add: call_def)

lemma tls_ok_call [simp]: "tls_ok hs (call c st) = tls_ok hs st"
  by (simp add: tls_ok_def)

lemma tls_ok_error_codes [simp]:
  "tls_ok hs (st\<lparr>reading := b\<rparr>) = tls_ok hs st" "tls_ok hs (st\<lparr>peer_closed := b\<rparr>) = tls_ok hs st"
  "tls_ok hs (st\<lparr>activated := b\<rparr>) = tls_ok hs st" "tls_ok hs (st\<lparr>kex_parameters := k\<rparr>) = tls_ok hs st"
  by (simp_all add: tls_ok_def)

lemma fail_items_fields [simp]:
  "channel (fail_items ec is st) = channel st" "handshake_handler (fail_items ec is st) = handshake_handler st"
  "shutdown_handler (fail_items ec is st) = shutdown_handler st" "pending_read (fail_items ec is st) = pending_read st"
  "plain_in (fail_items ec is st) = plain_in st" "plain_pos (fail_items ec is st) = plain_pos st"
  "out_queue (fail_items ec is st) = out_queue st" "tls_error (fail_items ec is st) = tls_error st"
  "closing (fail_items ec is st) = closing st" "closed (fail_items ec is st) = closed st"
  "writing (fail_items ec is st) = writing st"
  by (induction "is" arbitrary: st) (auto split: option.splits)

lemma fail_pending_fields [simp]:
  "handshake_handler (fail_pending ec st) = None" "shutdown_handler (fail_pending ec st) = None"
  "pending_read (fail_pending ec st) = None" "out_queue (fail_pending ec st) = []"
  "plain_in (fail_pending ec st) = plain_in st" "plain_pos (fail_pending ec st) = plain_pos st"
  "tls_error (fail_pending ec st) = tls_error st" "closed (fail_pending ec st) = closed st"
  by (auto simp: fail_pending_def Let_def split: option.splits)

lemma tls_ok_fail_pending: "closed st \<Longrightarrow> plain_pos st \<le> length (plain_in st) \<Longrightarrow> tls_ok hs (fail_pending ec st)"
  by (simp add: tls_ok_def)

lemma tls_ok_fail: "tls_ok hs st \<Longrightarrow> tls_ok hs (fail ec st)"
  unfolding fail_def by (auto intro!: tls_ok_fail_pending) (simp_all add: tls_ok_def)

lemma tls_ok_close: "tls_ok hs st \<Longrightarrow> tls_ok hs (tls_close st)"
  unfolding tls_close_def by (auto intro!: tls_ok_fail_pending) (simp add: tls_ok_def)

lemma tls_ok_finish_shutdown: "tls_ok hs st \<Longrightarrow> tls_ok hs (finish_shutdown st)"
  by (auto simp: finish_shutdown_def Let_def tls_ok_def split: option.splits)

lemma complete_markers_fields [simp]:
  "channel (complete_markers is st) = channel st" "handshake_handler (complete_markers is st) = handshake_handler st"
  "shutdown_handler (complete_markers is st) = shutdown_handler st" "pending_read (complete_markers is st) = pending_read st"
  "plain_in (complete_markers is st) = plain_in st" "plain_pos (complete_markers is st) = plain_pos st"
  "out_queue (complete_markers is st) = dropWhile (\<lambda>i. item_data i = []) is" "tls_error (complete_markers is st) = tls_error st"
  "closing (complete_markers is st) = closing st" "closed (complete_markers is st) = closed st"
  "writing (complete_markers is st) = writing st"
  by (induction "is" arbitrary: st) (auto split: option.splits)

lemma tls_ok_complete_write_markers:
  "tls_ok hs st \<Longrightarrow> \<not> closed st \<Longrightarrow> \<not> writing st \<Longrightarrow> tls_ok hs (complete_write_markers st)"
  by (auto simp: tls_ok_def complete_write_markers_def list_all_iff dest: set_dropWhileD)

lemma tls_ok_start_write: "tls_ok hs st \<Longrightarrow> tls_ok hs (start_write st)"
proof (cases "writing st \<or> closed st")
  case False
  assume st: "tls_ok hs st"
  let ?s = "complete_write_markers st"
  have s: "tls_ok hs ?s" using tls_ok_complete_write_markers st False by simp
  show ?thesis
  proof (cases "out_queue ?s")
    case Nil
    then show ?thesis using False s tls_ok_finish_shutdown by (simp add: start_write_def Let_def)
  next
    case (Cons i "is")
    have "item_data i \<noteq> []"
      using Cons hd_dropWhile [of "\<lambda>i. item_data i = []" "out_queue st"] by (auto simp: complete_write_markers_def)
    then have "tls_ok hs (?s\<lparr>writing := True\<rparr>)" using s Cons by (auto simp: tls_ok_def)
    then show ?thesis using False Cons by (simp add: start_write_def Let_def)
  qed
qed (simp add: start_write_def)

lemma tls_ok_enqueue:
  "tls_ok hs st \<Longrightarrow> item_data i = [] \<and> \<not> closed st \<or> item_handler i = None \<Longrightarrow>
     tls_ok hs (st\<lparr>out_queue := out_queue st @ [i]\<rparr>)"
  by (auto simp: tls_ok_def hd_append)

lemma tls_ok_on_emit: "tls_ok hs st \<Longrightarrow> tls_ok hs (on_emit d st)"
  unfolding on_emit_def by (intro tls_ok_start_write tls_ok_enqueue) auto

lemma tls_ok_fold_emit: "tls_ok hs st \<Longrightarrow> tls_ok hs (fold on_emit ds st)"
  by (induction ds arbitrary: st) (auto intro: tls_ok_on_emit)

lemma tls_ok_start_read: "tls_ok hs st \<Longrightarrow> tls_ok hs (start_read st)"
  by (simp add: start_read_def Let_def)

lemma tls_ok_compact: "tls_ok hs st \<Longrightarrow> tls_ok hs (compact_plain_in st)"
  by (simp add: compact_plain_in_def tls_ok_def)

lemma tls_ok_read_taken:
  "tls_ok hs st \<Longrightarrow> tls_ok hs (st\<lparr>pending_read := None\<rparr>)"
  "tls_ok hs st \<Longrightarrow> n \<le> length (plain_in st) \<Longrightarrow> tls_ok hs (st\<lparr>plain_pos := n\<rparr>)"
  by (simp_all add: tls_ok_def)

lemma tls_ok_deliver_read: "tls_ok hs st \<Longrightarrow> tls_ok hs (deliver_read st)"
  by (auto simp: deliver_read_def Let_def tls_ok_read_taken tls_ok_compact split: option.splits)

lemma tls_ok_recorded: "tls_ok hs st \<Longrightarrow> tls_ok hs (st\<lparr>plain_in := plain_in st @ d\<rparr>)"
  by (simp add: tls_ok_def)

lemma tls_ok_handshake_taken: "tls_ok hs st \<Longrightarrow> tls_ok hs (st\<lparr>activated := b, handshake_handler := None\<rparr>)"
  by (simp add: tls_ok_def)

lemma tls_ok_channel_event: "tls_ok hs st \<Longrightarrow> tls_ok hs (on_channel_event e st)"
  by (cases e) (auto simp: on_record_def on_close_notify_def on_fatal_alert_def on_established_def
      on_activated_def Let_def tls_ok_on_emit tls_ok_fail tls_ok_recorded tls_ok_handshake_taken split: option.splits)

lemma tls_ok_fold_event: "tls_ok hs st \<Longrightarrow> tls_ok hs (fold on_channel_event es st)"
  by (induction es arbitrary: st) (auto intro: tls_ok_channel_event)

lemma tls_ok_on_read: "tls_ok hs st \<Longrightarrow> tls_ok hs (on_read r st)"
  by (auto simp: on_read_def Let_def tls_ok_fail tls_ok_start_read tls_ok_deliver_read tls_ok_finish_shutdown
      tls_ok_fold_event split: sum.splits)


section \<open>Operations\<close>

lemma on_emit_not_closing:
  "\<not> closing st \<Longrightarrow> closed (on_emit d st) = closed st \<and> closing (on_emit d st) = closing st \<and>
     channel (on_emit d st) = channel st \<and> tls_error (on_emit d st) = tls_error st"
  by (auto simp: on_emit_def start_write_def Let_def complete_write_markers_def split: list.splits)

lemma fold_emit_not_closing:
  "\<not> closing st \<Longrightarrow> closed (fold on_emit ds st) = closed st \<and> closing (fold on_emit ds st) = closing st \<and>
     channel (fold on_emit ds st) = channel st \<and> tls_error (fold on_emit ds st) = tls_error st"
  by (induction ds arbitrary: st) (auto simp: on_emit_not_closing)

lemma do_write_ok:
  assumes "tls_ok hs st"
  shows "tls_ok hs (do_write d h r st)" "account (do_write d h r st) = add_mset h (account st)"
proof -
  have "tls_ok hs (st'\<lparr>out_queue := out_queue st' @ [\<lparr>item_data = [], item_handler = Some h, user_bytes = length d\<rparr>]\<rparr>)"
    if "tls_ok hs st'" "\<not> closed st'" for st'
    using that by (intro tls_ok_enqueue) auto
  then show "tls_ok hs (do_write d h r st)"
    using assms fold_emit_not_closing [of st "fst r"]
    by (auto simp: do_write_def Let_def tls_ok_fail tls_ok_fold_emit intro!: tls_ok_start_write split: prod.splits)
  show "account (do_write d h r st) = add_mset h (account st)"
    by (auto simp: do_write_def Let_def account_put split: prod.splits)
qed

lemma do_read_some_ok:
  assumes "tls_ok hs st"
  shows "tls_ok hs (do_read_some n h st)" "account (do_read_some n h st) = add_mset h (account st)"
proof -
  have "tls_ok hs (st\<lparr>pending_read := Some (h, n)\<rparr>)" if "\<not> closed st" "\<not> closing st"
    using assms that by (simp add: tls_ok_def)
  then show "tls_ok hs (do_read_some n h st)"
    using assms by (auto simp: do_read_some_def tls_ok_start_read tls_ok_deliver_read)
  show "account (do_read_some n h st) = add_mset h (account st)"
    by (cases "pending_read st") (simp_all add: do_read_some_def account_put)
qed

lemma async_handshake_ok:
  assumes "tls_ok False st"
  shows "tls_ok False (async_handshake h r st)" "account (async_handshake h r st) = add_mset h (account st)"
proof -
  have a: "tls_ok True st' \<Longrightarrow> tls_ok False (fail e st')" for e st'
    by (auto simp: tls_ok_def fail_def)
  have b: "tls_ok True st' \<Longrightarrow> tls_ok False (st'\<lparr>channel := True\<rparr>)" for st'
    by (simp add: tls_ok_def)
  have "tls_ok True (st\<lparr>handshake_handler := Some h\<rparr>)" using assms by (auto simp: tls_ok_def)
  then have "tls_ok True (fold on_emit ds (st\<lparr>handshake_handler := Some h\<rparr>))" for ds by (rule tls_ok_fold_emit)
  with a b assms show "tls_ok False (async_handshake h r st)"
    by (auto simp: async_handshake_def do_handshake_def Let_def tls_ok_start_read split: prod.splits)
  have "handshake_handler st = None" if "\<not> channel st" "\<not> closed st" using assms that by (simp add: tls_ok_def)
  then show "account (async_handshake h r st) = add_mset h (account st)"
    by (auto simp: async_handshake_def do_handshake_def Let_def account_put split: prod.splits)
qed

lemma do_shutdown_ok:
  assumes "tls_ok hs st"
  shows "tls_ok hs (do_shutdown h ds st)" "account (do_shutdown h ds st) = add_mset h (account st)"
proof -
  let ?s = "st\<lparr>closing := True, shutdown_handler := Some h\<rparr>"
  have n: "shutdown_handler st = None" if "\<not> closing st" using assms that by (auto simp: tls_ok_def)
  have 1: "tls_ok hs (?s\<lparr>pending_read := None\<rparr>)" if "\<not> closed st" using assms that by (simp add: tls_ok_def)
  then have 2: "tls_ok hs ?s" if "\<not> closed st" "pending_read st = None" using that by (simp add: tls_ok_def)
  show "tls_ok hs (do_shutdown h ds st)"
    using assms 1 2 by (auto simp: do_shutdown_def Let_def tls_ok_start_write tls_ok_fold_emit split: option.splits)
  show "account (do_shutdown h ds st) = add_mset h (account st)"
  proof -
    have a: "account (st\<lparr>closing := True, shutdown_handler := Some h\<rparr>) = add_mset h (account st)" if "\<not> closing st"
      using n that account_put(2) [of "st\<lparr>closing := True\<rparr>" h] by simp
    have "add_mset p (account (st\<lparr>closing := True, shutdown_handler := Some h, pending_read := None\<rparr>)) = add_mset h (account st)"
      if "\<not> closing st" "pending_read st = Some (p, k)" for p k
      using account_take(3) [of ?s p k] a that by simp
    then show ?thesis using a by (auto simp: do_shutdown_def Let_def split: option.splits)
  qed
qed

lemma on_written_ok:
  assumes "tls_ok hs st" "writing st"
  shows "tls_ok hs (on_written ec st)" "account (on_written ec st) = account st"
proof -
  obtain i "is" where q: "out_queue st = i # is" "item_handler i = None" if "\<not> closed st"
    using assms by (cases "out_queue st") (auto simp: tls_ok_def)
  have t: "tls_ok hs (st\<lparr>writing := False\<rparr>)" using assms(1) by (simp add: tls_ok_def)
  have "tls_ok hs (st\<lparr>writing := False, out_queue := is\<rparr>)" if "\<not> closed st"
    using assms(1) q [OF that] that by (auto simp: tls_ok_def)
  with t show "tls_ok hs (on_written ec st)"
    using q by (auto simp: on_written_def Let_def tls_ok_fail tls_ok_start_write split: option.splits)
  have "account (st\<lparr>writing := False, out_queue := is\<rparr>) = account st" if "\<not> closed st"
    using q [OF that] by (simp add: account_def held_def)
  then show "account (on_written ec st) = account st"
    using q by (auto simp: on_written_def Let_def split: option.splits)
qed

lemma tls_step_ok:
  assumes "tls_step st e st'" "tls_ok False st"
  shows "tls_ok False st'" "account st' = account st + mset (submitted e)"
  using assms
  by (cases rule: tls_step.cases;
      simp add: do_write_ok do_read_some_ok async_handshake_ok do_shutdown_ok on_written_ok tls_ok_close tls_ok_on_read)+

lemma tls_run_ok:
  assumes "tls_run make_tls_stream es st"
  shows "tls_ok False st \<and> account st = mset (concat (map submitted es))"
  using assms
proof (induction make_tls_stream es st rule: tls_run.induct)
  case run_nil
  then show ?case by (simp add: tls_ok_def account_def held_def make_tls_stream_def)
next
  case (run_snoc es st1 e st2)
  then show ?case using tls_step_ok by auto
qed

text \<open>C8: No completion handler of the TLS stream is lost or called twice: after any run, the
  handlers called together with the handlers still held are exactly the handlers submitted.\<close>

theorem tls_handlers_accounted:
  assumes "tls_run make_tls_stream es st"
  shows "held st + mset (concat (map completed (calls st))) = mset (concat (map submitted es))"
  using tls_run_ok [OF assms] by (simp add: account_def)

text \<open>Once the stream is closed, by the user, an error or the end of a shutdown, every read,
  write and shutdown handler has been called: the only handler it can still hold is that of the
  handshake.\<close>

theorem tls_closed_holds_nothing:
  assumes "tls_run make_tls_stream es st" "closed st"
  shows "pending_read st = None \<and> shutdown_handler st = None \<and> List.map_filter item_handler (out_queue st) = [] \<and>
    held st = mset (case handshake_handler st of None \<Rightarrow> [] | Some h \<Rightarrow> [h])"
  using tls_run_ok [OF assms(1)] assms(2) by (auto simp: tls_ok_def held_def)

section \<open>Data\<close>

fun delivered :: "tls_call \<Rightarrow> octets" where
  "delivered (Read_done _ _ d) = d"
| "delivered _ = []"

text \<open>Everything the user has read and everything that waits to be read.\<close>

definition plaintext :: "tls_stream \<Rightarrow> octets" where
  "plaintext st = concat (map delivered (calls st)) @ drop (plain_pos st) (plain_in st)"

lemma plaintext_call [simp]: "delivered c = [] \<Longrightarrow> plaintext (call c st) = plaintext st"
  by (simp add: plaintext_def)

lemma plaintext_fields [simp]:
  "plaintext (st\<lparr>closed := b\<rparr>) = plaintext st" "plaintext (st\<lparr>tls_error := e\<rparr>) = plaintext st"
  "plaintext (st\<lparr>writing := b\<rparr>) = plaintext st" "plaintext (st\<lparr>reading := b\<rparr>) = plaintext st"
  "plaintext (st\<lparr>out_queue := q\<rparr>) = plaintext st" "plaintext (st\<lparr>closing := b\<rparr>) = plaintext st"
  "plaintext (st\<lparr>peer_closed := b\<rparr>) = plaintext st" "plaintext (st\<lparr>activated := b\<rparr>) = plaintext st"
  "plaintext (st\<lparr>channel := b\<rparr>) = plaintext st" "plaintext (st\<lparr>kex_parameters := k\<rparr>) = plaintext st"
  "plaintext (st\<lparr>handshake_handler := h\<rparr>) = plaintext st" "plaintext (st\<lparr>shutdown_handler := h\<rparr>) = plaintext st"
  "plaintext (st\<lparr>pending_read := p\<rparr>) = plaintext st"
  by (simp_all add: plaintext_def)

lemma plaintext_fail_items [simp]: "plaintext (fail_items ec is st) = plaintext st"
  by (induction "is" arbitrary: st) (auto split: option.splits)

lemma plaintext_fail_pending [simp]: "plaintext (fail_pending ec st) = plaintext st"
  by (auto simp: fail_pending_def Let_def split: option.splits)

lemma plaintext_fail [simp]: "plaintext (fail ec st) = plaintext st" "plaintext (tls_close st) = plaintext st"
  by (simp_all add: fail_def tls_close_def)

lemma plaintext_finish_shutdown [simp]: "plaintext (finish_shutdown st) = plaintext st"
  by (auto simp: finish_shutdown_def Let_def split: option.splits)

lemma plaintext_complete_markers [simp]: "plaintext (complete_markers is st) = plaintext st"
  by (induction "is" arbitrary: st) (auto split: option.splits)

lemma plaintext_start_write [simp]: "plaintext (start_write st) = plaintext st"
  by (auto simp: start_write_def Let_def complete_write_markers_def split: list.splits)

lemma plaintext_on_emit [simp]: "plaintext (on_emit d st) = plaintext st"
  by (simp add: on_emit_def)

lemma plaintext_fold_emit [simp]: "plaintext (fold on_emit ds st) = plaintext st"
  by (induction ds arbitrary: st) auto

lemma plaintext_on_written [simp]: "plaintext (on_written ec st) = plaintext st"
  by (auto simp: on_written_def Let_def split: option.splits)

lemma plaintext_start_read [simp]: "plaintext (start_read st) = plaintext st"
  by (simp add: start_read_def Let_def)

lemma plaintext_compact [simp]: "plaintext (compact_plain_in st) = plaintext st"
  by (simp add: compact_plain_in_def plaintext_def)

lemma plaintext_delivered:
  "plaintext (call (Read_done h None (take n (drop (plain_pos st) (plain_in st)))) (st\<lparr>plain_pos := plain_pos st + n\<rparr>)) =
     plaintext st"
  by (simp add: plaintext_def add.commute flip: drop_drop)

lemma call_compact: "call c (compact_plain_in st) = compact_plain_in (call c st)"
  by (simp add: compact_plain_in_def call_def)

lemma plaintext_deliver_read [simp]: "plaintext (deliver_read st) = plaintext st"
proof -
  have "plaintext (call (Read_done h None (take n (drop (plain_pos st) (plain_in st))))
      (compact_plain_in (st\<lparr>plain_pos := plain_pos st + n\<rparr>)\<lparr>pending_read := None\<rparr>)) = plaintext st" for h n
  proof -
    have "call c (s\<lparr>pending_read := None\<rparr>) = (call c s)\<lparr>pending_read := None\<rparr>" for c s by (simp add: call_def)
    then show ?thesis by (simp add: call_compact plaintext_delivered)
  qed
  then show ?thesis by (auto simp: deliver_read_def Let_def split: option.splits)
qed

text \<open>The application data an event brings.\<close>

fun recorded :: "channel_event \<Rightarrow> octets" where
  "recorded (Record d) = d"
| "recorded _ = []"

lemma plaintext_channel_event:
  "plain_pos st \<le> length (plain_in st) \<Longrightarrow> plaintext (on_channel_event e st) = plaintext st @ recorded e"
  by (cases e) (auto simp: on_record_def on_close_notify_def on_fatal_alert_def on_established_def on_activated_def
      Let_def split: option.splits, simp add: plaintext_def)


lemma plaintext_fold_event:
  "tls_ok hs st \<Longrightarrow> plaintext (fold on_channel_event es st) = plaintext st @ concat (map recorded es)"
proof (induction es arbitrary: st)
  case (Cons e es)
  have "plain_pos st \<le> length (plain_in st)" using Cons.prems by (simp add: tls_ok_def)
  then show ?case using Cons.IH [OF tls_ok_channel_event [OF Cons.prems]] by (simp add: plaintext_channel_event)
qed simp

fun records :: "tls_event \<Rightarrow> octets" where
  "records (Socket_read_done (Inr (es, _))) = concat (map recorded es)"
| "records _ = []"

lemma closed_on_emit: "closed st \<Longrightarrow> closed (on_emit d st)"
  by (simp add: on_emit_def start_write_def)

lemma closed_channel_event: "closed st \<Longrightarrow> closed (on_channel_event e st)"
  by (cases e) (auto simp: closed_on_emit on_record_def on_close_notify_def on_fatal_alert_def fail_def on_established_def
      on_activated_def Let_def split: option.splits)

lemma closed_step:
  assumes "tls_step st e st'" "closed st"
  shows "closed st' \<and> plaintext st' = plaintext st"
  using assms
  by (cases rule: tls_step.cases)
    (auto simp: async_handshake_def do_read_some_def do_write_def do_shutdown_def tls_close_def on_read_def
      on_written_def Let_def)

lemma open_step:
  assumes "tls_step st e st'" "\<not> closed st" "tls_ok False st"
  shows "plaintext st' = plaintext st @ records e"
  using assms(1)
proof (cases rule: tls_step.cases)
  case (step_socket_read r)
  have "tls_ok False (st\<lparr>reading := False\<rparr>)" using assms(3) by simp
  from plaintext_fold_event [OF this] show ?thesis
    using step_socket_read assms(2) by (auto simp: on_read_def Let_def split: sum.splits)
qed (auto simp: async_handshake_def do_handshake_def do_read_some_def do_write_def do_shutdown_def Let_def
    split: prod.splits option.splits)

text \<open>C15: The TLS stream delivers the application data it receives in order and without loss or
  repetition, whatever the sizes of the reads and of the records: the octets read so far are a
  prefix of the records received, and while the stream is open the rest of them waits to be read.\<close>

theorem tls_plaintext_in_order:
  assumes "tls_run make_tls_stream es st"
  shows "(\<exists>rest. concat (map delivered (calls st)) @ rest = concat (map records es)) \<and>
    (\<not> closed st \<longrightarrow>
       concat (map delivered (calls st)) @ drop (plain_pos st) (plain_in st) = concat (map records es))"
proof -
  have "(\<exists>rest. plaintext st @ rest = concat (map records es)) \<and> (\<not> closed st \<longrightarrow> plaintext st = concat (map records es))"
    using assms
  proof (induction make_tls_stream es st rule: tls_run.induct)
    case run_nil
    then show ?case by (simp add: plaintext_def make_tls_stream_def)
  next
    case (run_snoc es st1 e st2)
    have "tls_ok False st1" using tls_run_ok run_snoc.hyps(1) by blast
    then show ?case
      using run_snoc.hyps(2,3) closed_step [OF run_snoc.hyps(3)] open_step [OF run_snoc.hyps(3)]
      by (cases "closed st1") (auto, metis append.assoc)
  qed
  then show ?thesis by (auto simp: plaintext_def)
qed

text \<open>A concrete run, for the witnesses: the handshake, a record of five octets read in two pieces,
  a write and its completion.\<close>

definition sample_events :: "tls_event list" where
  "sample_events =
     [Handshake_op 1 ([[22]], False), Socket_write_done None,
      Socket_read_done (Inr ([Established (Some ''x25519''), Session_activated, Record [1, 2, 3, 4, 5]], False)),
      Read_op 2 3, Read_op 3 9, Write_op 4 [7] ([[8, 9]], False), Socket_write_done None, Close_op]"

fun apply_event :: "tls_event \<Rightarrow> tls_stream \<Rightarrow> tls_stream option" where
  "apply_event (Handshake_op h r) st = Some (async_handshake h r st)"
| "apply_event (Read_op h n) st = Some (do_read_some n h st)"
| "apply_event (Write_op h d r) st = Some (do_write d h r st)"
| "apply_event (Shutdown_op h e) st = Some (do_shutdown h e st)"
| "apply_event Close_op st = Some (tls_close st)"
| "apply_event (Socket_read_done r) st = (if reading st then Some (on_read r st) else None)"
| "apply_event (Socket_write_done ec) st = (if writing st then Some (on_written ec st) else None)"

fun apply_events :: "tls_event list \<Rightarrow> tls_stream \<Rightarrow> tls_stream option" where
  "apply_events [] st = Some st"
| "apply_events (e # es) st = (case apply_event e st of None \<Rightarrow> None | Some st' \<Rightarrow> apply_events es st')"

lemma apply_event_step: "apply_event e st = Some st' \<longleftrightarrow> tls_step st e st'"
  by (cases e) (auto split: if_splits elim: tls_stepE intro: tls_step.intros)

lemma tls_run_append: "tls_run st' es' st'' \<Longrightarrow> tls_run st es st' \<Longrightarrow> tls_run st (es @ es') st''"
proof (induction st' es' st'' rule: tls_run.induct)
  case (run_snoc st' es' st1 e st2)
  then show ?case using tls_run.run_snoc [of st "es @ es'" st1 e st2] by simp
qed simp

lemma apply_events_run: "apply_events es st = Some st' \<Longrightarrow> tls_run st es st'"
proof (induction es arbitrary: st)
  case Nil
  then show ?case by (simp add: run_nil)
next
  case (Cons e es)
  then obtain st1 where "tls_step st e st1" "tls_run st1 es st'"
    by (auto simp: apply_event_step split: option.splits)
  then show ?case using tls_run_append [of st1 es st' st "[e]"] run_snoc [OF run_nil, of st e st1] by simp
qed

definition sample_end :: tls_stream where
  "sample_end = the (apply_events sample_events make_tls_stream)"

lemma sample_run: "tls_run make_tls_stream sample_events sample_end"
proof -
  have "apply_events sample_events make_tls_stream \<noteq> None" by code_simp
  then show ?thesis by (intro apply_events_run) (simp add: sample_end_def)
qed

theorem tls_handlers_accounted_witness:
  "held sample_end + mset (concat (map completed (calls sample_end))) = {#1, 2, 3, 4#}"
  using tls_handlers_accounted [OF sample_run] by (simp add: sample_events_def)

theorem tls_closed_holds_nothing_witness:
  "closed sample_end \<and> held sample_end = {#}"
proof -
  have "closed sample_end" "handshake_handler sample_end = None" unfolding sample_end_def by code_simp+
  with tls_closed_holds_nothing [OF sample_run this(1)] show ?thesis by simp
qed

theorem tls_plaintext_in_order_witness:
  "\<exists>rest. concat (map delivered (calls sample_end)) @ rest = [1, 2, 3, 4, 5]"
  using tls_plaintext_in_order [OF sample_run] by (simp add: sample_events_def)

section \<open>A handler that is never called\<close>

text \<open>A shutdown during the handshake: when the peer goes away, the stream closes itself without
  completing the handshake handler, and no later event completes it.\<close>

definition abandoned_events :: "tls_event list" where
  "abandoned_events =
     [Handshake_op 1 ([], False), Shutdown_op 2 [], Socket_read_done (Inl Eof)]"

definition abandoned_end :: tls_stream where
  "abandoned_end = the (apply_events abandoned_events make_tls_stream)"

lemma closed_keeps_handshake:
  assumes "tls_run st es st'" "closed st"
  shows "closed st' \<and> handshake_handler st' = handshake_handler st"
  using assms
proof (induction st es st' rule: tls_run.induct)
  case (run_snoc st es st1 e st2)
  from run_snoc.hyps(2) have "handshake_handler st2 = handshake_handler st1" if "closed st1"
    using that by (cases rule: tls_step.cases)
      (auto simp: async_handshake_def do_read_some_def do_write_def do_shutdown_def tls_close_def on_read_def
        on_written_def Let_def)
  then show ?case using run_snoc closed_step by auto
qed simp

text \<open>After a shutdown that overtakes the handshake and the peer's disconnect, the stream is
  closed and still holds the handshake handler, and so it does after every further run: that
  handler is never called.\<close>

theorem tls_handshake_handler_abandoned:
  assumes "tls_run abandoned_end es st"
  shows "tls_run make_tls_stream abandoned_events abandoned_end \<and> closed st \<and> handshake_handler st = Some 1"
proof -
  have "apply_events abandoned_events make_tls_stream \<noteq> None" by code_simp
  then have "tls_run make_tls_stream abandoned_events abandoned_end"
    by (intro apply_events_run) (simp add: abandoned_end_def)
  moreover have "closed abandoned_end" "handshake_handler abandoned_end = Some 1"
    unfolding abandoned_end_def by code_simp+
  ultimately show ?thesis using closed_keeps_handshake [OF assms] by simp
qed

theorem tls_handshake_handler_abandoned_witness:
  "closed abandoned_end \<and> handshake_handler abandoned_end = Some 1"
  using tls_handshake_handler_abandoned [OF run_nil] by simp


end
