(* ===== verification/Framing.thy ===== *)
theory Framing
  imports Tls_Stream Byte_Order
begin

text \<open>
  Record framing on top of the TLS stream (\<^verbatim>\<open>network/encryption/framing.cpp\<close>): a frame is the payload's
  length as four big-endian octets and the payload. The reader is a state machine driven by the
  completions of the stream's reads; what it relies on is the locale \<open>chunk_source\<close>: a read
  returns at least one and at most the requested number of the octets that come next.
\<close>

section \<open>Frames\<close>

definition max_frame_size :: nat where
  "max_frame_size = 16 * 1024 * 1024"

definition max_handshake_frame_size :: nat where
  "max_handshake_frame_size = 256 * 1024"

definition frame_header_size :: nat where
  "frame_header_size = 4"

definition encode_frame :: "octets \<Rightarrow> octets" where
  "encode_frame payload =
     (let n = (of_nat (length payload) :: 32 word)
      in [ucast (drop_bit 24 n), ucast (drop_bit 16 n), ucast (drop_bit 8 n), ucast n] @ payload)"

definition decode_frame_length :: "octets \<Rightarrow> 32 word" where
  "decode_frame_length header =
     push_bit 24 (ucast (header ! 0)) OR push_bit 16 (ucast (header ! 1))
       OR push_bit 8 (ucast (header ! 2)) OR ucast (header ! 3)"

text \<open>A frame goes to the stream with \<^verbatim>\<open>async_write\<close>, or the handler is posted an error.\<close>

definition async_send_frame :: "octets \<Rightarrow> net_errc + octets" where
  "async_send_frame payload =
     (if length payload > max_frame_size then Inl Invalid_data else Inr (encode_frame payload))"

section \<open>The reader\<close>

datatype frame_call =
    Read_some nat
  | Frame_done handler "net_errc option" octets

record frame_reader =
  frame_handler :: "handler option"
  frame_buffer :: octets
  received :: nat
  expected :: nat
  max_payload :: nat
  header_done :: bool
  busy :: bool

definition make_frame_reader :: frame_reader where
  "make_frame_reader = \<lparr>frame_handler = None, frame_buffer = replicate frame_header_size 0, received = 0,
     expected = frame_header_size, max_payload = max_frame_size, header_done = False, busy = False\<rparr>"

definition set_max_frame_size :: "nat \<Rightarrow> frame_reader \<Rightarrow> frame_reader" where
  "set_max_frame_size m fr = fr\<lparr>max_payload := m\<rparr>"

definition resize :: "nat \<Rightarrow> octets \<Rightarrow> octets" where
  "resize n bs = take n bs @ replicate (n - length bs) 0"

definition read_more :: "frame_reader \<Rightarrow> frame_reader \<times> frame_call list" where
  "read_more fr = (fr, [Read_some (expected fr - received fr)])"

definition complete :: "net_errc option \<Rightarrow> frame_reader \<Rightarrow> frame_reader \<times> frame_call list" where
  "complete ec fr =
     (let payload = (if ec = None then frame_buffer fr else []);
          fr' = fr\<lparr>busy := False, frame_handler := None,
                  frame_buffer := (if ec = None then [] else frame_buffer fr)\<rparr>
      in (fr', case frame_handler fr of None \<Rightarrow> [] | Some h \<Rightarrow> [Frame_done h ec payload]))"

definition async_receive_frame :: "handler \<Rightarrow> frame_reader \<Rightarrow> frame_reader \<times> frame_call list" where
  "async_receive_frame h fr =
     (if busy fr then (fr, [Frame_done h (Some Operation_in_progress) []])
      else read_more (fr\<lparr>busy := True, frame_handler := Some h, received := 0, expected := frame_header_size,
                        header_done := False, frame_buffer := resize frame_header_size (frame_buffer fr)\<rparr>))"

text \<open>The part of \<^verbatim>\<open>on_read\<close> that runs when everything expected is there: the payload is complete, or
  the header is and says how much payload to expect.\<close>

definition frame_full :: "frame_reader \<Rightarrow> frame_reader \<times> frame_call list" where
  "frame_full fr =
     (if header_done fr then complete None fr
      else let n = unat (decode_frame_length (take frame_header_size (frame_buffer fr)))
           in if n > max_payload fr then complete (Some Invalid_record) fr
              else let fr = fr\<lparr>header_done := True, received := 0, expected := n,
                              frame_buffer := resize n (frame_buffer fr)\<rparr>
                   in if n = 0 then complete None fr else read_more fr)"

text \<open>The stream has put the octets it read behind the ones already received.\<close>

definition frame_on_read :: "net_errc + octets \<Rightarrow> frame_reader \<Rightarrow> frame_reader \<times> frame_call list" where
  "frame_on_read r fr =
     (case r of
        Inl ec \<Rightarrow> complete (Some ec) fr
      | Inr d \<Rightarrow>
          let fr = fr\<lparr>frame_buffer := store (frame_buffer fr) (received fr) d, received := received fr + length d\<rparr>
          in if received fr < expected fr then read_more fr else frame_full fr)"

section \<open>Driving the reader\<close>

text \<open>Reads are answered by a source until the frame is complete; \<open>fuel\<close> bounds the number of reads.\<close>

fun frame_result :: "frame_call list \<Rightarrow> (net_errc option \<times> octets) option" where
  "frame_result [] = None"
| "frame_result (Frame_done h ec p # cs) = Some (ec, p)"
| "frame_result (Read_some n # cs) = frame_result cs"

primrec pump :: "(nat \<Rightarrow> 's \<Rightarrow> octets \<times> 's) \<Rightarrow> nat \<Rightarrow> frame_reader \<Rightarrow> 's \<Rightarrow>
    (net_errc option \<times> octets) option \<times> frame_reader \<times> 's" where
  "pump take_some 0 fr s = (None, fr, s)"
| "pump take_some (Suc fuel) fr s =
     (let (d, s) = take_some (expected fr - received fr) s; (fr, cs) = frame_on_read (Inr d) fr
      in case frame_result cs of Some r \<Rightarrow> (Some r, fr, s) | None \<Rightarrow> pump take_some fuel fr s)"

definition receive_frame :: "(nat \<Rightarrow> 's \<Rightarrow> octets \<times> 's) \<Rightarrow> nat \<Rightarrow> handler \<Rightarrow> frame_reader \<Rightarrow> 's \<Rightarrow>
    (net_errc option \<times> octets) option \<times> frame_reader \<times> 's" where
  "receive_frame take_some fuel h fr s =
     (let (fr, cs) = async_receive_frame h fr
      in case frame_result cs of Some r \<Rightarrow> (Some r, fr, s) | None \<Rightarrow> pump take_some fuel fr s)"

locale chunk_source =
  fixes take_some :: "nat \<Rightarrow> 's \<Rightarrow> octets \<times> 's"
    and avail :: "'s \<Rightarrow> octets"
    and invar :: "'s \<Rightarrow> bool"
  assumes take_some_ok: "invar s \<Longrightarrow> 0 < n \<Longrightarrow> avail s \<noteq> [] \<Longrightarrow> take_some n s = (bs, s') \<Longrightarrow>
      invar s' \<and> bs \<noteq> [] \<and> length bs \<le> n \<and> avail s = bs @ avail s'"

lemma frame_header_roundtrip:
  assumes "length p < 2 ^ 32"
  shows "unat (decode_frame_length (take 4 (encode_frame p))) = length p"
proof -
  let ?n = "of_nat (length p) :: 32 word"
  have "decode_frame_length (take 4 (encode_frame p)) = ?n"
  proof (rule bit_word_eqI)
    fix k assume "k < LENGTH(32)"
    then show "bit (decode_frame_length (take 4 (encode_frame p))) k = bit ?n k"
      by (auto simp: decode_frame_length_def encode_frame_def Let_def bit_simps)
  qed
  then show ?thesis using assms by (simp add: unat_of_nat)
qed

lemma length_frame_resize [simp]: "length (resize n bs) = n"
  by (simp add: resize_def)

lemma length_encode_frame [simp]: "length (encode_frame p) = 4 + length p"
  by (simp add: encode_frame_def Let_def)

lemma drop_encode_frame [simp]: "drop 4 (encode_frame p) = p"
  by (simp add: encode_frame_def Let_def)

context chunk_source
begin

text \<open>Whatever pieces the source returns, the reader ends up with the octets that came next.\<close>

lemma pump_fill:
  assumes "invar s" "avail s = w @ rest" "w \<noteq> []" "received fr + length w = expected fr"
    "length (frame_buffer fr) = expected fr" "length w \<le> fuel"
  shows "\<exists>s' fuel'. invar s' \<and> avail s' = rest \<and> fuel \<le> fuel' + length w \<and>
    pump take_some fuel fr s =
      (case frame_full (fr\<lparr>frame_buffer := take (received fr) (frame_buffer fr) @ w, received := expected fr\<rparr>) of
         (fr', cs) \<Rightarrow> case frame_result cs of Some r \<Rightarrow> (Some r, fr', s') | None \<Rightarrow> pump take_some fuel' fr' s')"
  using assms
proof (induction fuel arbitrary: s fr w)
  case 0
  then show ?case by simp
next
  case (Suc fuel)
  let ?n = "expected fr - received fr"
  obtain bs s1 where t: "take_some ?n s = (bs, s1)" by fastforce
  have n: "?n = length w" using Suc.prems(4) by simp
  have o: "invar s1" "bs \<noteq> []" "length bs \<le> length w" "w @ rest = bs @ avail s1"
    using take_some_ok [OF Suc.prems(1) _ _ t] Suc.prems(2,3) n by auto
  then have w: "w = bs @ drop (length bs) w" "avail s1 = drop (length bs) w @ rest"
    by (metis append_eq_append_conv_if append_take_drop_id)+
  let ?fr = "fr\<lparr>frame_buffer := store (frame_buffer fr) (received fr) bs, received := received fr + length bs\<rparr>"
  show ?case
  proof (cases "length bs = length w")
    case True
    then have "bs = w" using w(1) by simp
    then have fb: "store (frame_buffer fr) (received fr) bs = take (received fr) (frame_buffer fr) @ w"
      using Suc.prems(4,5) by (simp add: store_def)
    have "frame_on_read (Inr bs) fr =
        frame_full (fr\<lparr>frame_buffer := take (received fr) (frame_buffer fr) @ w, received := expected fr\<rparr>)"
      using Suc.prems(4) \<open>bs = w\<close> fb by (simp add: frame_on_read_def Let_def)
    moreover have "Suc 0 \<le> length w" using Suc.prems(3) by (cases w) auto
    ultimately show ?thesis using t o(1) w(2) True by (intro exI [of _ s1] exI [of _ fuel]) (simp split: prod.splits)
  next
    case False
    then have l: "length bs < length w" using o(3) by simp
    let ?w = "drop (length bs) w"
    have "frame_on_read (Inr bs) fr = (?fr, [Read_some (expected fr - (received fr + length bs))])"
      using l Suc.prems(4) by (simp add: frame_on_read_def Let_def read_more_def)
    then have p: "pump take_some (Suc fuel) fr s = pump take_some fuel ?fr s1" using t by simp
    have fits: "received fr + length bs \<le> length (frame_buffer fr)" using l Suc.prems(4,5) by simp
    have "\<exists>s' fuel'. invar s' \<and> avail s' = rest \<and> fuel \<le> fuel' + length ?w \<and>
      pump take_some fuel ?fr s1 =
        (case frame_full (?fr\<lparr>frame_buffer := take (received ?fr) (frame_buffer ?fr) @ ?w, received := expected ?fr\<rparr>) of
           (fr', cs) \<Rightarrow> case frame_result cs of Some r \<Rightarrow> (Some r, fr', s') | None \<Rightarrow> pump take_some fuel' fr' s')"
    proof (rule Suc.IH [OF o(1) w(2)])
      show "?w \<noteq> []" using l by simp
      show "received ?fr + length ?w = expected ?fr" using l Suc.prems(4) by simp
      show "length (frame_buffer ?fr) = expected ?fr" using store_inside(1) [OF fits] Suc.prems(5) by simp
      show "length ?w \<le> fuel" using Suc.prems(6) o(2) by (cases bs) simp_all
    qed
    moreover have e: "take (received ?fr) (frame_buffer ?fr) @ ?w = take (received fr) (frame_buffer fr) @ w"
      using w(1) fits by (simp add: store_def)
    ultimately obtain s' fuel' where r: "invar s'" "avail s' = rest" "fuel \<le> fuel' + length ?w"
      "pump take_some fuel ?fr s1 =
        (case frame_full (?fr\<lparr>frame_buffer := take (received fr) (frame_buffer fr) @ w, received := expected fr\<rparr>) of
           (fr', cs) \<Rightarrow> case frame_result cs of Some r \<Rightarrow> (Some r, fr', s') | None \<Rightarrow> pump take_some fuel' fr' s')"
      unfolding e by auto
    have "Suc fuel \<le> fuel' + length w" using r(3) o(2) l by (cases bs) simp_all
    then show ?thesis using r p by (intro exI [of _ s'] exI [of _ fuel']) simp
  qed
qed

text \<open>A whole frame within the limit is received; one over it is refused after its header.\<close>

lemma receive_frame_ok:
  assumes "invar s" "avail s = encode_frame p @ rest" "length p < 2 ^ 32" "\<not> busy fr" "4 + length p \<le> fuel"
  shows "\<exists>fr' s'. receive_frame take_some fuel h fr s =
      (Some (if length p \<le> max_payload fr then (None, p) else (Some Invalid_record, [])), fr', s') \<and>
    \<not> busy fr' \<and> max_payload fr' = max_payload fr \<and> invar s' \<and>
    avail s' = (if length p \<le> max_payload fr then rest else p @ rest)"
proof -
  let ?hd = "take 4 (encode_frame p)"
  let ?fr = "fr\<lparr>busy := True, frame_handler := Some h, received := 0, expected := frame_header_size,
    header_done := False, frame_buffer := resize frame_header_size (frame_buffer fr)\<rparr>"
  let ?full = "?fr\<lparr>frame_buffer := ?hd, received := frame_header_size\<rparr>"
  have split: "encode_frame p = ?hd @ p" using append_take_drop_id [of 4 "encode_frame p"] by simp
  have a: "avail s = ?hd @ p @ rest" using assms(2) split by (metis append.assoc)
  have hl: "length ?hd = 4" "?hd \<noteq> []" by (simp_all flip: length_greater_0_conv)
  have dl: "unat (decode_frame_length ?hd) = length p" by (rule frame_header_roundtrip [OF assms(3)])
  obtain s1 f1 where 1: "invar s1" "avail s1 = p @ rest" "fuel \<le> f1 + 4"
    "pump take_some fuel ?fr s = (case frame_full ?full of
         (fr', cs) \<Rightarrow> case frame_result cs of Some r \<Rightarrow> (Some r, fr', s1) | None \<Rightarrow> pump take_some f1 fr' s1)"
    using pump_fill [OF assms(1) a hl(2), of ?fr fuel] assms(5) hl by (auto simp: frame_header_size_def)
  have r: "receive_frame take_some fuel h fr s = pump take_some fuel ?fr s"
    using assms(4) by (simp add: receive_frame_def async_receive_frame_def read_more_def)
  let ?fr2 = "?full\<lparr>header_done := True, received := 0, expected := length p, frame_buffer := resize (length p) ?hd\<rparr>"
  consider (big) "max_payload fr < length p" | (empty) "p = []" | (fits) "length p \<le> max_payload fr" "p \<noteq> []"
    by linarith
  then show ?thesis
  proof cases
    case big
    then show ?thesis using 1 r dl
      by (auto simp: frame_full_def Let_def frame_header_size_def complete_def)
  next
    case empty
    then show ?thesis using 1 r dl
      by (auto simp: frame_full_def Let_def frame_header_size_def complete_def resize_def)
  next
    case fits
    then have "frame_full ?full = (?fr2, [Read_some (length p)])"
      using dl by (simp add: frame_full_def Let_def frame_header_size_def read_more_def)
    then have p2: "pump take_some fuel ?fr s = pump take_some f1 ?fr2 s1" using 1(4) by simp
    obtain s2 f2 where 2: "invar s2" "avail s2 = rest"
      "pump take_some f1 ?fr2 s1 = (case frame_full (?fr2\<lparr>frame_buffer := p, received := length p\<rparr>) of
         (fr', cs) \<Rightarrow> case frame_result cs of Some r \<Rightarrow> (Some r, fr', s2) | None \<Rightarrow> pump take_some f2 fr' s2)"
      using pump_fill [OF 1(1,2) fits(2), of ?fr2 f1] 1(3) assms(5) by auto
    show ?thesis using 2 r p2 fits(1) by (auto simp: frame_full_def complete_def)
  qed
qed

end

section \<open>The TLS stream as the source\<close>

text \<open>What a read returns at once when decrypted data waits: the handler is called with it.\<close>

definition tls_take :: "nat \<Rightarrow> tls_stream \<Rightarrow> octets \<times> tls_stream" where
  "tls_take n st =
     (let st' = do_read_some n 0 st
      in (concat (map delivered (drop (length (calls st)) (calls st'))), st'))"

definition tls_avail :: "tls_stream \<Rightarrow> octets" where
  "tls_avail st = drop (plain_pos st) (plain_in st)"

definition tls_readable :: "tls_stream \<Rightarrow> bool" where
  "tls_readable st \<longleftrightarrow> tls_ok False st \<and> pending_read st = None \<and> \<not> closed st \<and> \<not> closing st"

lemma start_read_fields [simp]:
  "plain_in (start_read st) = plain_in st" "plain_pos (start_read st) = plain_pos st"
  "pending_read (start_read st) = pending_read st" "closed (start_read st) = closed st"
  "closing (start_read st) = closing st"
  "calls (start_read st) = calls st @ (if reading (start_read st) \<and> \<not> reading st then [Socket_read] else [])"
  by (auto simp: start_read_def Let_def)

lemma tls_take_ok:
  assumes "tls_readable st" "0 < n" "tls_avail st \<noteq> []" "tls_take n st = (bs, st')"
  shows "bs = take n (tls_avail st) \<and> tls_readable st' \<and> tls_avail st' = drop n (tls_avail st)"
proof -
  have st: "tls_ok False st" "pending_read st = None" "\<not> closed st" "\<not> closing st"
    using assms(1) by (auto simp: tls_readable_def)
  have len: "0 < length (plain_in st) - plain_pos st" using assms(3) by (auto simp: tls_avail_def)
  let ?d = "deliver_read (st\<lparr>pending_read := Some (0, n)\<rparr>)"
  let ?k = "min (length (plain_in st) - plain_pos st) n"
  have st': "st' = start_read ?d" using assms(4) st by (auto simp: tls_take_def do_read_some_def Let_def)
  have d: "pending_read ?d = None" "closed ?d = closed st" "closing ?d = closing st"
    "calls ?d = calls st @ [Read_done 0 None (take ?k (drop (plain_pos st) (plain_in st)))]"
    using len by (auto simp: deliver_read_def Let_def compact_plain_in_def)
  have "plaintext ?d = plaintext st" by simp
  then have av: "take ?k (tls_avail st) @ tls_avail ?d = tls_avail st"
    using d(4) by (simp add: plaintext_def tls_avail_def)
  have k: "take ?k (tls_avail st) = take n (tls_avail st)" by (simp add: tls_avail_def min_def)
  have "bs = concat (map delivered (drop (length (calls st)) (calls st')))"
    using assms(4) by (auto simp: tls_take_def Let_def)
  also have "\<dots> = take n (tls_avail st)" using k by (simp add: st' d(4) tls_avail_def)
  finally have "bs = take n (tls_avail st)" .
  moreover have "tls_avail st' = drop n (tls_avail st)"
  proof -
    have "tls_avail st' = tls_avail ?d" by (simp add: st' tls_avail_def)
    then show ?thesis using av unfolding k by (metis append_take_drop_id same_append_eq)
  qed
  moreover have "tls_ok False st'" using do_read_some_ok(1) [OF st(1), of n 0] assms(4) by (auto simp: tls_take_def Let_def)
  ultimately show ?thesis using d st by (simp add: tls_readable_def st')
qed

interpretation tls: chunk_source tls_take tls_avail tls_readable
proof
  fix s s' :: tls_stream and n bs
  assume a: "tls_readable s" "0 < n" "tls_avail s \<noteq> []" "tls_take n s = (bs, s')"
  from tls_take_ok [OF this] a(2,3)
  show "tls_readable s' \<and> bs \<noteq> [] \<and> length bs \<le> n \<and> tls_avail s = bs @ tls_avail s'" by simp
qed

text \<open>C14: Frames keep message boundaries: when a frame waits in the TLS stream, receiving it yields
  exactly its payload and leaves exactly what follows, for every payload up to the reader's limit;
  for a larger one it yields the error \<^verbatim>\<open>invalid_record\<close> after reading only the header. One read
  per octet at most is needed.\<close>

theorem frame_roundtrip:
  assumes "tls_readable st" "tls_avail st = encode_frame p @ rest" "length p < 2 ^ 32" "\<not> busy fr"
  shows "\<exists>fr' st'. receive_frame tls_take (4 + length p) h fr st =
      (Some (if length p \<le> max_payload fr then (None, p) else (Some Invalid_record, [])), fr', st') \<and>
    \<not> busy fr' \<and> max_payload fr' = max_payload fr \<and>
    tls_avail st' = (if length p \<le> max_payload fr then rest else p @ rest)"
  using tls.receive_frame_ok [OF assms, of "4 + length p" h] by fastforce

theorem frame_roundtrip_witness:
  "\<exists>fr' st'. receive_frame tls_take 6 7 make_frame_reader (make_tls_stream\<lparr>plain_in := [0, 0, 0, 2, 8, 9, 1]\<rparr>) =
      (Some (None, [8, 9]), fr', st') \<and> tls_avail st' = [1]"
proof -
  have "encode_frame [8, 9] = [0, 0, 0, 2, 8, 9]" by (simp add: encode_frame_def)
  then show ?thesis
    using frame_roundtrip [of "make_tls_stream\<lparr>plain_in := [0, 0, 0, 2, 8, 9, 1]\<rparr>" "[8, 9]" "[1]" make_frame_reader 7]
    by (auto simp: tls_readable_def tls_ok_def make_tls_stream_def tls_avail_def make_frame_reader_def max_frame_size_def)
qed


end
