(* ===== verification/Connection.thy ===== *)
theory Connection
  imports Handshake Framing "HOL-Library.Sublist"
begin

text \<open>
  One encrypted connection, \<^verbatim>\<open>network/encryption/detail/encrypted_connection_impl.cpp\<close>: connecting or
  accepting, the TLS handshake, the framed authentication handshake, framed messages, the timeout and the
  three ways to close. Every handler is a function on the connection's state. An asynchronous
  operation that was started stays in \<^verbatim>\<open>cn_ops\<close> until its completion is an event, with any
  result, so that a cancelled operation may still complete with the result it already had; a read of the
  TLS stream has no such result left once the stream is closed. The log
  holds, in order, the messages queued, the frames handed to the TLS stream and the callbacks. What
  the owner does in a callback is a parameter.
\<close>

section \<open>State\<close>

datatype connection_state = Not_connected | Connecting | Connected

datatype disconnect_error = Not_an_error | Handshake_failed | Timed_out | Operation_aborted | Connection_closed | Other_error int

datatype effect =
    Queued octets | Handshake_frame octets | Data_frame octets | Tls_closed | Session_removed
  | On_connected | On_received octets | On_sent nat | On_disconnected disconnect_error

datatype op =
    Op_resolve | Op_connect | Op_start_server | Op_tls_handshake | Op_handshake_frame
  | Op_timer | Op_handshake_sent | Op_data_frame | Op_sent nat | Op_send_check | Op_do_send
  | Op_close | Op_close_later disconnect_error | Op_remove

record connection =
  cn_context :: net_context
  cn_server :: bool
  cn_client :: bool
  cn_data :: handshake_data
  cn_role :: endpoint_role
  cn_tls :: bool
  cn_limit :: "nat option"
  cn_handshake :: "handshake option"
  cn_remote_key :: "public_key option"
  cn_out_queue :: "octets list"
  cn_state :: connection_state
  cn_is_connected :: bool
  cn_is_closed :: bool
  cn_writing :: bool
  cn_disconnected :: bool
  cn_ops :: "op list"
  cn_log :: "effect list"

definition make_connection :: "net_context \<Rightarrow> bool \<Rightarrow> handshake_data \<Rightarrow> connection" where
  "make_connection ctx server info =
     \<lparr>cn_context = ctx, cn_server = server, cn_client = True, cn_data = info, cn_role = Client, cn_tls = False, cn_limit = None,
      cn_handshake = None, cn_remote_key = None, cn_out_queue = [], cn_state = Not_connected, cn_is_connected = False,
      cn_is_closed = False, cn_writing = False, cn_disconnected = False, cn_ops = [], cn_log = []\<rparr>"

definition start_op :: "op \<Rightarrow> connection \<Rightarrow> connection" where
  "start_op p cn = cn\<lparr>cn_ops := p # cn_ops cn\<rparr>"

definition emit :: "effect \<Rightarrow> connection \<Rightarrow> connection" where
  "emit f cn = cn\<lparr>cn_log := cn_log cn @ [f]\<rparr>"

section \<open>Sending\<close>

text \<open>\<^verbatim>\<open>send\<close> appends under the lock and looks at \<^verbatim>\<open>is_connected_\<close> after it was released: two steps.\<close>

definition send_push :: "octets \<Rightarrow> connection \<Rightarrow> connection" where
  "send_push d cn = emit (Queued d) (cn\<lparr>cn_out_queue := cn_out_queue cn @ [d]\<rparr>)"

definition send_check :: "connection \<Rightarrow> connection" where
  "send_check cn = (if cn_is_connected cn then start_op Op_do_send cn else cn)"

definition do_send :: "connection \<Rightarrow> connection" where
  "do_send cn =
     (case cn_out_queue cn of
        [] \<Rightarrow> cn
      | payload # rest \<Rightarrow>
          if cn_writing cn \<or> \<not> cn_is_connected cn then cn
          else start_op (Op_sent (length payload)) (emit (Data_frame payload) (cn\<lparr>cn_writing := True, cn_out_queue := rest\<rparr>)))"

section \<open>Closing and callbacks\<close>

text \<open>The owner's calls from inside a callback, as a function of what happened so far.\<close>

datatype owner_call = Call_send octets | Call_close | Call_close_later disconnect_error

type_synonym client = "effect list \<Rightarrow> owner_call list"

definition release_transport :: "connection \<Rightarrow> connection" where
  "release_transport cn =
     (let cn = cn\<lparr>cn_disconnected := True, cn_is_connected := False\<rparr>
      in if cn_tls cn then emit Tls_closed cn else cn)"

definition mark_closed :: "connection \<Rightarrow> connection" where
  "mark_closed cn = cn\<lparr>cn_is_closed := True, cn_state := Not_connected\<rparr>"

text \<open>\<^verbatim>\<open>do_close\<close> forgets the owner first, so that its \<^verbatim>\<open>handle_disconnect\<close> calls nobody back.\<close>

definition do_close :: "connection \<Rightarrow> connection" where
  "do_close cn =
     (let cn = (if cn_server cn \<and> cn_client cn then start_op Op_remove (cn\<lparr>cn_server := False\<rparr>) else cn);
          cn = cn\<lparr>cn_client := False\<rparr>
      in if cn_disconnected cn then cn else mark_closed (release_transport cn))"

definition close_on_strand :: "connection \<Rightarrow> connection" where
  "close_on_strand cn = (if cn_is_closed cn then cn else do_close (cn\<lparr>cn_is_closed := True\<rparr>))"

primrec client_call :: "owner_call \<Rightarrow> connection \<Rightarrow> connection" where
  "client_call (Call_send d) cn = send_check (send_push d cn)"
| "client_call Call_close cn = close_on_strand cn"
| "client_call (Call_close_later err) cn = start_op (Op_close_later err) cn"

definition callback :: "client \<Rightarrow> effect \<Rightarrow> connection \<Rightarrow> connection" where
  "callback react f cn = (let cn = emit f cn in fold client_call (react (cn_log cn)) cn)"

definition notify :: "client \<Rightarrow> effect \<Rightarrow> connection \<Rightarrow> connection" where
  "notify react f cn = (if cn_client cn then callback react f cn else cn)"

definition disconnect_with :: "client \<Rightarrow> disconnect_error \<Rightarrow> connection \<Rightarrow> connection" where
  "disconnect_with react err cn =
     (if cn_disconnected cn then cn
      else
        let cn = release_transport cn;
            cn = (if cn_client cn
                  then (let cn = callback react (On_disconnected err) (cn\<lparr>cn_client := False\<rparr>)
                        in if cn_server cn then emit Session_removed (cn\<lparr>cn_server := False\<rparr>) else cn)
                  else cn)
        in mark_closed cn)"

definition on_close_later :: "client \<Rightarrow> disconnect_error \<Rightarrow> connection \<Rightarrow> connection" where
  "on_close_later react err cn = (if cn_is_closed cn then cn else disconnect_with react err (cn\<lparr>cn_is_closed := True\<rparr>))"

definition close_from_elsewhere :: "connection \<Rightarrow> connection" where
  "close_from_elsewhere cn = (if cn_is_closed cn then cn else start_op Op_close (cn\<lparr>cn_is_closed := True\<rparr>))"

definition on_timeout :: "client \<Rightarrow> disconnect_error option \<Rightarrow> connection \<Rightarrow> connection" where
  "on_timeout react ec cn = (if ec = None \<and> cn_state cn \<noteq> Connected then disconnect_with react Timed_out cn else cn)"

section \<open>Connecting and the handshakes\<close>

definition start_tls :: "endpoint_role \<Rightarrow> connection \<Rightarrow> connection" where
  "start_tls role cn = start_op Op_tls_handshake (cn\<lparr>cn_role := role, cn_tls := True\<rparr>)"

definition connect :: "octets \<Rightarrow> connection \<Rightarrow> util_errc + connection" where
  "connect address cn =
     (if cn_state cn \<noteq> Not_connected then Inl Invalid_state
      else Inr (start_op Op_timer (start_op Op_resolve
             (cn\<lparr>cn_state := Connecting, cn_data := (cn_data cn)\<lparr>hd_address := address\<rparr>\<rparr>))))"

text \<open>A completion with neither error nor owner still goes to the disconnect, which then has nothing to do.\<close>

definition on_resolve :: "client \<Rightarrow> disconnect_error option \<Rightarrow> connection \<Rightarrow> connection" where
  "on_resolve react ec cn =
     (if ec = None \<and> cn_client cn then start_op Op_connect cn
      else if ec \<noteq> Some Operation_aborted then disconnect_with react (case ec of None \<Rightarrow> Not_an_error | Some x \<Rightarrow> x) cn
      else cn)"

definition on_connect :: "client \<Rightarrow> disconnect_error option \<Rightarrow> connection \<Rightarrow> connection" where
  "on_connect react ec cn =
     (if ec = None \<and> cn_client cn then start_tls Client cn
      else if ec \<noteq> Some Operation_aborted then disconnect_with react (case ec of None \<Rightarrow> Not_an_error | Some x \<Rightarrow> x) cn
      else cn)"

definition start_server_handshake :: "connection \<Rightarrow> connection" where
  "start_server_handshake cn = start_op Op_start_server (start_op Op_timer (cn\<lparr>cn_state := Connecting\<rparr>))"

definition on_start_server :: "connection \<Rightarrow> connection" where
  "on_start_server cn = (if cn_client cn then start_tls Server cn else cn)"

definition start_sp_handshake :: "connection \<Rightarrow> connection" where
  "start_sp_handshake cn = start_op Op_handshake_frame cn"

definition handshake_remote_public_key :: "handshake \<Rightarrow> public_key option" where
  "handshake_remote_public_key hs = (case hs_concrete hs of None \<Rightarrow> None | Some h \<Rightarrow> remote_public_key h)"

definition receive_data :: "connection \<Rightarrow> connection" where
  "receive_data cn = (if \<not> cn_is_connected cn \<or> \<not> cn_client cn then cn else start_op Op_data_frame cn)"

definition become_connected :: "client \<Rightarrow> connection \<Rightarrow> connection" where
  "become_connected react cn =
     (let cn = cn\<lparr>cn_remote_key := Option.bind (cn_handshake cn) handshake_remote_public_key, cn_state := Connected,
                 cn_is_connected := True, cn_limit := Some max_frame_size\<rparr>
      in do_send (receive_data (notify react On_connected cn)))"

definition advance_handshake :: "client \<Rightarrow> handshake_result \<Rightarrow> connection \<Rightarrow> connection" where
  "advance_handshake react res cn =
     (let (st, packet) = res
      in if st = Failed then disconnect_with react Handshake_failed cn
         else
           let cn = (if packet \<noteq> [] then start_op Op_handshake_sent (emit (Handshake_frame packet) cn) else cn)
           in if st = Succeeded then become_connected react cn else start_sp_handshake cn)"

text \<open>An exception out of \<^verbatim>\<open>handshake::start\<close> leaves the handler: nothing more is started.\<close>

definition on_tls_handshake :: "client \<Rightarrow> octets \<Rightarrow> disconnect_error option \<Rightarrow> connection \<Rightarrow> connection" where
  "on_tls_handshake react rid ec cn =
     (case ec of
        Some err \<Rightarrow> disconnect_with react err cn
      | None \<Rightarrow>
          let cn = cn\<lparr>cn_limit := Some max_handshake_frame_size, cn_handshake := Some (make_handshake (cn_role cn))\<rparr>
          in if cn_role cn = Client
             then (case handshake_start rid (cn_context cn) (cn_data cn) (make_handshake (cn_role cn)) of
                     Inl _ \<Rightarrow> cn
                   | Inr (res, hs) \<Rightarrow> advance_handshake react res (cn\<lparr>cn_handshake := Some hs\<rparr>))
             else start_sp_handshake cn)"

definition on_handshake_frame ::
    "net_env \<Rightarrow> exporter_function \<Rightarrow> client \<Rightarrow> octets \<Rightarrow> octets \<Rightarrow> disconnect_error + octets \<Rightarrow> connection \<Rightarrow> connection" where
  "on_handshake_frame e xp react rid r res cn =
     (case res of
        Inl err \<Rightarrow> disconnect_with react err cn
      | Inr frame \<Rightarrow>
          (case cn_handshake cn of
             None \<Rightarrow> cn
           | Some hs \<Rightarrow>
               let (res, hs) = handle_packet e xp rid r (cn_context cn) frame hs
               in advance_handshake react res (cn\<lparr>cn_handshake := Some hs\<rparr>)))"

section \<open>Data transfer\<close>

definition on_handshake_sent :: "client \<Rightarrow> disconnect_error option \<Rightarrow> connection \<Rightarrow> connection" where
  "on_handshake_sent react ec cn = (case ec of Some err \<Rightarrow> disconnect_with react err cn | None \<Rightarrow> cn)"

definition on_data_frame :: "client \<Rightarrow> disconnect_error + octets \<Rightarrow> connection \<Rightarrow> connection" where
  "on_data_frame react res cn =
     (case res of
        Inl err \<Rightarrow> disconnect_with react err cn
      | Inr frame \<Rightarrow> receive_data (notify react (On_received frame) cn))"

definition on_sent :: "client \<Rightarrow> nat \<Rightarrow> disconnect_error option \<Rightarrow> connection \<Rightarrow> connection" where
  "on_sent react n ec cn =
     (let cn = cn\<lparr>cn_writing := False\<rparr>
      in case ec of
           Some err \<Rightarrow> disconnect_with react err cn
         | None \<Rightarrow> do_send (notify react (On_sent n) cn))"

section \<open>Events\<close>

text \<open>Frames are delivered inside the TLS stream's handler, and closing the stream fails the read that waits and every later
  one; so a read completes with a frame only while the connection has not been taken down.\<close>

definition read_result :: "connection \<Rightarrow> disconnect_error + octets \<Rightarrow> disconnect_error + octets" where
  "read_result cn res = (if cn_disconnected cn then Inl (case res of Inl err \<Rightarrow> err | Inr _ \<Rightarrow> Connection_closed) else res)"

definition complete_op ::
    "net_env \<Rightarrow> exporter_function \<Rightarrow> client \<Rightarrow> octets \<Rightarrow> octets \<Rightarrow> op \<Rightarrow> disconnect_error + octets \<Rightarrow> connection \<Rightarrow> connection" where
  "complete_op e xp react rid r p res cn =
     (let ec = (case res of Inl err \<Rightarrow> Some err | Inr _ \<Rightarrow> None)
      in case p of
           Op_resolve \<Rightarrow> on_resolve react ec cn
         | Op_connect \<Rightarrow> on_connect react ec cn
         | Op_start_server \<Rightarrow> on_start_server cn
         | Op_tls_handshake \<Rightarrow> on_tls_handshake react rid ec cn
         | Op_handshake_frame \<Rightarrow> on_handshake_frame e xp react rid r (read_result cn res) cn
         | Op_timer \<Rightarrow> on_timeout react ec cn
         | Op_handshake_sent \<Rightarrow> on_handshake_sent react ec cn
         | Op_data_frame \<Rightarrow> on_data_frame react (read_result cn res) cn
         | Op_sent n \<Rightarrow> on_sent react n ec cn
         | Op_send_check \<Rightarrow> send_check cn
         | Op_do_send \<Rightarrow> do_send cn
         | Op_close \<Rightarrow> do_close cn
         | Op_close_later err \<Rightarrow> on_close_later react err cn
         | Op_remove \<Rightarrow> emit Session_removed cn)"

text \<open>
  The owner's calls from outside a callback and the completions. \<^verbatim>\<open>encrypted_connection::connect\<close> makes
  a new implementation object when this one is closed; \<^verbatim>\<open>encrypted_server\<close> starts the server side of
  a connection that was not started yet.
\<close>

inductive conn_step :: "net_env \<Rightarrow> exporter_function \<Rightarrow> client \<Rightarrow> connection \<Rightarrow> connection \<Rightarrow> bool"
  for e :: net_env and xp :: exporter_function and react :: client where
  step_connect: "\<not> cn_is_closed cn \<Longrightarrow> connect address cn = Inr cn' \<Longrightarrow> conn_step e xp react cn cn'"
| step_serve: "cn_state cn = Not_connected \<Longrightarrow> conn_step e xp react cn (start_server_handshake cn)"
| step_send: "conn_step e xp react cn (start_op Op_send_check (send_push d cn))"
| step_close: "conn_step e xp react cn (close_from_elsewhere cn)"
| step_close_on_strand: "conn_step e xp react cn (close_on_strand cn)"
| step_close_later: "conn_step e xp react cn (start_op (Op_close_later err) cn)"
| step_complete: "p \<in> set (cn_ops cn) \<Longrightarrow>
    conn_step e xp react cn (complete_op e xp react rid r p res (cn\<lparr>cn_ops := remove1 p (cn_ops cn)\<rparr>))"

inductive conn_reach :: "net_env \<Rightarrow> exporter_function \<Rightarrow> client \<Rightarrow> connection \<Rightarrow> connection \<Rightarrow> bool"
  for e :: net_env and xp :: exporter_function and react :: client and start :: connection where
  reach_start: "conn_reach e xp react start start"
| reach_step: "conn_reach e xp react start cn \<Longrightarrow> conn_step e xp react cn cn' \<Longrightarrow> conn_reach e xp react start cn'"

lemma conn_reach_invariant:
  assumes "conn_reach e xp react start cn" "P start" "\<And>cn cn'. P cn \<Longrightarrow> conn_step e xp react cn cn' \<Longrightarrow> P cn'"
  shows "P cn"
  using assms by (induction rule: conn_reach.induct) blast+

text \<open>\<^verbatim>\<open>do_close\<close> written out is the code's \<^verbatim>\<open>handle_disconnect\<close> without an owner.\<close>

lemma do_close_disconnects:
  "do_close cn = disconnect_with react Not_an_error
     ((if cn_server cn \<and> cn_client cn then start_op Op_remove (cn\<lparr>cn_server := False\<rparr>) else cn)\<lparr>cn_client := False\<rparr>)"
  by (simp add: do_close_def disconnect_with_def release_transport_def emit_def Let_def)

section \<open>Messages leave in order\<close>

definition queued :: "effect list \<Rightarrow> octets list" where
  "queued = List.map_filter (\<lambda>f. case f of Queued d \<Rightarrow> Some d | _ \<Rightarrow> None)"

definition data_frames :: "effect list \<Rightarrow> octets list" where
  "data_frames = List.map_filter (\<lambda>f. case f of Data_frame d \<Rightarrow> Some d | _ \<Rightarrow> None)"

definition sent_sizes :: "effect list \<Rightarrow> nat list" where
  "sent_sizes = List.map_filter (\<lambda>f. case f of On_sent n \<Rightarrow> Some n | _ \<Rightarrow> None)"

definition sent_ops :: "op list \<Rightarrow> nat list" where
  "sent_ops = List.map_filter (\<lambda>p. case p of Op_sent n \<Rightarrow> Some n | _ \<Rightarrow> None)"

lemma emit_fields [simp]:
  "cn_client (emit f cn) = cn_client cn" "cn_server (emit f cn) = cn_server cn" "cn_is_connected (emit f cn) = cn_is_connected cn"
  "cn_state (emit f cn) = cn_state cn" "cn_disconnected (emit f cn) = cn_disconnected cn" "cn_is_closed (emit f cn) = cn_is_closed cn"
  "cn_writing (emit f cn) = cn_writing cn" "cn_role (emit f cn) = cn_role cn" "cn_context (emit f cn) = cn_context cn"
  "cn_data (emit f cn) = cn_data cn" "cn_handshake (emit f cn) = cn_handshake cn" "cn_remote_key (emit f cn) = cn_remote_key cn"
  "cn_out_queue (emit f cn) = cn_out_queue cn" "cn_ops (emit f cn) = cn_ops cn"
  "cn_log (emit f cn) = cn_log cn @ [f]"
  by (simp_all add: emit_def)

lemma start_op_fields [simp]:
  "cn_client (start_op p cn) = cn_client cn" "cn_server (start_op p cn) = cn_server cn" "cn_is_connected (start_op p cn) = cn_is_connected cn"
  "cn_state (start_op p cn) = cn_state cn" "cn_disconnected (start_op p cn) = cn_disconnected cn" "cn_is_closed (start_op p cn) = cn_is_closed cn"
  "cn_writing (start_op p cn) = cn_writing cn" "cn_role (start_op p cn) = cn_role cn" "cn_context (start_op p cn) = cn_context cn"
  "cn_data (start_op p cn) = cn_data cn" "cn_handshake (start_op p cn) = cn_handshake cn" "cn_remote_key (start_op p cn) = cn_remote_key cn"
  "cn_out_queue (start_op p cn) = cn_out_queue cn" "cn_log (start_op p cn) = cn_log cn"
  "cn_ops (start_op p cn) = p # cn_ops cn"
  by (simp_all add: start_op_def)

lemma map_filter_snoc: "List.map_filter f (xs @ [x]) = List.map_filter f xs @ (case f x of None \<Rightarrow> [] | Some y \<Rightarrow> [y])"
  by (simp add: List.map_filter_def split: option.splits)

lemma effect_lists_snoc [simp]:
  "queued (fs @ [f]) = queued fs @ (case f of Queued d \<Rightarrow> [d] | _ \<Rightarrow> [])"
  "data_frames (fs @ [f]) = data_frames fs @ (case f of Data_frame d \<Rightarrow> [d] | _ \<Rightarrow> [])"
  "sent_sizes (fs @ [f]) = sent_sizes fs @ (case f of On_sent n \<Rightarrow> [n] | _ \<Rightarrow> [])"
  by (simp_all add: queued_def data_frames_def sent_sizes_def map_filter_snoc split: effect.splits)

lemma effect_lists_Nil [simp]: "queued [] = []" "data_frames [] = []" "sent_sizes [] = []" "sent_ops [] = []"
  by (simp_all add: queued_def data_frames_def sent_sizes_def sent_ops_def List.map_filter_def)

lemma sent_ops_Cons [simp]: "sent_ops (p # ps) = (case p of Op_sent n \<Rightarrow> [n] | _ \<Rightarrow> []) @ sent_ops ps"
  by (simp add: sent_ops_def List.map_filter_def split: op.splits)

lemma sent_ops_remove1 [simp]: "(\<And>n. p \<noteq> Op_sent n) \<Longrightarrow> sent_ops (remove1 p ps) = sent_ops ps"
  by (induction ps) (auto split: op.splits)

lemma sent_ops_member: "Op_sent n \<in> set ps \<Longrightarrow> n \<in> set (sent_ops ps)"
  by (induction ps) (auto split: op.splits)

lemma sent_ops_remove1_sent: "Op_sent n \<in> set ps \<Longrightarrow> sent_ops ps = [m] \<Longrightarrow> n = m \<and> sent_ops (remove1 (Op_sent n) ps) = []"
  by (induction ps) (use sent_ops_member in \<open>auto split: op.splits if_splits dest: sent_ops_member\<close>)

text \<open>The queue holds what was queued and not yet framed; at most one write is outstanding.\<close>

definition sender_ok :: "connection \<Rightarrow> bool" where
  "sender_ok cn \<longleftrightarrow>
     queued (cn_log cn) = data_frames (cn_log cn) @ cn_out_queue cn \<and>
     (if cn_writing cn then data_frames (cn_log cn) \<noteq> [] \<and> sent_ops (cn_ops cn) = [length (last (data_frames (cn_log cn)))]
      else sent_ops (cn_ops cn) = []) \<and>
     (if cn_client cn then map length (data_frames (cn_log cn)) = sent_sizes (cn_log cn) @ sent_ops (cn_ops cn)
      else prefix (sent_sizes (cn_log cn)) (map length (data_frames (cn_log cn))))"

definition harmless_effect :: "effect \<Rightarrow> bool" where
  "harmless_effect f = (case f of Queued _ \<Rightarrow> False | Data_frame _ \<Rightarrow> False | On_sent _ \<Rightarrow> False | _ \<Rightarrow> True)"

lemma sender_ok_fields [simp]:
  "sender_ok (cn\<lparr>cn_state := s\<rparr>) = sender_ok cn" "sender_ok (cn\<lparr>cn_is_closed := b\<rparr>) = sender_ok cn"
  "sender_ok (cn\<lparr>cn_is_connected := b\<rparr>) = sender_ok cn" "sender_ok (cn\<lparr>cn_disconnected := b\<rparr>) = sender_ok cn"
  "sender_ok (cn\<lparr>cn_server := b\<rparr>) = sender_ok cn" "sender_ok (cn\<lparr>cn_tls := b\<rparr>) = sender_ok cn"
  "sender_ok (cn\<lparr>cn_role := x\<rparr>) = sender_ok cn" "sender_ok (cn\<lparr>cn_limit := l\<rparr>) = sender_ok cn"
  "sender_ok (cn\<lparr>cn_handshake := h\<rparr>) = sender_ok cn" "sender_ok (cn\<lparr>cn_data := d\<rparr>) = sender_ok cn"
  "sender_ok (cn\<lparr>cn_remote_key := k\<rparr>) = sender_ok cn"
  by (simp_all add: sender_ok_def)

lemma sender_ok_emit [simp]: "harmless_effect f \<Longrightarrow> sender_ok (emit f cn) = sender_ok cn"
  by (simp add: sender_ok_def emit_def harmless_effect_def split: effect.splits)

lemma harmless_effects [simp]: "harmless_effect Tls_closed" "harmless_effect Session_removed" "harmless_effect (Handshake_frame p)"
  "harmless_effect On_connected" "harmless_effect (On_received d)" "harmless_effect (On_disconnected x)"
  by (simp_all add: harmless_effect_def)

lemma sender_ok_start_op [simp]: "(\<And>n. p \<noteq> Op_sent n) \<Longrightarrow> sender_ok (start_op p cn) = sender_ok cn"
  by (simp add: sender_ok_def start_op_def split: op.splits)

lemma sender_ok_remove_op: "sender_ok cn \<Longrightarrow> (\<And>n. p \<noteq> Op_sent n) \<Longrightarrow> sender_ok (cn\<lparr>cn_ops := remove1 p (cn_ops cn)\<rparr>)"
  by (simp add: sender_ok_def)

lemma release_transport_fields [simp]:
  "cn_client (release_transport cn) = cn_client cn" "cn_server (release_transport cn) = cn_server cn"
  "cn_ops (release_transport cn) = cn_ops cn" "cn_out_queue (release_transport cn) = cn_out_queue cn"
  "cn_disconnected (release_transport cn)" "\<not> cn_is_connected (release_transport cn)"
  "cn_state (release_transport cn) = cn_state cn" "cn_is_closed (release_transport cn) = cn_is_closed cn"
  "cn_writing (release_transport cn) = cn_writing cn" "cn_remote_key (release_transport cn) = cn_remote_key cn"
  "cn_handshake (release_transport cn) = cn_handshake cn" "cn_role (release_transport cn) = cn_role cn"
  "cn_context (release_transport cn) = cn_context cn" "cn_data (release_transport cn) = cn_data cn"
  by (simp_all add: release_transport_def emit_def Let_def)

lemma sender_ok_release [simp]: "sender_ok (release_transport cn) = sender_ok cn"
  by (simp add: release_transport_def Let_def)

lemma sender_ok_forget: "sender_ok cn \<Longrightarrow> sender_ok (cn\<lparr>cn_client := False\<rparr>)"
  by (simp add: sender_ok_def split: if_splits)

lemma sender_ok_push: "sender_ok cn \<Longrightarrow> sender_ok (send_push d cn)"
  by (simp add: sender_ok_def send_push_def emit_def split: if_splits)

lemma sender_ok_check [simp]: "sender_ok (send_check cn) = sender_ok cn"
  by (simp add: send_check_def)

lemma sender_ok_do_send: "sender_ok cn \<Longrightarrow> sender_ok (do_send cn)"
  by (auto simp: sender_ok_def do_send_def emit_def start_op_def split: list.splits if_splits)

lemma sender_ok_do_close: "sender_ok cn \<Longrightarrow> sender_ok (do_close cn)"
  by (simp add: do_close_def mark_closed_def release_transport_def sender_ok_forget Let_def)

lemma sender_ok_client_call: "sender_ok cn \<Longrightarrow> sender_ok (client_call c cn)"
  by (cases c) (simp_all add: sender_ok_push close_on_strand_def sender_ok_do_close)

text \<open>What the owner's calls keep holds after a callback.\<close>

lemma fold_client_call:
  assumes "P cn" "\<And>c cn. P cn \<Longrightarrow> P (client_call c cn)"
  shows "P (fold client_call cs cn)"
  using assms by (induction cs arbitrary: cn) auto

lemma callback_keeps:
  assumes "P (emit f cn)" "\<And>c cn. P cn \<Longrightarrow> P (client_call c cn)"
  shows "P (callback react f cn)"
  using assms by (simp add: callback_def Let_def fold_client_call)

lemma sender_ok_callback: "sender_ok cn \<Longrightarrow> harmless_effect f \<Longrightarrow> sender_ok (callback react f cn)"
  by (rule callback_keeps) (simp_all add: sender_ok_client_call)

lemma sender_ok_disconnect: "sender_ok cn \<Longrightarrow> sender_ok (disconnect_with react err cn)"
  by (simp add: disconnect_with_def mark_closed_def release_transport_def sender_ok_callback sender_ok_forget Let_def)

lemma sender_ok_disconnect_forget:
  assumes "sender_ok (cn\<lparr>cn_client := False\<rparr>)" "cn_client cn \<Longrightarrow> \<not> cn_disconnected cn"
  shows "sender_ok (disconnect_with react err cn)"
proof -
  have "sender_ok (release_transport cn \<lparr>cn_client := False\<rparr>)"
    using assms(1) by (auto simp: release_transport_def Let_def emit_def sender_ok_def split: if_splits)
  moreover have "sender_ok cn" if "\<not> cn_client cn" using assms(1) that by (simp add: sender_ok_def split: if_splits)
  ultimately show ?thesis using assms sender_ok_callback [of "release_transport cn \<lparr>cn_client := False\<rparr>" "On_disconnected err" react]
    by (cases "cn_client cn") (simp_all add: disconnect_with_def mark_closed_def Let_def)
qed

lemma sender_ok_notify: "sender_ok cn \<Longrightarrow> harmless_effect f \<Longrightarrow> sender_ok (notify react f cn)"
  by (simp add: notify_def sender_ok_callback)

lemma sender_ok_receive [simp]: "sender_ok (receive_data cn) = sender_ok cn"
  by (simp add: receive_data_def)

lemma sender_ok_advance: "sender_ok cn \<Longrightarrow> sender_ok (advance_handshake react res cn)"
  by (cases res) (simp add: advance_handshake_def become_connected_def start_sp_handshake_def sender_ok_disconnect sender_ok_do_send
      sender_ok_notify Let_def)

lemma sender_ok_on_sent:
  assumes "sender_ok cn" "Op_sent n \<in> set (cn_ops cn)" "cn_client cn \<Longrightarrow> \<not> cn_disconnected cn"
  shows "sender_ok (on_sent react n ec (cn\<lparr>cn_ops := remove1 (Op_sent n) (cn_ops cn)\<rparr>))"
proof -
  let ?cn = "cn\<lparr>cn_ops := remove1 (Op_sent n) (cn_ops cn), cn_writing := False\<rparr>"
  have ops: "cn_writing cn" "sent_ops (cn_ops cn) = [n]" "sent_ops (cn_ops ?cn) = []"
    using assms sent_ops_member [OF assms(2)] sent_ops_remove1_sent [OF assms(2)] by (auto simp: sender_ok_def split: if_splits)
  show ?thesis
  proof (cases ec)
    case None
    have "sender_ok (emit (On_sent n) ?cn)" if "cn_client cn" using assms(1) ops that by (simp add: sender_ok_def emit_def)
    moreover have "sender_ok ?cn" if "\<not> cn_client cn" using assms(1) ops that by (simp add: sender_ok_def)
    ultimately have "sender_ok (notify react (On_sent n) ?cn)"
      by (auto simp: notify_def intro!: callback_keeps [where P = sender_ok] sender_ok_client_call)
    then show ?thesis by (simp add: on_sent_def None sender_ok_do_send)
  next
    case (Some err)
    have f: "sender_ok (?cn\<lparr>cn_client := False\<rparr>)" using assms(1) ops by (auto simp: sender_ok_def split: if_splits)
    then have "sender_ok (disconnect_with react err ?cn)" using assms(3) by (intro sender_ok_disconnect_forget) simp_all
    then show ?thesis by (simp add: on_sent_def Some)
  qed
qed

section \<open>The order of the callbacks\<close>

datatype phase = Idle | Open | Over

text \<open>The promise to the owner as an automaton: connected at most once, messages only in between, then one farewell.\<close>

definition next_phase :: "phase option \<Rightarrow> effect \<Rightarrow> phase option" where
  "next_phase ph f = (case f of
       On_connected \<Rightarrow> (if ph = Some Idle then Some Open else None)
     | On_received _ \<Rightarrow> (if ph = Some Open then Some Open else None)
     | On_sent _ \<Rightarrow> (if ph = Some Open then Some Open else None)
     | On_disconnected _ \<Rightarrow> (if ph = Some Idle \<or> ph = Some Open then Some Over else None)
     | _ \<Rightarrow> ph)"

definition phase_of :: "effect list \<Rightarrow> phase option" where
  "phase_of = foldl next_phase (Some Idle)"

lemma phase_of_simps [simp]: "phase_of [] = Some Idle" "phase_of (fs @ [f]) = next_phase (phase_of fs) f"
  by (simp_all add: phase_of_def)

definition is_driver :: "op \<Rightarrow> bool" where
  "is_driver p \<longleftrightarrow> p \<in> {Op_resolve, Op_connect, Op_start_server, Op_tls_handshake, Op_handshake_frame}"

abbreviation drivers :: "connection \<Rightarrow> nat" where
  "drivers cn \<equiv> length (filter is_driver (cn_ops cn))"

definition is_transfer :: "op \<Rightarrow> bool" where
  "is_transfer p = (case p of Op_data_frame \<Rightarrow> True | Op_sent _ \<Rightarrow> True | _ \<Rightarrow> False)"

text \<open>While there is an owner, one operation at most drives the connection towards being connected.\<close>

definition owner_ok :: "connection \<Rightarrow> bool" where
  "owner_ok cn \<longleftrightarrow>
     (if cn_client cn
      then \<not> cn_disconnected cn \<and> phase_of (cn_log cn) = Some (if cn_is_connected cn then Open else Idle) \<and>
        (cn_is_connected cn \<longrightarrow> cn_state cn = Connected \<and> drivers cn = 0) \<and> (cn_state cn = Not_connected \<longrightarrow> drivers cn = 0) \<and>
        drivers cn \<le> 1 \<and> (\<not> cn_is_connected cn \<longrightarrow> (\<forall>p \<in> set (cn_ops cn). \<not> is_transfer p))
      else cn_disconnected cn \<and> phase_of (cn_log cn) \<noteq> None)"

definition silent :: "effect \<Rightarrow> bool" where
  "silent f = (case f of On_connected \<Rightarrow> False | On_received _ \<Rightarrow> False | On_sent _ \<Rightarrow> False | On_disconnected _ \<Rightarrow> False | _ \<Rightarrow> True)"

lemma next_phase_silent [simp]: "silent f \<Longrightarrow> next_phase ph f = ph"
  by (simp add: next_phase_def silent_def split: effect.splits)

lemma silent_effects [simp]: "silent (Queued d)" "silent (Handshake_frame d)" "silent (Data_frame d)" "silent Tls_closed" "silent Session_removed"
  by (simp_all add: silent_def)

lemma owner_ok_fields [simp]:
  "owner_ok (cn\<lparr>cn_is_closed := b\<rparr>) = owner_ok cn" "owner_ok (cn\<lparr>cn_server := b\<rparr>) = owner_ok cn"
  "owner_ok (cn\<lparr>cn_tls := b\<rparr>) = owner_ok cn" "owner_ok (cn\<lparr>cn_role := x\<rparr>) = owner_ok cn"
  "owner_ok (cn\<lparr>cn_limit := l\<rparr>) = owner_ok cn" "owner_ok (cn\<lparr>cn_handshake := h\<rparr>) = owner_ok cn"
  "owner_ok (cn\<lparr>cn_data := d\<rparr>) = owner_ok cn" "owner_ok (cn\<lparr>cn_remote_key := k\<rparr>) = owner_ok cn"
  "owner_ok (cn\<lparr>cn_writing := b\<rparr>) = owner_ok cn" "owner_ok (cn\<lparr>cn_out_queue := q\<rparr>) = owner_ok cn"
  by (simp_all add: owner_ok_def)

lemma owner_ok_emit [simp]: "silent f \<Longrightarrow> owner_ok (emit f cn) = owner_ok cn"
  by (simp add: owner_ok_def emit_def)

lemma owner_ok_start_op [simp]: "\<not> is_driver p \<Longrightarrow> \<not> is_transfer p \<Longrightarrow> owner_ok (start_op p cn) = owner_ok cn"
  by (simp add: owner_ok_def start_op_def)

lemma op_kinds [simp]:
  "\<not> is_driver Op_timer" "\<not> is_driver Op_handshake_sent" "\<not> is_driver Op_data_frame" "\<not> is_driver (Op_sent n)"
  "\<not> is_driver Op_send_check" "\<not> is_driver Op_do_send" "\<not> is_driver Op_close" "\<not> is_driver (Op_close_later x)" "\<not> is_driver Op_remove"
  "\<not> is_transfer Op_timer" "\<not> is_transfer Op_handshake_sent" "\<not> is_transfer Op_send_check" "\<not> is_transfer Op_do_send"
  "\<not> is_transfer Op_close" "\<not> is_transfer (Op_close_later x)" "\<not> is_transfer Op_remove"
  "is_driver Op_resolve" "is_driver Op_connect" "is_driver Op_start_server" "is_driver Op_tls_handshake" "is_driver Op_handshake_frame"
  "is_transfer Op_data_frame" "is_transfer (Op_sent n)"
  by (simp_all add: is_driver_def is_transfer_def)

lemma driver_not_transfer: "is_driver p \<Longrightarrow> \<not> is_transfer p"
  by (auto simp: is_driver_def is_transfer_def)

lemma owner_ok_transfer: "owner_ok cn \<Longrightarrow> cn_is_connected cn \<Longrightarrow> is_transfer p \<Longrightarrow> owner_ok (start_op p cn)"
  using driver_not_transfer by (auto simp: owner_ok_def start_op_def)

lemma owner_ok_send_push [simp]: "owner_ok (send_push d cn) = owner_ok cn"
  by (simp add: send_push_def)

lemma owner_ok_send_check [simp]: "owner_ok (send_check cn) = owner_ok cn"
  by (simp add: send_check_def)

lemma owner_ok_do_send: "owner_ok cn \<Longrightarrow> owner_ok (do_send cn)"
  by (simp add: do_send_def owner_ok_transfer split: list.splits)


text \<open>Without an owner nothing is called back any more.\<close>

lemma owner_ok_gone: "\<not> cn_client cn \<Longrightarrow> owner_ok cn \<longleftrightarrow> cn_disconnected cn \<and> phase_of (cn_log cn) \<noteq> None"
  by (simp add: owner_ok_def)

lemma owner_ok_do_close: "owner_ok cn \<Longrightarrow> owner_ok (do_close cn) \<and> \<not> cn_client (do_close cn)"
  by (auto simp: do_close_def owner_ok_def mark_closed_def release_transport_def Let_def split: if_splits)

lemma owner_ok_client_call: "owner_ok cn \<Longrightarrow> owner_ok (client_call c cn)"
  by (cases c) (simp_all add: close_on_strand_def owner_ok_do_close)

lemma owner_ok_received:
  assumes "owner_ok cn" "cn_client cn \<Longrightarrow> cn_is_connected cn" "f = On_received d \<or> f = On_sent n"
  shows "owner_ok (notify react f cn)"
proof (cases "cn_client cn")
  case True
  then have "owner_ok (emit f cn)" using assms by (auto simp: owner_ok_def next_phase_def)
  then show ?thesis using True by (auto simp: notify_def intro: callback_keeps [where P = owner_ok] owner_ok_client_call)
qed (use assms(1) in \<open>simp add: notify_def\<close>)

lemma gone_client_call: "\<not> cn_client cn \<and> owner_ok cn \<Longrightarrow> \<not> cn_client (client_call c cn) \<and> owner_ok (client_call c cn)"
  using owner_ok_client_call [of cn c]
  by (cases c) (simp_all add: close_on_strand_def do_close_def send_check_def send_push_def mark_closed_def Let_def)

lemma owner_ok_disconnect:
  assumes "owner_ok cn"
  shows "owner_ok (disconnect_with react err cn) \<and> \<not> cn_client (disconnect_with react err cn)"
proof (cases "cn_client cn")
  case True
  let ?P = "\<lambda>cn. \<not> cn_client cn \<and> owner_ok cn"
  have "?P (emit (On_disconnected err) (release_transport cn \<lparr>cn_client := False\<rparr>))"
    using assms True by (simp add: owner_ok_def next_phase_def release_transport_def Let_def)
  then have "?P (callback react (On_disconnected err) (release_transport cn \<lparr>cn_client := False\<rparr>))"
    by (rule callback_keeps) (rule gone_client_call)
  then show ?thesis using assms True
    by (auto simp: disconnect_with_def mark_closed_def owner_ok_gone owner_ok_def Let_def)
next
  case False
  then show ?thesis using assms by (simp add: disconnect_with_def owner_ok_def)
qed

text \<open>After the driving operation has completed.\<close>

definition driving :: "connection \<Rightarrow> bool" where
  "driving cn \<longleftrightarrow> owner_ok cn \<and> (cn_client cn \<longrightarrow> drivers cn = 0 \<and> \<not> cn_is_connected cn \<and> cn_state cn \<noteq> Not_connected)"

lemma driving_fields [simp]:
  "driving (cn\<lparr>cn_tls := b\<rparr>) = driving cn" "driving (cn\<lparr>cn_role := x\<rparr>) = driving cn"
  "driving (cn\<lparr>cn_limit := l\<rparr>) = driving cn" "driving (cn\<lparr>cn_handshake := h\<rparr>) = driving cn"
  "driving (cn\<lparr>cn_remote_key := k\<rparr>) = driving cn"
  "silent f \<Longrightarrow> driving (emit f cn) = driving cn" "\<not> is_driver p \<Longrightarrow> \<not> is_transfer p \<Longrightarrow> driving (start_op p cn) = driving cn"
  by (auto simp: driving_def)

lemma driving_start: "driving cn \<Longrightarrow> is_driver p \<Longrightarrow> owner_ok (start_op p cn)"
  using driver_not_transfer by (auto simp: driving_def owner_ok_def)

lemma driving_disconnect: "driving cn \<Longrightarrow> owner_ok (disconnect_with react err cn)"
  by (simp add: driving_def owner_ok_disconnect)

lemma driving_become_connected:
  assumes "driving cn"
  shows "owner_ok (become_connected react cn)"
proof -
  let ?cn = "cn\<lparr>cn_remote_key := Option.bind (cn_handshake cn) handshake_remote_public_key, cn_state := Connected,
                 cn_is_connected := True, cn_limit := Some max_frame_size\<rparr>"
  have "owner_ok (notify react On_connected ?cn)"
  proof (cases "cn_client cn")
    case True
    then have "owner_ok (emit On_connected ?cn)" using assms by (auto simp: driving_def owner_ok_def next_phase_def)
    then show ?thesis using True by (auto simp: notify_def intro: callback_keeps [where P = owner_ok] owner_ok_client_call)
  qed (use assms in \<open>simp add: notify_def driving_def owner_ok_def\<close>)
  then have "owner_ok (receive_data (notify react On_connected ?cn))" by (simp add: receive_data_def owner_ok_transfer)
  then show ?thesis by (simp add: become_connected_def owner_ok_do_send Let_def)
qed

lemma driving_advance: "driving cn \<Longrightarrow> owner_ok (advance_handshake react res cn)"
  by (cases res) (auto simp: advance_handshake_def start_sp_handshake_def Let_def driving_disconnect driving_become_connected driving_start)


lemma driving_removed:
  assumes "owner_ok cn" "p \<in> set (cn_ops cn)" "is_driver p"
  shows "driving (cn\<lparr>cn_ops := remove1 p (cn_ops cn)\<rparr>)"
proof -
  have "drivers cn \<noteq> 0" using assms(2,3) by (auto simp: filter_empty_conv)
  moreover have "length (filter is_driver (remove1 p (cn_ops cn))) = drivers cn - 1"
    using assms(2,3) by (simp add: filter_remove1 length_remove1)
  ultimately show ?thesis using assms(1) notin_set_remove1
    by (auto simp: driving_def owner_ok_def split: if_splits dest: notin_set_remove1)
qed

lemma owner_ok_removed: "owner_ok cn \<Longrightarrow> owner_ok (cn\<lparr>cn_ops := remove1 p (cn_ops cn)\<rparr>)"
  using length_remove1 [of p "filter is_driver (cn_ops cn)"]
  by (auto simp: owner_ok_def filter_remove1 split: if_splits dest: notin_set_remove1)

lemma transfer_connected: "owner_ok cn \<Longrightarrow> p \<in> set (cn_ops cn) \<Longrightarrow> is_transfer p \<Longrightarrow> cn_client cn \<Longrightarrow> cn_is_connected cn"
  by (auto simp: owner_ok_def split: if_splits)

lemma driving_on_tls: "driving cn \<Longrightarrow> owner_ok (on_tls_handshake react rid ec cn)"
  using driving_disconnect driving_start driving_advance
  by (auto simp: on_tls_handshake_def start_sp_handshake_def driving_def Let_def split: option.splits sum.splits)

lemma driving_on_frame: "driving cn \<Longrightarrow> owner_ok (on_handshake_frame e xp react rid r res cn)"
  by (auto simp: on_handshake_frame_def driving_disconnect driving_advance Let_def driving_def split: option.splits sum.splits prod.splits)

lemma owner_ok_transfer_done:
  assumes "owner_ok cn" "cn_client cn \<Longrightarrow> cn_is_connected cn"
  shows "owner_ok (on_data_frame react res cn)" "owner_ok (on_sent react n ec cn)"
  using assms owner_ok_received [OF assms, of _ "case res of Inr d \<Rightarrow> d"] owner_ok_received [of "cn\<lparr>cn_writing := False\<rparr>"]
  by (auto simp: on_data_frame_def on_sent_def receive_data_def owner_ok_disconnect owner_ok_transfer owner_ok_do_send Let_def
      split: sum.splits option.splits)

lemma owner_ok_complete:
  assumes "owner_ok cn" "p \<in> set (cn_ops cn)"
  shows "owner_ok (complete_op e xp react rid r p res (cn\<lparr>cn_ops := remove1 p (cn_ops cn)\<rparr>))"
proof -
  let ?cn = "cn\<lparr>cn_ops := remove1 p (cn_ops cn)\<rparr>"
  note ok = owner_ok_removed [OF assms(1), of p]
  have dr: "is_driver p \<Longrightarrow> driving ?cn" using driving_removed [OF assms] .
  have tr: "is_transfer p \<Longrightarrow> cn_client ?cn \<Longrightarrow> cn_is_connected ?cn" using transfer_connected [OF assms] by simp
  show ?thesis
  proof (cases "is_transfer p")
    case True
    note fin = owner_ok_transfer_done [OF ok tr [OF True]]
    show ?thesis using True fin by (cases p) (simp_all add: complete_op_def is_transfer_def Let_def)
  next
    case False
    then show ?thesis
      using ok dr driving_start [of ?cn] driving_disconnect [of ?cn] driving_on_tls [of ?cn] driving_on_frame [of ?cn]
      by (cases p)
        (auto simp: complete_op_def on_resolve_def on_connect_def start_tls_def on_start_server_def on_timeout_def on_handshake_sent_def
          on_close_later_def owner_ok_disconnect owner_ok_do_send owner_ok_do_close driving_start Let_def split: option.splits)
  qed
qed

lemma owner_ok_step: "owner_ok cn \<Longrightarrow> conn_step e xp react cn cn' \<Longrightarrow> owner_ok cn'"
proof (erule conn_step.cases, goal_cases)
  case (1 address)
  then show ?case using driver_not_transfer by (auto simp: connect_def owner_ok_def split: if_splits)
next
  case 2
  then show ?case using driver_not_transfer by (auto simp: start_server_handshake_def owner_ok_def split: if_splits)
qed (auto simp: close_from_elsewhere_def close_on_strand_def owner_ok_do_close owner_ok_complete)

text \<open>C5: The owner of a connection is called back in order: whatever the network does, in whatever order operations
  complete or are cancelled and whatever the owner calls from its callbacks or from elsewhere, it hears of
  being connected at most once, of messages only after that, and of the end at most once and last.\<close>

theorem connection_callbacks_ordered:
  assumes "conn_reach e xp react (make_connection ctx server info) cn"
  shows "phase_of (cn_log cn) \<noteq> None"
proof -
  have "owner_ok cn"
    by (rule conn_reach_invariant [OF assms]) (simp add: make_connection_def owner_ok_def, erule (1) owner_ok_step)
  then show ?thesis by (auto simp: owner_ok_def split: if_splits)
qed


section \<open>Message order and progress\<close>

lemma owner_ok_reach:
  assumes "conn_reach e xp react (make_connection ctx server info) cn"
  shows "owner_ok cn"
  by (rule conn_reach_invariant [OF assms]) (simp add: make_connection_def owner_ok_def, erule (1) owner_ok_step)

lemma sender_ok_complete:
  assumes "sender_ok cn" "owner_ok cn" "p \<in> set (cn_ops cn)"
  shows "sender_ok (complete_op e xp react rid r p res (cn\<lparr>cn_ops := remove1 p (cn_ops cn)\<rparr>))"
proof (cases "\<exists>n. p = Op_sent n")
  case True
  then obtain n where "p = Op_sent n" ..
  then show ?thesis using sender_ok_on_sent [of cn n] assms by (auto simp: complete_op_def owner_ok_def Let_def split: if_splits)
next
  case False
  then have "sender_ok (cn\<lparr>cn_ops := remove1 p (cn_ops cn)\<rparr>)" using sender_ok_remove_op [OF assms(1)] by blast
  then show ?thesis using False
    by (cases p)
      (auto simp: complete_op_def on_resolve_def on_connect_def start_tls_def on_start_server_def on_timeout_def on_handshake_sent_def
        on_tls_handshake_def on_handshake_frame_def start_sp_handshake_def on_data_frame_def on_close_later_def Let_def
        sender_ok_disconnect sender_ok_do_send sender_ok_do_close sender_ok_advance sender_ok_notify
        split: option.splits sum.splits prod.splits)
qed

lemma sender_ok_step: "sender_ok cn \<Longrightarrow> owner_ok cn \<Longrightarrow> conn_step e xp react cn cn' \<Longrightarrow> sender_ok cn'"
  by (erule conn_step.cases)
    (auto simp: connect_def start_server_handshake_def close_from_elsewhere_def close_on_strand_def sender_ok_push sender_ok_do_close
      sender_ok_complete split: if_splits)

lemma sender_ok_reach:
  assumes "conn_reach e xp react (make_connection ctx server info) cn"
  shows "sender_ok cn"
proof -
  have "sender_ok cn \<and> owner_ok cn"
    by (rule conn_reach_invariant [OF assms])
      (simp add: make_connection_def owner_ok_def sender_ok_def, use sender_ok_step owner_ok_step in blast)
  then show ?thesis ..
qed

text \<open>C11: Messages leave in the order in which they were sent, none twice and none invented: what was handed to the
  TLS stream and what still waits are together what the owner sent; \<^verbatim>\<open>on_sent\<close> reports the
  sizes of the first of these frames in order, and at most one frame is being written.\<close>

theorem connection_sends_in_order:
  assumes "conn_reach e xp react (make_connection ctx server info) cn"
  shows "queued (cn_log cn) = data_frames (cn_log cn) @ cn_out_queue cn \<and>
    prefix (sent_sizes (cn_log cn)) (map length (data_frames (cn_log cn))) \<and>
    length (sent_ops (cn_ops cn)) = (if cn_writing cn then 1 else 0)"
  using sender_ok_reach [OF assms] by (auto simp: sender_ok_def split: if_splits)

definition not_stuck :: "connection \<Rightarrow> bool" where
  "not_stuck cn \<longleftrightarrow> cn_is_connected cn \<and> \<not> cn_disconnected cn \<and> cn_out_queue cn \<noteq> [] \<and> \<not> cn_writing cn \<longrightarrow>
     Op_do_send \<in> set (cn_ops cn) \<or> Op_send_check \<in> set (cn_ops cn)"

lemma not_stuck_fields [simp]:
  "not_stuck (cn\<lparr>cn_state := s\<rparr>) = not_stuck cn" "not_stuck (cn\<lparr>cn_is_closed := b\<rparr>) = not_stuck cn"
  "not_stuck (cn\<lparr>cn_client := b\<rparr>) = not_stuck cn"
  "not_stuck (cn\<lparr>cn_server := b\<rparr>) = not_stuck cn" "not_stuck (cn\<lparr>cn_tls := b\<rparr>) = not_stuck cn"
  "not_stuck (cn\<lparr>cn_role := x\<rparr>) = not_stuck cn" "not_stuck (cn\<lparr>cn_limit := l\<rparr>) = not_stuck cn"
  "not_stuck (cn\<lparr>cn_handshake := h\<rparr>) = not_stuck cn" "not_stuck (cn\<lparr>cn_data := d\<rparr>) = not_stuck cn"
  "not_stuck (emit f cn) = not_stuck cn"
  by (simp_all add: not_stuck_def)

lemma not_stuck_start_op: "not_stuck cn \<Longrightarrow> not_stuck (start_op p cn)"
  by (auto simp: not_stuck_def)

lemma not_stuck_do_send: "not_stuck (do_send cn)"
  by (auto simp: not_stuck_def do_send_def split: list.splits)

lemma not_stuck_released [simp]: "not_stuck (release_transport cn)"
  by (simp add: not_stuck_def)

lemma not_stuck_disconnected: "cn_disconnected cn \<Longrightarrow> not_stuck cn"
  by (simp add: not_stuck_def)

lemma not_stuck_do_close [simp]: "not_stuck (do_close cn)"
  by (simp add: do_close_def mark_closed_def not_stuck_disconnected Let_def)

lemma not_stuck_client_call: "not_stuck cn \<Longrightarrow> not_stuck (client_call c cn)"
  by (cases c) (simp add: not_stuck_def send_check_def send_push_def, simp_all add: close_on_strand_def not_stuck_start_op)

lemma not_stuck_callback: "not_stuck cn \<Longrightarrow> not_stuck (callback react f cn)"
  by (rule callback_keeps) (simp_all add: not_stuck_client_call)

lemma not_stuck_disconnect [simp]: "not_stuck (disconnect_with react err cn)"
  by (simp add: disconnect_with_def mark_closed_def not_stuck_callback not_stuck_disconnected Let_def)

lemma not_stuck_receive: "not_stuck cn \<Longrightarrow> not_stuck (receive_data (notify react f cn))"
  by (simp add: receive_data_def notify_def not_stuck_callback not_stuck_start_op)

lemma not_stuck_advance: "not_stuck cn \<Longrightarrow> not_stuck (advance_handshake react res cn)"
  by (cases res) (simp add: advance_handshake_def become_connected_def start_sp_handshake_def not_stuck_do_send not_stuck_disconnect
      not_stuck_start_op Let_def)

lemma not_stuck_on_sent [simp]: "not_stuck (on_sent react n ec cn)"
  by (simp add: on_sent_def not_stuck_do_send Let_def split: option.splits)

lemma not_stuck_complete:
  assumes "not_stuck cn"
  shows "not_stuck (complete_op e xp react rid r p res (cn\<lparr>cn_ops := remove1 p (cn_ops cn)\<rparr>))"
proof (cases "p = Op_do_send \<or> p = Op_send_check")
  case True
  then show ?thesis using assms not_stuck_do_send
    by (elim disjE) (simp_all add: complete_op_def send_check_def not_stuck_def Let_def)
next
  case False
  then have "not_stuck (cn\<lparr>cn_ops := remove1 p (cn_ops cn)\<rparr>)" using assms by (auto simp: not_stuck_def in_set_remove1)
  then show ?thesis using False
    by (cases p)
      (auto simp: complete_op_def on_resolve_def on_connect_def start_tls_def on_start_server_def on_timeout_def on_handshake_sent_def
        on_tls_handshake_def on_handshake_frame_def start_sp_handshake_def on_data_frame_def on_close_later_def Let_def
        not_stuck_disconnect not_stuck_do_close not_stuck_advance not_stuck_receive not_stuck_start_op not_stuck_on_sent
        split: option.splits sum.splits prod.splits)
qed

lemma not_stuck_step: "not_stuck cn \<Longrightarrow> conn_step e xp react cn cn' \<Longrightarrow> not_stuck cn'"
  by (erule conn_step.cases)
    (auto simp: connect_def start_server_handshake_def close_from_elsewhere_def close_on_strand_def
      not_stuck_complete not_stuck_start_op split: if_splits, simp add: not_stuck_def)


text \<open>C17: No message is left lying: while a connection is up, a queued message is either being waited for by a write
  in progress, whose completion sends the next one, or a step that will look at the queue is
  already scheduled, also when the connection came up between the two halves of a send.\<close>

theorem connection_no_message_stuck:
  assumes "conn_reach e xp react (make_connection ctx server info) cn"
    "cn_is_connected cn" "\<not> cn_disconnected cn" "cn_out_queue cn \<noteq> []"
  shows "sent_ops (cn_ops cn) \<noteq> [] \<or> Op_do_send \<in> set (cn_ops cn) \<or> Op_send_check \<in> set (cn_ops cn)"
proof -
  have "not_stuck cn"
    by (rule conn_reach_invariant [OF assms(1)]) (simp add: make_connection_def not_stuck_def, erule (1) not_stuck_step)
  then show ?thesis using assms(2-) sender_ok_reach [OF assms(1)] by (auto simp: not_stuck_def sender_ok_def split: if_splits)
qed


section \<open>Connected means authenticated\<close>

definition exported :: "exporter_function \<Rightarrow> endpoint_role \<Rightarrow> octets \<Rightarrow> bool" where
  "exported xp role b \<longleftrightarrow> (\<exists>cid sid. xp binding_label (binding_context (role_byte role) cid sid) binding_size = Some b)"

definition expected_host :: "endpoint_role \<Rightarrow> handshake_data \<Rightarrow> octets option" where
  "expected_host role info = (case role of Server \<Rightarrow> None | Client \<Rightarrow> restriction_of info)"

text \<open>What is known of the peer: its key, proven for the other role's binding of this channel, or, on a server that does not
  require authentication, nothing.\<close>

definition peer_known ::
    "net_env \<Rightarrow> exporter_function \<Rightarrow> net_context \<Rightarrow> endpoint_role \<Rightarrow> handshake_data \<Rightarrow> public_key option \<Rightarrow> bool" where
  "peer_known e xp ctx role info rk =
     (case rk of
        Some k \<Rightarrow> \<exists>b. exported xp (other_role role) b \<and> proven e ctx (expected_host role info) b k
      | None \<Rightarrow> role = Server \<and> \<not> ctx_auth_remote ctx)"

text \<open>The handshakes of the context are public key handshakes, enabled for this role.\<close>

definition offers_pk :: "net_context \<Rightarrow> endpoint_role \<Rightarrow> bool" where
  "offers_pk ctx role \<longleftrightarrow> ran (ctx_handshakes ctx) \<subseteq>
     (case role of Client \<Rightarrow> {Client_pk_only, Pk_by_role} | Server \<Rightarrow> {Server_pk_only, Pk_by_role})"

lemma offers_pk_enabled:
  "offers_pk (enable_client_pk_handshake (make_context keys certs secrets my_key my_chain)) Client"
  "offers_pk (enable_server_pk_handshake (make_context keys certs secrets my_key my_chain)) Server"
  "offers_pk (enable_pk_handshake (make_context keys certs secrets my_key my_chain)) role"
  "offers_pk ctx role \<Longrightarrow> offers_pk (ctx\<lparr>ctx_auth_remote := auth\<rparr>) role"
  by (auto simp: offers_pk_def enable_client_pk_handshake_def enable_server_pk_handshake_def enable_pk_handshake_def add_handshake_def
      make_context_def split: endpoint_role.splits)

definition server_sound :: "net_env \<Rightarrow> exporter_function \<Rightarrow> net_context \<Rightarrow> handshake \<Rightarrow> bool" where
  "server_sound e xp ctx hs \<longleftrightarrow> hs_role hs = Server \<and> \<not> hs_hello_sent hs \<and>
     (\<forall>h. hs_concrete hs = Some h \<longrightarrow> (\<exists>b rk. h = Server_pk b rk \<and> exported xp Client (remote_binding b) \<and>
        (\<forall>k. rk = Some k \<longrightarrow> proven e ctx None (remote_binding b) k)))"

definition client_verified :: "net_env \<Rightarrow> exporter_function \<Rightarrow> net_context \<Rightarrow> handshake_data \<Rightarrow> concrete \<Rightarrow> bool" where
  "client_verified e xp ctx info h \<longleftrightarrow> (\<exists>i v rk. h = Client_pk i v rk \<and> restriction_of i = restriction_of info \<and>
     exported xp Server (remote_binding (hd_binding i)) \<and>
     (v \<longrightarrow> (\<exists>k. rk = Some k \<and> proven e ctx (restriction_of info) (remote_binding (hd_binding i)) k)))"

definition client_sound :: "net_env \<Rightarrow> exporter_function \<Rightarrow> net_context \<Rightarrow> handshake_data \<Rightarrow> handshake \<Rightarrow> bool" where
  "client_sound e xp ctx info hs \<longleftrightarrow> hs_role hs = Client \<and>
     (if hs_hello_sent hs then hs_concrete hs = None \<and> hs_requested hs = info
      else \<exists>h. hs_concrete hs = Some h \<and> client_verified e xp ctx info h)"

lemma offered_server:
  assumes "make_concrete xp ctx hs = (Inr h, hs')" "offers_pk ctx Server" "hs_role hs = Server"
  shows "\<exists>b. h = Server_pk b None \<and> hs_concrete hs' = Some h \<and> derive_binding xp hs = Inr b"
  using assms
  by (fastforce simp: make_concrete_def construct_handshake_def offers_pk_def Let_def dest: ranI
      split: sum.splits option.splits constructor_kind.splits)

lemma offered_client:
  assumes "make_concrete xp ctx hs = (Inr h, hs')" "offers_pk ctx Client" "hs_role hs = Client"
  shows "\<exists>b. h = Client_pk ((hs_requested hs)\<lparr>hd_binding := b, hd_role := Client\<rparr>) False None \<and> hs_concrete hs' = Some h \<and>
    derive_binding xp hs = Inr b"
  using assms
  by (fastforce simp: make_concrete_def construct_handshake_def offers_pk_def Let_def dest: ranI
      split: sum.splits option.splits constructor_kind.splits)

lemma make_concrete_fields: "make_concrete xp ctx hs = (Inr h, hs') \<Longrightarrow> hs_role hs' = hs_role hs \<and> hs_hello_sent hs' = hs_hello_sent hs"
  by (auto simp: make_concrete_def Let_def split: sum.splits)

lemma server_pk_In_progress: "server_pk_handle e ctx d b rk \<noteq> ((In_progress, p), h)"
  by (auto simp: server_pk_handle_def caught_def bindE_def Let_def split: sum.splits option.splits bool.splits)

lemma handle_client_hello_ok:
  assumes "handle_client_hello e xp sid r ctx d hs = ((st, p), hs')" "st \<noteq> Failed"
  shows "st = In_progress"
  using assms
  by (auto simp: handle_client_hello_def caught_def bindE_def Let_def split: sum.splits if_splits prod.splits)

lemma server_pk_outcome:
  assumes "server_pk_handle e ctx d b rk = ((Succeeded, p), h)" "\<forall>k. rk = Some k \<longrightarrow> proven e ctx None (remote_binding b) k"
  shows "\<exists>rk'. h = Server_pk b rk' \<and> (\<forall>k. rk' = Some k \<longrightarrow> proven e ctx None (remote_binding b) k) \<and> (rk' = None \<longrightarrow> \<not> ctx_auth_remote ctx)"
  using assms verified_proven
  by (auto simp: server_pk_handle_def Let_def split: sum.splits option.splits bool.splits if_splits)

lemma server_step_sound:
  assumes pk: "offers_pk ctx Server" and s: "server_sound e xp ctx hs" and step: "handle_packet e xp rid r ctx d hs = ((st, p), hs')" and st: "st \<noteq> Failed"
  shows "server_sound e xp ctx hs' \<and> (st = Succeeded \<longrightarrow> peer_known e xp ctx Server info (handshake_remote_public_key hs'))"
proof (cases "hs_concrete hs")
  case None
  then have hello: "handle_client_hello e xp rid r ctx d hs = ((st, p), hs')" using step s by (simp add: handle_packet_def server_sound_def)
  have "st = In_progress" by (rule handle_client_hello_ok [OF hello st])
  from client_hello_accepted [OF hello [unfolded this]] obtain hs0 h where h: "make_concrete xp ctx hs0 = (Inr h, hs')" "hs_role hs0 = hs_role hs"
    "hs_hello_sent hs0 = hs_hello_sent hs" by force
  obtain b where b: "h = Server_pk b None" "hs_concrete hs' = Some h" "derive_binding xp hs0 = Inr b"
    using offered_server [OF h(1) pk] h(2) s by (auto simp: server_sound_def)
  have "exported xp Client (remote_binding b)"
    using derive_binding_remote [OF b(3)] h(2) s by (auto simp: exported_def server_sound_def other_role_def)
  then show ?thesis using s b(1,2) h make_concrete_fields [OF h(1)] \<open>st = In_progress\<close> by (simp add: server_sound_def)
next
  case (Some c)
  then obtain b rk where b: "hs_concrete hs = Some (Server_pk b rk)" "exported xp Client (remote_binding b)"
    "\<forall>k. rk = Some k \<longrightarrow> proven e ctx None (remote_binding b) k" using s by (auto simp: server_sound_def)
  then obtain h where h: "server_pk_handle e ctx d b rk = ((st, p), h)" "hs' = hs\<lparr>hs_concrete := Some h\<rparr>"
    using step s by (auto simp: handle_packet_def concrete_handle_def server_sound_def Let_def split: prod.splits)
  have "st = Succeeded" using st server_pk_In_progress h(1) by (cases st) auto
  from server_pk_outcome [OF h(1) [unfolded this] b(3)] obtain rk' where rk': "h = Server_pk b rk'"
    "\<And>k. rk' = Some k \<Longrightarrow> proven e ctx None (remote_binding b) k" "rk' = None \<Longrightarrow> \<not> ctx_auth_remote ctx" by blast
  then show ?thesis using s b(2) h(2)
    by (auto simp: server_sound_def handshake_remote_public_key_def remote_public_key_def peer_known_def expected_host_def other_role_def
        split: option.splits)
qed

lemma verify_server_state:
  assumes "verify_server_and_reply e r ctx d info rk = ((st, p), h)" "st \<noteq> Failed"
  shows "st = In_progress \<and> (\<exists>k. h = Client_pk info True (Some k) \<and> proven e ctx (restriction_of info) (remote_binding (hd_binding info)) k)"
  using assms verified_proven
  by (auto simp: verify_server_and_reply_def caught_def bindE_def Let_def split: sum.splits option.splits bool.splits)

lemma client_concrete_step:
  assumes "client_verified e xp ctx info h" "concrete_handle e r ctx d h = ((st, p), h')" "st \<noteq> Failed"
  shows "client_verified e xp ctx info h' \<and>
    (st = Succeeded \<longrightarrow> peer_known e xp ctx Client info (remote_public_key h'))"
proof -
  obtain i v rk where h: "h = Client_pk i v rk" "restriction_of i = restriction_of info" "exported xp Server (remote_binding (hd_binding i))"
    "v \<Longrightarrow> \<exists>k. rk = Some k \<and> proven e ctx (restriction_of info) (remote_binding (hd_binding i)) k"
    using assms(1) by (auto simp: client_verified_def)
  show ?thesis
  proof (cases v)
    case True
    then have "h' = h" using assms(2) h(1) by (simp add: concrete_handle_def)
    then show ?thesis using assms(1) h(1,3) h(4) [OF True]
      by (auto simp: remote_public_key_def peer_known_def expected_host_def other_role_def)
  next
    case False
    then have "verify_server_and_reply e r ctx d i rk = ((st, p), h')" using assms(2) h(1) by (simp add: concrete_handle_def)
    from verify_server_state [OF this assms(3)] show ?thesis using h(2,3) by (auto simp: client_verified_def)
  qed
qed

lemma server_hello_progress:
  assumes "handle_server_hello e xp r ctx d hs = ((st, p), hs')" "st \<noteq> Failed"
  shows "\<exists>sid auth h hs1. make_concrete xp ctx (hs\<lparr>hs_server_id := sid\<rparr>) = (Inr h, hs1) \<and>
    ((\<exists>h'. concrete_handle e r ctx auth h = ((st, p), h') \<and> hs' = hs1\<lparr>hs_concrete := Some h'\<rparr>) \<or> concrete_start e r ctx h = (st, p))"
proof (cases "read_der server_hello_ty server_hello_of d")
  case (Inr hello)
  then show ?thesis using assms
    by (intro exI [of _ "sh_server_id hello"] exI [of _ "sh_auth hello"])
      (auto simp: handle_server_hello_def Let_def split: sum.splits if_splits prod.splits)
qed (use assms in \<open>simp add: handle_server_hello_def\<close>)

lemma client_step_sound:
  assumes pk: "offers_pk ctx Client" and s: "client_sound e xp ctx info hs" and step: "handle_packet e xp rid r ctx d hs = ((st, p), hs')" and st: "st \<noteq> Failed"
  shows "client_sound e xp ctx info hs' \<and> (st = Succeeded \<longrightarrow> peer_known e xp ctx Client info (handshake_remote_public_key hs'))"
proof (cases "hs_hello_sent hs")
  case True
  then have "handle_server_hello e xp r ctx d (hs\<lparr>hs_hello_sent := False\<rparr>) = ((st, p), hs')" using step by (simp add: handle_packet_def)
  from server_hello_progress [OF this st] obtain sid auth h hs1 where h: "make_concrete xp ctx (hs\<lparr>hs_hello_sent := False, hs_server_id := sid\<rparr>) = (Inr h, hs1)"
    "(\<exists>h'. concrete_handle e r ctx auth h = ((st, p), h') \<and> hs' = hs1\<lparr>hs_concrete := Some h'\<rparr>) \<or> concrete_start e r ctx h = (st, p)" by blast
  obtain b where b: "h = Client_pk (info\<lparr>hd_binding := b, hd_role := Client\<rparr>) False None"
    "derive_binding xp (hs\<lparr>hs_hello_sent := False, hs_server_id := sid\<rparr>) = Inr b"
    using offered_client [OF h(1) pk] s True by (auto simp: client_sound_def)
  have v: "client_verified e xp ctx info h"
    using derive_binding_remote [OF b(2)] s by (auto simp: client_verified_def b(1) exported_def client_sound_def other_role_def)
  obtain h' where h': "concrete_handle e r ctx auth h = ((st, p), h')" "hs' = hs1\<lparr>hs_concrete := Some h'\<rparr>"
    using h(2) st by (auto simp: b(1) concrete_start_def)
  show ?thesis using client_concrete_step [OF v h'(1) st] h'(2) s make_concrete_fields [OF h(1)]
    by (auto simp: client_sound_def handshake_remote_public_key_def)
next
  case False
  then obtain h where h: "hs_concrete hs = Some h" "client_verified e xp ctx info h" using s by (auto simp: client_sound_def)
  then obtain h' where h': "concrete_handle e r ctx d h = ((st, p), h')" "hs' = hs\<lparr>hs_concrete := Some h'\<rparr>"
    using step False by (auto simp: handle_packet_def Let_def split: prod.splits)
  show ?thesis using client_concrete_step [OF h(2) h'(1) st] h'(2) s False by (auto simp: client_sound_def handshake_remote_public_key_def)
qed


definition hs_sound :: "net_env \<Rightarrow> exporter_function \<Rightarrow> net_context \<Rightarrow> endpoint_role \<Rightarrow> handshake_data \<Rightarrow> handshake \<Rightarrow> bool" where
  "hs_sound e xp ctx role info hs \<longleftrightarrow>
     (offers_pk ctx role \<longrightarrow> (case role of Server \<Rightarrow> server_sound e xp ctx hs | Client \<Rightarrow> client_sound e xp ctx info hs))"

lemma handshake_step_sound:
  assumes "offers_pk ctx role" "hs_sound e xp ctx role info hs" "handle_packet e xp rid r ctx d hs = ((st, p), hs')" "st \<noteq> Failed"
  shows "hs_sound e xp ctx role info hs' \<and> (st = Succeeded \<longrightarrow> peer_known e xp ctx role info (handshake_remote_public_key hs'))"
  using assms server_step_sound [OF _ _ assms(3,4), of info] client_step_sound [OF _ _ assms(3,4), of info]
  by (cases role) (simp_all add: hs_sound_def)

definition is_late :: "op \<Rightarrow> bool" where
  "is_late p \<longleftrightarrow> p \<in> {Op_tls_handshake, Op_handshake_frame}"

abbreviation late_ops :: "connection \<Rightarrow> op list" where
  "late_ops cn \<equiv> filter is_late (cn_ops cn)"

definition peer_authentic :: "net_env \<Rightarrow> exporter_function \<Rightarrow> net_context \<Rightarrow> connection \<Rightarrow> bool" where
  "peer_authentic e xp ctx cn \<longleftrightarrow> (offers_pk ctx (cn_role cn) \<longrightarrow> peer_known e xp ctx (cn_role cn) (cn_data cn) (cn_remote_key cn))"

text \<open>One handshake step at most is outstanding, on a sound handshake; a connection that came up has an authenticated peer.\<close>

definition auth_ok :: "net_env \<Rightarrow> exporter_function \<Rightarrow> net_context \<Rightarrow> connection \<Rightarrow> bool" where
  "auth_ok e xp ctx cn \<longleftrightarrow> cn_context cn = ctx \<and> length (late_ops cn) \<le> 1 \<and>
     (Op_handshake_frame \<in> set (cn_ops cn) \<longrightarrow> (\<exists>hs. cn_handshake cn = Some hs \<and> hs_sound e xp ctx (cn_role cn) (cn_data cn) hs)) \<and>
     (cn_is_connected cn \<or> On_connected \<in> set (cn_log cn) \<longrightarrow> peer_authentic e xp ctx cn)"

lemma peer_authentic_cong:
  assumes "cn_remote_key cn' = cn_remote_key cn" "cn_role cn' = cn_role cn" "cn_data cn' = cn_data cn"
  shows "peer_authentic e xp ctx cn' = peer_authentic e xp ctx cn"
  using assms by (simp add: peer_authentic_def)

lemma auth_ok_fields [simp]:
  "auth_ok e xp ctx (cn\<lparr>cn_state := s\<rparr>) = auth_ok e xp ctx cn" "auth_ok e xp ctx (cn\<lparr>cn_is_closed := b\<rparr>) = auth_ok e xp ctx cn"
  "auth_ok e xp ctx (cn\<lparr>cn_client := b\<rparr>) = auth_ok e xp ctx cn" "auth_ok e xp ctx (cn\<lparr>cn_disconnected := b\<rparr>) = auth_ok e xp ctx cn"
  "auth_ok e xp ctx (cn\<lparr>cn_server := b\<rparr>) = auth_ok e xp ctx cn" "auth_ok e xp ctx (cn\<lparr>cn_writing := b\<rparr>) = auth_ok e xp ctx cn"
  "auth_ok e xp ctx (cn\<lparr>cn_out_queue := q\<rparr>) = auth_ok e xp ctx cn" "auth_ok e xp ctx (cn\<lparr>cn_limit := l\<rparr>) = auth_ok e xp ctx cn"
  "auth_ok e xp ctx cn \<Longrightarrow> auth_ok e xp ctx (cn\<lparr>cn_is_connected := False\<rparr>)"
  "f \<noteq> On_connected \<Longrightarrow> auth_ok e xp ctx (emit f cn) = auth_ok e xp ctx cn"
  "\<not> is_late p \<Longrightarrow> auth_ok e xp ctx (start_op p cn) = auth_ok e xp ctx cn"
  by (auto simp: auth_ok_def peer_authentic_def is_late_def)

lemma late_kinds [simp]:
  "\<not> is_late Op_timer" "\<not> is_late Op_handshake_sent" "\<not> is_late Op_data_frame" "\<not> is_late (Op_sent n)"
  "\<not> is_late Op_send_check" "\<not> is_late Op_do_send" "\<not> is_late Op_close" "\<not> is_late (Op_close_later x)" "\<not> is_late Op_remove"
  "\<not> is_late Op_resolve" "\<not> is_late Op_connect" "\<not> is_late Op_start_server" "is_late Op_tls_handshake" "is_late Op_handshake_frame"
  by (simp_all add: is_late_def)

lemma auth_ok_removed: "auth_ok e xp ctx cn \<Longrightarrow> auth_ok e xp ctx (cn\<lparr>cn_ops := remove1 p (cn_ops cn)\<rparr>)"
  using length_remove1 [of p "late_ops cn"]
  by (auto simp: auth_ok_def peer_authentic_def filter_remove1 split: if_splits dest: notin_set_remove1)

lemma auth_ok_release: "auth_ok e xp ctx cn \<Longrightarrow> auth_ok e xp ctx (release_transport cn)"
  by (simp add: release_transport_def Let_def)

lemma auth_ok_do_send: "auth_ok e xp ctx cn \<Longrightarrow> auth_ok e xp ctx (do_send cn)"
  by (simp add: do_send_def split: list.splits)

lemma auth_ok_do_close: "auth_ok e xp ctx cn \<Longrightarrow> auth_ok e xp ctx (do_close cn)"
  by (simp add: do_close_def mark_closed_def auth_ok_release Let_def)

lemma auth_ok_client_call: "auth_ok e xp ctx cn \<Longrightarrow> auth_ok e xp ctx (client_call c cn)"
  by (cases c) (simp_all add: send_check_def send_push_def close_on_strand_def auth_ok_do_close)

lemma auth_ok_callback: "auth_ok e xp ctx (emit f cn) \<Longrightarrow> auth_ok e xp ctx (callback react f cn)"
  by (rule callback_keeps) (simp_all add: auth_ok_client_call)

lemma auth_ok_disconnect: "auth_ok e xp ctx cn \<Longrightarrow> auth_ok e xp ctx (disconnect_with react err cn)"
  by (simp add: disconnect_with_def mark_closed_def auth_ok_callback auth_ok_release Let_def)

lemma auth_ok_receive: "auth_ok e xp ctx cn \<Longrightarrow> auth_ok e xp ctx (receive_data cn)"
  by (simp add: receive_data_def)

lemma auth_ok_notify: "auth_ok e xp ctx cn \<Longrightarrow> f \<noteq> On_connected \<Longrightarrow> auth_ok e xp ctx (notify react f cn)"
  by (simp add: notify_def auth_ok_callback)

lemma auth_ok_handshake: "late_ops cn = [] \<Longrightarrow> auth_ok e xp ctx (cn\<lparr>cn_handshake := h\<rparr>) = auth_ok e xp ctx cn"
  by (auto simp: auth_ok_def peer_authentic_def filter_empty_conv)

lemma auth_ok_become_connected:
  assumes "auth_ok e xp ctx cn" "cn_handshake cn = Some hs"
    "offers_pk ctx (cn_role cn) \<Longrightarrow> peer_known e xp ctx (cn_role cn) (cn_data cn) (handshake_remote_public_key hs)"
  shows "auth_ok e xp ctx (become_connected react cn)"
proof -
  let ?cn = "cn\<lparr>cn_remote_key := Option.bind (cn_handshake cn) handshake_remote_public_key, cn_state := Connected,
                 cn_is_connected := True, cn_limit := Some max_frame_size\<rparr>"
  have "auth_ok e xp ctx ?cn" "auth_ok e xp ctx (emit On_connected ?cn)" using assms by (auto simp: auth_ok_def peer_authentic_def)
  then have "auth_ok e xp ctx (notify react On_connected ?cn)" by (simp add: notify_def auth_ok_callback)
  then show ?thesis by (simp add: become_connected_def auth_ok_do_send auth_ok_receive Let_def)
qed

lemma auth_ok_advance:
  assumes "auth_ok e xp ctx cn" "late_ops cn = []" "cn_handshake cn = Some hs"
    "st \<noteq> Failed \<Longrightarrow> hs_sound e xp ctx (cn_role cn) (cn_data cn) hs"
    "st = Succeeded \<Longrightarrow> offers_pk ctx (cn_role cn) \<Longrightarrow> peer_known e xp ctx (cn_role cn) (cn_data cn) (handshake_remote_public_key hs)"
  shows "auth_ok e xp ctx (advance_handshake react (st, p) cn)"
proof -
  define cn1 where "cn1 = (if p \<noteq> [] then start_op Op_handshake_sent (emit (Handshake_frame p) cn) else cn)"
  have c: "auth_ok e xp ctx cn1" "late_ops cn1 = []" "cn_handshake cn1 = Some hs" "cn_role cn1 = cn_role cn" "cn_data cn1 = cn_data cn"
    using assms(1-3) by (simp_all add: cn1_def)
  have adv: "advance_handshake react (st, p) cn = (if st = Failed then disconnect_with react Handshake_failed cn
      else if st = Succeeded then become_connected react cn1 else start_sp_handshake cn1)"
    by (simp add: advance_handshake_def cn1_def)
  show ?thesis
  proof (cases st)
    case In_progress
    then have "auth_ok e xp ctx (start_op Op_handshake_frame cn1)"
      using assms(4) c unfolding auth_ok_def by (simp add: peer_authentic_def)
    then show ?thesis unfolding adv using In_progress by (simp add: start_sp_handshake_def)
  next
    case Succeeded
    then show ?thesis using assms(5) auth_ok_become_connected [OF c(1,3), of react] c(4,5) unfolding adv by auto
  qed (simp add: advance_handshake_def auth_ok_disconnect assms(1))
qed

lemma late_are_drivers: "is_late p \<Longrightarrow> is_driver p"
  by (auto simp: is_late_def is_driver_def)

lemma late_empty: "filter is_driver ps = [] \<Longrightarrow> filter is_late ps = []"
  using late_are_drivers by (auto simp: filter_empty_conv)

lemma late_removed: "length (late_ops cn) \<le> 1 \<Longrightarrow> p \<in> set (cn_ops cn) \<Longrightarrow> is_late p \<Longrightarrow> filter is_late (remove1 p (cn_ops cn)) = []"
proof -
  assume a: "length (late_ops cn) \<le> 1" "p \<in> set (cn_ops cn)" "is_late p"
  then have "p \<in> set (late_ops cn)" by simp
  with a(1) have "late_ops cn = [p]" by (cases "late_ops cn") auto
  then show ?thesis by (simp add: filter_remove1)
qed

lemma idle_not_connected: "phase_of fs = Some Idle \<Longrightarrow> On_connected \<notin> set fs"
  by (induction fs rule: rev_induct) (auto simp: next_phase_def split: effect.splits if_splits)

lemma auth_ok_start_tls:
  assumes "auth_ok e xp ctx cn" "driving cn" "cn_client cn"
  shows "auth_ok e xp ctx (start_tls role cn)"
proof -
  have d: "drivers cn = 0" "\<not> cn_is_connected cn" "phase_of (cn_log cn) = Some Idle" using assms(2,3) by (auto simp: driving_def owner_ok_def)
  then have "late_ops cn = []" "On_connected \<notin> set (cn_log cn)" using late_empty idle_not_connected by auto
  then show ?thesis using assms(1) d(2) by (auto simp: start_tls_def auth_ok_def filter_empty_conv)
qed

lemma auth_ok_on_tls:
  assumes "auth_ok e xp ctx cn" "late_ops cn = []"
  shows "auth_ok e xp ctx (on_tls_handshake react rid ec cn)"
proof (cases ec)
  case None
  let ?cn = "cn\<lparr>cn_limit := Some max_handshake_frame_size, cn_handshake := Some (make_handshake (cn_role cn))\<rparr>"
  have c: "auth_ok e xp ctx ?cn" using assms auth_ok_handshake [of "cn\<lparr>cn_limit := Some max_handshake_frame_size\<rparr>"] by simp
  show ?thesis
  proof (cases "cn_role cn")
    case Client
    have "auth_ok e xp ctx (advance_handshake react res (?cn\<lparr>cn_handshake := Some hs\<rparr>))"
      if start: "handshake_start rid (cn_context cn) (cn_data cn) (make_handshake Client) = Inr (res, hs)" for res hs
    proof -
      obtain p where p: "res = (In_progress, p)" "client_sound e xp ctx (cn_data cn) hs"
        using start unfolding handshake_start_def bindE_eq_Inr by (auto simp: client_sound_def make_handshake_def)
      show ?thesis unfolding p(1)
        by (rule auth_ok_advance [where hs = hs]) (use assms p(2) auth_ok_handshake [of "cn\<lparr>cn_limit := Some max_handshake_frame_size\<rparr>"] Client in \<open>simp_all add: hs_sound_def\<close>)
    qed
    then show ?thesis using c Client by (auto simp: on_tls_handshake_def None Let_def split: sum.splits)
  next
    case Server
    have "hs_sound e xp ctx (cn_role cn) (cn_data cn) (make_handshake (cn_role cn))"
      by (simp add: Server hs_sound_def server_sound_def make_handshake_def)
    then have "auth_ok e xp ctx (start_op Op_handshake_frame ?cn)"
      using c assms(2) unfolding auth_ok_def by (simp add: peer_authentic_def)
    then show ?thesis using Server by (simp add: on_tls_handshake_def None start_sp_handshake_def)
  qed
qed (simp add: on_tls_handshake_def auth_ok_disconnect assms)

lemma auth_ok_on_frame:
  assumes ok: "auth_ok e xp ctx cn" and p: "Op_handshake_frame \<in> set (cn_ops cn)"
  shows "auth_ok e xp ctx (on_handshake_frame e xp react rid r res (cn\<lparr>cn_ops := remove1 Op_handshake_frame (cn_ops cn)\<rparr>))"
proof (cases res)
  case (Inr frame)
  let ?cn = "cn\<lparr>cn_ops := remove1 Op_handshake_frame (cn_ops cn)\<rparr>"
  obtain hs where hs: "cn_handshake cn = Some hs" "hs_sound e xp ctx (cn_role cn) (cn_data cn) hs" and l: "length (late_ops cn) \<le> 1"
    and ctx: "cn_context cn = ctx" using ok p by (auto simp: auth_ok_def)
  obtain st q hs' where step: "handle_packet e xp rid r ctx frame hs = ((st, q), hs')" by (metis prod.exhaust)
  have l0: "late_ops ?cn = []" using late_removed [OF l p] by simp
  have "auth_ok e xp ctx (advance_handshake react (st, q) (?cn\<lparr>cn_handshake := Some hs'\<rparr>))"
    by (rule auth_ok_advance [where hs = hs'])
      (use handshake_step_sound [OF _ hs(2) step] hs_sound_def auth_ok_removed [OF ok] auth_ok_handshake [OF l0] l0 in \<open>simp_all\<close>)
  then show ?thesis by (simp add: on_handshake_frame_def Inr hs(1) ctx step)
qed (simp add: on_handshake_frame_def auth_ok_disconnect auth_ok_removed [OF ok])


lemma auth_ok_complete:
  assumes ok: "auth_ok e xp ctx cn" and own: "owner_ok cn" and p: "p \<in> set (cn_ops cn)"
  shows "auth_ok e xp ctx (complete_op e xp react rid r p res (cn\<lparr>cn_ops := remove1 p (cn_ops cn)\<rparr>))"
proof -
  let ?cn = "cn\<lparr>cn_ops := remove1 p (cn_ops cn)\<rparr>"
  note rm = auth_ok_removed [OF ok, of p]
  have dr: "is_driver p \<Longrightarrow> driving ?cn" using driving_removed [OF own p] .
  have late: "is_late p \<Longrightarrow> late_ops ?cn = []" using late_removed [OF _ p] ok by (simp add: auth_ok_def)
  show ?thesis
    using rm dr late auth_ok_start_tls [OF rm] auth_ok_on_tls [OF rm] auth_ok_on_frame [OF ok] p
    by (cases p)
      (auto simp: complete_op_def on_resolve_def on_connect_def on_start_server_def on_timeout_def on_handshake_sent_def
        on_data_frame_def on_close_later_def on_sent_def send_check_def Let_def auth_ok_disconnect auth_ok_do_close auth_ok_do_send
        auth_ok_receive auth_ok_notify split: option.splits sum.splits)
qed

text \<open>A connection that lost its owner is closed, so that it is not connected again.\<close>

definition closed_ok :: "connection \<Rightarrow> bool" where
  "closed_ok cn \<longleftrightarrow> (cn_disconnected cn \<longrightarrow> cn_is_closed cn)"

lemma closed_ok_simps [simp]:
  "closed_ok (emit f cn) = closed_ok cn" "closed_ok (start_op p cn) = closed_ok cn" "closed_ok (send_push d cn) = closed_ok cn"
  "closed_ok (send_check cn) = closed_ok cn" "closed_ok (receive_data cn) = closed_ok cn" "closed_ok (mark_closed cn)"
  by (simp_all add: closed_ok_def send_push_def send_check_def receive_data_def mark_closed_def)

lemma closed_ok_do_send [simp]: "closed_ok (do_send cn) = closed_ok cn"
  by (simp add: closed_ok_def do_send_def split: list.splits)

lemma closed_ok_do_close: "closed_ok cn \<Longrightarrow> closed_ok (do_close cn)"
  by (simp add: closed_ok_def do_close_def mark_closed_def Let_def)

lemma closed_ok_client_call: "closed_ok cn \<Longrightarrow> closed_ok (client_call c cn)"
  using closed_ok_do_close [of "cn\<lparr>cn_is_closed := True\<rparr>"]
  by (cases c) (simp, simp add: close_on_strand_def closed_ok_def, simp)

lemma closed_ok_notify: "closed_ok cn \<Longrightarrow> closed_ok (notify react f cn)"
  by (auto simp: notify_def intro!: callback_keeps [where P = closed_ok] closed_ok_client_call)

lemma closed_ok_disconnect: "closed_ok cn \<Longrightarrow> closed_ok (disconnect_with react err cn)"
  by (simp add: disconnect_with_def Let_def)

lemma closed_ok_advance: "closed_ok cn \<Longrightarrow> closed_ok (advance_handshake react res cn)"
  by (cases res)
    (auto simp: advance_handshake_def become_connected_def start_sp_handshake_def closed_ok_disconnect Let_def
      intro!: closed_ok_notify, simp_all add: closed_ok_def)


lemma closed_ok_complete:
  assumes "closed_ok cn"
  shows "closed_ok (complete_op e xp react rid r p res (cn\<lparr>cn_ops := ps\<rparr>))"
proof -
  have c: "closed_ok (cn\<lparr>cn_ops := ps\<rparr>)" using assms by (simp add: closed_ok_def)
  have u: "closed_ok (cn\<lparr>cn_ops := ps, cn_writing := b\<rparr>)" "closed_ok (cn\<lparr>cn_ops := ps, cn_limit := l, cn_handshake := h\<rparr>)"
    "closed_ok (cn\<lparr>cn_ops := ps, cn_handshake := h\<rparr>)" "closed_ok (cn\<lparr>cn_ops := ps, cn_role := x, cn_tls := b\<rparr>)"
    "closed_ok (cn\<lparr>cn_ops := ps, cn_is_closed := True\<rparr>)" for b l h x
    using assms by (simp_all add: closed_ok_def)
  show ?thesis
    by (cases p)
      (auto simp: complete_op_def on_resolve_def on_connect_def start_tls_def on_start_server_def on_timeout_def on_handshake_sent_def
        on_tls_handshake_def on_handshake_frame_def start_sp_handshake_def on_data_frame_def on_close_later_def on_sent_def Let_def
        closed_ok_disconnect closed_ok_do_close closed_ok_advance closed_ok_notify c u split: option.splits sum.splits prod.splits)
qed

lemma closed_ok_step: "closed_ok cn \<Longrightarrow> conn_step e xp react cn cn' \<Longrightarrow> closed_ok cn'"
  by (erule conn_step.cases)
    (use closed_ok_client_call [of cn Call_close] in \<open>auto simp: closed_ok_complete\<close>, auto simp: connect_def start_server_handshake_def close_from_elsewhere_def closed_ok_def split: if_splits)

lemma auth_ok_step:
  assumes "auth_ok e xp ctx cn" "owner_ok cn" "closed_ok cn" "conn_step e xp react cn cn'"
  shows "auth_ok e xp ctx cn'"
  using assms(4)
proof cases
  case (step_connect address)
  have own: "cn_client cn" "drivers cn = 0" "\<not> cn_is_connected cn" "On_connected \<notin> set (cn_log cn)"
    using assms(2,3) step_connect idle_not_connected by (auto simp: owner_ok_def closed_ok_def connect_def split: if_splits)
  then have "late_ops cn = []" using late_empty by auto
  moreover from this have "Op_handshake_frame \<notin> set (cn_ops cn)" by (auto simp: filter_empty_conv)
  ultimately show ?thesis using own assms(1) step_connect(2)
    by (auto simp: connect_def auth_ok_def filter_empty_conv split: if_splits)
qed (use assms auth_ok_client_call [of e xp ctx cn Call_close] in
    \<open>auto simp: start_server_handshake_def send_push_def close_from_elsewhere_def auth_ok_complete\<close>)

text \<open>C1: A connection that ever reports itself connected knows its peer as far as its context asks for it: when the handshakes
  enabled in the context are public key handshakes for the side it plays, as they are in every program of the repository, then,
  after any behaviour of the network and of the owner, \<^verbatim>\<open>on_connected\<close> and with it every received message comes only after the
  peer proved the key the connection reports, with a chain this side's stores accept (for the host that was dialled, on the
  client) and a signature of this very TLS channel's binding. Only a server that has switched the authentication of its clients
  off, as the key server does, can have a peer without a key.\<close>

theorem connected_peer_authenticated:
  assumes "conn_reach e xp react (make_connection ctx server info) cn" "On_connected \<in> set (cn_log cn)" "offers_pk ctx (cn_role cn)"
  shows "(\<exists>k cid sid b. cn_remote_key cn = Some k \<and>
      xp binding_label (binding_context (role_byte (other_role (cn_role cn))) cid sid) binding_size = Some b \<and>
      proven e ctx (case cn_role cn of Server \<Rightarrow> None | Client \<Rightarrow> restriction_of (cn_data cn)) b k) \<or>
    (cn_remote_key cn = None \<and> cn_role cn = Server \<and> \<not> ctx_auth_remote ctx)"
proof -
  have "auth_ok e xp ctx cn \<and> owner_ok cn \<and> closed_ok cn"
    by (rule conn_reach_invariant [OF assms(1)])
      (simp add: make_connection_def owner_ok_def auth_ok_def closed_ok_def, use auth_ok_step owner_ok_step closed_ok_step in blast)
  then have "peer_known e xp ctx (cn_role cn) (cn_data cn) (cn_remote_key cn)" using assms(2,3) by (simp add: auth_ok_def peer_authentic_def)
  then show ?thesis by (cases "cn_remote_key cn") (auto simp: peer_known_def exported_def expected_host_def)
qed


section \<open>After the end\<close>

definition callbacks :: "effect list \<Rightarrow> effect list" where
  "callbacks = filter (\<lambda>f. \<not> silent f)"

lemma callbacks_snoc [simp]: "callbacks (fs @ [f]) = callbacks fs @ (if silent f then [] else [f])"
  by (simp add: callbacks_def)

definition down_ok :: "connection \<Rightarrow> bool" where
  "down_ok cn \<longleftrightarrow> (cn_disconnected cn \<longrightarrow> \<not> cn_is_connected cn \<and> cn_state cn \<noteq> Connected)"

lemma down_ok_simps [simp]:
  "down_ok (emit f cn) = down_ok cn" "down_ok (start_op p cn) = down_ok cn" "down_ok (mark_closed (release_transport cn))"
  "down_ok (send_push d cn) = down_ok cn" "down_ok (send_check cn) = down_ok cn" "down_ok (receive_data cn) = down_ok cn"
  by (simp_all add: down_ok_def mark_closed_def send_push_def send_check_def receive_data_def)

lemma down_ok_do_send [simp]: "down_ok (do_send cn) = down_ok cn"
  by (simp add: down_ok_def do_send_def split: list.splits)

lemma down_ok_do_close: "down_ok cn \<Longrightarrow> down_ok (do_close cn)"
  by (simp add: do_close_def Let_def) (simp add: down_ok_def)

lemma down_ok_client_call: "down_ok cn \<Longrightarrow> down_ok (client_call c cn)"
  using down_ok_do_close [of "cn\<lparr>cn_is_closed := True\<rparr>"] by (cases c) (simp, simp add: close_on_strand_def down_ok_def, simp)

lemma client_call_unconnected: "\<not> cn_is_connected cn \<Longrightarrow> \<not> cn_is_connected (client_call c cn)"
  by (cases c) (simp_all add: send_check_def send_push_def close_on_strand_def do_close_def mark_closed_def Let_def)

lemma down_ok_disconnect: "down_ok cn \<Longrightarrow> down_ok (disconnect_with react err cn)"
  using callback_keeps [where P = "\<lambda>cn. \<not> cn_is_connected cn" and f = "On_disconnected err" and cn = "release_transport cn\<lparr>cn_client := False\<rparr>"
      and react = react] client_call_unconnected
  by (simp add: disconnect_with_def Let_def) (auto simp: down_ok_def mark_closed_def)

lemma down_ok_notify: "down_ok cn \<Longrightarrow> down_ok (notify react f cn)"
  by (auto simp: notify_def intro!: callback_keeps [where P = down_ok] down_ok_client_call)

lemma down_ok_advance:
  assumes "down_ok cn" "cn_disconnected cn \<Longrightarrow> fst res \<noteq> Succeeded"
  shows "down_ok (advance_handshake react res cn)"
proof -
  obtain st p where res: "res = (st, p)" by (cases res)
  define cn1 where "cn1 = (if p \<noteq> [] then start_op Op_handshake_sent (emit (Handshake_frame p) cn) else cn)"
  have cn1: "down_ok cn1" "cn_disconnected cn1 = cn_disconnected cn" using assms(1) by (simp_all add: cn1_def)
  have "down_ok (become_connected react cn1)" if "\<not> cn_disconnected cn"
    using that cn1(2) by (simp add: become_connected_def Let_def) (rule down_ok_notify, simp add: down_ok_def)
  then show ?thesis using assms cn1(1)
    by (auto simp: res advance_handshake_def start_sp_handshake_def down_ok_disconnect Let_def simp flip: cn1_def)
qed

lemma handshake_start_progress: "handshake_start rid ctx info hs = Inr (res, hs') \<Longrightarrow> fst res = In_progress"
  by (auto simp: handshake_start_def bindE_eq_Inr)

lemma down_ok_frame:
  assumes "down_ok cn"
  shows "down_ok (on_handshake_frame e xp react rid r (read_result cn res) cn)" "down_ok (on_data_frame react (read_result cn res) cn)"
proof -
  have "down_ok (cn\<lparr>cn_handshake := h\<rparr>)" for h using assms by (simp add: down_ok_def)
  then show "down_ok (on_handshake_frame e xp react rid r (read_result cn res) cn)" "down_ok (on_data_frame react (read_result cn res) cn)"
    using assms by (auto simp: on_handshake_frame_def on_data_frame_def read_result_def down_ok_disconnect down_ok_notify Let_def
        intro!: down_ok_advance split: sum.splits option.splits prod.splits if_splits)
qed

lemma down_ok_complete:
  assumes "down_ok cn"
  shows "down_ok (complete_op e xp react rid r p res (cn\<lparr>cn_ops := ps\<rparr>))"
proof -
  have c: "down_ok (cn\<lparr>cn_ops := ps\<rparr>)" "down_ok (cn\<lparr>cn_ops := ps, cn_writing := b\<rparr>)" "down_ok (cn\<lparr>cn_ops := ps, cn_limit := l, cn_handshake := h\<rparr>)"
    "down_ok (cn\<lparr>cn_ops := ps, cn_role := x, cn_tls := b\<rparr>)" "down_ok (cn\<lparr>cn_ops := ps, cn_is_closed := True\<rparr>)" for b l h x
    using assms by (simp_all add: down_ok_def)
  show ?thesis
    using down_ok_frame [OF c(1)] handshake_start_progress
    by (cases p)
      (auto simp: complete_op_def on_resolve_def on_connect_def start_tls_def on_start_server_def on_timeout_def on_handshake_sent_def
        on_tls_handshake_def start_sp_handshake_def on_close_later_def on_sent_def Let_def
        down_ok_disconnect down_ok_do_close down_ok_notify c intro!: down_ok_advance split: option.splits sum.splits prod.splits, fastforce+)
qed

lemma down_ok_step: "down_ok cn \<Longrightarrow> conn_step e xp react cn cn' \<Longrightarrow> down_ok cn'"
  by (erule conn_step.cases)
    (use down_ok_client_call [of cn Call_close] in \<open>auto simp: down_ok_complete\<close>,
      auto simp: connect_def start_server_handshake_def close_from_elsewhere_def down_ok_def split: if_splits)

text \<open>Once taken down, no handler has anything left to do but to hand frames of the handshake to a closed stream.\<close>

definition muted :: "effect \<Rightarrow> bool" where
  "muted f \<longleftrightarrow> silent f \<and> (\<forall>d. f \<noteq> Data_frame d)"

definition down :: "effect list \<Rightarrow> connection \<Rightarrow> bool" where
  "down fs cn \<longleftrightarrow> cn_disconnected cn \<and> \<not> cn_client cn \<and> \<not> cn_is_connected cn \<and> cn_state cn \<noteq> Connected \<and> cn_is_closed cn \<and>
     (\<exists>new. cn_log cn = fs @ new \<and> list_all muted new)"

lemma down_simps:
  "down fs cn \<Longrightarrow> disconnect_with react err cn = cn" "down fs cn \<Longrightarrow> notify react f cn = cn" "down fs cn \<Longrightarrow> send_check cn = cn"
  "down fs cn \<Longrightarrow> do_send cn = cn" "down fs cn \<Longrightarrow> receive_data cn = cn"
  "down fs cn \<Longrightarrow> close_on_strand cn = cn" "down fs cn \<Longrightarrow> on_close_later react err cn = cn" "down fs cn \<Longrightarrow> close_from_elsewhere cn = cn"
  by (simp_all add: down_def disconnect_with_def notify_def send_check_def do_send_def receive_data_def close_on_strand_def on_close_later_def
      close_from_elsewhere_def split: list.splits)

lemma down_updates [simp]:
  "down fs (start_op p cn) = down fs cn" "down fs (cn\<lparr>cn_ops := ps\<rparr>) = down fs cn" "down fs (cn\<lparr>cn_writing := b\<rparr>) = down fs cn"
  "down fs (cn\<lparr>cn_handshake := h\<rparr>) = down fs cn" "down fs (cn\<lparr>cn_limit := l\<rparr>) = down fs cn"
  by (simp_all add: down_def)

lemma down_emit: "down fs cn \<Longrightarrow> muted f \<Longrightarrow> down fs (emit f cn)"
  by (auto simp: down_def intro: exI [of _ "new @ [f]" for new])

lemma muted_effects [simp]: "muted Session_removed" "muted (Handshake_frame d)" "muted (Queued d)"
  by (simp_all add: muted_def)

lemma down_send_push: "down fs cn \<Longrightarrow> down fs (send_push d cn)"
  using down_emit [of fs "cn\<lparr>cn_out_queue := cn_out_queue cn @ [d]\<rparr>" "Queued d"] by (simp add: send_push_def) (simp add: down_def)

lemma down_do_close: "down fs cn \<Longrightarrow> down fs (do_close cn)"
  by (simp add: down_def do_close_def Let_def)

lemma down_complete:
  assumes "down fs cn"
  shows "down fs (complete_op e xp react rid r p res cn)"
proof -
  have c: "\<not> cn_client cn" "cn_disconnected cn" using assms by (simp_all add: down_def)
  have adv: "down fs (advance_handshake react x (cn\<lparr>cn_limit := l, cn_handshake := h\<rparr>))" if "fst x = In_progress" for x l h
    using that assms by (cases x) (simp add: advance_handshake_def start_sp_handshake_def down_emit Let_def)
  have hs: "fst x = In_progress" if "handshake_start rid (cn_context cn) (cn_data cn) (make_handshake role) = Inr (x, h)" for x h role
    using handshake_start_progress [OF that] .
  have tls: "down fs (on_tls_handshake react rid ec cn)" for ec
    using assms adv hs by (auto simp: on_tls_handshake_def start_sp_handshake_def down_simps [OF assms] Let_def split: option.splits sum.splits)
  have sent: "down fs (on_sent react n ec cn)" for n ec
  proof -
    have "down fs (cn\<lparr>cn_writing := False\<rparr>)" using assms by simp
    then show ?thesis by (simp add: on_sent_def down_simps Let_def split: option.splits)
  qed
  show ?thesis
    using assms tls sent c
    by (cases p)
      (auto simp: complete_op_def read_result_def on_resolve_def on_connect_def on_start_server_def on_timeout_def on_handshake_sent_def
        on_handshake_frame_def on_data_frame_def down_simps [OF assms] down_do_close down_emit Let_def split: option.splits)
qed

lemma down_step: "down fs cn \<Longrightarrow> conn_step e xp react cn cn' \<Longrightarrow> down fs cn'"
  by (erule conn_step.cases)
    (auto simp: down_simps down_complete down_send_push, auto simp: down_def connect_def start_server_handshake_def)

lemma down_reach:
  assumes "conn_reach e xp react (make_connection ctx server info) cn" "cn_disconnected cn" "conn_reach e xp react cn cn'"
  shows "down (cn_log cn) cn'"
proof -
  have "owner_ok cn \<and> closed_ok cn \<and> down_ok cn"
    by (rule conn_reach_invariant [OF assms(1)])
      (simp add: make_connection_def owner_ok_def closed_ok_def down_ok_def, use owner_ok_step closed_ok_step down_ok_step in blast)
  then have "down (cn_log cn) cn"
    using assms(2) by (auto simp: down_def owner_ok_def closed_ok_def down_ok_def split: if_splits)
  then show ?thesis using down_step conn_reach_invariant [where P = "down (cn_log cn)", OF assms(3)] by blast
qed

lemma muted_nothing: "list_all muted new \<Longrightarrow> callbacks new = [] \<and> data_frames new = []"
  by (induction new) (auto simp: muted_def callbacks_def data_frames_def List.map_filter_def split: effect.splits)

text \<open>C18: A connection that has ended stays ended: once it was taken down, by an error, the timeout or a close, whatever
  completes afterwards and whatever the owner still calls, it never reports itself connected again, calls nobody
  back, and hands no further message to the TLS stream.\<close>

theorem disconnected_stays_down:
  assumes "conn_reach e xp react (make_connection ctx server info) cn" "cn_disconnected cn" "conn_reach e xp react cn cn'"
  shows "cn_disconnected cn' \<and> cn_state cn' \<noteq> Connected \<and> \<not> cn_is_connected cn' \<and>
    callbacks (cn_log cn') = callbacks (cn_log cn) \<and> data_frames (cn_log cn') = data_frames (cn_log cn)"
proof -
  obtain new where "cn_log cn' = cn_log cn @ new" "list_all muted new" and d: "down (cn_log cn) cn'"
    using down_reach [OF assms] by (auto simp: down_def)
  then have "callbacks (cn_log cn') = callbacks (cn_log cn)" "data_frames (cn_log cn') = data_frames (cn_log cn)"
    using muted_nothing [of new] by (simp_all add: callbacks_def data_frames_def List.map_filter_def)
  then show ?thesis using d by (simp add: down_def)
qed

section \<open>A server connection\<close>

abbreviation (input) node_channel :: exporter_function where
  "node_channel \<equiv> \<lambda>l c n. Some (node_exporter l c n)"

abbreviation (input) node_server :: connection where
  "node_server \<equiv> make_connection node_context True node_info"

abbreviation (input) quiet :: client where
  "quiet \<equiv> \<lambda>_. []"

lemma node_server_waiting:
  "\<exists>cn p3 p4 s1 s2. conn_reach node_env node_channel quiet node_server cn \<and> cn_client cn \<and> cn_state cn = Connecting \<and>
     Op_timer \<in> set (cn_ops cn) \<and> Op_handshake_frame \<in> set (cn_ops cn) \<and> cn_handshake cn = Some s1 \<and> cn_context cn = node_context \<and>
     handle_packet node_env node_channel [] [] node_context p3 s1 = ((Succeeded, p4), s2)"
proof -
  obtain p1 p2 s1 p3 p4 s2 where run:
    "handle_packet node_env node_channel (replicate 16 7) [] node_context p1 (make_handshake Server) = ((In_progress, p2), s1)"
    "handle_packet node_env node_channel [] [] node_context p3 s1 = ((Succeeded, p4), s2)"
    using pk_run [where f = node_exporter and ?r1.0 = "[]" and rid = "[]" and ?r2.0 = "[]" and ?r3.0 = "[]" and ?r4.0 = "[]", OF node_run] by blast
  let ?step = "\<lambda>p rid res cn. complete_op node_env node_channel quiet rid [] p res (cn\<lparr>cn_ops := remove1 p (cn_ops cn)\<rparr>)"
  let ?reach = "conn_reach node_env node_channel quiet node_server"
  have go: "?reach (?step p rid res cn)" if "?reach cn" "p \<in> set (cn_ops cn)" for p rid res cn
    using reach_step [OF that(1) step_complete [OF that(2)]] .
  define c1 where "c1 = start_server_handshake node_server"
  define c2 where "c2 = ?step Op_start_server [] (Inr []) c1"
  define c3 where "c3 = ?step Op_tls_handshake [] (Inr []) c2"
  define c4 where "c4 = ?step Op_handshake_frame (replicate 16 7) (Inr p1) c3"
  have c1: "?reach c1" "cn_ops c1 = [Op_start_server, Op_timer]" "cn_client c1" "cn_context c1 = node_context" "cn_state c1 = Connecting" "\<not> cn_disconnected c1"
    unfolding c1_def by (rule reach_step [OF reach_start step_serve]) (simp_all add: start_server_handshake_def make_connection_def)
  have c2: "?reach c2" "cn_ops c2 = [Op_tls_handshake, Op_timer]" "cn_client c2" "cn_context c2 = node_context" "cn_state c2 = Connecting" "cn_role c2 = Server" "\<not> cn_disconnected c2"
    using go [OF c1(1), of Op_start_server "[]" "Inr []"] c1(2-) by (simp_all add: c2_def complete_op_def on_start_server_def start_tls_def)
  have c3: "?reach c3" "cn_ops c3 = [Op_handshake_frame, Op_timer]" "cn_client c3" "cn_context c3 = node_context" "cn_state c3 = Connecting"
    "cn_handshake c3 = Some (make_handshake Server)" "\<not> cn_disconnected c3"
    using go [OF c2(1), of Op_tls_handshake "[]" "Inr []"] c2(2-) by (simp_all add: c3_def complete_op_def on_tls_handshake_def start_sp_handshake_def Let_def)
  have c4: "?reach c4" "set (cn_ops c4) \<supseteq> {Op_handshake_frame, Op_timer}" "cn_client c4" "cn_context c4 = node_context" "cn_state c4 = Connecting"
    "cn_handshake c4 = Some s1"
    using go [OF c3(1), of Op_handshake_frame "replicate 16 7" "Inr p1"] c3(2-) run(1)
    by (simp_all add: c4_def complete_op_def read_result_def on_handshake_frame_def advance_handshake_def start_sp_handshake_def Let_def)
  show ?thesis using c4 run(2) by blast
qed

lemma node_server_connected:
  "\<exists>cn. conn_reach node_env node_channel quiet node_server cn \<and> On_connected \<in> set (cn_log cn) \<and> cn_is_connected cn \<and> \<not> cn_disconnected cn"
proof -
  obtain cn p3 p4 s1 s2 where w: "conn_reach node_env node_channel quiet node_server cn" "cn_client cn"
    "Op_handshake_frame \<in> set (cn_ops cn)" "cn_handshake cn = Some s1" "cn_context cn = node_context"
    "handle_packet node_env node_channel [] [] node_context p3 s1 = ((Succeeded, p4), s2)"
    using node_server_waiting by blast
  have d: "\<not> cn_disconnected cn" using owner_ok_reach [OF w(1)] w(2) by (simp add: owner_ok_def split: if_splits)
  let ?cn = "complete_op node_env node_channel quiet [] [] Op_handshake_frame (Inr p3) (cn\<lparr>cn_ops := remove1 Op_handshake_frame (cn_ops cn)\<rparr>)"
  have "conn_reach node_env node_channel quiet node_server ?cn" by (rule reach_step [OF w(1) step_complete [OF w(3)]])
  moreover have "On_connected \<in> set (cn_log ?cn)" "cn_is_connected ?cn" "\<not> cn_disconnected ?cn"
    using w d
    by (simp_all add: complete_op_def read_result_def on_handshake_frame_def advance_handshake_def become_connected_def notify_def callback_def receive_data_def
        do_send_def Let_def split: list.splits)
  ultimately show ?thesis by blast
qed

theorem connection_callbacks_ordered_witness:
  "\<exists>cn :: connection. On_connected \<in> set (cn_log cn) \<and> phase_of (cn_log cn) \<noteq> None"
  using node_server_connected connection_callbacks_ordered by blast

theorem connection_sends_in_order_witness:
  "\<exists>cn :: connection. queued (cn_log cn) = [[1, 2]] \<and> queued (cn_log cn) = data_frames (cn_log cn) @ cn_out_queue cn"
proof -
  have r: "conn_reach node_env node_channel quiet node_server (start_op Op_send_check (send_push [1, 2] node_server))"
    by (rule reach_step [OF reach_start step_send])
  show ?thesis
    by (rule exI [of _ "start_op Op_send_check (send_push [1, 2] node_server)"])
      (use connection_sends_in_order [OF r] in \<open>simp add: send_push_def make_connection_def queued_def List.map_filter_def\<close>)
qed

theorem connection_no_message_stuck_witness:
  "\<exists>cn :: connection. cn_is_connected cn \<and> cn_out_queue cn \<noteq> [] \<and>
     (sent_ops (cn_ops cn) \<noteq> [] \<or> Op_do_send \<in> set (cn_ops cn) \<or> Op_send_check \<in> set (cn_ops cn))"
proof -
  obtain cn where cn: "conn_reach node_env node_channel quiet node_server cn" "cn_is_connected cn" "\<not> cn_disconnected cn"
    using node_server_connected by blast
  let ?cn = "start_op Op_send_check (send_push [1, 2] cn)"
  have r: "conn_reach node_env node_channel quiet node_server ?cn" by (rule reach_step [OF cn(1) step_send])
  have "cn_is_connected ?cn" "\<not> cn_disconnected ?cn" "cn_out_queue ?cn \<noteq> []" using cn by (simp_all add: send_push_def)
  then show ?thesis using connection_no_message_stuck [OF r] by blast
qed

lemma node_offers: "offers_pk node_context role"
  by (simp add: node_context_def offers_pk_enabled)

theorem connected_peer_authenticated_witness:
  "\<exists>(cn :: connection) k. On_connected \<in> set (cn_log cn) \<and> cn_remote_key cn = Some k"
proof -
  obtain cn where cn: "conn_reach node_env node_channel quiet node_server cn" "On_connected \<in> set (cn_log cn)"
    using node_server_connected by blast
  from connected_peer_authenticated [OF cn node_offers] show ?thesis using cn(2) node_context_fields by blast
qed

theorem disconnected_stays_down_witness:
  "\<exists>(cn :: connection) (cn' :: connection). On_disconnected Timed_out \<in> set (cn_log cn) \<and> length (cn_log cn) < length (cn_log cn') \<and>
     callbacks (cn_log cn') = callbacks (cn_log cn) \<and> cn_state cn' \<noteq> Connected"
proof -
  define c0 where "c0 = start_server_handshake node_server"
  define c1 where "c1 = complete_op node_env node_channel quiet [] [] Op_timer (Inr []) (c0\<lparr>cn_ops := remove1 Op_timer (cn_ops c0)\<rparr>)"
  define c2 where "c2 = start_op Op_send_check (send_push [1, 2] c1)"
  have r0: "conn_reach node_env node_channel quiet node_server c0"
    unfolding c0_def by (rule reach_step [OF reach_start step_serve]) (simp add: make_connection_def)
  have ops: "Op_timer \<in> set (cn_ops c0)" by (simp add: c0_def start_server_handshake_def)
  have r1: "conn_reach node_env node_channel quiet node_server c1"
    unfolding c1_def by (rule reach_step [OF r0 step_complete [OF ops]])
  have r2: "conn_reach node_env node_channel quiet c1 c2"
    unfolding c2_def by (rule reach_step [OF reach_start step_send])
  have c1: "cn_disconnected c1" "On_disconnected Timed_out \<in> set (cn_log c1)"
    by (simp_all add: c1_def c0_def start_server_handshake_def make_connection_def complete_op_def on_timeout_def disconnect_with_def
        callback_def mark_closed_def emit_def release_transport_def start_op_def)
  have "length (cn_log c1) < length (cn_log c2)" by (simp add: c2_def send_push_def)
  with disconnected_stays_down [OF r1 c1(1) r2] c1(2) show ?thesis by blast
qed

end
