(* ===== verification/Packet_Storage.thy ===== *)
theory Packet_Storage
  imports Crypto_Wire
begin

text \<open>
  The packet server's store, \<^verbatim>\<open>infrastructure/packet_transport/server/server_lib/packet_storage.cpp\<close>: packets are
  queued, a writer thread moves them to a database, and an acknowledged packet is removed wherever it is by then. The
  steps of the writer are the atomic sections of the code, so that the calls of other threads come between any
  two of them. The database is an argument; what is relied on is the locale \<open>packet_table\<close>.
\<close>

section \<open>Payloads\<close>

record transport_payload =
  tp_data :: enveloped_content
  tp_signature :: signature

definition encrypted_key_ty :: ty where
  "encrypted_key_ty = T_seq [T_uint 4, id_ty, T_octets]"

definition enveloped_content_ty :: ty where
  "enveloped_content_ty = T_seq [T_uint 4, T_container encrypted_key_ty, T_octets, T_octets, T_octets]"

definition transport_payload_ty :: ty where
  "transport_payload_ty = T_seq [enveloped_content_ty, signature_ty]"

definition encrypted_key_val :: "encrypted_key \<Rightarrow> val" where
  "encrypted_key_val k = V_seq [V_int (ek_version k), id_val (ek_key_id k), V_octets (ek_data k)]"

definition enveloped_content_val :: "enveloped_content \<Rightarrow> val" where
  "enveloped_content_val ev = V_seq [V_int (ev_version ev), V_seq (map encrypted_key_val (ev_keys ev)), V_octets (ev_iv ev),
     V_octets (ev_encrypted ev), V_octets (ev_tag ev)]"

definition transport_payload_val :: "transport_payload \<Rightarrow> val" where
  "transport_payload_val p = V_seq [enveloped_content_val (tp_data p), signature_val (tp_signature p)]"

definition encrypted_key_of :: "val \<Rightarrow> crypto_error + encrypted_key" where
  "encrypted_key_of v = (case v of
       V_seq [V_int ver, i, V_octets d] \<Rightarrow> bindE (id_of i) (\<lambda>i. Inr \<lparr>ek_version = ver, ek_key_id = i, ek_data = d\<rparr>)
     | _ \<Rightarrow> bad_value)"

definition enveloped_content_of :: "val \<Rightarrow> crypto_error + enveloped_content" where
  "enveloped_content_of v = (case v of
       V_seq [V_int ver, V_seq ks, V_octets iv, V_octets d, V_octets t] \<Rightarrow>
         bindE (mapE encrypted_key_of ks) (\<lambda>ks.
           Inr \<lparr>ev_version = ver, ev_keys = ks, ev_iv = iv, ev_encrypted = d, ev_tag = t\<rparr>)
     | _ \<Rightarrow> bad_value)"

definition transport_payload_of :: "val \<Rightarrow> crypto_error + transport_payload" where
  "transport_payload_of v = (case v of
       V_seq [d, s] \<Rightarrow>
         bindE (enveloped_content_of d) (\<lambda>d. bindE (signature_of s) (\<lambda>s. Inr \<lparr>tp_data = d, tp_signature = s\<rparr>))
     | _ \<Rightarrow> bad_value)"

section \<open>State\<close>

text \<open>The callback \<^verbatim>\<open>notify\<close> is known by the number of the connection it was made for.\<close>

record queued_packet =
  qp_receiver :: octets
  qp_packet :: transport_payload
  qp_notify :: nat
  qp_ack :: int
  qp_sender_ack :: int
  qp_sender :: octets

text \<open>The weak pointer of a handle was set when the handle came from the queue.\<close>

record packet_handle =
  ph_ack :: int
  ph_packet :: bool

record stored_packet =
  sp_handle :: packet_handle
  sp_packet :: transport_payload

text \<open>The statements of the code: insert a row, delete by key, select by receiver in descending order, the greatest key.\<close>

record 'd packet_db =
  db_insert :: "int \<Rightarrow> octets \<Rightarrow> octets \<Rightarrow> 'd \<Rightarrow> 'd option"
  db_delete :: "int \<Rightarrow> 'd \<Rightarrow> 'd"
  db_select :: "octets \<Rightarrow> 'd \<Rightarrow> (int \<times> octets) list"
  db_max :: "'d \<Rightarrow> int option"

text \<open>Where the writer thread is, with what it holds.\<close>

datatype writer =
    W_idle
  | W_taken "queued_packet option" int
  | W_writing queued_packet int
  | W_removing int
  | W_stopped

record 'd packet_storage =
  ps_db :: 'd
  ps_close :: bool
  ps_sequence :: int
  ps_queue :: "queued_packet list"
  ps_remove_queue :: "int list"
  ps_index :: "(octets \<times> int) list"
  ps_flags :: "int set"
  ps_writer :: writer
  ps_notified :: "(nat \<times> octets \<times> int) list"

definition make_storage :: "'d packet_db \<Rightarrow> 'd \<Rightarrow> 'd packet_storage" where
  "make_storage D d =
     \<lparr>ps_db = d, ps_close = False, ps_sequence = (case db_max D d of None \<Rightarrow> 0 | Some m \<Rightarrow> m), ps_queue = [], ps_remove_queue = [],
      ps_index = [], ps_flags = {}, ps_writer = W_idle, ps_notified = []\<rparr>"

definition in_hand :: "writer \<Rightarrow> queued_packet list" where
  "in_hand w = (case w of W_taken (Some p) _ \<Rightarrow> [p] | W_writing p _ \<Rightarrow> [p] | _ \<Rightarrow> [])"

text \<open>A weak pointer can be locked while the queue or the writer owns the packet.\<close>

definition alive :: "int \<Rightarrow> 'd packet_storage \<Rightarrow> queued_packet option" where
  "alive a st = find (\<lambda>p. qp_ack p = a) (ps_queue st @ in_hand (ps_writer st))"

section \<open>Operations\<close>

definition storage_insert :: "octets \<Rightarrow> transport_payload \<Rightarrow> int \<Rightarrow> octets \<Rightarrow> nat \<Rightarrow> 'd packet_storage \<Rightarrow> packet_handle \<times> 'd packet_storage" where
  "storage_insert receiver packet sender_ack sender notify st =
     (let a = ps_sequence st + 1;
          p = \<lparr>qp_receiver = receiver, qp_packet = packet, qp_notify = notify, qp_ack = a, qp_sender_ack = sender_ack, qp_sender = sender\<rparr>
      in (\<lparr>ph_ack = a, ph_packet = True\<rparr>,
          st\<lparr>ps_sequence := a, ps_index := ps_index st @ [(receiver, a)], ps_queue := ps_queue st @ [p]\<rparr>))"

text \<open>\<^verbatim>\<open>remove\<close> sets the flag and enters the removal under two different locks; here they are one step. Nothing is lost by that: the
  flag is never cleared, and the writer sets it before it lets go of a packet, so that a removal that is entered later is one
  that is decided later, and one that only sets the flag is over with that.\<close>

definition storage_remove :: "int \<Rightarrow> bool \<Rightarrow> 'd packet_storage \<Rightarrow> 'd packet_storage" where
  "storage_remove a has_packet st =
     (let lives = has_packet \<and> alive a st \<noteq> None;
          flag = (if lives then a \<in> ps_flags st else True);
          st = (if lives then st\<lparr>ps_flags := insert a (ps_flags st)\<rparr> else st)
      in if flag then st\<lparr>ps_remove_queue := ps_remove_queue st @ [a]\<rparr> else st)"

definition mark_as_acked :: "packet_handle \<Rightarrow> 'd packet_storage \<Rightarrow> 'd packet_storage" where
  "mark_as_acked h st = storage_remove (ph_ack h) (ph_packet h) st"

definition pending_from_index :: "octets \<Rightarrow> 'd packet_storage \<Rightarrow> stored_packet list" where
  "pending_from_index receiver st =
     List.map_filter (\<lambda>(r, a). if r = receiver
       then (case alive a st of None \<Rightarrow> None
             | Some p \<Rightarrow> Some \<lparr>sp_handle = \<lparr>ph_ack = qp_ack p, ph_packet = True\<rparr>, sp_packet = qp_packet p\<rparr>)
       else None) (ps_index st)"

text \<open>A row that cannot be read is skipped; every other one goes to the front.\<close>

definition row_packet :: "int \<times> octets \<Rightarrow> stored_packet option" where
  "row_packet = (\<lambda>(a, b). case read_der transport_payload_ty transport_payload_of b of
       Inl _ \<Rightarrow> None
     | Inr p \<Rightarrow> Some \<lparr>sp_handle = \<lparr>ph_ack = a, ph_packet = False\<rparr>, sp_packet = p\<rparr>)"

definition pending_from_db :: "'d packet_db \<Rightarrow> octets \<Rightarrow> 'd \<Rightarrow> stored_packet list" where
  "pending_from_db D receiver d = rev (List.map_filter row_packet (db_select D receiver d))"

text \<open>\<^verbatim>\<open>std::unique\<close> on the acknowledgement numbers keeps the first of equal neighbours.\<close>

fun unique_acks :: "stored_packet list \<Rightarrow> stored_packet list" where
  "unique_acks (x # y # xs) =
     (if ph_ack (sp_handle x) = ph_ack (sp_handle y) then unique_acks (x # xs) else x # unique_acks (y # xs))"
| "unique_acks xs = xs"

definition merge_pending :: "stored_packet list \<Rightarrow> stored_packet list \<Rightarrow> stored_packet list" where
  "merge_pending from_db from_index = unique_acks (sort_key (\<lambda>x. ph_ack (sp_handle x)) (from_db @ from_index))"

text \<open>The index is read under the lock, the database later: other threads may run in between.\<close>

definition get_pending_packets :: "'d packet_db \<Rightarrow> octets \<Rightarrow> 'd packet_storage \<Rightarrow> 'd packet_storage \<Rightarrow> stored_packet list" where
  "get_pending_packets D receiver st later =
     merge_pending (pending_from_db D receiver (ps_db later)) (pending_from_index receiver st)"

section \<open>The writer thread\<close>

definition remove_from_index :: "octets \<Rightarrow> int \<Rightarrow> (octets \<times> int) list \<Rightarrow> (octets \<times> int) list" where
  "remove_from_index r a is = remove1 (r, a) is"

definition next_packet :: "'d packet_storage \<Rightarrow> (bool \<times> queued_packet option \<times> int \<times> 'd packet_storage) option" where
  "next_packet st =
     (if \<not> ps_close st \<and> ps_queue st = [] \<and> ps_remove_queue st = [] then None
      else
        let (p, st) = (case ps_queue st of
                         [] \<Rightarrow> (None, st)
                       | p # ps \<Rightarrow> (Some p, st\<lparr>ps_queue := ps, ps_index := remove_from_index (qp_receiver p) (qp_ack p) (ps_index st)\<rparr>));
            (a, st) = (case ps_remove_queue st of [] \<Rightarrow> (0, st) | a # as \<Rightarrow> (a, st\<lparr>ps_remove_queue := as\<rparr>))
        in Some (\<not> ps_close st, p, a, st))"

definition write_to_database :: "'d packet_db \<Rightarrow> queued_packet \<Rightarrow> 'd \<Rightarrow> 'd option" where
  "write_to_database D p d =
     (case write_der transport_payload_ty (transport_payload_val (qp_packet p)) of
        Inl _ \<Rightarrow> None
      | Inr b \<Rightarrow> db_insert D (qp_ack p) (qp_receiver p) b d)"

definition notify_sender :: "queued_packet \<Rightarrow> 'd packet_storage \<Rightarrow> 'd packet_storage" where
  "notify_sender p st = st\<lparr>ps_notified := ps_notified st @ [(qp_notify p, qp_sender p, qp_sender_ack p)]\<rparr>"

text \<open>The body of the loop, one atomic action at a time; \<^const>\<open>None\<close> while the thread waits or is done.\<close>

definition writer_step :: "'d packet_db \<Rightarrow> 'd packet_storage \<Rightarrow> 'd packet_storage option" where
  "writer_step D st = (case ps_writer st of
       W_idle \<Rightarrow>
         (case next_packet st of
            None \<Rightarrow> None
          | Some (True, p, a, st) \<Rightarrow> Some (st\<lparr>ps_writer := W_taken p a\<rparr>)
          | Some (False, p, a, st) \<Rightarrow> Some (st\<lparr>ps_writer := W_stopped\<rparr>))
     | W_taken None a \<Rightarrow> Some (st\<lparr>ps_writer := W_removing a\<rparr>)
     | W_taken (Some p) a \<Rightarrow>
         if qp_ack p \<in> ps_flags st then Some (notify_sender p (st\<lparr>ps_writer := W_removing a\<rparr>))
         else Some (st\<lparr>ps_flags := insert (qp_ack p) (ps_flags st), ps_writer := W_writing p a\<rparr>)
     | W_writing p a \<Rightarrow>
         (case write_to_database D p (ps_db st) of
            None \<Rightarrow> Some (st\<lparr>ps_writer := W_removing a\<rparr>)
          | Some d \<Rightarrow> Some (notify_sender p (st\<lparr>ps_db := d, ps_writer := W_removing a\<rparr>)))
     | W_removing a \<Rightarrow> Some (st\<lparr>ps_db := (if a \<noteq> 0 then db_delete D a (ps_db st) else ps_db st), ps_writer := W_idle\<rparr>)
     | W_stopped \<Rightarrow> None)"

section \<open>Closing\<close>

definition purge_packet :: "'d packet_db \<Rightarrow> queued_packet \<Rightarrow> 'd packet_storage \<Rightarrow> 'd packet_storage" where
  "purge_packet D p st =
     (if qp_ack p \<in> ps_flags st then st
      else st\<lparr>ps_flags := insert (qp_ack p) (ps_flags st),
              ps_db := (case write_to_database D p (ps_db st) of None \<Rightarrow> ps_db st | Some d \<Rightarrow> d)\<rparr>)"

definition purge_queues :: "'d packet_db \<Rightarrow> 'd packet_storage \<Rightarrow> 'd packet_storage" where
  "purge_queues D st =
     (let st = (fold (purge_packet D) (ps_queue st) st)\<lparr>ps_queue := []\<rparr>
      in st\<lparr>ps_db := fold (db_delete D) (ps_remove_queue st) (ps_db st), ps_remove_queue := []\<rparr>)"

text \<open>\<^verbatim>\<open>close\<close> asks the thread to stop, waits until it has, and empties the queues itself.\<close>

definition storage_close :: "'d packet_storage \<Rightarrow> 'd packet_storage" where
  "storage_close st = st\<lparr>ps_close := True\<rparr>"

section \<open>What the database promises\<close>

text \<open>A statement on the table does not fail for reasons of its own: a row with a new key is inserted, and a row is deleted when
  that is asked for. \<open>db_insert\<close> refuses a key that is taken.\<close>

locale packet_table =
  fixes D :: "'d packet_db" and rows :: "'d \<Rightarrow> int \<Rightarrow> (octets \<times> octets) option"
  assumes insert_fresh: "rows d a = None \<Longrightarrow> \<exists>d'. db_insert D a r b d = Some d' \<and> rows d' = (rows d)(a \<mapsto> (r, b))"
    and delete_row: "rows (db_delete D a d) = (rows d)(a := None)"
    and select_rows: "set (db_select D r d) = {(a, b). rows d a = Some (r, b)}"
    and select_keys: "distinct (map fst (db_select D r d))"
    and max_row: "rows d a \<noteq> None \<Longrightarrow> \<exists>m. db_max D d = Some m \<and> a \<le> m"
    and max_exists: "db_max D d = Some m \<Longrightarrow> rows d m \<noteq> None"

text \<open>A table kept as a list of rows by descending key.\<close>

type_synonym row_list = "(int \<times> octets \<times> octets) list"

definition list_insert :: "int \<Rightarrow> octets \<Rightarrow> octets \<Rightarrow> row_list \<Rightarrow> row_list option" where
  "list_insert a r b d = (if map_of d a \<noteq> None then None else Some ((a, r, b) # d))"

definition list_select :: "octets \<Rightarrow> row_list \<Rightarrow> (int \<times> octets) list" where
  "list_select r d = List.map_filter (\<lambda>a. case map_of d a of Some (r', b) \<Rightarrow> if r' = r then Some (a, b) else None | None \<Rightarrow> None)
     (rev (sort (remdups (map fst d))))"

lemma map_fst_select: "map fst (list_select r d) = filter (\<lambda>a. \<exists>b. map_of d a = Some (r, b)) (rev (sort (remdups (map fst d))))"
proof -
  have "map fst (List.map_filter (\<lambda>a. case map_of d a of Some (r', b) \<Rightarrow> if r' = r then Some (a, b) else None | None \<Rightarrow> None) as) =
      filter (\<lambda>a. \<exists>b. map_of d a = Some (r, b)) as" for as
    by (induction as) (auto simp: List.map_filter_def split: option.splits if_splits)
  then show ?thesis by (simp add: list_select_def)
qed

definition list_table :: "row_list packet_db" where
  "list_table = \<lparr>db_insert = list_insert, db_delete = (\<lambda>a. filter (\<lambda>x. fst x \<noteq> a)),
     db_select = list_select,
     db_max = (\<lambda>d. if d = [] then None else Some (Max (fst ` set d)))\<rparr>"

interpretation rl: packet_table list_table map_of
proof
  fix d :: row_list and a r b
  show "map_of d a = None \<Longrightarrow> \<exists>d'. db_insert list_table a r b d = Some d' \<and> map_of d' = (map_of d)(a \<mapsto> (r, b))"
    by (simp add: list_table_def list_insert_def)
  show "map_of (db_delete list_table a d) = (map_of d)(a := None)"
    by (induction d) (auto simp: list_table_def)
  show "set (db_select list_table r d) = {(a, b). map_of d a = Some (r, b)}"
    by (auto simp: list_table_def list_select_def List.map_filter_def split: option.splits if_splits)
      (force simp: image_iff dest: map_of_SomeD)
  show "distinct (map fst (db_select list_table r d))"
    by (simp add: list_table_def map_fst_select)
  have m: "d \<noteq> [] \<Longrightarrow> Max (fst ` set d) \<in> fst ` set d" by simp
  show "map_of d a \<noteq> None \<Longrightarrow> \<exists>m. db_max list_table d = Some m \<and> a \<le> m"
  proof -
    assume "map_of d a \<noteq> None"
    then have "a \<in> fst ` set d" by (metis map_of_eq_None_iff)
    then show ?thesis by (auto simp: list_table_def)
  qed
  show "db_max list_table d = Some m \<Longrightarrow> map_of d m \<noteq> None" for m
    using m by (auto simp: list_table_def map_of_eq_None_iff split: if_splits)
qed

section \<open>The store in use\<close>

text \<open>
  The store with its users: the handles they were given, the packets they acknowledged, and every packet that was
  ever put in.
\<close>

record 'd storage_system =
  sy_storage :: "'d packet_storage"
  sy_handles :: "packet_handle set"
  sy_acked :: "int set"
  sy_packets :: "int \<Rightarrow> (octets \<times> transport_payload) option"

abbreviation sy_db :: "'d storage_system \<Rightarrow> 'd" where
  "sy_db sy \<equiv> ps_db (sy_storage sy)"

definition payload_ok :: "transport_payload \<Rightarrow> bool" where
  "payload_ok p \<longleftrightarrow> (\<exists>b. write_der transport_payload_ty (transport_payload_val p) = Inr b \<and>
     read_der transport_payload_ty transport_payload_of b = Inr p)"

inductive storage_step :: "'d packet_db \<Rightarrow> 'd storage_system \<Rightarrow> 'd storage_system \<Rightarrow> bool" for D :: "'d packet_db" where
  put: "payload_ok p \<Longrightarrow> storage_insert r p sa s n (sy_storage sy) = (h, st) \<Longrightarrow>
    storage_step D sy (sy\<lparr>sy_storage := st, sy_handles := insert h (sy_handles sy), sy_packets := (sy_packets sy)(ph_ack h \<mapsto> (r, p))\<rparr>)"
| see_queued: "x \<in> set (pending_from_index r (sy_storage sy)) \<Longrightarrow>
    storage_step D sy (sy\<lparr>sy_handles := insert (sp_handle x) (sy_handles sy)\<rparr>)"
| see_row: "x \<in> set (pending_from_db D r (sy_db sy)) \<Longrightarrow>
    storage_step D sy (sy\<lparr>sy_handles := insert (sp_handle x) (sy_handles sy)\<rparr>)"
| acknowledge: "h \<in> sy_handles sy \<Longrightarrow>
    storage_step D sy (sy\<lparr>sy_storage := mark_as_acked h (sy_storage sy), sy_acked := insert (ph_ack h) (sy_acked sy)\<rparr>)"
| writes: "writer_step D (sy_storage sy) = Some st \<Longrightarrow> storage_step D sy (sy\<lparr>sy_storage := st\<rparr>)"

inductive storage_reach :: "'d packet_db \<Rightarrow> 'd storage_system \<Rightarrow> 'd storage_system \<Rightarrow> bool"
  for D :: "'d packet_db" and start :: "'d storage_system" where
  here: "storage_reach D start start"
| onward: "storage_reach D start sy \<Longrightarrow> storage_step D sy sy' \<Longrightarrow> storage_reach D start sy'"

text \<open>The start on a database that holds the packets \<open>P\<close>.\<close>

definition start_system :: "'d packet_db \<Rightarrow> 'd \<Rightarrow> (int \<Rightarrow> (octets \<times> transport_payload) option) \<Rightarrow> 'd storage_system" where
  "start_system D d P = \<lparr>sy_storage = make_storage D d, sy_handles = {}, sy_acked = {}, sy_packets = P\<rparr>"

definition table_holds :: "('d \<Rightarrow> int \<Rightarrow> (octets \<times> octets) option) \<Rightarrow> 'd \<Rightarrow> (int \<Rightarrow> (octets \<times> transport_payload) option) \<Rightarrow> bool" where
  "table_holds rows d P \<longleftrightarrow> (\<forall>a. rows d a = None \<longleftrightarrow> P a = None) \<and> (\<forall>a. P a \<noteq> None \<longrightarrow> 0 < a) \<and>
     (\<forall>a r b. rows d a = Some (r, b) \<longrightarrow> (\<exists>p. P a = Some (r, p) \<and> read_der transport_payload_ty transport_payload_of b = Inr p))"

definition acks :: "queued_packet list \<Rightarrow> int list" where
  "acks = map qp_ack"

lemma acks_simps [simp]: "acks [] = []" "acks (p # ps) = qp_ack p # acks ps" "acks (ps @ qs) = acks ps @ acks qs"
  by (simp_all add: acks_def)

definition to_remove :: "'d packet_storage \<Rightarrow> int set" where
  "to_remove st = set (ps_remove_queue st) \<union> (case ps_writer st of W_taken _ a \<Rightarrow> {a} | W_writing _ a \<Rightarrow> {a} | W_removing a \<Rightarrow> {a} | _ \<Rightarrow> {}) - {0}"

text \<open>The packets the writer has not yet decided to write.\<close>

definition undecided :: "'d packet_storage \<Rightarrow> queued_packet list" where
  "undecided st = (case ps_writer st of W_taken (Some p) _ \<Rightarrow> [p] | _ \<Rightarrow> []) @ ps_queue st"

definition writing_now :: "'d packet_storage \<Rightarrow> queued_packet list" where
  "writing_now st = (case ps_writer st of W_writing p _ \<Rightarrow> [p] | _ \<Rightarrow> [])"

definition in_flight :: "'d packet_storage \<Rightarrow> queued_packet list" where
  "in_flight st = writing_now st @ undecided st"

lemma alive_iff: "alive a st \<noteq> None \<longleftrightarrow> a \<in> set (acks (in_flight st))"
  by (auto simp: alive_def find_None_iff in_flight_def writing_now_def undecided_def in_hand_def acks_def image_iff
      split: writer.splits option.splits)

text \<open>The parts of the invariant: numbering, where packets are, what is flagged, what will be removed.\<close>

definition numbered :: "('d \<Rightarrow> int \<Rightarrow> (octets \<times> octets) option) \<Rightarrow> 'd storage_system \<Rightarrow> bool" where
  "numbered rows sy \<longleftrightarrow>
     (\<forall>a. sy_packets sy a \<noteq> None \<longrightarrow> 0 < a \<and> a \<le> ps_sequence (sy_storage sy)) \<and> 0 \<le> ps_sequence (sy_storage sy) \<and>
     distinct (acks (in_flight (sy_storage sy))) \<and>
     (\<forall>a \<in> set (acks (in_flight (sy_storage sy))). rows (sy_db sy) a = None) \<and>
     ps_index (sy_storage sy) = map (\<lambda>p. (qp_receiver p, qp_ack p)) (ps_queue (sy_storage sy)) \<and>
     \<not> ps_close (sy_storage sy) \<and> ps_writer (sy_storage sy) \<noteq> W_stopped"

definition placed :: "('d \<Rightarrow> int \<Rightarrow> (octets \<times> octets) option) \<Rightarrow> 'd storage_system \<Rightarrow> bool" where
  "placed rows sy \<longleftrightarrow>
     (\<forall>p \<in> set (in_flight (sy_storage sy)). sy_packets sy (qp_ack p) = Some (qp_receiver p, qp_packet p) \<and> payload_ok (qp_packet p)) \<and>
     (\<forall>a r b. rows (sy_db sy) a = Some (r, b) \<longrightarrow>
        (\<exists>p. sy_packets sy a = Some (r, p) \<and> read_der transport_payload_ty transport_payload_of b = Inr p)) \<and>
     (\<forall>a. sy_packets sy a \<noteq> None \<and> a \<notin> sy_acked sy \<longrightarrow> a \<in> set (acks (in_flight (sy_storage sy))) \<or> rows (sy_db sy) a \<noteq> None)"

definition flags_right :: "'d storage_system \<Rightarrow> bool" where
  "flags_right sy \<longleftrightarrow> ps_flags (sy_storage sy) \<subseteq> dom (sy_packets sy) \<and>
     (\<forall>a \<in> set (acks (undecided (sy_storage sy))). a \<in> ps_flags (sy_storage sy) \<longleftrightarrow> a \<in> sy_acked sy) \<and>
     (\<forall>a \<in> set (acks (writing_now (sy_storage sy))). a \<in> ps_flags (sy_storage sy)) \<and>
     (\<forall>h \<in> sy_handles sy. ph_ack h \<in> dom (sy_packets sy) \<and> (\<not> ph_packet h \<longrightarrow> ph_ack h \<notin> set (acks (in_flight (sy_storage sy)))))"

definition removable :: "('d \<Rightarrow> int \<Rightarrow> (octets \<times> octets) option) \<Rightarrow> 'd storage_system \<Rightarrow> bool" where
  "removable rows sy \<longleftrightarrow> to_remove (sy_storage sy) \<subseteq> sy_acked sy \<and>
     (\<forall>a \<in> sy_acked sy. rows (sy_db sy) a \<noteq> None \<or> a \<in> set (acks (writing_now (sy_storage sy))) \<longrightarrow> a \<in> to_remove (sy_storage sy)) \<and>
     sy_acked sy \<subseteq> dom (sy_packets sy)"

definition storage_ok :: "('d \<Rightarrow> int \<Rightarrow> (octets \<times> octets) option) \<Rightarrow> 'd storage_system \<Rightarrow> bool" where
  "storage_ok rows sy \<longleftrightarrow> numbered rows sy \<and> placed rows sy \<and> flags_right sy \<and> removable rows sy"

lemmas storage_parts = in_flight_def writing_now_def undecided_def to_remove_def
lemmas storage_ok_defs = storage_ok_def numbered_def placed_def flags_right_def removable_def

lemma storage_ok_old:
  assumes "storage_ok rows sy" "sy_packets sy a = None"
  shows "rows (sy_db sy) a = None" "a \<notin> set (acks (in_flight (sy_storage sy)))" "a \<notin> sy_acked sy" "a \<notin> ps_flags (sy_storage sy)"
proof -
  show "rows (sy_db sy) a = None" using assms by (cases "rows (sy_db sy) a") (force simp: storage_ok_def placed_def)+
  show "a \<notin> set (acks (in_flight (sy_storage sy)))" using assms by (force simp: storage_ok_def placed_def acks_def)
  show "a \<notin> sy_acked sy" "a \<notin> ps_flags (sy_storage sy)"
    using assms by (auto simp: storage_ok_def removable_def flags_right_def)
qed

lemma insert_ok:
  assumes "storage_ok rows sy" "payload_ok p" "storage_insert r p sa s n (sy_storage sy) = (h, st)"
  shows "storage_ok rows (sy\<lparr>sy_storage := st, sy_handles := insert h (sy_handles sy), sy_packets := (sy_packets sy)(ph_ack h \<mapsto> (r, p))\<rparr>)"
proof -
  define a where "a = ps_sequence (sy_storage sy) + 1"
  define q where "q = \<lparr>qp_receiver = r, qp_packet = p, qp_notify = n, qp_ack = a, qp_sender_ack = sa, qp_sender = s\<rparr>"
  have eq: "h = \<lparr>ph_ack = a, ph_packet = True\<rparr>"
    "st = (sy_storage sy)\<lparr>ps_sequence := a, ps_index := ps_index (sy_storage sy) @ [(r, a)], ps_queue := ps_queue (sy_storage sy) @ [q]\<rparr>"
    using assms(3) by (auto simp: storage_insert_def a_def q_def Let_def)
  have seq: "0 \<le> ps_sequence (sy_storage sy)" "\<And>b. b \<in> dom (sy_packets sy) \<Longrightarrow> 0 < b \<and> b \<le> ps_sequence (sy_storage sy)"
    using assms(1) by (auto simp: storage_ok_def numbered_def)
  then have new: "sy_packets sy a = None" using seq(2) [of a] by (cases "sy_packets sy a") (auto simp: a_def)
  note old = storage_ok_old [OF assms(1) new]
  have fl: "in_flight st = in_flight (sy_storage sy) @ [q]" "writing_now st = writing_now (sy_storage sy)"
    "undecided st = undecided (sy_storage sy) @ [q]" "to_remove st = to_remove (sy_storage sy)"
    by (simp_all add: eq storage_parts)
  let ?sy = "sy\<lparr>sy_storage := st, sy_handles := insert h (sy_handles sy), sy_packets := (sy_packets sy)(ph_ack h \<mapsto> (r, p))\<rparr>"
  have q: "qp_ack q = a" "qp_receiver q = r" "qp_packet q = p" by (simp_all add: q_def)
  have db: "ps_db st = sy_db sy" "ps_flags st = ps_flags (sy_storage sy)" "ps_sequence st = a" "ps_writer st = ps_writer (sy_storage sy)"
    "ps_close st = ps_close (sy_storage sy)" "ps_queue st = ps_queue (sy_storage sy) @ [q]" "ps_index st = ps_index (sy_storage sy) @ [(r, a)]" by (simp_all add: eq)
  have a: "ph_ack h = a" "ph_packet h" by (simp_all add: eq)
  have "0 < a" "\<forall>b. (\<exists>r p. sy_packets sy b = Some (r, p)) \<longrightarrow> b \<le> a" using seq by (force simp: a_def)+
  then have "numbered rows ?sy" using assms(1) old(1,2) unfolding storage_ok_def numbered_def by (simp add: fl q db a)
  moreover have "placed rows ?sy"
  proof -
    have pl: "placed rows sy" using assms(1) by (simp add: storage_ok_def)
    have "qp_ack x \<noteq> a" if "x \<in> set (in_flight (sy_storage sy))" for x using old(2) that by (auto simp: acks_def)
    then show ?thesis using pl assms(2) old(1) unfolding placed_def by (simp add: fl q db a)
  qed
  moreover have "flags_right ?sy" using assms(1) old new by (auto simp: storage_ok_def flags_right_def fl q db a)
  moreover have "removable rows ?sy" using assms(1) old by (auto simp: storage_ok_def removable_def fl q db a)
  ultimately show ?thesis by (simp add: storage_ok_def)
qed


lemma alive_in_flight: "alive a st = Some p \<Longrightarrow> p \<in> set (in_flight st) \<and> qp_ack p = a"
proof -
  assume f: "alive a st = Some p"
  then have "p \<in> set (ps_queue st @ in_hand (ps_writer st)) \<and> qp_ack p = a"
    unfolding alive_def find_Some_iff by (metis nth_mem)
  then show ?thesis by (auto simp: storage_parts in_hand_def split: writer.splits option.splits)
qed

lemma pending_index_handle:
  assumes "x \<in> set (pending_from_index r st)"
  shows "\<exists>p \<in> set (in_flight st). ph_ack (sp_handle x) = qp_ack p \<and> ph_packet (sp_handle x)"
proof -
  obtain a p where "alive a st = Some p" "x = \<lparr>sp_handle = \<lparr>ph_ack = qp_ack p, ph_packet = True\<rparr>, sp_packet = qp_packet p\<rparr>"
    using assms by (auto simp: pending_from_index_def List.map_filter_def split: if_splits option.splits)
  then show ?thesis using alive_in_flight by fastforce
qed

lemma acknowledge_ok:
  assumes ok: "storage_ok rows sy" and h: "h \<in> sy_handles sy"
  shows "storage_ok rows (sy\<lparr>sy_storage := mark_as_acked h (sy_storage sy), sy_acked := insert (ph_ack h) (sy_acked sy)\<rparr>)"
proof -
  let ?st = "sy_storage sy" let ?a = "ph_ack h" let ?st' = "mark_as_acked h ?st"
  have dom: "?a \<in> dom (sy_packets sy)" "0 < ?a" and live: "\<not> ph_packet h \<Longrightarrow> ?a \<notin> set (acks (in_flight ?st))"
    using ok h by (auto simp: storage_ok_def flags_right_def numbered_def)
  have same: "in_flight ?st' = in_flight ?st" "writing_now ?st' = writing_now ?st" "undecided ?st' = undecided ?st" "ps_db ?st' = ps_db ?st"
    "ps_sequence ?st' = ps_sequence ?st" "ps_index ?st' = ps_index ?st" "ps_queue ?st' = ps_queue ?st" "ps_close ?st' = ps_close ?st"
    "ps_writer ?st' = ps_writer ?st"
    by (simp_all add: mark_as_acked_def storage_remove_def storage_parts Let_def)
  have fl: "set (acks (in_flight ?st)) = set (acks (writing_now ?st)) \<union> set (acks (undecided ?st))" by (simp add: in_flight_def)
  have flags: "ps_flags ?st' = (if ?a \<in> set (acks (in_flight ?st)) then insert ?a (ps_flags ?st) else ps_flags ?st)"
    using live alive_iff [of ?a ?st] unfolding mark_as_acked_def storage_remove_def Let_def
    by (cases "?a \<in> set (acks (in_flight ?st))") (auto split: if_splits)
  have rm: "to_remove ?st' = (if ?a \<in> set (acks (in_flight ?st)) \<and> ?a \<notin> ps_flags ?st then to_remove ?st else insert ?a (to_remove ?st))"
    using live dom(2) alive_iff [of ?a ?st] unfolding mark_as_acked_def storage_remove_def Let_def to_remove_def
    by (cases "?a \<in> set (acks (in_flight ?st))") auto
  let ?sy = "sy\<lparr>sy_storage := ?st', sy_acked := insert ?a (sy_acked sy)\<rparr>"
  have "numbered rows ?sy" using ok by (simp add: storage_ok_def numbered_def same)
  moreover have "placed rows ?sy" using ok by (auto simp: storage_ok_def placed_def same)
  moreover have "flags_right ?sy" using ok dom by (auto simp: storage_ok_def flags_right_def same flags fl)
  moreover have "removable rows ?sy"
  proof -
    have d: "rows (sy_db sy) ?a = None" if "?a \<in> set (acks (undecided ?st))" using ok that by (auto simp: storage_ok_def numbered_def fl)
    have w: "?a \<in> ps_flags ?st" if "?a \<in> set (acks (writing_now ?st))" using ok that by (auto simp: storage_ok_def flags_right_def)
    have dis: "?a \<notin> set (acks (undecided ?st))" if "?a \<in> set (acks (writing_now ?st))"
      using ok that by (auto simp: storage_ok_def numbered_def in_flight_def)
    show ?thesis using ok dom d w dis by (auto simp: storage_ok_def removable_def same rm fl)
  qed
  ultimately show ?thesis by (simp add: storage_ok_def)
qed


text \<open>A step of the writer that leaves the users' view alone keeps the invariant when these parts are kept.\<close>

lemma next_packet_ok:
  assumes ok: "storage_ok rows sy" and w: "ps_writer (sy_storage sy) = W_idle"
    and n: "next_packet (sy_storage sy) = Some (c, p, a, st)"
  shows "c \<and> storage_ok rows (sy\<lparr>sy_storage := st\<lparr>ps_writer := W_taken p a\<rparr>\<rparr>)"
proof -
  let ?st = "sy_storage sy" let ?st' = "st\<lparr>ps_writer := W_taken p a\<rparr>"
  have idx: "ps_index ?st = map (\<lambda>p. (qp_receiver p, qp_ack p)) (ps_queue ?st)" "\<not> ps_close ?st"
    using ok by (auto simp: storage_ok_def numbered_def)
  have c: c using n idx(2) by (auto simp: next_packet_def Let_def split: if_splits list.splits)
  have st: "st = ?st\<lparr>ps_queue := tl (ps_queue ?st), ps_index := tl (ps_index ?st), ps_remove_queue := tl (ps_remove_queue ?st)\<rparr>"
    "p = (case ps_queue ?st of [] \<Rightarrow> None | p # _ \<Rightarrow> Some p)" "a = (case ps_remove_queue ?st of [] \<Rightarrow> 0 | a # _ \<Rightarrow> a)"
    using n idx(1) by (auto simp: next_packet_def remove_from_index_def Let_def split: if_splits list.splits)
  have fl: "undecided ?st' = undecided ?st" "writing_now ?st' = writing_now ?st" "in_flight ?st' = in_flight ?st" "to_remove ?st' = to_remove ?st"
    using w by (auto simp: st storage_parts split: list.splits)
  have same: "ps_db ?st' = ps_db ?st" "ps_flags ?st' = ps_flags ?st" "ps_sequence ?st' = ps_sequence ?st" "ps_close ?st' = ps_close ?st"
    "ps_index ?st' = map (\<lambda>p. (qp_receiver p, qp_ack p)) (ps_queue ?st')" "ps_writer ?st' \<noteq> W_stopped"
    using idx(1) by (simp_all add: st map_tl)
  have "storage_ok rows (sy\<lparr>sy_storage := ?st'\<rparr>)"
    using ok unfolding storage_ok_defs by (simp add: fl same del: packet_storage.select_convs packet_storage.update_convs)
  with c show ?thesis by simp
qed


lemma notify_sender_parts [simp]:
  "in_flight (notify_sender p st) = in_flight st" "writing_now (notify_sender p st) = writing_now st"
  "undecided (notify_sender p st) = undecided st" "to_remove (notify_sender p st) = to_remove st"
  "ps_db (notify_sender p st) = ps_db st" "ps_flags (notify_sender p st) = ps_flags st" "ps_sequence (notify_sender p st) = ps_sequence st"
  "ps_close (notify_sender p st) = ps_close st" "ps_index (notify_sender p st) = ps_index st" "ps_queue (notify_sender p st) = ps_queue st"
  "ps_writer (notify_sender p st) = ps_writer st"
  by (simp_all add: notify_sender_def storage_parts)

lemma storage_ok_notify: "storage_ok rows (sy\<lparr>sy_storage := notify_sender p st\<rparr>) = storage_ok rows (sy\<lparr>sy_storage := st\<rparr>)"
  by (simp add: storage_ok_defs)

text \<open>A packet that was acknowledged while it waited is dropped, and its sender notified.\<close>

lemma drop_ok:
  assumes ok: "storage_ok rows sy" and w: "ps_writer (sy_storage sy) = W_taken (Some p) a" and f: "qp_ack p \<in> ps_flags (sy_storage sy)"
  shows "storage_ok rows (sy\<lparr>sy_storage := (sy_storage sy)\<lparr>ps_writer := W_removing a\<rparr>\<rparr>)"
proof -
  let ?st = "sy_storage sy" let ?st' = "?st\<lparr>ps_writer := W_removing a\<rparr>"
  have fl: "in_flight ?st = p # in_flight ?st'" "undecided ?st = p # undecided ?st'" "writing_now ?st = []" "writing_now ?st' = []" "to_remove ?st' = to_remove ?st"
    using w by (simp_all add: storage_parts)
  have "qp_ack p \<in> sy_acked sy" using ok f by (simp add: storage_ok_def flags_right_def fl)
  moreover have ok': "numbered rows sy" "placed rows sy" "flags_right sy" "removable rows sy" using ok by (simp_all add: storage_ok_def)
  let ?sy = "sy\<lparr>sy_storage := ?st'\<rparr>"
  have "numbered rows ?sy" using ok'(1) by (simp add: numbered_def fl)
  moreover have "placed rows ?sy" using ok'(2) calculation(1) unfolding placed_def by (simp add: fl) blast
  moreover have "flags_right ?sy" using ok'(3) by (simp add: flags_right_def fl)
  moreover have "removable rows ?sy" using ok'(4) by (simp add: removable_def fl)
  ultimately show ?thesis by (simp add: storage_ok_def)
qed

lemma take_none_ok:
  assumes ok: "storage_ok rows sy" and w: "ps_writer (sy_storage sy) = W_taken None a"
  shows "storage_ok rows (sy\<lparr>sy_storage := (sy_storage sy)\<lparr>ps_writer := W_removing a\<rparr>\<rparr>)"
proof -
  let ?st = "sy_storage sy" let ?st' = "?st\<lparr>ps_writer := W_removing a\<rparr>"
  have "in_flight ?st' = in_flight ?st" "undecided ?st' = undecided ?st" "writing_now ?st' = writing_now ?st" "to_remove ?st' = to_remove ?st"
    using w by (simp_all add: storage_parts)
  then show ?thesis using ok unfolding storage_ok_defs by simp
qed

lemma decide_ok:
  assumes ok: "storage_ok rows sy" and w: "ps_writer (sy_storage sy) = W_taken (Some p) a" and f: "qp_ack p \<notin> ps_flags (sy_storage sy)"
  shows "storage_ok rows (sy\<lparr>sy_storage := (sy_storage sy)\<lparr>ps_flags := insert (qp_ack p) (ps_flags (sy_storage sy)), ps_writer := W_writing p a\<rparr>\<rparr>)"
proof -
  let ?st = "sy_storage sy" let ?st' = "?st\<lparr>ps_flags := insert (qp_ack p) (ps_flags ?st), ps_writer := W_writing p a\<rparr>"
  have fl: "in_flight ?st' = in_flight ?st" "undecided ?st = p # undecided ?st'" "writing_now ?st = []" "writing_now ?st' = [p]" "to_remove ?st' = to_remove ?st"
    "in_flight ?st = p # undecided ?st'"
    using w by (simp_all add: storage_parts)
  have n: "qp_ack p \<notin> sy_acked sy" using ok f by (simp add: storage_ok_def flags_right_def fl)
  have "sy_packets sy (qp_ack p) = Some (qp_receiver p, qp_packet p)" "qp_ack p \<notin> set (acks (undecided ?st'))"
    using ok by (simp_all add: storage_ok_def placed_def numbered_def fl)
  then show ?thesis using ok n unfolding storage_ok_defs fl by (auto simp: fl)
qed

context packet_table
begin

lemma write_ok:
  assumes ok: "storage_ok rows sy" and w: "ps_writer (sy_storage sy) = W_writing p a"
  shows "\<exists>d. write_to_database D p (sy_db sy) = Some d \<and>
    storage_ok rows (sy\<lparr>sy_storage := (sy_storage sy)\<lparr>ps_db := d, ps_writer := W_removing a\<rparr>\<rparr>)"
proof -
  let ?st = "sy_storage sy"
  have p: "sy_packets sy (qp_ack p) = Some (qp_receiver p, qp_packet p)" "payload_ok (qp_packet p)" "rows (sy_db sy) (qp_ack p) = None"
    using ok w by (simp_all add: storage_ok_def placed_def numbered_def storage_parts)
  obtain b where b: "write_der transport_payload_ty (transport_payload_val (qp_packet p)) = Inr b"
    "read_der transport_payload_ty transport_payload_of b = Inr (qp_packet p)" using p(2) by (auto simp: payload_ok_def)
  obtain d where d: "db_insert D (qp_ack p) (qp_receiver p) b (sy_db sy) = Some d" "rows d = (rows (sy_db sy))(qp_ack p \<mapsto> (qp_receiver p, b))"
    using insert_fresh [OF p(3)] by blast
  let ?st' = "?st\<lparr>ps_db := d, ps_writer := W_removing a\<rparr>"
  have fl: "in_flight ?st = p # in_flight ?st'" "undecided ?st = undecided ?st'" "writing_now ?st = [p]" "writing_now ?st' = []" "to_remove ?st' = to_remove ?st"
    using w by (simp_all add: storage_parts)
  let ?sy = "sy\<lparr>sy_storage := ?st'\<rparr>"
  have ok': "numbered rows sy" "placed rows sy" "flags_right sy" "removable rows sy" using ok by (simp_all add: storage_ok_def)
  have "numbered rows ?sy" using ok'(1) by (auto simp: numbered_def fl d(2))
  moreover have "placed rows ?sy" using ok'(2) p(1) b(2) unfolding placed_def by (simp add: fl d(2)) blast
  moreover have "flags_right ?sy" using ok'(3) by (simp add: flags_right_def fl)
  moreover have "removable rows ?sy" using ok'(4) p(1) by (auto simp: removable_def fl d(2))
  ultimately have "storage_ok rows ?sy" by (simp add: storage_ok_def)
  then show ?thesis using b(1) d(1) by (simp add: write_to_database_def)
qed

lemma removing_ok:
  assumes ok: "storage_ok rows sy" and w: "ps_writer (sy_storage sy) = W_removing a"
  shows "storage_ok rows (sy\<lparr>sy_storage := (sy_storage sy)\<lparr>ps_db := (if a \<noteq> 0 then db_delete D a (sy_db sy) else sy_db sy), ps_writer := W_idle\<rparr>\<rparr>)"
proof -
  let ?st = "sy_storage sy" let ?d = "if a \<noteq> 0 then db_delete D a (sy_db sy) else sy_db sy"
  let ?st' = "?st\<lparr>ps_db := ?d, ps_writer := W_idle\<rparr>"
  have fl: "in_flight ?st' = in_flight ?st" "undecided ?st' = undecided ?st" "writing_now ?st = []" "writing_now ?st' = []"
    "to_remove ?st = to_remove ?st' \<union> ({a} - {0})"
    using w by (auto simp: storage_parts)
  have r: "rows ?d = (if a \<noteq> 0 then (rows (sy_db sy))(a := None) else rows (sy_db sy))" by (simp add: delete_row)
  have a: "a \<noteq> 0 \<Longrightarrow> a \<in> sy_acked sy" using ok by (auto simp: storage_ok_def removable_def fl)
  have nz: "0 \<notin> dom (sy_packets sy)" using ok by (auto simp: storage_ok_def numbered_def)
  show ?thesis using ok a nz unfolding storage_ok_defs fl by (auto simp: fl r split: if_splits)
qed

lemma writer_ok:
  assumes ok: "storage_ok rows sy" and s: "writer_step D (sy_storage sy) = Some st"
  shows "storage_ok rows (sy\<lparr>sy_storage := st\<rparr>)"
proof (cases "ps_writer (sy_storage sy)")
  case W_idle
  then obtain c p a st1 where n: "next_packet (sy_storage sy) = Some (c, p, a, st1)" using s by (auto simp: writer_step_def split: option.splits)
  with next_packet_ok [OF ok W_idle n] s W_idle show ?thesis by (auto simp: writer_step_def)
next
  case (W_taken p a)
  then show ?thesis using s ok take_none_ok [OF ok] drop_ok [OF ok] decide_ok [OF ok]
    by (auto simp: writer_step_def storage_ok_notify split: option.splits if_splits)
next
  case (W_writing p a)
  then show ?thesis using s write_ok [OF ok W_writing] by (auto simp: writer_step_def storage_ok_notify)
next
  case (W_removing a)
  then show ?thesis using s removing_ok [OF ok W_removing] by (simp add: writer_step_def)
qed (use ok in \<open>simp add: storage_ok_def numbered_def\<close>)

end


lemma see_ok:
  assumes "storage_ok rows sy" "ph_ack h \<in> dom (sy_packets sy)" "\<not> ph_packet h \<Longrightarrow> ph_ack h \<notin> set (acks (in_flight (sy_storage sy)))"
  shows "storage_ok rows (sy\<lparr>sy_handles := insert h (sy_handles sy)\<rparr>)"
  using assms by (simp add: storage_ok_defs)

context packet_table
begin

lemma pending_db_iff:
  "x \<in> set (pending_from_db D r d) \<longleftrightarrow> (\<exists>a b. rows d a = Some (r, b) \<and> row_packet (a, b) = Some x)"
  using select_rows [of r d] by (force simp: pending_from_db_def List.map_filter_def)

lemma row_packet_Some: "row_packet (a, b) = Some x \<longleftrightarrow>
    sp_handle x = \<lparr>ph_ack = a, ph_packet = False\<rparr> \<and> read_der transport_payload_ty transport_payload_of b = Inr (sp_packet x)"
  by (cases x) (auto simp: row_packet_def split: sum.splits)

lemma storage_ok_step: "storage_step D sy sy' \<Longrightarrow> storage_ok rows sy \<Longrightarrow> storage_ok rows sy'"
proof (induction rule: storage_step.induct)
  case (see_queued x r sy)
  then obtain p where p: "p \<in> set (in_flight (sy_storage sy))" "ph_ack (sp_handle x) = qp_ack p" "ph_packet (sp_handle x)"
    using pending_index_handle by blast
  then show ?case using see_queued by (intro see_ok) (auto simp: storage_ok_def placed_def)
next
  case (see_row x r sy)
  then obtain a b where a: "rows (sy_db sy) a = Some (r, b)" "sp_handle x = \<lparr>ph_ack = a, ph_packet = False\<rparr>"
    by (auto simp: pending_db_iff row_packet_Some)
  then have "sy_packets sy a \<noteq> None" "a \<notin> set (acks (in_flight (sy_storage sy)))"
    using see_row a(1) unfolding storage_ok_def placed_def numbered_def by (blast, force)
  then show ?case using see_row a(2) by (intro see_ok) auto
qed (auto intro: insert_ok acknowledge_ok writer_ok)

lemma storage_ok_start:
  assumes "table_holds rows d P"
  shows "storage_ok rows (start_system D d P)"
proof -
  have fl: "in_flight (make_storage D d) = []" "undecided (make_storage D d) = []" "writing_now (make_storage D d) = []" "to_remove (make_storage D d) = {}"
    by (simp_all add: storage_parts make_storage_def)
  have f: "ps_db (make_storage D d) = d" "ps_flags (make_storage D d) = {}" "ps_queue (make_storage D d) = []" "ps_index (make_storage D d) = []"
    "\<not> ps_close (make_storage D d)" "ps_writer (make_storage D d) = W_idle" by (simp_all add: make_storage_def)
  have seq: "0 \<le> ps_sequence (make_storage D d)"
    using assms max_exists [of d] by (force simp: make_storage_def table_holds_def split: option.splits)
  have "a \<le> ps_sequence (make_storage D d)" if "P a \<noteq> None" for a
  proof -
    have "rows d a \<noteq> None" using assms that by (simp add: table_holds_def)
    then show ?thesis using max_row [of d a] by (auto simp: make_storage_def)
  qed
  then show ?thesis using assms seq fl
    by (simp add: storage_ok_defs start_system_def table_holds_def f)
qed

lemma storage_ok_reach: "storage_reach D (start_system D d P) sy \<Longrightarrow> table_holds rows d P \<Longrightarrow> storage_ok rows sy"
  by (induction rule: storage_reach.induct) (auto intro: storage_ok_start storage_ok_step)

text \<open>A row goes away only when its packet was acknowledged.\<close>

lemma rows_persist_step:
  assumes "storage_step D sy sy'" "storage_ok rows sy" "rows (sy_db sy) a = Some x" "a \<notin> sy_acked sy'"
  shows "rows (sy_db sy') a = Some x"
  using assms(1)
proof cases
  case (put p r sa s n h st)
  then show ?thesis using assms(3) by (auto simp: storage_insert_def Let_def)
next
  case (acknowledge h)
  then show ?thesis using assms(3) by (simp add: mark_as_acked_def storage_remove_def Let_def)
next
  case (writes st)
  let ?st = "sy_storage sy"
  show ?thesis
  proof (cases "ps_writer ?st")
    case W_idle
    then obtain c p b st1 where n: "next_packet ?st = Some (c, p, b, st1)" using writes by (auto simp: writer_step_def split: option.splits)
    then have "ps_db st1 = ps_db ?st" by (auto simp: next_packet_def Let_def split: if_splits list.splits)
    then show ?thesis using n W_idle writes assms(3) by (auto simp: writer_step_def split: bool.splits)
  next
    case (W_taken p b)
    then show ?thesis using writes assms(3) by (auto simp: writer_step_def split: option.splits if_splits)
  next
    case (W_writing p b)
    have p: "payload_ok (qp_packet p)" "rows (sy_db sy) (qp_ack p) = None"
      using assms(2) W_writing by (simp_all add: storage_ok_def placed_def numbered_def storage_parts)
    then have "a \<noteq> qp_ack p" using assms(3) by auto
    moreover obtain e where e: "write_der transport_payload_ty (transport_payload_val (qp_packet p)) = Inr e" using p(1) by (auto simp: payload_ok_def)
    moreover obtain d' where "db_insert D (qp_ack p) (qp_receiver p) e (sy_db sy) = Some d'"
      "rows d' = (rows (sy_db sy))(qp_ack p \<mapsto> (qp_receiver p, e))" using insert_fresh [OF p(2)] by blast
    ultimately show ?thesis using W_writing writes assms(3) by (auto simp: writer_step_def write_to_database_def)
  next
    case (W_removing b)
    then have "b \<noteq> 0 \<Longrightarrow> b \<in> sy_acked sy" using assms(2) by (auto simp: storage_ok_def removable_def storage_parts)
    then show ?thesis using W_removing writes assms(3,4) by (cases "b = 0") (auto simp: writer_step_def delete_row)
  qed (use writes in \<open>simp add: writer_step_def\<close>)
qed (use assms(3) in simp_all)

end


section \<open>Pending packets\<close>

abbreviation sp_ack :: "stored_packet \<Rightarrow> int" where
  "sp_ack x \<equiv> ph_ack (sp_handle x)"

lemma unique_acks_subset: "set (unique_acks xs) \<subseteq> set xs"
  by (induction xs rule: unique_acks.induct) auto

lemma unique_acks_acks: "sp_ack ` set (unique_acks xs) = sp_ack ` set xs"
  by (induction xs rule: unique_acks.induct) auto

lemma unique_acks_sorted: "sorted (map sp_ack xs) \<Longrightarrow> sorted_wrt (<) (map sp_ack (unique_acks xs))"
proof (induction xs rule: unique_acks.induct)
  case (1 x y xs)
  show ?case
  proof (cases "sp_ack x = sp_ack y")
    case False
    have "sp_ack x < sp_ack z" if "z \<in> set (unique_acks (y # xs))" for z
    proof -
      have "z \<in> set (y # xs)" using that unique_acks_subset [of "y # xs"] by blast
      then have "sp_ack y \<le> sp_ack z" "sp_ack x \<le> sp_ack y" using "1.prems" by auto
      then show ?thesis using False by simp
    qed
    then show ?thesis using 1 False by simp
  qed (use 1 in simp)
qed simp_all

lemma get_pending_acks:
  "sp_ack ` set (get_pending_packets D r st later) = sp_ack ` set (pending_from_db D r (ps_db later) @ pending_from_index r st)"
  "set (get_pending_packets D r st later) \<subseteq> set (pending_from_db D r (ps_db later) @ pending_from_index r st)"
  using unique_acks_acks [of "sort_key sp_ack (pending_from_db D r (ps_db later) @ pending_from_index r st)"]
    unique_acks_subset [of "sort_key sp_ack (pending_from_db D r (ps_db later) @ pending_from_index r st)"]
  by (simp_all add: get_pending_packets_def merge_pending_def)

lemma storage_step_packets: "storage_step D sy sy' \<Longrightarrow> storage_ok rows sy \<Longrightarrow> sy_packets sy a = Some x \<Longrightarrow> sy_packets sy' a = Some x"
proof (induction rule: storage_step.induct)
  case (put p r sa s n sy h st)
  then have "ph_ack h = ps_sequence (sy_storage sy) + 1" "a \<le> ps_sequence (sy_storage sy)"
    by (auto simp: storage_insert_def Let_def storage_ok_def numbered_def)
  then show ?case using put by auto
qed simp_all

lemma storage_step_acked: "storage_step D sy sy' \<Longrightarrow> sy_acked sy \<subseteq> sy_acked sy'"
  by (induction rule: storage_step.induct) auto

lemma pending_index_iff:
  assumes "storage_ok rows sy"
  shows "x \<in> set (pending_from_index r (sy_storage sy)) \<longleftrightarrow>
    (\<exists>p \<in> set (ps_queue (sy_storage sy)). qp_receiver p = r \<and> x = \<lparr>sp_handle = \<lparr>ph_ack = qp_ack p, ph_packet = True\<rparr>, sp_packet = qp_packet p\<rparr>)"
proof -
  let ?st = "sy_storage sy"
  have idx: "ps_index ?st = map (\<lambda>p. (qp_receiver p, qp_ack p)) (ps_queue ?st)" and dis: "distinct (acks (in_flight ?st))"
    using assms by (auto simp: storage_ok_def numbered_def)
  have al: "alive (qp_ack p) ?st = Some p" if "p \<in> set (ps_queue ?st)" for p
  proof -
    have p: "p \<in> set (in_flight ?st)" using that by (simp add: in_flight_def undecided_def)
    then obtain q where q: "alive (qp_ack p) ?st = Some q" using alive_iff [of "qp_ack p" ?st] by (auto simp: acks_def)
    then have "q \<in> set (in_flight ?st)" "qp_ack q = qp_ack p" using alive_in_flight by blast+
    then show ?thesis using p q dis by (metis acks_def distinct_map inj_onD)
  qed
  let ?h = "\<lambda>p. \<lparr>sp_handle = \<lparr>ph_ack = qp_ack p, ph_packet = True\<rparr>, sp_packet = qp_packet p\<rparr>"
  have "set qs \<subseteq> set (ps_queue ?st) \<Longrightarrow> List.map_filter (\<lambda>(r', a). if r' = r then (case alive a ?st of None \<Rightarrow> None | Some p \<Rightarrow> Some (?h p)) else None)
      (map (\<lambda>p. (qp_receiver p, qp_ack p)) qs) = map ?h (filter (\<lambda>p. qp_receiver p = r) qs)" for qs
    by (induction qs) (auto simp: List.map_filter_def al)
  then have "pending_from_index r ?st = map ?h (filter (\<lambda>p. qp_receiver p = r) (ps_queue ?st))"
    by (simp add: pending_from_index_def idx)
  then show ?thesis by auto
qed

context packet_table
begin

lemma reach_later:
  assumes "storage_reach D sy later" "storage_ok rows sy"
  shows "storage_ok rows later \<and> sy_acked sy \<subseteq> sy_acked later \<and> (\<forall>a x. sy_packets sy a = Some x \<longrightarrow> sy_packets later a = Some x) \<and>
    (\<forall>a x. rows (sy_db sy) a = Some x \<and> a \<notin> sy_acked later \<longrightarrow> rows (sy_db later) a = Some x)"
  using assms
proof (induction rule: storage_reach.induct)
  case (onward s s')
  then have ok: "storage_ok rows s" by blast
  have "sy_acked s \<subseteq> sy_acked s'" by (rule storage_step_acked [OF onward(2)])
  then show ?case
    using onward storage_ok_step [OF onward(2) ok] storage_step_packets [OF onward(2) ok] rows_persist_step [OF onward(2) ok] by blast
qed simp

lemma pending_sound:
  assumes "storage_ok rows sy" "storage_reach D sy later" "x \<in> set (get_pending_packets D r (sy_storage sy) (sy_storage later))"
  shows "sy_packets later (sp_ack x) = Some (r, sp_packet x)"
proof -
  note l = reach_later [OF assms(2,1)]
  consider "x \<in> set (pending_from_db D r (sy_db later))" | "x \<in> set (pending_from_index r (sy_storage sy))"
    using get_pending_acks(2) [of D r "sy_storage sy" "sy_storage later"] assms(3) by auto
  then show ?thesis
  proof cases
    case 1
    then obtain a b where "rows (sy_db later) a = Some (r, b)" "sp_handle x = \<lparr>ph_ack = a, ph_packet = False\<rparr>"
      "read_der transport_payload_ty transport_payload_of b = Inr (sp_packet x)" by (auto simp: pending_db_iff row_packet_Some)
    then show ?thesis using l unfolding storage_ok_def placed_def by fastforce
  next
    case 2
    then obtain p where p: "p \<in> set (ps_queue (sy_storage sy))" "qp_receiver p = r" "sp_ack x = qp_ack p" "sp_packet x = qp_packet p"
      using pending_index_iff [OF assms(1)] by auto
    then have "sy_packets sy (qp_ack p) = Some (r, qp_packet p)"
      using assms(1) by (auto simp: storage_ok_def placed_def in_flight_def undecided_def)
    then show ?thesis using l p by simp
  qed
qed

lemma pending_contains:
  assumes ok: "storage_ok rows sy" and l: "storage_reach D sy later" and a: "sy_packets sy a = Some (r, p)" "a \<notin> sy_acked later"
    "a \<notin> qp_ack ` set (in_hand (ps_writer (sy_storage sy)))"
  shows "a \<in> sp_ack ` set (get_pending_packets D r (sy_storage sy) (sy_storage later))"
proof -
  note rl = reach_later [OF l ok]
  have "a \<notin> sy_acked sy" using a(2) rl by blast
  then consider "a \<in> set (acks (in_flight (sy_storage sy)))" | "rows (sy_db sy) a \<noteq> None"
    using ok a(1) unfolding storage_ok_def placed_def by blast
  then have "a \<in> sp_ack ` set (pending_from_db D r (sy_db later) @ pending_from_index r (sy_storage sy))"
  proof cases
    case 1
    then obtain q where q: "q \<in> set (in_flight (sy_storage sy))" "a = qp_ack q" by (auto simp: acks_def)
    then have "q \<in> set (ps_queue (sy_storage sy))"
      using a(3) by (auto simp: storage_parts in_hand_def split: writer.splits option.splits)
    moreover have "qp_receiver q = r" using ok q a(1) by (auto simp: storage_ok_def placed_def)
    ultimately have "\<lparr>sp_handle = \<lparr>ph_ack = qp_ack q, ph_packet = True\<rparr>, sp_packet = qp_packet q\<rparr> \<in> set (pending_from_index r (sy_storage sy))"
      using pending_index_iff [OF ok] by blast
    then show ?thesis using q(2) by force
  next
    case 2
    then obtain r' b where b: "rows (sy_db sy) a = Some (r', b)" by auto
    then have lb: "rows (sy_db later) a = Some (r', b)" using rl a(2) by blast
    moreover obtain q where "sy_packets sy a = Some (r', q)" "read_der transport_payload_ty transport_payload_of b = Inr q"
      using ok b unfolding storage_ok_def placed_def by blast
    ultimately have "\<lparr>sp_handle = \<lparr>ph_ack = a, ph_packet = False\<rparr>, sp_packet = q\<rparr> \<in> set (pending_from_db D r (sy_db later))"
      using a(1) by (auto simp: pending_db_iff row_packet_Some)
    then show ?thesis by force
  qed
  then show ?thesis using get_pending_acks(1) [of D r "sy_storage sy" "sy_storage later"] by simp
qed

end


section \<open>Properties of the store\<close>

text \<open>C19: The store settles to what it should hold: started on a database, after any interleaving of inserts, lookups,
  acknowledgements and writer steps, when the writer is idle and the queues are empty, the database holds
  every packet ever put in that was not acknowledged, with its receiver and its contents, and nothing else; the next
  start of the server finds exactly these.\<close>

theorem storage_settles:
  assumes "packet_table D rows" "table_holds rows d P" "storage_reach D (start_system D d P) sy"
    "ps_writer (sy_storage sy) = W_idle" "ps_queue (sy_storage sy) = []" "ps_remove_queue (sy_storage sy) = []"
  shows "table_holds rows (ps_db (sy_storage sy)) (\<lambda>a. if a \<in> sy_acked sy then None else sy_packets sy a)"
proof -
  have ok: "storage_ok rows sy" by (rule packet_table.storage_ok_reach [OF assms(1,3,2)])
  have fl: "in_flight (sy_storage sy) = []" "to_remove (sy_storage sy) = {}" using assms(4-6) by (simp_all add: storage_parts)
  have gone: "rows (sy_db sy) a = None" if "a \<in> sy_acked sy" for a
    using ok that fl by (cases "rows (sy_db sy) a") (auto simp: storage_ok_def removable_def)
  have kept: "rows (sy_db sy) a \<noteq> None" if "sy_packets sy a \<noteq> None" "a \<notin> sy_acked sy" for a
    using ok that fl unfolding storage_ok_def placed_def by fastforce
  have pl: "\<exists>p. sy_packets sy a = Some (r, p) \<and> read_der transport_payload_ty transport_payload_of b = Inr p"
    if "rows (sy_db sy) a = Some (r, b)" for a r b
    using ok that unfolding storage_ok_def placed_def by blast
  have "rows (sy_db sy) a = None \<longleftrightarrow> (a \<in> sy_acked sy \<or> sy_packets sy a = None)" for a
    using gone [of a] kept [of a] pl [of a] by (cases "rows (sy_db sy) a") auto
  moreover have "0 < a" if "sy_packets sy a \<noteq> None" for a using ok that by (auto simp: storage_ok_def numbered_def)
  ultimately show ?thesis using pl unfolding table_holds_def by (metis (no_types, lifting) option.distinct(1))
qed

text \<open>A user who connects is given the packets that wait: the list is strictly ordered by acknowledgement number,
  holds only packets for that user, and holds every packet for the user that was put in before the call, was not
  acknowledged until its end and was not in the writer's hands at its beginning, also when the writer moves packets to
  the database between the two lookups of the call.\<close>

theorem pending_packets_complete:
  assumes "packet_table D rows" "table_holds rows d P" "storage_reach D (start_system D d P) sy" "storage_reach D sy later"
    "sy_packets sy a = Some (r, p)" "a \<notin> sy_acked later" "a \<notin> qp_ack ` set (in_hand (ps_writer (sy_storage sy)))"
  shows "sorted_wrt (<) (map (\<lambda>x. ph_ack (sp_handle x)) (get_pending_packets D r (sy_storage sy) (sy_storage later))) \<and>
    (\<forall>x \<in> set (get_pending_packets D r (sy_storage sy) (sy_storage later)). sy_packets later (ph_ack (sp_handle x)) = Some (r, sp_packet x)) \<and>
    (\<exists>x \<in> set (get_pending_packets D r (sy_storage sy) (sy_storage later)). ph_ack (sp_handle x) = a \<and> sp_packet x = p)"
proof -
  have ok: "storage_ok rows sy" by (rule packet_table.storage_ok_reach [OF assms(1,3,2)])
  note s = packet_table.pending_sound [OF assms(1) ok assms(4)]
  obtain x where x: "x \<in> set (get_pending_packets D r (sy_storage sy) (sy_storage later))" "sp_ack x = a"
    using packet_table.pending_contains [OF assms(1) ok assms(4-7)] by auto
  have "sy_packets later a = Some (r, p)" using packet_table.reach_later [OF assms(1,4) ok] assms(5) by blast
  then have "sp_packet x = p" using s [OF x(1)] x(2) by simp
  moreover have "sorted_wrt (<) (map sp_ack (get_pending_packets D r (sy_storage sy) (sy_storage later)))"
    unfolding get_pending_packets_def merge_pending_def by (rule unique_acks_sorted) simp
  ultimately show ?thesis using s x by blast
qed

text \<open>A packet is invisible while the writer holds it: \<^verbatim>\<open>next_packet\<close> has taken it out of the index and the row is not
  written yet, so that a receiver who connects at that moment is not given it, although it was put in before and is
  not acknowledged.\<close>

theorem pending_misses_packet_in_hand:
  assumes "packet_table D rows" "table_holds rows d P" "storage_reach D (start_system D d P) sy"
    "in_hand (ps_writer (sy_storage sy)) = [q]"
  shows "sy_packets sy (qp_ack q) = Some (qp_receiver q, qp_packet q) \<and>
    qp_ack q \<notin> (\<lambda>x. ph_ack (sp_handle x)) ` set (get_pending_packets D (qp_receiver q) (sy_storage sy) (sy_storage sy))"
proof -
  have ok: "storage_ok rows sy" by (rule packet_table.storage_ok_reach [OF assms(1,3,2)])
  have q: "q \<in> set (in_flight (sy_storage sy))"
    using assms(4) by (auto simp: storage_parts in_hand_def split: writer.splits option.splits)
  have row: "rows (sy_db sy) (qp_ack q) = None" using ok q by (auto simp: storage_ok_def numbered_def acks_def)
  have "qp_ack q \<notin> set (acks (ps_queue (sy_storage sy)))"
    using ok assms(4) by (auto simp: storage_ok_def numbered_def storage_parts in_hand_def split: writer.splits option.splits)
  then have "qp_ack q \<notin> sp_ack ` set (pending_from_index (qp_receiver q) (sy_storage sy))"
    using pending_index_iff [OF ok] by (force simp: acks_def)
  moreover have "qp_ack q \<notin> sp_ack ` set (pending_from_db D (qp_receiver q) (sy_db sy))"
    using row by (auto simp: packet_table.pending_db_iff [OF assms(1)] packet_table.row_packet_Some [OF assms(1)])
  ultimately have "qp_ack q \<notin> sp_ack ` set (get_pending_packets D (qp_receiver q) (sy_storage sy) (sy_storage sy))"
    unfolding get_pending_acks(1) by (simp add: image_Un)
  then show ?thesis using ok q by (auto simp: storage_ok_def placed_def)
qed

context packet_table
begin

lemma purge_other_row:
  assumes "rows (ps_db st) a = None" "a \<notin> set (acks qs)" "\<forall>x \<in> set (acks qs). rows (ps_db st) x = None" "distinct (acks qs)"
  shows "rows (ps_db (fold (purge_packet D) qs st)) a = None"
  using assms
proof (induction qs arbitrary: st)
  case (Cons q qs)
  let ?st = "purge_packet D q st"
  have other: "rows (ps_db ?st) x = rows (ps_db st) x" if "x \<noteq> qp_ack q" for x
  proof (cases "write_der transport_payload_ty (transport_payload_val (qp_packet q))")
    case (Inr b)
    obtain d' where "db_insert D (qp_ack q) (qp_receiver q) b (ps_db st) = Some d'" "rows d' = (rows (ps_db st))(qp_ack q \<mapsto> (qp_receiver q, b))"
      using insert_fresh [of "ps_db st" "qp_ack q" "qp_receiver q" b] Cons.prems(3) by auto
    then show ?thesis using that Inr by (simp add: purge_packet_def write_to_database_def)
  qed (simp add: purge_packet_def write_to_database_def)
  have "x \<noteq> qp_ack q" if "x \<in> set (acks qs)" for x using Cons.prems(4) that by auto
  then have "rows (ps_db ?st) a = None" "\<forall>x \<in> set (acks qs). rows (ps_db ?st) x = None" using Cons.prems(1-3) other by simp_all
  then show ?case using Cons.IH [of ?st] Cons.prems by simp
qed simp

lemma delete_rows: "rows (fold (db_delete D) as d) a = (if a \<in> set as then None else rows d a)"
  by (induction as arbitrary: d) (auto simp: delete_row)

end

text \<open>Closing drops a packet: when the thread finds the store closed while packets wait, \<^verbatim>\<open>next_packet\<close> has already
  taken the first one out of the queue, and the loop ends without writing it; after the queues were purged it is
  neither in the database nor anywhere else, its sender was not notified, and the acknowledgement taken with it is not
  carried out either.\<close>

theorem close_drops_packet:
  assumes "packet_table D rows" "table_holds rows d P" "storage_reach D (start_system D d P) sy"
    "ps_writer (sy_storage sy) = W_idle" "ps_queue (sy_storage sy) = q # qs"
  shows "\<exists>st. writer_step D (storage_close (sy_storage sy)) = Some st \<and> ps_writer st = W_stopped \<and>
    ps_queue (purge_queues D st) = [] \<and> rows (ps_db (purge_queues D st)) (qp_ack q) = None \<and>
    ps_notified (purge_queues D st) = ps_notified (sy_storage sy)"
proof -
  let ?st0 = "sy_storage sy"
  have ok: "storage_ok rows sy" by (rule packet_table.storage_ok_reach [OF assms(1,3,2)])
  have fl: "in_flight ?st0 = q # qs" using assms(4,5) by (simp add: storage_parts)
  define st where "st = ?st0\<lparr>ps_close := True, ps_queue := qs, ps_index := remove1 (qp_receiver q, qp_ack q) (ps_index ?st0),
    ps_remove_queue := tl (ps_remove_queue ?st0), ps_writer := W_stopped\<rparr>"
  have step: "writer_step D (storage_close ?st0) = Some st"
    using assms(4,5) by (auto simp: writer_step_def storage_close_def next_packet_def remove_from_index_def st_def Let_def split: list.splits)
  have n: "ps_notified (fold (purge_packet D) xs s) = ps_notified s" for xs and s :: "'a packet_storage"
    by (induction xs arbitrary: s) (simp_all add: purge_packet_def)
  have "rows (ps_db st) (qp_ack q) = None" "qp_ack q \<notin> set (acks qs)" "\<forall>x \<in> set (acks qs). rows (ps_db st) x = None" "distinct (acks qs)"
    using ok by (auto simp: storage_ok_def numbered_def fl st_def)
  then have "rows (ps_db (fold (purge_packet D) qs st)) (qp_ack q) = None" by (rule packet_table.purge_other_row [OF assms(1)])
  moreover have "ps_queue st = qs" by (simp add: st_def)
  ultimately have "rows (ps_db (purge_queues D st)) (qp_ack q) = None"
    by (simp add: purge_queues_def packet_table.delete_rows [OF assms(1)] Let_def)
  moreover have "ps_queue (purge_queues D st) = []" "ps_notified (purge_queues D st) = ps_notified ?st0"
    by (simp_all add: purge_queues_def n Let_def) (simp add: st_def)
  ultimately show ?thesis using step by (auto simp: st_def)
qed

section \<open>A packet for a user\<close>

definition mail :: transport_payload where
  "mail = \<lparr>tp_data = \<lparr>ev_version = 0, ev_keys = [], ev_iv = [1], ev_encrypted = [2], ev_tag = [3]\<rparr>,
     tp_signature = \<lparr>sig_version = 2, sig_issuer = [4], sig_octets = [5]\<rparr>\<rparr>"

lemma payload_of_val: "transport_payload_of (transport_payload_val p) = Inr p"
proof -
  have "mapE encrypted_key_of (map encrypted_key_val (ev_keys (tp_data p))) = Inr (ev_keys (tp_data p))"
    by (rule mapE_map) (simp add: encrypted_key_of_def encrypted_key_val_def)
  then show ?thesis
    by (simp add: transport_payload_of_def transport_payload_val_def enveloped_content_of_def enveloped_content_val_def)
qed

lemma payload_ok_val:
  assumes "val_ok transport_payload_ty (transport_payload_val p)"
  shows "payload_ok p"
proof -
  have t: "headed transport_payload_ty" "ty_ok transport_payload_ty" "depth transport_payload_ty \<le> max_structure_depth"
    by (simp_all add: transport_payload_ty_def enveloped_content_ty_def encrypted_key_ty_def signature_ty_def max_structure_depth_def)
  from asn_der_ok [OF t(1,2) assms t(3)] have "write_der transport_payload_ty (transport_payload_val p) =
      Inr (der transport_payload_ty None (transport_payload_val p))"
    "read_der transport_payload_ty transport_payload_of (der transport_payload_ty None (transport_payload_val p)) = Inr p"
    using payload_of_val [of p] by (simp_all add: write_der_def read_der_def) (metis append_Nil2 sum.simps(6))
  then show ?thesis by (auto simp: payload_ok_def)
qed

lemma mail_ok: "payload_ok mail"
  by (rule payload_ok_val, rule val_ok_bound)
    (simp_all add: mail_def transport_payload_ty_def enveloped_content_ty_def encrypted_key_ty_def signature_ty_def
      transport_payload_val_def enveloped_content_val_def signature_val_def max_structure_size_def max_constructed_size_def)


abbreviation (input) mail_start :: "row_list storage_system" where
  "mail_start \<equiv> start_system list_table [] (\<lambda>_. None)"

definition mail_queued :: "row_list storage_system" where
  "mail_queued = mail_start\<lparr>sy_storage := snd (storage_insert [7] mail 0 [8] 0 (sy_storage mail_start)),
     sy_handles := {\<lparr>ph_ack = 1, ph_packet = True\<rparr>}, sy_packets := (\<lambda>_. None)(1 \<mapsto> ([7], mail))\<rparr>"

abbreviation (input) mail_taken :: "row_list storage_system" where
  "mail_taken \<equiv> mail_queued\<lparr>sy_storage := the (writer_step list_table (sy_storage mail_queued))\<rparr>"

definition mail_packet :: queued_packet where
  "mail_packet = \<lparr>qp_receiver = [7], qp_packet = mail, qp_notify = 0, qp_ack = 1, qp_sender_ack = 0, qp_sender = [8]\<rparr>"

lemma mail_table: "table_holds map_of ([] :: row_list) (\<lambda>_. None)"
  by (simp add: table_holds_def)

lemma mail_start_storage: "sy_storage mail_start = \<lparr>ps_db = [], ps_close = False, ps_sequence = 0, ps_queue = [], ps_remove_queue = [],
    ps_index = [], ps_flags = {}, ps_writer = W_idle, ps_notified = []\<rparr>"
  by (simp add: start_system_def make_storage_def list_table_def)

lemma mail_queued_reach: "storage_reach list_table mail_start mail_queued"
proof -
  have i: "storage_insert [7] mail 0 [8] 0 (sy_storage mail_start) =
      (\<lparr>ph_ack = 1, ph_packet = True\<rparr>, snd (storage_insert [7] mail 0 [8] 0 (sy_storage mail_start)))"
    by (simp add: storage_insert_def mail_start_storage Let_def)
  have "sy_handles mail_start = {}" "sy_packets mail_start = (\<lambda>_. None)" by (simp_all add: start_system_def)
  then show ?thesis using onward [OF here put [OF mail_ok i, of list_table]] by (simp add: mail_queued_def)
qed

lemma mail_queued_storage: "ps_writer (sy_storage mail_queued) = W_idle" "ps_queue (sy_storage mail_queued) = [mail_packet]"
  "ps_index (sy_storage mail_queued) = [([7], 1)]" "ps_remove_queue (sy_storage mail_queued) = []" "\<not> ps_close (sy_storage mail_queued)"
  by (simp_all add: mail_queued_def storage_insert_def mail_start_storage mail_packet_def Let_def)

lemma mail_step: "writer_step list_table (sy_storage mail_queued) = Some ((sy_storage mail_queued)\<lparr>ps_queue := [], ps_index := [], ps_writer := W_taken (Some mail_packet) 0\<rparr>)"
  by (simp add: writer_step_def next_packet_def mail_queued_storage remove_from_index_def mail_packet_def Let_def)

lemma mail_taken_reach: "storage_reach list_table mail_start mail_taken"
  using onward [OF mail_queued_reach writes [OF mail_step]] mail_step by simp

lemma mail_written_reach:
  "\<exists>b. storage_reach list_table mail_start (mail_queued\<lparr>sy_storage := (sy_storage mail_queued)\<lparr>ps_queue := [], ps_index := [], ps_flags := {1}, ps_db := [(1, [7], b)],
      ps_notified := [(0, [8], 0)], ps_writer := W_idle\<rparr>\<rparr>)"
proof -
  obtain b where b: "write_der transport_payload_ty (transport_payload_val mail) = Inr b" using mail_ok by (auto simp: payload_ok_def)
  have fields: "ps_flags (sy_storage mail_queued) = {}" "ps_db (sy_storage mail_queued) = []" "ps_notified (sy_storage mail_queued) = []"
    by (simp_all add: mail_queued_def storage_insert_def mail_start_storage Let_def)
  let ?taken = "(sy_storage mail_queued)\<lparr>ps_queue := [], ps_index := [], ps_writer := W_taken (Some mail_packet) 0\<rparr>"
  let ?writing = "(sy_storage mail_queued)\<lparr>ps_queue := [], ps_index := [], ps_flags := {1}, ps_writer := W_writing mail_packet 0\<rparr>"
  let ?removing = "(sy_storage mail_queued)\<lparr>ps_queue := [], ps_index := [], ps_flags := {1}, ps_db := [(1, [7], b)], ps_notified := [(0, [8], 0)],
    ps_writer := W_removing 0\<rparr>"
  have 1: "writer_step list_table ?taken = Some ?writing" by (simp add: writer_step_def fields mail_packet_def)
  have 2: "writer_step list_table ?writing = Some ?removing"
    by (simp add: writer_step_def write_to_database_def mail_packet_def b list_table_def list_insert_def notify_sender_def fields)
  have 3: "writer_step list_table ?removing = Some (?removing\<lparr>ps_writer := W_idle\<rparr>)" by (simp add: writer_step_def)
  have "storage_reach list_table mail_start (mail_queued\<lparr>sy_storage := ?taken\<rparr>)" using mail_taken_reach by (simp add: mail_step)
  from onward [OF this writes] 1 have "storage_reach list_table mail_start (mail_queued\<lparr>sy_storage := ?writing\<rparr>)" by force
  from onward [OF this writes] 2 have "storage_reach list_table mail_start (mail_queued\<lparr>sy_storage := ?removing\<rparr>)" by force
  from onward [OF this writes] 3 have "storage_reach list_table mail_start (mail_queued\<lparr>sy_storage := ?removing\<lparr>ps_writer := W_idle\<rparr>\<rparr>)" by force
  then show ?thesis by auto
qed

theorem storage_settles_witness: "\<exists>b. table_holds map_of [(1, [7], b)] ((\<lambda>_. None)(1 \<mapsto> ([7], mail)))"
proof -
  obtain b where b: "storage_reach list_table mail_start (mail_queued\<lparr>sy_storage := (sy_storage mail_queued)\<lparr>ps_queue := [], ps_index := [], ps_flags := {1},
      ps_db := [(1, [7], b)], ps_notified := [(0, [8], 0)], ps_writer := W_idle\<rparr>\<rparr>)" using mail_written_reach by blast
  have "sy_acked mail_queued = {}" "sy_packets mail_queued = (\<lambda>_. None)(1 \<mapsto> ([7], mail))" by (simp_all add: mail_queued_def start_system_def)
  with storage_settles [OF rl.packet_table_axioms mail_table b] mail_queued_storage(1,4) show ?thesis by (intro exI [of _ b]) (simp add: fun_upd_def)
qed

theorem pending_packets_complete_witness:
  "\<exists>x \<in> set (get_pending_packets list_table [7] (sy_storage mail_queued) (sy_storage mail_queued)). ph_ack (sp_handle x) = 1 \<and> sp_packet x = mail"
  using pending_packets_complete [OF rl.packet_table_axioms mail_table mail_queued_reach here, of 1 "[7]" mail]
  by (simp add: mail_queued_storage in_hand_def) (simp add: mail_queued_def start_system_def)

theorem pending_misses_packet_in_hand_witness:
  "sy_packets mail_taken 1 = Some ([7], mail) \<and>
   1 \<notin> (\<lambda>x. ph_ack (sp_handle x)) ` set (get_pending_packets list_table [7] (sy_storage mail_taken) (sy_storage mail_taken))"
  using pending_misses_packet_in_hand [OF rl.packet_table_axioms mail_table mail_taken_reach, of mail_packet]
  by (simp add: mail_step in_hand_def mail_packet_def)

theorem close_drops_packet_witness:
  "\<exists>st. writer_step list_table (storage_close (sy_storage mail_queued)) = Some st \<and> ps_writer st = W_stopped \<and>
    map_of (ps_db (purge_queues list_table st)) 1 = None"
  using close_drops_packet [OF rl.packet_table_axioms mail_table mail_queued_reach, of mail_packet "[]"]
  by (auto simp: mail_queued_storage mail_packet_def)


end
