(* ===== verification/Packet_Deserialiser.thy ===== *)
theory Packet_Deserialiser
  imports Serialiser_Roundtrip
begin

text \<open>
  \<^verbatim>\<open>serialisation/choice.hpp\<close> and the packet reassembly of \<^verbatim>\<open>serialisation/util.hpp\<close>
  (\<^verbatim>\<open>packet_deserialiser_base\<close>, \<^verbatim>\<open>packet_deserialiser\<close>): octets arrive in arbitrary pieces and the
  callback is run once for every complete DER element.
\<close>

section \<open>Choice\<close>

text \<open>An entry of the type list. C++ types are told apart by name, not by what they serialise to.\<close>

record type_tag =
  tt_name :: string
  tt_type :: ty
  tt_tag :: "64 word"

fun choice_serialise :: "type_tag list \<Rightarrow> string \<Rightarrow> val \<Rightarrow> unit ser" where
  "choice_serialise [] name v = throwA (Serialisation_error ''no such type with choice'')"
| "choice_serialise (e # es) name v =
     (if name = tt_name e then serialise (T_implicit (tt_tag e) (tt_type e)) v
      else choice_serialise es name v)"

fun choice_visit :: "type_tag list \<Rightarrow> 64 word \<Rightarrow> (string \<times> val) des" where
  "choice_visit [] n = throwA (Serialisation_error ''no such tag with choice'')"
| "choice_visit (e # es) n =
     (if tt_tag e = n
      then bindA (amp (deserialise (T_implicit n (tt_type e)))) (\<lambda>v. returnA (tt_name e, v))
      else choice_visit es n)"

text \<open>The visitor runs on the object that was read: here the name of its type and its value are
  the result.\<close>

definition choice_deserialise :: "type_tag list \<Rightarrow> (string \<times> val) des" where
  "choice_deserialise es = bindA (on_dec next_tag) (\<lambda>t. choice_visit es (tag t))"

definition asn_der_serialise_choice :: "type_tag list \<Rightarrow> string \<Rightarrow> val \<Rightarrow> ser_error + octets" where
  "asn_der_serialise_choice es name v =
     (case choice_serialise es name v \<lparr>enc_state = make_encoder [], ser_tag = None\<rparr> of
        (Inl e, _) \<Rightarrow> Inl e
      | (Inr _, st) \<Rightarrow> Inr (vec (out (enc_state st))))"

definition asn_der_deserialise_choice :: "type_tag list \<Rightarrow> octets \<Rightarrow> ser_error + string \<times> val" where
  "asn_der_deserialise_choice es d = fst (choice_deserialise es (make_deserialiser d))"

section \<open>Packet reassembly\<close>

record packet_deserialiser =
  buf_max_size :: nat
  buf :: octets

datatype 'e packet_error = Max_buffer_size_reached | Callback_threw 'e

definition make_packet_deserialiser :: "nat \<Rightarrow> packet_deserialiser" where
  "make_packet_deserialiser m = \<lparr>buf_max_size = m, buf = []\<rparr>"

definition default_buf_max_size :: nat where
  "default_buf_max_size = 1024 * 1024"

definition packet_clear :: "packet_deserialiser \<Rightarrow> packet_deserialiser" where
  "packet_clear p = p\<lparr>buf := []\<rparr>"

text \<open>The callback runs with its own context \<open>'c\<close>, the deserialiser placed at the packet, and the
  packet's octets.\<close>

type_synonym ('c, 'e) packet_callback = "deserialiser \<Rightarrow> octets \<Rightarrow> ('c, 'e, unit) action"

definition deser_func :: "('c, 'e) packet_callback \<Rightarrow> octets \<Rightarrow> ('c, 'e, nat) action" where
  "deser_func callback s c =
     (case has_next (make_decoder s) of
        (n, d) \<Rightarrow>
          if n \<noteq> 0
          then bindA (callback \<lparr>dec_state = d, des_tag = None, ex = None\<rparr> (take n s)) (\<lambda>_. returnA n) c
          else (Inr 0, c))"

text \<open>An element needs at least its first octet, so the loop stops at the end of the data.\<close>

lemma dec_read_past_end:
  assumes "dec_ok st" "length (input st) < n"
  shows "\<exists>st'. dec_read n st = (Inl (Serialisation_error ''end of stream''), st')"
proof -
  obtain s where "bs_read istream_read n (src st) = (Inl (Serialisation_error ''end of stream''), s)"
    using span.bs_read_short [OF assms [unfolded dec_ok_def input_def]] by blast
  then show ?thesis by (simp add: dec_read_def on_src_def)
qed

lemma dec_start_peek_ok: "dec_ok st \<Longrightarrow> dec_start_peek st = (p, d) \<Longrightarrow> dec_ok d \<and> input d = input st"
  using peek_started(2,3) by blast

lemma has_next_Nil: "fst (has_next (make_decoder [])) = 0"
proof -
  obtain p d where p: "dec_start_peek (make_decoder []) = (p, d)" by fastforce
  then have "dec_ok d" "input d = []" using dec_start_peek_ok [OF dec_ok_make p] by auto
  then obtain d' where "dec_read 1 d = (Inl (Serialisation_error ''end of stream''), d')"
    using dec_read_past_end [of d 1] by auto
  then have "decode_any_header d = (Inl (Serialisation_error ''end of stream''), d')"
    by (simp add: decode_any_header_def decode_tag_def bindA_def dec_read1_eq)
  then show ?thesis
    using p by (simp add: has_next_def next_length_def guarded_peek_def bindA_def split: prod.splits)
qed

function drain :: "('c, 'e) packet_callback \<Rightarrow> octets \<Rightarrow> ('c, 'e, octets) action" where
  "drain callback s c =
     (case deser_func callback s c of
        (Inl e, c') \<Rightarrow> (Inl e, c')
      | (Inr n, c') \<Rightarrow> if n = 0 then (Inr s, c') else drain callback (drop n s) c')"
  by pat_completeness auto
termination
proof (relation "measure (\<lambda>(_, s, _). length s)", simp)
  fix callback :: "('c, 'e) packet_callback" and s c x c' r n
  assume d: "(x, c') = deser_func callback s c" "x = Inr n" "n \<noteq> 0"
  have "s \<noteq> []"
    using d has_next_Nil by (auto simp: deser_func_def split: prod.splits if_splits)
  then show "((callback, drop n s, c'), callback, s, c) \<in> measure (\<lambda>(_, s, _). length s)"
    using d(3) by (cases s) auto
qed

declare drain.simps [simp del]

text \<open>\<^verbatim>\<open>do_check\<close>. When the callback throws, \<^verbatim>\<open>buf_\<close> keeps what it held at that point.\<close>

definition do_check :: "('c, 'e) packet_callback \<Rightarrow> octets \<Rightarrow>
    (packet_deserialiser \<times> 'c, 'e packet_error, unit) action" where
  "do_check callback d = (\<lambda>(p, c).
     if length (buf p) + length d > buf_max_size p then (Inl Max_buffer_size_reached, p, c)
     else if buf p = []
     then (case drain callback d c of
             (Inl e, c') \<Rightarrow> (Inl (Callback_threw e), p, c')
           | (Inr rest, c') \<Rightarrow> (Inr (), p\<lparr>buf := rest\<rparr>, c'))
     else (case drain callback (buf p @ d) c of
             (Inl e, c') \<Rightarrow> (Inl (Callback_threw e), p\<lparr>buf := buf p @ d\<rparr>, c')
           | (Inr rest, c') \<Rightarrow> (Inr (), p\<lparr>buf := rest\<rparr>, c')))"

text \<open>\<^verbatim>\<open>packet_deserialiser::handle\<close>: every packet is read as a choice and given to the visitor.\<close>

definition deserialiser_handle :: "type_tag list \<Rightarrow> (string \<times> val \<Rightarrow> ('c, ser_error, unit) action) \<Rightarrow> octets \<Rightarrow>
    (packet_deserialiser \<times> 'c, ser_error packet_error, unit) action" where
  "deserialiser_handle es visitor =
     do_check (\<lambda>deser _ c.
       case choice_deserialise es deser of
         (Inl e, _) \<Rightarrow> (Inl e, c)
       | (Inr v, _) \<Rightarrow> visitor v c)"

section \<open>Headers do not depend on what follows\<close>

text \<open>An action that succeeds also succeeds, with the same result and the same consumption, when
  more octets follow.\<close>

definition steady :: "'a dec \<Rightarrow> bool" where
  "steady f \<longleftrightarrow> (\<forall>st x st'. dec_ok st \<longrightarrow> f st = (Inr x, st') \<longrightarrow>
     (\<exists>n. advances n st st' \<and>
        (\<forall>st2 more. dec_ok st2 \<longrightarrow> input st2 = input st @ more \<longrightarrow>
           (\<exists>st2'. f st2 = (Inr x, st2') \<and> advances n st2 st2'))))"

lemma steady_return: "steady (returnA x)"
  by (auto simp: steady_def returnA_def intro: advances_refl)

lemma steady_throw: "steady (throwA e)"
  by (simp add: steady_def throwA_def)

lemma steady_read: "steady (dec_read n)"
  unfolding steady_def
proof (intro allI impI)
  fix st x st'
  assume st: "dec_ok st" "dec_read n st = (Inr x, st')"
  then have n: "n \<le> length (input st)" using dec_read_past_end [OF st(1)] by (metis Inl_Inr_False Pair_inject not_le)
  then have r: "x = take n (input st)" "advances n st st'" using dec_read_ok [OF st(1) n] st(2) by auto
  have "\<exists>st2'. dec_read n st2 = (Inr x, st2') \<and> advances n st2 st2'"
    if "dec_ok st2" "input st2 = input st @ more" for st2 more
    using dec_read_ok [OF that(1), of n] n r(1) that(2) by simp
  with r(2) show "\<exists>n'. advances n' st st' \<and> (\<forall>st2 more. dec_ok st2 \<longrightarrow> input st2 = input st @ more \<longrightarrow>
      (\<exists>st2'. dec_read n st2 = (Inr x, st2') \<and> advances n' st2 st2'))" by blast
qed

lemma steady_bind:
  assumes "steady f" "\<And>x. steady (g x)"
  shows "steady (bindA f g)"
  unfolding steady_def
proof (intro allI impI)
  fix st y st'
  assume st: "dec_ok st" "bindA f g st = (Inr y, st')"
  obtain x st1 where 1: "f st = (Inr x, st1)" "g x st1 = (Inr y, st')"
    using st(2) by (auto simp: bindA_eq_Inr)
  obtain n where n: "advances n st st1" "\<And>st2 more. dec_ok st2 \<Longrightarrow> input st2 = input st @ more \<Longrightarrow>
      \<exists>st2'. f st2 = (Inr x, st2') \<and> advances n st2 st2'"
    using assms(1) st(1) 1(1) unfolding steady_def by meson
  have ok1: "dec_ok st1" using n(1) by (simp add: advances_def)
  obtain m where m: "advances m st1 st'" "\<And>st2 more. dec_ok st2 \<Longrightarrow> input st2 = input st1 @ more \<Longrightarrow>
      \<exists>st2'. g x st2 = (Inr y, st2') \<and> advances m st2 st2'"
    using assms(2) [of x] ok1 1(2) unfolding steady_def by meson
  have "\<exists>st2'. bindA f g st2 = (Inr y, st2') \<and> advances (n + m) st2 st2'"
    if st2: "dec_ok st2" "input st2 = input st @ more" for st2 more
  proof -
    obtain st21 where a: "f st2 = (Inr x, st21)" "advances n st2 st21" using n(2) [OF st2] by blast
    have "dec_ok st21" "input st21 = input st1 @ more"
      using a(2) n(1) st2(2) by (auto simp: advances_def)
    then obtain st22 where "g x st21 = (Inr y, st22)" "advances m st21 st22" using m(2) by blast
    then show ?thesis using a advances_trans by (auto simp: bindA_def)
  qed
  then show "\<exists>n'. advances n' st st' \<and> (\<forall>st2 more. dec_ok st2 \<longrightarrow> input st2 = input st @ more \<longrightarrow>
      (\<exists>st2'. bindA f g st2 = (Inr y, st2') \<and> advances n' st2 st2'))"
    using advances_trans [OF n(1) m(1)] by blast
qed

lemma steady_read1: "steady dec_read1"
  unfolding dec_read1_eq by (intro steady_bind steady_read steady_return)

lemma steady_long_tag_loop: "steady (decode_long_tag_loop k ret b)"
proof (induction k arbitrary: ret b)
  case 0
  then show ?case by (simp add: decode_long_tag_loop.simps steady_throw steady_return)
next
  case (Suc k)
  then show ?case
    by (subst decode_long_tag_loop.simps) (auto intro: steady_return steady_bind [OF steady_read1])
qed

lemma steady_header: "steady decode_any_header"
  unfolding decode_any_header_def decode_tag_def decode_tag_number_def decode_long_tag_def decode_length_def
    decode_long_length_def Let_def
  by (auto intro!: steady_bind steady_read1 steady_read steady_return steady_throw steady_long_tag_loop)

section \<open>The length of the next packet\<close>

lemma guarded_peek_ok:
  assumes "dec_ok st" "steady f" "guarded_peek f st = (Inr x, st')"
  shows "advances 0 st st'"
proof -
  obtain p d where p: "dec_start_peek st = (p, d)" by fastforce
  note d = peek_started [OF assms(1) p]
  obtain d' where d': "f d = (Inr x, d')" "st' = dec_end_peek p False d'"
    using assms(3) p by (auto simp: guarded_peek_def split: prod.splits)
  obtain n where n: "advances n d d'" using assms(2) d(2) d'(1) unfolding steady_def by meson
  have k: "buffered_ok istream_ok (src d')" "can_rewind istream_pending p (input st) (position st) (src d')"
    using n d(6,7) by (auto simp: advances_def dec_ok_def)
  note r = span.end_peek_rollback [OF k]
  have "can_rewind istream_pending p' bs q (end_peek p False (src d'))"
    if "can_rewind istream_pending p' bs q (src st)" for p' bs q
    using d(8) [OF that] n d(6) r(5) by (auto simp: advances_def)
  then show ?thesis
    using n d r unfolding d'(2) by (auto simp: advances_def dec_end_peek_def input_def position_def dec_ok_def)
qed

lemma dec_readable_bytes_eq:
  assumes "dec_ok st"
  shows "fst (dec_readable_bytes n st) = Inr (n \<le> length (input st))"
proof (cases "n \<le> length (input st)")
  case True
  obtain s where "readable_bytes istream_read n (src st) = (True, s)"
    using span.readable_bytes_ok [OF assms [unfolded dec_ok_def] True [unfolded input_def]] by metis
  then show ?thesis using True by (simp add: dec_readable_bytes_def on_src_def)
next
  case False
  then have "length (input st) < n" by simp
  then obtain s where "readable_bytes istream_read n (src st) = (False, s)"
    using span.readable_bytes_short [OF assms [unfolded dec_ok_def]] unfolding input_def by metis
  then show ?thesis using False by (simp add: dec_readable_bytes_def on_src_def)
qed


definition packet_length :: "octets \<Rightarrow> nat" where
  "packet_length s = fst (has_next (make_decoder s))"

lemma next_length_ok:
  assumes "dec_ok st" "decode_any_header st = (Inr h, st1)" "advances n st st1"
  shows "\<exists>st'. next_length st = (n + asn_length h, st') \<and> advances 0 st st'"
proof -
  obtain p d where p: "dec_start_peek st = (p, d)" by fastforce
  note d = peek_started [OF assms(1) p]
  let ?f = "bindA decode_any_header (\<lambda>h s. (Inr (position s - position st + asn_length h), s)) :: nat dec"
  obtain m where m: "advances m st st1" "\<And>st2 more. dec_ok st2 \<Longrightarrow> input st2 = input st @ more \<Longrightarrow>
      \<exists>st2'. decode_any_header st2 = (Inr h, st2') \<and> advances m st2 st2'"
    using steady_header assms(1,2) unfolding steady_def by meson
  have "m = n" using m(1) assms(3) by (simp add: advances_def)
  then obtain d' where d': "decode_any_header d = (Inr h, d')" "advances n d d'"
    using m(2) [OF d(2), of "[]"] d(3) by auto
  then have "?f d = (Inr (n + asn_length h), d')" using d(4) by (simp add: bindA_def advances_def)
  then have g: "guarded_peek ?f st = (Inr (n + asn_length h), dec_end_peek p False d')"
    using p by (simp add: guarded_peek_def)
  have "guarded_peek decode_any_header st = (Inr h, dec_end_peek p False d')"
    using p d'(1) by (simp add: guarded_peek_def)
  from guarded_peek_ok [OF assms(1) steady_header this] g show ?thesis by (simp add: next_length_def)
qed

lemma packet_length_ok:
  assumes "decode_any_header (make_decoder s) = (Inr h, st1)" "advances n (make_decoder s) st1"
  shows "packet_length s = (if n + asn_length h \<le> length s then n + asn_length h else 0)"
proof -
  obtain st' where st': "next_length (make_decoder s) = (n + asn_length h, st')" "advances 0 (make_decoder s) st'"
    using next_length_ok [OF dec_ok_make assms] by blast
  then have "fst (dec_readable_bytes (n + asn_length h) st') = Inr (n + asn_length h \<le> length s)"
    using dec_readable_bytes_eq [of st'] by (simp add: advances_def)
  then show ?thesis
    using st'(1) by (auto simp: packet_length_def has_next_def split: prod.splits sum.splits bool.splits)
qed

lemma packet_length_err:
  assumes "decode_any_header (make_decoder s) = (Inl e, st1)"
  shows "packet_length s = 0"
proof -
  obtain p d where p: "dec_start_peek (make_decoder s) = (p, d)" by fastforce
  note d = peek_started [OF dec_ok_make p]
  have "\<exists>e d'. decode_any_header d = (Inl e, d')"
  proof (cases "decode_any_header d")
    case (Pair r d')
    show ?thesis
    proof (cases r)
      case (Inr h)
      then have "\<exists>st'. decode_any_header (make_decoder s) = (Inr h, st')"
        using steady_header d(2,3) Pair dec_ok_make [of s] unfolding steady_def by (metis append_Nil2)
      then show ?thesis using assms by simp
    qed (use Pair in auto)
  qed
  then show ?thesis
    using p by (auto simp: packet_length_def has_next_def next_length_def guarded_peek_def bindA_def split: prod.splits)
qed

text \<open>A packet that is complete stays the same packet whatever arrives after it.\<close>

lemma packet_length_append:
  assumes "packet_length s \<noteq> 0"
  shows "packet_length (s @ e) = packet_length s" "packet_length s \<le> length s"
proof -
  obtain h st1 where h: "decode_any_header (make_decoder s) = (Inr h, st1)"
    using packet_length_err [of s] assms by (metis sum.exhaust surj_pair)
  then obtain n where n: "advances n (make_decoder s) st1" "\<And>st2 more. dec_ok st2 \<Longrightarrow> input st2 = s @ more \<Longrightarrow>
      \<exists>st2'. decode_any_header st2 = (Inr h, st2') \<and> advances n st2 st2'"
    using steady_header dec_ok_make [of s] input_make [of s] unfolding steady_def by metis
  have L: "packet_length s = n + asn_length h" "n + asn_length h \<le> length s"
    using packet_length_ok [OF h n(1)] assms by (auto split: if_splits)
  then show "packet_length s \<le> length s" by simp
  obtain st2 where "decode_any_header (make_decoder (s @ e)) = (Inr h, st2)" "advances n (make_decoder (s @ e)) st2"
    using n(2) [of "make_decoder (s @ e)" e] by auto
  from packet_length_ok [OF this] L show "packet_length (s @ e) = packet_length s" by simp
qed

lemma packet_length_element:
  assumes "headed_by ht bs"
  shows "packet_length (bs @ rest) = length bs"
proof -
  obtain h c where h: "bs = header_octets h @ c" "header_ok h" "asn_length h = length c"
    using assms by (auto simp: headed_by_def)
  obtain st where "decode_any_header (make_decoder (bs @ rest)) = (Inr h, st)"
    "advances (length (header_octets h)) (make_decoder (bs @ rest)) st"
    using parsesD [of 0 decode_any_header "header_octets h" h "make_decoder (bs @ rest)" "c @ rest"]
      header_octets_ok [OF h(2)] h(1) by (auto simp: inside_def)
  from packet_length_ok [OF this] h show ?thesis by simp
qed

section \<open>Delivery\<close>

text \<open>The callback that records the packets it is given, and what the loop delivers and leaves.\<close>

definition deliver :: "(octets list, 'e) packet_callback" where
  "deliver _ p c = (Inr (), c @ [p])"

function split_packets :: "octets \<Rightarrow> octets list \<times> octets" where
  "split_packets s =
     (let n = packet_length s
      in if n = 0 then ([], s)
         else case split_packets (drop n s) of (ps, r) \<Rightarrow> (take n s # ps, r))"
  by pat_completeness auto
termination
proof (relation "measure length", simp)
  fix s :: octets and n assume n: "n = packet_length s" "n \<noteq> 0"
  then have "s \<noteq> []" using has_next_Nil by (auto simp: packet_length_def)
  then show "(drop n s, s) \<in> measure length" using n(2) by (cases s) auto
qed

declare split_packets.simps [simp del]

abbreviation packets :: "octets \<Rightarrow> octets list" where
  "packets s \<equiv> fst (split_packets s)"

abbreviation undelivered :: "octets \<Rightarrow> octets" where
  "undelivered s \<equiv> snd (split_packets s)"

lemma drain_deliver: "drain (deliver :: (octets list, 'e) packet_callback) s c = (Inr (undelivered s), c @ packets s)"
proof (induction s arbitrary: c rule: split_packets.induct)
  case (1 s)
  have f: "deser_func (deliver :: (octets list, 'e) packet_callback) s c = (Inr (packet_length s), if packet_length s = 0 then c else c @ [take (packet_length s) s])"
    by (simp add: deser_func_def deliver_def packet_length_def bindA_def returnA_def split: prod.splits)
  show ?case
  proof (cases "packet_length s = 0")
    case True
    then show ?thesis using f by (simp add: drain.simps [of _ s] split_packets.simps [of s])
  next
    case False
    with 1 [OF refl this] f show ?thesis
      by (simp add: drain.simps [of _ s] split_packets.simps [of s] Let_def split: prod.splits)
  qed
qed

lemma split_packets_append:
  "split_packets (s @ e) =
     (packets s @ packets (undelivered s @ e), undelivered (undelivered s @ e))"
proof (induction s rule: split_packets.induct)
  case (1 s)
  show ?case
  proof (cases "packet_length s = 0")
    case True
    then show ?thesis by (simp add: split_packets.simps [of s])
  next
    case False
    note a = packet_length_append(1) [OF False, of e] packet_length_append(2) [OF False]
    then show ?thesis using 1 [OF refl False] False
      by (simp add: split_packets.simps [of s] split_packets.simps [of "s @ e"] Let_def split: prod.splits)
  qed
qed

lemma split_packets_concat: "concat (packets s) @ undelivered s = s"
proof (induction s rule: split_packets.induct)
  case (1 s)
  then show ?case
    by (cases "packet_length s = 0")
      (auto simp: split_packets.simps [of s] Let_def split: prod.splits)
qed

lemma undelivered_idem: "packets (undelivered s) = [] \<and> undelivered (undelivered s) = undelivered s"
proof (induction s rule: split_packets.induct)
  case (1 s)
  then show ?case
    by (cases "packet_length s = 0")
      (auto simp: split_packets.simps [of s] Let_def split: prod.splits)
qed


section \<open>Reassembly of a stream that arrives in pieces\<close>

fun feed :: "('c, 'e) packet_callback \<Rightarrow> octets list \<Rightarrow> (packet_deserialiser \<times> 'c, 'e packet_error, unit) action" where
  "feed callback [] = returnA ()"
| "feed callback (d # ds) = bindA (do_check callback d) (\<lambda>_. feed callback ds)"

text \<open>At no point do the octets kept back and the next piece exceed the buffer limit.\<close>

fun fits :: "nat \<Rightarrow> octets \<Rightarrow> octets list \<Rightarrow> bool" where
  "fits m s [] \<longleftrightarrow> True"
| "fits m s (d # ds) \<longleftrightarrow> length (undelivered s) + length d \<le> m \<and> fits m (s @ d) ds"

lemma do_check_deliver:
  assumes "buf p = undelivered s" "length (undelivered s) + length d \<le> buf_max_size p"
  shows "do_check (deliver :: (octets list, 'e) packet_callback) d (p, packets s) =
    (Inr (), p\<lparr>buf := undelivered (s @ d)\<rparr>, packets (s @ d))"
  using assms split_packets_append [of s d] by (auto simp: do_check_def drain_deliver)

lemma feed_deliver:
  assumes "fits (buf_max_size p) s ds" "buf p = undelivered s"
  shows "feed (deliver :: (octets list, 'e) packet_callback) ds (p, packets s) =
    (Inr (), p\<lparr>buf := undelivered (s @ concat ds)\<rparr>, packets (s @ concat ds))"
  using assms
proof (induction ds arbitrary: p s)
  case Nil
  then show ?case by (simp add: returnA_def)
next
  case (Cons d ds)
  let ?p = "p\<lparr>buf := undelivered (s @ d)\<rparr>"
  have "feed (deliver :: (octets list, 'e) packet_callback) ds (?p, packets (s @ d)) =
      (Inr (), ?p\<lparr>buf := undelivered ((s @ d) @ concat ds)\<rparr>, packets ((s @ d) @ concat ds))"
    using Cons.prems by (intro Cons.IH) auto
  then show ?case using do_check_deliver [of p s d, where ?'e = 'e] Cons.prems by (simp add: bindA_def)
qed

lemma split_packets_Nil [simp]: "split_packets [] = ([], [])"
  using has_next_Nil by (simp add: split_packets.simps packet_length_def)

lemma split_packets_elements:
  assumes "list_all (\<lambda>p. \<exists>ht. headed_by ht p) ps"
  shows "split_packets (concat ps @ r) = (ps @ packets r, undelivered r)"
  using assms
proof (induction ps)
  case (Cons p ps)
  obtain ht where ht: "headed_by ht p" using Cons.prems by auto
  then have "packet_length (p @ concat ps @ r) = length p" "p \<noteq> []"
    using packet_length_element headed_by_nonempty by auto
  then show ?case using Cons by (simp add: split_packets.simps [of "p @ concat ps @ r"] Let_def)
qed simp

text \<open>C9: Reassembly does not depend on how the stream is cut: as long as the buffer limit is kept,
  after any pieces have been given to \<^verbatim>\<open>do_check\<close> the packets delivered are exactly those that the
  loop finds in the whole stream received so far, in order and each once, and the buffer holds
  exactly the octets after the last of them.\<close>

theorem reassembly_independent_of_pieces:
  assumes "fits m [] ds"
  shows "feed (deliver :: (octets list, 'e) packet_callback) ds (make_packet_deserialiser m, []) =
    (Inr (), \<lparr>buf_max_size = m, buf = undelivered (concat ds)\<rparr>, packets (concat ds)) \<and>
    concat (packets (concat ds)) @ undelivered (concat ds) = concat ds"
  using feed_deliver [of "make_packet_deserialiser m" "[]" ds, where ?'e = 'e] assms split_packets_concat
  by (simp add: make_packet_deserialiser_def)

theorem reassembly_independent_of_pieces_witness:
  "\<exists>ps r. feed (deliver :: (octets list, string) packet_callback) [[2], [1, 9, 4]] (make_packet_deserialiser 9, []) =
    (Inr (), \<lparr>buf_max_size = 9, buf = r\<rparr>, ps) \<and> concat ps @ r = [2, 1, 9, 4]"
proof -
  have "fits 9 [] [[2], [1, 9, 4]]"
    using split_packets_concat [of "[2]", THEN arg_cong, of length] by simp
  from reassembly_independent_of_pieces [OF this, where ?'e = string] show ?thesis by simp
qed

text \<open>Every serialised value arrives: when values of well-formed types are serialised one after
  another and the stream is cut anywhere, the packets delivered are the encodings of the values,
  and nothing is kept back.\<close>

theorem serialised_values_are_delivered:
  assumes "list_all (\<lambda>(t, v). headed t \<and> ty_ok t \<and> val_ok t v) tvs"
    "concat ds = concat (map (\<lambda>(t, v). der t None v) tvs)" "fits m [] ds"
  shows "feed (deliver :: (octets list, 'e) packet_callback) ds (make_packet_deserialiser m, []) =
    (Inr (), make_packet_deserialiser m, map (\<lambda>(t, v). der t None v) tvs)"
proof -
  have "list_all (\<lambda>p. \<exists>ht. headed_by ht p) (map (\<lambda>(t, v). der t None v) tvs)"
    using assms(1) der_head [where ct = None] by (fastforce simp: list_all_iff)
  from split_packets_elements [OF this, of "[]"]
  have "split_packets (concat ds) = (map (\<lambda>(t, v). der t None v) tvs, [])" using assms(2) by simp
  then show ?thesis
    using feed_deliver [of "make_packet_deserialiser m" "[]" ds, where ?'e = 'e] assms(3)
    by (simp add: make_packet_deserialiser_def)
qed

theorem serialised_values_are_delivered_witness:
  "feed (deliver :: (octets list, string) packet_callback) [[1, 1], [1, 1], [1, 0]] (make_packet_deserialiser 6, []) =
    (Inr (), make_packet_deserialiser 6, [[1, 1, 1], [1, 1, 0]])"
proof -
  have d: "der T_bool None (V_bool True) = [1, 1, 1]" "der T_bool None (V_bool False) = [1, 1, 0]" by code_simp+
  have "fits 6 [] [[1, 1], [1, 1], [1, 0]]"
    using split_packets_concat [of "[1, 1]", THEN arg_cong, of length]
      split_packets_concat [of "[1, 1, 1, 1]", THEN arg_cong, of length] by simp
  then show ?thesis
    using serialised_values_are_delivered [of "[(T_bool, V_bool True), (T_bool, V_bool False)]" "[[1, 1], [1, 1], [1, 0]]" 6]
      d by simp
qed

section \<open>Choice\<close>

lemma choice_serialise_find:
  "find (\<lambda>e. tt_name e = name) es = Some e \<Longrightarrow>
     choice_serialise es name v = serialise (T_implicit (tt_tag e) (tt_type e)) v"
  by (induction es) (auto split: if_splits)

lemma choice_visit_find:
  "find (\<lambda>e. tt_tag e = n) es = Some e \<Longrightarrow>
     choice_visit es n = bindA (amp (deserialise (T_implicit n (tt_type e)))) (\<lambda>v. returnA (tt_name e, v))"
  by (induction es) (auto split: if_splits)

lemma find_distinct:
  "e \<in> set es \<Longrightarrow> distinct (map f es) \<Longrightarrow> find (\<lambda>x. f x = f e) es = Some e"
  by (induction es) auto

lemma next_tag_element:
  assumes "headed_by (Some (cls, t)) bs" "dec_ok st" "input st = bs @ rest"
    "length (seq_pos st) \<le> max_structure_depth" "inside (length bs) st"
  shows "\<exists>st'. next_tag st = (Inr \<lparr>tag_type = Some cls, tag = t\<rparr>, st') \<and> advances 0 st st'"
proof -
  obtain h c where h: "bs = header_octets h @ c" "header_ok h" "asn_class h = cls" "asn_tag h = t"
    using assms(1) by (auto simp: headed_by_def)
  obtain p d where p: "dec_start_peek st = (p, d)" by fastforce
  note d = peek_started [OF assms(2) p]
  have "inside (length (header_octets h)) d"
    using assms(5) h(1) unfolding inside_def d(4,5) by (auto split: list.splits)
  then obtain d' where d': "decode_any_header d = (Inr h, d')"
    using parsesD [of 0 decode_any_header "header_octets h" h d "c @ rest"] header_octets_ok [OF h(2)]
      h(1) assms(3,4) d(2,3,5) by auto
  then have g: "guarded_peek decode_any_header st = (Inr h, dec_end_peek p False d')"
    using p by (simp add: guarded_peek_def)
  from guarded_peek_ok [OF assms(2) steady_header this] g h show ?thesis
    by (simp add: next_tag_def next_header_def bindA_def returnA_def)
qed

text \<open>The round trip of a choice: with distinct type names and distinct tags, serialising an
  object of a listed type and deserialising the octets, whatever follows them, yields the object
  as that type.\<close>

theorem choice_roundtrip:
  assumes "e \<in> set es" "distinct (map tt_name es)" "distinct (map tt_tag es)"
    "taggable (tt_type e)" "ty_ok (tt_type e)" "val_ok (tt_type e) v" "depth (tt_type e) \<le> max_structure_depth"
  shows "\<exists>bs. asn_der_serialise_choice es (tt_name e) v = Inr bs \<and>
    asn_der_deserialise_choice es (bs @ rest) = Inr (tt_name e, v)"
proof -
  let ?t = "T_implicit (tt_tag e) (tt_type e)"
  let ?bs = "der ?t None v"
  have t: "headed ?t" "ty_ok ?t" "val_ok ?t v" "depth ?t \<le> max_structure_depth" using assms by simp_all
  have c: "writes None (serialise ?t v) ?bs" "reads_as (depth ?t) None (amp (deserialise ?t)) ?bs v"
    using coded_codes [OF coded_all t(1-3), of None] reads_as_amp by auto
  have "vec (ostream_write (make_ostream []) ?bs) = ?bs"
    using ostream_write_at_end [of "make_ostream []" ?bs] by (simp add: make_ostream_def make_ostream_at_def)
  then have s: "asn_der_serialise_choice es (tt_name e) v = Inr ?bs"
    using c(1) choice_serialise_find [OF find_distinct [OF assms(1,2)]]
    by (simp add: asn_der_serialise_choice_def writes_def enc_write_def make_encoder_def)
  let ?d = "make_deserialiser (?bs @ rest)"
  have "head_tag ?t None = Some (context_specific_c, tt_tag e)"
    using assms(4) by (cases "tt_type e") (simp_all add: get_asn_class_def get_tag_def)
  then have "headed_by (Some (context_specific_c, tt_tag e)) ?bs" using der_head [OF t(1-3), of None] by simp
  from next_tag_element [OF this, of "dec_state ?d" rest] obtain st1
    where 1: "next_tag (dec_state ?d) = (Inr \<lparr>tag_type = Some context_specific_c, tag = tt_tag e\<rparr>, st1)"
      "advances 0 (dec_state ?d) st1"
    by (auto simp: make_deserialiser_def inside_def)
  let ?s = "?d\<lparr>dec_state := st1\<rparr>"
  have "dec_ok (dec_state ?s)" "ex ?s = None" "des_tag ?s = None" "input (dec_state ?s) = ?bs @ rest"
    "inside (length ?bs) (dec_state ?s)" "length (seq_pos (dec_state ?s)) + depth ?t \<le> max_structure_depth"
    using 1(2) t(4) by (auto simp: make_deserialiser_def inside_def advances_def)
  from reads_asD [OF c(2) this] obtain st where st: "amp (deserialise ?t) ?s = (Inr v, st)" by blast
  have "choice_visit es (tt_tag e) ?s = (Inr (tt_name e, v), st)"
    unfolding choice_visit_find [OF find_distinct [OF assms(1,3)]] bindA_def [of "amp (deserialise ?t)"] st
    by (simp add: returnA_def)
  moreover have "on_dec next_tag ?d = (Inr \<lparr>tag_type = Some context_specific_c, tag = tt_tag e\<rparr>, ?s)"
    unfolding on_dec_def 1(1) by simp
  ultimately have "asn_der_deserialise_choice es (?bs @ rest) = Inr (tt_name e, v)"
    unfolding asn_der_deserialise_choice_def choice_deserialise_def bindA_def [of "on_dec next_tag"] by simp
  with s show ?thesis by blast
qed

theorem choice_roundtrip_witness:
  "\<exists>bs. asn_der_serialise_choice [\<lparr>tt_name = ''hello'', tt_type = T_bool, tt_tag = 1\<rparr>, \<lparr>tt_name = ''bye'', tt_type = T_string, tt_tag = 2\<rparr>]
      ''bye'' (V_string [65]) = Inr bs \<and>
    asn_der_deserialise_choice [\<lparr>tt_name = ''hello'', tt_type = T_bool, tt_tag = 1\<rparr>, \<lparr>tt_name = ''bye'', tt_type = T_string, tt_tag = 2\<rparr>]
      (bs @ [0]) = Inr (''bye'', V_string [65])"
  using choice_roundtrip [of "\<lparr>tt_name = ''bye'', tt_type = T_string, tt_tag = 2\<rparr>"
      "[\<lparr>tt_name = ''hello'', tt_type = T_bool, tt_tag = 1\<rparr>, \<lparr>tt_name = ''bye'', tt_type = T_string, tt_tag = 2\<rparr>]" "V_string [65]" "[0]"]
  by (simp add: max_structure_size_def)


end
