(* ===== verification/Message_Delivery.thy ===== *)
theory Message_Delivery
  imports Packet_Deserialiser
begin

text \<open>
  The messages of a protocol on top of the choice coding and the reassembly: a protocol lists its message types with
  their tags (\<^verbatim>\<open>using types = typelist<type_tag<...>, ...>\<close>), sends a message with \<^verbatim>\<open>asn_der_serialise_choice<types>\<close>, and
  its receiver gives what arrives to \<^verbatim>\<open>packet_deserialiser<types>::handle\<close> with a visitor. What a protocol has to
  provide is the locale \<open>message_protocol\<close>; every protocol of the repository that is modelled is an instance.
\<close>

section \<open>Reading a choice inside a stream\<close>

lemma choice_reads:
  assumes "e \<in> set es" "distinct (map tt_tag es)" "taggable (tt_type e)" "ty_ok (tt_type e)" "val_ok (tt_type e) v"
    "depth (tt_type e) \<le> max_structure_depth"
    "advances 0 (make_decoder (der (T_implicit (tt_tag e) (tt_type e)) None v @ rest)) d"
  shows "\<exists>st. choice_deserialise es \<lparr>dec_state = d, des_tag = None, ex = None\<rparr> = (Inr (tt_name e, v), st)"
proof -
  let ?t = "T_implicit (tt_tag e) (tt_type e)"
  let ?bs = "der ?t None v" and ?d = "\<lparr>dec_state = d, des_tag = None, ex = None\<rparr>"
  have t: "headed ?t" "ty_ok ?t" "val_ok ?t v" "depth ?t \<le> max_structure_depth" using assms by simp_all
  have c: "reads_as (depth ?t) None (amp (deserialise ?t)) ?bs v"
    using coded_codes [OF coded_all t(1-3), of None] reads_as_amp by auto
  have d: "dec_ok d" "input d = ?bs @ rest" "seq_pos d = []"
    using assms(7) by (simp_all add: advances_def)
  have "head_tag ?t None = Some (context_specific_c, tt_tag e)"
    using assms(3) by (cases "tt_type e") (simp_all add: get_asn_class_def get_tag_def)
  then have "headed_by (Some (context_specific_c, tt_tag e)) ?bs" using der_head [OF t(1-3), of None] by simp
  from next_tag_element [OF this d(1,2)] obtain st1
    where 1: "next_tag d = (Inr \<lparr>tag_type = Some context_specific_c, tag = tt_tag e\<rparr>, st1)" "advances 0 d st1"
    using d(3) by (auto simp: inside_def)
  let ?s = "?d\<lparr>dec_state := st1\<rparr>"
  have "dec_ok (dec_state ?s)" "ex ?s = None" "des_tag ?s = None" "input (dec_state ?s) = ?bs @ rest"
    "inside (length ?bs) (dec_state ?s)" "length (seq_pos (dec_state ?s)) + depth ?t \<le> max_structure_depth"
    using 1(2) d(2,3) t(4) by (auto simp: inside_def advances_def)
  from reads_asD [OF c this] obtain st where st: "amp (deserialise ?t) ?s = (Inr v, st)" by blast
  have "choice_visit es (tt_tag e) ?s = (Inr (tt_name e, v), st)"
    unfolding choice_visit_find [OF find_distinct [OF assms(1,2)]] bindA_def [of "amp (deserialise ?t)"] st
    by (simp add: returnA_def)
  moreover have "on_dec next_tag ?d = (Inr \<lparr>tag_type = Some context_specific_c, tag = tt_tag e\<rparr>, ?s)"
    unfolding on_dec_def using 1(1) by simp
  ultimately show ?thesis unfolding choice_deserialise_def bindA_def [of "on_dec next_tag"] by simp
qed

lemma has_next_advances:
  assumes "headed_by ht bs"
  shows "\<exists>d. has_next (make_decoder (bs @ rest)) = (length bs, d) \<and> advances 0 (make_decoder (bs @ rest)) d"
proof -
  obtain h c where h: "bs = header_octets h @ c" "header_ok h" "asn_length h = length c"
    using assms by (auto simp: headed_by_def)
  obtain st where st: "decode_any_header (make_decoder (bs @ rest)) = (Inr h, st)"
    "advances (length (header_octets h)) (make_decoder (bs @ rest)) st"
    using parsesD [of 0 decode_any_header "header_octets h" h "make_decoder (bs @ rest)" "c @ rest"]
      header_octets_ok [OF h(2)] h(1) by (auto simp: inside_def)
  obtain st' where st': "next_length (make_decoder (bs @ rest)) = (length bs, st')" "advances 0 (make_decoder (bs @ rest)) st'"
    using next_length_ok [OF dec_ok_make st] h by auto
  have ok: "buffered_ok istream_ok (src st')" "length bs \<le> length (upcoming istream_pending (src st'))"
    using st'(2) by (auto simp: advances_def dec_ok_def input_def [symmetric])
  obtain s where s: "readable_bytes istream_read (length bs) (src st') = (True, s)"
    "upcoming istream_pending s = upcoming istream_pending (src st')" "pos s = pos (src st')" "buffered_ok istream_ok s"
    "peek_count s = peek_count (src st')" "\<And>p b q. can_rewind istream_pending p b q (src st') \<Longrightarrow> can_rewind istream_pending p b q s"
    using span.readable_bytes_ok [OF ok] by metis
  have "bs \<noteq> []" using headed_by_nonempty [OF assms] .
  then have "has_next (make_decoder (bs @ rest)) = (length bs, st'\<lparr>src := s\<rparr>)"
    using st'(1) s(1) by (simp add: has_next_def dec_readable_bytes_def on_src_def)
  moreover have "advances 0 (make_decoder (bs @ rest)) (st'\<lparr>src := s\<rparr>)"
    using st'(2) s by (auto simp: advances_def dec_ok_def input_def position_def)
  ultimately show ?thesis by blast
qed

section \<open>Protocols\<close>

text \<open>The visitor of a protocol whose handlers do not throw: \<open>object_of\<close> is the object behind the value that was read.\<close>

definition visitor :: "(string \<times> val \<Rightarrow> ser_error + 'm) \<Rightarrow> ('m \<Rightarrow> 'c \<Rightarrow> 'c) \<Rightarrow> string \<times> val \<Rightarrow> ('c, ser_error, unit) action" where
  "visitor object_of act nv c = (case object_of nv of Inl e \<Rightarrow> (Inl e, c) | Inr m \<Rightarrow> (Inr (), act m c))"

primrec receive_all :: "type_tag list \<Rightarrow> (string \<times> val \<Rightarrow> ('c, ser_error, unit) action) \<Rightarrow> octets list \<Rightarrow>
    (packet_deserialiser \<times> 'c, ser_error packet_error, unit) action" where
  "receive_all es vis [] = returnA ()"
| "receive_all es vis (d # ds) = bindA (deserialiser_handle es vis d) (\<lambda>_. receive_all es vis ds)"

locale message_protocol =
  fixes types :: "type_tag list" and entry :: "'m \<Rightarrow> type_tag" and value_of :: "'m \<Rightarrow> val"
    and object_of :: "string \<times> val \<Rightarrow> ser_error + 'm" and msg_ok :: "'m \<Rightarrow> bool"
  assumes entry_listed: "entry m \<in> set types"
    and names_distinct: "distinct (map tt_name types)"
    and tags_distinct: "distinct (map tt_tag types)"
    and type_ok: "taggable (tt_type (entry m))" "ty_ok (tt_type (entry m))" "depth (tt_type (entry m)) \<le> max_structure_depth"
    and msg_val_ok: "msg_ok m \<Longrightarrow> val_ok (tt_type (entry m)) (value_of m)"
    and object_of_value: "msg_ok m \<Longrightarrow> object_of (tt_name (entry m), value_of m) = Inr m"
begin

definition message_type :: "'m \<Rightarrow> ty" where
  "message_type m = T_implicit (tt_tag (entry m)) (tt_type (entry m))"

definition encoding :: "'m \<Rightarrow> octets" where
  "encoding m = der (message_type m) None (value_of m)"

lemma message_type_ok:
  assumes "msg_ok m"
  shows "headed (message_type m)" "ty_ok (message_type m)" "val_ok (message_type m) (value_of m)"
    "depth (message_type m) \<le> max_structure_depth" "headed_by (head_tag (message_type m) None) (encoding m)"
proof -
  show t: "headed (message_type m)" "ty_ok (message_type m)" "val_ok (message_type m) (value_of m)" "depth (message_type m) \<le> max_structure_depth"
    using type_ok [of m] msg_val_ok [OF assms] by (simp_all add: message_type_def)
  show "headed_by (head_tag (message_type m) None) (encoding m)" using der_head [OF t(1-3), of None] by (simp add: encoding_def)
qed

lemma encoding_written:
  assumes "msg_ok m"
  shows "asn_der_serialise_choice types (tt_name (entry m)) (value_of m) = Inr (encoding m)"
proof -
  have "writes None (serialise (message_type m) (value_of m)) (encoding m)"
    using coded_codes [OF coded_all message_type_ok(1-3) [OF assms], of None] by (auto simp: encoding_def)
  moreover have "vec (ostream_write (make_ostream []) (encoding m)) = encoding m"
    using ostream_write_at_end [of "make_ostream []" "encoding m"] by (simp add: make_ostream_def make_ostream_at_def)
  ultimately show ?thesis
    using choice_serialise_find [OF find_distinct [OF entry_listed names_distinct], of m "value_of m"]
    by (simp add: asn_der_serialise_choice_def writes_def enc_write_def make_encoder_def message_type_def)
qed

lemma encoding_read:
  assumes "msg_ok m" "advances 0 (make_decoder (encoding m @ rest)) d"
  shows "\<exists>st. choice_deserialise types \<lparr>dec_state = d, des_tag = None, ex = None\<rparr> = (Inr (tt_name (entry m), value_of m), st)"
  using choice_reads [OF entry_listed tags_distinct type_ok(1,2) msg_val_ok type_ok(3), OF assms(1)] assms(2)
  by (simp add: encoding_def message_type_def)

definition on_message :: "('m \<Rightarrow> 'c \<Rightarrow> 'c) \<Rightarrow> ('c, ser_error) packet_callback" where
  "on_message act = (\<lambda>deser _ c. case choice_deserialise types deser of (Inl e, _) \<Rightarrow> (Inl e, c) | (Inr v, _) \<Rightarrow> visitor object_of act v c)"

lemma handle_eq: "deserialiser_handle types (visitor object_of act) = do_check (on_message act)"
  by (simp add: deserialiser_handle_def on_message_def)

lemma drain_message:
  assumes "msg_ok m"
  shows "drain (on_message act) (encoding m @ rest) c = drain (on_message act) rest (act m c)"
proof -
  obtain d where d: "has_next (make_decoder (encoding m @ rest)) = (length (encoding m), d)"
    "advances 0 (make_decoder (encoding m @ rest)) d"
    using has_next_advances [OF message_type_ok(5) [OF assms]] by blast
  moreover obtain st where "choice_deserialise types \<lparr>dec_state = d, des_tag = None, ex = None\<rparr> = (Inr (tt_name (entry m), value_of m), st)"
    using encoding_read [OF assms d(2)] by blast
  moreover have "encoding m \<noteq> []" using headed_by_nonempty [OF message_type_ok(5) [OF assms]] .
  ultimately have "deser_func (on_message act) (encoding m @ rest) c = (Inr (length (encoding m)), act m c)" "encoding m \<noteq> []"
    by (simp_all add: deser_func_def on_message_def visitor_def object_of_value [OF assms] bindA_def returnA_def)
  then show ?thesis by (simp add: drain.simps [of _ "encoding m @ rest"])
qed

lemma drain_messages:
  assumes "list_all msg_ok ms"
  shows "drain (on_message act) (concat (map encoding ms) @ rest) c = drain (on_message act) rest (fold act ms c)"
  using assms by (induction ms arbitrary: c) (simp_all add: drain_message)

text \<open>A stream of messages that has only partly arrived: the complete ones, and a beginning of the next.\<close>

lemma take_messages:
  assumes "list_all msg_ok ms"
  shows "\<exists>k. k \<le> length ms \<and> packets (take n (concat (map encoding ms))) = map encoding (take k ms)"
proof -
  let ?s = "concat (map encoding ms)"
  have "list_all (\<lambda>p. \<exists>ht. headed_by ht p) (map encoding ms)" using assms message_type_ok(5) by (auto simp: list_all_iff)
  from split_packets_elements [OF this, of "[]"] have "packets ?s = map encoding ms" by simp
  moreover have "packets ?s = packets (take n ?s) @ packets (undelivered (take n ?s) @ drop n ?s)"
    using split_packets_append [of "take n ?s" "drop n ?s"] by simp
  ultimately have p: "map encoding ms = packets (take n ?s) @ packets (undelivered (take n ?s) @ drop n ?s)" by simp
  let ?k = "length (packets (take n ?s))"
  have "?k \<le> length ms" using arg_cong [OF p, of length] by simp
  moreover have "take ?k (map encoding ms) = packets (take n ?s)" using arg_cong [OF p, of "take ?k"] by simp
  ultimately show ?thesis by (intro exI [of _ ?k]) (simp add: take_map)
qed

lemma drain_stop: "packets r = [] \<Longrightarrow> drain (on_message act) r c = (Inr r, c)"
proof -
  assume "packets r = []"
  then have "packet_length r = 0" by (auto simp: split_packets.simps [of r] Let_def split: if_splits prod.splits)
  then have "deser_func (on_message act) r c = (Inr 0, c)"
    by (cases "has_next (make_decoder r)") (simp add: deser_func_def packet_length_def)
  then show ?thesis by (simp add: drain.simps [of _ r])
qed

end

text \<open>How many of the messages are complete in what has arrived.\<close>

definition complete_packets :: "octets \<Rightarrow> nat" where
  "complete_packets s = length (packets s)"

context message_protocol
begin

lemma receive_pieces:
  assumes "list_all msg_ok ms" "concat (map encoding ms) = s @ concat ds" "fits (buf_max_size p) s ds" "buf p = undelivered s"
    "c = fold act (take (complete_packets s) ms) c0"
  shows "receive_all types (visitor object_of act) ds (p, c) = (Inr (), p\<lparr>buf := []\<rparr>, fold act ms c0)"
  using assms(2-)
proof (induction ds arbitrary: s p c)
  case Nil
  have "list_all (\<lambda>p. \<exists>ht. headed_by ht p) (map encoding ms)" using assms(1) message_type_ok(5) by (auto simp: list_all_iff)
  from split_packets_elements [OF this, of "[]"] have "split_packets s = (map encoding ms, [])" using Nil.prems by simp
  then show ?case using Nil.prems by (simp add: returnA_def complete_packets_def)
next
  case (Cons d ds)
  let ?u = "undelivered s" and ?p = "p\<lparr>buf := undelivered (s @ d)\<rparr>"
  obtain k where k: "k \<le> length ms" "packets (s @ d) = map encoding (take k ms)"
    using take_messages [OF assms(1), of "length (s @ d)"] Cons.prems(1) by auto
  have sp: "packets (s @ d) = packets s @ packets (?u @ d)" "undelivered (s @ d) = undelivered (?u @ d)"
    using split_packets_append [of s d] by simp_all
  have cs: "complete_packets s \<le> k" "complete_packets (s @ d) = k" using arg_cong [OF sp(1), of length] k by (auto simp: complete_packets_def)
  have new: "packets (?u @ d) = map encoding (drop (complete_packets s) (take k ms))"
    using arg_cong [OF sp(1), of "drop (complete_packets s)"] k(2) by (simp add: complete_packets_def drop_map)
  have "?u @ d = concat (map encoding (drop (complete_packets s) (take k ms))) @ undelivered (s @ d)"
    using split_packets_concat [of "?u @ d"] new sp(2) by simp
  moreover have "packets (undelivered (s @ d)) = []" using undelivered_idem by blast
  moreover have "list_all msg_ok (drop (complete_packets s) (take k ms))"
    using assms(1) by (auto simp: list_all_iff dest: in_set_dropD in_set_takeD)
  ultimately have dr: "drain (on_message act) (?u @ d) c = (Inr (undelivered (s @ d)), fold act (drop (complete_packets s) (take k ms)) c)"
    by (simp add: drain_messages drain_stop)
  have "take (complete_packets s) ms @ drop (complete_packets s) (take k ms) = take k ms"
    using cs(1) append_take_drop_id [of "complete_packets s" "take k ms"] by (simp add: min_absorb1)
  then have "fold act (take k ms) c0 = fold act (take (complete_packets s) ms @ drop (complete_packets s) (take k ms)) c0" by simp
  then have fo: "fold act (drop (complete_packets s) (take k ms)) c = fold act (take k ms) c0" by (simp add: Cons.prems(4))
  have "\<not> buf_max_size p < length (buf p) + length d" using Cons.prems(2,3) by simp
  then have "do_check (on_message act) d (p, c) = (Inr (), ?p, fold act (take k ms) c0)"
    using dr [unfolded fo] Cons.prems(3) by (cases "?u = []") (simp_all add: do_check_def)
  moreover have "receive_all types (visitor object_of act) ds (?p, fold act (take k ms) c0) = (Inr (), ?p\<lparr>buf := []\<rparr>, fold act ms c0)"
    using Cons.prems cs(2) by (intro Cons.IH [of "s @ d"]) auto
  ultimately show ?case by (simp add: bindA_def handle_eq)
qed

text \<open>Messages cross: whatever is sent, cut anywhere, is handled in order and once.\<close>

lemma messages_handled:
  assumes "list_all msg_ok ms" "concat ds = concat (map encoding ms)" "fits m [] ds"
  shows "receive_all types (visitor object_of act) ds (make_packet_deserialiser m, c) =
    (Inr (), make_packet_deserialiser m, fold act ms c)"
  using receive_pieces [of ms "[]" ds "make_packet_deserialiser m" c act c] assms
  by (simp add: make_packet_deserialiser_def complete_packets_def)

end

end
