(* ===== verification/Packet_Protocol.thy ===== *)
theory Packet_Protocol
  imports Packet_Storage Message_Delivery
begin

text \<open>
  The messages between packet clients and the packet server, \<^verbatim>\<open>infrastructure/packet_transport/protocol\<close>, with the error
  object of \<^verbatim>\<open>network/net_error.hpp\<close> they carry, and their coding as a choice.
\<close>

section \<open>Messages\<close>

text \<open>Strings are their octets.\<close>

record net_error =
  ne_code :: "64 word"
  ne_message :: octets
  ne_category :: octets
  ne_aux :: octets

definition no_net_error :: net_error where
  "no_net_error = \<lparr>ne_code = 0, ne_message = [], ne_category = [], ne_aux = []\<rparr>"

definition current_version :: "64 word" where
  "current_version = 1"

datatype protocol_packet =
    Hello "64 word" int net_error
  | Transport_packet octets transport_payload int
  | Ack_packet int
  | Error_packet int net_error

section \<open>Coding\<close>

definition net_error_ty :: ty where
  "net_error_ty = T_seq [T_int 4, T_string, T_string, T_string]"

definition net_error_val :: "net_error \<Rightarrow> val" where
  "net_error_val e = V_seq [V_int (ne_code e), V_string (ne_message e), V_string (ne_category e), V_string (ne_aux e)]"

definition net_error_of :: "val \<Rightarrow> ser_error + net_error" where
  "net_error_of v = (case v of
       V_seq [V_int c, V_string m, V_string cat, V_string a] \<Rightarrow> Inr \<lparr>ne_code = c, ne_message = m, ne_category = cat, ne_aux = a\<rparr>
     | _ \<Rightarrow> Inl ill_typed)"

definition receiver_ty :: ty where
  "receiver_ty = T_seq [id_ty]"

definition receiver_val :: "octets \<Rightarrow> val" where
  "receiver_val r = V_seq [id_val r]"

definition packet_types :: "type_tag list" where
  "packet_types =
     [\<lparr>tt_name = ''hello'', tt_type = T_seq [T_int 4, T_int 8, net_error_ty], tt_tag = 1\<rparr>,
      \<lparr>tt_name = ''transport_packet'', tt_type = T_seq [receiver_ty, transport_payload_ty, T_int 8], tt_tag = 2\<rparr>,
      \<lparr>tt_name = ''ack_packet'', tt_type = T_seq [T_int 8], tt_tag = 3\<rparr>,
      \<lparr>tt_name = ''error_packet'', tt_type = T_seq [T_int 8, net_error_ty], tt_tag = 4\<rparr>]"

abbreviation (input) ack_val :: "int \<Rightarrow> val" where
  "ack_val a \<equiv> V_int (word_of_int a)"

primrec packet_entry :: "protocol_packet \<Rightarrow> type_tag" where
  "packet_entry (Hello _ _ _) = packet_types ! 0"
| "packet_entry (Transport_packet _ _ _) = packet_types ! 1"
| "packet_entry (Ack_packet _) = packet_types ! 2"
| "packet_entry (Error_packet _ _) = packet_types ! 3"

primrec packet_val :: "protocol_packet \<Rightarrow> val" where
  "packet_val (Hello v a e) = V_seq [V_int v, ack_val a, net_error_val e]"
| "packet_val (Transport_packet r p a) = V_seq [receiver_val r, transport_payload_val p, ack_val a]"
| "packet_val (Ack_packet a) = V_seq [ack_val a]"
| "packet_val (Error_packet a e) = V_seq [ack_val a, net_error_val e]"

definition hello_of :: "val \<Rightarrow> ser_error + protocol_packet" where
  "hello_of v = (case v of
       V_seq [V_int ver, V_int a, e] \<Rightarrow> bindE (net_error_of e) (\<lambda>e. Inr (Hello ver (sint a) e))
     | _ \<Rightarrow> Inl ill_typed)"

definition transport_packet_of :: "val \<Rightarrow> ser_error + protocol_packet" where
  "transport_packet_of v = (case v of
       V_seq [V_seq [r], p, V_int a] \<Rightarrow>
         (case (id_of r, transport_payload_of p) of (Inr r, Inr p) \<Rightarrow> Inr (Transport_packet r p (sint a)) | _ \<Rightarrow> Inl ill_typed)
     | _ \<Rightarrow> Inl ill_typed)"

definition ack_packet_of :: "val \<Rightarrow> ser_error + protocol_packet" where
  "ack_packet_of v = (case v of V_seq [V_int a] \<Rightarrow> Inr (Ack_packet (sint a)) | _ \<Rightarrow> Inl ill_typed)"

definition error_packet_of :: "val \<Rightarrow> ser_error + protocol_packet" where
  "error_packet_of v = (case v of
       V_seq [V_int a, e] \<Rightarrow> bindE (net_error_of e) (\<lambda>e. Inr (Error_packet (sint a) e))
     | _ \<Rightarrow> Inl ill_typed)"

definition packet_of :: "string \<times> val \<Rightarrow> ser_error + protocol_packet" where
  "packet_of = (\<lambda>(name, v).
     if name = ''hello'' then hello_of v
     else if name = ''transport_packet'' then transport_packet_of v
     else if name = ''ack_packet'' then ack_packet_of v
     else error_packet_of v)"

text \<open>\<^verbatim>\<open>send_packet\<close> of the connection and \<^verbatim>\<open>send\<close> of the client.\<close>

definition write_packet :: "protocol_packet \<Rightarrow> ser_error + octets" where
  "write_packet p = asn_der_serialise_choice packet_types (tt_name (packet_entry p)) (packet_val p)"

section \<open>Messages arrive\<close>

definition ack_ok :: "int \<Rightarrow> bool" where
  "ack_ok a \<longleftrightarrow> - (2 ^ 63) \<le> a \<and> a < 2 ^ 63"

primrec packet_ack :: "protocol_packet \<Rightarrow> int" where
  "packet_ack (Hello _ a _) = a"
| "packet_ack (Transport_packet _ _ a) = a"
| "packet_ack (Ack_packet a) = a"
| "packet_ack (Error_packet a _) = a"

definition packet_ok :: "protocol_packet \<Rightarrow> bool" where
  "packet_ok p \<longleftrightarrow> ack_ok (packet_ack p) \<and> val_ok (tt_type (packet_entry p)) (packet_val p)"

lemma sint_ack: "ack_ok a \<Longrightarrow> sint (word_of_int a :: 64 word) = a"
  by (simp add: ack_ok_def sint_sbintrunc' signed_take_bit_int_eq_self)

lemma net_error_of_val [simp]: "net_error_of (net_error_val e) = Inr e"
  by (simp add: net_error_of_def net_error_val_def)

lemma packet_of_val: "ack_ok (packet_ack p) \<Longrightarrow> packet_of (tt_name (packet_entry p), packet_val p) = Inr p"
  by (cases p) (simp_all add: packet_of_def packet_types_def hello_of_def transport_packet_of_def ack_packet_of_def error_packet_of_def
      receiver_val_def payload_of_val sint_ack)

interpretation packet_protocol: message_protocol packet_types packet_entry packet_val packet_of packet_ok
proof
  fix p
  show "packet_entry p \<in> set packet_types" by (cases p) (simp_all add: packet_types_def)
  show "distinct (map tt_name packet_types)" "distinct (map tt_tag packet_types)" by (simp_all add: packet_types_def)
  show "taggable (tt_type (packet_entry p))" "ty_ok (tt_type (packet_entry p))" "depth (tt_type (packet_entry p)) \<le> max_structure_depth"
    by (cases p; simp add: packet_types_def net_error_ty_def receiver_ty_def transport_payload_ty_def enveloped_content_ty_def
        encrypted_key_ty_def signature_ty_def max_structure_depth_def)+
  show "val_ok (tt_type (packet_entry p)) (packet_val p)" if "packet_ok p" using that by (simp add: packet_ok_def)
  show "packet_of (tt_name (packet_entry p), packet_val p) = Inr p" if "packet_ok p" using that packet_of_val by (simp add: packet_ok_def)
qed

lemma write_packet_eq: "packet_ok p \<Longrightarrow> write_packet p = Inr (packet_protocol.encoding p)"
  unfolding write_packet_def by (rule packet_protocol.encoding_written)

text \<open>The messages of the packet protocol arrive: what one side writes, cut into pieces anywhere on the way, is handled
  by the other side's deserialiser as exactly those messages, in order and each once, for every handler.\<close>

theorem packet_messages_arrive:
  assumes "list_all packet_ok ps" "list_all2 (\<lambda>p b. write_packet p = Inr b) ps bs" "concat ds = concat bs" "Packet_Deserialiser.fits m [] ds"
  shows "receive_all packet_types (visitor packet_of act) ds (make_packet_deserialiser m, c) =
    (Inr (), make_packet_deserialiser m, fold act ps c)"
proof -
  have "bs = map packet_protocol.encoding ps"
    using assms(1,2) write_packet_eq by (auto simp: list_all2_conv_all_nth list_all_length intro!: nth_equalityI)
  then show ?thesis using packet_protocol.messages_handled [OF assms(1) _ assms(4)] assms(3) by simp
qed

lemma ack_packet_ok: "ack_ok a \<Longrightarrow> packet_ok (Ack_packet a)"
  unfolding packet_ok_def
  by (simp, rule val_ok_bound) (simp_all add: packet_types_def sint_ack max_constructed_size_def, simp add: ack_ok_def)

theorem packet_messages_arrive_witness:
  "\<exists>b. write_packet (Ack_packet 7) = Inr b \<and>
    receive_all packet_types (visitor packet_of (\<lambda>p ps. ps @ [p])) [b, b] (make_packet_deserialiser (length b), []) =
      (Inr (), make_packet_deserialiser (length b), [Ack_packet 7, Ack_packet 7])"
proof -
  let ?b = "packet_protocol.encoding (Ack_packet 7)"
  have ok: "packet_ok (Ack_packet 7)" by (rule ack_packet_ok) (simp add: ack_ok_def)
  have "split_packets ?b = ([?b], [])"
    using split_packets_elements [of "[?b]" "[]"] packet_protocol.message_type_ok(5) [OF ok] by auto
  then have "Packet_Deserialiser.fits (length ?b) [] [?b, ?b]" by simp
  then show ?thesis
    using packet_messages_arrive [of "[Ack_packet 7, Ack_packet 7]" "[?b, ?b]" "[?b, ?b]" "length ?b" "\<lambda>p ps. ps @ [p]" "[]"]
      ok write_packet_eq [OF ok] by auto
qed

end
