(* ===== verification/Packet_Server.thy ===== *)
theory Packet_Server
  imports Packet_Protocol
begin

text \<open>
  The packet server, \<^verbatim>\<open>infrastructure/packet_transport/server/server_lib\<close>: \<^verbatim>\<open>connection.cpp\<close> and the client and
  server classes of \<^verbatim>\<open>packet_server.cpp\<close> over the store. A connection handles one message at a time, and a message
  takes several atomic steps (the store and the table of connections have their own locks), between which other
  connections and the writer thread of the store run.
\<close>

section \<open>State\<close>

text \<open>Where the handler of a message is: on_connect has entered the connection in the table, or has read the index; or
  transport_packet has put the packet in the store.\<close>

datatype handler_state =
    H_idle
  | H_registered
  | H_indexed "stored_packet list"
  | H_inserted packet_handle octets transport_payload int

record server_connection =
  sc_key :: "octets option"
  sc_id :: octets
  sc_good :: bool
  sc_ack_map :: "int \<Rightarrow> packet_handle option"
  sc_sent :: "protocol_packet list"
  sc_closed :: bool
  sc_alive :: bool
  sc_handler :: handler_state

record 'd packet_server =
  sv_storage :: "'d packet_storage"
  sv_conns :: "octets \<Rightarrow> nat option"
  sv_connections :: "server_connection list"

definition make_packet_server :: "'d packet_db \<Rightarrow> 'd \<Rightarrow> 'd packet_server" where
  "make_packet_server D d = \<lparr>sv_storage = make_storage D d, sv_conns = (\<lambda>_. None), sv_connections = []\<rparr>"

abbreviation conn :: "nat \<Rightarrow> 'd packet_server \<Rightarrow> server_connection" where
  "conn i sv \<equiv> sv_connections sv ! i"

definition set_conn :: "nat \<Rightarrow> server_connection \<Rightarrow> 'd packet_server \<Rightarrow> 'd packet_server" where
  "set_conn i c sv = sv\<lparr>sv_connections := (sv_connections sv)[i := c]\<rparr>"

text \<open>\<^verbatim>\<open>create_connection\<close>; the handshake decides the key of the peer.\<close>

definition create_connection :: "octets option \<Rightarrow> 'd packet_server \<Rightarrow> 'd packet_server" where
  "create_connection key sv = sv\<lparr>sv_connections := sv_connections sv @
     [\<lparr>sc_key = key, sc_id = [], sc_good = False, sc_ack_map = (\<lambda>_. None), sc_sent = [], sc_closed = False, sc_alive = True,
       sc_handler = H_idle\<rparr>]\<rparr>"

section \<open>Sending\<close>

definition unknown_error :: net_error where
  "unknown_error = \<lparr>ne_code = 1, ne_message = octets_of ''unknown error'', ne_category = octets_of ''securepath error'', ne_aux = []\<rparr>"

definition send_packet :: "protocol_packet \<Rightarrow> server_connection \<Rightarrow> ser_error option \<times> server_connection" where
  "send_packet p c = (case write_packet p of Inl e \<Rightarrow> (Some e, c) | Inr _ \<Rightarrow> (None, c\<lparr>sc_sent := sc_sent c @ [p]\<rparr>))"

text \<open>\<^verbatim>\<open>std::map::insert\<close> keeps an entry that exists.\<close>

definition remember :: "packet_handle \<Rightarrow> server_connection \<Rightarrow> server_connection" where
  "remember h c = (case sc_ack_map c (ph_ack h) of
       None \<Rightarrow> c\<lparr>sc_ack_map := (sc_ack_map c)(ph_ack h \<mapsto> h)\<rparr>
     | Some _ \<Rightarrow> c)"

definition send_handle :: "packet_handle \<Rightarrow> transport_payload \<Rightarrow> server_connection \<Rightarrow> ser_error option \<times> server_connection" where
  "send_handle h p c = send_packet (Transport_packet (sc_id c) p (ph_ack h)) (remember h c)"

primrec send_each :: "stored_packet list \<Rightarrow> server_connection \<Rightarrow> ser_error option \<times> server_connection" where
  "send_each [] c = (None, c)"
| "send_each (x # xs) c =
     (case send_packet (Transport_packet (sc_id c) (sp_packet x) (ph_ack (sp_handle x))) c of
        (Some e, c) \<Rightarrow> (Some e, c)
      | (None, c) \<Rightarrow> send_each xs c)"

definition send_stored :: "stored_packet list \<Rightarrow> server_connection \<Rightarrow> ser_error option \<times> server_connection" where
  "send_stored xs c = send_each xs (fold (\<lambda>x. remember (sp_handle x)) xs c)"

section \<open>Handlers\<close>

definition terminate :: "server_connection \<Rightarrow> server_connection" where
  "terminate c = c\<lparr>sc_closed := True\<rparr>"

definition server_on_connected :: "nat \<Rightarrow> 'd packet_server \<Rightarrow> 'd packet_server" where
  "server_on_connected i sv = (if sc_key (conn i sv) = None then set_conn i (terminate (conn i sv)) sv else sv)"

text \<open>\<^verbatim>\<open>operator()(hello)\<close> with \<^verbatim>\<open>on_connect\<close> up to the entry in the table; without a peer key the assertion fails.\<close>

definition on_hello :: "nat \<Rightarrow> protocol_packet \<Rightarrow> 'd packet_server \<Rightarrow> 'd packet_server option" where
  "on_hello i p sv = (case sc_key (conn i sv) of
       None \<Rightarrow> None
     | Some k \<Rightarrow> Some (case send_packet p ((conn i sv)\<lparr>sc_id := k\<rparr>) of
           (Some _, c) \<Rightarrow> set_conn i (terminate c) sv
         | (None, c) \<Rightarrow> (set_conn i (c\<lparr>sc_handler := H_registered\<rparr>) sv)\<lparr>sv_conns := (sv_conns sv)(k \<mapsto> i)\<rparr>))"

definition handle_transport :: "nat \<Rightarrow> octets \<Rightarrow> transport_payload \<Rightarrow> int \<Rightarrow> 'd packet_server \<Rightarrow> 'd packet_server" where
  "handle_transport i r p a sv =
     (if sig_issuer (tp_signature p) = sc_id (conn i sv)
      then let (h, st) = storage_insert r p a (sc_id (conn i sv)) i (sv_storage sv)
           in set_conn i ((conn i sv)\<lparr>sc_handler := H_inserted h r p a\<rparr>) (sv\<lparr>sv_storage := st\<rparr>)
      else sv)"

definition handle_ack :: "nat \<Rightarrow> int \<Rightarrow> 'd packet_server \<Rightarrow> 'd packet_server" where
  "handle_ack i a sv = (case sc_ack_map (conn i sv) a of
       None \<Rightarrow> sv
     | Some h \<Rightarrow> sv\<lparr>sv_storage := mark_as_acked h (sv_storage sv)\<rparr>)"

definition receive_packet :: "nat \<Rightarrow> protocol_packet \<Rightarrow> 'd packet_server \<Rightarrow> 'd packet_server option" where
  "receive_packet i p sv = (case p of
       Hello _ _ _ \<Rightarrow> on_hello i p sv
     | _ \<Rightarrow> Some (if \<not> sc_good (conn i sv) then set_conn i (terminate (conn i sv)) sv
                else case p of
                       Transport_packet r q a \<Rightarrow> handle_transport i r q a sv
                     | Ack_packet a \<Rightarrow> handle_ack i a sv
                     | _ \<Rightarrow> sv))"

text \<open>The rest of transport_packet: the packet is sent on when its receiver is there; when that throws, the sender is
  told.\<close>

definition deliver_packet :: "nat \<Rightarrow> packet_handle \<Rightarrow> octets \<Rightarrow> transport_payload \<Rightarrow> int \<Rightarrow> 'd packet_server \<Rightarrow> 'd packet_server" where
  "deliver_packet i h r p a sv = (case sv_conns sv r of
       None \<Rightarrow> sv
     | Some j \<Rightarrow>
         if \<not> sc_alive (conn j sv) then sv
         else case send_handle h p (conn j sv) of
                (None, c) \<Rightarrow> set_conn j c sv
              | (Some _, c) \<Rightarrow>
                  let sv = set_conn j c sv
                  in set_conn i (snd (send_packet (Error_packet a unknown_error) (conn i sv))) sv)"

text \<open>The rest of \<^verbatim>\<open>on_connect\<close>: the database is read, the handles are entered and the packets are sent, in one step. Between
  reading the index and this step everything else may happen; within it, the code lets other connections send in between.\<close>

definition finish_connect :: "'d packet_db \<Rightarrow> nat \<Rightarrow> stored_packet list \<Rightarrow> 'd packet_server \<Rightarrow> 'd packet_server" where
  "finish_connect D i xs sv =
     (let c = (conn i sv)\<lparr>sc_handler := H_idle\<rparr>;
          ps = merge_pending (pending_from_db D (sc_id c) (ps_db (sv_storage sv))) xs
      in case send_stored ps c of
           (None, c) \<Rightarrow> set_conn i (c\<lparr>sc_good := True\<rparr>) sv
         | (Some _, c) \<Rightarrow> set_conn i (terminate c) sv)"

definition handler_step :: "'d packet_db \<Rightarrow> nat \<Rightarrow> 'd packet_server \<Rightarrow> 'd packet_server option" where
  "handler_step D i sv = (case sc_handler (conn i sv) of
       H_idle \<Rightarrow> None
     | H_registered \<Rightarrow>
         Some (set_conn i ((conn i sv)\<lparr>sc_handler := H_indexed (pending_from_index (sc_id (conn i sv)) (sv_storage sv))\<rparr>) sv)
     | H_indexed xs \<Rightarrow> Some (finish_connect D i xs sv)
     | H_inserted h r p a \<Rightarrow>
         Some (deliver_packet i h r p a (set_conn i ((conn i sv)\<lparr>sc_handler := H_idle\<rparr>) sv)))"

section \<open>Acknowledgements to the sender\<close>

definition do_ack :: "nat \<times> octets \<times> int \<Rightarrow> 'd packet_server \<Rightarrow> 'd packet_server" where
  "do_ack = (\<lambda>(i, sender, a) sv.
     if sc_alive (conn i sv) then set_conn i (snd (send_packet (Ack_packet a) (conn i sv))) sv
     else case sv_conns sv sender of
            None \<Rightarrow> sv
          | Some j \<Rightarrow> if sc_alive (conn j sv) then set_conn j (snd (send_packet (Ack_packet a) (conn j sv))) sv else sv)"

text \<open>A step of the store's writer thread, with the callbacks it makes.\<close>

definition server_writer_step :: "'d packet_db \<Rightarrow> 'd packet_server \<Rightarrow> 'd packet_server option" where
  "server_writer_step D sv = (case writer_step D (sv_storage sv) of
       None \<Rightarrow> None
     | Some st \<Rightarrow> Some (fold do_ack (drop (length (ps_notified (sv_storage sv))) (ps_notified st)) (sv\<lparr>sv_storage := st\<rparr>)))"

section \<open>Runs\<close>

text \<open>
  A run with its history: the packets that were put in, who sent those of this run and with which number, who
  acknowledged what, and which packets were in the writer's hands when a connection read the index. A payload that comes
  in is one that the store can write and read back.
\<close>

record 'd server_system =
  ss_server :: "'d packet_server"
  ss_packets :: "int \<Rightarrow> (octets \<times> transport_payload) option"
  ss_senders :: "int \<Rightarrow> (octets \<times> int) option"
  ss_acked :: "(int \<times> octets) set"
  ss_missed :: "nat \<Rightarrow> int set"

abbreviation ss_conn :: "nat \<Rightarrow> 'd server_system \<Rightarrow> server_connection" where
  "ss_conn i ss \<equiv> conn i (ss_server ss)"

abbreviation ss_storage :: "'d server_system \<Rightarrow> 'd packet_storage" where
  "ss_storage ss \<equiv> sv_storage (ss_server ss)"

definition note_received :: "nat \<Rightarrow> protocol_packet \<Rightarrow> 'd server_system \<Rightarrow> 'd server_system" where
  "note_received i p ss =
     (if \<not> sc_good (ss_conn i ss) then ss
      else case p of
        Transport_packet r q a \<Rightarrow>
          if sig_issuer (tp_signature q) = sc_id (ss_conn i ss)
          then ss\<lparr>ss_packets := (ss_packets ss)(ps_sequence (ss_storage ss) + 1 \<mapsto> (r, q)),
                  ss_senders := (ss_senders ss)(ps_sequence (ss_storage ss) + 1 \<mapsto> (sc_id (ss_conn i ss), a))\<rparr>
          else ss
      | Ack_packet a \<Rightarrow>
          (case sc_ack_map (ss_conn i ss) a of
             None \<Rightarrow> ss
           | Some h \<Rightarrow> ss\<lparr>ss_acked := insert (ph_ack h, sc_id (ss_conn i ss)) (ss_acked ss)\<rparr>)
      | _ \<Rightarrow> ss)"

text \<open>A packet that comes in was deserialised from a frame, which bounds it; the runs below are those in which its payload can also
  be written to the database and read back.\<close>

definition acceptable :: "protocol_packet \<Rightarrow> bool" where
  "acceptable p = (case p of Transport_packet _ q _ \<Rightarrow> payload_ok q | _ \<Rightarrow> True)"

inductive server_step :: "'d packet_db \<Rightarrow> 'd server_system \<Rightarrow> 'd server_system \<Rightarrow> bool" for D :: "'d packet_db" where
  accepts: "server_step D ss (ss\<lparr>ss_server := create_connection key (ss_server ss)\<rparr>)"
| connects: "i < length (sv_connections (ss_server ss)) \<Longrightarrow>
    server_step D ss (ss\<lparr>ss_server := server_on_connected i (ss_server ss)\<rparr>)"
| receives: "i < length (sv_connections (ss_server ss)) \<Longrightarrow> sc_alive (ss_conn i ss) \<Longrightarrow> sc_handler (ss_conn i ss) = H_idle \<Longrightarrow>
    acceptable p \<Longrightarrow> receive_packet i p (ss_server ss) = Some sv \<Longrightarrow>
    server_step D ss ((note_received i p ss)\<lparr>ss_server := sv\<rparr>)"
| handles: "i < length (sv_connections (ss_server ss)) \<Longrightarrow> handler_step D i (ss_server ss) = Some sv \<Longrightarrow>
    server_step D ss (ss\<lparr>ss_server := sv, ss_missed := (if sc_handler (ss_conn i ss) = H_registered
      then (ss_missed ss)(i := qp_ack ` set (in_hand (ps_writer (ss_storage ss)))) else ss_missed ss)\<rparr>)"
| stores: "server_writer_step D (ss_server ss) = Some sv \<Longrightarrow> server_step D ss (ss\<lparr>ss_server := sv\<rparr>)"
| released: "i < length (sv_connections (ss_server ss)) \<Longrightarrow> sc_handler (ss_conn i ss) = H_idle \<Longrightarrow>
    server_step D ss (ss\<lparr>ss_server := set_conn i ((ss_conn i ss)\<lparr>sc_alive := False, sc_closed := True\<rparr>) (ss_server ss)\<rparr>)"

inductive server_reach :: "'d packet_db \<Rightarrow> 'd server_system \<Rightarrow> 'd server_system \<Rightarrow> bool"
  for D :: "'d packet_db" and start :: "'d server_system" where
  server_here: "server_reach D start start"
| server_onward: "server_reach D start ss \<Longrightarrow> server_step D ss ss' \<Longrightarrow> server_reach D start ss'"

definition start_server :: "'d packet_db \<Rightarrow> 'd \<Rightarrow> (int \<Rightarrow> (octets \<times> transport_payload) option) \<Rightarrow> 'd server_system" where
  "start_server D d P = \<lparr>ss_server = make_packet_server D d, ss_packets = P, ss_senders = (\<lambda>_. None), ss_acked = {}, ss_missed = (\<lambda>_. {})\<rparr>"

end
