(* ===== verification/Packet_Server_Invariant.thy ===== *)
theory Packet_Server_Invariant
  imports Packet_Server
begin

text \<open>
  The invariant of the packet server: its store is in a state that the users of the store can reach, the table of
  connected users leads to connections of those users, and what every connection holds, has sent and is in the
  middle of agrees with the packets that were taken in.
\<close>

section \<open>The store behind the server\<close>

definition held_handles :: "server_connection \<Rightarrow> packet_handle set" where
  "held_handles c = ran (sc_ack_map c) \<union>
     (case sc_handler c of H_indexed xs \<Rightarrow> sp_handle ` set xs | H_inserted h _ _ _ \<Rightarrow> {h} | _ \<Rightarrow> {})"

abbreviation connections :: "'d server_system \<Rightarrow> server_connection set" where
  "connections ss \<equiv> set (sv_connections (ss_server ss))"

definition store_of :: "'d server_system \<Rightarrow> packet_handle set \<Rightarrow> 'd storage_system" where
  "store_of ss hs = \<lparr>sy_storage = ss_storage ss, sy_handles = hs, sy_acked = fst ` ss_acked ss, sy_packets = ss_packets ss\<rparr>"

lemma store_of_simps [simp]:
  "sy_storage (store_of ss hs) = ss_storage ss" "sy_handles (store_of ss hs) = hs"
  "sy_acked (store_of ss hs) = fst ` ss_acked ss" "sy_packets (store_of ss hs) = ss_packets ss"
  by (simp_all add: store_of_def)

lemma set_conn_simps [simp]:
  "sv_storage (set_conn i c sv) = sv_storage sv" "sv_conns (set_conn i c sv) = sv_conns sv"
  "sv_connections (set_conn i c sv) = (sv_connections sv)[i := c]"
  by (simp_all add: set_conn_def)

lemma send_packet_cases:
  obtains (sent) "send_packet p c = (None, c\<lparr>sc_sent := sc_sent c @ [p]\<rparr>)"
  | (unwritable) e where "write_packet p = Inl e" "send_packet p c = (Some e, c)"
  by (cases "write_packet p") (auto simp: send_packet_def)

lemma send_packet_keeps [simp]:
  "sc_ack_map (snd (send_packet p c)) = sc_ack_map c" "sc_handler (snd (send_packet p c)) = sc_handler c"
  "sc_key (snd (send_packet p c)) = sc_key c" "sc_id (snd (send_packet p c)) = sc_id c"
  "sc_good (snd (send_packet p c)) = sc_good c" "sc_alive (snd (send_packet p c)) = sc_alive c"
  "sc_closed (snd (send_packet p c)) = sc_closed c"
  by (cases p c rule: send_packet_cases; simp)+

lemma send_packet_sent: "set (sc_sent (snd (send_packet p c))) \<subseteq> insert p (set (sc_sent c))"
  by (cases p c rule: send_packet_cases) auto

lemma send_each_only_sends: "\<exists>s. snd (send_each xs c) = c\<lparr>sc_sent := s\<rparr>"
proof (induction xs arbitrary: c)
  case Nil
  then show ?case by (intro exI [of _ "sc_sent c"]) simp
next
  case (Cons x xs)
  obtain e c' where s: "send_packet (Transport_packet (sc_id c) (sp_packet x) (ph_ack (sp_handle x))) c = (e, c')" by fastforce
  then obtain t where "c' = c\<lparr>sc_sent := t\<rparr>"
    by (cases "Transport_packet (sc_id c) (sp_packet x) (ph_ack (sp_handle x))" c rule: send_packet_cases) (auto intro: that [of "sc_sent c"])
  then show ?case using s Cons.IH [of c'] by (cases e) auto
qed

lemma send_each_keeps [simp]:
  "sc_ack_map (snd (send_each xs c)) = sc_ack_map c" "sc_handler (snd (send_each xs c)) = sc_handler c"
  "sc_key (snd (send_each xs c)) = sc_key c" "sc_id (snd (send_each xs c)) = sc_id c"
  "sc_good (snd (send_each xs c)) = sc_good c" "sc_alive (snd (send_each xs c)) = sc_alive c"
  using send_each_only_sends [of xs c] by auto

lemma remember_keeps [simp]:
  "sc_handler (remember h c) = sc_handler c" "sc_key (remember h c) = sc_key c" "sc_id (remember h c) = sc_id c"
  "sc_good (remember h c) = sc_good c" "sc_alive (remember h c) = sc_alive c" "sc_sent (remember h c) = sc_sent c"
  "sc_closed (remember h c) = sc_closed c"
  by (simp_all add: remember_def split: option.splits)

lemma ran_remember: "ran (sc_ack_map (remember h c)) \<subseteq> insert h (ran (sc_ack_map c))"
  by (auto simp: remember_def ran_def split: option.splits)

definition remember_all :: "stored_packet list \<Rightarrow> server_connection \<Rightarrow> server_connection" where
  "remember_all xs c = fold (\<lambda>x. remember (sp_handle x)) xs c"

lemma remember_all_keeps [simp]:
  "sc_handler (remember_all xs c) = sc_handler c" "sc_key (remember_all xs c) = sc_key c" "sc_id (remember_all xs c) = sc_id c"
  "sc_good (remember_all xs c) = sc_good c" "sc_alive (remember_all xs c) = sc_alive c" "sc_sent (remember_all xs c) = sc_sent c"
  "sc_closed (remember_all xs c) = sc_closed c"
  unfolding remember_all_def by (induction xs arbitrary: c) simp_all

lemma ran_remember_all: "ran (sc_ack_map (remember_all xs c)) \<subseteq> sp_handle ` set xs \<union> ran (sc_ack_map c)"
proof (induction xs arbitrary: c)
  case (Cons x xs)
  show ?case using Cons [of "remember (sp_handle x) c"] ran_remember [of "sp_handle x" c] by (auto simp: remember_all_def)
qed (simp add: remember_all_def)

lemma send_stored_eq: "send_stored xs c = send_each xs (remember_all xs c)"
  by (simp add: send_stored_def remember_all_def)

text \<open>What the server does to the store are steps of the store's users.\<close>

definition tracked :: "('d \<Rightarrow> int \<Rightarrow> (octets \<times> octets) option) \<Rightarrow> 'd server_system \<Rightarrow> bool" where
  "tracked rows ss \<longleftrightarrow> (\<exists>hs. storage_ok rows (store_of ss hs) \<and> (\<forall>c \<in> connections ss. held_handles c \<subseteq> hs))"


lemma tracked_same:
  assumes "tracked rows ss" "ss_storage ss' = ss_storage ss" "ss_packets ss' = ss_packets ss" "ss_acked ss' = ss_acked ss"
    "\<forall>c \<in> connections ss'. held_handles c \<subseteq> \<Union> (held_handles ` connections ss)"
  shows "tracked rows ss'"
proof -
  obtain hs where hs: "storage_ok rows (store_of ss hs)" "\<forall>c \<in> connections ss. held_handles c \<subseteq> hs" using assms(1) by (auto simp: tracked_def)
  have "store_of ss' hs = store_of ss hs" using assms(2-4) by (simp add: store_of_def)
  then show ?thesis using hs assms(5) unfolding tracked_def by (intro exI [of _ hs]) fastforce
qed

lemma held_set_conn:
  assumes "c' \<in> set ((sv_connections sv)[i := c])" "held_handles c \<subseteq> \<Union> (held_handles ` set (sv_connections sv))"
  shows "held_handles c' \<subseteq> \<Union> (held_handles ` set (sv_connections sv))"
  using assms set_update_subset_insert [of "sv_connections sv" i c] by blast

lemma held_in: "i < length (sv_connections sv) \<Longrightarrow> held_handles (conn i sv) \<subseteq> \<Union> (held_handles ` set (sv_connections sv))"
  using nth_mem by blast

lemma held_eq: "sc_ack_map c' = sc_ack_map c \<Longrightarrow> sc_handler c' = sc_handler c \<Longrightarrow> held_handles c' = held_handles c"
  by (simp add: held_handles_def)

lemma held_idle: "sc_ack_map c' = sc_ack_map c \<Longrightarrow> sc_handler c' = H_idle \<or> sc_handler c' = H_registered \<Longrightarrow> held_handles c' \<subseteq> held_handles c"
  by (auto simp: held_handles_def)

text \<open>An acknowledgement to a sender changes nothing but what was sent.\<close>

definition only_sent :: "'d packet_server \<Rightarrow> 'd packet_server \<Rightarrow> bool" where
  "only_sent sv sv' \<longleftrightarrow> sv_storage sv' = sv_storage sv \<and> sv_conns sv' = sv_conns sv \<and>
     length (sv_connections sv') = length (sv_connections sv) \<and>
     (\<forall>i < length (sv_connections sv). \<exists>s. conn i sv' = (conn i sv)\<lparr>sc_sent := s\<rparr>)"

lemma only_sent_refl: "only_sent sv sv"
proof -
  have "\<exists>s. c = c\<lparr>sc_sent := s\<rparr>" for c :: server_connection by (intro exI [of _ "sc_sent c"]) simp
  then show ?thesis by (simp add: only_sent_def)
qed

lemma only_sent_trans: "only_sent a b \<Longrightarrow> only_sent b c \<Longrightarrow> only_sent a c"
proof -
  assume a: "only_sent a b" "only_sent b c"
  have "\<exists>s. conn i c = (conn i a)\<lparr>sc_sent := s\<rparr>" if i: "i < length (sv_connections a)" for i
  proof -
    obtain s where "conn i b = (conn i a)\<lparr>sc_sent := s\<rparr>" using a(1) i unfolding only_sent_def by blast
    moreover obtain s' where "conn i c = (conn i b)\<lparr>sc_sent := s'\<rparr>" using a i unfolding only_sent_def by metis
    ultimately show ?thesis by auto
  qed
  then show ?thesis using a by (simp add: only_sent_def)
qed

lemma only_sent_send: "only_sent sv (set_conn i (snd (send_packet p (conn i sv))) sv)"
proof -
  obtain s where "snd (send_packet p (conn i sv)) = (conn i sv)\<lparr>sc_sent := s\<rparr>"
    by (cases p "conn i sv" rule: send_packet_cases) (auto intro: that [of "sc_sent (conn i sv)"])
  moreover have "\<exists>s. c = c\<lparr>sc_sent := s\<rparr>" for c :: server_connection by (intro exI [of _ "sc_sent c"]) simp
  ultimately have "\<exists>s. (sv_connections sv)[i := snd (send_packet p (conn i sv))] ! k = (conn k sv)\<lparr>sc_sent := s\<rparr>"
    if "k < length (sv_connections sv)" for k
    using that by (cases "k = i") auto
  then show ?thesis by (simp add: only_sent_def)
qed

lemma only_sent_do_ack: "only_sent sv (do_ack n sv)"
  by (cases n) (auto simp: do_ack_def only_sent_send only_sent_refl split: option.splits)

lemma only_sent_do_acks: "only_sent sv (fold do_ack ns sv)"
  by (induction ns arbitrary: sv) (auto intro: only_sent_refl only_sent_trans only_sent_do_ack)

lemma only_sent_held: "only_sent sv sv' \<Longrightarrow> held_handles ` set (sv_connections sv') = held_handles ` set (sv_connections sv)"
proof -
  assume o: "only_sent sv sv'"
  have "map held_handles (sv_connections sv') = map held_handles (sv_connections sv)"
  proof (rule nth_equalityI)
    fix i assume "i < length (map held_handles (sv_connections sv'))"
    then obtain s where "conn i sv' = (conn i sv)\<lparr>sc_sent := s\<rparr>" "i < length (sv_connections sv)" "i < length (sv_connections sv')"
      using o by (auto simp: only_sent_def)
    then show "map held_handles (sv_connections sv') ! i = map held_handles (sv_connections sv) ! i" by (simp add: held_handles_def)
  qed (use o in \<open>simp add: only_sent_def\<close>)
  then show ?thesis by (metis list.set_map)
qed

lemma see_all:
  assumes "storage_ok rows sy" "\<forall>h \<in> hs. ph_ack h \<in> dom (sy_packets sy) \<and> (\<not> ph_packet h \<longrightarrow> ph_ack h \<notin> set (acks (in_flight (sy_storage sy))))"
  shows "storage_ok rows (sy\<lparr>sy_handles := hs \<union> sy_handles sy\<rparr>)"
proof -
  let ?sy = "sy\<lparr>sy_handles := hs \<union> sy_handles sy\<rparr>"
  have "numbered rows ?sy = numbered rows sy" by (simp add: numbered_def)
  moreover have "placed rows ?sy = placed rows sy" by (simp add: placed_def)
  moreover have "removable rows ?sy = removable rows sy" by (simp add: removable_def)
  moreover have "flags_right ?sy \<longleftrightarrow> flags_right sy \<and> (\<forall>h \<in> hs. ph_ack h \<in> dom (sy_packets sy) \<and> (\<not> ph_packet h \<longrightarrow> ph_ack h \<notin> set (acks (in_flight (sy_storage sy)))))"
    by (simp add: flags_right_def ball_Un conj_ac)
  ultimately show ?thesis using assms by (simp add: storage_ok_def)
qed

lemma merge_pending_set:
  "set (merge_pending xs ys) \<subseteq> set xs \<union> set ys"
  "(\<lambda>x. ph_ack (sp_handle x)) ` set (merge_pending xs ys) = (\<lambda>x. ph_ack (sp_handle x)) ` (set xs \<union> set ys)"
  using unique_acks_subset [of "sort_key sp_ack (xs @ ys)"] unique_acks_acks [of "sort_key sp_ack (xs @ ys)"]
  by (simp_all add: merge_pending_def)


text \<open>What receiving a message can do, with its history.\<close>

lemma received_cases:
  fixes ss :: "'d server_system"
  defines "c i \<equiv> ss_conn i ss"
  assumes "receive_packet i p (ss_server ss) = Some sv"
  obtains (greeted) k where "sc_key (c i) = Some k" "\<exists>v a e. p = Hello v a e"
      "(note_received i p ss)\<lparr>ss_server := sv\<rparr> = ss\<lparr>ss_server := (set_conn i ((c i)\<lparr>sc_id := k, sc_sent := sc_sent (c i) @ [p], sc_handler := H_registered\<rparr>)
        (ss_server ss))\<lparr>sv_conns := (sv_conns (ss_server ss))(k \<mapsto> i)\<rparr>\<rparr>"
  | (ungreeted) k where "sc_key (c i) = Some k"
      "(note_received i p ss)\<lparr>ss_server := sv\<rparr> = ss\<lparr>ss_server := set_conn i ((c i)\<lparr>sc_id := k, sc_closed := True\<rparr>) (ss_server ss)\<rparr>"
  | (refused) "(note_received i p ss)\<lparr>ss_server := sv\<rparr> = ss\<lparr>ss_server := set_conn i ((c i)\<lparr>sc_closed := True\<rparr>) (ss_server ss)\<rparr>"
  | (ignored) "(note_received i p ss)\<lparr>ss_server := sv\<rparr> = ss"
  | (put) r q a h st where "p = Transport_packet r q a" "sc_good (c i)" "sig_issuer (tp_signature q) = sc_id (c i)"
      "storage_insert r q a (sc_id (c i)) i (ss_storage ss) = (h, st)" "ph_ack h = ps_sequence (ss_storage ss) + 1"
      "(note_received i p ss)\<lparr>ss_server := sv\<rparr> = ss\<lparr>ss_server := set_conn i ((c i)\<lparr>sc_handler := H_inserted h r q a\<rparr>) ((ss_server ss)\<lparr>sv_storage := st\<rparr>),
        ss_packets := (ss_packets ss)(ph_ack h \<mapsto> (r, q)), ss_senders := (ss_senders ss)(ph_ack h \<mapsto> (sc_id (c i), a))\<rparr>"
  | (acked) a h where "p = Ack_packet a" "sc_good (c i)" "sc_ack_map (c i) a = Some h"
      "(note_received i p ss)\<lparr>ss_server := sv\<rparr> = ss\<lparr>ss_server := (ss_server ss)\<lparr>sv_storage := mark_as_acked h (ss_storage ss)\<rparr>,
        ss_acked := insert (ph_ack h, sc_id (c i)) (ss_acked ss)\<rparr>"
proof (cases p)
  case (Hello v a e)
  have n: "note_received i p ss = ss" by (simp add: note_received_def Hello)
  obtain k where k: "sc_key (c i) = Some k"
    using assms(2) by (auto simp: receive_packet_def Hello on_hello_def c_def split: option.splits)
  show ?thesis
  proof (cases p "(c i)\<lparr>sc_id := k\<rparr>" rule: send_packet_cases)
    case sent
    then have "sv = (set_conn i ((c i)\<lparr>sc_id := k, sc_sent := sc_sent (c i) @ [p], sc_handler := H_registered\<rparr>) (ss_server ss))\<lparr>sv_conns := (sv_conns (ss_server ss))(k \<mapsto> i)\<rparr>"
      using assms(2) k by (simp add: receive_packet_def Hello on_hello_def c_def)
    then show ?thesis using greeted [OF k] Hello n by simp
  next
    case (unwritable e)
    then have "sv = set_conn i ((c i)\<lparr>sc_id := k, sc_closed := True\<rparr>) (ss_server ss)"
      using assms(2) k by (simp add: receive_packet_def Hello on_hello_def c_def terminate_def)
    then show ?thesis using ungreeted [OF k] n by simp
  qed
next
  case (Transport_packet r q a)
  obtain h st where i: "storage_insert r q a (sc_id (c i)) i (ss_storage ss) = (h, st)" by fastforce
  have h: "ph_ack h = ps_sequence (ss_storage ss) + 1" using i by (auto simp: storage_insert_def Let_def)
  consider (t) "\<not> sc_good (c i)" | (f) "sc_good (c i)" "sig_issuer (tp_signature q) \<noteq> sc_id (c i)"
    | (g) "sc_good (c i)" "sig_issuer (tp_signature q) = sc_id (c i)" by blast
  then show ?thesis
  proof cases
    case t
    then show ?thesis using assms(2) refused by (simp add: receive_packet_def Transport_packet note_received_def terminate_def c_def)
  next
    case f
    then show ?thesis using assms(2) ignored by (simp add: receive_packet_def Transport_packet note_received_def handle_transport_def c_def)
  next
    case g
    then have "sv = set_conn i ((c i)\<lparr>sc_handler := H_inserted h r q a\<rparr>) ((ss_server ss)\<lparr>sv_storage := st\<rparr>)"
      using assms(2) i by (simp add: receive_packet_def Transport_packet handle_transport_def c_def)
    then show ?thesis using put [OF Transport_packet g i h] g h by (simp add: note_received_def Transport_packet c_def)
  qed
next
  case (Ack_packet a)
  consider (t) "\<not> sc_good (c i)" | (f) "sc_good (c i)" "sc_ack_map (c i) a = None" | (g) h where "sc_good (c i)" "sc_ack_map (c i) a = Some h"
    by (cases "sc_ack_map (c i) a") auto
  then show ?thesis
  proof cases
    case t
    then show ?thesis using assms(2) refused by (simp add: receive_packet_def Ack_packet note_received_def terminate_def c_def)
  next
    case f
    then show ?thesis using assms(2) ignored by (simp add: receive_packet_def Ack_packet note_received_def handle_ack_def c_def)
  next
    case g
    then show ?thesis using assms(2) acked [OF Ack_packet g] by (simp add: receive_packet_def Ack_packet note_received_def handle_ack_def c_def)
  qed
next
  case (Error_packet a e)
  then show ?thesis using assms(2) refused ignored
    by (cases "sc_good (c i)") (simp_all add: receive_packet_def note_received_def terminate_def c_def)
qed

lemma tracked_quiet:
  assumes "tracked rows ss" "i < length (sv_connections (ss_server ss))" "sv_storage sv = ss_storage ss"
    "sv_connections sv = (sv_connections (ss_server ss))[i := c']" "held_handles c' \<subseteq> held_handles (ss_conn i ss)"
  shows "tracked rows (ss\<lparr>ss_server := sv, ss_missed := m\<rparr>)"
  using assms(3-) held_in [OF assms(2)] by (intro tracked_same [OF assms(1)]) (auto dest!: held_set_conn)

lemma tracked_receives:
  assumes "tracked rows ss" "i < length (sv_connections (ss_server ss))" "sc_handler (ss_conn i ss) = H_idle"
    "acceptable p" "receive_packet i p (ss_server ss) = Some sv"
  shows "tracked rows ((note_received i p ss)\<lparr>ss_server := sv\<rparr>)"
  using assms(5)
proof (cases rule: received_cases)
  case (greeted k)
  show ?thesis unfolding greeted(3)
    using tracked_quiet [OF assms(1,2), of _ _ "ss_missed ss"] by (simp add: held_idle)
next
  case (ungreeted k)
  show ?thesis unfolding ungreeted(2)
    using tracked_quiet [OF assms(1,2), of _ _ "ss_missed ss"] by (simp add: held_idle assms(3))
next
  case refused
  show ?thesis unfolding refused
    using tracked_quiet [OF assms(1,2), of _ _ "ss_missed ss"] by (simp add: held_idle assms(3))
next
  case ignored
  then show ?thesis using assms(1) by simp
next
  case (put r q a h st)
  let ?c = "(ss_conn i ss)\<lparr>sc_handler := H_inserted h r q a\<rparr>" and ?ss = "(note_received i p ss)\<lparr>ss_server := sv\<rparr>"
  obtain hs where hs: "storage_ok rows (store_of ss hs)" "\<forall>c \<in> connections ss. held_handles c \<subseteq> hs" using assms(1) by (auto simp: tracked_def)
  have "store_of ?ss (insert h hs) = (store_of ss hs)\<lparr>sy_storage := st, sy_handles := insert h (sy_handles (store_of ss hs)),
      sy_packets := (sy_packets (store_of ss hs))(ph_ack h \<mapsto> (r, q))\<rparr>"
    unfolding put(6) by (simp add: store_of_def)
  moreover have "payload_ok q" using assms(4) by (simp add: acceptable_def put(1))
  ultimately have "storage_ok rows (store_of ?ss (insert h hs))" using insert_ok [OF hs(1)] put(4) by simp
  moreover have "held_handles ?c \<subseteq> insert h hs" using hs(2) assms(2) nth_mem by (fastforce simp: held_handles_def)
  ultimately show ?thesis using hs(2) set_update_subset_insert [of "sv_connections (ss_server ss)" i ?c]
    unfolding tracked_def put(6) by (intro exI [of _ "insert h hs"]) auto
next
  case (acked a h)
  obtain hs where hs: "storage_ok rows (store_of ss hs)" "\<forall>c \<in> connections ss. held_handles c \<subseteq> hs" using assms(1) by (auto simp: tracked_def)
  have "h \<in> hs" using hs(2) acked(3) assms(2) nth_mem by (fastforce simp: held_handles_def ran_def)
  then have "storage_ok rows (store_of ((note_received i p ss)\<lparr>ss_server := sv\<rparr>) hs)"
    using acknowledge_ok [OF hs(1)] unfolding acked(4) by (simp add: store_of_def)
  then show ?thesis using hs(2) unfolding tracked_def acked(4) by (intro exI [of _ hs]) simp
qed


text \<open>What a step of a handler can do.\<close>

lemma handled_cases:
  fixes sv :: "'d packet_server"
  defines "c i \<equiv> conn i sv" and "freed i \<equiv> set_conn i ((conn i sv)\<lparr>sc_handler := H_idle\<rparr>) sv"
  assumes "handler_step D i sv = Some sv'"
  obtains (indexed) "sc_handler (c i) = H_registered"
      "sv' = set_conn i ((c i)\<lparr>sc_handler := H_indexed (pending_from_index (sc_id (c i)) (sv_storage sv))\<rparr>) sv"
  | (finished) xs e c' where "sc_handler (c i) = H_indexed xs"
      "send_stored (merge_pending (pending_from_db D (sc_id (c i)) (ps_db (sv_storage sv))) xs) ((c i)\<lparr>sc_handler := H_idle\<rparr>) = (e, c')"
      "sv' = set_conn i (case e of None \<Rightarrow> c'\<lparr>sc_good := True\<rparr> | Some _ \<Rightarrow> c'\<lparr>sc_closed := True\<rparr>) sv"
  | (nobody) h r p a where "sc_handler (c i) = H_inserted h r p a" "\<forall>j. sv_conns sv r = Some j \<longrightarrow> \<not> sc_alive (conn j (freed i))" "sv' = freed i"
  | (delivered) h r p a j where "sc_handler (c i) = H_inserted h r p a" "sv_conns sv r = Some j" "sc_alive (conn j (freed i))"
      "sv' = set_conn j ((remember h (conn j (freed i)))\<lparr>sc_sent := sc_sent (conn j (freed i)) @ [Transport_packet (sc_id (conn j (freed i))) p (ph_ack h)]\<rparr>) (freed i)"
  | (undeliverable) h r p a j e where "sc_handler (c i) = H_inserted h r p a" "sv_conns sv r = Some j"
      "write_packet (Transport_packet (sc_id (conn j (freed i))) p (ph_ack h)) = Inl e"
      "sv' = (let sv1 = set_conn j (remember h (conn j (freed i))) (freed i) in
         set_conn i (snd (send_packet (Error_packet a unknown_error) (conn i sv1))) sv1)"
proof (cases "sc_handler (c i)")
  case H_idle
  then show ?thesis using assms(3) by (simp add: handler_step_def c_def)
next
  case H_registered
  then show ?thesis using assms(3) indexed by (simp add: handler_step_def c_def)
next
  case (H_indexed xs)
  let ?ps = "merge_pending (pending_from_db D (sc_id (c i)) (ps_db (sv_storage sv))) xs"
  obtain e c' where s: "send_stored ?ps ((c i)\<lparr>sc_handler := H_idle\<rparr>) = (e, c')" by fastforce
  then have "sv' = set_conn i (case e of None \<Rightarrow> c'\<lparr>sc_good := True\<rparr> | Some _ \<Rightarrow> c'\<lparr>sc_closed := True\<rparr>) sv"
    using assms(3) H_indexed by (cases e) (simp_all add: handler_step_def finish_connect_def terminate_def c_def)
  then show ?thesis using finished [OF H_indexed s] by simp
next
  case (H_inserted h r p a)
  have sv': "sv' = deliver_packet i h r p a (freed i)" using assms(3) H_inserted by (simp add: handler_step_def c_def freed_def)
  have conns: "sv_conns (freed i) = sv_conns sv" by (simp add: freed_def)
  show ?thesis
  proof (cases "\<exists>j. sv_conns sv r = Some j \<and> sc_alive (conn j (freed i))")
    case False
    then have "sv' = freed i" unfolding sv' deliver_packet_def conns by (auto split: option.splits)
    then show ?thesis using nobody [OF H_inserted] False by blast
  next
    case True
    then obtain j where j: "sv_conns sv r = Some j" "sc_alive (conn j (freed i))" by blast
    let ?p = "Transport_packet (sc_id (conn j (freed i))) p (ph_ack h)"
    show ?thesis
    proof (cases ?p "remember h (conn j (freed i))" rule: send_packet_cases)
      case sent
      then have "sv' = set_conn j ((remember h (conn j (freed i)))\<lparr>sc_sent := sc_sent (conn j (freed i)) @ [?p]\<rparr>) (freed i)"
        unfolding sv' deliver_packet_def conns using j by (simp add: send_handle_def)
      then show ?thesis using delivered [OF H_inserted j] by simp
    next
      case (unwritable e)
      then have "sv' = (let sv1 = set_conn j (remember h (conn j (freed i))) (freed i) in
         set_conn i (snd (send_packet (Error_packet a unknown_error) (conn i sv1))) sv1)"
        unfolding sv' deliver_packet_def conns using j by (simp add: send_handle_def)
      then show ?thesis using undeliverable [OF H_inserted j(1) unwritable(1)] by simp
    qed
  qed
qed

lemma pending_index_known:
  assumes "storage_ok rows sy" "x \<in> set (pending_from_index r (sy_storage sy))"
  shows "sy_packets sy (ph_ack (sp_handle x)) = Some (r, sp_packet x) \<and> ph_packet (sp_handle x)"
  using assms(2) assms(1) unfolding pending_index_iff [OF assms(1)]
  by (auto simp: storage_ok_def placed_def storage_parts)

context packet_table
begin

lemma pending_db_known:
  assumes "storage_ok rows sy" "x \<in> set (pending_from_db D r (sy_db sy))"
  shows "sy_packets sy (ph_ack (sp_handle x)) = Some (r, sp_packet x) \<and> ph_ack (sp_handle x) \<notin> set (acks (in_flight (sy_storage sy)))"
proof -
  obtain a b where a: "rows (sy_db sy) a = Some (r, b)" "ph_ack (sp_handle x) = a" "read_der transport_payload_ty transport_payload_of b = Inr (sp_packet x)"
    using assms(2) by (auto simp: pending_db_iff row_packet_Some)
  then obtain p where "sy_packets sy a = Some (r, p)" "read_der transport_payload_ty transport_payload_of b = Inr p"
    using assms(1) unfolding storage_ok_def placed_def by blast
  then show ?thesis using a assms(1) by (auto simp: storage_ok_def numbered_def)
qed

end


lemma held_remember: "held_handles (remember h c) \<subseteq> insert h (held_handles c)"
  using ran_remember [of h c] by (auto simp: held_handles_def)

lemma held_handler: "held_handles (c\<lparr>sc_handler := H_idle\<rparr>) \<subseteq> held_handles c"
  by (simp add: held_idle)

definition all_held :: "'d packet_server \<Rightarrow> packet_handle set" where
  "all_held sv = \<Union> (held_handles ` set (sv_connections sv))"

lemma all_held_set: "held_handles c \<subseteq> H \<Longrightarrow> all_held sv \<subseteq> H \<Longrightarrow> all_held (set_conn i c sv) \<subseteq> H"
proof -
  assume a: "held_handles c \<subseteq> H" "all_held sv \<subseteq> H"
  have "all_held (set_conn i c sv) \<subseteq> held_handles c \<union> all_held sv"
    unfolding all_held_def set_conn_simps using image_mono [OF set_update_subset_insert [of "sv_connections sv" i c], of held_handles] by auto
  with a show ?thesis by blast
qed

lemma all_held_in: "all_held sv \<subseteq> H \<Longrightarrow> i < length (sv_connections sv) \<Longrightarrow> held_handles (conn i sv) \<subseteq> H"
  using held_in [of i sv] by (auto simp: all_held_def)

lemma all_held_send: "all_held sv \<subseteq> H \<Longrightarrow> i < length (sv_connections sv) \<Longrightarrow> all_held (set_conn i (snd (send_packet p (conn i sv))) sv) \<subseteq> H"
  using only_sent_held [OF only_sent_send [of sv i p]] by (simp add: all_held_def)

lemma tracked_held:
  assumes "tracked rows ss" "sv_storage sv = ss_storage ss" "all_held sv \<subseteq> all_held (ss_server ss)"
  shows "tracked rows (ss\<lparr>ss_server := sv, ss_missed := m\<rparr>)"
  using assms(2,3) by (intro tracked_same [OF assms(1)]) (auto simp: all_held_def)

context packet_table
begin

lemma tracked_handles:
  assumes t: "tracked rows ss" and i: "i < length (sv_connections (ss_server ss))" and s: "handler_step D i (ss_server ss) = Some sv"
    and conns: "\<forall>r j. sv_conns (ss_server ss) r = Some j \<longrightarrow> j < length (sv_connections (ss_server ss))"
  shows "tracked rows (ss\<lparr>ss_server := sv, ss_missed := m\<rparr>)"
  using s
proof (cases rule: handled_cases)
  case indexed
  let ?xs = "pending_from_index (sc_id (ss_conn i ss)) (ss_storage ss)"
  let ?c = "(ss_conn i ss)\<lparr>sc_handler := H_indexed ?xs\<rparr>" and ?ss = "ss\<lparr>ss_server := sv, ss_missed := m\<rparr>"
  obtain hs where hs: "storage_ok rows (store_of ss hs)" "\<forall>c \<in> connections ss. held_handles c \<subseteq> hs" using t by (auto simp: tracked_def)
  let ?hs = "sp_handle ` set ?xs \<union> hs"
  have "store_of ?ss ?hs = (store_of ss hs)\<lparr>sy_handles := sp_handle ` set ?xs \<union> sy_handles (store_of ss hs)\<rparr>"
    using indexed(2) by (simp add: store_of_def)
  then have "storage_ok rows (store_of ?ss ?hs)"
    using see_all [OF hs(1), of "sp_handle ` set ?xs"] pending_index_known [OF hs(1)] by fastforce
  moreover have "held_handles ?c \<subseteq> ?hs" using hs(2) i nth_mem by (fastforce simp: held_handles_def)
  ultimately show ?thesis using hs(2) indexed(2) set_update_subset_insert [of "sv_connections (ss_server ss)" i ?c]
    unfolding tracked_def by (intro exI [of _ ?hs]) auto
next
  case (finished xs e c')
  let ?db = "pending_from_db D (sc_id (ss_conn i ss)) (ps_db (ss_storage ss))" and ?ss = "ss\<lparr>ss_server := sv, ss_missed := m\<rparr>"
  let ?c = "case e of None \<Rightarrow> c'\<lparr>sc_good := True\<rparr> | Some _ \<Rightarrow> c'\<lparr>sc_closed := True\<rparr>"
  obtain hs where hs: "storage_ok rows (store_of ss hs)" "\<forall>c \<in> connections ss. held_handles c \<subseteq> hs" using t by (auto simp: tracked_def)
  let ?hs = "sp_handle ` set ?db \<union> hs"
  have "store_of ?ss ?hs = (store_of ss hs)\<lparr>sy_handles := sp_handle ` set ?db \<union> sy_handles (store_of ss hs)\<rparr>"
    using finished(3) by (simp add: store_of_def)
  then have "storage_ok rows (store_of ?ss ?hs)"
    using see_all [OF hs(1), of "sp_handle ` set ?db"] pending_db_known [OF hs(1)] by fastforce
  moreover have "held_handles ?c \<subseteq> ?hs"
  proof -
    have "sc_handler c' = H_idle" "sc_ack_map c' = sc_ack_map (remember_all (merge_pending ?db xs) ((ss_conn i ss)\<lparr>sc_handler := H_idle\<rparr>))"
      using arg_cong [OF finished(2), of snd] by (auto simp: send_stored_eq)
    then have "held_handles ?c \<subseteq> sp_handle ` set (merge_pending ?db xs) \<union> ran (sc_ack_map (ss_conn i ss))"
      using ran_remember_all [of "merge_pending ?db xs" "(ss_conn i ss)\<lparr>sc_handler := H_idle\<rparr>"] by (auto simp: held_handles_def split: option.splits)
    moreover have "ran (sc_ack_map (ss_conn i ss)) \<union> sp_handle ` set xs \<subseteq> hs" using hs(2) i finished(1) nth_mem by (fastforce simp: held_handles_def)
    ultimately show ?thesis using merge_pending_set(1) [of ?db xs] by blast
  qed
  ultimately show ?thesis using hs(2) finished(3) set_update_subset_insert [of "sv_connections (ss_server ss)" i ?c]
    unfolding tracked_def by (intro exI [of _ ?hs]) auto
next
  case (nobody h r p a)
  then show ?thesis using tracked_quiet [OF t i] by (simp add: held_handler)
next
  case (delivered h r p a j)
  let ?H = "all_held (ss_server ss)" and ?sv = "set_conn i ((ss_conn i ss)\<lparr>sc_handler := H_idle\<rparr>) (ss_server ss)"
  have "held_handles (ss_conn i ss) \<subseteq> ?H" using all_held_in [OF subset_refl i] .
  then have h: "h \<in> ?H" using delivered(1) by (auto simp: held_handles_def)
  have f: "all_held ?sv \<subseteq> ?H" by (rule all_held_set [OF subset_trans [OF held_handler] subset_refl]) fact
  have "j < length (sv_connections ?sv)" using conns delivered(2) by auto
  then have "held_handles (conn j ?sv) \<subseteq> ?H" by (rule all_held_in [OF f])
  then have "held_handles (remember h (conn j ?sv)) \<subseteq> ?H" using held_remember [of h "conn j ?sv"] h by blast
  moreover have "held_handles (c\<lparr>sc_sent := s\<rparr>) = held_handles c" for c s by (simp add: held_handles_def)
  ultimately have "all_held sv \<subseteq> ?H" unfolding delivered(4) using f by (intro all_held_set [where sv = ?sv]) simp_all
  then show ?thesis using tracked_held [OF t] by (simp add: delivered(4))
next
  case (undeliverable h r p a j e)
  let ?H = "all_held (ss_server ss)" and ?sv = "set_conn i ((ss_conn i ss)\<lparr>sc_handler := H_idle\<rparr>) (ss_server ss)"
  let ?sv1 = "set_conn j (remember h (conn j ?sv)) ?sv"
  have "held_handles (ss_conn i ss) \<subseteq> ?H" using all_held_in [OF subset_refl i] .
  then have h: "h \<in> ?H" using undeliverable(1) by (auto simp: held_handles_def)
  have f: "all_held ?sv \<subseteq> ?H" by (rule all_held_set [OF subset_trans [OF held_handler] subset_refl]) fact
  have "j < length (sv_connections ?sv)" using conns undeliverable(2) by auto
  then have "held_handles (conn j ?sv) \<subseteq> ?H" by (rule all_held_in [OF f])
  then have "held_handles (remember h (conn j ?sv)) \<subseteq> ?H" using held_remember [of h "conn j ?sv"] h by blast
  then have "all_held ?sv1 \<subseteq> ?H" using f by (rule all_held_set)
  moreover have "i < length (sv_connections ?sv1)" using i by simp
  ultimately have "all_held (set_conn i (snd (send_packet (Error_packet a unknown_error) (conn i ?sv1))) ?sv1) \<subseteq> ?H" by (rule all_held_send)
  then show ?thesis using tracked_held [OF t] by (simp add: undeliverable(4) Let_def)
qed

end


section \<open>What a connection holds\<close>

definition active :: "server_connection \<Rightarrow> bool" where
  "active c \<longleftrightarrow> sc_good c \<or> sc_handler c \<noteq> H_idle \<or> sc_ack_map c \<noteq> (\<lambda>_. None) \<or> sc_sent c \<noteq> []"

definition unwritable :: "protocol_packet \<Rightarrow> bool" where
  "unwritable p \<longleftrightarrow> (\<exists>e. write_packet p = Inl e)"

definition offered :: "server_connection \<Rightarrow> transport_payload \<Rightarrow> int \<Rightarrow> bool" where
  "offered c p a \<longleftrightarrow> Transport_packet (sc_id c) p a \<in> set (sc_sent c) \<or> unwritable (Transport_packet (sc_id c) p a) \<or> sc_closed c"

primrec handler_ok :: "(int \<Rightarrow> (octets \<times> transport_payload) option) \<Rightarrow> octets \<Rightarrow> handler_state \<Rightarrow> bool" where
  "handler_ok P k H_idle = True"
| "handler_ok P k H_registered = True"
| "handler_ok P k (H_indexed xs) = (\<forall>x \<in> set xs. P (ph_ack (sp_handle x)) = Some (k, sp_packet x))"
| "handler_ok P k (H_inserted h r p a) = (P (ph_ack h) = Some (r, p))"

definition conn_ok :: "(int \<Rightarrow> (octets \<times> transport_payload) option) \<Rightarrow> (int \<Rightarrow> (octets \<times> int) option) \<Rightarrow> int set \<Rightarrow> server_connection \<Rightarrow> bool" where
  "conn_ok P S W c \<longleftrightarrow> (active c \<longrightarrow> sc_key c = Some (sc_id c)) \<and>
     (\<forall>a h. sc_ack_map c a = Some h \<longrightarrow> ph_ack h = a \<and> (\<exists>p. P a = Some (sc_id c, p) \<and> offered c p a)) \<and>
     (\<forall>r p a. Transport_packet r p a \<in> set (sc_sent c) \<longrightarrow> r = sc_id c \<and> P a = Some (r, p)) \<and>
     (\<forall>n. Ack_packet n \<in> set (sc_sent c) \<longrightarrow> (\<exists>a \<in> W. S a = Some (sc_id c, n))) \<and>
     handler_ok P (sc_id c) (sc_handler c)"

lemma conn_ok_mono:
  assumes "conn_ok P S W c" "\<And>a x. P a = Some x \<Longrightarrow> P' a = Some x" "\<And>a x. S a = Some x \<Longrightarrow> S' a = Some x" "W \<subseteq> W'"
  shows "conn_ok P' S' W' c"
proof -
  have "handler_ok P' (sc_id c) (sc_handler c)" using assms(1,2) by (cases "sc_handler c") (auto simp: conn_ok_def)
  then show ?thesis using assms unfolding conn_ok_def by (meson subset_iff)
qed

lemma offered_mono: "offered c p a \<Longrightarrow> sc_id c' = sc_id c \<Longrightarrow> set (sc_sent c) \<subseteq> set (sc_sent c') \<Longrightarrow> sc_closed c \<longrightarrow> sc_closed c' \<Longrightarrow> offered c' p a"
  by (auto simp: offered_def)

text \<open>Changes that leave what was remembered and sent alone.\<close>

lemma conn_ok_change:
  assumes "conn_ok P S W c" "sc_key c = Some (sc_id c) \<or> \<not> active c'" "sc_key c' = sc_key c" "sc_id c' = sc_id c"
    "sc_ack_map c' = sc_ack_map c" "sc_sent c' = sc_sent c" "sc_closed c \<longrightarrow> sc_closed c'" "handler_ok P (sc_id c) (sc_handler c')"
  shows "conn_ok P S W c'"
proof -
  have o: "offered c' p a" if "offered c p a" for p a using offered_mono [OF that assms(4) _ assms(7)] assms(6) by simp
  have c: "\<forall>a h. sc_ack_map c a = Some h \<longrightarrow> ph_ack h = a \<and> (\<exists>p. P a = Some (sc_id c, p) \<and> offered c p a)"
    "\<forall>r p a. Transport_packet r p a \<in> set (sc_sent c) \<longrightarrow> r = sc_id c \<and> P a = Some (r, p)"
    "\<forall>n. Ack_packet n \<in> set (sc_sent c) \<longrightarrow> (\<exists>a \<in> W. S a = Some (sc_id c, n))"
    using assms(1) by (simp_all add: conn_ok_def)
  show ?thesis unfolding conn_ok_def assms(3-6)
    using assms(2,8) c(2,3) c(1) [THEN spec, THEN spec, THEN mp, THEN conjunct1] c(1) o by blast
qed

lemma conn_ok_inactive: "\<not> active c \<Longrightarrow> conn_ok P S W c"
  by (simp add: active_def conn_ok_def)

lemma conn_ok_close:
  assumes "conn_ok P S W c"
  shows "conn_ok P S W (c\<lparr>sc_closed := True\<rparr>)" "conn_ok P S W (c\<lparr>sc_alive := False, sc_closed := True\<rparr>)"
proof -
  have "sc_key c = Some (sc_id c) \<or> \<not> active c" "handler_ok P (sc_id c) (sc_handler c)" using assms by (auto simp: conn_ok_def)
  then show "conn_ok P S W (c\<lparr>sc_closed := True\<rparr>)" "conn_ok P S W (c\<lparr>sc_alive := False, sc_closed := True\<rparr>)"
    by (auto intro!: conn_ok_change [OF assms] simp: active_def)
qed

lemma conn_ok_handler:
  assumes "conn_ok P S W c" "sc_key c = Some (sc_id c)" "handler_ok P (sc_id c) h"
  shows "conn_ok P S W (c\<lparr>sc_handler := h\<rparr>)"
  by (rule conn_ok_change [OF assms(1)]) (use assms in simp_all)

lemma conn_ok_idle:
  assumes "conn_ok P S W c"
  shows "conn_ok P S W (c\<lparr>sc_handler := H_idle\<rparr>)"
proof (cases "active c")
  case True
  then show ?thesis using assms by (intro conn_ok_handler) (auto simp: conn_ok_def)
next
  case False
  then show ?thesis by (intro conn_ok_inactive) (simp add: active_def)
qed

lemma conn_ok_good: "conn_ok P S W c \<Longrightarrow> sc_key c = Some (sc_id c) \<Longrightarrow> conn_ok P S W (c\<lparr>sc_good := True\<rparr>)"
  by (rule conn_ok_change) (auto simp: conn_ok_def)

lemma conn_ok_sends:
  assumes "conn_ok P S W c" "sc_key c = Some (sc_id c)"
    "\<And>r q a. p = Transport_packet r q a \<Longrightarrow> r = sc_id c \<and> P a = Some (r, q)" "\<And>n. p = Ack_packet n \<Longrightarrow> \<exists>a \<in> W. S a = Some (sc_id c, n)"
  shows "conn_ok P S W (c\<lparr>sc_sent := sc_sent c @ [p]\<rparr>)" "conn_ok P S W (snd (send_packet p c))"
proof -
  let ?c = "c\<lparr>sc_sent := sc_sent c @ [p]\<rparr>"
  have o: "offered ?c q a" if "offered c q a" for q a by (rule offered_mono [OF that]) auto
  have c: "\<forall>a h. sc_ack_map c a = Some h \<longrightarrow> ph_ack h = a \<and> (\<exists>p. P a = Some (sc_id c, p) \<and> offered c p a)"
    "\<forall>r p a. Transport_packet r p a \<in> set (sc_sent c) \<longrightarrow> r = sc_id c \<and> P a = Some (r, p)"
    "\<forall>n. Ack_packet n \<in> set (sc_sent c) \<longrightarrow> (\<exists>a \<in> W. S a = Some (sc_id c, n))" "handler_ok P (sc_id c) (sc_handler c)"
    using assms(1) by (simp_all add: conn_ok_def)
  have "\<forall>a h. sc_ack_map c a = Some h \<longrightarrow> ph_ack h = a \<and> (\<exists>p. P a = Some (sc_id c, p) \<and> offered ?c p a)" using c(1) o by blast
  moreover have "\<forall>r q a. Transport_packet r q a \<in> set (sc_sent ?c) \<longrightarrow> r = sc_id c \<and> P a = Some (r, q)" using c(2) assms(3) by auto
  moreover have "\<forall>n. Ack_packet n \<in> set (sc_sent ?c) \<longrightarrow> (\<exists>a \<in> W. S a = Some (sc_id c, n))" using c(3) assms(4) by auto
  ultimately show s: "conn_ok P S W ?c" using assms(2) c(4) unfolding conn_ok_def by simp
  show "conn_ok P S W (snd (send_packet p c))" using s assms(1) by (cases p c rule: send_packet_cases) simp_all
qed

lemma conn_ok_id:
  assumes "conn_ok P S W c" "sc_key c = Some k"
  shows "conn_ok P S W (c\<lparr>sc_id := k\<rparr>)"
proof (cases "active c")
  case True
  then have "sc_id c = k" using assms(1,2) by (simp add: conn_ok_def)
  then show ?thesis using assms(1) by auto
next
  case False
  then show ?thesis by (intro conn_ok_inactive) (simp add: active_def)
qed

lemma conn_ok_hello:
  assumes "conn_ok P S W c" "sc_key c = Some k" "\<exists>v a e. p = Hello v a e"
  shows "conn_ok P S W (c\<lparr>sc_id := k, sc_sent := sc_sent c @ [p], sc_handler := H_registered\<rparr>)"
proof -
  have "conn_ok P S W (c\<lparr>sc_id := k\<rparr>)" by (rule conn_ok_id [OF assms(1,2)])
  from conn_ok_sends(1) [OF this, of p] have "conn_ok P S W (c\<lparr>sc_id := k, sc_sent := sc_sent c @ [p]\<rparr>)"
    using assms(2,3) by auto
  from conn_ok_handler [OF this, of H_registered] show ?thesis using assms(2) by simp
qed

text \<open>A handle may be remembered once its packet was offered.\<close>

lemma conn_ok_remember:
  assumes "conn_ok P S W c" "sc_key c = Some (sc_id c)" "P (ph_ack h) = Some (sc_id c, p)" "offered c p (ph_ack h)"
  shows "conn_ok P S W (remember h c)"
proof (cases "sc_ack_map c (ph_ack h)")
  case None
  have "offered (remember h c) q a = offered c q a" for q a by (simp add: offered_def)
  moreover have "sc_ack_map (remember h c) = (sc_ack_map c)(ph_ack h \<mapsto> h)" using None by (simp add: remember_def)
  ultimately show ?thesis using assms unfolding conn_ok_def by simp
qed (use assms in \<open>simp add: remember_def\<close>)

lemma send_remember: "send_packet p (remember h c) = (fst (send_packet p c), remember h (snd (send_packet p c)))"
proof -
  have "remember h (c\<lparr>sc_sent := s\<rparr>) = (remember h c)\<lparr>sc_sent := s\<rparr>" for s
    by (simp add: remember_def split: option.splits)
  then show ?thesis by (cases p c rule: send_packet_cases) (simp_all add: send_packet_def split: sum.splits)
qed

lemma conn_ok_send_handle:
  assumes "conn_ok P S W c" "sc_key c = Some (sc_id c)" "P (ph_ack h) = Some (sc_id c, p)"
  shows "conn_ok P S W (snd (send_handle h p c))"
proof -
  let ?p = "Transport_packet (sc_id c) p (ph_ack h)"
  have "offered (snd (send_packet ?p c)) p (ph_ack h)"
    by (cases ?p c rule: send_packet_cases) (auto simp: offered_def unwritable_def)
  moreover have "conn_ok P S W (snd (send_packet ?p c))" using assms by (intro conn_ok_sends(2)) auto
  ultimately have "conn_ok P S W (remember h (snd (send_packet ?p c)))" using assms by (intro conn_ok_remember) simp_all
  then show ?thesis by (simp add: send_handle_def send_remember)
qed


lemma remember_all_Cons: "remember_all (x # xs) c = remember_all xs (remember (sp_handle x) c)"
  by (simp add: remember_all_def)

lemma send_remember_all: "send_packet p (remember_all ys c) = (fst (send_packet p c), remember_all ys (snd (send_packet p c)))"
  by (induction ys arbitrary: c) (simp_all add: remember_all_Cons send_remember, simp add: remember_all_def)

lemma send_each_remember_all: "send_each xs (remember_all ys c) = (fst (send_each xs c), remember_all ys (snd (send_each xs c)))"
proof (induction xs arbitrary: c)
  case (Cons x xs)
  obtain e c' where "send_packet (Transport_packet (sc_id c) (sp_packet x) (ph_ack (sp_handle x))) c = (e, c')" by fastforce
  then show ?case using Cons.IH [of c'] by (cases e) (simp_all add: send_remember_all)
qed simp

lemma remember_all_closed: "remember_all ys (c\<lparr>sc_closed := b\<rparr>) = (remember_all ys c)\<lparr>sc_closed := b\<rparr>"
proof -
  have "remember h (c\<lparr>sc_closed := b\<rparr>) = (remember h c)\<lparr>sc_closed := b\<rparr>" for h c by (simp add: remember_def split: option.splits)
  then show ?thesis by (induction ys arbitrary: c) (simp_all add: remember_all_Cons, simp add: remember_all_def)
qed

lemma conn_ok_remember_all:
  assumes "conn_ok P S W c" "sc_key c = Some (sc_id c)"
    "\<And>x. x \<in> set xs \<Longrightarrow> P (ph_ack (sp_handle x)) = Some (sc_id c, sp_packet x) \<and> offered c (sp_packet x) (ph_ack (sp_handle x))"
  shows "conn_ok P S W (remember_all xs c)"
  using assms
proof (induction xs arbitrary: c)
  case (Cons x xs)
  have "conn_ok P S W (remember (sp_handle x) c)" using Cons.prems(1,2) Cons.prems(3) [of x] by (intro conn_ok_remember) auto
  then have "conn_ok P S W (remember_all xs (remember (sp_handle x) c))"
    using Cons.prems(2,3) by (intro Cons.IH) (auto simp: offered_def)
  then show ?case by (simp add: remember_all_Cons)
qed (simp add: remember_all_def)

lemma conn_ok_send_each:
  assumes "conn_ok P S W c" "sc_key c = Some (sc_id c)" "\<And>x. x \<in> set xs \<Longrightarrow> P (ph_ack (sp_handle x)) = Some (sc_id c, sp_packet x)"
    "send_each xs c = (e, c')"
  shows "conn_ok P S W c' \<and> set (sc_sent c) \<subseteq> set (sc_sent c') \<and> (e = None \<longrightarrow> (\<forall>x \<in> set xs. offered c' (sp_packet x) (ph_ack (sp_handle x))))"
  using assms
proof (induction xs arbitrary: c)
  case (Cons x xs)
  let ?p = "Transport_packet (sc_id c) (sp_packet x) (ph_ack (sp_handle x))"
  have ok: "conn_ok P S W (snd (send_packet ?p c))" using Cons.prems by (intro conn_ok_sends(2)) auto
  show ?case
  proof (cases ?p c rule: send_packet_cases)
    case sent
    let ?c = "c\<lparr>sc_sent := sc_sent c @ [?p]\<rparr>"
    have "send_each xs ?c = (e, c')" using Cons.prems(4) sent by simp
    then have ih: "conn_ok P S W c' \<and> set (sc_sent ?c) \<subseteq> set (sc_sent c') \<and> (e = None \<longrightarrow> (\<forall>x \<in> set xs. offered c' (sp_packet x) (ph_ack (sp_handle x))))"
      using ok sent Cons.prems(2,3) by (intro Cons.IH) auto
    moreover have "sc_id c' = sc_id c" using send_each_keeps(4) [of xs ?c] \<open>send_each xs ?c = (e, c')\<close> by simp
    ultimately show ?thesis by (auto simp: offered_def)
  next
    case (unwritable e)
    then show ?thesis using Cons.prems by auto
  qed
qed auto

lemma conn_ok_send_stored:
  assumes "conn_ok P S W c" "sc_key c = Some (sc_id c)" "\<And>x. x \<in> set xs \<Longrightarrow> P (ph_ack (sp_handle x)) = Some (sc_id c, sp_packet x)"
    "send_stored xs c = (e, c')"
  shows "conn_ok P S W (case e of None \<Rightarrow> c'\<lparr>sc_good := True\<rparr> | Some _ \<Rightarrow> c'\<lparr>sc_closed := True\<rparr>)"
proof -
  obtain c1 where c1: "send_each xs c = (e, c1)" "c' = remember_all xs c1"
    using assms(4) by (auto simp: send_stored_eq send_each_remember_all prod_eq_iff)
  have k: "sc_key c1 = sc_key c" "sc_id c1 = sc_id c" using send_each_keeps(3,4) [of xs c] c1(1) by simp_all
  have s: "conn_ok P S W c1 \<and> set (sc_sent c) \<subseteq> set (sc_sent c1) \<and> (e = None \<longrightarrow> (\<forall>x \<in> set xs. offered c1 (sp_packet x) (ph_ack (sp_handle x))))"
    by (rule conn_ok_send_each [OF assms(1,2) _ c1(1)]) (rule assms(3))
  show ?thesis
  proof (cases e)
    case None
    then have "conn_ok P S W c'" unfolding c1(2) using s assms(2,3) k by (intro conn_ok_remember_all) auto
    then show ?thesis using None assms(2) k by (simp add: conn_ok_good c1(2))
  next
    case (Some x)
    have "conn_ok P S W (remember_all xs (c1\<lparr>sc_closed := True\<rparr>))"
      using s assms(2,3) k by (intro conn_ok_remember_all) (auto simp: offered_def conn_ok_close)
    then show ?thesis using Some by (simp add: c1(2) remember_all_closed)
  qed
qed

lemma remember_all_acks: "sc_ack_map (remember_all xs c) a \<noteq> None \<longleftrightarrow> a \<in> (\<lambda>x. ph_ack (sp_handle x)) ` set xs \<or> sc_ack_map c a \<noteq> None"
proof (induction xs arbitrary: c)
  case (Cons x xs)
  have "sc_ack_map (remember h c) a \<noteq> None \<longleftrightarrow> a = ph_ack h \<or> sc_ack_map c a \<noteq> None" for h
    by (auto simp: remember_def split: option.splits)
  then show ?case using Cons [of "remember (sp_handle x) c"] by (auto simp: remember_all_Cons)
qed (simp add: remember_all_def)

section \<open>The invariant\<close>

definition settled :: "'d server_system \<Rightarrow> int set" where
  "settled ss = {a. a \<le> ps_sequence (ss_storage ss) \<and> a \<notin> set (acks (in_flight (ss_storage ss)))}"


definition linked :: "'d packet_server \<Rightarrow> bool" where
  "linked sv \<longleftrightarrow> (\<forall>r j. sv_conns sv r = Some j \<longrightarrow> j < length (sv_connections sv) \<and> sc_key (conn j sv) = Some r \<and> sc_id (conn j sv) = r)"

definition senders_ok :: "'d server_system \<Rightarrow> bool" where
  "senders_ok ss \<longleftrightarrow>
     (\<forall>a s n. ss_senders ss a = Some (s, n) \<longrightarrow> (\<exists>r p. ss_packets ss a = Some (r, p) \<and> sig_issuer (tp_signature p) = s)) \<and>
     (\<forall>a u. (a, u) \<in> ss_acked ss \<longrightarrow> (\<exists>p. ss_packets ss a = Some (u, p)))"

definition queue_ok :: "'d server_system \<Rightarrow> bool" where
  "queue_ok ss \<longleftrightarrow> (\<forall>p \<in> set (in_flight (ss_storage ss)). ss_senders ss (qp_ack p) = Some (qp_sender p, qp_sender_ack p) \<and>
     qp_notify p < length (sv_connections (ss_server ss)) \<and> sc_key (ss_conn (qp_notify p) ss) = Some (qp_sender p) \<and>
     sc_id (ss_conn (qp_notify p) ss) = qp_sender p)"

abbreviation conns_ok :: "'d server_system \<Rightarrow> server_connection set \<Rightarrow> bool" where
  "conns_ok ss cs \<equiv> \<forall>c \<in> cs. conn_ok (ss_packets ss) (ss_senders ss) (settled ss) c"

definition server_ok :: "('d \<Rightarrow> int \<Rightarrow> (octets \<times> octets) option) \<Rightarrow> 'd server_system \<Rightarrow> bool" where
  "server_ok rows ss \<longleftrightarrow> tracked rows ss \<and> linked (ss_server ss) \<and> senders_ok ss \<and> queue_ok ss \<and> conns_ok ss (connections ss)"

text \<open>A connection keeps the key of its peer, and its identifier once it is known.\<close>

definition same_peers :: "'d packet_server \<Rightarrow> 'd packet_server \<Rightarrow> bool" where
  "same_peers sv sv' \<longleftrightarrow> length (sv_connections sv) \<le> length (sv_connections sv') \<and>
     (\<forall>i < length (sv_connections sv). sc_key (conn i sv') = sc_key (conn i sv) \<and>
        (sc_key (conn i sv) = Some (sc_id (conn i sv)) \<longrightarrow> sc_id (conn i sv') = sc_id (conn i sv)))"

lemma same_peers_set:
  assumes "sc_key c = sc_key (conn i sv)" "sc_key (conn i sv) = Some (sc_id (conn i sv)) \<longrightarrow> sc_id c = sc_id (conn i sv)"
    "sv_connections sv' = (sv_connections sv)[i := c]"
  shows "same_peers sv sv'"
proof -
  have "sc_key ((sv_connections sv)[i := c] ! k) = sc_key (conn k sv) \<and>
      (sc_key (conn k sv) = Some (sc_id (conn k sv)) \<longrightarrow> sc_id ((sv_connections sv)[i := c] ! k) = sc_id (conn k sv))"
    if "k < length (sv_connections sv)" for k
    using assms(1,2) that by (cases "k = i") auto
  then show ?thesis by (simp add: same_peers_def assms(3))
qed

lemma same_peers_trans: "same_peers a b \<Longrightarrow> same_peers b c \<Longrightarrow> same_peers a c"
  unfolding same_peers_def by (metis order_less_le_trans order_trans)

lemma same_peers_sent: "only_sent sv sv' \<Longrightarrow> same_peers sv sv'"
  unfolding only_sent_def same_peers_def
  by (metis order_refl server_connection.select_convs(1,2) server_connection.surjective server_connection.update_convs(5))

lemma linked_mono:
  assumes "linked sv" "same_peers sv sv'" "sv_conns sv' = sv_conns sv"
  shows "linked sv'"
  unfolding linked_def
proof (intro allI impI)
  fix r j assume "sv_conns sv' r = Some j"
  then have j: "j < length (sv_connections sv)" "sc_key (conn j sv) = Some r" "sc_id (conn j sv) = r"
    using assms(1,3) by (auto simp: linked_def)
  then show "j < length (sv_connections sv') \<and> sc_key (conn j sv') = Some r \<and> sc_id (conn j sv') = r"
    using assms(2) by (simp add: same_peers_def)
qed

lemma queue_ok_mono:
  assumes "queue_ok ss" "same_peers (ss_server ss) (ss_server ss')" "set (in_flight (ss_storage ss')) \<subseteq> set (in_flight (ss_storage ss))"
    "ss_senders ss' = ss_senders ss"
  shows "queue_ok ss'"
  unfolding queue_ok_def
proof
  fix p assume "p \<in> set (in_flight (ss_storage ss'))"
  then have p: "ss_senders ss (qp_ack p) = Some (qp_sender p, qp_sender_ack p)" "qp_notify p < length (sv_connections (ss_server ss))"
    "sc_key (ss_conn (qp_notify p) ss) = Some (qp_sender p)" "sc_id (ss_conn (qp_notify p) ss) = qp_sender p"
    using assms(1,3) by (auto simp: queue_ok_def)
  then show "ss_senders ss' (qp_ack p) = Some (qp_sender p, qp_sender_ack p) \<and> qp_notify p < length (sv_connections (ss_server ss')) \<and>
      sc_key (ss_conn (qp_notify p) ss') = Some (qp_sender p) \<and> sc_id (ss_conn (qp_notify p) ss') = qp_sender p"
    using assms(2,4) by (simp add: same_peers_def)
qed

text \<open>A step that leaves the store and the history alone.\<close>

lemma server_ok_conns:
  assumes "server_ok rows ss" "sv_storage sv = ss_storage ss" "same_peers (ss_server ss) sv" "linked sv"
    "tracked rows (ss\<lparr>ss_server := sv, ss_missed := m\<rparr>)" "conns_ok ss (set (sv_connections sv))"
  shows "server_ok rows (ss\<lparr>ss_server := sv, ss_missed := m\<rparr>)"
proof -
  let ?ss = "ss\<lparr>ss_server := sv, ss_missed := m\<rparr>"
  note parts = assms(1) [unfolded server_ok_def]
  have "queue_ok ?ss" by (rule queue_ok_mono [of ss]) (simp_all add: parts assms(2,3))
  moreover have "settled ?ss = settled ss" using assms(2) by (simp add: settled_def)
  then have "conns_ok ?ss (connections ?ss)" using assms(6) by simp
  moreover have "senders_ok ?ss = senders_ok ss" by (simp add: senders_ok_def)
  moreover have "linked (ss_server ?ss)" using assms(4) by simp
  ultimately show ?thesis unfolding server_ok_def using assms(5) parts by blast
qed

lemma conns_ok_set:
  assumes "conns_ok ss (connections ss)" "conn_ok (ss_packets ss) (ss_senders ss) (settled ss) c"
  shows "conns_ok ss (set ((sv_connections (ss_server ss))[i := c]))"
  using assms set_update_subset_insert [of "sv_connections (ss_server ss)" i c] by blast

lemma server_ok_set:
  assumes "server_ok rows ss" "i < length (sv_connections (ss_server ss))" "conn_ok (ss_packets ss) (ss_senders ss) (settled ss) c"
    "sc_key c = sc_key (ss_conn i ss)" "sc_key (ss_conn i ss) = Some (sc_id (ss_conn i ss)) \<longrightarrow> sc_id c = sc_id (ss_conn i ss)"
    "tracked rows (ss\<lparr>ss_server := set_conn i c (ss_server ss), ss_missed := m\<rparr>)"
  shows "server_ok rows (ss\<lparr>ss_server := set_conn i c (ss_server ss), ss_missed := m\<rparr>)"
proof -
  note parts = assms(1) [unfolded server_ok_def]
  have p: "same_peers (ss_server ss) (set_conn i c (ss_server ss))" by (rule same_peers_set [OF assms(4,5)]) simp
  have l: "linked (set_conn i c (ss_server ss))" by (rule linked_mono [of "ss_server ss"]) (simp_all add: parts p)
  have "conns_ok ss (set ((sv_connections (ss_server ss))[i := c]))" by (rule conns_ok_set) (use parts assms(3) in blast)+
  then have "conns_ok ss (set (sv_connections (set_conn i c (ss_server ss))))" by simp
  from server_ok_conns [OF assms(1) _ p l assms(6) this] show ?thesis by simp
qed

lemma in_flight_insert:
  assumes "storage_insert r p a s i st = (h, st')"
  shows "in_flight st' = in_flight st @ [\<lparr>qp_receiver = r, qp_packet = p, qp_notify = i, qp_ack = ph_ack h, qp_sender_ack = a, qp_sender = s\<rparr>]"
    "ps_sequence st' = ps_sequence st + 1"
  using assms by (auto simp: storage_insert_def Let_def storage_parts)

lemma mark_as_acked_keeps: "in_flight (mark_as_acked h st) = in_flight st" "ps_sequence (mark_as_acked h st) = ps_sequence st"
  by (simp_all add: mark_as_acked_def storage_remove_def Let_def storage_parts)

lemma writer_step_flight:
  assumes "writer_step D st = Some st'"
  obtains (silent) "ps_notified st' = ps_notified st" "set (in_flight st') \<subseteq> set (in_flight st)" "ps_sequence st' = ps_sequence st"
  | (tells) p where "ps_notified st' = ps_notified st @ [(qp_notify p, qp_sender p, qp_sender_ack p)]" "in_flight st = p # in_flight st'"
      "ps_sequence st' = ps_sequence st"
proof (cases "ps_writer st")
  case W_idle
  show ?thesis
  proof (cases "next_packet st")
    case (Some n)
    then have "ps_notified st' = ps_notified st \<and> set (in_flight st') \<subseteq> set (in_flight st) \<and> ps_sequence st' = ps_sequence st"
      using assms W_idle by (auto simp: writer_step_def next_packet_def storage_parts Let_def split: if_splits list.splits bool.splits)
    then show ?thesis using silent by blast
  qed (use assms W_idle in \<open>simp add: writer_step_def\<close>)
next
  case (W_taken q a)
  then have "(ps_notified st' = ps_notified st \<and> set (in_flight st') \<subseteq> set (in_flight st) \<and> ps_sequence st' = ps_sequence st) \<or>
      (\<exists>p. ps_notified st' = ps_notified st @ [(qp_notify p, qp_sender p, qp_sender_ack p)] \<and> in_flight st = p # in_flight st' \<and> ps_sequence st' = ps_sequence st)"
    using assms by (cases q) (auto simp: writer_step_def storage_parts notify_sender_def split: if_splits)
  then show ?thesis using silent tells by blast
next
  case (W_writing q a)
  then have "(ps_notified st' = ps_notified st \<and> set (in_flight st') \<subseteq> set (in_flight st) \<and> ps_sequence st' = ps_sequence st) \<or>
      (\<exists>p. ps_notified st' = ps_notified st @ [(qp_notify p, qp_sender p, qp_sender_ack p)] \<and> in_flight st = p # in_flight st' \<and> ps_sequence st' = ps_sequence st)"
    using assms by (auto simp: writer_step_def storage_parts notify_sender_def split: option.splits)
  then show ?thesis using silent tells by blast
next
  case (W_removing a)
  then show ?thesis using assms silent by (auto simp: writer_step_def storage_parts)
qed (use assms in \<open>simp add: writer_step_def\<close>)


lemma server_ok_in:
  assumes "server_ok rows ss" "i < length (sv_connections (ss_server ss))"
  shows "conn_ok (ss_packets ss) (ss_senders ss) (settled ss) (ss_conn i ss)"
  using assms by (simp add: server_ok_def)

lemma conn_ok_key: "conn_ok P S W c \<Longrightarrow> active c \<Longrightarrow> sc_key c = Some (sc_id c)"
  by (simp add: conn_ok_def)

lemma server_ok_receives:
  assumes ok: "server_ok rows ss" and i: "i < length (sv_connections (ss_server ss))" and h: "sc_handler (ss_conn i ss) = H_idle"
    and p: "acceptable p" and s: "receive_packet i p (ss_server ss) = Some sv"
  shows "server_ok rows ((note_received i p ss)\<lparr>ss_server := sv\<rparr>)"
proof -
  have t: "tracked rows ((note_received i p ss)\<lparr>ss_server := sv\<rparr>)"
    using tracked_receives [OF _ i h p s] ok by (simp add: server_ok_def)
  note c = server_ok_in [OF ok i]
  note parts = ok [unfolded server_ok_def]
  show ?thesis using s
  proof (cases rule: received_cases)
    case (greeted k)
    let ?c = "(ss_conn i ss)\<lparr>sc_id := k, sc_sent := sc_sent (ss_conn i ss) @ [p], sc_handler := H_registered\<rparr>"
    let ?sv = "(set_conn i ?c (ss_server ss))\<lparr>sv_conns := (sv_conns (ss_server ss))(k \<mapsto> i)\<rparr>"
    have sp: "same_peers (ss_server ss) ?sv" by (rule same_peers_set [where c = ?c and i = i]) (use greeted(1) in auto)
    have "linked (set_conn i ?c (ss_server ss))"
      by (rule linked_mono [of "ss_server ss"]) (use parts sp in \<open>simp_all add: same_peers_def\<close>)
    then have l: "linked ?sv" using i greeted(1) by (auto simp: linked_def)
    have "conns_ok ss (set ((sv_connections (ss_server ss))[i := ?c]))"
      by (rule conns_ok_set) (use parts conn_ok_hello [OF c greeted(1,2)] in blast)+
    then have cs: "conns_ok ss (set (sv_connections ?sv))" by simp
    show ?thesis unfolding greeted(3)
      using server_ok_conns [OF ok _ sp l _ cs, of "ss_missed ss"] t [unfolded greeted(3)] by simp
  next
    case (ungreeted k)
    have "conn_ok (ss_packets ss) (ss_senders ss) (settled ss) ((ss_conn i ss)\<lparr>sc_id := k, sc_closed := True\<rparr>)"
      using conn_ok_close(1) [OF conn_ok_id [OF c ungreeted(1)]] by simp
    then show ?thesis unfolding ungreeted(2)
      using server_ok_set [OF ok i, of _ "ss_missed ss"] ungreeted(1) t [unfolded ungreeted(2)] by simp
  next
    case refused
    show ?thesis unfolding refused
      using server_ok_set [OF ok i conn_ok_close(1) [OF c], of "ss_missed ss"] t [unfolded refused] by simp
  next
    case ignored
    then show ?thesis using ok by simp
  next
    case (put r q a h st)
    let ?ss = "(note_received i p ss)\<lparr>ss_server := sv\<rparr>" and ?c = "(ss_conn i ss)\<lparr>sc_handler := H_inserted h r q a\<rparr>"
    have k: "sc_key (ss_conn i ss) = Some (sc_id (ss_conn i ss))" using conn_ok_key [OF c] put(2) by (simp add: active_def)
    have new: "ss_packets ss (ph_ack h) = None"
    proof -
      obtain hs where "storage_ok rows (store_of ss hs)" using parts by (auto simp: tracked_def)
      then have "ss_packets ss (ph_ack h) \<noteq> None \<longrightarrow> ph_ack h \<le> ps_sequence (ss_storage ss)" by (simp add: storage_ok_def numbered_def)
      then show ?thesis using put(5) by (cases "ss_packets ss (ph_ack h)") auto
    qed
    then have new': "ss_senders ss (ph_ack h) = None" using parts unfolding senders_ok_def by (metis option.distinct(1) option.exhaust surj_pair)
    have eq: "ss_packets ?ss = (ss_packets ss)(ph_ack h \<mapsto> (r, q))" "ss_senders ?ss = (ss_senders ss)(ph_ack h \<mapsto> (sc_id (ss_conn i ss), a))"
      "ss_acked ?ss = ss_acked ss" "ss_server ?ss = set_conn i ?c ((ss_server ss)\<lparr>sv_storage := st\<rparr>)"
      unfolding put(6) by simp_all
    have fl: "in_flight st = in_flight (ss_storage ss) @ [\<lparr>qp_receiver = r, qp_packet = q, qp_notify = i, qp_ack = ph_ack h, qp_sender_ack = a,
        qp_sender = sc_id (ss_conn i ss)\<rparr>]" "ps_sequence st = ps_sequence (ss_storage ss) + 1"
      using in_flight_insert [OF put(4)] by simp_all
    have w: "settled ss \<subseteq> settled ?ss" using put(5) by (auto simp: settled_def eq(4) fl)
    have sp: "same_peers (ss_server ss) (ss_server ?ss)" by (rule same_peers_set [where c = ?c and i = i]) (use k in \<open>auto simp: eq(4)\<close>)
    have m: "conn_ok (ss_packets ?ss) (ss_senders ?ss) (settled ?ss) x" if "conn_ok (ss_packets ss) (ss_senders ss) (settled ss) x" for x
      by (rule conn_ok_mono [OF that _ _ w]) (use new new' in \<open>auto simp: eq\<close>)
    have "conn_ok (ss_packets ?ss) (ss_senders ?ss) (settled ?ss) ?c" using m [OF c] k by (intro conn_ok_handler) (simp_all add: eq)
    moreover have "connections ?ss \<subseteq> insert ?c (connections ss)" unfolding eq(4) by (simp add: set_update_subset_insert)
    ultimately have "conns_ok ?ss (connections ?ss)" using m parts by blast
    moreover have "linked (ss_server ?ss)" by (rule linked_mono [of "ss_server ss"]) (use parts sp in \<open>simp_all add: eq(4)\<close>)
    moreover have "(ph_ack h, u) \<notin> ss_acked ss" for u using parts new unfolding senders_ok_def by fastforce
    then have "senders_ok ?ss" using parts put(3) new by (auto simp: senders_ok_def eq)
    moreover have "queue_ok ?ss"
      unfolding queue_ok_def
    proof
      fix x assume "x \<in> set (in_flight (ss_storage ?ss))"
      then consider "x \<in> set (in_flight (ss_storage ss))" | "x = \<lparr>qp_receiver = r, qp_packet = q, qp_notify = i, qp_ack = ph_ack h,
          qp_sender_ack = a, qp_sender = sc_id (ss_conn i ss)\<rparr>" by (auto simp: eq(4) fl)
      then show "ss_senders ?ss (qp_ack x) = Some (qp_sender x, qp_sender_ack x) \<and> qp_notify x < length (sv_connections (ss_server ?ss)) \<and>
          sc_key (ss_conn (qp_notify x) ?ss) = Some (qp_sender x) \<and> sc_id (ss_conn (qp_notify x) ?ss) = qp_sender x"
      proof cases
        case 1
        then have x: "ss_senders ss (qp_ack x) = Some (qp_sender x, qp_sender_ack x)" "qp_notify x < length (sv_connections (ss_server ss))"
          "sc_key (ss_conn (qp_notify x) ss) = Some (qp_sender x)" "sc_id (ss_conn (qp_notify x) ss) = qp_sender x"
          using parts by (auto simp: queue_ok_def)
        then have "qp_ack x \<noteq> ph_ack h" using new' by auto
        then show ?thesis using x sp by (auto simp: same_peers_def eq(2))
      next
        case 2
        then show ?thesis using k i by (simp add: eq)
      qed
    qed
    ultimately show ?thesis using t by (simp add: server_ok_def)
  next
    case (acked a h)
    let ?ss = "(note_received i p ss)\<lparr>ss_server := sv\<rparr>"
    have eq: "ss_packets ?ss = ss_packets ss" "ss_senders ?ss = ss_senders ss" "ss_acked ?ss = insert (ph_ack h, sc_id (ss_conn i ss)) (ss_acked ss)"
      "ss_server ?ss = (ss_server ss)\<lparr>sv_storage := mark_as_acked h (ss_storage ss)\<rparr>"
      unfolding acked(4) by simp_all
    have "settled ?ss = settled ss" by (simp add: settled_def eq(4) mark_as_acked_keeps)
    then have "conns_ok ?ss (connections ?ss)" using parts by (simp add: eq)
    moreover have "linked (ss_server ?ss)" using parts by (simp add: eq linked_def)
    moreover have "queue_ok ?ss" using parts by (simp add: queue_ok_def eq mark_as_acked_keeps)
    moreover have "\<exists>p. ss_packets ss (ph_ack h) = Some (sc_id (ss_conn i ss), p)" using c acked(3) by (auto simp: conn_ok_def)
    then have "senders_ok ?ss" using parts by (auto simp: senders_ok_def eq)
    ultimately show ?thesis using t by (simp add: server_ok_def)
  qed
qed


lemma server_ok_two:
  assumes ok: "server_ok rows ss" and i: "i < length (sv_connections (ss_server ss))" and sv: "sv_storage sv = ss_storage ss"
    "sv_conns sv = sv_conns (ss_server ss)" and sp: "same_peers (ss_server ss) sv" and cs: "conns_ok ss (set (sv_connections sv))"
    and t: "tracked rows (ss\<lparr>ss_server := sv, ss_missed := m\<rparr>)"
  shows "server_ok rows (ss\<lparr>ss_server := sv, ss_missed := m\<rparr>)"
proof -
  have "linked sv" by (rule linked_mono [of "ss_server ss"]) (use ok sp sv in \<open>simp_all add: server_ok_def\<close>)
  then show ?thesis using server_ok_conns [OF ok sv(1) sp _ t cs] by simp
qed

lemma remember_sent: "remember h (c\<lparr>sc_sent := s\<rparr>) = (remember h c)\<lparr>sc_sent := s\<rparr>"
  by (simp add: remember_def split: option.splits)

lemma conns_ok_upd: "conns_ok ss (set xs) \<Longrightarrow> conn_ok (ss_packets ss) (ss_senders ss) (settled ss) c \<Longrightarrow> conns_ok ss (set (xs[j := c]))"
  using set_update_subset_insert [of xs j c] by blast

context packet_table
begin

lemma server_ok_handles:
  assumes ok: "server_ok rows ss" and i: "i < length (sv_connections (ss_server ss))" and s: "handler_step D i (ss_server ss) = Some sv"
  shows "server_ok rows (ss\<lparr>ss_server := sv, ss_missed := m\<rparr>)"
proof -
  note parts = ok [unfolded server_ok_def]
  have "\<forall>r j. sv_conns (ss_server ss) r = Some j \<longrightarrow> j < length (sv_connections (ss_server ss))" using parts by (simp add: linked_def)
  then have t: "tracked rows (ss\<lparr>ss_server := sv, ss_missed := m\<rparr>)" using tracked_handles [OF _ i s] parts by blast
  obtain hs where hs: "storage_ok rows (store_of ss hs)" using parts by (auto simp: tracked_def)
  note c = server_ok_in [OF ok i]
  have "sc_handler (ss_conn i ss) \<noteq> H_idle" using s by (auto simp: handler_step_def)
  then have k: "sc_key (ss_conn i ss) = Some (sc_id (ss_conn i ss))" using conn_ok_key [OF c] by (simp add: active_def)
  define F where "F = set_conn i ((ss_conn i ss)\<lparr>sc_handler := H_idle\<rparr>) (ss_server ss)"
  have F: "sv_storage F = ss_storage ss" "sv_conns F = sv_conns (ss_server ss)" "length (sv_connections F) = length (sv_connections (ss_server ss))"
    by (simp_all add: F_def)
  have f: "conns_ok ss (set (sv_connections F))"
    using conns_ok_set [OF _ conn_ok_idle [OF c], of i] parts by (simp add: F_def)
  have fp: "same_peers (ss_server ss) F" by (rule same_peers_set [where i = i]) (simp_all add: F_def)
  have j: "j < length (sv_connections F)" "sc_key (conn j F) = Some r" "sc_id (conn j F) = r" if "sv_conns (ss_server ss) r = Some j" for r j
  proof -
    have "linked F" by (rule linked_mono [of "ss_server ss"]) (use parts fp F in simp_all)
    then show "j < length (sv_connections F)" "sc_key (conn j F) = Some r" "sc_id (conn j F) = r" using that F(2) by (auto simp: linked_def)
  qed
  show ?thesis using s
  proof (cases rule: handled_cases)
    case indexed
    let ?xs = "pending_from_index (sc_id (ss_conn i ss)) (ss_storage ss)"
    have "handler_ok (ss_packets ss) (sc_id (ss_conn i ss)) (H_indexed ?xs)" using pending_index_known [OF hs] by auto
    from conn_ok_handler [OF c k this] show ?thesis using t server_ok_set [OF ok i] by (simp add: indexed(2))
  next
    case (finished xs e c')
    let ?db = "pending_from_db D (sc_id (ss_conn i ss)) (ps_db (ss_storage ss))"
    have "\<forall>x \<in> set xs. ss_packets ss (ph_ack (sp_handle x)) = Some (sc_id (ss_conn i ss), sp_packet x)" using c finished(1) by (simp add: conn_ok_def)
    moreover have "\<forall>x \<in> set ?db. ss_packets ss (ph_ack (sp_handle x)) = Some (sc_id (ss_conn i ss), sp_packet x)" using pending_db_known [OF hs] by auto
    ultimately have "x \<in> set (merge_pending ?db xs) \<Longrightarrow> ss_packets ss (ph_ack (sp_handle x)) = Some (sc_id (ss_conn i ss), sp_packet x)" for x
      using merge_pending_set(1) [of ?db xs] by blast
    then have "conn_ok (ss_packets ss) (ss_senders ss) (settled ss) (case e of None \<Rightarrow> c'\<lparr>sc_good := True\<rparr> | Some _ \<Rightarrow> c'\<lparr>sc_closed := True\<rparr>)"
      using k by (intro conn_ok_send_stored [OF conn_ok_idle [OF c] _ _ finished(2)]) simp_all
    moreover have "sc_key c' = sc_key (ss_conn i ss)" "sc_id c' = sc_id (ss_conn i ss)"
      using arg_cong [OF finished(2), of snd] by (auto simp: send_stored_eq)
    ultimately show ?thesis using t unfolding finished(3) by (intro server_ok_set [OF ok i]) (auto split: option.splits)
  next
    case (nobody h r p a)
    then show ?thesis using t server_ok_set [OF ok i conn_ok_idle [OF c]] by simp
  next
    case (delivered h r p a j)
    note d = delivered(4) [folded F_def]
    have hp: "ss_packets ss (ph_ack h) = Some (r, p)" using c delivered(1) by (simp add: conn_ok_def)
    have cj: "conn_ok (ss_packets ss) (ss_senders ss) (settled ss) (conn j F)" using f nth_mem [OF j(1) [OF delivered(2)]] by blast
    let ?p = "Transport_packet (sc_id (conn j F)) p (ph_ack h)"
    let ?c = "(conn j F)\<lparr>sc_sent := sc_sent (conn j F) @ [?p]\<rparr>"
    have "conn_ok (ss_packets ss) (ss_senders ss) (settled ss) ?c"
      using conn_ok_sends(1) [OF cj, of ?p] j(2,3) [OF delivered(2)] hp by simp
    then have "conn_ok (ss_packets ss) (ss_senders ss) (settled ss) (remember h ?c)"
      using j(2,3) [OF delivered(2)] hp by (intro conn_ok_remember [where p = p]) (auto simp: offered_def)
    then have "conns_ok ss (set (sv_connections sv))"
      unfolding d set_conn_simps(3) by (intro conns_ok_upd [OF f]) (simp add: remember_sent)
    moreover have "same_peers F sv" by (rule same_peers_set [where i = j]) (simp_all add: d)
    then have "same_peers (ss_server ss) sv" using same_peers_trans [OF fp] by blast
    ultimately show ?thesis using t by (intro server_ok_two [OF ok i]) (simp_all add: d F)
  next
    case (undeliverable h r p a j e)
    note d = undeliverable(4) [folded F_def, unfolded Let_def]
    have hp: "ss_packets ss (ph_ack h) = Some (r, p)" using c undeliverable(1) by (simp add: conn_ok_def)
    have cj: "conn_ok (ss_packets ss) (ss_senders ss) (settled ss) (conn j F)" using f nth_mem [OF j(1) [OF undeliverable(2)]] by blast
    let ?sv1 = "set_conn j (remember h (conn j F)) F"
    have "conn_ok (ss_packets ss) (ss_senders ss) (settled ss) (remember h (conn j F))"
      using j(2,3) [OF undeliverable(2)] hp undeliverable(3) [folded F_def] by (intro conn_ok_remember [OF cj, where p = p]) (auto simp: offered_def unwritable_def)
    then have 1: "conns_ok ss (set (sv_connections ?sv1))"
      unfolding set_conn_simps(3) by (rule conns_ok_upd [OF f])
    have p1: "same_peers (ss_server ss) ?sv1" by (rule same_peers_trans [OF fp], rule same_peers_set [where i = j]) simp_all
    have "i < length (sv_connections ?sv1)" using i F(3) by simp
    then have "conn_ok (ss_packets ss) (ss_senders ss) (settled ss) (conn i ?sv1)" "sc_key (conn i ?sv1) = Some (sc_id (conn i ?sv1))"
      using 1 nth_mem p1 i k by (blast, simp add: same_peers_def)
    then have "conn_ok (ss_packets ss) (ss_senders ss) (settled ss) (snd (send_packet (Error_packet a unknown_error) (conn i ?sv1)))"
      by (intro conn_ok_sends(2)) simp_all
    then have "conns_ok ss (set (sv_connections sv))"
      unfolding d set_conn_simps(3) [of i] by (rule conns_ok_upd [OF 1])
    moreover have "same_peers ?sv1 sv" unfolding d by (rule same_peers_sent [OF only_sent_send])
    then have "same_peers (ss_server ss) sv" using same_peers_trans [OF p1] by blast
    ultimately show ?thesis using t by (intro server_ok_two [OF ok i]) (simp_all add: d F)
  qed
qed

end


lemma do_ack_conns_ok:
  assumes "conns_ok ss (set (sv_connections sv))" "linked sv" "i < length (sv_connections sv)" "sc_key (conn i sv) = Some s" "sc_id (conn i sv) = s"
    "a \<in> settled ss" "ss_senders ss a = Some (s, n)"
  shows "conns_ok ss (set (sv_connections (do_ack (i, s, n) sv)))"
proof -
  have send: "conns_ok ss (set (sv_connections (set_conn j (snd (send_packet (Ack_packet n) (conn j sv))) sv)))"
    if j: "j < length (sv_connections sv)" "sc_key (conn j sv) = Some s" "sc_id (conn j sv) = s" for j
  proof -
    have "conn_ok (ss_packets ss) (ss_senders ss) (settled ss) (conn j sv)" using assms(1) j(1) by simp
    then have "conn_ok (ss_packets ss) (ss_senders ss) (settled ss) (snd (send_packet (Ack_packet n) (conn j sv)))"
      using j(2,3) assms(6,7) by (intro conn_ok_sends(2)) auto
    then show ?thesis unfolding set_conn_simps by (rule conns_ok_upd [OF assms(1)])
  qed
  show ?thesis
  proof (cases "sc_alive (conn i sv)")
    case True
    then show ?thesis using send [OF assms(3-5)] by (simp add: do_ack_def)
  next
    case False
    show ?thesis
    proof (cases "sv_conns sv s")
      case (Some j)
      then have "j < length (sv_connections sv)" "sc_key (conn j sv) = Some s" "sc_id (conn j sv) = s" using assms(2) by (auto simp: linked_def)
      then show ?thesis using send [of j] assms(1) False Some by (simp add: do_ack_def)
    qed (use assms(1) False in \<open>simp add: do_ack_def\<close>)
  qed
qed

context packet_table
begin

lemma server_ok_stores:
  assumes ok: "server_ok rows ss" and s: "server_writer_step D (ss_server ss) = Some sv"
  shows "server_ok rows (ss\<lparr>ss_server := sv\<rparr>)"
proof -
  note parts = ok [unfolded server_ok_def]
  obtain st where st: "writer_step D (ss_storage ss) = Some st"
    "sv = fold do_ack (drop (length (ps_notified (ss_storage ss))) (ps_notified st)) ((ss_server ss)\<lparr>sv_storage := st\<rparr>)"
    using s by (auto simp: server_writer_step_def split: option.splits)
  define B where "B = (ss_server ss)\<lparr>sv_storage := st\<rparr>"
  have B: "sv_storage B = st" "sv_conns B = sv_conns (ss_server ss)" "sv_connections B = sv_connections (ss_server ss)" by (simp_all add: B_def)
  have o: "only_sent B sv" unfolding st(2) B_def by (rule only_sent_do_acks)
  then have sv: "sv_storage sv = st" "sv_conns sv = sv_conns (ss_server ss)" by (simp_all add: only_sent_def B)
  let ?ss = "ss\<lparr>ss_server := sv\<rparr>"
  obtain hs where hs: "storage_ok rows (store_of ss hs)" "\<forall>c \<in> connections ss. held_handles c \<subseteq> hs" using parts by (auto simp: tracked_def)
  have "store_of ?ss hs = (store_of ss hs)\<lparr>sy_storage := st\<rparr>" by (simp add: store_of_def sv)
  then have "storage_ok rows (store_of ?ss hs)" using writer_ok [OF hs(1)] st(1) by simp
  moreover have "held_handles ` connections ?ss = held_handles ` connections ss" using only_sent_held [OF o] by (simp add: B)
  then have "\<forall>c \<in> connections ?ss. held_handles c \<subseteq> hs" using hs(2) by (metis (no_types, lifting) imageE imageI)
  ultimately have t: "tracked rows ?ss" unfolding tracked_def by blast
  have fl: "set (in_flight st) \<subseteq> set (in_flight (ss_storage ss))" "ps_sequence st = ps_sequence (ss_storage ss)"
    using st(1) by (cases rule: writer_step_flight; auto)+
  have w: "settled ss \<subseteq> settled ?ss" using fl by (auto simp: settled_def sv acks_def)
  have "same_peers (ss_server ss) B" by (simp add: same_peers_def B)
  then have sp: "same_peers (ss_server ss) sv" using same_peers_trans same_peers_sent [OF o] by blast
  have q: "queue_ok ?ss" by (rule queue_ok_mono [of ss]) (use parts sp fl sv in simp_all)
  have lB: "linked B" using parts by (simp add: linked_def B)
  have l: "linked sv" by (rule linked_mono [of "ss_server ss"]) (use parts sp sv in simp_all)
  have "conn_ok (ss_packets ss) (ss_senders ss) (settled ?ss) c" if "c \<in> connections ss" for c
    by (rule conn_ok_mono [OF _ _ _ w]) (use parts that in auto)
  then have cB: "conns_ok ?ss (set (sv_connections B))" by (simp add: B)
  have "conns_ok ?ss (set (sv_connections sv))"
    using st(1)
  proof (cases rule: writer_step_flight)
    case silent
    then show ?thesis using cB by (simp add: st(2) B_def)
  next
    case (tells p)
    have p: "p \<in> set (in_flight (ss_storage ss))" using tells(2) by simp
    have "sy_packets (store_of ss hs) (qp_ack p) \<noteq> None" using hs(1) p by (auto simp: storage_ok_def placed_def)
    then have "qp_ack p \<le> ps_sequence (ss_storage ss)" using hs(1) unfolding storage_ok_def numbered_def by simp
    moreover have "qp_ack p \<notin> set (acks (in_flight st))" using hs(1) tells(2) by (simp add: storage_ok_def numbered_def)
    ultimately have "qp_ack p \<in> settled ?ss" by (simp add: settled_def sv fl)
    moreover have "ss_senders ss (qp_ack p) = Some (qp_sender p, qp_sender_ack p)" "qp_notify p < length (sv_connections (ss_server ss))"
      "sc_key (ss_conn (qp_notify p) ss) = Some (qp_sender p)" "sc_id (ss_conn (qp_notify p) ss) = qp_sender p"
      using parts p by (auto simp: queue_ok_def)
    ultimately have "conns_ok ?ss (set (sv_connections (do_ack (qp_notify p, qp_sender p, qp_sender_ack p) B)))"
      by (intro do_ack_conns_ok [OF cB lB]) (simp_all add: B)
    then show ?thesis by (simp add: st(2) B_def tells(1))
  qed
  moreover have "senders_ok ?ss" using parts by (simp add: senders_ok_def)
  ultimately show ?thesis using t l q by (simp add: server_ok_def)
qed

lemma server_ok_step: "server_step D ss ss' \<Longrightarrow> server_ok rows ss \<Longrightarrow> server_ok rows ss'"
proof (induction rule: server_step.induct)
  case (accepts ss key)
  let ?sv = "create_connection key (ss_server ss)"
  have cs: "set (sv_connections ?sv) = insert (last (sv_connections ?sv)) (connections ss)" "sv_storage ?sv = ss_storage ss"
    "sv_conns ?sv = sv_conns (ss_server ss)" "\<not> active (last (sv_connections ?sv))" "held_handles (last (sv_connections ?sv)) = {}"
    by (simp_all add: create_connection_def active_def held_handles_def)
  note parts = accepts [unfolded server_ok_def]
  have sp: "same_peers (ss_server ss) ?sv" by (simp add: same_peers_def create_connection_def nth_append)
  have l: "linked ?sv" by (rule linked_mono [of "ss_server ss"]) (use parts sp cs in simp_all)
  have t: "tracked rows (ss\<lparr>ss_server := ?sv, ss_missed := ss_missed ss\<rparr>)"
    using parts cs by (intro tracked_held) (auto simp: all_held_def)
  have "conns_ok ss (set (sv_connections ?sv))" unfolding cs(1) using parts conn_ok_inactive [OF cs(4)] by blast
  then show ?case using server_ok_conns [OF accepts cs(2) sp l t] by simp
next
  case (connects i ss)
  note parts = connects(2) [unfolded server_ok_def]
  show ?case
  proof (cases "sc_key (ss_conn i ss)")
    case None
    have "tracked rows (ss\<lparr>ss_server := set_conn i ((ss_conn i ss)\<lparr>sc_closed := True\<rparr>) (ss_server ss), ss_missed := ss_missed ss\<rparr>)"
      using parts connects(1) by (intro tracked_quiet [where i = i]) (auto simp: held_handles_def)
    from server_ok_set [OF connects(2,1) conn_ok_close(1) [OF server_ok_in [OF connects(2,1)]] _ _ this]
    show ?thesis using None by (simp add: server_on_connected_def terminate_def)
  qed (use connects in \<open>simp add: server_on_connected_def\<close>)
next
  case (receives i ss p sv)
  then show ?case by (intro server_ok_receives)
next
  case (handles i ss sv)
  then show ?case by (intro server_ok_handles)
next
  case (stores ss sv)
  then show ?case by (intro server_ok_stores)
next
  case (released i ss)
  note parts = released(3) [unfolded server_ok_def]
  have "tracked rows (ss\<lparr>ss_server := set_conn i ((ss_conn i ss)\<lparr>sc_alive := False, sc_closed := True\<rparr>) (ss_server ss), ss_missed := ss_missed ss\<rparr>)"
    using parts released(1) by (intro tracked_quiet [where i = i]) (auto simp: held_handles_def)
  from server_ok_set [OF released(3,1) conn_ok_close(2) [OF server_ok_in [OF released(3,1)]] _ _ this]
  show ?case by simp
qed

lemma server_ok_start:
  assumes "table_holds rows d P"
  shows "server_ok rows (start_server D d P)"
proof -
  have "store_of (start_server D d P) {} = start_system D d P"
    by (simp add: store_of_def start_server_def start_system_def make_packet_server_def)
  then have "tracked rows (start_server D d P)" unfolding tracked_def
    using storage_ok_start [OF assms] by (intro exI [of _ "{}"]) (simp add: start_server_def make_packet_server_def)
  then show ?thesis
    by (simp add: server_ok_def start_server_def make_packet_server_def linked_def senders_ok_def queue_ok_def make_storage_def storage_parts)
qed

lemma server_ok_reach: "server_reach D (start_server D d P) ss \<Longrightarrow> table_holds rows d P \<Longrightarrow> server_ok rows ss"
  by (induction rule: server_reach.induct) (auto intro: server_ok_start server_ok_step)

end

end
