(* ===== verification/Packet_Server_Properties.thy ===== *)
theory Packet_Server_Properties
  imports Packet_Server_Invariant
begin

text \<open>
  The properties of the packet server, from the invariant: nothing is lost, nothing is acknowledged by the wrong
  party, nothing is handed to the wrong party, and what waits is offered. A packet's way through the server
  from its sender to its receiver is the witness.
\<close>

section \<open>Every packet is offered to its receiver\<close>

definition inserting :: "server_connection \<Rightarrow> int option" where
  "inserting c = (case sc_handler c of H_inserted h _ _ _ \<Rightarrow> Some (ph_ack h) | _ \<Rightarrow> None)"

definition delivering :: "'d packet_server \<Rightarrow> int set" where
  "delivering sv = {a. \<exists>c \<in> set (sv_connections sv). inserting c = Some a}"

definition given :: "('d \<Rightarrow> int \<Rightarrow> (octets \<times> octets) option) \<Rightarrow> nat \<Rightarrow> 'd server_system \<Rightarrow> bool" where
  "given rows i ss \<longleftrightarrow>
     (sv_conns (ss_server ss) (sc_id (ss_conn i ss)) = Some i \<and> sc_alive (ss_conn i ss) \<and> sc_handler (ss_conn i ss) \<noteq> H_registered \<longrightarrow>
      (\<forall>a p. ss_packets ss a = Some (sc_id (ss_conn i ss), p) \<and> a \<notin> fst ` ss_acked ss \<and> a \<notin> ss_missed ss i \<longrightarrow>
         sc_ack_map (ss_conn i ss) a \<noteq> None \<or> a \<in> delivering (ss_server ss) \<or>
         (\<exists>xs. sc_handler (ss_conn i ss) = H_indexed xs \<and>
            (a \<in> (\<lambda>x. ph_ack (sp_handle x)) ` set xs \<or> rows (ps_db (ss_storage ss)) a \<noteq> None))))"

lemma given_mono:
  assumes g: "given rows i ss" and c: "sc_id (ss_conn i ss') = sc_id (ss_conn i ss)" "sc_alive (ss_conn i ss') \<longrightarrow> sc_alive (ss_conn i ss)"
      "\<And>a. sc_ack_map (ss_conn i ss) a \<noteq> None \<Longrightarrow> sc_ack_map (ss_conn i ss') a \<noteq> None"
    and h: "sc_handler (ss_conn i ss') = sc_handler (ss_conn i ss) \<or> sc_handler (ss_conn i ss) \<noteq> H_registered \<and> (\<forall>xs. sc_handler (ss_conn i ss) \<noteq> H_indexed xs)"
    and n: "sv_conns (ss_server ss') (sc_id (ss_conn i ss)) = Some i \<longrightarrow> sv_conns (ss_server ss) (sc_id (ss_conn i ss)) = Some i"
    and s: "ss_missed ss' i = ss_missed ss i" "ss_acked ss \<subseteq> ss_acked ss'"
    and p: "\<And>a p. ss_packets ss' a = Some (sc_id (ss_conn i ss), p) \<Longrightarrow> ss_packets ss a = Some (sc_id (ss_conn i ss), p) \<or> a \<in> delivering (ss_server ss')"
    and d: "\<And>a p. sv_conns (ss_server ss) (sc_id (ss_conn i ss)) = Some i \<Longrightarrow> sc_alive (ss_conn i ss) \<Longrightarrow> a \<in> delivering (ss_server ss) \<Longrightarrow>
      ss_packets ss a = Some (sc_id (ss_conn i ss), p) \<Longrightarrow> a \<in> delivering (ss_server ss') \<or> sc_ack_map (ss_conn i ss') a \<noteq> None"
    and r: "\<And>a. rows (ps_db (ss_storage ss)) a \<noteq> None \<Longrightarrow> a \<notin> fst ` ss_acked ss' \<Longrightarrow> rows (ps_db (ss_storage ss')) a \<noteq> None"
  shows "given rows i ss'"
  unfolding given_def c(1)
proof (intro impI allI)
  fix a q
  assume a: "sv_conns (ss_server ss') (sc_id (ss_conn i ss)) = Some i \<and> sc_alive (ss_conn i ss') \<and> sc_handler (ss_conn i ss') \<noteq> H_registered"
    "ss_packets ss' a = Some (sc_id (ss_conn i ss), q) \<and> a \<notin> fst ` ss_acked ss' \<and> a \<notin> ss_missed ss' i"
  have pre: "sv_conns (ss_server ss) (sc_id (ss_conn i ss)) = Some i" "sc_alive (ss_conn i ss)" "sc_handler (ss_conn i ss) \<noteq> H_registered"
    "a \<notin> fst ` ss_acked ss" "a \<notin> ss_missed ss i"
    using a n c(2) h s by auto
  let ?goal = "sc_ack_map (ss_conn i ss') a \<noteq> None \<or> a \<in> delivering (ss_server ss') \<or>
      (\<exists>xs. sc_handler (ss_conn i ss') = H_indexed xs \<and> (a \<in> (\<lambda>x. ph_ack (sp_handle x)) ` set xs \<or> rows (ps_db (ss_storage ss')) a \<noteq> None))"
  show ?goal
  proof (cases "a \<in> delivering (ss_server ss')")
    case False
    then have q: "ss_packets ss a = Some (sc_id (ss_conn i ss), q)" using a(2) p by blast
    then consider "sc_ack_map (ss_conn i ss) a \<noteq> None" | "a \<in> delivering (ss_server ss)"
      | xs where "sc_handler (ss_conn i ss) = H_indexed xs" "a \<in> (\<lambda>x. ph_ack (sp_handle x)) ` set xs \<or> rows (ps_db (ss_storage ss)) a \<noteq> None"
      using g pre unfolding given_def by blast
    then show ?goal
    proof cases
      case 3
      then have "sc_handler (ss_conn i ss') = H_indexed xs" using h by auto
      then show ?thesis using 3(2) r a(2) by blast
    qed (use c(3) d [OF pre(1,2) _ q] in blast)+
  qed blast
qed

lemma delivering_nth: "a \<in> delivering sv \<longleftrightarrow> (\<exists>k < length (sv_connections sv). inserting (conn k sv) = Some a)"
  by (auto simp: delivering_def in_set_conv_nth Bex_def)

lemma delivering_set:
  assumes "inserting (conn i sv) = None \<or> inserting c = inserting (conn i sv)" "a \<in> delivering sv"
  shows "a \<in> delivering (set_conn i c sv)"
proof -
  obtain k where k: "k < length (sv_connections sv)" "inserting (conn k sv) = Some a" using assms(2) by (auto simp: delivering_nth)
  then have "inserting (conn k (set_conn i c sv)) = Some a" using assms(1) by (cases "k = i") auto
  then show ?thesis using k(1) unfolding delivering_nth by (intro exI [of _ k]) simp
qed

lemma delivering_new: "i < length (sv_connections sv) \<Longrightarrow> inserting c = Some a \<Longrightarrow> a \<in> delivering (set_conn i c sv)"
  unfolding delivering_def by (auto simp: set_update_memI)

lemma delivering_storage [simp]: "delivering (sv\<lparr>sv_storage := st\<rparr>) = delivering sv" "delivering (sv\<lparr>sv_conns := cs\<rparr>) = delivering sv"
  by (simp_all add: delivering_def)

lemma delivering_sent: "only_sent sv sv' \<Longrightarrow> delivering sv' = delivering sv"
proof -
  assume o: "only_sent sv sv'"
  have "inserting (conn k sv') = inserting (conn k sv)" if k: "k < length (sv_connections sv)" for k
  proof -
    obtain s where "conn k sv' = (conn k sv)\<lparr>sc_sent := s\<rparr>" using o k unfolding only_sent_def by blast
    then show ?thesis by (simp add: inserting_def)
  qed
  moreover have "length (sv_connections sv') = length (sv_connections sv)" using o by (simp add: only_sent_def)
  ultimately show ?thesis by (auto simp: set_eq_iff delivering_nth)
qed


lemma linked_id: "linked (ss_server ss) \<Longrightarrow> sv_conns (ss_server ss) r = Some j \<Longrightarrow> sc_id (ss_conn j ss) = r"
  by (simp add: linked_def)

text \<open>A change of one connection that keeps what it has been given.\<close>

lemma given_set:
  assumes g: "given rows j ss" and i: "i < length (sv_connections (ss_server ss))" and l: "linked (ss_server ss)"
    and c: "sc_id c = sc_id (ss_conn i ss) \<or> sv_conns (ss_server ss) (sc_id c) \<noteq> Some i" "sc_alive c \<longrightarrow> sc_alive (ss_conn i ss)"
      "\<And>a. sc_ack_map (ss_conn i ss) a \<noteq> None \<Longrightarrow> sc_ack_map c a \<noteq> None" "sc_handler c = sc_handler (ss_conn i ss)"
  shows "given rows j (ss\<lparr>ss_server := set_conn i c (ss_server ss)\<rparr>)"
proof (cases "j = i")
  case False
  have "given rows j (ss\<lparr>ss_server := set_conn i c (ss_server ss), ss_missed := ss_missed ss\<rparr>)"
    by (rule given_mono [OF g]) (use False c(4) in \<open>auto simp: inserting_def intro!: delivering_set\<close>)
  then show ?thesis by simp
next
  case True
  show ?thesis
  proof (cases "sc_id c = sc_id (ss_conn i ss)")
    case True
    have "given rows j (ss\<lparr>ss_server := set_conn i c (ss_server ss), ss_missed := ss_missed ss\<rparr>)"
      by (rule given_mono [OF g]) (use \<open>j = i\<close> True c i in \<open>auto simp: inserting_def intro!: delivering_set\<close>)
    then show ?thesis by simp
  next
    case False
    then have "sv_conns (ss_server ss) (sc_id c) \<noteq> Some i" using c(1) by simp
    then show ?thesis using True i by (simp add: given_def)
  qed
qed

lemma given_receives:
  assumes ok: "server_ok rows ss" and i: "i < length (sv_connections (ss_server ss))" and h: "sc_handler (ss_conn i ss) = H_idle"
    and s: "receive_packet i p (ss_server ss) = Some sv" and g: "given rows j ss" and j: "j < length (sv_connections (ss_server ss))"
  shows "given rows j ((note_received i p ss)\<lparr>ss_server := sv\<rparr>)"
proof -
  have l: "linked (ss_server ss)" using ok by (simp add: server_ok_def)
  have idle: "inserting (ss_conn i ss) = None" using h by (simp add: inserting_def)
  show ?thesis using s
  proof (cases rule: received_cases)
    case (greeted k)
    show ?thesis
    proof (cases "j = i")
      case True
      then show ?thesis unfolding greeted(3) using i by (simp add: given_def)
    next
      case False
      then show ?thesis unfolding greeted(3)
        by (intro given_mono [OF g]) (use idle in \<open>auto intro!: delivering_set\<close>)
    qed
  next
    case (ungreeted k)
    have "sv_conns (ss_server ss) k = Some i \<Longrightarrow> sc_id (ss_conn i ss) = k" using linked_id [OF l] by blast
    then show ?thesis unfolding ungreeted(2) using given_set [OF g i l] by fastforce
  next
    case refused
    show ?thesis unfolding refused using given_set [OF g i l] by simp
  next
    case ignored
    then show ?thesis using g by simp
  next
    case (put r q a h st)
    let ?c = "(ss_conn i ss)\<lparr>sc_handler := H_inserted h r q a\<rparr>"
    have new: "ph_ack h \<in> delivering (set_conn i ?c ((ss_server ss)\<lparr>sv_storage := st\<rparr>))" using i by (intro delivering_new) (simp_all add: inserting_def)
    have old: "x \<in> delivering (set_conn i ?c ((ss_server ss)\<lparr>sv_storage := st\<rparr>))" if "x \<in> delivering (ss_server ss)" for x
      using that idle by (intro delivering_set) simp_all
    have db: "ps_db st = ps_db (ss_storage ss)" using put(4) by (auto simp: storage_insert_def Let_def)
    show ?thesis unfolding put(6)
    proof (rule given_mono [OF g], goal_cases)
      case 1 show ?case using i by (cases "j = i") simp_all
    next
      case 2 show ?case using i by (cases "j = i") simp_all
    next
      case (3 a) then show ?case using i by (cases "j = i") simp_all
    next
      case 4 show ?case using i \<open>sc_handler (ss_conn i ss) = H_idle\<close> by (cases "j = i") simp_all
    next
      case (8 x q') then show ?case using new by (auto split: if_splits)
    qed (simp_all add: db old)
  next
    case (acked a h)
    have "ps_db (mark_as_acked h (ss_storage ss)) = ps_db (ss_storage ss)" by (simp add: mark_as_acked_def storage_remove_def Let_def)
    then show ?thesis unfolding acked(4) by (intro given_mono [OF g]) auto
  qed
qed


lemma remember_finds: "sc_ack_map (remember h c) (ph_ack h) \<noteq> None"
  by (auto simp: remember_def split: option.splits)

lemma remember_mono: "sc_ack_map c a \<noteq> None \<Longrightarrow> sc_ack_map (remember h c) a \<noteq> None"
  by (auto simp: remember_def split: option.splits)

context packet_table
begin

lemma pending_db_row:
  assumes "storage_ok rows sy" "rows (sy_db sy) a \<noteq> None" "sy_packets sy a = Some (r, p)"
  shows "a \<in> (\<lambda>x. ph_ack (sp_handle x)) ` set (pending_from_db D r (sy_db sy))"
proof -
  obtain r' b where b: "rows (sy_db sy) a = Some (r', b)" using assms(2) by auto
  then obtain p' where p': "sy_packets sy a = Some (r', p')" "read_der transport_payload_ty transport_payload_of b = Inr p'"
    using assms(1) unfolding storage_ok_def placed_def by blast
  let ?x = "\<lparr>sp_handle = \<lparr>ph_ack = a, ph_packet = False\<rparr>, sp_packet = p'\<rparr>"
  have "r' = r" "row_packet (a, b) = Some ?x" using p' assms(3) by (simp_all add: row_packet_Some)
  then have "?x \<in> set (pending_from_db D r (sy_db sy))" using b by (auto simp: pending_db_iff)
  then show ?thesis by force
qed

lemma pending_index_row:
  assumes "storage_ok rows sy" "sy_packets sy a = Some (r, p)" "a \<notin> sy_acked sy" "a \<notin> qp_ack ` set (in_hand (ps_writer (sy_storage sy)))"
  shows "a \<in> (\<lambda>x. ph_ack (sp_handle x)) ` set (pending_from_index r (sy_storage sy)) \<or> rows (sy_db sy) a \<noteq> None"
proof (cases "rows (sy_db sy) a")
  case None
  then have "a \<in> set (acks (in_flight (sy_storage sy)))" using assms(1-3) unfolding storage_ok_def placed_def by fastforce
  then obtain q where q: "q \<in> set (ps_queue (sy_storage sy))" "qp_ack q = a"
    using assms(4) by (auto simp: acks_def storage_parts in_hand_def split: writer.splits option.splits)
  then have "q \<in> set (in_flight (sy_storage sy))" by (simp add: storage_parts)
  then have "qp_receiver q = r" using assms(1,2) q(2) by (auto simp: storage_ok_def placed_def)
  then have "\<lparr>sp_handle = \<lparr>ph_ack = qp_ack q, ph_packet = True\<rparr>, sp_packet = qp_packet q\<rparr> \<in> set (pending_from_index r (sy_storage sy))"
    using q(1) by (auto simp: pending_index_iff [OF assms(1)])
  then show ?thesis using q(2) by force
qed simp

lemma given_handles:
  assumes ok: "server_ok rows ss" and i: "i < length (sv_connections (ss_server ss))" and s: "handler_step D i (ss_server ss) = Some sv"
    and g: "given rows j ss" and j: "j < length (sv_connections (ss_server ss))"
  shows "given rows j (ss\<lparr>ss_server := sv, ss_missed := (if sc_handler (ss_conn i ss) = H_registered
      then (ss_missed ss)(i := qp_ack ` set (in_hand (ps_writer (ss_storage ss)))) else ss_missed ss)\<rparr>)"
proof -
  have l: "linked (ss_server ss)" using ok by (simp add: server_ok_def)
  obtain hs where hs: "storage_ok rows (store_of ss hs)" using ok by (auto simp: server_ok_def tracked_def)
  note c = server_ok_in [OF ok i]
  define F where "F = set_conn i ((ss_conn i ss)\<lparr>sc_handler := H_idle\<rparr>) (ss_server ss)"
  have F: "sv_storage F = ss_storage ss" "sv_conns F = sv_conns (ss_server ss)" "length (sv_connections F) = length (sv_connections (ss_server ss))"
    "k < length (sv_connections (ss_server ss)) \<Longrightarrow> sc_ack_map (conn k F) = sc_ack_map (ss_conn k ss) \<and> sc_id (conn k F) = sc_id (ss_conn k ss) \<and>
       sc_alive (conn k F) = sc_alive (ss_conn k ss) \<and> (k \<noteq> i \<longrightarrow> sc_handler (conn k F) = sc_handler (ss_conn k ss)) \<and> (k = i \<longrightarrow> sc_handler (conn k F) = H_idle)" for k
    by (cases "k = i"; simp add: F_def)+
  have dF: "x \<in> delivering F \<or> inserting (ss_conn i ss) = Some x" if x: "x \<in> delivering (ss_server ss)" for x
  proof -
    obtain k where k: "k < length (sv_connections (ss_server ss))" "inserting (ss_conn k ss) = Some x" using x by (auto simp: delivering_nth)
    then have "k \<noteq> i \<Longrightarrow> inserting (conn k F) = Some x" using F(4) [OF k(1)] by (simp add: inserting_def)
    then show ?thesis using k F(3) by (cases "k = i") (auto simp: delivering_nth)
  qed
  have core: "given rows j (ss\<lparr>ss_server := sv, ss_missed := ss_missed ss\<rparr>)"
    if h: "sc_handler (ss_conn i ss) = H_inserted h r p a" and sv: "sv_storage sv = sv_storage F" "sv_conns sv = sv_conns F"
      and cj: "sc_id (conn j sv) = sc_id (conn j F)" "sc_alive (conn j sv) = sc_alive (conn j F)" "sc_handler (conn j sv) = sc_handler (conn j F)"
        "\<And>x. sc_ack_map (conn j F) x \<noteq> None \<Longrightarrow> sc_ack_map (conn j sv) x \<noteq> None"
      and d: "\<And>x. x \<in> delivering F \<Longrightarrow> x \<in> delivering sv"
      and g': "sv_conns (ss_server ss) r = Some j \<Longrightarrow> sc_alive (conn j F) \<Longrightarrow> sc_ack_map (conn j sv) (ph_ack h) \<noteq> None" for h r p a
  proof (rule given_mono [OF g], goal_cases)
    case 4
    show ?case using cj(3) F(4) [OF j] h by (cases "j = i") auto
  next
    case (9 x q)
    have "ss_packets ss (ph_ack h) = Some (r, p)" using c h by (simp add: conn_ok_def)
    then show ?case using 9 dF [of x] d [of x] h g' F(4) [OF j] by (auto simp: inserting_def)
  qed (use cj F(1,2) F(4) [OF j] sv in auto)
  show ?thesis using s
  proof (cases rule: handled_cases)
    case indexed
    have n: "inserting (ss_conn i ss) = None" using indexed(1) by (simp add: inserting_def)
    show ?thesis
    proof (cases "j = i")
      case True
      then show ?thesis using indexed i pending_index_row [OF hs] by (auto simp: given_def)
    next
      case False
      then show ?thesis using indexed by (intro given_mono [OF g]) (use n in \<open>auto intro!: delivering_set\<close>)
    qed
  next
    case (finished xs e c')
    let ?c = "case e of None \<Rightarrow> c'\<lparr>sc_good := True\<rparr> | Some _ \<Rightarrow> c'\<lparr>sc_closed := True\<rparr>"
    let ?db = "pending_from_db D (sc_id (ss_conn i ss)) (ps_db (ss_storage ss))"
    have n: "inserting (ss_conn i ss) = None" using finished(1) by (simp add: inserting_def)
    then have d: "a \<in> delivering sv" if "a \<in> delivering (ss_server ss)" for a
      unfolding finished(3) using that by (intro delivering_set) simp_all
    have c': "sc_ack_map c' = sc_ack_map (remember_all (merge_pending ?db xs) ((ss_conn i ss)\<lparr>sc_handler := H_idle\<rparr>))"
      "sc_id c' = sc_id (ss_conn i ss)" "sc_alive c' = sc_alive (ss_conn i ss)" "sc_handler c' = H_idle"
      using arg_cong [OF finished(2), of snd] by (auto simp: send_stored_eq)
    have C: "sc_ack_map ?c = sc_ack_map c'" "sc_id ?c = sc_id c'" "sc_alive ?c = sc_alive c'" "sc_handler ?c = sc_handler c'" by (cases e; simp)+
    show ?thesis
    proof (cases "j = i")
      case False
      then show ?thesis using finished by (intro given_mono [OF g]) (use d in auto)
    next
      case True
      have m: "sc_ack_map c' a \<noteq> None" if "sc_ack_map (ss_conn i ss) a \<noteq> None \<or> a \<in> (\<lambda>x. ph_ack (sp_handle x)) ` (set ?db \<union> set xs)" for a
        unfolding c'(1) remember_all_acks merge_pending_set(2) using that by auto
      have "sc_ack_map c' a \<noteq> None \<or> a \<in> delivering sv"
        if "sv_conns (ss_server ss) (sc_id (ss_conn i ss)) = Some i" "sc_alive (ss_conn i ss)" "ss_packets ss a = Some (sc_id (ss_conn i ss), q)"
          "a \<notin> fst ` ss_acked ss" "a \<notin> ss_missed ss i" for a q
      proof -
        have "sc_ack_map (ss_conn i ss) a \<noteq> None \<or> a \<in> delivering (ss_server ss) \<or> a \<in> (\<lambda>x. ph_ack (sp_handle x)) ` set xs \<or> rows (ps_db (ss_storage ss)) a \<noteq> None"
          using g that finished(1) True unfolding given_def by auto
        then show ?thesis using m [of a] d [of a] pending_db_row [OF hs, of a] that(3) by (auto simp: image_Un)
      qed
      then show ?thesis using finished(1,3) True i C c' by (auto simp: given_def)
    qed
  next
    case (nobody h r p a)
    have "sv = F" using nobody(3) by (simp add: F_def)
    then show ?thesis using nobody(1,2) core [OF nobody(1)] by (simp add: F_def)
  next
    case (delivered h r p a k)
    note d = delivered(4) [folded F_def]
    have "given rows j (ss\<lparr>ss_server := sv, ss_missed := ss_missed ss\<rparr>)"
    proof (rule core [OF delivered(1)], goal_cases)
      case (7 x)
      then show ?case unfolding d by (intro delivering_set) (simp_all add: inserting_def)
    next
      case 8
      then have "k = j" using delivered(2) by simp
      then show ?case unfolding d using j F(3) by (simp add: remember_finds)
    next
      case (6 x)
      then show ?case using j F(3) remember_mono [of "conn j F" x h] by (cases "j = k") (simp_all add: d)
    next
      case 3 show ?case using j F(3) by (cases "j = k") (simp_all add: d)
    next
      case 4 show ?case using j F(3) by (cases "j = k") (simp_all add: d)
    next
      case 5 show ?case using j F(3) by (cases "j = k") (simp_all add: d)
    qed (simp_all add: d)
    then show ?thesis using delivered(1) by simp
  next
    case (undeliverable h r p a k e)
    let ?sv1 = "set_conn k (remember h (conn k F)) F"
    note d = undeliverable(4) [folded F_def, unfolded Let_def]
    have o: "only_sent ?sv1 sv" unfolding d by (rule only_sent_send)
    have "j < length (sv_connections ?sv1)" using j F(3) by simp
    then obtain t where t: "conn j sv = (conn j ?sv1)\<lparr>sc_sent := t\<rparr>" using o unfolding only_sent_def by blast
    have "given rows j (ss\<lparr>ss_server := sv, ss_missed := ss_missed ss\<rparr>)"
    proof (rule core [OF undeliverable(1)], goal_cases)
      case (7 x)
      then show ?case unfolding delivering_sent [OF o] by (intro delivering_set) (simp_all add: inserting_def)
    next
      case 8
      then have "k = j" using undeliverable(2) by simp
      then show ?case unfolding t using j F(3) by (simp add: remember_finds)
    next
      case 1 then show ?case using o by (simp add: only_sent_def)
    next
      case 2 then show ?case using o by (simp add: only_sent_def)
    next
      case (6 x)
      then show ?case unfolding t using j F(3) remember_mono [of "conn j F" x h] by (cases "j = k") simp_all
    next
      case 3 show ?case unfolding t using j F(3) by (cases "j = k") simp_all
    next
      case 4 show ?case unfolding t using j F(3) by (cases "j = k") simp_all
    next
      case 5 show ?case unfolding t using j F(3) by (cases "j = k") simp_all
    qed
    then show ?thesis using undeliverable(1) by simp
  qed
qed

end


context packet_table
begin

lemma given_stores:
  assumes ok: "server_ok rows ss" and s: "server_writer_step D (ss_server ss) = Some sv" and g: "given rows j ss"
    and j: "j < length (sv_connections (ss_server ss))"
  shows "given rows j (ss\<lparr>ss_server := sv\<rparr>)"
proof -
  obtain st where st: "writer_step D (ss_storage ss) = Some st"
    "sv = fold do_ack (drop (length (ps_notified (ss_storage ss))) (ps_notified st)) ((ss_server ss)\<lparr>sv_storage := st\<rparr>)"
    using s by (auto simp: server_writer_step_def split: option.splits)
  have o: "only_sent ((ss_server ss)\<lparr>sv_storage := st\<rparr>) sv" unfolding st(2) by (rule only_sent_do_acks)
  then have sv: "sv_storage sv = st" "sv_conns sv = sv_conns (ss_server ss)" by (simp_all add: only_sent_def)
  obtain t where t: "conn j sv = (ss_conn j ss)\<lparr>sc_sent := t\<rparr>" using o j unfolding only_sent_def by auto
  obtain hs where hs: "storage_ok rows (store_of ss hs)" using ok by (auto simp: server_ok_def tracked_def)
  have "storage_step D (store_of ss hs) ((store_of ss hs)\<lparr>sy_storage := st\<rparr>)" using st(1) by (intro writes) simp
  from rows_persist_step [OF this hs] have r: "rows (ps_db st) a \<noteq> None" if "rows (ps_db (ss_storage ss)) a \<noteq> None" "a \<notin> fst ` ss_acked ss" for a
    using that by auto
  have "given rows j (ss\<lparr>ss_server := sv, ss_missed := ss_missed ss\<rparr>)"
  proof (rule given_mono [OF g], goal_cases)
    case (10 a) then show ?case using r [of a] by (simp add: sv)
  qed (use delivering_sent [OF o] in \<open>auto simp: sv t\<close>)
  then show ?thesis by simp
qed

lemma given_step:
  "server_step D ss ss' \<Longrightarrow> server_ok rows ss \<Longrightarrow> \<forall>i < length (sv_connections (ss_server ss)). given rows i ss \<Longrightarrow>
     j < length (sv_connections (ss_server ss')) \<Longrightarrow> given rows j ss'"
proof (induction rule: server_step.induct)
  case (accepts ss key)
  show ?case
  proof (cases "j < length (sv_connections (ss_server ss))")
    case True
    have d: "a \<in> delivering (create_connection key (ss_server ss))" if "a \<in> delivering (ss_server ss)" for a
      using that by (auto simp: delivering_def create_connection_def)
    have "given rows j (ss\<lparr>ss_server := create_connection key (ss_server ss), ss_missed := ss_missed ss\<rparr>)"
      by (rule given_mono [of rows j ss]) (use accepts(2) True d in \<open>auto simp: create_connection_def nth_append\<close>)
    then show ?thesis by simp
  next
    case False
    then have "j = length (sv_connections (ss_server ss))" using accepts(3) by (simp add: create_connection_def)
    then have "sv_conns (ss_server ss) r \<noteq> Some j" for r using accepts(1) by (auto simp: server_ok_def linked_def)
    then show ?thesis by (simp add: given_def create_connection_def)
  qed
next
  case (connects i ss)
  then have l: "linked (ss_server ss)" by (simp add: server_ok_def)
  show ?case
  proof (cases "sc_key (ss_conn i ss)")
    case None
    have "given rows j ss" using connects None by (simp add: server_on_connected_def)
    from given_set [OF this connects(1) l, of "(ss_conn i ss)\<lparr>sc_closed := True\<rparr>"] show ?thesis
      using None by (simp add: server_on_connected_def terminate_def)
  qed (use connects in \<open>simp add: server_on_connected_def\<close>)
next
  case (receives i ss p sv)
  have "length (sv_connections sv) = length (sv_connections (ss_server ss))"
    using receives(5) by (cases rule: received_cases) (drule arg_cong [where f = "\<lambda>s. length (sv_connections (ss_server s))"], simp)+
  then have "j < length (sv_connections (ss_server ss))" using receives(8) by simp
  then show ?case using given_receives [OF receives(6,1,3,5)] receives(7) by simp
next
  case (handles i ss sv)
  have "length (sv_connections sv) = length (sv_connections (ss_server ss))"
    using handles(2) by (cases rule: handled_cases) (simp_all add: Let_def)
  then show ?case using given_handles [OF handles(3,1,2)] handles(4,5) by simp
next
  case (stores ss sv)
  have "length (sv_connections sv) = length (sv_connections (ss_server ss))"
  proof -
    obtain ns st where "sv = fold do_ack ns ((ss_server ss)\<lparr>sv_storage := st\<rparr>)"
      using stores(1) by (auto simp: server_writer_step_def split: option.splits)
    then show ?thesis using only_sent_do_acks [of "(ss_server ss)\<lparr>sv_storage := st\<rparr>" ns] by (simp add: only_sent_def)
  qed
  then show ?case using given_stores [OF stores(2,1)] stores(3,4) by simp
next
  case (released i ss)
  then have l: "linked (ss_server ss)" by (simp add: server_ok_def)
  have "given rows j ss" using released by simp
  from given_set [OF this released(1) l, of "(ss_conn i ss)\<lparr>sc_alive := False, sc_closed := True\<rparr>"] show ?case by simp
qed

lemma given_reach:
  "server_reach D (start_server D d P) ss \<Longrightarrow> table_holds rows d P \<Longrightarrow> i < length (sv_connections (ss_server ss)) \<Longrightarrow> given rows i ss"
proof (induction arbitrary: i rule: server_reach.induct)
  case server_here
  then show ?case by (simp add: start_server_def make_packet_server_def)
next
  case (server_onward ss ss')
  then show ?case using server_ok_reach [OF server_onward(1)] given_step by blast
qed

end


section \<open>Properties of the server\<close>

lemma server_ok_sender: "server_ok rows ss \<Longrightarrow> ss_senders ss a = Some (s, n) \<Longrightarrow> \<exists>r p. ss_packets ss a = Some (r, p) \<and> sig_issuer (tp_signature p) = s"
  unfolding server_ok_def senders_ok_def by blast

lemma server_ok_acked: "server_ok rows ss \<Longrightarrow> (a, u) \<in> ss_acked ss \<Longrightarrow> \<exists>p. ss_packets ss a = Some (u, p)"
  unfolding server_ok_def senders_ok_def by blast

lemma server_ok_conn: "server_ok rows ss \<Longrightarrow> c \<in> connections ss \<Longrightarrow> conn_ok (ss_packets ss) (ss_senders ss) (settled ss) c"
  by (simp add: server_ok_def)

lemma server_ok_store:
  assumes "server_ok rows ss"
  obtains hs where "storage_ok rows (store_of ss hs)"
  using assms unfolding server_ok_def tracked_def by blast

lemma server_ok_placed:
  assumes "server_ok rows ss" "ss_packets ss a = Some (r, p)" "a \<notin> set (acks (in_flight (ss_storage ss)))"
  shows "rows (ps_db (ss_storage ss)) a \<noteq> None \<or> (a, r) \<in> ss_acked ss"
proof -
  obtain hs where hs: "storage_ok rows (store_of ss hs)" by (rule server_ok_store [OF assms(1)])
  have "ss_packets ss a \<noteq> None \<and> a \<notin> fst ` ss_acked ss \<longrightarrow> a \<in> set (acks (in_flight (ss_storage ss))) \<or> rows (ps_db (ss_storage ss)) a \<noteq> None"
    using hs unfolding storage_ok_def placed_def store_of_simps by blast
  moreover have "(a, r) \<in> ss_acked ss" if "a \<in> fst ` ss_acked ss"
    using that server_ok_acked [OF assms(1)] assms(2) by fastforce
  ultimately show ?thesis using assms(2,3) by auto
qed

text \<open>C20: A packet leaves the server only when its receiver has acknowledged it: in every state the server can reach, whatever
  its clients do and however its threads interleave, a packet that was taken in (or was in the database at the start)
  and is neither in the database, nor queued, nor in the writer's hands was acknowledged by the very key it
  is addressed to, and a connection that may acknowledge bears the key its peer proved in the handshake.\<close>

theorem packet_leaves_only_acknowledged:
  assumes "packet_table D rows" "table_holds rows d P" "server_reach D (start_server D d P) ss"
    "ss_packets ss a = Some (r, p)" "rows (ps_db (ss_storage ss)) a = None"
    "a \<notin> qp_ack ` set (ps_queue (ss_storage ss) @ in_hand (ps_writer (ss_storage ss)))"
  shows "(a, r) \<in> ss_acked ss \<and> (\<forall>u. (a, u) \<in> ss_acked ss \<longrightarrow> u = r) \<and>
    (\<forall>c \<in> set (sv_connections (ss_server ss)). sc_good c \<longrightarrow> sc_key c = Some (sc_id c))"
proof -
  have ok: "server_ok rows ss" by (rule packet_table.server_ok_reach [OF assms(1,3,2)])
  have "a \<notin> set (acks (in_flight (ss_storage ss)))"
    using assms(6) by (auto simp: acks_def storage_parts in_hand_def split: writer.splits option.splits)
  then have "(a, r) \<in> ss_acked ss" using server_ok_placed [OF ok assms(4)] assms(5) by blast
  moreover have "u = r" if "(a, u) \<in> ss_acked ss" for u using server_ok_acked [OF ok that] assms(4) by simp
  moreover have "sc_key c = Some (sc_id c)" if "c \<in> connections ss" "sc_good c" for c
    using server_ok_conn [OF ok that(1)] that(2) by (simp add: conn_ok_def active_def)
  ultimately show ?thesis by blast
qed

text \<open>C21: An acknowledgement to a sender means that the packet is safe: whenever the server has sent the acknowledgement of
  number \<open>n\<close> on a connection, that peer did send a packet under that number, and the packet is in the database or
  was acknowledged by its receiver.\<close>

theorem sender_ack_means_stored:
  assumes "packet_table D rows" "table_holds rows d P" "server_reach D (start_server D d P) ss"
    "c \<in> set (sv_connections (ss_server ss))" "Ack_packet n \<in> set (sc_sent c)"
  shows "\<exists>k a r p. sc_key c = Some k \<and> ss_senders ss a = Some (k, n) \<and> ss_packets ss a = Some (r, p) \<and>
    (rows (ps_db (ss_storage ss)) a \<noteq> None \<or> (a, r) \<in> ss_acked ss)"
proof -
  have ok: "server_ok rows ss" by (rule packet_table.server_ok_reach [OF assms(1,3,2)])
  note c = server_ok_conn [OF ok assms(4)]
  then obtain a where a: "a \<in> settled ss" "ss_senders ss a = Some (sc_id c, n)" using assms(5) by (auto simp: conn_ok_def)
  obtain r p where p: "ss_packets ss a = Some (r, p)" using server_ok_sender [OF ok a(2)] by blast
  have "a \<notin> set (acks (in_flight (ss_storage ss)))" using a(1) by (simp add: settled_def)
  from server_ok_placed [OF ok p this] have "rows (ps_db (ss_storage ss)) a \<noteq> None \<or> (a, r) \<in> ss_acked ss" .
  moreover have "sc_key c = Some (sc_id c)" by (rule conn_ok_key [OF c]) (use assms(5) in \<open>auto simp: active_def\<close>)
  ultimately show ?thesis using a(2) p by blast
qed

text \<open>C22: What the server hands to a client is meant for it and comes from whom it says: a packet sent on a connection is
  addressed to the key its peer proved, it is one that was taken in, and when it was taken in during this run
  its signature names the key of the client that sent it.\<close>

theorem delivered_packets_genuine:
  assumes "packet_table D rows" "table_holds rows d P" "server_reach D (start_server D d P) ss"
    "c \<in> set (sv_connections (ss_server ss))" "Transport_packet r p a \<in> set (sc_sent c)"
  shows "sc_key c = Some r \<and> ss_packets ss a = Some (r, p) \<and>
    (\<forall>s n. ss_senders ss a = Some (s, n) \<longrightarrow> sig_issuer (tp_signature p) = s)"
proof -
  have ok: "server_ok rows ss" by (rule packet_table.server_ok_reach [OF assms(1,3,2)])
  have c: "conn_ok (ss_packets ss) (ss_senders ss) (settled ss) c" using ok assms(4) by (simp add: server_ok_def)
  have "active c" using assms(5) by (auto simp: active_def)
  then have k: "sc_key c = Some r" "ss_packets ss a = Some (r, p)" using c assms(5) by (auto simp: conn_ok_def)
  have "sig_issuer (tp_signature p) = s" if "ss_senders ss a = Some (s, n)" for s n
    using server_ok_sender [OF ok that] k(2) by auto
  then show ?thesis using k by blast
qed

text \<open>C23: Nobody has to ask: once the user's latest connection has said hello and its waiting packets were sent, every
  unacknowledged packet for that user has been sent on that connection, whether it was waiting before or came in since,
  except one that was in the writer's hands when the connection read the index, one whose sender's handler is about to
  deliver it, and one that cannot be serialised, and unless the connection was closed.\<close>

theorem receiver_offered_every_packet:
  assumes "packet_table D rows" "table_holds rows d P" "server_reach D (start_server D d P) ss"
    "i < length (sv_connections (ss_server ss))" "c = ss_conn i ss" "sv_conns (ss_server ss) (sc_id c) = Some i" "sc_alive c" "sc_handler c = H_idle"
    "ss_packets ss a = Some (sc_id c, p)" "a \<notin> fst ` ss_acked ss" "a \<notin> ss_missed ss i"
    "\<forall>c' \<in> set (sv_connections (ss_server ss)). \<forall>h r' p' n. sc_handler c' = H_inserted h r' p' n \<longrightarrow> ph_ack h \<noteq> a"
  shows "Transport_packet (sc_id c) p a \<in> set (sc_sent c) \<or> (\<exists>e. write_packet (Transport_packet (sc_id c) p a) = Inl e) \<or> sc_closed c"
proof -
  have ok: "server_ok rows ss" by (rule packet_table.server_ok_reach [OF assms(1,3,2)])
  have "given rows i ss" by (rule packet_table.given_reach [OF assms(1,3,2,4)])
  moreover have "a \<notin> delivering (ss_server ss)" using assms(12) by (auto simp: delivering_def inserting_def split: handler_state.splits)
  ultimately have "sc_ack_map c a \<noteq> None"
    using assms(6-11) unfolding given_def assms(5) [symmetric] by (metis handler_state.distinct(1,3))
  moreover have "conn_ok (ss_packets ss) (ss_senders ss) (settled ss) c" using server_ok_in [OF ok assms(4)] assms(5) by simp
  ultimately obtain q where "ss_packets ss a = Some (sc_id c, q)" "offered c q a" by (auto simp: conn_ok_def)
  then show ?thesis using assms(9) by (simp add: offered_def unwritable_def)
qed


section \<open>A packet's way through the server\<close>

text \<open>User \<open>[4]\<close> connects and sends a packet for user \<open>[7]\<close>, the writer stores it, user \<open>[7]\<close> connects, gets and acknowledges it.\<close>

abbreviation (input) greeting :: protocol_packet where
  "greeting \<equiv> Hello current_version 0 no_net_error"

lemma greeting_written: "\<exists>b. write_packet greeting = Inr b"
proof -
  have "packet_ok greeting" unfolding packet_ok_def
    by (simp add: ack_ok_def, rule val_ok_bound)
      (simp_all add: packet_types_def net_error_ty_def net_error_val_def no_net_error_def current_version_def max_structure_size_def max_constructed_size_def)
  then show ?thesis using write_packet_eq by blast
qed

lemma mail_written: "\<exists>b. write_packet (Transport_packet [7] mail 1) = Inr b"
proof -
  have "packet_ok (Transport_packet [7] mail 1)" unfolding packet_ok_def
    by (simp add: ack_ok_def, rule val_ok_bound)
      (simp_all add: packet_types_def receiver_ty_def receiver_val_def mail_def transport_payload_ty_def enveloped_content_ty_def encrypted_key_ty_def
        signature_ty_def transport_payload_val_def enveloped_content_val_def signature_val_def max_structure_size_def max_constructed_size_def)
  then show ?thesis using write_packet_eq by blast
qed

lemma ack_written: "ack_ok n \<Longrightarrow> \<exists>b. write_packet (Ack_packet n) = Inr b"
  using write_packet_eq [OF ack_packet_ok] by blast

definition tour_mail :: octets where
  "tour_mail = (case write_der transport_payload_ty (transport_payload_val mail) of Inr b \<Rightarrow> b | Inl _ \<Rightarrow> [])"

lemma tour_mail: "write_der transport_payload_ty (transport_payload_val mail) = Inr tour_mail"
  "read_der transport_payload_ty transport_payload_of tour_mail = Inr mail"
  using mail_ok by (auto simp: payload_ok_def tour_mail_def)

abbreviation (input) tour_packet :: queued_packet where
  "tour_packet \<equiv> \<lparr>qp_receiver = [7], qp_packet = mail, qp_notify = 0, qp_ack = 1, qp_sender_ack = 9, qp_sender = [4]\<rparr>"

definition tour_store :: "row_list \<Rightarrow> int \<Rightarrow> queued_packet list \<Rightarrow> int list \<Rightarrow> (octets \<times> int) list \<Rightarrow> int set \<Rightarrow> writer \<Rightarrow> (nat \<times> octets \<times> int) list \<Rightarrow> row_list packet_storage" where
  "tour_store d s q r x f w n = \<lparr>ps_db = d, ps_close = False, ps_sequence = s, ps_queue = q, ps_remove_queue = r, ps_index = x, ps_flags = f, ps_writer = w, ps_notified = n\<rparr>"

lemma tour_store_simps [simp]:
  "ps_db (tour_store d s q r x f w n) = d" "ps_close (tour_store d s q r x f w n) = False" "ps_sequence (tour_store d s q r x f w n) = s"
  "ps_queue (tour_store d s q r x f w n) = q" "ps_remove_queue (tour_store d s q r x f w n) = r" "ps_index (tour_store d s q r x f w n) = x"
  "ps_flags (tour_store d s q r x f w n) = f" "ps_writer (tour_store d s q r x f w n) = w" "ps_notified (tour_store d s q r x f w n) = n"
  by (simp_all add: tour_store_def)

text \<open>What the writer does.\<close>

lemma tour_writer:
  "writer_step list_table (tour_store [] 1 [tour_packet] [] [([7], 1)] {} W_idle []) = Some (tour_store [] 1 [] [] [] {} (W_taken (Some tour_packet) 0) [])"
  "writer_step list_table (tour_store [] 1 [] [] [] {} (W_taken (Some tour_packet) 0) []) = Some (tour_store [] 1 [] [] [] {1} (W_writing tour_packet 0) [])"
  "writer_step list_table (tour_store [] 1 [] [] [] {1} (W_writing tour_packet 0) []) =
     Some (tour_store [(1, [7], tour_mail)] 1 [] [] [] {1} (W_removing 0) [(0, [4], 9)])"
  "writer_step list_table (tour_store [(1, [7], tour_mail)] 1 [] [] [] {1} (W_removing 0) [(0, [4], 9)]) =
     Some (tour_store [(1, [7], tour_mail)] 1 [] [] [] {1} W_idle [(0, [4], 9)])"
  "writer_step list_table (tour_store [(1, [7], tour_mail)] 1 [] [1] [] {1} W_idle [(0, [4], 9)]) =
     Some (tour_store [(1, [7], tour_mail)] 1 [] [] [] {1} (W_taken None 1) [(0, [4], 9)])"
  "writer_step list_table (tour_store [(1, [7], tour_mail)] 1 [] [] [] {1} (W_taken None 1) [(0, [4], 9)]) =
     Some (tour_store [(1, [7], tour_mail)] 1 [] [] [] {1} (W_removing 1) [(0, [4], 9)])"
  "writer_step list_table (tour_store [(1, [7], tour_mail)] 1 [] [] [] {1} (W_removing 1) [(0, [4], 9)]) = Some (tour_store [] 1 [] [] [] {1} W_idle [(0, [4], 9)])"
  by (simp_all add: writer_step_def next_packet_def remove_from_index_def write_to_database_def tour_mail list_table_def list_insert_def
      notify_sender_def Let_def tour_store_def)

lemma tour_insert: "storage_insert [7] mail 9 [4] 0 (tour_store [] 0 [] [] [] {} W_idle []) =
    (\<lparr>ph_ack = 1, ph_packet = True\<rparr>, tour_store [] 1 [tour_packet] [] [([7], 1)] {} W_idle [])"
  by (simp add: storage_insert_def tour_store_def Let_def)

lemma tour_ack: "mark_as_acked \<lparr>ph_ack = 1, ph_packet = False\<rparr> (tour_store [(1, [7], tour_mail)] 1 [] [] [] {1} W_idle [(0, [4], 9)]) =
    tour_store [(1, [7], tour_mail)] 1 [] [1] [] {1} W_idle [(0, [4], 9)]"
  by (simp add: mark_as_acked_def storage_remove_def tour_store_def Let_def)

definition tour_conn :: "octets \<Rightarrow> octets \<Rightarrow> bool \<Rightarrow> (int \<Rightarrow> packet_handle option) \<Rightarrow> protocol_packet list \<Rightarrow> handler_state \<Rightarrow> server_connection" where
  "tour_conn k i g m s h = \<lparr>sc_key = Some k, sc_id = i, sc_good = g, sc_ack_map = m, sc_sent = s, sc_closed = False, sc_alive = True, sc_handler = h\<rparr>"

lemma tour_conn_simps [simp]:
  "sc_key (tour_conn k i g m s h) = Some k" "sc_id (tour_conn k i g m s h) = i" "sc_good (tour_conn k i g m s h) = g"
  "sc_ack_map (tour_conn k i g m s h) = m" "sc_sent (tour_conn k i g m s h) = s" "sc_closed (tour_conn k i g m s h) = False"
  "sc_alive (tour_conn k i g m s h) = True" "sc_handler (tour_conn k i g m s h) = h"
  "(tour_conn k i g m s h)\<lparr>sc_id := i'\<rparr> = tour_conn k i' g m s h" "(tour_conn k i g m s h)\<lparr>sc_good := g'\<rparr> = tour_conn k i g' m s h"
  "(tour_conn k i g m s h)\<lparr>sc_ack_map := m'\<rparr> = tour_conn k i g m' s h" "(tour_conn k i g m s h)\<lparr>sc_sent := s'\<rparr> = tour_conn k i g m s' h"
  "(tour_conn k i g m s h)\<lparr>sc_handler := h'\<rparr> = tour_conn k i g m s h'"
  by (simp_all add: tour_conn_def)

definition tour :: "row_list packet_storage \<Rightarrow> (octets \<Rightarrow> nat option) \<Rightarrow> server_connection list \<Rightarrow> bool \<Rightarrow> (int \<times> octets) set \<Rightarrow> row_list server_system" where
  "tour st cs c put acked = \<lparr>ss_server = \<lparr>sv_storage = st, sv_conns = cs, sv_connections = c\<rparr>,
     ss_packets = (if put then (\<lambda>_. None)(1 \<mapsto> ([7], mail)) else (\<lambda>_. None)), ss_senders = (if put then (\<lambda>_. None)(1 \<mapsto> ([4], 9)) else (\<lambda>_. None)),
     ss_acked = acked, ss_missed = (\<lambda>_. {})\<rparr>"

abbreviation (input) tour_start :: "row_list server_system" where
  "tour_start \<equiv> start_server list_table [] (\<lambda>_. None)"

abbreviation (input) tour_reach :: "row_list server_system \<Rightarrow> bool" where
  "tour_reach \<equiv> server_reach list_table tour_start"

abbreviation (input) sender_conn :: "handler_state \<Rightarrow> bool \<Rightarrow> protocol_packet list \<Rightarrow> server_connection" where
  "sender_conn h g s \<equiv> tour_conn [4] [4] g (\<lambda>_. None) (greeting # s) h"

abbreviation (input) stored_once :: "row_list packet_storage" where
  "stored_once \<equiv> tour_store [(1, [7], tour_mail)] 1 [] [] [] {1} W_idle [(0, [4], 9)]"

lemma tour_accepted: "tour_reach (tour (tour_store [] 0 [] [] [] {} W_idle []) (\<lambda>_. None) [tour_conn [4] [] False (\<lambda>_. None) [] H_idle] False {})"
proof -
  have s: "tour_start = tour (tour_store [] 0 [] [] [] {} W_idle []) (\<lambda>_. None) [] False {}"
    by (simp add: start_server_def make_packet_server_def make_storage_def list_table_def tour_def tour_store_def)
  from server_onward [OF server_here accepts, of list_table tour_start "Some [4]"] show ?thesis
    unfolding s by (simp add: create_connection_def tour_def tour_conn_def)
qed


text \<open>The rules of the run for these states.\<close>

lemma tour_handles:
  assumes "tour_reach (tour st cs c put acked)" "i < length c" "sc_handler (c ! i) \<noteq> H_registered \<or> in_hand (ps_writer st) = []"
    "handler_step list_table i \<lparr>sv_storage = st, sv_conns = cs, sv_connections = c\<rparr> = Some \<lparr>sv_storage = st', sv_conns = cs', sv_connections = c'\<rparr>"
  shows "tour_reach (tour st' cs' c' put acked)"
proof -
  let ?ss = "tour st cs c put acked" and ?sv = "\<lparr>sv_storage = st', sv_conns = cs', sv_connections = c'\<rparr>"
  let ?m = "if sc_handler (ss_conn i ?ss) = H_registered then (ss_missed ?ss)(i := qp_ack ` set (in_hand (ps_writer (ss_storage ?ss)))) else ss_missed ?ss"
  have "server_step list_table ?ss (?ss\<lparr>ss_server := ?sv, ss_missed := ?m\<rparr>)" using assms(2,4) by (intro handles) (simp_all add: tour_def)
  from server_onward [OF assms(1) this] have "tour_reach (?ss\<lparr>ss_server := ?sv, ss_missed := ?m\<rparr>)" .
  moreover have m: "?m = (\<lambda>_. {})" using assms(3) by (auto simp: tour_def)
  have "?ss\<lparr>ss_server := ?sv, ss_missed := ?m\<rparr> = tour st' cs' c' put acked" unfolding m by (simp add: tour_def)
  ultimately show ?thesis by (simp only:)
qed

lemma tour_stores:
  assumes "tour_reach (tour st cs c put acked)" "writer_step list_table st = Some st'" "ps_notified st' = ps_notified st"
  shows "tour_reach (tour st' cs c put acked)"
proof -
  have "server_writer_step list_table (ss_server (tour st cs c put acked)) = Some \<lparr>sv_storage = st', sv_conns = cs, sv_connections = c\<rparr>"
    using assms(2,3) by (simp add: server_writer_step_def tour_def)
  from server_onward [OF assms(1) stores [OF this]] show ?thesis by (simp add: tour_def)
qed

lemma tour_greets:
  assumes "tour_reach (tour st cs c put acked)" "i < length c" "c ! i = tour_conn k [] False (\<lambda>_. None) [] H_idle"
  shows "tour_reach (tour st (cs(k \<mapsto> i)) (c[i := tour_conn k k False (\<lambda>_. None) [greeting] H_registered]) put acked)"
proof -
  let ?ss = "tour st cs c put acked"
  have "receive_packet i greeting (ss_server ?ss) =
      Some \<lparr>sv_storage = st, sv_conns = cs(k \<mapsto> i), sv_connections = c[i := tour_conn k k False (\<lambda>_. None) [greeting] H_registered]\<rparr>"
    using greeting_written assms(2,3) by (auto simp: receive_packet_def on_hello_def send_packet_def set_conn_def tour_def)
  from server_onward [OF assms(1) receives [OF _ _ _ _ this]] show ?thesis
    using assms(2,3) by (simp add: tour_def note_received_def acceptable_def)
qed

lemma tour_sender_ready:
  "tour_reach (tour (tour_store [] 0 [] [] [] {} W_idle []) ((\<lambda>_. None)([4] \<mapsto> 0)) [sender_conn H_idle True []] False {})"
proof -
  have r: "tour_reach (tour (tour_store [] 0 [] [] [] {} W_idle []) ((\<lambda>_. None)([4] \<mapsto> 0)) [sender_conn H_registered False []] False {})"
    using tour_greets [OF tour_accepted, where i = 0 and k = "[4]"] by simp
  have 1: "handler_step list_table 0 \<lparr>sv_storage = tour_store [] 0 [] [] [] {} W_idle [], sv_conns = cs, sv_connections = [sender_conn H_registered False []]\<rparr> =
      Some \<lparr>sv_storage = tour_store [] 0 [] [] [] {} W_idle [], sv_conns = cs, sv_connections = [sender_conn (H_indexed []) False []]\<rparr>" for cs
    by (simp add: handler_step_def set_conn_def pending_from_index_def List.map_filter_def)
  have 2: "handler_step list_table 0 \<lparr>sv_storage = tour_store [] 0 [] [] [] {} W_idle [], sv_conns = cs, sv_connections = [sender_conn (H_indexed []) False []]\<rparr> =
      Some \<lparr>sv_storage = tour_store [] 0 [] [] [] {} W_idle [], sv_conns = cs, sv_connections = [sender_conn H_idle True []]\<rparr>" for cs
    by (simp add: handler_step_def finish_connect_def set_conn_def pending_from_db_def list_table_def list_select_def List.map_filter_def
        merge_pending_def send_stored_def)
  from tour_handles [OF r, where i = 0] 1 have "tour_reach (tour (tour_store [] 0 [] [] [] {} W_idle []) ((\<lambda>_. None)([4] \<mapsto> 0)) [sender_conn (H_indexed []) False []] False {})"
    by (simp add: in_hand_def)
  from tour_handles [OF this, where i = 0] 2 show ?thesis by simp
qed


abbreviation (input) sender_known :: "octets \<Rightarrow> nat option" where
  "sender_known \<equiv> (\<lambda>_. None)([4] \<mapsto> 0)"

lemma tour_sent:
  "tour_reach (tour (tour_store [] 1 [tour_packet] [] [([7], 1)] {} W_idle []) sender_known [sender_conn H_idle True []] True {})"
proof -
  let ?ss = "tour (tour_store [] 0 [] [] [] {} W_idle []) sender_known [sender_conn H_idle True []] False {}"
  let ?st = "tour_store [] 1 [tour_packet] [] [([7], 1)] {} W_idle []" and ?h = "H_inserted \<lparr>ph_ack = 1, ph_packet = True\<rparr> [7] mail 9"
  have i: "sig_issuer (tp_signature mail) = [4]" by (simp add: mail_def)
  have "receive_packet 0 (Transport_packet [7] mail 9) (ss_server ?ss) = Some \<lparr>sv_storage = ?st, sv_conns = sender_known, sv_connections = [sender_conn ?h True []]\<rparr>"
    by (simp add: receive_packet_def handle_transport_def set_conn_def tour_def tour_insert i)
  from server_onward [OF tour_sender_ready receives [OF _ _ _ _ this]]
  have "tour_reach (tour ?st sender_known [sender_conn ?h True []] True {})"
    using mail_ok by (simp add: tour_def note_received_def acceptable_def i)
  from tour_handles [OF this, where i = 0] show ?thesis
    by (simp add: handler_step_def deliver_packet_def set_conn_def)
qed

lemma tour_stored: "tour_reach (tour stored_once sender_known [sender_conn H_idle True [Ack_packet 9]] True {})"
proof -
  let ?st = "tour_store [(1, [7], tour_mail)] 1 [] [] [] {1} (W_removing 0) [(0, [4], 9)]"
  have w: "tour_reach (tour (tour_store [] 1 [] [] [] {1} (W_writing tour_packet 0) []) sender_known [sender_conn H_idle True []] True {})"
    by (rule tour_stores [OF tour_stores [OF tour_sent tour_writer(1)] tour_writer(2)]) simp_all
  obtain b where "write_packet (Ack_packet 9) = Inr b" using ack_written [of 9] by (auto simp: ack_ok_def)
  then have "server_writer_step list_table (ss_server (tour (tour_store [] 1 [] [] [] {1} (W_writing tour_packet 0) []) sender_known [sender_conn H_idle True []] True {})) =
      Some \<lparr>sv_storage = ?st, sv_conns = sender_known, sv_connections = [sender_conn H_idle True [Ack_packet 9]]\<rparr>"
    by (simp add: server_writer_step_def tour_def tour_writer(3) do_ack_def send_packet_def set_conn_def)
  from server_onward [OF w stores [OF this]] have "tour_reach (tour ?st sender_known [sender_conn H_idle True [Ack_packet 9]] True {})"
    by (simp add: tour_def)
  from tour_stores [OF this tour_writer(4)] show ?thesis by simp
qed

abbreviation (input) both_known :: "octets \<Rightarrow> nat option" where
  "both_known \<equiv> sender_known([7] \<mapsto> 1)"

abbreviation (input) both_conns :: "bool \<Rightarrow> (int \<Rightarrow> packet_handle option) \<Rightarrow> protocol_packet list \<Rightarrow> handler_state \<Rightarrow> server_connection list" where
  "both_conns g m s h \<equiv> [sender_conn H_idle True [Ack_packet 9], tour_conn [7] [7] g m (greeting # s) h]"

abbreviation (input) tour_map :: "int \<Rightarrow> packet_handle option" where
  "tour_map \<equiv> (\<lambda>_. None)(1 \<mapsto> \<lparr>ph_ack = 1, ph_packet = False\<rparr>)"

lemma tour_pending: "pending_from_db list_table [7] [(1, [7], tour_mail)] = [\<lparr>sp_handle = \<lparr>ph_ack = 1, ph_packet = False\<rparr>, sp_packet = mail\<rparr>]"
  by (simp add: pending_from_db_def list_table_def list_select_def List.map_filter_def row_packet_def tour_mail)

lemma tour_delivered: "tour_reach (tour stored_once both_known (both_conns True tour_map [Transport_packet [7] mail 1] H_idle) True {})"
proof -
  have "tour_reach (tour stored_once sender_known [sender_conn H_idle True [Ack_packet 9], tour_conn [7] [] False (\<lambda>_. None) [] H_idle] True {})"
    using server_onward [OF tour_stored accepts, of "Some [7]"] by (simp add: create_connection_def tour_def tour_conn_def)
  from tour_greets [OF this, where i = 1 and k = "[7]"]
  have r: "tour_reach (tour stored_once both_known (both_conns False (\<lambda>_. None) [] H_registered) True {})" by simp
  have 1: "handler_step list_table 1 \<lparr>sv_storage = stored_once, sv_conns = cs, sv_connections = both_conns False (\<lambda>_. None) [] H_registered\<rparr> =
      Some \<lparr>sv_storage = stored_once, sv_conns = cs, sv_connections = both_conns False (\<lambda>_. None) [] (H_indexed [])\<rparr>" for cs
    by (simp add: handler_step_def set_conn_def pending_from_index_def List.map_filter_def)
  obtain b where b: "write_packet (Transport_packet [7] mail 1) = Inr b" using mail_written by blast
  have 2: "handler_step list_table 1 \<lparr>sv_storage = stored_once, sv_conns = cs, sv_connections = both_conns False (\<lambda>_. None) [] (H_indexed [])\<rparr> =
      Some \<lparr>sv_storage = stored_once, sv_conns = cs, sv_connections = both_conns True tour_map [Transport_packet [7] mail 1] H_idle\<rparr>" for cs
    by (simp add: handler_step_def finish_connect_def set_conn_def tour_pending merge_pending_def send_stored_def remember_def send_packet_def b)
  from tour_handles [OF r, where i = 1] 1 have "tour_reach (tour stored_once both_known (both_conns False (\<lambda>_. None) [] (H_indexed [])) True {})"
    by (simp add: in_hand_def)
  from tour_handles [OF this, where i = 1] 2 show ?thesis by simp
qed

lemma tour_done: "tour_reach (tour (tour_store [] 1 [] [] [] {1} W_idle [(0, [4], 9)]) both_known
    (both_conns True tour_map [Transport_packet [7] mail 1] H_idle) True {(1, [7])})"
proof -
  let ?ss = "tour stored_once both_known (both_conns True tour_map [Transport_packet [7] mail 1] H_idle) True {}"
  let ?st = "tour_store [(1, [7], tour_mail)] 1 [] [1] [] {1} W_idle [(0, [4], 9)]"
  have "receive_packet 1 (Ack_packet 1) (ss_server ?ss) =
      Some \<lparr>sv_storage = ?st, sv_conns = both_known, sv_connections = both_conns True tour_map [Transport_packet [7] mail 1] H_idle\<rparr>"
    by (simp add: receive_packet_def handle_ack_def tour_def tour_ack)
  from server_onward [OF tour_delivered receives [OF _ _ _ _ this]]
  have "tour_reach (tour ?st both_known (both_conns True tour_map [Transport_packet [7] mail 1] H_idle) True {(1, [7])})"
    by (simp add: tour_def note_received_def acceptable_def)
  from tour_stores [OF tour_stores [OF tour_stores [OF this tour_writer(5)] tour_writer(6)] tour_writer(7)] show ?thesis by simp
qed

theorem packet_leaves_only_acknowledged_witness:
  "(1, [7]) \<in> ss_acked (tour (tour_store [] 1 [] [] [] {1} W_idle [(0, [4], 9)]) both_known (both_conns True tour_map [Transport_packet [7] mail 1] H_idle) True {(1, [7])})"
  using packet_leaves_only_acknowledged [OF rl.packet_table_axioms mail_table tour_done, of 1 "[7]" mail]
  by (simp add: tour_def in_hand_def)

theorem sender_ack_means_stored_witness:
  "\<exists>a r p. ss_senders (tour stored_once sender_known [sender_conn H_idle True [Ack_packet 9]] True {}) a = Some ([4], 9) \<and>
    map_of [(1, [7], tour_mail)] a \<noteq> None \<and> ss_packets (tour stored_once sender_known [sender_conn H_idle True [Ack_packet 9]] True {}) a = Some (r, p)"
  using sender_ack_means_stored [OF rl.packet_table_axioms mail_table tour_stored, of "sender_conn H_idle True [Ack_packet 9]" 9]
  by (simp add: tour_def split: if_splits)

theorem delivered_packets_genuine_witness:
  "sc_key (tour_conn [7] [7] True tour_map [greeting, Transport_packet [7] mail 1] H_idle) = Some [7] \<and> sig_issuer (tp_signature mail) = [4]"
proof -
  let ?ss = "tour stored_once both_known (both_conns True tour_map [Transport_packet [7] mail 1] H_idle) True {}"
  let ?c = "tour_conn [7] [7] True tour_map [greeting, Transport_packet [7] mail 1] H_idle"
  have c: "?c \<in> set (sv_connections (ss_server ?ss))" "Transport_packet [7] mail 1 \<in> set (sc_sent ?c)" by (simp_all add: tour_def)
  have "ss_senders ?ss 1 = Some ([4], 9)" by (simp add: tour_def)
  then show ?thesis using delivered_packets_genuine [OF rl.packet_table_axioms mail_table tour_delivered c] by blast
qed

theorem receiver_offered_every_packet_witness:
  "Transport_packet [7] mail 1 \<in> set (sc_sent (ss_conn 1 (tour stored_once both_known (both_conns True tour_map [Transport_packet [7] mail 1] H_idle) True {})))"
  using receiver_offered_every_packet [OF rl.packet_table_axioms mail_table tour_delivered, of 1 _ 1 mail] mail_written
  by (auto simp: tour_def)

end
