(* ===== verification/Packet_Client.thy ===== *)
theory Packet_Client
  imports Packet_Protocol Connection
begin

text \<open>
  The packet client, \<^verbatim>\<open>infrastructure/packet_transport/client\<close>: packets to send are kept in a table until the server has
  answered for them, packets that come in are kept in a table until the application has seen them. A call that throws leaves
  the state it had reached (\<open>action\<close>). The tables are arguments; what is relied on is the locale \<open>blob_table\<close>.
\<close>

section \<open>Tables\<close>

text \<open>The statements of \<^verbatim>\<open>in_packets.cpp\<close> and \<^verbatim>\<open>out_packets.cpp\<close>: insert a blob under a key the database chooses, delete by key,
  select all, and set and get the user data of a row.\<close>

record 'd blob_db =
  bt_insert :: "octets \<Rightarrow> 'd \<Rightarrow> ('d \<times> int) option"
  bt_delete :: "int \<Rightarrow> 'd \<Rightarrow> 'd"
  bt_select :: "'d \<Rightarrow> (int \<times> octets) list"
  bt_update :: "int \<Rightarrow> octets \<Rightarrow> 'd \<Rightarrow> 'd"
  bt_userdata :: "int \<Rightarrow> 'd \<Rightarrow> octets"

section \<open>State\<close>

text \<open>\<^verbatim>\<open>protocol::to_error\<close>: an error of the protocol keeps its code, any other one becomes unknown_error.\<close>

datatype protocol_errc = Invalid_client_key | Bad_version | Protocol_invalid_state

datatype reported_error = No_error_reported | Protocol_error protocol_errc octets | Unknown_error_reported

definition to_error :: "net_error \<Rightarrow> reported_error" where
  "to_error e =
     (if ne_code e = 0 then No_error_reported
      else if ne_category e = octets_of ''packet transport protocol error'' \<and> ne_code e \<in> {1, 2, 3}
      then Protocol_error (if ne_code e = 1 then Invalid_client_key else if ne_code e = 2 then Bad_version else Protocol_invalid_state) (ne_aux e)
      else Unknown_error_reported)"

datatype client_event =
    Event_connect
  | Event_disconnect reported_error
  | Event_packet int transport_payload
  | Event_error int reported_error

datatype client_error =
    Client_serialisation ser_error
  | Client_crypto crypto_error
  | Client_database

record 'd packet_client =
  cl_state :: connection_state
  cl_hello_done :: bool
  cl_in :: 'd
  cl_out :: 'd
  cl_sent :: "protocol_packet list"
  cl_events :: "client_event list"

type_synonym ('d, 'a) client_action = "('d packet_client, client_error, 'a) action"

definition client_write :: "protocol_packet \<Rightarrow> ('d, unit) client_action" where
  "client_write p cl = (case write_packet p of
       Inl e \<Rightarrow> (Inl (Client_serialisation e), cl)
     | Inr _ \<Rightarrow> (Inr (), cl\<lparr>cl_sent := cl_sent cl @ [p]\<rparr>))"

definition emit :: "client_event \<Rightarrow> ('d, unit) client_action" where
  "emit e cl = (Inr (), cl\<lparr>cl_events := cl_events cl @ [e]\<rparr>)"

section \<open>Outgoing packets\<close>

definition transport_packet_ty :: ty where
  "transport_packet_ty = T_seq [receiver_ty, transport_payload_ty, T_int 8]"

definition transport_packet_from :: "val \<Rightarrow> crypto_error + protocol_packet" where
  "transport_packet_from v = (case transport_packet_of v of Inl e \<Rightarrow> Inl (Malformed e) | Inr p \<Rightarrow> Inr p)"

definition out_insert :: "'d blob_db \<Rightarrow> protocol_packet \<Rightarrow> ('d, int) client_action" where
  "out_insert T p cl = (case write_der transport_packet_ty (packet_val p) of
       Inl e \<Rightarrow> (Inl (Client_crypto e), cl)
     | Inr b \<Rightarrow> (case bt_insert T b (cl_out cl) of
           None \<Rightarrow> (Inl Client_database, cl)
         | Some (d, k) \<Rightarrow> (Inr k, cl\<lparr>cl_out := d\<rparr>)))"

definition out_remove :: "'d blob_db \<Rightarrow> int \<Rightarrow> ('d, unit) client_action" where
  "out_remove T k cl = (Inr (), cl\<lparr>cl_out := bt_delete T k (cl_out cl)\<rparr>)"

definition set_ack :: "int \<Rightarrow> protocol_packet \<Rightarrow> protocol_packet" where
  "set_ack k p = (case p of Transport_packet r q _ \<Rightarrow> Transport_packet r q k | _ \<Rightarrow> p)"

definition out_pending :: "'d blob_db \<Rightarrow> ('d, protocol_packet list) client_action" where
  "out_pending T cl =
     (case mapE (\<lambda>(k, b). bindE (read_der transport_packet_ty transport_packet_from b) (\<lambda>p. Inr (set_ack k p))) (bt_select T (cl_out cl)) of
        Inl e \<Rightarrow> (Inl (Client_crypto e), cl)
      | Inr ps \<Rightarrow> (Inr ps, cl))"

section \<open>Incoming packets\<close>

definition in_insert :: "'d blob_db \<Rightarrow> transport_payload \<Rightarrow> ('d, int) client_action" where
  "in_insert T p cl = (case write_der transport_payload_ty (transport_payload_val p) of
       Inl e \<Rightarrow> (Inl (Client_crypto e), cl)
     | Inr b \<Rightarrow> (case bt_insert T b (cl_in cl) of
           None \<Rightarrow> (Inl Client_database, cl)
         | Some (d, k) \<Rightarrow> (Inr k, cl\<lparr>cl_in := d\<rparr>)))"

text \<open>\<^verbatim>\<open>in_packet::mark_seen\<close>, \<^verbatim>\<open>set_data\<close> and \<^verbatim>\<open>data\<close>.\<close>

definition mark_seen :: "'d blob_db \<Rightarrow> int \<Rightarrow> ('d, unit) client_action" where
  "mark_seen T k cl = (Inr (), cl\<lparr>cl_in := bt_delete T k (cl_in cl)\<rparr>)"

definition set_data :: "'d blob_db \<Rightarrow> ty \<Rightarrow> val \<Rightarrow> int \<Rightarrow> ('d, unit) client_action" where
  "set_data T t v k cl = (case write_der t v of
       Inl e \<Rightarrow> (Inl (Client_crypto e), cl)
     | Inr b \<Rightarrow> (Inr (), cl\<lparr>cl_in := bt_update T k b (cl_in cl)\<rparr>))"

definition get_data :: "'d blob_db \<Rightarrow> ty \<Rightarrow> (val \<Rightarrow> crypto_error + 'a) \<Rightarrow> int \<Rightarrow> ('d, 'a option) client_action" where
  "get_data T t of_val k cl = (let b = bt_userdata T k (cl_in cl) in
     if b = [] then (Inr None, cl)
     else case read_der t of_val b of Inl e \<Rightarrow> (Inl (Client_crypto e), cl) | Inr x \<Rightarrow> (Inr (Some x), cl))"

definition in_pending :: "'d blob_db \<Rightarrow> ('d, (int \<times> transport_payload) list) client_action" where
  "in_pending T cl =
     (case mapE (\<lambda>(k, b). bindE (read_der transport_payload_ty transport_payload_of b) (\<lambda>p. Inr (k, p))) (bt_select T (cl_in cl)) of
        Inl e \<Rightarrow> (Inl (Client_crypto e), cl)
      | Inr ps \<Rightarrow> (Inr ps, cl))"

section \<open>Handlers\<close>

primrec write_all :: "protocol_packet list \<Rightarrow> ('d, unit) client_action" where
  "write_all [] = returnA ()"
| "write_all (p # ps) = bindA (client_write p) (\<lambda>_. write_all ps)"

primrec emit_all :: "(int \<times> transport_payload) list \<Rightarrow> ('d, unit) client_action" where
  "emit_all [] = returnA ()"
| "emit_all (x # xs) = bindA (emit (Event_packet (fst x) (snd x))) (\<lambda>_. emit_all xs)"

text \<open>\<^verbatim>\<open>encrypted_connection::close\<close> and then the notification.\<close>

definition client_shutdown :: "reported_error \<Rightarrow> ('d, unit) client_action" where
  "client_shutdown e cl = emit (Event_disconnect e) (cl\<lparr>cl_state := Not_connected\<rparr>)"

definition client_on_connected :: "('d, unit) client_action" where
  "client_on_connected cl = client_write (Hello Packet_Protocol.current_version 0 no_net_error) (cl\<lparr>cl_hello_done := False\<rparr>)"

definition client_on_hello :: "'d blob_db \<Rightarrow> net_error \<Rightarrow> ('d, unit) client_action" where
  "client_on_hello T e cl =
     (if ne_code e \<noteq> 0 then client_shutdown (to_error e) cl
      else bindA (emit Event_connect) (\<lambda>_. bindA (out_pending T) write_all) (cl\<lparr>cl_hello_done := True\<rparr>))"

definition client_on_transport :: "'d blob_db \<Rightarrow> transport_payload \<Rightarrow> int \<Rightarrow> ('d, unit) client_action" where
  "client_on_transport T p a =
     bindA (in_insert T p) (\<lambda>k. bindA (emit (Event_packet k p)) (\<lambda>_. client_write (Ack_packet a)))"

definition client_on_error :: "'d blob_db \<Rightarrow> int \<Rightarrow> net_error \<Rightarrow> ('d, unit) client_action" where
  "client_on_error T a e = bindA (out_remove T a) (\<lambda>_. emit (Event_error a (to_error e)))"

definition client_receive :: "'d blob_db \<Rightarrow> protocol_packet \<Rightarrow> ('d, unit) client_action" where
  "client_receive T p = (case p of
       Hello _ _ e \<Rightarrow> client_on_hello T e
     | Transport_packet _ q a \<Rightarrow> client_on_transport T q a
     | Ack_packet a \<Rightarrow> out_remove T a
     | Error_packet a e \<Rightarrow> client_on_error T a e)"

definition emit_pending_packets :: "'d blob_db \<Rightarrow> ('d, unit) client_action" where
  "emit_pending_packets T = bindA (in_pending T) emit_all"

section \<open>Sending\<close>

text \<open>What the client's context provides: its own private key, the public keys it knows, and random octets.\<close>

record send_context =
  sx_crypto :: crypto
  sx_aes :: aes
  sx_prims :: pk_prims
  sx_my_key :: "private_key option"
  sx_public_keys :: "octets \<Rightarrow> public_key option"
  sx_sym_key :: octets
  sx_iv :: octets
  sx_encrypt :: encrypt_randomness
  sx_sign :: octets

definition make_payload :: "send_context \<Rightarrow> octets \<Rightarrow> octets \<Rightarrow> crypto_error + transport_payload" where
  "make_payload x content rec = (case sx_my_key x of
       None \<Rightarrow> Inl (Crypto_errc No_such_key)
     | Some my_key \<Rightarrow> (case sx_public_keys x rec of
           None \<Rightarrow> Inl (Crypto_errc No_such_key)
         | Some key \<Rightarrow>
             bindE (enveloper_add (sx_aes x) (sx_prims x) (sx_encrypt x) key (make_enveloper (sx_sym_key x) content)) (\<lambda>env.
             bindE (enveloper_result (sx_aes x) (sx_iv x) env) (\<lambda>ev.
             bindE (write_der enveloped_content_ty (enveloped_content_val ev)) (\<lambda>d.
             bindE (sk_sign (sx_prims x) (sx_sign x) my_key d []) (\<lambda>s. Inr \<lparr>tp_data = ev, tp_signature = s\<rparr>))))))"

definition client_send_packet :: "send_context \<Rightarrow> 'd blob_db \<Rightarrow> octets \<Rightarrow> octets \<Rightarrow> ('d, int) client_action" where
  "client_send_packet x T content rec = (case make_payload x content rec of
       Inl e \<Rightarrow> throwA (Client_crypto e)
     | Inr q \<Rightarrow>
         bindA (out_insert T (Transport_packet rec q 0)) (\<lambda>k cl.
           if cl_state cl = Connected \<and> cl_hello_done cl
           then bindA (client_write (Transport_packet rec q k)) (\<lambda>_. returnA k) cl
           else (Inr k, cl)))"

text \<open>\<^verbatim>\<open>packet_client::connect\<close>: the error it returns.\<close>

datatype connect_result = Connect_started | Already_connected | Invalid_state

definition client_connect :: "'d packet_client \<Rightarrow> connect_result \<times> 'd packet_client" where
  "client_connect cl = (case cl_state cl of
       Not_connected \<Rightarrow> (Connect_started, cl\<lparr>cl_state := Connecting\<rparr>)
     | Connected \<Rightarrow> (Already_connected, cl)
     | Connecting \<Rightarrow> (Invalid_state, cl))"

definition make_packet_client :: "'d \<Rightarrow> 'd \<Rightarrow> 'd packet_client" where
  "make_packet_client d_in d_out = \<lparr>cl_state = Not_connected, cl_hello_done = False, cl_in = d_in, cl_out = d_out, cl_sent = [], cl_events = []\<rparr>"

section \<open>Runs\<close>

text \<open>What happens to a client, each with the state it leaves behind, also when the call throws.\<close>

datatype client_input =
    Do_send send_context octets octets
  | Do_connect
  | Do_close
  | Do_seen int
  | Do_set_data ty val int
  | Do_emit_pending
  | Net_connected
  | Net_disconnected reported_error
  | Net_received protocol_packet

primrec client_do :: "'d blob_db \<Rightarrow> client_input \<Rightarrow> 'd packet_client \<Rightarrow> 'd packet_client" where
  "client_do T (Do_send x content rec) cl = snd (client_send_packet x T content rec cl)"
| "client_do T Do_connect cl = snd (client_connect cl)"
| "client_do T Do_close cl = snd (client_shutdown No_error_reported cl)"
| "client_do T (Do_seen k) cl = snd (mark_seen T k cl)"
| "client_do T (Do_set_data t v k) cl = snd (set_data T t v k cl)"
| "client_do T Do_emit_pending cl = snd (emit_pending_packets T cl)"
| "client_do T Net_connected cl = snd (client_on_connected (cl\<lparr>cl_state := Connected\<rparr>))"
| "client_do T (Net_disconnected e) cl = snd (emit (Event_disconnect e) (cl\<lparr>cl_state := Not_connected\<rparr>))"
| "client_do T (Net_received p) cl = snd (client_receive T p cl)"

section \<open>What the tables promise\<close>

locale blob_table =
  fixes T :: "'d blob_db" and rows :: "'d \<Rightarrow> int \<Rightarrow> (octets \<times> octets option) option"
  assumes insert_key: "bt_insert T b d = Some (d', k) \<Longrightarrow> rows d k = None \<and> rows d' = (rows d)(k \<mapsto> (b, None))"
    and delete_key: "rows (bt_delete T k d) = (rows d)(k := None)"
    and select_all: "set (bt_select T d) = {(k, b). \<exists>u. rows d k = Some (b, u)}"
    and update_key: "rows (bt_update T k v d) = (case rows d k of None \<Rightarrow> rows d | Some (b, u) \<Rightarrow> (rows d)(k \<mapsto> (b, Some v)))"
    and userdata_key: "bt_userdata T k d = (case rows d k of Some (b, Some u) \<Rightarrow> u | _ \<Rightarrow> [])"

text \<open>SQLite's choice for an \<^verbatim>\<open>INTEGER PRIMARY KEY\<close> without \<^verbatim>\<open>AUTOINCREMENT\<close>: 1 in an empty table, else one more than the greatest.\<close>

locale sqlite_blob_table = blob_table +
  assumes first_key: "\<forall>k. rows d k = None \<Longrightarrow> \<exists>d'. bt_insert T b d = Some (d', 1)"
    and next_key: "bt_insert T b d = Some (d', k) \<Longrightarrow> rows d j \<noteq> None \<Longrightarrow> j < k"

type_synonym blob_rows = "(int \<times> octets \<times> octets option) list"

definition blob_list :: "blob_rows blob_db" where
  "blob_list = \<lparr>
     bt_insert = (\<lambda>b d. let k = (if d = [] then 1 else Max (fst ` set d) + 1) in Some (d @ [(k, b, None)], k)),
     bt_delete = (\<lambda>k. filter (\<lambda>x. fst x \<noteq> k)),
     bt_select = (\<lambda>d. map (\<lambda>k. (k, fst (the (map_of d k)))) (remdups (map fst d))),
     bt_update = (\<lambda>k v. map (\<lambda>(j, b, u). (j, b, if j = k then Some v else u))),
     bt_userdata = (\<lambda>k d. case map_of d k of Some (b, Some u) \<Rightarrow> u | _ \<Rightarrow> [])\<rparr>"

lemma fresh_max: "(d :: blob_rows) \<noteq> [] \<Longrightarrow> map_of d (Max (fst ` set d) + 1) = None"
proof -
  assume "d \<noteq> []"
  have "Max (fst ` set d) + 1 \<notin> fst ` set d"
  proof
    assume "Max (fst ` set d) + 1 \<in> fst ` set d"
    then have "Max (fst ` set d) + 1 \<le> Max (fst ` set d)" by (intro Max_ge) auto
    then show False by simp
  qed
  then show ?thesis by (simp add: map_of_eq_None_iff)
qed

interpretation bl: sqlite_blob_table blob_list map_of
proof
  fix d d' :: blob_rows and b k v j
  show "map_of d k = None \<and> map_of d' = (map_of d)(k \<mapsto> (b, None))" if "bt_insert blob_list b d = Some (d', k)"
  proof -
    have "map_of d k = None" "d' = d @ [(k, b, None)]" using that fresh_max [of d] by (auto simp: blob_list_def Let_def split: if_splits)
    then show ?thesis by (auto simp: map_add_def fun_eq_iff split: option.splits)
  qed
  show "map_of (bt_delete blob_list k d) = (map_of d)(k := None)"
    by (induction d) (auto simp: blob_list_def)
  show "set (bt_select blob_list d) = {(k, b). \<exists>u. map_of d k = Some (b, u)}"
  proof -
    have "set (bt_select blob_list d) = (\<lambda>k. (k, fst (the (map_of d k)))) ` dom (map_of d)"
      by (simp add: blob_list_def dom_map_of_conv_image_fst)
    then show ?thesis by (auto simp: image_iff dom_def)
  qed
  show "map_of (bt_update blob_list k v d) = (case map_of d k of None \<Rightarrow> map_of d | Some (b, u) \<Rightarrow> (map_of d)(k \<mapsto> (b, Some v)))"
  proof -
    have "map_of (bt_update blob_list k v d) j = (if j = k then map_option (\<lambda>(b, u). (b, Some v)) (map_of d j) else map_of d j)" for j
      by (induction d) (auto simp: blob_list_def)
    then show ?thesis by (auto simp: fun_eq_iff split: option.splits)
  qed
  show "bt_userdata blob_list k d = (case map_of d k of Some (b, Some u) \<Rightarrow> u | _ \<Rightarrow> [])" by (simp add: blob_list_def)
  show "\<exists>d'. bt_insert blob_list b d = Some (d', 1)" if "\<forall>k. map_of d k = None"
    using that by (cases d) (auto simp: blob_list_def split: if_splits)
  show "j < k" if "bt_insert blob_list b d = Some (d', k)" "map_of d j \<noteq> None"
  proof -
    have "j \<in> fst ` set d" using that(2) by (simp add: map_of_eq_None_iff)
    then have "d \<noteq> []" "j \<le> Max (fst ` set d)" by auto
    then show ?thesis using that(1) by (auto simp: blob_list_def Let_def)
  qed
qed


section \<open>What a client keeps\<close>

text \<open>The packet that a key stands for is answered by its acknowledgement or an error.\<close>

definition answers :: "int \<Rightarrow> client_input \<Rightarrow> bool" where
  "answers k i = (case i of Net_received (Ack_packet a) \<Rightarrow> a = k | Net_received (Error_packet a _) \<Rightarrow> a = k | _ \<Rightarrow> False)"

lemma client_write_keeps [simp]:
  "cl_out (snd (client_write p cl)) = cl_out cl" "cl_in (snd (client_write p cl)) = cl_in cl"
  by (simp_all add: client_write_def split: sum.splits)

lemma emit_keeps [simp]: "cl_out (snd (emit e cl)) = cl_out cl" "cl_in (snd (emit e cl)) = cl_in cl" "cl_sent (snd (emit e cl)) = cl_sent cl"
  by (simp_all add: emit_def)

lemma write_all_keeps [simp]: "cl_out (snd (write_all ps cl)) = cl_out cl" "cl_in (snd (write_all ps cl)) = cl_in cl"
proof (induction ps arbitrary: cl)
  case (Cons p ps)
  { case 1 show ?case using Cons(1) by (auto simp: bindA_snd client_write_def split: sum.splits) }
  { case 2 show ?case using Cons(2) by (auto simp: bindA_snd client_write_def split: sum.splits) }
qed (simp_all add: returnA_def)

lemma emit_all_keeps [simp]: "cl_out (snd (emit_all xs cl)) = cl_out cl" "cl_in (snd (emit_all xs cl)) = cl_in cl"
proof (induction xs arbitrary: cl)
  case (Cons x xs)
  { case 1 show ?case using Cons(1) by (simp add: bindA_snd emit_def) }
  { case 2 show ?case using Cons(2) by (simp add: bindA_snd emit_def) }
qed (simp_all add: returnA_def)

lemma hello_tables: "cl_out (snd (client_on_hello T e cl)) = cl_out cl" "cl_in (snd (client_on_hello T e cl)) = cl_in cl"
  by (simp_all add: client_on_hello_def client_shutdown_def bindA_snd emit_def out_pending_def split: sum.splits)

lemma transport_tables: "cl_out (snd (client_on_transport T p a cl)) = cl_out cl"
  by (simp add: client_on_transport_def bindA_snd emit_def in_insert_def split: sum.splits option.splits)

lemma send_tables: "cl_in (snd (client_send_packet x T content rec cl)) = cl_in cl"
  by (auto simp: client_send_packet_def bindA_snd out_insert_def throwA_def client_write_def returnA_def split: sum.splits option.splits)

context blob_table
begin

lemma client_do_out:
  assumes "rows (cl_out cl) k = Some b" "\<not> answers k i"
  shows "rows (cl_out (client_do T i cl)) k = Some b"
proof (cases i)
  case (Do_send x content rec)
  have "rows (cl_out (snd (out_insert T p cl))) k = Some b" for p
    using assms(1) insert_key by (auto simp: out_insert_def split: sum.splits option.splits)
  moreover have "cl_out (snd (client_send_packet x T content rec cl)) = cl_out (snd (out_insert T (Transport_packet rec q 0) cl))"
    if "make_payload x content rec = Inr q" for q
    using that by (auto simp: client_send_packet_def bindA_snd returnA_def split: prod.splits sum.splits)
      (metis client_write_keeps(1) snd_conv)+
  ultimately show ?thesis using Do_send assms(1)
    by (cases "make_payload x content rec") (simp_all add: client_send_packet_def throwA_def)
next
  case (Net_received p)
  then show ?thesis using assms
    by (cases p) (auto simp: hello_tables transport_tables client_receive_def answers_def client_on_error_def out_remove_def bindA_snd emit_def delete_key)
qed (use assms(1) in \<open>simp_all add: client_connect_def client_shutdown_def mark_seen_def set_data_def emit_pending_packets_def in_pending_def
      bindA_snd client_on_connected_def split: connection_state.splits sum.splits\<close>)

lemma client_keeps_out: "rows (cl_out cl) k = Some b \<Longrightarrow> list_all (\<lambda>i. \<not> answers k i) is \<Longrightarrow> rows (cl_out (fold (client_do T) is cl)) k = Some b"
  by (induction "is" arbitrary: cl) (simp_all add: client_do_out)

lemma client_do_in:
  assumes "rows (cl_in cl) k = Some (b, u)" "i \<noteq> Do_seen k"
  shows "\<exists>u'. rows (cl_in (client_do T i cl)) k = Some (b, u')"
proof (cases i)
  case (Net_received p)
  have "rows (cl_in (snd (in_insert T q cl))) k = Some (b, u)" for q
    using assms(1) insert_key by (auto simp: in_insert_def split: sum.splits option.splits)
  moreover have "cl_in (snd (client_on_transport T q a cl)) = cl_in (snd (in_insert T q cl))" for q a
    by (auto simp: client_on_transport_def bindA_snd emit_def split: prod.splits sum.splits)
  ultimately show ?thesis using assms Net_received
    by (cases p) (auto simp: hello_tables client_receive_def client_on_error_def out_remove_def bindA_snd emit_def)
next
  case (Do_set_data t v j)
  then show ?thesis using assms(1) by (auto simp: set_data_def update_key split: sum.splits option.splits)
qed (use assms in \<open>auto simp: send_tables client_connect_def client_shutdown_def mark_seen_def emit_pending_packets_def in_pending_def
      bindA_snd client_on_connected_def delete_key split: connection_state.splits sum.splits\<close>)

lemma client_keeps_in: "rows (cl_in cl) k = Some (b, u) \<Longrightarrow> Do_seen k \<notin> set is \<Longrightarrow> \<exists>u'. rows (cl_in (fold (client_do T) is cl)) k = Some (b, u')"
proof (induction "is" arbitrary: cl u)
  case (Cons i "is")
  then show ?case using client_do_in [OF Cons.prems(1), of i] by fastforce
qed simp

end


section \<open>Properties of the client\<close>

lemma transport_packet_stored:
  assumes "packet_ok (Transport_packet r q 0)"
  shows "\<exists>b. write_der transport_packet_ty (packet_val (Transport_packet r q 0)) = Inr b \<and>
    read_der transport_packet_ty transport_packet_from b = Inr (Transport_packet r q 0)"
proof -
  let ?p = "Transport_packet r q 0"
  have t: "headed transport_packet_ty" "ty_ok transport_packet_ty" "depth transport_packet_ty \<le> max_structure_depth"
    by (simp_all add: transport_packet_ty_def receiver_ty_def transport_payload_ty_def enveloped_content_ty_def encrypted_key_ty_def
        signature_ty_def max_structure_depth_def)
  have "tt_type (packet_entry ?p) = transport_packet_ty" by (simp add: packet_types_def transport_packet_ty_def)
  then have v: "val_ok transport_packet_ty (packet_val ?p)" using assms by (simp add: packet_ok_def)
  have "transport_packet_from (packet_val ?p) = Inr ?p"
    using packet_of_val [of ?p] assms by (simp add: packet_ok_def transport_packet_from_def packet_of_def packet_types_def)
  moreover have "asn_der_serialise transport_packet_ty (packet_val ?p) = Inr (der transport_packet_ty None (packet_val ?p))"
    "asn_der_deserialise transport_packet_ty (der transport_packet_ty None (packet_val ?p)) = Inr (packet_val ?p)"
    using asn_der_ok(1) [OF t(1,2) v t(3)] asn_der_ok(2) [OF t(1,2) v t(3), of "[]"] by simp_all
  ultimately show ?thesis by (simp add: write_der_def read_der_def)
qed

lemma mapE_member: "mapE f xs = Inr ys \<Longrightarrow> x \<in> set xs \<Longrightarrow> \<exists>y \<in> set ys. f x = Inr y"
  by (induction xs arbitrary: ys) auto

lemma write_all_ok: "write_all ps cl = (Inr (), cl') \<Longrightarrow> cl_sent cl' = cl_sent cl @ ps"
proof (induction ps arbitrary: cl)
  case (Cons p ps)
  obtain cl1 where "client_write p cl = (Inr (), cl1)" "write_all ps cl1 = (Inr (), cl')" using Cons.prems by (auto simp: bindA_eq_Inr)
  then show ?case using Cons.IH [of cl1] by (simp add: client_write_def split: sum.splits) auto
qed (simp add: returnA_def)

lemma emit_all_ok: "\<exists>es. emit_all xs cl = (Inr (), cl\<lparr>cl_events := cl_events cl @ es\<rparr>) \<and> es = map (\<lambda>x. Event_packet (fst x) (snd x)) xs"
proof (induction xs arbitrary: cl)
  case (Cons x xs)
  show ?case using Cons [of "cl\<lparr>cl_events := cl_events cl @ [Event_packet (fst x) (snd x)]\<rparr>"] by (simp add: bindA_def emit_def)
qed (simp add: returnA_def)

text \<open>C24: A packet is sent until it is answered: once \<^verbatim>\<open>send_packet\<close> has returned the key \<open>k\<close>, then after whatever else happens to the client,
  as long as neither an acknowledgement nor an error for \<open>k\<close> comes in, the next hello of the server makes the client send
  the same packet again under the same number.\<close>

theorem client_keeps_until_answered:
  assumes "blob_table T rows" "client_send_packet x T content rec cl = (Inr k, cl1)" "make_payload x content rec = Inr q"
    "packet_ok (Transport_packet rec q 0)" "list_all (\<lambda>i. \<not> answers k i) is"
    "client_receive T (Hello v a e) (fold (client_do T) is cl1) = (Inr (), cl2)" "ne_code e = 0"
  shows "\<exists>ps. cl_sent cl2 = cl_sent (fold (client_do T) is cl1) @ ps \<and> Transport_packet rec q k \<in> set ps"
proof -
  obtain b where b: "write_der transport_packet_ty (packet_val (Transport_packet rec q 0)) = Inr b"
    "read_der transport_packet_ty transport_packet_from b = Inr (Transport_packet rec q 0)"
    using transport_packet_stored [OF assms(4)] by blast
  obtain d where d: "bt_insert T b (cl_out cl) = Some (d, k)" "cl_out cl1 = d"
    using assms(2,3) b(1) by (auto simp: client_send_packet_def bindA_eq_Inr out_insert_def client_write_def returnA_def
        split: option.splits if_splits sum.splits)
  then have "rows (cl_out cl1) k = Some (b, None)" using blob_table.insert_key [OF assms(1) d(1)] by simp
  then have row: "rows (cl_out (fold (client_do T) is cl1)) k = Some (b, None)" using blob_table.client_keeps_out [OF assms(1) _ assms(5)] by blast
  let ?cl = "fold (client_do T) is cl1"
  have "(k, b) \<in> set (bt_select T (cl_out ?cl))" using row by (auto simp: blob_table.select_all [OF assms(1)])
  moreover obtain ps where ps: "mapE (\<lambda>(k, b). bindE (read_der transport_packet_ty transport_packet_from b) (\<lambda>p. Inr (set_ack k p))) (bt_select T (cl_out ?cl)) = Inr ps"
    "cl_sent cl2 = cl_sent ?cl @ ps"
  proof -
    obtain ps where "out_pending T (?cl\<lparr>cl_hello_done := True, cl_events := cl_events ?cl @ [Event_connect]\<rparr>) =
        (Inr ps, ?cl\<lparr>cl_hello_done := True, cl_events := cl_events ?cl @ [Event_connect]\<rparr>)"
      "write_all ps (?cl\<lparr>cl_hello_done := True, cl_events := cl_events ?cl @ [Event_connect]\<rparr>) = (Inr (), cl2)"
      using assms(6,7) by (auto simp: client_receive_def client_on_hello_def bindA_eq_Inr emit_def out_pending_def split: sum.splits)
    then show ?thesis using that [of ps] write_all_ok by (fastforce simp: out_pending_def split: sum.splits)
  qed
  ultimately have "Transport_packet rec q k \<in> set ps" using mapE_member [OF ps(1)] b(2) by (fastforce simp: set_ack_def)
  then show ?thesis using ps(2) by blast
qed

text \<open>C25: A packet that comes in is offered until it is seen: when the client has handled it without throwing, it has
  acknowledged it, reported it under some key \<open>k\<close>, and after whatever else happens, as long as \<open>k\<close> is not marked as seen,
  \<^verbatim>\<open>emit_pending_packets\<close> reports it again under that key.\<close>

theorem client_offers_until_seen:
  assumes "blob_table T rows" "client_receive T (Transport_packet r q a) cl = (Inr (), cl1)" "payload_ok q"
  shows "\<exists>k. cl_sent cl1 = cl_sent cl @ [Ack_packet a] \<and> cl_events cl1 = cl_events cl @ [Event_packet k q] \<and>
    (\<forall>is cl2. Do_seen k \<notin> set is \<and> emit_pending_packets T (fold (client_do T) is cl1) = (Inr (), cl2) \<longrightarrow>
       (\<exists>es. cl_events cl2 = cl_events (fold (client_do T) is cl1) @ es \<and> Event_packet k q \<in> set es))"
proof -
  obtain b where b: "write_der transport_payload_ty (transport_payload_val q) = Inr b" "read_der transport_payload_ty transport_payload_of b = Inr q"
    using assms(3) by (auto simp: payload_ok_def)
  obtain d k where d: "bt_insert T b (cl_in cl) = Some (d, k)" "cl_in cl1 = d"
    "cl_sent cl1 = cl_sent cl @ [Ack_packet a]" "cl_events cl1 = cl_events cl @ [Event_packet k q]"
    using assms(2) b(1) by (cases "write_packet (Ack_packet a)") (auto simp: client_receive_def client_on_transport_def bindA_eq_Inr
        in_insert_def emit_def client_write_def split: option.splits)
  then have row: "rows (cl_in cl1) k = Some (b, None)" using blob_table.insert_key [OF assms(1) d(1)] by simp
  have "\<exists>es. cl_events cl2 = cl_events (fold (client_do T) is cl1) @ es \<and> Event_packet k q \<in> set es"
    if i: "Do_seen k \<notin> set is" "emit_pending_packets T (fold (client_do T) is cl1) = (Inr (), cl2)" for "is" cl2
  proof -
    let ?cl = "fold (client_do T) is cl1"
    obtain u where "rows (cl_in ?cl) k = Some (b, u)" using blob_table.client_keeps_in [OF assms(1) row i(1)] by blast
    then have m: "(k, b) \<in> set (bt_select T (cl_in ?cl))" by (auto simp: blob_table.select_all [OF assms(1)])
    obtain xs where xs: "mapE (\<lambda>(k, b). bindE (read_der transport_payload_ty transport_payload_of b) (\<lambda>p. Inr (k, p))) (bt_select T (cl_in ?cl)) = Inr xs"
      "emit_all xs ?cl = (Inr (), cl2)"
      using i(2) by (auto simp: emit_pending_packets_def bindA_eq_Inr in_pending_def split: sum.splits)
    then have "(k, q) \<in> set xs" using mapE_member [OF xs(1) m] b(2) by fastforce
    then have "Event_packet k q \<in> set (map (\<lambda>x. Event_packet (fst x) (snd x)) xs)" by force
    then show ?thesis using emit_all_ok [of xs ?cl] xs(2) by auto
  qed
  then show ?thesis using d(3,4) by blast
qed


section \<open>A sent packet reaches its receiver readable\<close>

text \<open>Sizes: the encrypted key of an envelope and the signature are small.\<close>

lemma length_der_bound: "shape_ok t v \<Longrightarrow> bound t v \<le> max_constructed_size \<Longrightarrow> length (der t None v) \<le> bound t v"
  using fits_all [of t] tag_ok_None by blast

lemma pk_encrypt_size:
  assumes "prims_ok c a p" "key_pair c p k" "length (rnd_iv r) = 12" "length msg = 32" "pk_encrypt a p r (sk_public k) msg = Inr d"
  shows "length d \<le> 2000"
proof -
  let ?pk = "sk_public k"
  obtain enc where enc: "kem_encapsulate p (rnd_eph r) (rnd_kem r) \<lparr>kpub_suite = pk_suite ?pk, kpub_x = kem_x_pk ?pk, kpub_pq = kem_pq_pk ?pk\<rparr> = Inr enc"
    using assms(5) by (auto simp: pk_encrypt_def split: if_splits)
  note kem = kem_roundtrip [OF assms(1,2) enc]
  define h where "h = (let buf = gcm_seal a (enc_key enc) (rnd_iv r) (key_id ?pk) msg; n = length buf - aes_gcm_tag_size
    in \<lparr>hc_version = 1, hc_suite = pk_suite ?pk, hc_ct_x = enc_ct_x enc, hc_ct_pq = enc_ct_pq enc,
      hc_iv = rnd_iv r, hc_encrypted = take n buf, hc_tag = drop n buf\<rparr>)"
  have g: "length (gcm_seal a (enc_key enc) (rnd_iv r) (key_id ?pk) msg) = 48" using assms(1,4) by (simp add: prims_ok_def)
  have l: "unat (hc_version h) < 2 ^ 16" "length (hc_ct_x h) \<le> 56" "length (hc_ct_pq h) \<le> 1568" "length (hc_iv h) \<le> 12"
    "length (hc_encrypted h) \<le> 32" "length (hc_tag h) \<le> 16"
    using kem(2,3) assms(3) g by (simp_all add: h_def Let_def aes_gcm_tag_size_def)
  have u: "unat (suite_value t) < 2 ^ 16" for t by (simp add: suite_value_def split: suite.splits)
  have "asn_der_serialise hybrid_ciphertext_ty (hybrid_ciphertext_val h) = Inr (der hybrid_ciphertext_ty None (hybrid_ciphertext_val h))"
    using l by (intro hybrid_der(1)) (simp_all add: max_structure_size_def)
  then have "d = der hybrid_ciphertext_ty None (hybrid_ciphertext_val h)"
    using assms(5) enc by (simp add: pk_encrypt_def Let_def h_def split: if_splits)
  moreover have "length (der hybrid_ciphertext_ty None (hybrid_ciphertext_val h)) \<le> bound hybrid_ciphertext_ty (hybrid_ciphertext_val h)"
    "bound hybrid_ciphertext_ty (hybrid_ciphertext_val h) \<le> 2000"
  proof -
    show b: "bound hybrid_ciphertext_ty (hybrid_ciphertext_val h) \<le> 2000"
      using l by (simp add: hybrid_ciphertext_ty_def hybrid_ciphertext_val_def)
    show "length (der hybrid_ciphertext_ty None (hybrid_ciphertext_val h)) \<le> bound hybrid_ciphertext_ty (hybrid_ciphertext_val h)"
      using l u [of "hc_suite h"] b
      by (intro length_der_bound) (simp_all add: hybrid_ciphertext_ty_def hybrid_ciphertext_val_def max_structure_size_def max_constructed_size_def)
  qed
  ultimately show ?thesis by simp
qed

text \<open>What \<^verbatim>\<open>send_packet\<close> relies on: the sender's and the receiver's keys are key pairs, the receiver's public key is the one
  the client knows for \<open>rec\<close>.\<close>

definition keys_known :: "send_context \<Rightarrow> octets \<Rightarrow> private_key \<Rightarrow> private_key \<Rightarrow> bool" where
  "keys_known x rec k kr \<longleftrightarrow> prims_ok (sx_crypto x) (sx_aes x) (sx_prims x) \<and> (\<forall>m. length (sha3_256 (sx_crypto x) m) \<le> 32) \<and>
     sx_my_key x = Some k \<and> key_pair (sx_crypto x) (sx_prims x) k \<and>
     sx_public_keys x rec = Some (sk_public kr) \<and> key_pair (sx_crypto x) (sx_prims x) kr \<and> length (rnd_iv (sx_encrypt x)) = 12"

lemma payload_parts:
  assumes "keys_known x rec k kr" "make_payload x content rec = Inr q"
  shows "envelope (sx_aes x) (sx_prims x) (sx_sym_key x) (sx_iv x) [(sx_encrypt x, sk_public kr)] content = Inr (tp_data q)"
    "\<exists>d. write_der enveloped_content_ty (enveloped_content_val (tp_data q)) = Inr d \<and> sk_sign (sx_prims x) (sx_sign x) k d [] = Inr (tp_signature q)"
  using assms by (auto simp: make_payload_def keys_known_def envelope_def)

lemma envelope_sizes:
  assumes "prims_ok c a p" "key_pair c p kr" "length (rnd_iv r) = 12" "envelope a p sym_key iv [(r, sk_public kr)] content = Inr ev"
  shows "\<exists>ek. ev_keys ev = [ek] \<and> ek_version ek = 1 \<and> ek_key_id ek = key_id (sk_public kr) \<and> length (ek_data ek) \<le> 2000"
    "ev_version ev = 0" "length (ev_iv ev) = 12" "length (ev_encrypted ev) = length content" "length (ev_tag ev) \<le> 16"
proof -
  obtain ek where ek: "encrypt_key a p r (sk_public kr) sym_key = Inr ek" "ev_keys ev = [ek]" "ev_version ev = 0"
    "seal_content a iv content sym_key = Inr \<lparr>ec_iv = ev_iv ev, ec_content = ev_encrypted ev, ec_tag = ev_tag ev\<rparr>"
    using assms(4) by (cases ev) (auto simp: envelope_def enveloper_add_def make_enveloper_def enveloper_result_def)
  have e: "length sym_key = 32" "length (ev_iv ev) = 12" "length (ev_encrypted ev) = length content" "length (ev_tag ev) \<le> 16"
    using ek(4) by (auto simp: seal_content_eq min_le_iff_disj dest!: arg_cong [where f = length] split: if_splits)
  show "\<exists>ek. ev_keys ev = [ek] \<and> ek_version ek = 1 \<and> ek_key_id ek = key_id (sk_public kr) \<and> length (ek_data ek) \<le> 2000"
    using ek(1,2) pk_encrypt_size [OF assms(1-3) e(1)] by (auto simp: encrypt_key_def)
  show "ev_version ev = 0" "length (ev_iv ev) = 12" "length (ev_encrypted ev) = length content" "length (ev_tag ev) \<le> 16"
    by (fact ek(3) e)+
qed

lemmas envelope_types = enveloped_content_ty_def encrypted_key_ty_def enveloped_content_val_def encrypted_key_val_def

lemma keys_known_ids: "keys_known x rec k kr \<Longrightarrow> length (key_id (sk_public k)) \<le> 32 \<and> length (key_id (sk_public kr)) \<le> 32"
  by (auto simp: keys_known_def key_pair_def construct_id_def Let_def)

lemma payload_made:
  assumes "keys_known x rec k kr" "length content \<le> 2 ^ 20"
    "envelope (sx_aes x) (sx_prims x) (sx_sym_key x) (sx_iv x) [(sx_encrypt x, sk_public kr)] content = Inr ev"
  shows "\<exists>q. make_payload x content rec = Inr q"
proof -
  have x: "prims_ok (sx_crypto x) (sx_aes x) (sx_prims x)" "key_pair (sx_crypto x) (sx_prims x) k" "key_pair (sx_crypto x) (sx_prims x) kr"
    "length (rnd_iv (sx_encrypt x)) = 12" "sx_my_key x = Some k" "sx_public_keys x rec = Some (sk_public kr)"
    using assms(1) by (simp_all add: keys_known_def)
  note e = envelope_sizes [OF x(1,3,4) assms(3)]
  have v: "val_ok enveloped_content_ty (enveloped_content_val ev)"
    using e keys_known_ids [OF assms(1)] assms(2)
    by (elim exE conjE, intro val_ok_bound) (simp_all add: envelope_types max_structure_size_def max_constructed_size_def)
  have t: "headed enveloped_content_ty" "ty_ok enveloped_content_ty" "depth enveloped_content_ty \<le> max_structure_depth"
    by (simp_all add: envelope_types max_structure_depth_def)
  obtain d where "write_der enveloped_content_ty (enveloped_content_val ev) = Inr d" using asn_der_ok(1) [OF t(1,2) v t(3)] by (simp add: write_der_def)
  moreover obtain s where "sk_sign (sx_prims x) (sx_sign x) k d [] = Inr s" using sign_verify [OF x(1,2), of "[]" "sx_sign x" d] by auto
  ultimately show ?thesis using assms(3) x(5,6) by (auto simp: make_payload_def envelope_def)
qed

lemma payload_packet_ok:
  assumes "keys_known x rec k kr" "make_payload x content rec = Inr q" "length content \<le> 2 ^ 20" "length rec \<le> 2 ^ 16" "ack_ok i"
  shows "packet_ok (Transport_packet rec q i)"
proof -
  have x: "prims_ok (sx_crypto x) (sx_aes x) (sx_prims x)" "key_pair (sx_crypto x) (sx_prims x) k" "key_pair (sx_crypto x) (sx_prims x) kr"
    "length (rnd_iv (sx_encrypt x)) = 12" using assms(1) by (simp_all add: keys_known_def)
  note e = envelope_sizes [OF x(1,3,4) payload_parts(1) [OF assms(1,2)]]
  obtain d where d: "sk_sign (sx_prims x) (sx_sign x) k d [] = Inr (tp_signature q)" using payload_parts(2) [OF assms(1,2)] by blast
  have s: "sig_version (tp_signature q) = 2" "sig_issuer (tp_signature q) = key_id (sk_public k)" "length (sig_octets (tp_signature q)) \<le> 4627"
    using d sign_verify [OF x(1,2), of "[]" "sx_sign x" d] by auto
  have "val_ok (tt_type (packet_entry (Transport_packet rec q i))) (packet_val (Transport_packet rec q i))"
    using e s keys_known_ids [OF assms(1)] assms(3-5)
    by (elim exE conjE, intro val_ok_bound)
      (simp_all add: sint_ack [OF assms(5)] packet_types_def receiver_ty_def receiver_val_def transport_payload_ty_def envelope_types signature_ty_def
        transport_payload_val_def signature_val_def max_structure_size_def max_constructed_size_def ack_ok_def)
  then show ?thesis using assms(5) by (simp add: packet_ok_def)
qed

text \<open>A packet the client sends can be read by its receiver and is signed by its sender: the enveloped content decrypts with
  the receiver's private key to the content, the signature names the sender's key and the sender's public key verifies it
  over the envelope.\<close>

theorem sent_packet_opens:
  assumes "keys_known x rec k kr" "client_send_packet x T content rec cl = (Inr n, cl')"
  shows "\<exists>q d b. bt_insert T b (cl_out cl) = Some (cl_out cl', n) \<and> write_der transport_packet_ty (packet_val (Transport_packet rec q 0)) = Inr b \<and>
     enveloped_decrypt (sx_aes x) (sx_prims x) (tp_data q) kr = Inr content \<and>
     write_der enveloped_content_ty (enveloped_content_val (tp_data q)) = Inr d \<and>
     sig_issuer (tp_signature q) = key_id (sk_public k) \<and> verify (sx_crypto x) (sk_public k) (tp_signature q) d [] = Inr True"
proof -
  have x: "prims_ok (sx_crypto x) (sx_aes x) (sx_prims x)" "key_pair (sx_crypto x) (sx_prims x) k" "key_pair (sx_crypto x) (sx_prims x) kr"
    "length (rnd_iv (sx_encrypt x)) = 12" using assms(1) by (simp_all add: keys_known_def)
  obtain q where q: "make_payload x content rec = Inr q"
    using assms(2) by (cases "make_payload x content rec") (auto simp: client_send_packet_def throwA_def)
  obtain b where b: "write_der transport_packet_ty (packet_val (Transport_packet rec q 0)) = Inr b" "bt_insert T b (cl_out cl) = Some (cl_out cl', n)"
    using assms(2) q by (auto simp: client_send_packet_def bindA_eq_Inr out_insert_def client_write_def returnA_def
        split: option.splits if_splits sum.splits)
  obtain d where d: "write_der enveloped_content_ty (enveloped_content_val (tp_data q)) = Inr d" "sk_sign (sx_prims x) (sx_sign x) k d [] = Inr (tp_signature q)"
    using payload_parts(2) [OF assms(1) q] by blast
  have "enveloped_decrypt (sx_aes x) (sx_prims x) (tp_data q) kr = Inr content"
    by (rule envelope_opens [OF x(1) payload_parts(1) [OF assms(1) q] x(3)]) (simp_all add: x(4))
  moreover have "sig_issuer (tp_signature q) = key_id (sk_public k)" "verify (sx_crypto x) (sk_public k) (tp_signature q) d [] = Inr True"
    using sign_verify [OF x(1,2), of "[]" "sx_sign x" d] d(2) key_pair_valid(2) [OF x(1,2)] x(2) by (auto simp: key_pair_def Let_def)
  ultimately show ?thesis using b d(1) by blast
qed

section \<open>An example\<close>

definition demo_send :: send_context where
  "demo_send = \<lparr>sx_crypto = demo_crypto, sx_aes = demo_aes, sx_prims = demo_prims, sx_my_key = Some demo_sk,
     sx_public_keys = (\<lambda>_. Some (sk_public demo_sk)), sx_sym_key = replicate 32 0, sx_iv = replicate 12 0,
     sx_encrypt = demo_randomness, sx_sign = []\<rparr>"

abbreviation (input) demo_client :: "blob_rows packet_client" where
  "demo_client \<equiv> make_packet_client [] []"

lemma demo_keys_known: "keys_known demo_send [7] demo_sk demo_sk"
  by (simp add: keys_known_def demo_send_def demo_prims_ok demo_key_pair demo_randomness_def) (simp add: demo_crypto_def)

lemma demo_payload: "\<exists>q. make_payload demo_send [1, 2, 3] [7] = Inr q"
proof -
  obtain ev where "envelope (sx_aes demo_send) (sx_prims demo_send) (sx_sym_key demo_send) (sx_iv demo_send) [(sx_encrypt demo_send, sk_public demo_sk)] [1, 2, 3] = Inr ev"
    using demo_envelope by (auto simp: demo_send_def)
  then show ?thesis by (rule payload_made [OF demo_keys_known, rotated]) simp
qed


text \<open>The client keeps the packet under the key 1.\<close>

lemma demo_sent:
  assumes "make_payload demo_send [1, 2, 3] [7] = Inr q"
  shows "\<exists>b. write_der transport_packet_ty (packet_val (Transport_packet [7] q 0)) = Inr b \<and>
     read_der transport_packet_ty transport_packet_from b = Inr (Transport_packet [7] q 0) \<and>
     client_send_packet demo_send blob_list [1, 2, 3] [7] demo_client = (Inr 1, demo_client\<lparr>cl_out := [(1, b, None)]\<rparr>)"
proof -
  have "packet_ok (Transport_packet [7] q 0)" by (rule payload_packet_ok [OF demo_keys_known assms]) (simp_all add: ack_ok_def)
  from transport_packet_stored [OF this] obtain b where "write_der transport_packet_ty (packet_val (Transport_packet [7] q 0)) = Inr b"
    "read_der transport_packet_ty transport_packet_from b = Inr (Transport_packet [7] q 0)" by blast
  then show ?thesis using assms by (simp add: client_send_packet_def bindA_def out_insert_def make_packet_client_def blob_list_def)
qed

lemma demo_hello:
  assumes "make_payload demo_send [1, 2, 3] [7] = Inr q" "read_der transport_packet_ty transport_packet_from b = Inr (Transport_packet [7] q 0)"
    "cl_out cl = [(1, b, None)]"
  shows "client_receive blob_list (Hello v a no_net_error) cl =
    (Inr (), cl\<lparr>cl_hello_done := True, cl_events := cl_events cl @ [Event_connect], cl_sent := cl_sent cl @ [Transport_packet [7] q 1]\<rparr>)"
proof -
  have "packet_ok (Transport_packet [7] q 1)" by (rule payload_packet_ok [OF demo_keys_known assms(1)]) (simp_all add: ack_ok_def)
  then show ?thesis using assms(2,3) write_packet_eq
    by (simp add: client_receive_def client_on_hello_def no_net_error_def bindA_def emit_def out_pending_def blob_list_def set_ack_def client_write_def returnA_def)
qed

theorem client_keeps_until_answered_witness:
  "\<exists>q cl2 ps. make_payload demo_send [1, 2, 3] [7] = Inr q \<and> cl_sent cl2 = ps \<and> Transport_packet [7] q 1 \<in> set ps \<and>
     client_receive blob_list (Hello 1 0 no_net_error)
       (fold (client_do blob_list) [Do_connect, Net_received (Ack_packet 2)] (snd (client_send_packet demo_send blob_list [1, 2, 3] [7] demo_client))) = (Inr (), cl2)"
proof -
  obtain q where q: "make_payload demo_send [1, 2, 3] [7] = Inr q" using demo_payload by blast
  obtain b where b: "read_der transport_packet_ty transport_packet_from b = Inr (Transport_packet [7] q 0)"
    "client_send_packet demo_send blob_list [1, 2, 3] [7] demo_client = (Inr 1, demo_client\<lparr>cl_out := [(1, b, None)]\<rparr>)"
    using demo_sent [OF q] by blast
  let ?is = "[Do_connect, Net_received (Ack_packet 2)]" and ?cl1 = "demo_client\<lparr>cl_out := [(1, b, None)]\<rparr>"
  have o: "cl_out (fold (client_do blob_list) ?is ?cl1) = [(1, b, None)]" "cl_sent (fold (client_do blob_list) ?is ?cl1) = []"
    by (simp_all add: client_connect_def client_receive_def out_remove_def make_packet_client_def blob_list_def)
  obtain cl2 where cl2: "client_receive blob_list (Hello 1 0 no_net_error) (fold (client_do blob_list) ?is ?cl1) = (Inr (), cl2)"
    using demo_hello [OF q b(1) o(1)] by blast
  have "packet_ok (Transport_packet [7] q 0)" by (rule payload_packet_ok [OF demo_keys_known q]) (simp_all add: ack_ok_def)
  from client_keeps_until_answered [OF bl.blob_table_axioms b(2) q this _ cl2] o(2)
  have "Transport_packet [7] q 1 \<in> set (cl_sent cl2)" by (auto simp: answers_def no_net_error_def)
  then show ?thesis using q b(2) cl2 by auto
qed

theorem sent_packet_opens_witness:
  "\<exists>(q :: transport_payload) d. enveloped_decrypt (sx_aes demo_send) (sx_prims demo_send) (tp_data q) demo_sk = Inr [1, 2, 3] \<and>
     write_der enveloped_content_ty (enveloped_content_val (tp_data q)) = Inr d \<and>
     verify (sx_crypto demo_send) (sk_public demo_sk) (tp_signature q) d [] = Inr True"
proof -
  obtain q where q: "make_payload demo_send [1, 2, 3] [7] = Inr q" using demo_payload by blast
  obtain b where b: "client_send_packet demo_send blob_list [1, 2, 3] [7] demo_client = (Inr 1, demo_client\<lparr>cl_out := [(1, b, None)]\<rparr>)"
    using demo_sent [OF q] by blast
  from sent_packet_opens [OF demo_keys_known b] show ?thesis by blast
qed

theorem client_offers_until_seen_witness:
  "\<exists>cl1 cl2. client_receive blob_list (Transport_packet [7] mail 5) demo_client = (Inr (), cl1) \<and>
     emit_pending_packets blob_list (fold (client_do blob_list) [Do_close] cl1) = (Inr (), cl2) \<and> Event_packet 1 mail \<in> set (drop 2 (cl_events cl2))"
proof -
  obtain b where b: "write_der transport_payload_ty (transport_payload_val mail) = Inr b" "read_der transport_payload_ty transport_payload_of b = Inr mail"
    using mail_ok by (auto simp: payload_ok_def)
  obtain w where w: "write_packet (Ack_packet 5) = Inr w" using write_packet_eq [OF ack_packet_ok [of 5]] by (auto simp: ack_ok_def)
  define cl1 where "cl1 = demo_client\<lparr>cl_in := [(1, b, None)], cl_events := [Event_packet 1 mail], cl_sent := [Ack_packet 5]\<rparr>"
  have c: "client_receive blob_list (Transport_packet [7] mail 5) demo_client = (Inr (), cl1)"
    using b w by (simp add: cl1_def client_receive_def client_on_transport_def bindA_def in_insert_def emit_def client_write_def make_packet_client_def blob_list_def)
  obtain cl2 where cl2: "emit_pending_packets blob_list (fold (client_do blob_list) [Do_close] cl1) = (Inr (), cl2)"
    using b(2) by (simp add: emit_pending_packets_def bindA_def in_pending_def client_shutdown_def emit_def cl1_def blob_list_def returnA_def)
  obtain k where o: "cl_events cl1 = cl_events demo_client @ [Event_packet k mail]"
    "\<forall>is cl2. Do_seen k \<notin> set is \<and> emit_pending_packets blob_list (fold (client_do blob_list) is cl1) = (Inr (), cl2) \<longrightarrow>
       (\<exists>es. cl_events cl2 = cl_events (fold (client_do blob_list) is cl1) @ es \<and> Event_packet k mail \<in> set es)"
    using client_offers_until_seen [OF bl.blob_table_axioms c mail_ok] by blast
  have k: "\<exists>es. cl_events cl2 = cl_events (fold (client_do blob_list) [Do_close] cl1) @ es \<and> Event_packet k mail \<in> set es"
    by (rule o(2) [rule_format]) (use cl2 in simp)
  from o(1) have "k = 1" by (simp add: cl1_def make_packet_client_def)
  then show ?thesis using c cl2 k by (auto simp: client_shutdown_def emit_def cl1_def)
qed

section \<open>A late acknowledgement\<close>

text \<open>C26: A late acknowledgement makes the client forget another packet. The server answers each transmission of a packet, and a
  packet is transmitted again after a reconnection. When the first answer has emptied the table, the next packet gets the
  number of the first one again, since SQLite starts from 1 in an empty table, and the second answer removes that packet,
  which the server has not answered.\<close>

theorem stale_ack_loses_packet:
  assumes "sqlite_blob_table T rows" "\<forall>k. rows (cl_out cl) k = None"
    "client_send_packet x T c1 rec1 cl = (Inr k1, cl1)"
    "cl2 = fold (client_do T) [Net_disconnected e, Net_connected, Net_received (Hello v a no_net_error), Net_received (Ack_packet k1)] cl1"
    "client_send_packet y T c2 rec2 cl2 = (Inr k2, cl3)"
  shows "k2 = k1 \<and> rows (cl_out cl3) k2 \<noteq> None \<and> rows (cl_out (client_do T (Net_received (Ack_packet k1)) cl3)) k2 = None"
proof -
  have T: "blob_table T rows" using assms(1) by (simp add: sqlite_blob_table_def)
  have first: "k = 1 \<and> cl_out cl' = d \<and> (\<exists>b. rows d = (rows (cl_out cl))(1 \<mapsto> b))" if s: "\<forall>k. rows (cl_out cl) k = None" "client_send_packet x T c r cl = (Inr k, cl')"
    "d = cl_out cl'" for x c r cl k cl' d
  proof -
    obtain b where "bt_insert T b (cl_out cl) = Some (cl_out cl', k)"
      using s(2) by (auto simp: client_send_packet_def bindA_eq_Inr out_insert_def client_write_def returnA_def throwA_def
          split: option.splits if_splits sum.splits)
    then show ?thesis using sqlite_blob_table.first_key [OF assms(1) s(1), of b] blob_table.insert_key [OF T] s(3) by fastforce
  qed
  obtain b1 where k1: "k1 = 1" "rows (cl_out cl1) = (rows (cl_out cl))(1 \<mapsto> b1)" using first [OF assms(2,3)] by blast
  have "cl_out cl2 = bt_delete T k1 (cl_out cl1)"
    by (simp add: assms(4) client_receive_def hello_tables out_remove_def client_on_connected_def)
  then have "\<forall>k. rows (cl_out cl2) k = None" using k1 assms(2) by (simp add: blob_table.delete_key [OF T])
  from first [OF this assms(5)] obtain b2 where "k2 = 1" "rows (cl_out cl3) = (rows (cl_out cl2))(1 \<mapsto> b2)" by blast
  then show ?thesis using k1(1) by (simp add: client_receive_def out_remove_def blob_table.delete_key [OF T])
qed

lemma demo_send_first:
  assumes "cl_out cl = []"
  shows "\<exists>cl'. client_send_packet demo_send blob_list [1, 2, 3] [7] cl = (Inr 1, cl')"
proof -
  obtain q where q: "make_payload demo_send [1, 2, 3] [7] = Inr q" using demo_payload by blast
  obtain b where b: "write_der transport_packet_ty (packet_val (Transport_packet [7] q 0)) = Inr b" using demo_sent [OF q] by blast
  have "packet_ok (Transport_packet [7] q 1)" by (rule payload_packet_ok [OF demo_keys_known q]) (simp_all add: ack_ok_def)
  from write_packet_eq [OF this] show ?thesis
    using q b assms by (simp add: client_send_packet_def bindA_def out_insert_def blob_list_def client_write_def returnA_def)
qed

theorem stale_ack_loses_packet_witness:
  "\<exists>cl3. client_send_packet demo_send blob_list [1, 2, 3] [7] (fold (client_do blob_list) [Net_disconnected Unknown_error_reported, Net_connected,
       Net_received (Hello 1 0 no_net_error), Net_received (Ack_packet 1)] (snd (client_send_packet demo_send blob_list [1, 2, 3] [7] demo_client))) = (Inr 1, cl3) \<and>
     map_of (cl_out (client_do blob_list (Net_received (Ack_packet 1)) cl3)) 1 = None"
proof -
  obtain q where q: "make_payload demo_send [1, 2, 3] [7] = Inr q" using demo_payload by blast
  obtain b where b: "write_der transport_packet_ty (packet_val (Transport_packet [7] q 0)) = Inr b" 
    "client_send_packet demo_send blob_list [1, 2, 3] [7] demo_client = (Inr 1, demo_client\<lparr>cl_out := [(1, b, None)]\<rparr>)"
    using demo_sent [OF q] by blast
  let ?cl2 = "fold (client_do blob_list) [Net_disconnected Unknown_error_reported, Net_connected, Net_received (Hello 1 0 no_net_error), Net_received (Ack_packet 1)]
    (demo_client\<lparr>cl_out := [(1, b, None)]\<rparr>)"
  have "cl_out ?cl2 = []" by (simp add: client_receive_def hello_tables out_remove_def client_on_connected_def) (simp add: blob_list_def)
  then obtain cl3 where "client_send_packet demo_send blob_list [1, 2, 3] [7] ?cl2 = (Inr 1, cl3)"
    using demo_send_first by blast
  then show ?thesis
    using stale_ack_loses_packet [OF bl.sqlite_blob_table_axioms _ b(2) refl] b(2) by (auto simp: make_packet_client_def)
qed


end
