(* ===== verification/Key_Stores.thy ===== *)
theory Key_Stores
  imports Crypto_Wire Private_Keys "HOL-Library.AList"
begin

text \<open>
  The stores of public keys, shared secrets, private data and certificates, \<^verbatim>\<open>crypto/\<close>: the databases, over the statements they
  execute, and the caches, which read through to and write through all their backends. An abstract class such as
  \<^verbatim>\<open>public_key_access\<close> is a record of operations, and what its users rely on is the locale \<open>keyed_store\<close>: the store
  is a map. The databases satisfy it, and a cache satisfies it whenever its backends do.
\<close>

section \<open>Hexadecimal text\<close>

definition hex_digit :: "octet \<Rightarrow> octet" where
  "hex_digit e = octets_of ''0123456789ABCDEF'' ! unat e"

primrec to_hex :: "octets \<Rightarrow> octets" where
  "to_hex [] = []"
| "to_hex (e # es) = hex_digit (drop_bit 4 e) # hex_digit (and e 15) # to_hex es"

datatype hex_error = Invalid_hex_string | Invalid_hex_length

definition get_value :: "octet \<Rightarrow> hex_error + octet" where
  "get_value c =
     (if 48 \<le> c \<and> c \<le> 57 then Inr (c - 48)
      else if 65 \<le> c \<and> c \<le> 70 then Inr (c - 65 + 10)
      else if 97 \<le> c \<and> c \<le> 102 then Inr (c - 97 + 10)
      else Inl Invalid_hex_string)"

fun hex_octets :: "octets \<Rightarrow> hex_error + octets" where
  "hex_octets (a # b # s) = bindE (get_value a) (\<lambda>v1. bindE (get_value b) (\<lambda>v2.
     bindE (hex_octets s) (\<lambda>r. Inr (or (push_bit 4 v1) v2 # r))))"
| "hex_octets _ = Inr []"

definition from_hex :: "octets \<Rightarrow> hex_error + octets" where
  "from_hex s = (if length s mod 2 \<noteq> 0 then Inl Invalid_hex_length else hex_octets s)"

lemma hex_digit_value: "unat e < 16 \<Longrightarrow> get_value (hex_digit e) = Inr e"
proof -
  assume e: "unat e < 16"
  have "list_all (\<lambda>n. get_value (hex_digit (word_of_nat n)) = Inr (word_of_nat n)) [0..<16]" by code_simp
  then show ?thesis using e by (auto simp: list_all_iff dest!: bspec [of _ _ "unat e"])
qed

lemma nibbles: "unat (drop_bit 4 e) < 16" "unat (and e 15) < 16" "or (push_bit 4 (drop_bit 4 e)) (and e 15) = (e :: octet)"
proof -
  have "unat (drop_bit 4 e) = unat e div 16" by (simp only: unat_drop_bit_eq) (simp add: drop_bit_eq_div)
  then show "unat (drop_bit 4 e) < 16" using unsigned_less [of e, where ?'a = nat] by (simp add: less_mult_imp_div_less)
  have m: "and e 15 = take_bit 4 e" by (simp add: take_bit_eq_mask mask_eq_exp_minus_1)
  show "unat (and e 15) < 16" unfolding m unsigned_take_bit_eq using take_bit_nat_less_exp [of 4 "unat e"] by simp
  show "or (push_bit 4 (drop_bit 4 e)) (and e 15) = e" unfolding m by (rule bit_eqI) (auto simp: bit_simps)
qed

lemma hex_octets_to_hex: "hex_octets (to_hex v) = Inr v"
  by (induction v) (simp_all add: hex_digit_value nibbles)

lemma hex_roundtrip: "from_hex (to_hex v) = Inr v"
proof -
  have "even (length (to_hex v))" by (induction v) simp_all
  then show ?thesis by (simp add: from_hex_def hex_octets_to_hex even_iff_mod_2_eq_zero)
qed

lemma to_hex_inject [simp]: "to_hex v = to_hex w \<longleftrightarrow> v = w"
  by (metis hex_octets_to_hex sum.inject(2))

section \<open>Stores\<close>

datatype store_error = Store_crypto crypto_error | Store_database

text \<open>The abstract classes \<^verbatim>\<open>public_key_access\<close>, \<^verbatim>\<open>shared_secret_access\<close> and \<^verbatim>\<open>certificate_access\<close>: what is inserted, the keys,
  what is found, and the state behind.\<close>

record ('k, 'i, 'v, 's) store_ops =
  so_insert :: "'i \<Rightarrow> ('s, store_error, unit) action"
  so_remove :: "'k \<Rightarrow> ('s, store_error, unit) action"
  so_find :: "'k \<Rightarrow> ('s, store_error, 'v option) action"

section \<open>Caches\<close>

text \<open>A loop over the backends, in the order of the set, that ends with the first exception, and one that ends
  when something is found.\<close>

primrec each_backend :: "('s, 'e, unit) action \<Rightarrow> ('s list, 'e, unit) action" where
  "each_backend f [] = (Inr (), [])"
| "each_backend f (b # bs) = (case f b of
       (Inl e, b') \<Rightarrow> (Inl e, b' # bs)
     | (Inr _, b') \<Rightarrow> (case each_backend f bs of (r, bs') \<Rightarrow> (r, b' # bs')))"

primrec first_found :: "('s, 'e, 'v option) action \<Rightarrow> ('s list, 'e, 'v option) action" where
  "first_found f [] = (Inr None, [])"
| "first_found f (b # bs) = (case f b of
       (Inl e, b') \<Rightarrow> (Inl e, b' # bs)
     | (Inr (Some v), b') \<Rightarrow> (Inr (Some v), b' # bs)
     | (Inr None, b') \<Rightarrow> (case first_found f bs of (r, bs') \<Rightarrow> (r, b' # bs')))"

record ('k, 'v, 's) cache =
  ca_map :: "'k \<Rightarrow> 'v option"
  ca_backends :: "'s list"

definition on_backends :: "('s list, 'e, 'a) action \<Rightarrow> (('k, 'v, 's) cache, 'e, 'a) action" where
  "on_backends f c = (case f (ca_backends c) of (r, bs) \<Rightarrow> (r, c\<lparr>ca_backends := bs\<rparr>))"

text \<open>The common body of the caches: the entry is set first and then written through; \<open>name\<close> says under which key a value
  that was found is kept.\<close>

definition cache_insert :: "('i \<Rightarrow> 'k) \<Rightarrow> ('i \<Rightarrow> 'v) \<Rightarrow> ('k, 'i, 'v, 's) store_ops \<Rightarrow> 'i \<Rightarrow> (('k, 'v, 's) cache, store_error, unit) action" where
  "cache_insert key_of value_of B i c =
     on_backends (each_backend (so_insert B i)) (c\<lparr>ca_map := (ca_map c)(key_of i \<mapsto> value_of i)\<rparr>)"

definition cache_remove :: "('k, 'i, 'v, 's) store_ops \<Rightarrow> 'k \<Rightarrow> (('k, 'v, 's) cache, store_error, unit) action" where
  "cache_remove B k c = on_backends (each_backend (so_remove B k)) (c\<lparr>ca_map := (ca_map c)(k := None)\<rparr>)"

definition cache_find :: "('k \<Rightarrow> 'v \<Rightarrow> 'k) \<Rightarrow> ('k, 'i, 'v, 's) store_ops \<Rightarrow> 'k \<Rightarrow> (('k, 'v, 's) cache, store_error, 'v option) action" where
  "cache_find name B k c = (case ca_map c k of
       Some v \<Rightarrow> (Inr (Some v), c)
     | None \<Rightarrow> bindA (on_backends (first_found (so_find B k))) (\<lambda>r c.
         case r of None \<Rightarrow> (Inr None, c) | Some v \<Rightarrow> (Inr (Some v), c\<lparr>ca_map := (ca_map c)(name k v \<mapsto> v)\<rparr>)) c)"

definition add_backend :: "'s \<Rightarrow> ('k, 'v, 's) cache \<Rightarrow> ('k, 'v, 's) cache" where
  "add_backend b c = c\<lparr>ca_backends := b # ca_backends c\<rparr>"

text \<open>\<^verbatim>\<open>public_key_cache\<close>.\<close>

definition public_key_cache :: "(octets, public_key, public_key, 's) store_ops \<Rightarrow> (octets, public_key, public_key, (octets, public_key, 's) cache) store_ops" where
  "public_key_cache B = \<lparr>so_insert = cache_insert key_id (\<lambda>k. k) B, so_remove = cache_remove B, so_find = cache_find (\<lambda>_. key_id) B\<rparr>"

text \<open>\<^verbatim>\<open>shared_secret_cache\<close>, which refuses an empty key.\<close>

definition secret_cache_insert :: "(octets, octets \<times> octets, octets, 's) store_ops \<Rightarrow> octets \<times> octets \<Rightarrow> ((octets, octets, 's) cache, store_error, unit) action" where
  "secret_cache_insert B i = (if fst i = [] then throwA (Store_crypto Invalid_key_size) else cache_insert fst snd B i)"

definition secret_cache_remove :: "(octets, octets \<times> octets, octets, 's) store_ops \<Rightarrow> octets \<Rightarrow> ((octets, octets, 's) cache, store_error, unit) action" where
  [simp]: "secret_cache_remove B = cache_remove B"

definition secret_cache_find :: "(octets, octets \<times> octets, octets, 's) store_ops \<Rightarrow> octets \<Rightarrow> ((octets, octets, 's) cache, store_error, octets option) action" where
  [simp]: "secret_cache_find B = cache_find (\<lambda>k _. k) B"

definition shared_secret_cache :: "(octets, octets \<times> octets, octets, 's) store_ops \<Rightarrow> (octets, octets \<times> octets, octets, (octets, octets, 's) cache) store_ops" where
  "shared_secret_cache B = \<lparr>so_insert = secret_cache_insert B, so_remove = secret_cache_remove B, so_find = secret_cache_find B\<rparr>"

section \<open>Databases\<close>

text \<open>A table with a text as primary key and a blob: insert or replace, select the data, delete.\<close>

record 'd text_db =
  tx_replace :: "octets \<Rightarrow> octets \<Rightarrow> 'd \<Rightarrow> 'd option"
  tx_data :: "octets \<Rightarrow> 'd \<Rightarrow> octets option"
  tx_delete :: "octets \<Rightarrow> 'd \<Rightarrow> 'd"

definition db_replace :: "'d text_db \<Rightarrow> octets \<Rightarrow> octets \<Rightarrow> ('d, store_error, unit) action" where
  "db_replace T k b d = (case tx_replace T k b d of None \<Rightarrow> (Inl Store_database, d) | Some d' \<Rightarrow> (Inr (), d'))"

definition lift_crypto :: "crypto_error + 'a \<Rightarrow> ('s, store_error, 'a) action" where
  "lift_crypto r = (case r of Inl e \<Rightarrow> throwA (Store_crypto e) | Inr x \<Rightarrow> returnA x)"

definition key_db_insert :: "'d text_db \<Rightarrow> public_key \<Rightarrow> ('d, store_error, unit) action" where
  "key_db_insert T k = bindA (lift_crypto (write_der public_key_ty (public_key_val k))) (\<lambda>b. db_replace T (to_hex (key_id k)) b)"

definition key_db_find :: "crypto \<Rightarrow> 'd text_db \<Rightarrow> octets \<Rightarrow> ('d, store_error, public_key option) action" where
  "key_db_find c T i d = (case tx_data T (to_hex i) d of
       None \<Rightarrow> (Inr None, d)
     | Some b \<Rightarrow> bindA (lift_crypto (read_der public_key_ty (public_key_of c) b)) (\<lambda>k. returnA (Some k)) d)"

definition db_remove :: "'d text_db \<Rightarrow> octets \<Rightarrow> ('d, store_error, unit) action" where
  "db_remove T i d = (Inr (), tx_delete T (to_hex i) d)"

definition public_key_database :: "crypto \<Rightarrow> 'd text_db \<Rightarrow> (octets, public_key, public_key, 'd) store_ops" where
  "public_key_database c T = \<lparr>so_insert = key_db_insert T, so_remove = db_remove T, so_find = key_db_find c T\<rparr>"

definition secret_db_insert :: "'d text_db \<Rightarrow> octets \<times> octets \<Rightarrow> ('d, store_error, unit) action" where
  "secret_db_insert T i = (if fst i = [] then throwA (Store_crypto Invalid_key_size) else db_replace T (to_hex (fst i)) (snd i))"

definition secret_db_find :: "'d text_db \<Rightarrow> octets \<Rightarrow> ('d, store_error, octets option) action" where
  "secret_db_find T k d = (Inr (tx_data T (to_hex k) d), d)"

definition secret_db_remove :: "'d text_db \<Rightarrow> octets \<Rightarrow> ('d, store_error, unit) action" where
  [simp]: "secret_db_remove T k = db_remove T k"

definition shared_secret_database :: "'d text_db \<Rightarrow> (octets, octets \<times> octets, octets, 'd) store_ops" where
  "shared_secret_database T = \<lparr>so_insert = secret_db_insert T, so_remove = secret_db_remove T, so_find = secret_db_find T\<rparr>"

section \<open>What a store promises\<close>

text \<open>A store in a good state is a map, its view: what is found is what the map has, an insertion of something the store can keep
  either updates the map or throws, and then touches no other key, and a removal removes.\<close>

locale keyed_store =
  fixes S :: "('k, 'i, 'v, 's) store_ops" and view :: "'s \<Rightarrow> 'k \<Rightarrow> 'v option" and good :: "'s \<Rightarrow> bool"
    and storable :: "'i \<Rightarrow> bool" and key_of :: "'i \<Rightarrow> 'k" and value_of :: "'i \<Rightarrow> 'v" and name :: "'k \<Rightarrow> 'v \<Rightarrow> 'k"
  assumes find_view: "good s \<Longrightarrow> \<exists>s'. so_find S k s = (Inr (view s k), s') \<and> good s' \<and> view s' = view s"
    and insert_view: "good s \<Longrightarrow> storable i \<Longrightarrow> so_insert S i s = (r, s') \<Longrightarrow>
      good s' \<and> (\<forall>k. k \<noteq> key_of i \<longrightarrow> view s' k = view s k) \<and> view s' (key_of i) \<in> {view s (key_of i), Some (value_of i)} \<and>
      (r = Inr () \<longrightarrow> view s' (key_of i) = Some (value_of i))"
    and remove_view: "good s \<Longrightarrow> \<exists>s'. so_remove S k s = (Inr (), s') \<and> good s' \<and> view s' = (view s)(k := None)"
    and view_name: "good s \<Longrightarrow> view s k = Some v \<Longrightarrow> name k v = k"
    and item_name: "storable i \<Longrightarrow> name (key_of i) (value_of i) = key_of i"

text \<open>The view of a cache: its own map, then the backends in order.\<close>

primrec backends_view :: "('s \<Rightarrow> 'k \<Rightarrow> 'v option) \<Rightarrow> 's list \<Rightarrow> 'k \<Rightarrow> 'v option" where
  "backends_view view [] k = None"
| "backends_view view (b # bs) k = (case view b k of Some v \<Rightarrow> Some v | None \<Rightarrow> backends_view view bs k)"

definition cache_view :: "('s \<Rightarrow> 'k \<Rightarrow> 'v option) \<Rightarrow> ('k, 'v, 's) cache \<Rightarrow> 'k \<Rightarrow> 'v option" where
  "cache_view view c k = (case ca_map c k of Some v \<Rightarrow> Some v | None \<Rightarrow> backends_view view (ca_backends c) k)"

definition cache_good :: "('s \<Rightarrow> bool) \<Rightarrow> ('k \<Rightarrow> 'v \<Rightarrow> 'k) \<Rightarrow> ('k, 'v, 's) cache \<Rightarrow> bool" where
  "cache_good good name c \<longleftrightarrow> list_all good (ca_backends c) \<and> (\<forall>k v. ca_map c k = Some v \<longrightarrow> name k v = k)"

context keyed_store
begin

lemma first_found_view:
  "list_all good bs \<Longrightarrow> \<exists>bs'. first_found (so_find S k) bs = (Inr (backends_view view bs k), bs') \<and> list_all good bs' \<and> backends_view view bs' = backends_view view bs"
proof (induction bs)
  case (Cons b bs)
  obtain b' where b': "so_find S k b = (Inr (view b k), b')" "good b'" "view b' = view b" using find_view [of b k] Cons.prems by auto
  obtain bs' where bs': "first_found (so_find S k) bs = (Inr (backends_view view bs k), bs')" "list_all good bs'" "backends_view view bs' = backends_view view bs"
    using Cons by auto
  then show ?case using b' Cons.prems by (cases "view b k") (auto simp: fun_eq_iff split: option.splits)
qed simp

lemma each_insert_view:
  assumes "list_all good bs" "storable i" "each_backend (so_insert S i) bs = (r, bs')"
  shows "list_all good bs' \<and> (\<forall>k. k \<noteq> key_of i \<longrightarrow> backends_view view bs' k = backends_view view bs k)"
  using assms(1,3)
proof (induction bs arbitrary: r bs')
  case (Cons b bs)
  obtain rb b' where b: "so_insert S i b = (rb, b')" by fastforce
  have v: "good b'" "\<forall>k. k \<noteq> key_of i \<longrightarrow> view b' k = view b k" using insert_view [OF _ assms(2) b] Cons.prems(1) by auto
  show ?case
  proof (cases rb)
    case (Inr u)
    obtain rs bs'' where rs: "each_backend (so_insert S i) bs = (rs, bs'')" by fastforce
    then have "bs' = b' # bs''" using Cons.prems(2) b Inr by simp
    then show ?thesis using Cons.IH [OF _ rs] v Cons.prems(1) by (auto split: option.splits)
  qed (use Cons.prems b v in \<open>auto split: option.splits\<close>)
qed simp

lemma each_remove_view:
  assumes "list_all good bs"
  shows "\<exists>bs'. each_backend (so_remove S k) bs = (Inr (), bs') \<and> list_all good bs' \<and> backends_view view bs' = (backends_view view bs)(k := None)"
  using assms
proof (induction bs)
  case (Cons b bs)
  obtain b' where b': "so_remove S k b = (Inr (), b')" "good b'" "view b' = (view b)(k := None)" using remove_view [of b k] Cons.prems by auto
  obtain bs' where "each_backend (so_remove S k) bs = (Inr (), bs')" "list_all good bs'" "backends_view view bs' = (backends_view view bs)(k := None)"
    using Cons.IH Cons.prems unfolding list.pred_inject by blast
  then show ?case using b' by (auto simp: fun_eq_iff split: option.splits)
qed (simp add: fun_eq_iff)

lemma backends_view_name: "list_all good bs \<Longrightarrow> backends_view view bs k = Some v \<Longrightarrow> name k v = k"
  by (induction bs) (auto split: option.splits dest: view_name)

text \<open>A cache over such stores is such a store again.\<close>

lemma cache_store:
  assumes "\<And>i c. storable i \<Longrightarrow> so_insert C i c = cache_insert key_of value_of S i c \<or> (\<exists>e. so_insert C i c = (Inl e, c))"
    "so_remove C = cache_remove S" "so_find C = cache_find name S"
  shows "keyed_store C (cache_view view) (cache_good good name) storable key_of value_of name"
proof
  fix c k
  show "\<exists>s'. so_find C k c = (Inr (cache_view view c k), s') \<and> cache_good good name s' \<and> cache_view view s' = cache_view view c" if g: "cache_good good name c"
  proof (cases "ca_map c k")
    case None
    obtain bs where bs: "first_found (so_find S k) (ca_backends c) = (Inr (backends_view view (ca_backends c) k), bs)" "list_all good bs"
      "backends_view view bs = backends_view view (ca_backends c)" using first_found_view [of "ca_backends c" k] g by (auto simp: cache_good_def)
    show ?thesis
    proof (cases "backends_view view (ca_backends c) k")
      case (Some v)
      have "name k v = k" using backends_view_name [OF _ Some] g by (simp add: cache_good_def)
      then show ?thesis using None Some bs g
        by (auto simp: assms(3) cache_find_def bindA_def on_backends_def cache_view_def cache_good_def fun_eq_iff split: option.splits)
    qed (use None bs g in \<open>auto simp: assms(3) cache_find_def bindA_def on_backends_def cache_view_def cache_good_def fun_eq_iff split: option.splits\<close>)
  qed (use g in \<open>auto simp: assms(3) cache_find_def cache_view_def\<close>)
  show "\<exists>s'. so_remove C k c = (Inr (), s') \<and> cache_good good name s' \<and> cache_view view s' = (cache_view view c)(k := None)" if g: "cache_good good name c"
    using each_remove_view [of "ca_backends c" k] g
    by (auto simp: assms(2) cache_remove_def on_backends_def cache_view_def cache_good_def fun_eq_iff split: option.splits)
  show "name k v = k" if "cache_good good name c" "cache_view view c k = Some v" for v
    using that backends_view_name by (auto simp: cache_view_def cache_good_def split: option.splits)
next
  fix c i r c'
  assume a: "cache_good good name c" "storable i" "so_insert C i c = (r, c')"
  consider e where "r = Inl e" "c' = c" |
      bs where "each_backend (so_insert S i) (ca_backends c) = (r, bs)" "c' = c\<lparr>ca_map := (ca_map c)(key_of i \<mapsto> value_of i), ca_backends := bs\<rparr>"
    using a(3) assms(1) [OF a(2), of c] by (auto simp: cache_insert_def on_backends_def split: prod.splits)
  then show "cache_good good name c' \<and> (\<forall>k. k \<noteq> key_of i \<longrightarrow> cache_view view c' k = cache_view view c k) \<and>
      cache_view view c' (key_of i) \<in> {cache_view view c (key_of i), Some (value_of i)} \<and> (r = Inr () \<longrightarrow> cache_view view c' (key_of i) = Some (value_of i))"
  proof cases
    case (2 bs)
    then show ?thesis using each_insert_view [OF _ a(2) 2(1)] a(1) item_name [OF a(2)] by (auto simp: cache_view_def cache_good_def split: option.splits)
  qed (use a(1) in simp)
qed (rule item_name)

end

section \<open>Runs of a store\<close>

datatype ('k, 'i) store_op = Op_insert 'i | Op_remove 'k | Op_find 'k

text \<open>The results of a sequence of operations, and what a map would answer: a find returns what the map has, an insertion that
  threw may or may not have reached it.\<close>

primrec store_do :: "('k, 'i, 'v, 's) store_ops \<Rightarrow> ('k, 'i) store_op \<Rightarrow> ('s, store_error, 'v option) action" where
  "store_do S (Op_insert i) = bindA (so_insert S i) (\<lambda>_. returnA None)"
| "store_do S (Op_remove k) = bindA (so_remove S k) (\<lambda>_. returnA None)"
| "store_do S (Op_find k) = so_find S k"

primrec store_run :: "('k, 'i, 'v, 's) store_ops \<Rightarrow> ('k, 'i) store_op list \<Rightarrow> 's \<Rightarrow> (store_error + 'v option) list" where
  "store_run S [] s = []"
| "store_run S (p # ps) s = fst (store_do S p s) # store_run S ps (snd (store_do S p s))"

fun explained :: "('i \<Rightarrow> 'k) \<Rightarrow> ('i \<Rightarrow> 'v) \<Rightarrow> ('k \<Rightarrow> 'v option) \<Rightarrow> ('k, 'i) store_op list \<Rightarrow> (store_error + 'v option) list \<Rightarrow> bool" where
  "explained key_of value_of m (Op_insert i # ps) (r # rs) =
     (explained key_of value_of (m(key_of i \<mapsto> value_of i)) ps rs \<or> r \<noteq> Inr None \<and> explained key_of value_of m ps rs)"
| "explained key_of value_of m (Op_remove k # ps) (r # rs) = (r = Inr None \<and> explained key_of value_of (m(k := None)) ps rs)"
| "explained key_of value_of m (Op_find k # ps) (r # rs) = (r = Inr (m k) \<and> explained key_of value_of m ps rs)"
| "explained key_of value_of m ps rs = (ps = [] \<and> rs = [])"

context keyed_store
begin

lemma insert_cases:
  assumes "good s" "storable i" "so_insert S i s = (r, s')"
  shows "good s'" "view s' = (view s)(key_of i \<mapsto> value_of i) \<or> r \<noteq> Inr () \<and> view s' = view s"
  using insert_view [OF assms] by (auto simp: fun_eq_iff) metis

lemma step_good: "good s \<Longrightarrow> (\<forall>i. p = Op_insert i \<longrightarrow> storable i) \<Longrightarrow> good (snd (store_do S p s))"
proof (cases p)
  case (Op_insert i)
  assume "good s" "\<forall>i. p = Op_insert i \<longrightarrow> storable i"
  moreover obtain r s' where "so_insert S i s = (r, s')" by fastforce
  ultimately show ?thesis using insert_cases(1) [of s i r s'] Op_insert by (cases r) (simp_all add: bindA_snd returnA_def)
next
  case (Op_remove k)
  then show "good s \<Longrightarrow> ?thesis" using remove_view [of s k] by (auto simp: bindA_snd returnA_def)
next
  case (Op_find k)
  then show "good s \<Longrightarrow> ?thesis" using find_view [of s k] by auto
qed

lemma run_explained:
  "good s \<Longrightarrow> list_all (\<lambda>p. \<forall>i. p = Op_insert i \<longrightarrow> storable i) ps \<Longrightarrow> explained key_of value_of (view s) ps (store_run S ps s)"
proof (induction ps arbitrary: s)
  case (Cons p ps)
  show ?case
  proof (cases p)
    case (Op_insert i)
    obtain r s' where i: "so_insert S i s = (r, s')" by fastforce
    have "explained key_of value_of (view s') ps (store_run S ps s')"
      using Cons.prems Op_insert by (intro Cons.IH insert_cases(1) [OF _ _ i]) auto
    then show ?thesis using insert_cases(2) [OF _ _ i] i Cons.prems Op_insert
      by (cases r) (auto simp: bindA_def returnA_def)
  next
    case (Op_remove k)
    then show ?thesis using remove_view [OF Cons.prems(1), of k] Cons by (auto simp: bindA_def returnA_def) metis
  next
    case (Op_find k)
    then show ?thesis using find_view [OF Cons.prems(1), of k] Cons by auto metis
  qed
qed simp

end

section \<open>The databases are stores\<close>

locale text_table =
  fixes T :: "'d text_db" and rows :: "'d \<Rightarrow> octets \<Rightarrow> octets option"
  assumes replace_row: "tx_replace T k b d = Some d' \<Longrightarrow> rows d' = (rows d)(k \<mapsto> b)"
    and data_row: "tx_data T k d = rows d k"
    and delete_row: "rows (tx_delete T k d) = (rows d)(k := None)"

text \<open>A key object the database can read back: one that the decoder's limits admit.\<close>

definition key_storable :: "crypto \<Rightarrow> public_key \<Rightarrow> bool" where
  "key_storable c k \<longleftrightarrow> key_wf c k \<and> val_ok public_key_ty (public_key_val k)"

definition key_db_view :: "crypto \<Rightarrow> ('d \<Rightarrow> octets \<Rightarrow> octets option) \<Rightarrow> 'd \<Rightarrow> octets \<Rightarrow> public_key option" where
  "key_db_view c rows d i = (case rows d (to_hex i) of
       None \<Rightarrow> None
     | Some b \<Rightarrow> (case read_der public_key_ty (public_key_of c) b of Inl _ \<Rightarrow> None | Inr k \<Rightarrow> Some k))"

definition key_db_good :: "crypto \<Rightarrow> ('d \<Rightarrow> octets \<Rightarrow> octets option) \<Rightarrow> 'd \<Rightarrow> bool" where
  "key_db_good c rows d \<longleftrightarrow> (\<forall>i b. rows d (to_hex i) = Some b \<longrightarrow> (\<exists>k. read_der public_key_ty (public_key_of c) b = Inr k \<and> key_id k = i))"

lemma key_stored:
  assumes "key_storable c k"
  shows "\<exists>b. write_der public_key_ty (public_key_val k) = Inr b \<and> read_der public_key_ty (public_key_of c) b = Inr k"
proof -
  have t: "headed public_key_ty" "ty_ok public_key_ty" "depth public_key_ty \<le> max_structure_depth"
    by (simp_all add: public_key_ty_def signature_ty_def max_structure_depth_def)
  have v: "val_ok public_key_ty (public_key_val k)" "key_wf c k" using assms by (simp_all add: key_storable_def)
  show ?thesis using asn_der_ok(1) [OF t(1,2) v(1) t(3)] asn_der_ok(2) [OF t(1,2) v(1) t(3), of "[]"] public_key_of_val [OF v(2)]
    by (simp add: write_der_def read_der_def)
qed

context text_table
begin

lemma key_database_store:
  "keyed_store (public_key_database c T) (key_db_view c rows) (key_db_good c rows) (key_storable c) key_id (\<lambda>k. k) (\<lambda>_. key_id)"
proof
  fix d i
  show "\<exists>s'. so_find (public_key_database c T) i d = (Inr (key_db_view c rows d i), s') \<and> key_db_good c rows s' \<and> key_db_view c rows s' = key_db_view c rows d"
    if g: "key_db_good c rows d"
  proof (cases "rows d (to_hex i)")
    case (Some b)
    then obtain k where "read_der public_key_ty (public_key_of c) b = Inr k" using g by (auto simp: key_db_good_def)
    then show ?thesis using Some g
      by (simp add: public_key_database_def key_db_find_def data_row key_db_view_def [of c rows d i] bindA_def lift_crypto_def returnA_def)
  qed (use g in \<open>simp add: public_key_database_def key_db_find_def data_row key_db_view_def [of c rows d i]\<close>)
  show "\<exists>s'. so_remove (public_key_database c T) i d = (Inr (), s') \<and> key_db_good c rows s' \<and> key_db_view c rows s' = (key_db_view c rows d)(i := None)"
    if "key_db_good c rows d"
    using that by (auto simp: public_key_database_def db_remove_def key_db_good_def key_db_view_def delete_row fun_eq_iff)
  show "key_id k = i" if "key_db_good c rows d" "key_db_view c rows d i = Some k" for k
    using that by (fastforce simp: key_db_good_def key_db_view_def split: option.splits sum.splits)
next
  fix d k r d'
  assume a: "key_db_good c rows d" "key_storable c k" "so_insert (public_key_database c T) k d = (r, d')"
  obtain b where b: "write_der public_key_ty (public_key_val k) = Inr b" "read_der public_key_ty (public_key_of c) b = Inr k"
    using key_stored [OF a(2)] by blast
  have i: "db_replace T (to_hex (key_id k)) b d = (r, d')"
    using a(3) b(1) by (simp add: public_key_database_def key_db_insert_def bindA_def lift_crypto_def returnA_def)
  then consider "d' = d" "r \<noteq> Inr ()" | "rows d' = (rows d)(to_hex (key_id k) \<mapsto> b)"
    using replace_row by (auto simp: db_replace_def split: option.splits)
  then show "key_db_good c rows d' \<and> (\<forall>i. i \<noteq> key_id k \<longrightarrow> key_db_view c rows d' i = key_db_view c rows d i) \<and>
      key_db_view c rows d' (key_id k) \<in> {key_db_view c rows d (key_id k), Some k} \<and> (r = Inr () \<longrightarrow> key_db_view c rows d' (key_id k) = Some k)"
    using a(1) b(2) by cases (auto simp: key_db_good_def key_db_view_def)
qed simp

lemma secret_database_store:
  "keyed_store (shared_secret_database T) (\<lambda>d k. rows d (to_hex k)) (\<lambda>_. True) (\<lambda>i. fst i \<noteq> []) fst snd (\<lambda>k _. k)"
  by standard (auto simp: shared_secret_database_def secret_db_find_def secret_db_insert_def data_row db_remove_def delete_row fun_eq_iff
      db_replace_def split: option.splits if_splits dest!: replace_row)

text \<open>And so are the caches over them.\<close>

lemma key_cache_store:
  "keyed_store (public_key_cache (public_key_database c T)) (cache_view (key_db_view c rows)) (cache_good (key_db_good c rows) (\<lambda>_. key_id))
     (key_storable c) key_id (\<lambda>k. k) (\<lambda>_. key_id)"
  by (rule keyed_store.cache_store [OF key_database_store]) (simp_all add: public_key_cache_def)

lemma secret_cache_store:
  "keyed_store (shared_secret_cache (shared_secret_database T)) (cache_view (\<lambda>d k. rows d (to_hex k))) (cache_good (\<lambda>_. True) (\<lambda>k _. k))
     (\<lambda>i. fst i \<noteq> []) fst snd (\<lambda>k _. k)"
  by (rule keyed_store.cache_store [OF secret_database_store]) (simp_all add: shared_secret_cache_def secret_cache_insert_def)

end

section \<open>The root key\<close>

text \<open>The root key of the process, \<^verbatim>\<open>root_public_key.cpp\<close>, and the default \<^verbatim>\<open>find_root_key\<close> of \<^verbatim>\<open>public_key_access\<close>.\<close>

type_synonym root_key_store = "public_key option"

definition set_root_public_key :: "public_key \<Rightarrow> (root_key_store, store_error, unit) action" where
  "set_root_public_key k s = (if \<not> pk_is_valid k then (Inl (Store_crypto (Crypto_errc Invalid_public_key)), s) else (Inr (), Some k))"

definition has_root_public_key :: "root_key_store \<Rightarrow> bool" where
  "has_root_public_key s \<longleftrightarrow> s \<noteq> None"

definition clear_root_public_key :: "root_key_store \<Rightarrow> root_key_store" where
  "clear_root_public_key s = None"

definition root_public_key :: "(root_key_store, store_error, public_key) action" where
  "root_public_key s = (case s of None \<Rightarrow> (Inl (Store_crypto (Crypto_errc No_such_root_key)), s) | Some k \<Rightarrow> (Inr k, s))"

definition find_root_key :: "octets option \<Rightarrow> (root_key_store, store_error, public_key option) action" where
  "find_root_key i s =
     (if has_root_public_key s
      then bindA root_public_key (\<lambda>root. returnA (if i = None \<or> i = Some (key_id root) then Some root else None)) s
      else (Inr None, s))"

text \<open>The files of \<^verbatim>\<open>load_public_key_file\<close> and \<^verbatim>\<open>save_public_key_file\<close>: what a path holds, and whether it can be written.\<close>

definition load_public_key_file :: "crypto \<Rightarrow> octets option \<Rightarrow> store_error + public_key" where
  "load_public_key_file c file = (case file of
       None \<Rightarrow> Inl (Store_crypto (Crypto_errc No_such_key))
     | Some b \<Rightarrow> (case read_der public_key_ty (public_key_of c) b of Inl e \<Rightarrow> Inl (Store_crypto e) | Inr k \<Rightarrow> Inr k))"

definition save_public_key_file :: "bool \<Rightarrow> public_key \<Rightarrow> (octets option, store_error, unit) action" where
  "save_public_key_file writable k file =
     (if \<not> writable then (Inl (Store_crypto (Crypto_errc Invalid_public_key)), file)
      else bindA (lift_crypto (write_der public_key_ty (public_key_val k))) (\<lambda>b _. (Inr (), Some b)) (Some []))"

definition set_root_public_key_from_file :: "crypto \<Rightarrow> octets option \<Rightarrow> (root_key_store, store_error, unit) action" where
  "set_root_public_key_from_file c file s = (case load_public_key_file c file of Inl e \<Rightarrow> (Inl e, s) | Inr k \<Rightarrow> set_root_public_key k s)"

section \<open>Properties\<close>

text \<open>C27: A cache of public keys over databases is one map, whatever is in which of them: in every sequence of insertions,
  removals and lookups, each lookup finds the key last inserted, an insertion that threw may or may not have been made, and a
  removal is complete.\<close>

theorem key_cache_is_a_map:
  assumes "text_table T rows" "list_all (key_db_good c rows) (ca_backends ca)" "\<forall>i k. ca_map ca i = Some k \<longrightarrow> key_id k = i"
    "list_all (\<lambda>p. \<forall>k. p = Op_insert k \<longrightarrow> key_storable c k) ps"
  shows "explained key_id (\<lambda>k. k) (cache_view (key_db_view c rows) ca) ps (store_run (public_key_cache (public_key_database c T)) ps ca)"
  using keyed_store.run_explained [OF text_table.key_cache_store [OF assms(1)], of c ca ps] assms(2-4) by (simp add: cache_good_def)

text \<open>A root key that was saved to a file, whatever was there before, is the root key of a process that loads the file, and it is
  the key every access finds as the root, under its own identifier and no other.\<close>

theorem root_key_file_roundtrip:
  assumes "key_storable c k" "pk_is_valid k" "save_public_key_file True k old = (r, file)"
    "set_root_public_key_from_file c file s = (r', s')"
  shows "r = Inr () \<and> r' = Inr () \<and>
    fst (find_root_key i s') = Inr (if i = None \<or> i = Some (key_id k) then Some k else None)"
proof -
  obtain b where b: "write_der public_key_ty (public_key_val k) = Inr b" "read_der public_key_ty (public_key_of c) b = Inr k"
    using key_stored [OF assms(1)] by blast
  then have "r = Inr ()" "file = Some b" using assms(3) by (auto simp: save_public_key_file_def bindA_def lift_crypto_def returnA_def)
  then have "r' = Inr ()" "s' = Some k"
    using assms(2,4) b(2) by (auto simp: set_root_public_key_from_file_def load_public_key_file_def set_root_public_key_def)
  with \<open>r = Inr ()\<close> show ?thesis
    by (simp add: find_root_key_def has_root_public_key_def root_public_key_def bindA_def returnA_def)
qed

section \<open>An example\<close>

definition text_list :: "(octets \<times> octets) list text_db" where
  "text_list = \<lparr>tx_replace = (\<lambda>k b d. Some (AList.update k b d)), tx_data = (\<lambda>k d. map_of d k), tx_delete = AList.delete\<rparr>"

interpretation tl: text_table text_list map_of
  by standard (auto simp: text_list_def update_conv' delete_conv')

interpretation kc: keyed_store "public_key_cache (public_key_database c text_list)" "cache_view (key_db_view c map_of)"
  "cache_good (key_db_good c map_of) (\<lambda>_. key_id)" "key_storable c" key_id "\<lambda>k. k" "\<lambda>_. key_id" for c
  by (rule tl.key_cache_store)

interpretation sc: keyed_store "shared_secret_cache (shared_secret_database text_list)" "cache_view (\<lambda>d k. map_of d (to_hex k))"
  "cache_good (\<lambda>_. True) (\<lambda>k _. k)" "\<lambda>i. fst i \<noteq> []" fst snd "\<lambda>k _. k"
  by (rule tl.secret_cache_store)

lemma make_public_key_impl_rest:
  "pk_version (make_public_key_impl c s sg x pq) = 2" "certificate_ids (make_public_key_impl c s sg x pq) = []"
  "self_sig (make_public_key_impl c s sg x pq) = no_signature" "pk_trailing (make_public_key_impl c s sg x pq) = []"
  by (simp_all add: make_public_key_impl_def Let_def)

lemma demo_key_storable: "key_storable demo_crypto (sk_public demo_sk)"
proof -
  have "key_wf demo_crypto (sk_public demo_sk)"
    by (simp add: key_wf_def demo_sk_def make_public_key_impl_fields make_public_key_impl_rest)
  moreover have "val_ok public_key_ty (public_key_val (sk_public demo_sk))"
    by (rule val_ok_bound) (simp_all add: demo_sk_def make_public_key_impl_fields make_public_key_impl_rest no_signature_def public_key_ty_def public_key_val_def signature_ty_def signature_val_def
        suite_value_def max_structure_size_def max_constructed_size_def)
  ultimately show ?thesis by (simp add: key_storable_def)
qed

theorem key_cache_is_a_map_witness:
  "store_run (public_key_cache (public_key_database demo_crypto text_list))
     [Op_insert (sk_public demo_sk), Op_find (key_id (sk_public demo_sk)), Op_remove (key_id (sk_public demo_sk)), Op_find (key_id (sk_public demo_sk))]
     \<lparr>ca_map = Map.empty, ca_backends = [[]]\<rparr> = [Inr None, Inr (Some (sk_public demo_sk)), Inr None, Inr None]"
  (is "store_run ?S ?ps ?ca = _")
proof -
  have "explained key_id (\<lambda>k. k) (cache_view (key_db_view demo_crypto map_of) ?ca) ?ps (store_run ?S ?ps ?ca)"
    using demo_key_storable by (intro key_cache_is_a_map tl.text_table_axioms) (simp_all add: key_db_good_def)
  moreover obtain b where "write_der public_key_ty (public_key_val (sk_public demo_sk)) = Inr b" using key_stored [OF demo_key_storable] by blast
  then have "fst (store_do ?S (hd ?ps) ?ca) = Inr None"
    by (simp add: bindA_def returnA_def public_key_cache_def cache_insert_def on_backends_def public_key_database_def key_db_insert_def
        lift_crypto_def db_replace_def text_list_def)
  ultimately show ?thesis by (simp add: cache_view_def)
qed

theorem root_key_file_roundtrip_witness:
  "\<exists>file s. save_public_key_file True (sk_public demo_sk) None = (Inr (), file) \<and> set_root_public_key_from_file demo_crypto file None = (Inr (), s) \<and>
     fst (find_root_key (Some (key_id (sk_public demo_sk))) s) = Inr (Some (sk_public demo_sk))"
proof -
  obtain r fl where f: "save_public_key_file True (sk_public demo_sk) None = (r, fl)" by fastforce
  obtain r' s where s: "set_root_public_key_from_file demo_crypto fl None = (r', s)" by fastforce
  have "pk_is_valid (sk_public demo_sk)" by (rule key_pair_valid [OF demo_prims_ok demo_key_pair])
  from root_key_file_roundtrip [OF demo_key_storable this f s, of "Some (key_id (sk_public demo_sk))"] f s show ?thesis by auto
qed

end
