(* ===== verification/Private_Data.thy ===== *)
theory Private_Data
  imports Key_Stores
begin

text \<open>
  Private data: the coding of private keys, \<^verbatim>\<open>crypto/detail/private_key_impl.cpp\<close>, the database
  \<^verbatim>\<open>crypto/private_data_database.cpp\<close> and the cache \<^verbatim>\<open>crypto/private_data_cache.cpp\<close>.
\<close>

section \<open>Private keys on the wire\<close>

definition metadata_ty :: ty where
  "metadata_ty = T_container (T_seq [T_string, T_octets])"

definition private_key_ty :: ty where
  "private_key_ty = T_seq [T_uint 2, T_uint 2, public_key_ty, T_octets, T_octets, T_octets, metadata_ty, T_trailing]"

text \<open>A \<^verbatim>\<open>std::map\<close> is written in the order of its keys; of two entries with the same key the first is read.\<close>

definition entries :: "(octets \<rightharpoonup> octets) \<Rightarrow> (octets \<times> octets) list" where
  "entries m = map (\<lambda>k. (k, the (m k))) (sorted_list_of_set (dom m))"

definition metadata_val :: "(octets \<rightharpoonup> octets) \<Rightarrow> val" where
  "metadata_val m = V_seq (map (\<lambda>(k, d). V_seq [V_string k, V_octets d]) (entries m))"

definition private_key_val :: "private_key \<Rightarrow> val" where
  "private_key_val k =
     V_seq [V_int (sk_version k), V_int (suite_value (sk_suite k)), public_key_val (sk_public k), V_octets (sig_seed k),
            V_octets (kem_x_sk k), V_octets (kem_pq_seed k), metadata_val (metadata k), V_trailing (sk_trailing k)]"

definition entry_of :: "val \<Rightarrow> crypto_error + octets \<times> octets" where
  "entry_of v = (case v of V_seq [V_string k, V_octets d] \<Rightarrow> Inr (k, d) | _ \<Rightarrow> bad_value)"

definition metadata_of :: "val \<Rightarrow> crypto_error + (octets \<rightharpoonup> octets)" where
  "metadata_of v = (case v of V_seq vs \<Rightarrow> bindE (mapE entry_of vs) (\<lambda>es. Inr (map_of es)) | _ \<Rightarrow> bad_value)"

definition private_key_of :: "crypto \<Rightarrow> val \<Rightarrow> crypto_error + private_key" where
  "private_key_of c v = (case v of
       V_seq [V_int ver, V_int s, pk, V_octets seed, V_octets x, V_octets pq, md, V_trailing tr] \<Rightarrow>
         bindE (suite_of_value s) (\<lambda>s. bindE (public_key_of c pk) (\<lambda>pk. bindE (metadata_of md) (\<lambda>md.
           Inr \<lparr>sk_version = ver, sk_suite = s, sk_public = pk, sig_seed = seed, kem_x_sk = x, kem_pq_seed = pq,
                metadata = md, sk_trailing = tr\<rparr>)))
     | _ \<Rightarrow> bad_value)"

section \<open>Stores of private data\<close>

text \<open>The operations of \<^verbatim>\<open>private_data_access\<close>.\<close>

record 's private_ops =
  po_my_key :: "('s, store_error, private_key option) action"
  po_set_my_key :: "private_key \<Rightarrow> ('s, store_error, unit) action"
  po_my_chain :: "('s, store_error, certificate_chain option) action"
  po_set_my_chain :: "certificate_chain \<Rightarrow> ('s, store_error, unit) action"
  po_insert :: "octets \<Rightarrow> octets \<Rightarrow> ('s, store_error, unit) action"
  po_find :: "octets \<Rightarrow> ('s, store_error, octets option) action"
  po_erase :: "octets \<Rightarrow> ('s, store_error, unit) action"

text \<open>\<^verbatim>\<open>my_private_key(access)\<close> throws when no key is set.\<close>

definition my_private_key :: "'s private_ops \<Rightarrow> ('s, store_error, private_key) action" where
  "my_private_key P = bindA (po_my_key P) (\<lambda>k. case k of None \<Rightarrow> throwA (Store_crypto (Crypto_errc No_such_key)) | Some k \<Rightarrow> returnA k)"

subsection \<open>The database\<close>

definition private_db_find :: "'d text_db \<Rightarrow> octets \<Rightarrow> ('d, store_error, octets option) action" where
  "private_db_find T key d = (Inr (tx_data T key d), d)"

definition private_db_erase :: "'d text_db \<Rightarrow> octets \<Rightarrow> ('d, store_error, unit) action" where
  "private_db_erase T key d = (Inr (), tx_delete T key d)"

text \<open>The typed \<^verbatim>\<open>find\<close> and \<^verbatim>\<open>insert\<close> of \<^verbatim>\<open>private_data_access\<close>.\<close>

definition find_typed :: "(octets \<Rightarrow> ('s, store_error, octets option) action) \<Rightarrow> ty \<Rightarrow> (val \<Rightarrow> crypto_error + 'a) \<Rightarrow> octets \<Rightarrow> ('s, store_error, 'a option) action" where
  "find_typed get t of_val key = bindA (get key) (\<lambda>v. case v of
       None \<Rightarrow> returnA None
     | Some b \<Rightarrow> bindA (lift_crypto (read_der t of_val b)) (\<lambda>x. returnA (Some x)))"

definition insert_typed :: "(octets \<Rightarrow> octets \<Rightarrow> ('s, store_error, unit) action) \<Rightarrow> ty \<Rightarrow> octets \<Rightarrow> val \<Rightarrow> ('s, store_error, unit) action" where
  "insert_typed put t key v = bindA (lift_crypto (write_der t v)) (\<lambda>b. put key b)"

abbreviation (input) private_key_name :: octets where
  "private_key_name \<equiv> octets_of ''__private_key''"

abbreviation (input) certificate_chain_name :: octets where
  "certificate_chain_name \<equiv> octets_of ''__certificate_chain''"

definition private_data_database :: "crypto \<Rightarrow> 'd text_db \<Rightarrow> 'd private_ops" where
  "private_data_database c T =
     \<lparr>po_my_key = find_typed (private_db_find T) private_key_ty (private_key_of c) private_key_name,
      po_set_my_key = (\<lambda>k. insert_typed (db_replace T) private_key_ty private_key_name (private_key_val k)),
      po_my_chain = find_typed (private_db_find T) certificate_chain_ty (certificate_chain_of c) certificate_chain_name,
      po_set_my_chain = (\<lambda>cc. insert_typed (db_replace T) certificate_chain_ty certificate_chain_name (certificate_chain_val cc)),
      po_insert = db_replace T, po_find = private_db_find T, po_erase = private_db_erase T\<rparr>"

subsection \<open>The cache\<close>

record 's private_cache =
  pc_key :: "private_key option"
  pc_chain :: "certificate_chain option"
  pc_metadata :: "octets \<rightharpoonup> octets"
  pc_backends :: "'s list"

definition with_backends :: "('s list, store_error, 'a) action \<Rightarrow> ('s private_cache, store_error, 'a) action" where
  "with_backends f p = (case f (pc_backends p) of (r, bs) \<Rightarrow> (r, p\<lparr>pc_backends := bs\<rparr>))"

definition pc_my_key :: "'s private_ops \<Rightarrow> ('s private_cache, store_error, private_key option) action" where
  "pc_my_key B p = (case pc_key p of
       Some k \<Rightarrow> (Inr (Some k), p)
     | None \<Rightarrow> bindA (with_backends (first_found (po_my_key B))) (\<lambda>k p. (Inr k, p\<lparr>pc_key := k\<rparr>)) p)"

definition pc_set_my_key :: "'s private_ops \<Rightarrow> private_key \<Rightarrow> ('s private_cache, store_error, unit) action" where
  "pc_set_my_key B k p = with_backends (each_backend (po_set_my_key B k)) (p\<lparr>pc_key := Some k\<rparr>)"

definition pc_my_chain :: "'s private_ops \<Rightarrow> ('s private_cache, store_error, certificate_chain option) action" where
  "pc_my_chain B p = (case pc_chain p of
       Some cc \<Rightarrow> (Inr (Some cc), p)
     | None \<Rightarrow> bindA (with_backends (first_found (po_my_chain B))) (\<lambda>cc p. (Inr cc, p\<lparr>pc_chain := cc\<rparr>)) p)"

definition pc_set_my_chain :: "'s private_ops \<Rightarrow> certificate_chain \<Rightarrow> ('s private_cache, store_error, unit) action" where
  "pc_set_my_chain B cc p = with_backends (each_backend (po_set_my_chain B cc)) (p\<lparr>pc_chain := Some cc\<rparr>)"

definition pc_insert :: "'s private_ops \<Rightarrow> octets \<Rightarrow> octets \<Rightarrow> ('s private_cache, store_error, unit) action" where
  "pc_insert B key d p = with_backends (each_backend (po_insert B key d)) (p\<lparr>pc_metadata := (pc_metadata p)(key \<mapsto> d)\<rparr>)"

definition pc_find :: "'s private_ops \<Rightarrow> octets \<Rightarrow> ('s private_cache, store_error, octets option) action" where
  "pc_find B key p = (case pc_metadata p key of
       Some d \<Rightarrow> (Inr (Some d), p)
     | None \<Rightarrow> bindA (with_backends (first_found (po_find B key))) (\<lambda>r p.
         case r of None \<Rightarrow> (Inr None, p) | Some d \<Rightarrow> (Inr (Some d), p\<lparr>pc_metadata := (pc_metadata p)(key \<mapsto> d)\<rparr>)) p)"

definition pc_erase :: "'s private_ops \<Rightarrow> octets \<Rightarrow> ('s private_cache, store_error, unit) action" where
  "pc_erase B key p = with_backends (each_backend (po_erase B key)) (p\<lparr>pc_metadata := (pc_metadata p)(key := None)\<rparr>)"

definition private_data_cache :: "'s private_ops \<Rightarrow> 's private_cache private_ops" where
  "private_data_cache B = \<lparr>po_my_key = pc_my_key B, po_set_my_key = pc_set_my_key B, po_my_chain = pc_my_chain B,
     po_set_my_chain = pc_set_my_chain B, po_insert = pc_insert B, po_find = pc_find B, po_erase = pc_erase B\<rparr>"

definition pc_add_backend :: "'s \<Rightarrow> 's private_cache \<Rightarrow> 's private_cache" where
  "pc_add_backend b p = p\<lparr>pc_backends := b # pc_backends p\<rparr>"

definition empty_private_cache :: "'s list \<Rightarrow> 's private_cache" where
  "empty_private_cache bs = \<lparr>pc_key = None, pc_chain = None, pc_metadata = Map.empty, pc_backends = bs\<rparr>"

section \<open>Round trips\<close>

definition private_key_wf :: "crypto \<Rightarrow> private_key \<Rightarrow> bool" where
  "private_key_wf c k \<longleftrightarrow> key_wf c (sk_public k) \<and> finite (dom (metadata k)) \<and> val_ok private_key_ty (private_key_val k)"

lemma map_of_entries: "finite (dom m) \<Longrightarrow> map_of (entries m) = m"
proof
  fix k
  assume f: "finite (dom m)"
  have "map_of (map (\<lambda>k. (k, the (m k))) ks) k = (if k \<in> set ks then Some (the (m k)) else None)" for ks by (induction ks) auto
  then show "map_of (entries m) k = m k" using f by (cases "m k") (auto simp: entries_def)
qed

lemma metadata_of_val: "finite (dom m) \<Longrightarrow> metadata_of (metadata_val m) = Inr m"
proof -
  assume "finite (dom m)"
  moreover have "mapE entry_of (map (\<lambda>(k, d). V_seq [V_string k, V_octets d]) (entries m)) = Inr (entries m)"
    by (rule mapE_map) (simp add: entry_of_def split: prod.splits)
  ultimately show ?thesis by (simp add: metadata_of_def metadata_val_def map_of_entries)
qed

lemma private_key_of_val: "private_key_wf c k \<Longrightarrow> private_key_of c (private_key_val k) = Inr k"
  by (simp add: private_key_of_def private_key_val_def private_key_wf_def public_key_of_val metadata_of_val)

lemma private_key_written:
  assumes "private_key_wf c k"
  shows "\<exists>b. write_der private_key_ty (private_key_val k) = Inr b \<and> read_der private_key_ty (private_key_of c) b = Inr k"
proof -
  have t: "headed private_key_ty" "ty_ok private_key_ty" "depth private_key_ty \<le> max_structure_depth"
    by (simp_all add: private_key_ty_def metadata_ty_def public_key_ty_def signature_ty_def max_structure_depth_def)
  have v: "val_ok private_key_ty (private_key_val k)" using assms by (simp add: private_key_wf_def)
  show ?thesis using asn_der_ok(1) [OF t(1,2) v t(3)] asn_der_ok(2) [OF t(1,2) v t(3), of "[]"] private_key_of_val [OF assms]
    by (simp add: write_der_def read_der_def)
qed

section \<open>A key survives a restart\<close>

datatype private_input =
    Set_my_chain certificate_chain
  | Get_my_chain
  | Get_my_key
  | Insert_data octets octets
  | Find_data octets
  | Erase_data octets

primrec private_do :: "'s private_ops \<Rightarrow> private_input \<Rightarrow> 's \<Rightarrow> 's" where
  "private_do P (Set_my_chain cc) s = snd (po_set_my_chain P cc s)"
| "private_do P Get_my_chain s = snd (po_my_chain P s)"
| "private_do P Get_my_key s = snd (po_my_key P s)"
| "private_do P (Insert_data k d) s = snd (po_insert P k d s)"
| "private_do P (Find_data k) s = snd (po_find P k s)"
| "private_do P (Erase_data k) s = snd (po_erase P k s)"

definition about_key :: "private_input \<Rightarrow> bool" where
  "about_key i \<longleftrightarrow> (case i of Insert_data k _ \<Rightarrow> k = private_key_name | Erase_data k \<Rightarrow> k = private_key_name | _ \<Rightarrow> False)"

lemma each_backend_hd: "each_backend f (b # bs) = (r, bs') \<Longrightarrow> \<exists>bs''. bs' = snd (f b) # bs''"
  by (auto split: prod.splits sum.splits)

lemma first_found_hd: "first_found f (b # bs) = (r, bs') \<Longrightarrow> \<exists>bs''. bs' = snd (f b) # bs''"
  by (auto split: prod.splits sum.splits option.splits)

lemma with_backends_hd:
  assumes "\<And>r bs'. f (pc_backends p) = (r, bs') \<Longrightarrow> \<exists>bs''. bs' = x # bs''"
  shows "\<exists>bs''. pc_backends (snd (with_backends f p)) = x # bs''"
  using assms by (cases "f (pc_backends p)") (simp add: with_backends_def)

lemma names_differ: "certificate_chain_name \<noteq> private_key_name"
  by (simp add: octets_of_def)

context text_table
begin

abbreviation (input) keeps_key :: "octets \<Rightarrow> 'd list \<Rightarrow> bool" where
  "keeps_key b bs \<equiv> \<exists>d ds. bs = d # ds \<and> rows d private_key_name = Some b"

lemma replace_keeps: "rows d n = Some b \<Longrightarrow> k \<noteq> n \<Longrightarrow> rows (snd (db_replace T k x d)) n = Some b"
  using replace_row by (auto simp: db_replace_def split: option.splits)

lemma backend_keeps:
  assumes "rows d private_key_name = Some b" "\<not> about_key i"
  shows "rows (private_do (private_data_database c T) i d) private_key_name = Some b"
  using assms replace_keeps [OF assms(1)] names_differ
  by (cases i) (auto simp: private_data_database_def insert_typed_def find_typed_def bindA_snd lift_crypto_def throwA_def returnA_def
      private_db_find_def private_db_erase_def about_key_def delete_row split: sum.splits option.splits)

lemma cache_keeps:
  assumes "keeps_key b (pc_backends p)" "\<not> about_key i"
  shows "keeps_key b (pc_backends (private_do (private_data_cache (private_data_database c T)) i p))"
proof -
  obtain d ds where d: "pc_backends p = d # ds" "rows d private_key_name = Some b" using assms(1) by blast
  note kept = backend_keeps [OF d(2) assms(2), of c]
  have e: "\<exists>bs. pc_backends (snd (with_backends (each_backend f) q)) = snd (f d) # bs" if "pc_backends q = d # ds" for f q
    using that by (intro with_backends_hd, elim each_backend_hd [OF trans, rotated]) simp
  have g: "\<exists>bs. pc_backends (snd (with_backends (first_found f) q)) = snd (f d) # bs" if "pc_backends q = d # ds" for f :: "('d, store_error, 'x option) action" and q
    using that by (intro with_backends_hd, elim first_found_hd [OF trans, rotated]) simp
  show ?thesis
  proof (cases i)
    case (Set_my_chain cc)
    then show ?thesis using e [of "p\<lparr>pc_chain := Some cc\<rparr>" "po_set_my_chain (private_data_database c T) cc"] d(1) kept
      by (auto simp: private_data_cache_def pc_set_my_chain_def)
  next
    case Get_my_chain
    then show ?thesis using g [OF d(1), of "po_my_chain (private_data_database c T)"] d kept
      by (auto simp: private_data_cache_def pc_my_chain_def bindA_snd split: option.splits prod.splits sum.splits)
  next
    case Get_my_key
    then show ?thesis using g [OF d(1), of "po_my_key (private_data_database c T)"] d kept
      by (auto simp: private_data_cache_def pc_my_key_def bindA_snd split: option.splits prod.splits sum.splits)
  next
    case (Insert_data k x)
    then show ?thesis using e [of "p\<lparr>pc_metadata := (pc_metadata p)(k \<mapsto> x)\<rparr>" "po_insert (private_data_database c T) k x"] d(1) kept
      by (auto simp: private_data_cache_def pc_insert_def)
  next
    case (Find_data k)
    then show ?thesis using g [OF d(1), of "po_find (private_data_database c T) k"] d kept
      by (auto simp: private_data_cache_def pc_find_def bindA_snd split: option.splits prod.splits sum.splits)
  next
    case (Erase_data k)
    then show ?thesis using e [of "p\<lparr>pc_metadata := (pc_metadata p)(k := None)\<rparr>" "po_erase (private_data_database c T) k"] d(1) kept
      by (auto simp: private_data_cache_def pc_erase_def)
  qed
qed

lemma run_keeps_key:
  "keeps_key b (pc_backends p) \<Longrightarrow> list_all (\<lambda>i. \<not> about_key i) is \<Longrightarrow>
     keeps_key b (pc_backends (fold (private_do (private_data_cache (private_data_database c T))) is p))"
proof (induction "is" arbitrary: p)
  case (Cons i "is")
  then show ?case using cache_keeps [where b = b and p = p and i = i and c = c] by simp
qed simp

end

text \<open>A private key survives a restart: once \<^verbatim>\<open>set_my_private_key\<close> of a cache over databases has returned, a new cache over
  the same databases returns that very key, with its seeds, its metadata and the certificate references of its public key,
  whatever other data was read, written or erased in between.\<close>

theorem private_key_survives_restart:
  assumes "text_table T rows" "private_key_wf c k" "pc_backends p \<noteq> []"
    "po_set_my_key (private_data_cache (private_data_database c T)) k p = (Inr (), p1)" "list_all (\<lambda>i. \<not> about_key i) is"
    "p2 = fold (private_do (private_data_cache (private_data_database c T))) is p1"
  shows "fst (my_private_key (private_data_cache (private_data_database c T)) (empty_private_cache (pc_backends p2))) = Inr k"
proof -
  obtain b where b: "write_der private_key_ty (private_key_val k) = Inr b" "read_der private_key_ty (private_key_of c) b = Inr k"
    using private_key_written [OF assms(2)] by blast
  obtain d ds where d: "pc_backends p = d # ds" using assms(3) by (cases "pc_backends p") auto
  have "\<exists>d' ds'. pc_backends p1 = d' # ds' \<and> rows d' private_key_name = Some b"
    using assms(4) b(1) d text_table.replace_row [OF assms(1)]
    by (auto simp: private_data_cache_def pc_set_my_key_def with_backends_def private_data_database_def insert_typed_def bindA_def lift_crypto_def
        returnA_def db_replace_def split: option.splits prod.splits)
  then obtain d2 ds2 where "pc_backends p2 = d2 # ds2" "rows d2 private_key_name = Some b"
    using text_table.run_keeps_key [OF assms(1) _ assms(5), where b = b and p = p1 and c = c] assms(6) by auto
  then show ?thesis using b(2)
    by (simp add: my_private_key_def private_data_cache_def pc_my_key_def empty_private_cache_def with_backends_def private_data_database_def find_typed_def
        private_db_find_def text_table.data_row [OF assms(1)] bindA_def lift_crypto_def returnA_def)
qed

lemma demo_private_key_wf: "private_key_wf demo_crypto demo_sk"
proof -
  have "key_wf demo_crypto (sk_public demo_sk)" using demo_key_storable by (simp add: key_storable_def)
  moreover have "val_ok private_key_ty (private_key_val demo_sk)"
    by (rule val_ok_bound) (simp_all add: demo_sk_def make_public_key_impl_fields make_public_key_impl_rest no_signature_def private_key_ty_def
        private_key_val_def metadata_ty_def metadata_val_def entries_def public_key_ty_def public_key_val_def signature_ty_def signature_val_def
        suite_value_def max_structure_size_def max_constructed_size_def)
  ultimately show ?thesis by (simp add: private_key_wf_def demo_sk_def)
qed

theorem private_key_survives_restart_witness:
  "\<exists>p1. po_set_my_key (private_data_cache (private_data_database demo_crypto text_list)) demo_sk (empty_private_cache [[]]) = (Inr (), p1) \<and>
     fst (my_private_key (private_data_cache (private_data_database demo_crypto text_list)) (empty_private_cache (pc_backends
       (fold (private_do (private_data_cache (private_data_database demo_crypto text_list))) [Insert_data [1] [2], Get_my_chain] p1)))) = Inr demo_sk"
proof -
  let ?P = "private_data_cache (private_data_database demo_crypto text_list)"
  obtain b where "write_der private_key_ty (private_key_val demo_sk) = Inr b" using private_key_written [OF demo_private_key_wf] by blast
  then obtain p1 where p1: "po_set_my_key ?P demo_sk (empty_private_cache [[]]) = (Inr (), p1)"
    by (simp add: private_data_cache_def pc_set_my_key_def with_backends_def private_data_database_def insert_typed_def bindA_def lift_crypto_def
        returnA_def db_replace_def text_list_def empty_private_cache_def)
  from private_key_survives_restart [OF tl.text_table_axioms demo_private_key_wf _ p1, of "[Insert_data [1] [2], Get_my_chain]"] p1
  show ?thesis by (auto simp: about_key_def octets_of_def empty_private_cache_def)
qed

end
