(* ===== verification/Certificate_Stores.thy ===== *)
theory Certificate_Stores
  imports Key_Stores
begin

text \<open>
  The stores of certificates, \<^verbatim>\<open>crypto/certificate_database.cpp\<close> and \<^verbatim>\<open>crypto/certificate_cache.cpp\<close>. Both refuse to replace a
  certificate that carries a revocation; the cache looks only at its own map for that.
\<close>

section \<open>The database\<close>

text \<open>The statements on the table of certificates: is there a revoked row, insert or replace, delete, select by identifier.\<close>

record 'd cert_db =
  cd_revoked :: "octets \<Rightarrow> 'd \<Rightarrow> bool"
  cd_replace :: "octets \<Rightarrow> octets \<Rightarrow> octets option \<Rightarrow> bool \<Rightarrow> 'd \<Rightarrow> 'd option"
  cd_delete :: "octets \<Rightarrow> 'd \<Rightarrow> 'd"
  cd_data :: "octets \<Rightarrow> 'd \<Rightarrow> octets option"
  cd_search :: "octets \<Rightarrow> 'd \<Rightarrow> octets list"

record 's cert_ops = "(octets, certificate, certificate, 's) store_ops" +
  so_search :: "octets \<Rightarrow> ('s, store_error, certificate list) action"

definition identifier_certificate_ty :: ty where
  "identifier_certificate_ty = T_seq [T_int 4, T_string]"

definition extract_identifier :: "certificate \<Rightarrow> octets option" where
  "extract_identifier ct =
     (if cert_type ct = 2
      then case asn_der_deserialise identifier_certificate_ty (cert_data ct) of Inr (V_seq [V_int _, V_string s]) \<Rightarrow> Some s | _ \<Rightarrow> None
      else None)"

abbreviation (input) refuse_revoked :: "('s, store_error, unit) action" where
  "refuse_revoked \<equiv> throwA (Store_crypto (Crypto_errc Invalid_operation))"

definition cert_db_insert :: "crypto \<Rightarrow> 'd cert_db \<Rightarrow> certificate \<Rightarrow> ('d, store_error, unit) action" where
  "cert_db_insert c T ct d =
     (if cd_revoked T (to_hex (cert_id c ct)) d then refuse_revoked d
      else bindA (lift_crypto (write_der certificate_ty (certificate_val ct))) (\<lambda>b d.
             case cd_replace T (to_hex (cert_id c ct)) b (extract_identifier ct) (cert_revocation ct \<noteq> None) d of
               None \<Rightarrow> (Inl Store_database, d)
             | Some d' \<Rightarrow> (Inr (), d')) d)"

definition cert_db_remove :: "'d cert_db \<Rightarrow> octets \<Rightarrow> ('d, store_error, unit) action" where
  "cert_db_remove T i d = (Inr (), cd_delete T (to_hex i) d)"

definition cert_db_find :: "'d cert_db \<Rightarrow> octets \<Rightarrow> ('d, store_error, certificate option) action" where
  "cert_db_find T i d = (case cd_data T (to_hex i) d of
       None \<Rightarrow> (Inr None, d)
     | Some b \<Rightarrow> bindA (lift_crypto (read_der certificate_ty certificate_of b)) (\<lambda>ct. returnA (Some ct)) d)"

definition cert_db_search :: "'d cert_db \<Rightarrow> octets \<Rightarrow> ('d, store_error, certificate list) action" where
  "cert_db_search T i d = lift_crypto (mapE (read_der certificate_ty certificate_of) (cd_search T i d)) d"

definition certificate_database :: "crypto \<Rightarrow> 'd cert_db \<Rightarrow> 'd cert_ops" where
  "certificate_database c T =
     \<lparr>so_insert = cert_db_insert c T, so_remove = cert_db_remove T, so_find = cert_db_find T, so_search = cert_db_search T\<rparr>"

section \<open>The cache\<close>

definition cert_cache_insert :: "crypto \<Rightarrow> 's cert_ops \<Rightarrow> certificate \<Rightarrow> ((octets, certificate, 's) cache, store_error, unit) action" where
  "cert_cache_insert c B ct s = (case ca_map s (cert_id c ct) of
       Some old \<Rightarrow> if cert_revocation old \<noteq> None then refuse_revoked s else cache_insert (cert_id c) (\<lambda>ct. ct) (store_ops.truncate B) ct s
     | None \<Rightarrow> cache_insert (cert_id c) (\<lambda>ct. ct) (store_ops.truncate B) ct s)"

text \<open>\<^verbatim>\<open>search_identifier\<close> asks every backend and keeps the first certificate of each identifier.\<close>

definition add_new :: "crypto \<Rightarrow> certificate \<Rightarrow> certificate list \<Rightarrow> certificate list" where
  "add_new c ct res = (if cert_id c ct \<in> cert_id c ` set res then res else res @ [ct])"

primrec search_backends :: "crypto \<Rightarrow> ('s, store_error, certificate list) action \<Rightarrow> certificate list \<Rightarrow> ('s list, store_error, certificate list) action" where
  "search_backends c f res [] = (Inr res, [])"
| "search_backends c f res (b # bs) = (case f b of
       (Inl e, b') \<Rightarrow> (Inl e, b' # bs)
     | (Inr cts, b') \<Rightarrow> (case search_backends c f (fold (add_new c) cts res) bs of (r, bs') \<Rightarrow> (r, b' # bs')))"

definition cert_cache_remove :: "'s cert_ops \<Rightarrow> octets \<Rightarrow> ((octets, certificate, 's) cache, store_error, unit) action" where
  [simp]: "cert_cache_remove B = cache_remove (store_ops.truncate B)"

definition cert_cache_find :: "crypto \<Rightarrow> 's cert_ops \<Rightarrow> octets \<Rightarrow> ((octets, certificate, 's) cache, store_error, certificate option) action" where
  [simp]: "cert_cache_find c B = cache_find (\<lambda>_. cert_id c) (store_ops.truncate B)"

definition cert_cache_search :: "crypto \<Rightarrow> 's cert_ops \<Rightarrow> octets \<Rightarrow> ((octets, certificate, 's) cache, store_error, certificate list) action" where
  "cert_cache_search c B i = on_backends (search_backends c (so_search B i) [])"

definition certificate_cache :: "crypto \<Rightarrow> 's cert_ops \<Rightarrow> (octets, certificate, 's) cache cert_ops" where
  "certificate_cache c B =
     \<lparr>so_insert = cert_cache_insert c B, so_remove = cert_cache_remove B, so_find = cert_cache_find c B, so_search = cert_cache_search c B\<rparr>"

section \<open>The table\<close>

locale certificate_table =
  fixes T :: "'d cert_db" and rows :: "'d \<Rightarrow> octets \<Rightarrow> (octets \<times> octets option \<times> bool) option"
  assumes revoked_row: "cd_revoked T k d \<longleftrightarrow> (\<exists>b n. rows d k = Some (b, n, True))"
    and replace_row: "cd_replace T k b n r d = Some d' \<Longrightarrow> rows d' = (rows d)(k \<mapsto> (b, n, r))"
    and delete_row: "rows (cd_delete T k d) = (rows d)(k := None)"
    and data_row: "cd_data T k d = map_option fst (rows d k)"
    and search_rows: "set (cd_search T i d) = {b. \<exists>k r. rows d k = Some (b, Some i, r)}"

definition cert_storable :: "certificate \<Rightarrow> bool" where
  "cert_storable ct \<longleftrightarrow> val_ok certificate_ty (certificate_val ct)"

definition cert_db_view :: "('d \<Rightarrow> octets \<Rightarrow> (octets \<times> octets option \<times> bool) option) \<Rightarrow> 'd \<Rightarrow> octets \<Rightarrow> certificate option" where
  "cert_db_view rows d i = (case rows d (to_hex i) of
       None \<Rightarrow> None
     | Some (b, _) \<Rightarrow> (case read_der certificate_ty certificate_of b of Inl _ \<Rightarrow> None | Inr ct \<Rightarrow> Some ct))"

text \<open>Every row has the certificate of its key, its identifier and whether it is revoked.\<close>

definition cert_db_good :: "crypto \<Rightarrow> ('d \<Rightarrow> octets \<Rightarrow> (octets \<times> octets option \<times> bool) option) \<Rightarrow> 'd \<Rightarrow> bool" where
  "cert_db_good c rows d \<longleftrightarrow> (\<forall>i b n r. rows d (to_hex i) = Some (b, n, r) \<longrightarrow>
     (\<exists>ct. read_der certificate_ty certificate_of b = Inr ct \<and> cert_id c ct = i \<and> n = extract_identifier ct \<and> r = (cert_revocation ct \<noteq> None)))"

lemma cert_stored:
  assumes "cert_storable ct"
  shows "\<exists>b. write_der certificate_ty (certificate_val ct) = Inr b \<and> read_der certificate_ty certificate_of b = Inr ct"
proof -
  have t: "headed certificate_ty" "ty_ok certificate_ty" "depth certificate_ty \<le> max_structure_depth"
    by (simp_all add: certificate_ty_def revocation_ty_def signature_ty_def max_structure_depth_def)
  have v: "val_ok certificate_ty (certificate_val ct)" using assms by (simp add: cert_storable_def)
  show ?thesis using asn_der_ok(1) [OF t(1,2) v t(3)] asn_der_ok(2) [OF t(1,2) v t(3), of "[]"]
    by (simp add: write_der_def read_der_def)
qed

context certificate_table
begin

lemma certificate_database_store:
  "keyed_store (store_ops.truncate (certificate_database c T)) (cert_db_view rows) (cert_db_good c rows) cert_storable (cert_id c) (\<lambda>ct. ct) (\<lambda>_. cert_id c)"
proof
  fix d i
  show "\<exists>s'. so_find (store_ops.truncate (certificate_database c T)) i d = (Inr (cert_db_view rows d i), s') \<and> cert_db_good c rows s' \<and>
      cert_db_view rows s' = cert_db_view rows d" if g: "cert_db_good c rows d"
  proof (cases "rows d (to_hex i)")
    case (Some x)
    then obtain ct where "read_der certificate_ty certificate_of (fst x) = Inr ct" using g by (cases x) (fastforce simp: cert_db_good_def)
    then show ?thesis using Some g
      by (cases x) (simp add: store_ops.truncate_def certificate_database_def cert_db_find_def data_row cert_db_view_def [of rows d i] bindA_def lift_crypto_def returnA_def)
  qed (use g in \<open>simp add: store_ops.truncate_def certificate_database_def cert_db_find_def data_row cert_db_view_def [of rows d i]\<close>)
  show "\<exists>s'. so_remove (store_ops.truncate (certificate_database c T)) i d = (Inr (), s') \<and> cert_db_good c rows s' \<and>
      cert_db_view rows s' = (cert_db_view rows d)(i := None)" if "cert_db_good c rows d"
    using that by (auto simp: store_ops.truncate_def certificate_database_def cert_db_remove_def cert_db_good_def cert_db_view_def delete_row fun_eq_iff)
  show "cert_id c ct = i" if "cert_db_good c rows d" "cert_db_view rows d i = Some ct" for ct
    using that by (fastforce simp: cert_db_good_def cert_db_view_def split: option.splits sum.splits)
next
  fix d ct r d'
  assume a: "cert_db_good c rows d" "cert_storable ct" "so_insert (store_ops.truncate (certificate_database c T)) ct d = (r, d')"
  obtain b where b: "write_der certificate_ty (certificate_val ct) = Inr b" "read_der certificate_ty certificate_of b = Inr ct"
    using cert_stored [OF a(2)] by blast
  consider "d' = d" "r \<noteq> Inr ()" | "rows d' = (rows d)(to_hex (cert_id c ct) \<mapsto> (b, extract_identifier ct, cert_revocation ct \<noteq> None))"
    using a(3) b(1) replace_row by (auto simp: store_ops.truncate_def certificate_database_def cert_db_insert_def bindA_def lift_crypto_def returnA_def throwA_def
        split: if_splits option.splits)
  then show "cert_db_good c rows d' \<and> (\<forall>i. i \<noteq> cert_id c ct \<longrightarrow> cert_db_view rows d' i = cert_db_view rows d i) \<and>
      cert_db_view rows d' (cert_id c ct) \<in> {cert_db_view rows d (cert_id c ct), Some ct} \<and> (r = Inr () \<longrightarrow> cert_db_view rows d' (cert_id c ct) = Some ct)"
    using a(1) b(2) by cases (auto simp: cert_db_good_def cert_db_view_def)
qed simp

lemma certificate_cache_store:
  "keyed_store (store_ops.truncate (certificate_cache c (certificate_database c T))) (cache_view (cert_db_view rows)) (cache_good (cert_db_good c rows) (\<lambda>_. cert_id c))
     cert_storable (cert_id c) (\<lambda>ct. ct) (\<lambda>_. cert_id c)"
  by (rule keyed_store.cache_store [OF certificate_database_store])
    (auto simp: store_ops.truncate_def certificate_cache_def cert_cache_insert_def throwA_def split: option.splits)

text \<open>In the database a revocation is final.\<close>

lemma revoked_row_refused:
  assumes "cert_db_good c rows d" "cert_db_view rows d (cert_id c ct) = Some old" "cert_revocation old \<noteq> None"
  shows "cert_db_insert c T ct d = (Inl (Store_crypto (Crypto_errc Invalid_operation)), d)"
proof -
  obtain b n r where x: "rows d (to_hex (cert_id c ct)) = Some (b, n, r)" "read_der certificate_ty certificate_of b = Inr old"
    using assms(2) by (auto simp: cert_db_view_def split: option.splits sum.splits)
  then have "r" using assms(1,3) by (fastforce simp: cert_db_good_def)
  then show ?thesis using x(1) revoked_row by (simp add: cert_db_insert_def throwA_def)
qed

end

section \<open>Properties\<close>

text \<open>A cache of certificates over databases is one map: in every sequence of insertions, removals and lookups, each lookup
  finds the certificate last inserted, an insertion that threw may or may not have been made, and a removal is complete.\<close>

theorem certificate_cache_is_a_map:
  assumes "certificate_table T rows" "list_all (cert_db_good c rows) (ca_backends ca)" "\<forall>i ct. ca_map ca i = Some ct \<longrightarrow> cert_id c ct = i"
    "list_all (\<lambda>p. \<forall>ct. p = Op_insert ct \<longrightarrow> cert_storable ct) ps"
  shows "explained (cert_id c) (\<lambda>ct. ct) (cache_view (cert_db_view rows) ca) ps
    (store_run (store_ops.truncate (certificate_cache c (certificate_database c T))) ps ca)"
  using keyed_store.run_explained [OF certificate_table.certificate_cache_store [OF assms(1)], of c ca ps] assms(2-4) by (simp add: cache_good_def)

context certificate_table
begin

lemma revoked_step:
  assumes "ca_map ca i = Some ct" "cert_revocation ct \<noteq> None" "p \<noteq> Op_remove i" "cache_good (cert_db_good c rows) (\<lambda>_. cert_id c) ca"
  shows "ca_map (snd (store_do (store_ops.truncate (certificate_cache c (certificate_database c T))) p ca)) i = Some ct"
proof (cases p)
  case (Op_insert ct')
  then show ?thesis using assms(1,2)
    by (cases "cert_id c ct' = i")
      (auto simp: store_ops.truncate_def certificate_cache_def cert_cache_insert_def throwA_def cache_insert_def on_backends_def bindA_snd returnA_def
        split: prod.splits sum.splits option.splits if_splits)
next
  case (Op_remove k)
  then show ?thesis using assms(1,3)
    by (auto simp: store_ops.truncate_def certificate_cache_def cache_remove_def on_backends_def bindA_snd returnA_def split: prod.splits sum.splits)
next
  case (Op_find k)
  let ?B = "store_ops.truncate (certificate_database c T)" and ?view = "backends_view (cert_db_view rows) (ca_backends ca)"
  have g: "list_all (cert_db_good c rows) (ca_backends ca)" using assms(4) by (simp add: cache_good_def)
  obtain bs where bs: "first_found (so_find ?B k) (ca_backends ca) = (Inr (?view k), bs)"
    using keyed_store.first_found_view [OF certificate_database_store g] by blast
  have "cert_id c v = k" if "?view k = Some v" for v
    using keyed_store.backends_view_name [OF certificate_database_store g that] .
  then show ?thesis using Op_find bs assms(1)
    by (cases "ca_map ca k"; cases "?view k")
      (auto simp: store_ops.truncate_def certificate_cache_def cache_find_def on_backends_def bindA_def)
qed

lemma cache_step_good:
  assumes "cache_good (cert_db_good c rows) (\<lambda>_. cert_id c) ca" "\<forall>ct. p = Op_insert ct \<longrightarrow> cert_storable ct"
  shows "cache_good (cert_db_good c rows) (\<lambda>_. cert_id c) (snd (store_do (store_ops.truncate (certificate_cache c (certificate_database c T))) p ca))"
  using keyed_store.step_good [OF certificate_cache_store assms(1)] assms(2) .

end

context certificate_table
begin

lemma revoked_run:
  assumes "ca_map ca i = Some ct" "cert_revocation ct \<noteq> None" "cache_good (cert_db_good c rows) (\<lambda>_. cert_id c) ca"
    "list_all (\<lambda>p. \<forall>ct. p = Op_insert ct \<longrightarrow> cert_storable ct) ps" "Op_remove i \<notin> set ps" "j < length ps" "ps ! j = Op_find i"
  shows "store_run (store_ops.truncate (certificate_cache c (certificate_database c T))) ps ca ! j = Inr (Some ct)"
  using assms(1,3-7)
proof (induction ps arbitrary: ca j)
  case (Cons p ps)
  let ?C = "store_ops.truncate (certificate_cache c (certificate_database c T))"
  show ?case
  proof (cases j)
    case 0
    then show ?thesis using Cons.prems by (simp add: store_ops.truncate_def certificate_cache_def cache_find_def)
  next
    case (Suc j')
    have "ca_map (snd (store_do ?C p ca)) i = Some ct" using revoked_step [OF Cons.prems(1) assms(2) _ Cons.prems(2)] Cons.prems(4) by auto
    moreover have "cache_good (cert_db_good c rows) (\<lambda>_. cert_id c) (snd (store_do ?C p ca))" using cache_step_good Cons.prems(2,3) by simp
    ultimately show ?thesis using Cons.IH [of "snd (store_do ?C p ca)" j'] Cons.prems Suc by simp
  qed
qed simp

lemma found_in_map:
  assumes "cache_good (cert_db_good c rows) (\<lambda>_. cert_id c) ca" "so_find (certificate_cache c (certificate_database c T)) i ca = (Inr (Some ct), ca1)"
  shows "ca_map ca1 i = Some ct" "cache_good (cert_db_good c rows) (\<lambda>_. cert_id c) ca1"
proof -
  let ?C = "store_ops.truncate (certificate_cache c (certificate_database c T))"
  have f: "so_find ?C i ca = (Inr (Some ct), ca1)" using assms(2) by (simp add: store_ops.truncate_def)
  obtain s where s: "so_find ?C i ca = (Inr (cache_view (cert_db_view rows) ca i), s)" "cache_good (cert_db_good c rows) (\<lambda>_. cert_id c) s"
    using keyed_store.find_view [OF certificate_cache_store assms(1)] by blast
  have v: "cache_view (cert_db_view rows) ca i = Some ct" "s = ca1" using f unfolding s(1) by simp_all
  show "cache_good (cert_db_good c rows) (\<lambda>_. cert_id c) ca1" using s(2) v(2) by simp
  have "cert_id c ct = i" by (rule keyed_store.view_name [OF certificate_cache_store assms(1) v(1)])
  then show "ca_map ca1 i = Some ct"
  proof (cases "ca_map ca i")
    case None
    then obtain x s' where x: "(case x of None \<Rightarrow> (Inr None, s') | Some v \<Rightarrow> (Inr (Some v), s'\<lparr>ca_map := (ca_map s')(cert_id c v \<mapsto> v)\<rparr>)) = (Inr (Some ct) :: store_error + _, ca1)"
      using assms(2) by (simp add: certificate_cache_def cache_find_def bindA_eq_Inr) blast
    then show ?thesis using \<open>cert_id c ct = i\<close> by (cases x) auto
  qed (use assms(2) in \<open>simp add: certificate_cache_def cache_find_def\<close>)
qed

end

text \<open>C28: A revocation the cache has seen is final: once a lookup has returned a certificate with a revocation, every later
  lookup returns the same, whatever is inserted, removed or looked up between, unless that certificate itself is removed.\<close>

theorem seen_revocation_is_final:
  assumes "certificate_table T rows" "list_all (cert_db_good c rows) (ca_backends ca)" "\<forall>i ct. ca_map ca i = Some ct \<longrightarrow> cert_id c ct = i"
    "so_find (certificate_cache c (certificate_database c T)) i ca = (Inr (Some ct), ca1)" "cert_revocation ct \<noteq> None"
    "list_all (\<lambda>p. \<forall>ct. p = Op_insert ct \<longrightarrow> cert_storable ct) ps" "Op_remove i \<notin> set ps" "j < length ps" "ps ! j = Op_find i"
  shows "store_run (store_ops.truncate (certificate_cache c (certificate_database c T))) ps ca1 ! j = Inr (Some ct)"
proof -
  have "cache_good (cert_db_good c rows) (\<lambda>_. cert_id c) ca" using assms(2,3) by (simp add: cache_good_def)
  note f = certificate_table.found_in_map [OF assms(1) this assms(4)]
  show ?thesis by (rule certificate_table.revoked_run [OF assms(1) f(1) assms(5) f(2) assms(6-9)])
qed

text \<open>C29: A revocation the cache has not seen can be undone: the database has the certificate with a revocation, the cache has not
  loaded it yet, and someone inserts the certificate without the revocation. The database refuses and the insertion throws, but
  the cache has already entered the certificate in its map, and from then on it answers with it, so that the check of a
  chain against the store no longer finds the revocation.\<close>

theorem unseen_revocation_is_lost:
  assumes "certificate_table T rows" "cert_db_good c rows d" "cert_db_view rows d (cert_id c ct) = Some old" "cert_revocation old \<noteq> None"
    "cert_revocation ct = None" "ca_map ca (cert_id c ct) = None" "ca_backends ca = [d]"
    "so_insert (certificate_cache c (certificate_database c T)) ct ca = (r, ca')"
  shows "r = Inl (Store_crypto (Crypto_errc Invalid_operation)) \<and>
    fst (so_find (certificate_cache c (certificate_database c T)) (cert_id c ct) ca') = Inr (Some ct) \<and>
    is_revoked_in_store c (cache_view (cert_db_view rows) ca) ct k = cert_is_revoked c old k \<and>
    is_revoked_in_store c (cache_view (cert_db_view rows) ca') ct k = Inr False"
proof -
  have "cert_db_insert c T ct d = (Inl (Store_crypto (Crypto_errc Invalid_operation)), d)"
    by (rule certificate_table.revoked_row_refused [OF assms(1-4)])
  then have "r = Inl (Store_crypto (Crypto_errc Invalid_operation))" "ca' = ca\<lparr>ca_map := (ca_map ca)(cert_id c ct \<mapsto> ct), ca_backends := [d]\<rparr>"
    using assms(6-8) by (simp_all add: certificate_cache_def cert_cache_insert_def cache_insert_def on_backends_def certificate_database_def store_ops.truncate_def)
  then show ?thesis using assms(3,5-7)
    by (simp add: certificate_cache_def cache_find_def is_revoked_in_store_def cache_view_def cert_is_revoked_def [of c ct])
qed

section \<open>An example\<close>

definition cert_list :: "(octets \<times> octets \<times> octets option \<times> bool) list cert_db" where
  "cert_list = \<lparr>cd_revoked = (\<lambda>k d. case map_of d k of Some (b, n, r) \<Rightarrow> r | None \<Rightarrow> False), cd_replace = (\<lambda>k b n r d. Some (AList.update k (b, n, r) d)),
     cd_delete = AList.delete, cd_data = (\<lambda>k d. map_option fst (map_of d k)),
     cd_search = (\<lambda>i d. map (\<lambda>(k, b, n, r). b) (filter (\<lambda>(k, b, n, r). n = Some i) (AList.clearjunk d)))\<rparr>"

interpretation cl: certificate_table cert_list map_of
proof
  fix i :: octets and d :: "(octets \<times> octets \<times> octets option \<times> bool) list"
  have "(k, x) \<in> set (AList.clearjunk d) \<longleftrightarrow> map_of d k = Some x" for k x
    by (metis distinct_clearjunk map_of_clearjunk map_of_eq_Some_iff)
  moreover have "set (cd_search cert_list i d) = {b. \<exists>k r. (k, b, Some i, r) \<in> set (AList.clearjunk d)}"
    by (auto simp: cert_list_def image_iff) (metis (full_types))
  ultimately show "set (cd_search cert_list i d) = {b. \<exists>k r. map_of d k = Some (b, Some i, r)}" by simp
qed (auto simp: cert_list_def update_conv' delete_conv' split: option.splits)

interpretation cc: keyed_store "store_ops.truncate (certificate_cache c (certificate_database c cert_list))" "cache_view (cert_db_view map_of)"
  "cache_good (cert_db_good c map_of) (\<lambda>_. cert_id c)" cert_storable "cert_id c" "\<lambda>ct. ct" "\<lambda>_. cert_id c" for c
  by (rule cl.certificate_cache_store)


definition demo_revoked :: certificate where
  "demo_revoked = \<lparr>cert_version = 1, cert_type = 1, cert_data = [7], cert_sig = \<lparr>sig_version = 2, sig_issuer = [1], sig_octets = [8]\<rparr>,
     cert_revocation = Some \<lparr>rev_version = 1, rev_cid = [8], rev_sig = \<lparr>sig_version = 2, sig_issuer = [1], sig_octets = [9]\<rparr>, rev_trailing = []\<rparr>,
     cert_trailing = []\<rparr>"

abbreviation (input) demo_unrevoked :: certificate where
  "demo_unrevoked \<equiv> demo_revoked\<lparr>cert_revocation := None\<rparr>"

lemma demo_certs_storable: "cert_storable demo_revoked" "cert_storable demo_unrevoked"
  unfolding cert_storable_def
  by (rule val_ok_bound; simp add: demo_revoked_def certificate_ty_def certificate_val_def revocation_ty_def revocation_val_def signature_ty_def
      signature_val_def max_structure_size_def max_constructed_size_def)+

definition demo_rows :: "octets \<Rightarrow> (octets \<times> octets \<times> octets option \<times> bool) list" where
  "demo_rows b = [(to_hex (cert_id demo_crypto demo_revoked), b, None, True)]"

lemma demo_rows:
  "\<exists>b. cert_db_good demo_crypto map_of (demo_rows b) \<and> cert_db_view map_of (demo_rows b) (cert_id demo_crypto demo_revoked) = Some demo_revoked"
proof -
  obtain b where "read_der certificate_ty certificate_of b = Inr demo_revoked" using cert_stored [OF demo_certs_storable(1)] by blast
  then show ?thesis
    by (intro exI [of _ b]) (simp add: demo_rows_def cert_db_good_def cert_db_view_def, simp add: demo_revoked_def extract_identifier_def)
qed

theorem certificate_cache_is_a_map_witness:
  "explained (cert_id demo_crypto) (\<lambda>ct. ct) (\<lambda>_. None) [Op_insert demo_unrevoked, Op_insert demo_revoked, Op_find (cert_id demo_crypto demo_revoked)]
    (store_run (store_ops.truncate (certificate_cache demo_crypto (certificate_database demo_crypto cert_list)))
      [Op_insert demo_unrevoked, Op_insert demo_revoked, Op_find (cert_id demo_crypto demo_revoked)] \<lparr>ca_map = Map.empty, ca_backends = [[]]\<rparr>)"
proof -
  have "cache_view (cert_db_view map_of) \<lparr>ca_map = Map.empty, ca_backends = [[]]\<rparr> = (\<lambda>_. None)" by (simp add: fun_eq_iff cache_view_def cert_db_view_def)
  then show ?thesis
    using certificate_cache_is_a_map [OF cl.certificate_table_axioms, of demo_crypto "\<lparr>ca_map = Map.empty, ca_backends = [[]]\<rparr>"
        "[Op_insert demo_unrevoked, Op_insert demo_revoked, Op_find (cert_id demo_crypto demo_revoked)]"] demo_certs_storable
    by (simp del: store_run.simps explained.simps add: cert_db_good_def)
qed

theorem seen_revocation_is_final_witness:
  "\<exists>b ca1. so_find (certificate_cache demo_crypto (certificate_database demo_crypto cert_list)) (cert_id demo_crypto demo_revoked)
       \<lparr>ca_map = Map.empty, ca_backends = [demo_rows b]\<rparr> = (Inr (Some demo_revoked), ca1) \<and>
     store_run (store_ops.truncate (certificate_cache demo_crypto (certificate_database demo_crypto cert_list)))
       [Op_insert demo_unrevoked, Op_find (cert_id demo_crypto demo_revoked)] ca1 ! 1 = Inr (Some demo_revoked)"
proof -
  let ?C = "certificate_cache demo_crypto (certificate_database demo_crypto cert_list)" and ?i = "cert_id demo_crypto demo_revoked"
  obtain b where b: "cert_db_good demo_crypto map_of (demo_rows b)" "cert_db_view map_of (demo_rows b) ?i = Some demo_revoked" using demo_rows by blast
  let ?ca = "\<lparr>ca_map = Map.empty, ca_backends = [demo_rows b]\<rparr>"
  have "cache_good (cert_db_good demo_crypto map_of) (\<lambda>_. cert_id demo_crypto) ?ca" using b(1) by (simp add: cache_good_def)
  from cc.find_view [OF this, of ?i] obtain ca1 where f: "so_find ?C ?i ?ca = (Inr (Some demo_revoked), ca1)"
    using b(2) by (auto simp: store_ops.truncate_def cache_view_def)
  have "store_run (store_ops.truncate ?C) [Op_insert demo_unrevoked, Op_find ?i] ca1 ! 1 = Inr (Some demo_revoked)"
    by (rule seen_revocation_is_final [OF cl.certificate_table_axioms _ _ f]) (use b(1) demo_certs_storable in \<open>simp_all add: demo_revoked_def\<close>)
  with f show ?thesis by blast
qed

theorem unseen_revocation_is_lost_witness:
  "\<exists>b ca'. cert_db_view map_of (demo_rows b) (cert_id demo_crypto demo_unrevoked) = Some demo_revoked \<and>
     so_insert (certificate_cache demo_crypto (certificate_database demo_crypto cert_list)) demo_unrevoked \<lparr>ca_map = Map.empty, ca_backends = [demo_rows b]\<rparr> =
       (Inl (Store_crypto (Crypto_errc Invalid_operation)), ca') \<and>
     fst (so_find (certificate_cache demo_crypto (certificate_database demo_crypto cert_list)) (cert_id demo_crypto demo_unrevoked) ca') = Inr (Some demo_unrevoked)"
proof -
  let ?C = "certificate_cache demo_crypto (certificate_database demo_crypto cert_list)" and ?i = "cert_id demo_crypto demo_revoked"
  obtain b where b: "cert_db_good demo_crypto map_of (demo_rows b)" "cert_db_view map_of (demo_rows b) ?i = Some demo_revoked" using demo_rows by blast
  have i: "cert_id demo_crypto demo_unrevoked = ?i" by (simp add: cert_id_def)
  obtain r ca' where s: "so_insert ?C demo_unrevoked \<lparr>ca_map = Map.empty, ca_backends = [demo_rows b]\<rparr> = (r, ca')" by fastforce
  show ?thesis
    using unseen_revocation_is_lost [OF cl.certificate_table_axioms b(1) _ _ _ _ _ s] b(2) i s by (auto simp: demo_revoked_def)
qed


end
