(* ===== verification/Key_Server.thy ===== *)
theory Key_Server
  imports Certificate_Stores Packet_Protocol
begin

text \<open>
  The key server, \<^verbatim>\<open>infrastructure/key_server\<close>: its messages, the store of keys and certificates it serves, and the connections that
  answer requests. The stores are arguments; what is relied on is the locale \<open>keyed_store\<close>, which the caches and databases of
  \<^verbatim>\<open>Key_Stores\<close> and \<^verbatim>\<open>Certificate_Stores\<close> satisfy. The handlers of different connections run on several threads: each call of a store
  is one step, since the caches lock it, and a registration, which makes two, can be interrupted between them.
\<close>

section \<open>Messages\<close>

datatype key_message =
    Register_key_request "32 word" public_key
  | Find_key_request "32 word" octets
  | Find_certificate_request "32 word" octets
  | Register_key_response "32 word" net_error
  | Find_key_response "32 word" "public_key option" net_error
  | Find_certificate_response "32 word" "certificate option" net_error

definition key_types :: "type_tag list" where
  "key_types =
     [\<lparr>tt_name = ''register_key_request'', tt_type = T_seq [T_uint 4, public_key_ty], tt_tag = 1\<rparr>,
      \<lparr>tt_name = ''find_key_request'', tt_type = T_seq [T_uint 4, id_ty], tt_tag = 2\<rparr>,
      \<lparr>tt_name = ''find_certificate_request'', tt_type = T_seq [T_uint 4, id_ty], tt_tag = 3\<rparr>,
      \<lparr>tt_name = ''register_key_response'', tt_type = T_seq [T_uint 4, net_error_ty], tt_tag = 4\<rparr>,
      \<lparr>tt_name = ''find_key_response'', tt_type = T_seq [T_uint 4, T_optional public_key_ty, net_error_ty], tt_tag = 5\<rparr>,
      \<lparr>tt_name = ''find_certificate_response'', tt_type = T_seq [T_uint 4, T_optional certificate_ty, net_error_ty], tt_tag = 6\<rparr>]"

abbreviation (input) request_val :: "32 word \<Rightarrow> val" where
  "request_val i \<equiv> V_int (ucast i)"

primrec key_entry :: "key_message \<Rightarrow> type_tag" where
  "key_entry (Register_key_request _ _) = key_types ! 0"
| "key_entry (Find_key_request _ _) = key_types ! 1"
| "key_entry (Find_certificate_request _ _) = key_types ! 2"
| "key_entry (Register_key_response _ _) = key_types ! 3"
| "key_entry (Find_key_response _ _ _) = key_types ! 4"
| "key_entry (Find_certificate_response _ _ _) = key_types ! 5"

primrec key_val :: "key_message \<Rightarrow> val" where
  "key_val (Register_key_request i k) = V_seq [request_val i, public_key_val k]"
| "key_val (Find_key_request i kid) = V_seq [request_val i, id_val kid]"
| "key_val (Find_certificate_request i cid) = V_seq [request_val i, id_val cid]"
| "key_val (Register_key_response i e) = V_seq [request_val i, net_error_val e]"
| "key_val (Find_key_response i k e) = V_seq [request_val i, V_optional (map_option public_key_val k), net_error_val e]"
| "key_val (Find_certificate_response i ct e) = V_seq [request_val i, V_optional (map_option certificate_val ct), net_error_val e]"

definition plain_error :: "crypto_error + 'a \<Rightarrow> ser_error + 'a" where
  "plain_error r = (case r of Inl _ \<Rightarrow> Inl ill_typed | Inr x \<Rightarrow> Inr x)"

definition optional_of :: "(val \<Rightarrow> crypto_error + 'a) \<Rightarrow> val \<Rightarrow> ser_error + 'a option" where
  "optional_of f v = (case v of
       V_optional None \<Rightarrow> Inr None
     | V_optional (Some u) \<Rightarrow> bindE (plain_error (f u)) (\<lambda>x. Inr (Some x))
     | _ \<Rightarrow> Inl ill_typed)"

definition register_request_of :: "crypto \<Rightarrow> val \<Rightarrow> ser_error + key_message" where
  "register_request_of c v = (case v of
       V_seq [V_int i, k] \<Rightarrow> bindE (plain_error (public_key_of c k)) (\<lambda>k. Inr (Register_key_request (ucast i) k))
     | _ \<Rightarrow> Inl ill_typed)"

definition find_request_of :: "(32 word \<Rightarrow> octets \<Rightarrow> key_message) \<Rightarrow> val \<Rightarrow> ser_error + key_message" where
  "find_request_of f v = (case v of
       V_seq [V_int i, kid] \<Rightarrow> bindE (plain_error (id_of kid)) (\<lambda>kid. Inr (f (ucast i) kid))
     | _ \<Rightarrow> Inl ill_typed)"

definition register_response_of :: "val \<Rightarrow> ser_error + key_message" where
  "register_response_of v = (case v of
       V_seq [V_int i, e] \<Rightarrow> bindE (net_error_of e) (\<lambda>e. Inr (Register_key_response (ucast i) e))
     | _ \<Rightarrow> Inl ill_typed)"

definition find_response_of :: "(32 word \<Rightarrow> 'a option \<Rightarrow> net_error \<Rightarrow> key_message) \<Rightarrow> (val \<Rightarrow> crypto_error + 'a) \<Rightarrow> val \<Rightarrow> ser_error + key_message" where
  "find_response_of f g v = (case v of
       V_seq [V_int i, x, e] \<Rightarrow> bindE (optional_of g x) (\<lambda>x. bindE (net_error_of e) (\<lambda>e. Inr (f (ucast i) x e)))
     | _ \<Rightarrow> Inl ill_typed)"

definition key_message_of :: "crypto \<Rightarrow> string \<times> val \<Rightarrow> ser_error + key_message" where
  "key_message_of c = (\<lambda>(name, v).
     if name = ''register_key_request'' then register_request_of c v
     else if name = ''find_key_request'' then find_request_of Find_key_request v
     else if name = ''find_certificate_request'' then find_request_of Find_certificate_request v
     else if name = ''register_key_response'' then register_response_of v
     else if name = ''find_key_response'' then find_response_of Find_key_response (public_key_of c) v
     else find_response_of Find_certificate_response certificate_of v)"

definition write_key_message :: "key_message \<Rightarrow> ser_error + octets" where
  "write_key_message p = asn_der_serialise_choice key_types (tt_name (key_entry p)) (key_val p)"

section \<open>Errors on the wire\<close>

text \<open>\<^verbatim>\<open>crypto/error.cpp\<close> and \<^verbatim>\<open>util/error.cpp\<close>: value, message and category of an error condition.\<close>

definition crypto_errc_list :: "crypto_errc list" where
  "crypto_errc_list = [No_such_root_key, No_such_key, Invalid_certificate_chain, Invalid_certificate_chain_ca_level,
     Invalid_crypto_data, Invalid_operation, Invalid_public_key, Invalid_certificate, Signature_not_authentic]"

definition crypto_errors :: "string list" where
  "crypto_errors = [''no such root key'', ''no such key'', ''invalid certificate chain'', ''invalid certificate chain CA level'',
     ''invalid data'', ''invalid operation'', ''invalid public key'', ''invalid certificate'', ''signature not authentic'']"

definition util_errc_list :: "util_errc list" where
  "util_errc_list = [Unknown_error, Exception_occurred, Not_implemented, Not_supported, Invalid_data, No_such_data, Timeout,
     util_errc.Invalid_state, Constraint_violation, Invalid_argument]"

definition util_errors :: "string list" where
  "util_errors = [''unknown error'', ''exception occurred'', ''not implemented'', ''not supported'', ''invalid data'', ''no such data exists'',
     ''operation timed out'', ''invalid state'', ''constraint violation'', ''invalid argument'']"

definition index_of :: "'a \<Rightarrow> 'a list \<Rightarrow> nat" where
  "index_of x xs = length (takeWhile (\<lambda>y. y \<noteq> x) xs)"

definition crypto_net_error :: "crypto_errc \<Rightarrow> octets \<Rightarrow> net_error" where
  "crypto_net_error e aux = (let n = index_of e crypto_errc_list in
     \<lparr>ne_code = of_nat (n + 1), ne_message = octets_of (crypto_errors ! n), ne_category = octets_of ''securepath crypto error'', ne_aux = aux\<rparr>)"

definition util_net_error :: "util_errc \<Rightarrow> octets \<Rightarrow> net_error" where
  "util_net_error e aux = (let n = index_of e util_errc_list in
     \<lparr>ne_code = of_nat (n + 1), ne_message = octets_of (util_errors ! n), ne_category = octets_of ''securepath error'', ne_aux = aux\<rparr>)"

text \<open>Only a \<^verbatim>\<open>securepath::error\<close> has a condition; the other exceptions of the stores have a text.\<close>

definition error_object :: "store_error \<Rightarrow> octets \<Rightarrow> net_error option" where
  "error_object e aux = (case e of
       Store_crypto (Crypto_errc e) \<Rightarrow> Some (crypto_net_error e aux)
     | Store_crypto (Util_errc e) \<Rightarrow> Some (util_net_error e aux)
     | _ \<Rightarrow> None)"

section \<open>The store\<close>

record ('k, 'c) key_store =
  ks_keys :: 'k
  ks_certs :: 'c

type_synonym 'k key_ops = "(octets, public_key, public_key, 'k) store_ops"

definition without_text :: "('s, store_error, 'a) action \<Rightarrow> ('s, store_error \<times> octets, 'a) action" where
  "without_text f s = (case f s of (Inl e, s') \<Rightarrow> (Inl (e, []), s') | (Inr x, s') \<Rightarrow> (Inr x, s'))"

text \<open>\<^verbatim>\<open>key_store::register_key\<close> looks the key up and then inserts it, in two calls of the store with nothing that holds others off in
  between.\<close>

definition register_check :: "crypto \<Rightarrow> 'k key_ops \<Rightarrow> public_key \<Rightarrow> ('k, store_error \<times> octets, unit) action" where
  "register_check c K key = (case pk_verify_me c key of
       Inl e \<Rightarrow> throwA (Store_crypto e, [])
     | Inr False \<Rightarrow> throwA (Store_crypto (Crypto_errc Invalid_public_key), octets_of ''public key is not self-authentic'')
     | Inr True \<Rightarrow> bindA (without_text (so_find K (key_id key))) (\<lambda>r.
         if r \<noteq> None then throwA (Store_crypto (Crypto_errc Invalid_public_key), octets_of ''public key already registered'')
         else returnA ()))"

definition register_store :: "'k key_ops \<Rightarrow> public_key \<Rightarrow> ('k, store_error \<times> octets, unit) action" where
  "register_store K key = without_text (so_insert K key)"

section \<open>A connection\<close>

text \<open>What a request is answered with; None is an exception that leaves the handler, or a message that is not a request, and closes
  the connection. \<open>what\<close> is the text of an exception.\<close>

definition register_response :: "(store_error \<Rightarrow> octets) \<Rightarrow> 32 word \<Rightarrow> (store_error \<times> octets) + unit \<Rightarrow> key_message" where
  "register_response what i r = Register_key_response i (case r of
       Inr _ \<Rightarrow> no_net_error
     | Inl (e, aux) \<Rightarrow> (case error_object e aux of Some n \<Rightarrow> n | None \<Rightarrow> util_net_error Unknown_error (what e)))"

definition answer_find_key :: "'k key_ops \<Rightarrow> 32 word \<Rightarrow> octets \<Rightarrow> ('k, 'c) key_store \<Rightarrow> key_message option \<times> ('k, 'c) key_store" where
  "answer_find_key K i kid s = (case so_find K kid (ks_keys s) of
       (Inr r, k') \<Rightarrow> (Some (Find_key_response i r no_net_error), s\<lparr>ks_keys := k'\<rparr>)
     | (Inl e, k') \<Rightarrow> (map_option (Find_key_response i None) (error_object e []), s\<lparr>ks_keys := k'\<rparr>))"

definition answer_find_certificate :: "'c cert_ops \<Rightarrow> 32 word \<Rightarrow> octets \<Rightarrow> ('k, 'c) key_store \<Rightarrow> key_message option \<times> ('k, 'c) key_store" where
  "answer_find_certificate C i cid s = (case so_find C cid (ks_certs s) of
       (Inr r, c') \<Rightarrow> (Some (Find_certificate_response i r no_net_error), s\<lparr>ks_certs := c'\<rparr>)
     | (Inl e, c') \<Rightarrow> (map_option (Find_certificate_response i None) (error_object e []), s\<lparr>ks_certs := c'\<rparr>))"

definition answer :: "'k key_ops \<Rightarrow> 'c cert_ops \<Rightarrow> key_message \<Rightarrow> ('k, 'c) key_store \<Rightarrow> key_message option \<times> ('k, 'c) key_store" where
  "answer K C m s = (case m of
       Find_key_request i kid \<Rightarrow> answer_find_key K i kid s
     | Find_certificate_request i cid \<Rightarrow> answer_find_certificate C i cid s
     | _ \<Rightarrow> (None, s))"

record key_connection =
  kn_closed :: bool
  kn_sent :: "key_message list"

text \<open>The server with its connections, numbered; a registration that has found no key waits to insert its own.\<close>

record ('k, 'c) key_server =
  sv_store :: "('k, 'c) key_store"
  sv_conns :: "nat \<Rightarrow> key_connection"
  sv_registering :: "nat \<rightharpoonup> 32 word \<times> public_key"

definition respond :: "nat \<Rightarrow> key_message option \<Rightarrow> ('k, 'c) key_server \<Rightarrow> ('k, 'c) key_server" where
  "respond n r sv = (let cn = sv_conns sv n in sv\<lparr>sv_conns := (sv_conns sv)(n :=
     (case r of
        None \<Rightarrow> cn\<lparr>kn_closed := True\<rparr>
      | Some resp \<Rightarrow> (case write_key_message resp of
           Inl _ \<Rightarrow> cn\<lparr>kn_closed := True\<rparr>
         | Inr _ \<Rightarrow> cn\<lparr>kn_sent := kn_sent cn @ [resp]\<rparr>)))\<rparr>)"

text \<open>A thread takes a message of a connection up, goes on with a registration, or a connection is lost. The handlers of one connection
  do not overlap.\<close>

datatype server_event = Handle nat key_message | Resume nat | Lost nat

definition handle_message :: "crypto \<Rightarrow> (store_error \<Rightarrow> octets) \<Rightarrow> 'k key_ops \<Rightarrow> 'c cert_ops \<Rightarrow> nat \<Rightarrow> key_message \<Rightarrow> ('k, 'c) key_server \<Rightarrow> ('k, 'c) key_server" where
  "handle_message c what K C n m sv = (let s = sv_store sv in case m of
       Register_key_request i key \<Rightarrow> (case register_check c K key (ks_keys s) of
           (Inl e, k') \<Rightarrow> respond n (Some (register_response what i (Inl e))) (sv\<lparr>sv_store := s\<lparr>ks_keys := k'\<rparr>\<rparr>)
         | (Inr _, k') \<Rightarrow> sv\<lparr>sv_store := s\<lparr>ks_keys := k'\<rparr>, sv_registering := (sv_registering sv)(n \<mapsto> (i, key))\<rparr>)
     | _ \<Rightarrow> (case answer K C m s of (r, s') \<Rightarrow> respond n r (sv\<lparr>sv_store := s'\<rparr>)))"

definition finish_register :: "(store_error \<Rightarrow> octets) \<Rightarrow> 'k key_ops \<Rightarrow> nat \<Rightarrow> 32 word \<Rightarrow> public_key \<Rightarrow> ('k, 'c) key_server \<Rightarrow> ('k, 'c) key_server" where
  "finish_register what K n i key sv = (case register_store K key (ks_keys (sv_store sv)) of
       (r, k') \<Rightarrow> respond n (Some (register_response what i r))
         (sv\<lparr>sv_store := (sv_store sv)\<lparr>ks_keys := k'\<rparr>, sv_registering := (sv_registering sv)(n := None)\<rparr>))"

definition server_do :: "crypto \<Rightarrow> (store_error \<Rightarrow> octets) \<Rightarrow> 'k key_ops \<Rightarrow> 'c cert_ops \<Rightarrow> server_event \<Rightarrow> ('k, 'c) key_server \<Rightarrow> ('k, 'c) key_server" where
  "server_do c what K C ev sv = (case ev of
       Handle n m \<Rightarrow> if kn_closed (sv_conns sv n) \<or> sv_registering sv n \<noteq> None then sv else handle_message c what K C n m sv
     | Resume n \<Rightarrow> (case sv_registering sv n of None \<Rightarrow> sv | Some (i, key) \<Rightarrow> finish_register what K n i key sv)
     | Lost n \<Rightarrow> sv\<lparr>sv_conns := (sv_conns sv)(n := (sv_conns sv n)\<lparr>kn_closed := True\<rparr>)\<rparr>)"

definition server_run :: "crypto \<Rightarrow> (store_error \<Rightarrow> octets) \<Rightarrow> 'k key_ops \<Rightarrow> 'c cert_ops \<Rightarrow> server_event list \<Rightarrow> ('k, 'c) key_server \<Rightarrow> ('k, 'c) key_server" where
  "server_run c what K C = fold (server_do c what K C)"

section \<open>Messages arrive\<close>

definition key_message_ok :: "crypto \<Rightarrow> key_message \<Rightarrow> bool" where
  "key_message_ok c m \<longleftrightarrow> val_ok (tt_type (key_entry m)) (key_val m) \<and>
     (case m of Register_key_request _ k \<Rightarrow> key_wf c k | Find_key_response _ (Some k) _ \<Rightarrow> key_wf c k | _ \<Rightarrow> True)"

lemma request_id: "ucast (ucast i :: 64 word) = (i :: 32 word)"
  by (rule bit_word_eqI) (simp add: bit_ucast_iff)

interpretation key_protocol: message_protocol key_types key_entry key_val "key_message_of c" "key_message_ok c" for c
proof
  fix m
  show "key_entry m \<in> set key_types" by (cases m) (simp_all add: key_types_def)
  show "distinct (map tt_name key_types)" "distinct (map tt_tag key_types)" by (simp_all add: key_types_def)
  show "taggable (tt_type (key_entry m))" "ty_ok (tt_type (key_entry m))" "depth (tt_type (key_entry m)) \<le> max_structure_depth"
    by (cases m; simp add: key_types_def net_error_ty_def public_key_ty_def certificate_ty_def revocation_ty_def signature_ty_def max_structure_depth_def)+
  show "val_ok (tt_type (key_entry m)) (key_val m)" if "key_message_ok c m" using that by (simp add: key_message_ok_def)
  show "key_message_of c (tt_name (key_entry m), key_val m) = Inr m" if "key_message_ok c m"
    using that by (cases m)
      (auto simp: key_message_ok_def key_message_of_def key_types_def register_request_of_def find_request_of_def register_response_of_def
        find_response_of_def optional_of_def plain_error_def public_key_of_val request_id split: option.splits)
qed

lemma write_key_message_eq: "key_message_ok c m \<Longrightarrow> write_key_message m = Inr (key_protocol.encoding m)"
  unfolding write_key_message_def by (rule key_protocol.encoding_written)

section \<open>What the server keeps\<close>

text \<open>The registrations under way have verified their keys; the keys are ones the store can write.\<close>

definition registering_ok :: "crypto \<Rightarrow> (public_key \<Rightarrow> bool) \<Rightarrow> ('k, 'c) key_server \<Rightarrow> bool" where
  "registering_ok c storable sv \<longleftrightarrow> (\<forall>n i k. sv_registering sv n = Some (i, k) \<longrightarrow> pk_verify_me c k = Inr True \<and> storable k)"

definition event_ok :: "(public_key \<Rightarrow> bool) \<Rightarrow> server_event \<Rightarrow> bool" where
  "event_ok storable ev = (case ev of Handle _ (Register_key_request _ k) \<Rightarrow> storable k | _ \<Rightarrow> True)"

lemma respond_keeps [simp]: "sv_store (respond n r sv) = sv_store sv" "sv_registering (respond n r sv) = sv_registering sv"
  by (simp_all add: respond_def Let_def)

locale key_holder = keyed_store K view good storable key_id "\<lambda>k. k" "\<lambda>_. key_id"
  for K :: "'k key_ops" and view :: "'k \<Rightarrow> octets \<Rightarrow> public_key option" and good storable
begin

abbreviation keys :: "('k, 'c) key_server \<Rightarrow> octets \<Rightarrow> public_key option" where
  "keys sv \<equiv> view (ks_keys (sv_store sv))"

lemma register_check_view:
  assumes "good s" "register_check c K key s = (r, s')"
  shows "good s'" "view s' = view s" "r = Inr () \<Longrightarrow> pk_verify_me c key = Inr True \<and> view s (key_id key) = None"
proof -
  obtain s1 where s1: "so_find K (key_id key) s = (Inr (view s (key_id key)), s1)" "good s1" "view s1 = view s"
    using find_view [OF assms(1)] by blast
  show "good s'" "view s' = view s" "r = Inr () \<Longrightarrow> pk_verify_me c key = Inr True \<and> view s (key_id key) = None"
    using assms s1
    by (auto simp: register_check_def throwA_def bindA_def returnA_def without_text_def split: sum.splits bool.splits prod.splits if_splits)
qed

lemma register_store_view:
  assumes "good s" "storable key" "register_store K key s = (r, s')"
  shows "good s'" "view s' = (view s)(key_id key \<mapsto> key) \<or> r \<noteq> Inr () \<and> view s' = view s"
  using assms insert_cases [OF assms(1,2)] by (auto simp: register_store_def without_text_def split: prod.splits sum.splits)

lemma answer_view:
  assumes "good (ks_keys s)" "answer K C m s = (r, s')"
  shows "good (ks_keys s') \<and> view (ks_keys s') = view (ks_keys s)"
proof (cases m)
  case (Find_key_request i kid)
  then show ?thesis using assms(2) find_view [OF assms(1), of kid] by (auto simp: answer_def answer_find_key_def)
next
  case (Find_certificate_request i cid)
  then show ?thesis using assms by (auto simp: answer_def answer_find_certificate_def split: prod.splits sum.splits)
qed (use assms in \<open>auto simp: answer_def\<close>)

lemma handle_view:
  assumes "good (ks_keys (sv_store sv))" "registering_ok c storable sv" "event_ok storable (Handle n m)"
    "sv' = handle_message c what K C n m sv"
  shows "good (ks_keys (sv_store sv')) \<and> registering_ok c storable sv' \<and> keys sv' = keys sv \<and>
    (\<forall>j i k. sv_registering sv' j = Some (i, k) \<longrightarrow> sv_registering sv j = Some (i, k) \<or>
       j = n \<and> m = Register_key_request i k \<and> keys sv (key_id k) = None)"
proof (cases "\<exists>i key. m = Register_key_request i key")
  case True
  then obtain i key where m: "m = Register_key_request i key" by blast
  obtain r k' where r: "register_check c K key (ks_keys (sv_store sv)) = (r, k')" by fastforce
  note v = register_check_view [OF assms(1) r]
  show ?thesis
  proof (cases r)
    case (Inl e)
    then have "sv_store sv' = (sv_store sv)\<lparr>ks_keys := k'\<rparr>" "sv_registering sv' = sv_registering sv"
      using assms(4) m r by (simp_all add: handle_message_def Let_def)
    then show ?thesis using v(1,2) assms(2) by (simp add: registering_ok_def)
  next
    case (Inr u)
    then have "sv_store sv' = (sv_store sv)\<lparr>ks_keys := k'\<rparr>" "sv_registering sv' = (sv_registering sv)(n \<mapsto> (i, key))"
      using assms(4) m r by (simp_all add: handle_message_def Let_def)
    then show ?thesis using v Inr assms(2,3) m by (auto simp: registering_ok_def event_ok_def)
  qed
next
  case False
  obtain r s' where r: "answer K C m (sv_store sv) = (r, s')" by fastforce
  then have "sv_store sv' = s'" "sv_registering sv' = sv_registering sv"
    using assms(4) False by (cases m; simp add: handle_message_def Let_def)+
  then show ?thesis using answer_view [OF assms(1) r] assms(2) by (simp add: registering_ok_def)
qed

lemma finish_view:
  assumes "good (ks_keys (sv_store sv))" "registering_ok c storable sv" "sv_registering sv n = Some (i, key)"
    "sv' = finish_register what K n i key sv"
  shows "good (ks_keys (sv_store sv')) \<and> registering_ok c storable sv' \<and> sv_registering sv' = (sv_registering sv)(n := None) \<and>
    (keys sv' = keys sv \<or> keys sv' = (keys sv)(key_id key \<mapsto> key))"
proof -
  obtain r k' where r: "register_store K key (ks_keys (sv_store sv)) = (r, k')" by fastforce
  have "storable key" using assms(2,3) by (auto simp: registering_ok_def)
  note v = register_store_view [OF assms(1) this r]
  have "sv_store sv' = (sv_store sv)\<lparr>ks_keys := k'\<rparr>" "sv_registering sv' = (sv_registering sv)(n := None)"
    using assms(4) r by (simp_all add: finish_register_def)
  then show ?thesis using v assms(2) by (auto simp: registering_ok_def)
qed

text \<open>One step: a key is added or replaced only by a registration that was under way, and a new registration is of an identifier
  that has no key.\<close>

lemma server_do_view:
  assumes "good (ks_keys (sv_store sv))" "registering_ok c storable sv" "event_ok storable ev" "sv' = server_do c what K C ev sv"
  shows "good (ks_keys (sv_store sv'))" "registering_ok c storable sv'"
    "keys sv' = keys sv \<or> (\<exists>n i k. sv_registering sv n = Some (i, k) \<and> keys sv' = (keys sv)(key_id k \<mapsto> k))"
    "sv_registering sv' j = Some (i, k) \<Longrightarrow> sv_registering sv j = Some (i, k) \<or> ev = Handle j (Register_key_request i k) \<and> keys sv (key_id k) = None"
proof -
  have "good (ks_keys (sv_store sv')) \<and> registering_ok c storable sv' \<and>
    (keys sv' = keys sv \<or> (\<exists>n i k. sv_registering sv n = Some (i, k) \<and> keys sv' = (keys sv)(key_id k \<mapsto> k))) \<and>
    (\<forall>j i k. sv_registering sv' j = Some (i, k) \<longrightarrow> sv_registering sv j = Some (i, k) \<or>
       ev = Handle j (Register_key_request i k) \<and> keys sv (key_id k) = None)"
  proof (cases ev)
    case (Handle n m)
    note v = handle_view [OF assms(1,2) assms(3) [unfolded Handle] refl, of what C]
    show ?thesis
    proof (cases "kn_closed (sv_conns sv n) \<or> sv_registering sv n \<noteq> None")
      case False
      then have "sv' = handle_message c what K C n m sv" using assms(4) Handle by (auto simp: server_do_def)
      then show ?thesis using v Handle by blast
    qed (use assms Handle in \<open>simp add: server_do_def\<close>)
  next
    case (Resume n)
    show ?thesis
    proof (cases "sv_registering sv n")
      case (Some x)
      obtain i k where x: "x = (i, k)" by fastforce
      then have "sv' = finish_register what K n i k sv" using Some assms(4) Resume by (simp add: server_do_def)
      from finish_view [OF assms(1,2) Some [unfolded x] this] show ?thesis using Some x by (auto split: if_splits)
    qed (use assms Resume in \<open>simp add: server_do_def\<close>)
  next
    case (Lost n)
    then show ?thesis using assms by (simp add: server_do_def registering_ok_def)
  qed
  then show "good (ks_keys (sv_store sv'))" "registering_ok c storable sv'"
    "keys sv' = keys sv \<or> (\<exists>n i k. sv_registering sv n = Some (i, k) \<and> keys sv' = (keys sv)(key_id k \<mapsto> k))"
    "sv_registering sv' j = Some (i, k) \<Longrightarrow> sv_registering sv j = Some (i, k) \<or> ev = Handle j (Register_key_request i k) \<and> keys sv (key_id k) = None"
    by blast+
qed

text \<open>No registration of the identifier is under way.\<close>

abbreviation quiet_id :: "('k, 'c) key_server \<Rightarrow> octets \<Rightarrow> bool" where
  "quiet_id sv kid \<equiv> \<forall>n i k. sv_registering sv n = Some (i, k) \<longrightarrow> key_id k \<noteq> kid"

lemma server_do_settled:
  assumes "good (ks_keys (sv_store sv))" "registering_ok c storable sv" "event_ok storable ev" "keys sv kid = Some k" "quiet_id sv kid"
  shows "keys (server_do c what K C ev sv) kid = Some k" "quiet_id (server_do c what K C ev sv) kid"
proof -
  note v = server_do_view [OF assms(1-3) refl, of what C]
  from v(3) show "keys (server_do c what K C ev sv) kid = Some k"
  proof
    assume "\<exists>n i k. sv_registering sv n = Some (i, k) \<and> keys (server_do c what K C ev sv) = (keys sv)(key_id k \<mapsto> k)"
    then obtain n i k' where k': "sv_registering sv n = Some (i, k')" "keys (server_do c what K C ev sv) = (keys sv)(key_id k' \<mapsto> k')" by blast
    have "key_id k' \<noteq> kid" using assms(5) k'(1) by blast
    then show ?thesis using k'(2) assms(4) by simp
  qed (use assms(4) in simp)
  show "quiet_id (server_do c what K C ev sv) kid" using v(4) assms(4,5) by fastforce
qed

lemma server_run_view:
  assumes "good (ks_keys (sv_store sv))" "registering_ok c storable sv" "list_all (event_ok storable) evs"
  shows "good (ks_keys (sv_store (server_run c what K C evs sv)))" "registering_ok c storable (server_run c what K C evs sv)"
  using assms
  by (induction evs arbitrary: sv) (simp_all add: server_run_def server_do_view(1,2) [OF _ _ _ refl])

lemma server_run_settled:
  assumes "good (ks_keys (sv_store sv))" "registering_ok c storable sv" "list_all (event_ok storable) evs" "keys sv kid = Some k" "quiet_id sv kid"
  shows "keys (server_run c what K C evs sv) kid = Some k"
  using assms
proof (induction evs arbitrary: sv)
  case (Cons ev evs)
  have ev: "event_ok storable ev" using Cons.prems(3) by simp
  have "keys (server_run c what K C evs (server_do c what K C ev sv)) kid = Some k"
    by (rule Cons.IH)
      (use server_do_view(1,2) [OF Cons.prems(1,2) ev refl] server_do_settled [OF Cons.prems(1,2) ev Cons.prems(4,5)] Cons.prems(3) in simp_all)
  then show ?case by (simp add: server_run_def)
qed (simp add: server_run_def)

lemma server_run_keeps:
  assumes "good (ks_keys (sv_store sv))" "registering_ok c storable sv" "list_all (event_ok storable) evs" "keys sv kid \<noteq> None"
  shows "keys (server_run c what K C evs sv) kid \<noteq> None"
  using assms
proof (induction evs arbitrary: sv)
  case (Cons ev evs)
  have ev: "event_ok storable ev" using Cons.prems(3) by simp
  note v = server_do_view [OF Cons.prems(1,2) ev refl, of what C]
  have "keys (server_run c what K C evs (server_do c what K C ev sv)) kid \<noteq> None"
    by (rule Cons.IH) (use v(1,2) Cons.prems(3) in simp_all, use v(3) Cons.prems(4) in auto)
  then show ?case by (simp add: server_run_def)
qed (simp add: server_run_def)

lemma server_run_authentic:
  assumes "good (ks_keys (sv_store sv))" "registering_ok c storable sv" "list_all (event_ok storable) evs"
    "keys (server_run c what K C evs sv) kid = Some k"
  shows "keys sv kid = Some k \<or> pk_verify_me c k = Inr True \<and> key_id k = kid \<and>
    ((\<exists>n i. sv_registering sv n = Some (i, k)) \<or> (\<exists>n i. Handle n (Register_key_request i k) \<in> set evs))"
  using assms
proof (induction evs arbitrary: sv)
  case (Cons ev evs)
  have ev: "event_ok storable ev" using Cons.prems(3) by simp
  note v = server_do_view [OF Cons.prems(1,2) ev refl, of what C]
  let ?sv = "server_do c what K C ev sv"
  have "keys ?sv kid = Some k \<or> pk_verify_me c k = Inr True \<and> key_id k = kid \<and>
      ((\<exists>n i. sv_registering ?sv n = Some (i, k)) \<or> (\<exists>n i. Handle n (Register_key_request i k) \<in> set evs))"
    by (rule Cons.IH) (use v(1,2) Cons.prems(3,4) in \<open>simp_all add: server_run_def\<close>)
  moreover have "keys sv kid = Some k \<or> pk_verify_me c k = Inr True \<and> key_id k = kid \<and> (\<exists>n i. sv_registering sv n = Some (i, k))"
    if "keys ?sv kid = Some k"
    using v(3)
  proof
    assume "\<exists>n i k. sv_registering sv n = Some (i, k) \<and> keys ?sv = (keys sv)(key_id k \<mapsto> k)"
    then obtain n i k' where k': "sv_registering sv n = Some (i, k')" "keys ?sv = (keys sv)(key_id k' \<mapsto> k')" by blast
    then show ?thesis using that Cons.prems(2) unfolding registering_ok_def by (cases "key_id k' = kid") (simp, blast, simp)
  qed (use that in simp)
  ultimately show ?case using v(4) by fastforce
qed (simp add: server_run_def)

lemma check_passes:
  assumes "good s" "pk_verify_me c k = Inr True" "view s (key_id k) = None"
  shows "\<exists>s1. register_check c K k s = (Inr (), s1) \<and> good s1 \<and> view s1 = view s"
  using find_view [OF assms(1), of "key_id k"] assms(2,3) by (auto simp: register_check_def bindA_def without_text_def returnA_def)

lemma store_works:
  assumes "good s" "storable k" "fst (so_insert K k s) = Inr ()"
  shows "\<exists>s1. register_store K k s = (Inr (), s1) \<and> good s1 \<and> view s1 = (view s)(key_id k \<mapsto> k)"
  using insert_cases [OF assms(1,2)] assms(3) by (cases "so_insert K k s") (auto simp: register_store_def without_text_def)

lemma find_answer:
  assumes "good (ks_keys s)"
  shows "fst (answer K C (Find_key_request i kid) s) = Some (Find_key_response i (view (ks_keys s) kid) no_net_error)"
  using find_view [OF assms, of kid] by (auto simp: answer_def answer_find_key_def)

end

lemma index_of_small: "index_of x xs \<le> length xs"
  by (simp add: index_of_def length_takeWhile_le)

lemma error_code_set: "ne_code (crypto_net_error e aux) \<noteq> 0" "ne_code (util_net_error e' aux) \<noteq> 0"
proof -
  have "of_nat (n + 1) \<noteq> (0 :: 64 word)" if "n \<le> 10" for n :: nat
  proof
    assume "of_nat (n + 1) = (0 :: 64 word)"
    then have "unat (of_nat (n + 1) :: 64 word) = 0" by (simp only: unat_0)
    then show False using that by (simp only: unat_of_nat) simp
  qed
  then show "ne_code (crypto_net_error e aux) \<noteq> 0" "ne_code (util_net_error e' aux) \<noteq> 0"
    using index_of_small [of e crypto_errc_list] index_of_small [of e' util_errc_list]
    by (simp_all add: crypto_net_error_def util_net_error_def Let_def crypto_errc_list_def util_errc_list_def)
qed

lemma error_object_code: "error_object e aux = Some n \<Longrightarrow> ne_code n \<noteq> 0"
  using error_code_set by (auto simp: error_object_def split: store_error.splits crypto_error.splits)

section \<open>Properties\<close>

text \<open>C30: The key server keeps a key for every identifier it has one for, and takes only authentic ones: whatever its threads do, on
  however many connections, a key it has is never removed; it is not replaced either, unless another registration of the same
  identifier was already under way; and a key it has taken since verifies itself, is found under its own identifier only, and was sent
  in a registration.\<close>

theorem server_keys_authentic_and_final:
  assumes "keyed_store K view good storable key_id (\<lambda>k. k) (\<lambda>_. key_id)" "good (ks_keys (sv_store sv))" "registering_ok c storable sv"
    "list_all (event_ok storable) evs" "sv' = server_run c what K C evs sv"
  shows "(\<forall>kid. view (ks_keys (sv_store sv)) kid \<noteq> None \<longrightarrow> view (ks_keys (sv_store sv')) kid \<noteq> None) \<and>
    (\<forall>kid k. view (ks_keys (sv_store sv)) kid = Some k \<longrightarrow> (\<forall>n i k'. sv_registering sv n = Some (i, k') \<longrightarrow> key_id k' \<noteq> kid) \<longrightarrow>
       view (ks_keys (sv_store sv')) kid = Some k) \<and>
    (\<forall>kid k. view (ks_keys (sv_store sv')) kid = Some k \<longrightarrow> view (ks_keys (sv_store sv)) kid = Some k \<or>
       pk_verify_me c k = Inr True \<and> key_id k = kid \<and>
       ((\<exists>n i. sv_registering sv n = Some (i, k)) \<or> (\<exists>n i. Handle n (Register_key_request i k) \<in> set evs)))"
proof -
  note h = key_holder.intro [OF assms(1)]
  show ?thesis unfolding assms(5)
    using key_holder.server_run_keeps [OF h assms(2-4)] key_holder.server_run_settled [OF h assms(2-4)]
      key_holder.server_run_authentic [OF h assms(2-4)] by (intro conjI allI impI) blast+
qed

lemma response_written: "\<exists>b. write_key_message (Register_key_response i no_net_error) = Inr b"
proof -
  have "unat i < 2 ^ 32" using unsigned_less [of i, where ?'a = nat] by simp
  then have "unat (ucast i :: 64 word) < 2 ^ 32" by (simp add: unsigned_ucast_eq take_bit_nat_eq_self)
  then have "key_message_ok demo_crypto (Register_key_response i no_net_error)" unfolding key_message_ok_def
    by (simp, intro val_ok_bound)
      (simp_all add: key_types_def net_error_ty_def net_error_val_def no_net_error_def max_structure_size_def max_constructed_size_def)
  then show ?thesis using write_key_message_eq by blast
qed

text \<open>C31: Two registrations of one identifier that overlap both succeed, and the second key replaces the first: each has found no key
  before the other inserts. The client whose registration was answered first is told that its key is registered, and the server
  then has the other key, for instance one with other certificates, which the identifier does not cover.\<close>

theorem registration_race_replaces_key:
  assumes "keyed_store K view good storable key_id (\<lambda>k. k) (\<lambda>_. key_id)" "\<forall>s k. good s \<longrightarrow> storable k \<longrightarrow> fst (so_insert K k s) = Inr ()"
    "good (ks_keys (sv_store sv))" "storable k1" "storable k2" "pk_verify_me c k1 = Inr True" "pk_verify_me c k2 = Inr True"
    "key_id k2 = key_id k1" "view (ks_keys (sv_store sv)) (key_id k1) = None" "n1 \<noteq> n2"
    "\<not> kn_closed (sv_conns sv n1)" "\<not> kn_closed (sv_conns sv n2)" "sv_registering sv n1 = None" "sv_registering sv n2 = None"
    "sv1 = server_run c what K C [Handle n1 (Register_key_request i1 k1), Handle n2 (Register_key_request i2 k2), Resume n1] sv"
    "sv2 = server_run c what K C [Resume n2] sv1"
  shows "view (ks_keys (sv_store sv1)) (key_id k1) = Some k1 \<and> last (kn_sent (sv_conns sv1 n1)) = Register_key_response i1 no_net_error \<and>
    view (ks_keys (sv_store sv2)) (key_id k1) = Some k2 \<and> last (kn_sent (sv_conns sv2 n2)) = Register_key_response i2 no_net_error"
proof -
  note h = key_holder.intro [OF assms(1)]
  let ?s = "ks_keys (sv_store sv)"
  obtain s1 where s1: "register_check c K k1 ?s = (Inr (), s1)" "good s1" "view s1 = view ?s"
    using key_holder.check_passes [OF h assms(3,6,9)] by blast
  then obtain s2 where s2: "register_check c K k2 s1 = (Inr (), s2)" "good s2" "view s2 = view ?s"
    using key_holder.check_passes [OF h s1(2) assms(7)] assms(8,9) by auto
  obtain s3 where s3: "register_store K k1 s2 = (Inr (), s3)" "good s3" "view s3 = (view ?s)(key_id k1 \<mapsto> k1)"
    using key_holder.store_works [OF h s2(2) assms(4)] assms(2,4) s2 by auto
  obtain s4 where s4: "register_store K k2 s3 = (Inr (), s4)" "view s4 = (view s3)(key_id k1 \<mapsto> k2)"
    using key_holder.store_works [OF h s3(2) assms(5)] assms(2,5,8) s3(2) by auto
  obtain b1 b2 where w: "write_key_message (Register_key_response i1 no_net_error) = Inr b1" "write_key_message (Register_key_response i2 no_net_error) = Inr b2"
    using response_written by blast
  have sv1: "sv1 = respond n1 (Some (Register_key_response i1 no_net_error))
      (sv\<lparr>sv_store := (sv_store sv)\<lparr>ks_keys := s3\<rparr>, sv_registering := (sv_registering sv)(n2 \<mapsto> (i2, k2))\<rparr>)"
    using s1(1) s2(1) s3(1) assms(10-14)
    by (simp add: assms(15) server_run_def server_do_def handle_message_def finish_register_def register_response_def Let_def fun_upd_twist [OF assms(10)] fun_upd_idem)
  have sv2: "sv2 = respond n2 (Some (Register_key_response i2 no_net_error))
      (sv1\<lparr>sv_store := (sv_store sv)\<lparr>ks_keys := s4\<rparr>, sv_registering := (sv_registering sv)(n2 := None)\<rparr>)"
    using s4(1) by (simp add: assms(16) sv1 server_run_def server_do_def finish_register_def register_response_def)
  have "kn_sent (sv_conns sv1 n1) = kn_sent (sv_conns sv n1) @ [Register_key_response i1 no_net_error]"
    by (simp add: sv1 respond_def w Let_def)
  moreover have "last (kn_sent (sv_conns sv2 n2)) = Register_key_response i2 no_net_error" by (simp add: sv2 respond_def w Let_def)
  moreover have "view (ks_keys (sv_store sv1)) (key_id k1) = Some k1" "view (ks_keys (sv_store sv2)) (key_id k1) = Some k2"
    using s3(3) s4(2) by (simp_all add: sv1 sv2)
  ultimately show ?thesis by simp
qed

interpretation kh: key_holder "public_key_cache (public_key_database c text_list)" "cache_view (key_db_view c map_of)"
  "cache_good (key_db_good c map_of) (\<lambda>_. key_id)" "key_storable c" for c
  by unfold_locales


section \<open>An example\<close>

lemma demo_signed_storable: "key_storable demo_crypto (demo_key i cids)" if "cids = [] \<or> cids = [[1]]"
proof -
  have "key_wf demo_crypto (demo_key i cids)"
    using demo_key_verifies [of i cids] that by (auto simp: pk_verify_me_def key_wf_def simp del: demo_key_verifies)
  moreover have "val_ok public_key_ty (public_key_val (demo_key i cids))"
    by (rule val_ok_bound) (use that in \<open>auto simp: demo_key_def public_key_ty_def public_key_val_def signature_ty_def signature_val_def
        suite_value_def max_structure_size_def max_constructed_size_def\<close>)
  ultimately show ?thesis by (simp add: key_storable_def)
qed

lemma demo_insert_works:
  assumes "key_storable demo_crypto k"
  shows "fst (so_insert (public_key_cache (public_key_database demo_crypto text_list)) k s) = Inr ()"
proof -
  obtain b where b: "write_der public_key_ty (public_key_val k) = Inr b" using key_stored [OF assms] by blast
  have "fst (each_backend (so_insert (public_key_database demo_crypto text_list) k) bs) = Inr ()" for bs
    by (induction bs) (use b in \<open>auto simp: public_key_database_def key_db_insert_def bindA_def lift_crypto_def returnA_def db_replace_def text_list_def split: prod.splits sum.splits\<close>)
  then show ?thesis by (simp add: public_key_cache_def cache_insert_def on_backends_def split: prod.splits) (metis fst_conv)
qed

definition demo_server :: "((octets, public_key, (octets \<times> octets) list) cache, (octets \<times> octets \<times> octets option \<times> bool) list) key_server" where
  "demo_server = \<lparr>sv_store = \<lparr>ks_keys = \<lparr>ca_map = Map.empty, ca_backends = [[]]\<rparr>, ks_certs = []\<rparr>,
     sv_conns = (\<lambda>_. \<lparr>kn_closed = False, kn_sent = []\<rparr>), sv_registering = Map.empty\<rparr>"

abbreviation (input) demo_run where
  "demo_run \<equiv> server_run demo_crypto (\<lambda>_. []) (public_key_cache (public_key_database demo_crypto text_list)) (certificate_database demo_crypto cert_list)"

abbreviation (input) demo_view where
  "demo_view sv \<equiv> cache_view (key_db_view demo_crypto map_of) (ks_keys (sv_store sv))"

lemma demo_server_good: "cache_good (key_db_good demo_crypto map_of) (\<lambda>_. key_id) (ks_keys (sv_store demo_server))"
  "registering_ok demo_crypto (key_storable demo_crypto) demo_server" "demo_view demo_server kid = None"
  by (simp_all add: demo_server_def cache_good_def key_db_good_def registering_ok_def cache_view_def key_db_view_def)

lemma demo_registered:
  "\<exists>s. demo_run [Handle 0 (Register_key_request 1 (demo_key 7 [])), Resume 0] demo_server =
      respond 0 (Some (Register_key_response 1 no_net_error)) (demo_server\<lparr>sv_store := s\<rparr>) \<and>
    cache_view (key_db_view demo_crypto map_of) (ks_keys s) [7] = Some (demo_key 7 [])"
proof -
  let ?K = "public_key_cache (public_key_database demo_crypto text_list)" and ?s = "ks_keys (sv_store demo_server)"
  have k: "key_storable demo_crypto (demo_key 7 [])" using demo_signed_storable by blast
  obtain s1 where s1: "register_check demo_crypto ?K (demo_key 7 []) ?s = (Inr (), s1)"
    "cache_good (key_db_good demo_crypto map_of) (\<lambda>_. key_id) s1"
    using kh.check_passes [OF demo_server_good(1), of demo_crypto "demo_key 7 []"] demo_server_good(3) by auto
  obtain s2 where s2: "register_store ?K (demo_key 7 []) s1 = (Inr (), s2)"
    "cache_view (key_db_view demo_crypto map_of) s2 [7] = Some (demo_key 7 [])"
    using kh.store_works [OF s1(2) k demo_insert_works [OF k]] by auto
  have sv: "\<not> kn_closed (sv_conns demo_server 0)" "sv_registering demo_server = Map.empty" by (simp_all add: demo_server_def)
  have "demo_run [Handle 0 (Register_key_request 1 (demo_key 7 [])), Resume 0] demo_server =
      respond 0 (Some (Register_key_response 1 no_net_error)) (demo_server\<lparr>sv_store := (sv_store demo_server)\<lparr>ks_keys := s2\<rparr>\<rparr>)"
    using s1(1) s2(1) sv
    by (simp add: server_run_def server_do_def handle_message_def finish_register_def register_response_def Let_def) (simp add: demo_server_def)
  then show ?thesis using s2(2) by (intro exI [of _ "(sv_store demo_server)\<lparr>ks_keys := s2\<rparr>"]) simp
qed

theorem server_keys_authentic_and_final_witness:
  "demo_view (demo_run [Handle 0 (Register_key_request 1 (demo_key 7 [])), Resume 0] demo_server) [8] = None"
proof (rule ccontr)
  let ?evs = "[Handle 0 (Register_key_request 1 (demo_key 7 [])), Resume 0]"
  have ok: "list_all (event_ok (key_storable demo_crypto)) ?evs" using demo_signed_storable [of "[]" 7] by (simp add: event_ok_def)
  assume "demo_view (demo_run ?evs demo_server) [8] \<noteq> None"
  then obtain k where k: "demo_view (demo_run ?evs demo_server) [8] = Some k" by blast
  note all = server_keys_authentic_and_final [OF kc.keyed_store_axioms demo_server_good(1,2) ok refl, of "\<lambda>_. []" "certificate_database demo_crypto cert_list"]
  have "sv_registering demo_server n = None" for n by (simp add: demo_server_def)
  then have "key_id k = [8] \<and> (\<exists>n i. Handle n (Register_key_request i k) \<in> set ?evs)"
    using all [THEN conjunct2, THEN conjunct2, rule_format, OF k] demo_server_good(3) [of "[8]"] by (metis option.distinct(1))
  then show False by (auto simp: demo_key_def)
qed

theorem registration_race_replaces_key_witness:
  "\<exists>sv1 sv2. sv1 = demo_run [Handle 0 (Register_key_request 1 (demo_key 7 [])), Handle 1 (Register_key_request 5 (demo_key 7 [[1]])), Resume 0] demo_server \<and>
     sv2 = demo_run [Resume 1] sv1 \<and> demo_view sv1 [7] = Some (demo_key 7 []) \<and> demo_view sv2 [7] = Some (demo_key 7 [[1]])"
proof -
  have k: "key_storable demo_crypto (demo_key 7 [])" "key_storable demo_crypto (demo_key 7 [[1]])" using demo_signed_storable by blast+
  have w: "\<forall>s k. cache_good (key_db_good demo_crypto map_of) (\<lambda>_. key_id) s \<longrightarrow> key_storable demo_crypto k \<longrightarrow>
      fst (so_insert (public_key_cache (public_key_database demo_crypto text_list)) k s) = Inr ()"
    using demo_insert_works by blast
  from registration_race_replaces_key [where c = demo_crypto and ?n1.0 = 0 and ?n2.0 = 1 and what = "\<lambda>_. []" and
      C = "certificate_database demo_crypto cert_list" and ?i1.0 = 1 and ?i2.0 = 5,
      OF kc.keyed_store_axioms w demo_server_good(1) k _ _ _ _ _ _ _ _ _ refl refl]
  show ?thesis using demo_server_good(3) by (simp add: demo_server_def)
qed

end
