(* ===== verification/Key_Client.thy ===== *)
theory Key_Client
  imports Key_Server Connection "HOL-Library.Multiset"
begin

text \<open>
  The key client, \<^verbatim>\<open>infrastructure/key_client/key_client.cpp\<close>: every call has a future, numbered in the order of the calls, and a
  request identifier; the promises that wait are kept in three maps by identifier, here lists in the order of the keys. The client
  is the owner of a connection: what it hears of it are the callbacks in the log of the model of \<^verbatim>\<open>Connection\<close>.
\<close>

section \<open>State\<close>

datatype call_result =
    Key_registered
  | Found_key "public_key option"
  | Found_certificate "certificate option"
  | Request_failed octets
  | Call_disconnected reported

and reported = Reported_error octets | Closed_by_peer

type_synonym pending_calls = "(32 word \<times> nat) list"

datatype connect_wait = Waiting | Connect_succeeded | Connect_failed reported

datatype key_client_event = Key_connect | Key_disconnect "octets option"

record key_client =
  kl_next_id :: "32 word"
  kl_calls :: nat
  kl_register :: pending_calls
  kl_find_key :: pending_calls
  kl_find_cert :: pending_calls
  kl_results :: "(nat \<times> call_result) list"
  kl_sent :: "key_message list"
  kl_connect :: connect_wait
  kl_events :: "key_client_event list"

definition make_key_client :: key_client where
  "make_key_client = \<lparr>kl_next_id = 0, kl_calls = 0, kl_register = [], kl_find_key = [], kl_find_cert = [], kl_results = [], kl_sent = [],
     kl_connect = Waiting, kl_events = []\<rparr>"

text \<open>\<^verbatim>\<open>emplace\<close> leaves a map alone that has the key; \<^verbatim>\<open>take\<close> removes and returns.\<close>

definition emplace :: "32 word \<Rightarrow> nat \<Rightarrow> pending_calls \<Rightarrow> pending_calls" where
  "emplace i n m = (if i \<in> fst ` set m then m else insort_key fst (i, n) m)"

definition take_call :: "32 word \<Rightarrow> pending_calls \<Rightarrow> nat option \<times> pending_calls" where
  "take_call i m = (map_of m i, filter (\<lambda>x. fst x \<noteq> i) m)"

section \<open>Calls\<close>

text \<open>A request that cannot be serialised throws out of the call; its promise stays in the map.\<close>

definition send_request :: "key_message \<Rightarrow> (key_client, ser_error, unit) action" where
  "send_request r kl = (case write_key_message r of
       Inl e \<Rightarrow> (Inl e, kl)
     | Inr _ \<Rightarrow> (Inr (), kl\<lparr>kl_sent := kl_sent kl @ [r]\<rparr>))"

definition async_register_key :: "public_key \<Rightarrow> (key_client, ser_error, nat) action" where
  "async_register_key key kl = (let n = kl_calls kl; i = kl_next_id kl + 1 in
     bindA (send_request (Register_key_request i key)) (\<lambda>_. returnA n)
       (kl\<lparr>kl_calls := n + 1, kl_next_id := i, kl_register := emplace i n (kl_register kl)\<rparr>))"

definition async_find_key :: "octets \<Rightarrow> (key_client, ser_error, nat) action" where
  "async_find_key kid kl = (let n = kl_calls kl; i = kl_next_id kl + 1 in
     bindA (send_request (Find_key_request i kid)) (\<lambda>_. returnA n)
       (kl\<lparr>kl_calls := n + 1, kl_next_id := i, kl_find_key := emplace i n (kl_find_key kl)\<rparr>))"

definition async_find_certificate :: "octets \<Rightarrow> (key_client, ser_error, nat) action" where
  "async_find_certificate cid kl = (let n = kl_calls kl; i = kl_next_id kl + 1 in
     bindA (send_request (Find_certificate_request i cid)) (\<lambda>_. returnA n)
       (kl\<lparr>kl_calls := n + 1, kl_next_id := i, kl_find_cert := emplace i n (kl_find_cert kl)\<rparr>))"

section \<open>Responses\<close>

text \<open>The message of the error \<^verbatim>\<open>to_error\<close> makes.\<close>

definition failure_text :: "net_error \<Rightarrow> octets" where
  "failure_text e = (if ne_aux e \<noteq> [] then ne_message e @ octets_of '': '' @ ne_aux e else ne_message e)"

definition finish_call :: "nat option \<Rightarrow> net_error \<Rightarrow> call_result \<Rightarrow> key_client \<Rightarrow> key_client" where
  "finish_call w e r kl = (case w of
       None \<Rightarrow> kl
     | Some n \<Rightarrow> kl\<lparr>kl_results := kl_results kl @ [(n, if ne_code e \<noteq> 0 then Request_failed (failure_text e) else r)]\<rparr>)"

definition key_client_receive :: "key_message \<Rightarrow> key_client \<Rightarrow> key_client" where
  "key_client_receive m kl = (case m of
       Register_key_response i e \<Rightarrow> (case take_call i (kl_register kl) of (w, p) \<Rightarrow> finish_call w e Key_registered (kl\<lparr>kl_register := p\<rparr>))
     | Find_key_response i k e \<Rightarrow> (case take_call i (kl_find_key kl) of (w, p) \<Rightarrow> finish_call w e (Found_key k) (kl\<lparr>kl_find_key := p\<rparr>))
     | Find_certificate_response i ct e \<Rightarrow> (case take_call i (kl_find_cert kl) of (w, p) \<Rightarrow> finish_call w e (Found_certificate ct) (kl\<lparr>kl_find_cert := p\<rparr>))
     | _ \<Rightarrow> kl)"

section \<open>The connection\<close>

definition fail_all :: "reported \<Rightarrow> key_client \<Rightarrow> key_client" where
  "fail_all e kl = kl\<lparr>kl_register := [], kl_find_key := [], kl_find_cert := [],
     kl_results := kl_results kl @ map (\<lambda>x. (snd x, Call_disconnected e)) (kl_register kl @ kl_find_key kl @ kl_find_cert kl)\<rparr>"

text \<open>A promise that has a result already keeps it.\<close>

definition set_connect :: "connect_wait \<Rightarrow> key_client \<Rightarrow> key_client" where
  "set_connect r kl = (if kl_connect kl = Waiting then kl\<lparr>kl_connect := r\<rparr> else kl)"

definition key_client_connected :: "key_client \<Rightarrow> key_client" where
  "key_client_connected kl = (let kl = set_connect Connect_succeeded kl in kl\<lparr>kl_events := kl_events kl @ [Key_connect]\<rparr>)"

definition key_client_disconnected :: "octets option \<Rightarrow> key_client \<Rightarrow> key_client" where
  "key_client_disconnected err kl = (let e = (case err of Some t \<Rightarrow> Reported_error t | None \<Rightarrow> Closed_by_peer);
     kl = set_connect (Connect_failed e) (fail_all e kl) in kl\<lparr>kl_events := kl_events kl @ [Key_disconnect err]\<rparr>)"

definition reset_connect_promise :: "key_client \<Rightarrow> key_client" where
  "reset_connect_promise kl = kl\<lparr>kl_connect := Waiting\<rparr>"

text \<open>\<^verbatim>\<open>client::close\<close> on the client and its connection. \<^verbatim>\<open>encrypted_connection_impl::close\<close> returns when the connection was taken down on
  its strand, by the calling thread or by the one that runs the strand.\<close>

definition client_close :: "key_client \<times> connection \<Rightarrow> key_client \<times> connection" where
  "client_close = (\<lambda>(kl, cn). (reset_connect_promise kl, close_on_strand cn))"

section \<open>Runs\<close>

datatype key_client_input =
    Call_register public_key
  | Call_find_key octets
  | Call_find_certificate octets
  | Reset_connect
  | Conn_connected
  | Conn_disconnected "octets option"
  | Conn_received key_message

primrec key_client_do :: "key_client_input \<Rightarrow> key_client \<Rightarrow> key_client" where
  "key_client_do (Call_register k) kl = snd (async_register_key k kl)"
| "key_client_do (Call_find_key kid) kl = snd (async_find_key kid kl)"
| "key_client_do (Call_find_certificate cid) kl = snd (async_find_certificate cid kl)"
| "key_client_do Reset_connect kl = reset_connect_promise kl"
| "key_client_do Conn_connected kl = key_client_connected kl"
| "key_client_do (Conn_disconnected e) kl = key_client_disconnected e kl"
| "key_client_do (Conn_received m) kl = key_client_receive m kl"

text \<open>What the client hears of its connection: \<open>text_of\<close> is the text of an error and \<open>messages\<close> what the deserialiser makes of a frame,
  given all that was received before.\<close>

primrec heard :: "(disconnect_error \<Rightarrow> octets) \<Rightarrow> (effect list \<Rightarrow> key_message list) \<Rightarrow> effect list \<Rightarrow> effect list \<Rightarrow> key_client_input list" where
  "heard text_of messages past [] = []"
| "heard text_of messages past (f # fs) =
     (case f of
        On_connected \<Rightarrow> [Conn_connected]
      | On_received _ \<Rightarrow> map Conn_received (messages (past @ [f]))
      | On_disconnected err \<Rightarrow> [Conn_disconnected (if err = Not_an_error then None else Some (text_of err))]
      | _ \<Rightarrow> []) @ heard text_of messages (past @ [f]) fs"

definition own_call :: "key_client_input \<Rightarrow> bool" where
  "own_call p = (case p of Conn_connected \<Rightarrow> False | Conn_disconnected _ \<Rightarrow> False | Conn_received _ \<Rightarrow> False | _ \<Rightarrow> True)"

definition waiting :: "key_client \<Rightarrow> nat list" where
  "waiting kl = map snd (kl_register kl @ kl_find_key kl @ kl_find_cert kl)"

text \<open>No call is in two places, and no identifier is waited for twice in a map.\<close>

definition calls_ok :: "key_client \<Rightarrow> bool" where
  "calls_ok kl \<longleftrightarrow> distinct (waiting kl @ map fst (kl_results kl)) \<and> (\<forall>n \<in> set (waiting kl) \<union> fst ` set (kl_results kl). n < kl_calls kl) \<and>
     distinct (map fst (kl_register kl)) \<and> distinct (map fst (kl_find_key kl)) \<and> distinct (map fst (kl_find_cert kl))"

section \<open>Every call is completed at most once\<close>

text \<open>Where the calls are: waiting in a map or completed.\<close>

definition places :: "key_client \<Rightarrow> nat multiset" where
  "places kl = mset (waiting kl) + mset (map fst (kl_results kl))"

lemma places_eq:
  "places kl = mset (map snd (kl_register kl)) + mset (map snd (kl_find_key kl)) + mset (map snd (kl_find_cert kl)) + mset (map fst (kl_results kl))"
  by (simp add: places_def waiting_def)

lemma distinct_count: "distinct xs \<longleftrightarrow> (\<forall>a. count (mset xs) a \<le> 1)"
proof -
  have "count (mset xs) a = (if a \<in> set xs then 1 else 0) \<longleftrightarrow> count (mset xs) a \<le> 1" for a
  proof (cases "a \<in> set xs")
    case True
    then have "0 < count (mset xs) a" by (simp only: count_greater_zero_iff set_mset_mset)
    moreover have "0 < n \<Longrightarrow> n = 1 \<longleftrightarrow> n \<le> 1" for n :: nat by auto
    ultimately show ?thesis using True by (simp only: if_True)
  next
    case False
    then have "count (mset xs) a = 0" by (simp only: count_eq_zero_iff set_mset_mset not_False_eq_True)
    then show ?thesis using False by (simp only: if_False zero_le_one simp_thms)
  qed
  then show ?thesis by (simp only: distinct_count_atmost_1)
qed

lemma calls_ok_iff:
  "calls_ok kl \<longleftrightarrow> (\<forall>a. count (places kl) a \<le> 1) \<and> (\<forall>a \<in># places kl. a < kl_calls kl) \<and>
     distinct (map fst (kl_register kl)) \<and> distinct (map fst (kl_find_key kl)) \<and> distinct (map fst (kl_find_cert kl))"
  unfolding calls_ok_def distinct_count [of "waiting kl @ _"] by (simp add: places_def)

lemma calls_ok_step:
  assumes "calls_ok kl" "places kl' \<subseteq># places kl \<and> kl_calls kl' = kl_calls kl \<or> places kl' \<subseteq># add_mset (kl_calls kl) (places kl) \<and> kl_calls kl' = Suc (kl_calls kl)"
    "distinct (map fst (kl_register kl'))" "distinct (map fst (kl_find_key kl'))" "distinct (map fst (kl_find_cert kl'))"
  shows "calls_ok kl'"
proof -
  have c: "count (places kl) a \<le> 1" "a \<in># places kl \<longrightarrow> a < kl_calls kl" for a using assms(1) by (auto simp: calls_ok_iff)
  have z: "count (places kl) (kl_calls kl) = 0" using c(2) [of "kl_calls kl"] by (auto simp: count_eq_zero_iff)
  from assms(2) have "count (places kl') a \<le> 1 \<and> (a \<in># places kl' \<longrightarrow> a < kl_calls kl')" for a
  proof
    assume s: "places kl' \<subseteq># places kl \<and> kl_calls kl' = kl_calls kl"
    then have "count (places kl') a \<le> count (places kl) a" by (simp add: mset_subset_eq_count)
    then show ?thesis using c [of a] s by (auto dest: mset_subset_eqD)
  next
    assume s: "places kl' \<subseteq># add_mset (kl_calls kl) (places kl) \<and> kl_calls kl' = Suc (kl_calls kl)"
    then have "count (places kl') a \<le> count (add_mset (kl_calls kl) (places kl)) a" by (simp only: mset_subset_eq_count)
    moreover have "a \<in># places kl' \<Longrightarrow> a = kl_calls kl \<or> a \<in># places kl" using s by (auto dest: mset_subset_eqD)
    ultimately show ?thesis using c [of a] z s by (cases "a = kl_calls kl") auto
  qed
  then show ?thesis using assms(3-5) by (simp add: calls_ok_iff)
qed

lemma emplace_places: "mset (map snd (emplace i n m)) \<subseteq># add_mset n (mset (map snd m))"
proof -
  have "mset (map snd (insort_key fst (i, n) m)) = add_mset n (mset (map snd m))" by (induction m) auto
  then show ?thesis by (simp add: emplace_def)
qed

lemma emplace_distinct: "distinct (map fst m) \<Longrightarrow> distinct (map fst (emplace i n m))"
proof -
  have "distinct (map fst (insort_key fst (i, n) m)) \<longleftrightarrow> i \<notin> fst ` set m \<and> distinct (map fst m)"
    by (induction m) (auto simp: set_insort_key)
  then show "distinct (map fst m) \<Longrightarrow> distinct (map fst (emplace i n m))" by (simp add: emplace_def)
qed

lemma take_call_places:
  assumes "distinct (map fst m)" "take_call i m = (w, m')"
  shows "mset (map snd m) = mset (map snd m') + (case w of None \<Rightarrow> {#} | Some n \<Rightarrow> {#n#})" "distinct (map fst m')"
proof -
  have "mset (map snd m) = mset (map snd (filter (\<lambda>x. fst x \<noteq> i) m)) + (case map_of m i of None \<Rightarrow> {#} | Some n \<Rightarrow> {#n#})"
    using assms(1)
  proof (induction m)
    case (Cons x m)
    have "map_of m i = None" "filter (\<lambda>x. fst x \<noteq> i) m = m" if "fst x = i"
      using Cons.prems that by (auto simp: map_of_eq_None_iff filter_id_conv image_iff)
    then show ?case using Cons by (cases "fst x = i") (auto split: option.splits)
  qed simp
  then show "mset (map snd m) = mset (map snd m') + (case w of None \<Rightarrow> {#} | Some n \<Rightarrow> {#n#})" "distinct (map fst m')"
    using assms by (auto simp: take_call_def distinct_map_filter)
qed

lemma take_call_kept:
  "distinct (map fst (kl_register kl)) \<Longrightarrow> take_call i (kl_register kl) = (w, m') \<Longrightarrow>
     places (kl\<lparr>kl_register := m'\<rparr>) + (case w of None \<Rightarrow> {#} | Some n \<Rightarrow> {#n#}) = places kl"
  "distinct (map fst (kl_find_key kl)) \<Longrightarrow> take_call i (kl_find_key kl) = (w, m') \<Longrightarrow>
     places (kl\<lparr>kl_find_key := m'\<rparr>) + (case w of None \<Rightarrow> {#} | Some n \<Rightarrow> {#n#}) = places kl"
  "distinct (map fst (kl_find_cert kl)) \<Longrightarrow> take_call i (kl_find_cert kl) = (w, m') \<Longrightarrow>
     places (kl\<lparr>kl_find_cert := m'\<rparr>) + (case w of None \<Rightarrow> {#} | Some n \<Rightarrow> {#n#}) = places kl"
  by (simp_all only: places_eq take_call_places(1)) simp_all

lemma send_request_keeps [simp]:
  "kl_calls (snd (send_request r kl)) = kl_calls kl" "kl_register (snd (send_request r kl)) = kl_register kl"
  "kl_find_key (snd (send_request r kl)) = kl_find_key kl" "kl_find_cert (snd (send_request r kl)) = kl_find_cert kl"
  "kl_results (snd (send_request r kl)) = kl_results kl"
  by (simp_all add: send_request_def split: sum.splits)

lemma after_send: "snd (bindA (send_request r) (\<lambda>_. returnA n) kl) = snd (send_request r kl)"
  by (simp add: bindA_snd returnA_def split: prod.splits sum.splits)

lemma finish_call_places:
  "places (finish_call w e r kl) = places kl + (case w of None \<Rightarrow> {#} | Some n \<Rightarrow> {#n#})" "kl_calls (finish_call w e r kl) = kl_calls kl"
  "kl_register (finish_call w e r kl) = kl_register kl" "kl_find_key (finish_call w e r kl) = kl_find_key kl"
  "kl_find_cert (finish_call w e r kl) = kl_find_cert kl"
  by (auto simp: finish_call_def places_eq split: option.splits)

lemma set_connect_keeps [simp]:
  "kl_calls (set_connect r kl) = kl_calls kl" "kl_register (set_connect r kl) = kl_register kl"
  "kl_find_key (set_connect r kl) = kl_find_key kl" "kl_find_cert (set_connect r kl) = kl_find_cert kl"
  "kl_results (set_connect r kl) = kl_results kl" "kl_next_id (set_connect r kl) = kl_next_id kl" "kl_sent (set_connect r kl) = kl_sent kl"
  by (simp_all add: set_connect_def)

lemma calls_ok_do:
  assumes "calls_ok kl"
  shows "calls_ok (key_client_do i kl)"
proof -
  have d: "distinct (map fst (kl_register kl))" "distinct (map fst (kl_find_key kl))" "distinct (map fst (kl_find_cert kl))"
    using assms by (simp_all add: calls_ok_iff)
  show ?thesis
  proof (rule calls_ok_step [OF assms])
    show "distinct (map fst (kl_register (key_client_do i kl)))" "distinct (map fst (kl_find_key (key_client_do i kl)))"
      "distinct (map fst (kl_find_cert (key_client_do i kl)))"
      using d by (cases i; simp add: async_register_key_def async_find_key_def async_find_certificate_def after_send emplace_distinct Let_def
          reset_connect_promise_def key_client_connected_def key_client_disconnected_def fail_all_def key_client_receive_def
          finish_call_places take_call_def distinct_map_filter split: key_message.splits)+
    show "places (key_client_do i kl) \<subseteq># places kl \<and> kl_calls (key_client_do i kl) = kl_calls kl \<or>
        places (key_client_do i kl) \<subseteq># add_mset (kl_calls kl) (places kl) \<and> kl_calls (key_client_do i kl) = Suc (kl_calls kl)"
    proof (cases i)
      case (Conn_received m)
      then show ?thesis
        using take_call_kept(1) [OF d(1)] take_call_kept(2) [OF d(2)] take_call_kept(3) [OF d(3)]
        by (cases m) (auto simp: key_client_receive_def finish_call_places split: prod.splits)
    qed (use emplace_places in \<open>auto simp: async_register_key_def async_find_key_def async_find_certificate_def after_send Let_def
        reset_connect_promise_def key_client_connected_def key_client_disconnected_def fail_all_def places_eq
        comp_def\<close>)
  qed
qed

lemma calls_ok_run: "calls_ok kl \<Longrightarrow> calls_ok (fold key_client_do is kl)"
  by (induction "is" arbitrary: kl) (simp_all add: calls_ok_do)

lemma make_key_client_ok: "calls_ok make_key_client"
  by (simp add: calls_ok_def make_key_client_def waiting_def)

section \<open>Properties\<close>

text \<open>A call of the key client is completed at most once, with one result: in every run, whatever responses come in, no call is both
  waiting and completed, or completed twice, and a disconnection completes every call that waits.\<close>

theorem key_calls_completed_once:
  assumes "kl = fold key_client_do is make_key_client"
  shows "distinct (map fst (kl_results kl)) \<and> set (waiting kl) \<inter> fst ` set (kl_results kl) = {} \<and>
    waiting (key_client_do (Conn_disconnected e) kl) = [] \<and>
    (\<forall>n \<in> set (waiting kl). (n, Call_disconnected (case e of Some t \<Rightarrow> Reported_error t | None \<Rightarrow> Closed_by_peer)) \<in>
       set (kl_results (key_client_do (Conn_disconnected e) kl)))"
proof -
  have "calls_ok kl" using calls_ok_run [OF make_key_client_ok] assms by simp
  then have "distinct (map fst (kl_results kl)) \<and> set (waiting kl) \<inter> fst ` set (kl_results kl) = {}" by (auto simp: calls_ok_def)
  moreover have "waiting (key_client_do (Conn_disconnected e) kl) = []"
    by (simp add: waiting_def key_client_disconnected_def fail_all_def Let_def)
  moreover have "(n, Call_disconnected (case e of Some t \<Rightarrow> Reported_error t | None \<Rightarrow> Closed_by_peer)) \<in>
      set (kl_results (key_client_do (Conn_disconnected e) kl))" if "n \<in> set (waiting kl)" for n
    using that by (auto simp: waiting_def key_client_disconnected_def fail_all_def Let_def image_Un)
  ultimately show ?thesis by blast
qed

text \<open>What leaves a waiting lookup waiting.\<close>

definition leaves_lookup :: "32 word \<Rightarrow> key_client_input \<Rightarrow> bool" where
  "leaves_lookup i p \<longleftrightarrow> (case p of Conn_disconnected _ \<Rightarrow> False | Conn_received (Find_key_response j _ _) \<Rightarrow> j \<noteq> i | _ \<Rightarrow> True)"

lemma emplace_keeps: "map_of m i = Some n \<Longrightarrow> map_of (emplace j k m) i = Some n"
proof -
  assume n: "map_of m i = Some n"
  have "map_of (insort_key fst (j, k) m) i = (if i = j then Some k else map_of m i)" if "j \<notin> fst ` set m"
    using that by (induction m) auto
  then show ?thesis using n by (auto simp: emplace_def) (metis domI dom_map_of_conv_image_fst)
qed

lemma lookup_waits_do:
  "map_of (kl_find_key kl) i = Some n \<Longrightarrow> leaves_lookup i p \<Longrightarrow> map_of (kl_find_key (key_client_do p kl)) i = Some n"
proof (cases p)
  case (Conn_received m)
  assume a: "map_of (kl_find_key kl) i = Some n" "leaves_lookup i p"
  have "map_of (filter (\<lambda>x. fst x \<noteq> j) xs) i = map_of xs i" if "j \<noteq> i" for j and xs :: pending_calls
    using that by (induction xs) auto
  then show ?thesis using a Conn_received
    by (cases m) (auto simp: key_client_receive_def take_call_def finish_call_places leaves_lookup_def)
qed (auto simp: async_register_key_def async_find_key_def async_find_certificate_def after_send emplace_keeps Let_def
    reset_connect_promise_def key_client_connected_def leaves_lookup_def)

lemma lookup_waits:
  "map_of (kl_find_key kl) i = Some n \<Longrightarrow> list_all (leaves_lookup i) is \<Longrightarrow> map_of (kl_find_key (fold key_client_do is kl)) i = Some n"
  by (induction "is" arbitrary: kl) (simp_all add: lookup_waits_do)

lemma find_key_waits:
  assumes "async_find_key kid kl = (Inr n, kl1)" "kl_next_id kl + 1 \<notin> fst ` set (kl_find_key kl)"
  shows "map_of (kl_find_key kl1) (kl_next_id kl + 1) = Some n" "kl_sent kl1 = kl_sent kl @ [Find_key_request (kl_next_id kl + 1) kid]"
proof -
  have "map_of (insort_key fst (j, k) m) j = Some k" if "j \<notin> fst ` set m" for j :: "32 word" and k :: nat and m
    using that by (induction m) auto
  then show "map_of (kl_find_key kl1) (kl_next_id kl + 1) = Some n" "kl_sent kl1 = kl_sent kl @ [Find_key_request (kl_next_id kl + 1) kid]"
    using assms by (auto simp: async_find_key_def send_request_def bindA_def returnA_def Let_def emplace_def split: sum.splits)
qed

text \<open>C32: A lookup gets what the server has: a client looks a key up, does and receives whatever else meanwhile, the threads of the
  server do whatever else, and then one of them handles this request; its answer completes the call with what the server's store has
  for the key at that moment.\<close>

theorem lookup_returns_servers_key:
  assumes "keyed_store K view good storable key_id (\<lambda>k. k) (\<lambda>_. key_id)" "good (ks_keys (sv_store sv))" "registering_ok c storable sv"
    "async_find_key kid kl = (Inr n, kl1)" "i = kl_next_id kl + 1" "i \<notin> fst ` set (kl_find_key kl)"
    "list_all (leaves_lookup i) is" "list_all (event_ok storable) evs" "sv1 = server_run c what K C evs sv"
    "\<not> kn_closed (sv_conns sv1 j)" "sv_registering sv1 j = None" "sv2 = server_run c what K C [Handle j (last (kl_sent kl1))] sv1"
    "kn_sent (sv_conns sv2 j) = kn_sent (sv_conns sv1 j) @ [resp]"
  shows "kl_results (key_client_do (Conn_received resp) (fold key_client_do is kl1)) =
    kl_results (fold key_client_do is kl1) @ [(n, Found_key (view (ks_keys (sv_store sv1)) kid))]"
proof -
  have h: "key_holder K view good storable" using assms(1) by (rule key_holder.intro)
  note w = find_key_waits [OF assms(4), folded assms(5), OF assms(6)]
  have g: "good (ks_keys (sv_store sv1))" unfolding assms(9) by (rule key_holder.server_run_view(1) [OF h assms(2,3,8)])
  obtain s' where a: "answer K C (Find_key_request i kid) (sv_store sv1) =
      (Some (Find_key_response i (view (ks_keys (sv_store sv1)) kid) no_net_error), s')"
    using key_holder.find_answer [OF h g, of C i kid] by (metis prod.collapse)
  have "sv2 = respond j (Some (Find_key_response i (view (ks_keys (sv_store sv1)) kid) no_net_error)) (sv1\<lparr>sv_store := s'\<rparr>)"
    using a assms(10,11) w(2) by (simp add: assms(12) server_run_def server_do_def handle_message_def Let_def)
  then have "resp = Find_key_response i (view (ks_keys (sv_store sv1)) kid) no_net_error"
    using assms(13) by (auto simp: respond_def Let_def split: sum.splits)
  then show ?thesis using lookup_waits [OF w(1) assms(7)]
    by (simp add: key_client_receive_def take_call_def finish_call_def no_net_error_def)
qed

lemma emplace_waits: "snd ` set m \<subseteq> snd ` set (emplace i n m)"
  by (auto simp: emplace_def set_insort_key)

lemma waiting_set: "set (waiting kl) = snd ` set (kl_register kl) \<union> snd ` set (kl_find_key kl) \<union> snd ` set (kl_find_cert kl)"
  by (simp add: waiting_def image_Un Un_assoc)

lemma own_call_keeps:
  assumes "own_call p"
  shows "kl_results (key_client_do p kl) = kl_results kl" "set (waiting kl) \<subseteq> set (waiting (key_client_do p kl))"
proof -
  show "kl_results (key_client_do p kl) = kl_results kl"
    using assms by (cases p) (simp_all add: own_call_def async_register_key_def async_find_key_def async_find_certificate_def after_send Let_def
        reset_connect_promise_def)
  show "set (waiting kl) \<subseteq> set (waiting (key_client_do p kl))"
    unfolding waiting_set using assms
    by (cases p) (simp_all add: own_call_def async_register_key_def async_find_key_def async_find_certificate_def after_send Let_def
        reset_connect_promise_def le_supI1 le_supI2 emplace_waits)
qed

lemma own_calls_keep:
  "list_all own_call is \<Longrightarrow> kl_results (fold key_client_do is kl) = kl_results kl \<and> set (waiting kl) \<subseteq> set (waiting (fold key_client_do is kl))"
  by (induction "is" arbitrary: kl) (simp_all, use own_call_keeps in blast)

lemma heard_muted: "list_all muted fs \<Longrightarrow> heard text_of messages past fs = []"
  by (induction fs arbitrary: past) (auto simp: muted_def silent_def split: effect.splits)

text \<open>C33: Closing the client abandons its calls: the calls that wait when \<^verbatim>\<open>close\<close> is called on an open connection are not completed by it,
  nor by anything the closed connection does afterwards, nor by further calls, so that a thread that blocks in one
  does not return. \<^verbatim>\<open>do_close\<close> drops the owner before it takes the connection down, which is where the pending calls would be
  failed.\<close>

theorem close_abandons_calls:
  assumes "conn_reach e xp react (make_connection ctx server info) cn" "\<not> cn_is_closed cn"
    "client_close (kl, cn) = (kl1, cn1)" "conn_reach e xp react cn1 cn2"
    "list_all own_call cs" "is \<in> shuffles cs (heard text_of messages (cn_log cn) (drop (length (cn_log cn)) (cn_log cn2)))"
  shows "kl_results (fold key_client_do is kl1) = kl_results kl \<and> set (waiting kl) \<subseteq> set (waiting (fold key_client_do is kl1))"
proof -
  have cn1: "cn1 = close_on_strand cn" "kl1 = reset_connect_promise kl" using assms(3) by (auto simp: client_close_def)
  have r1: "conn_reach e xp react (make_connection ctx server info) cn1" unfolding cn1(1) by (rule reach_step [OF assms(1) step_close_on_strand])
  have "cn_disconnected cn1" "\<exists>new. cn_log cn1 = cn_log cn @ new \<and> list_all muted new"
    using assms(2) by (auto simp: cn1(1) close_on_strand_def do_close_def mark_closed_def release_transport_def muted_def Let_def)
  with down_reach [OF r1 _ assms(4)] obtain new where "cn_log cn2 = cn_log cn @ new" "list_all muted new"
    by (auto simp: down_def)
  then have "heard text_of messages (cn_log cn) (drop (length (cn_log cn)) (cn_log cn2)) = []" by (simp add: heard_muted)
  then have "is = cs" using assms(6) by simp
  then show ?thesis using own_calls_keep [OF assms(5), of kl1] by (simp add: cn1(2) reset_connect_promise_def waiting_def)
qed

section \<open>An example\<close>

lemma demo_find_written: "\<exists>b. write_key_message (Find_key_request i [7]) = Inr b"
proof -
  have "unat i < 2 ^ 32" using unsigned_less [of i, where ?'a = nat] by simp
  then have "unat (ucast i :: 64 word) < 2 ^ 32" by (simp add: unsigned_ucast_eq take_bit_nat_eq_self)
  then have "key_message_ok demo_crypto (Find_key_request i [7])" unfolding key_message_ok_def
    by (simp, intro val_ok_bound) (simp_all add: key_types_def max_structure_size_def max_constructed_size_def)
  then show ?thesis using write_key_message_eq by blast
qed

lemma demo_response_written: "\<exists>b. write_key_message (Find_key_response 1 (Some (demo_key 7 [])) no_net_error) = Inr b"
proof -
  have "key_wf demo_crypto (demo_key 7 [])" using demo_signed_storable [of "[]" 7] by (simp add: key_storable_def)
  moreover have "val_ok (tt_type (key_types ! 4)) (key_val (Find_key_response 1 (Some (demo_key 7 [])) no_net_error))"
    by (simp, intro val_ok_bound)
      (simp_all add: key_types_def demo_key_def public_key_ty_def public_key_val_def signature_ty_def signature_val_def suite_value_def
        net_error_ty_def net_error_val_def no_net_error_def max_structure_size_def max_constructed_size_def)
  ultimately have "key_message_ok demo_crypto (Find_key_response 1 (Some (demo_key 7 [])) no_net_error)" by (simp add: key_message_ok_def)
  then show ?thesis using write_key_message_eq by blast
qed

lemma demo_lookup: "\<exists>kl1. async_find_key [7] make_key_client = (Inr 0, kl1) \<and> kl1 = make_key_client\<lparr>kl_calls := 1, kl_next_id := 1,
    kl_find_key := [(1, 0)], kl_sent := [Find_key_request 1 [7]]\<rparr>"
  using demo_find_written [of 1] by (auto simp: async_find_key_def make_key_client_def send_request_def bindA_def returnA_def emplace_def Let_def)

theorem key_calls_completed_once_witness:
  "waiting (key_client_do (Conn_disconnected None) (fold key_client_do [Call_find_key [7]] make_key_client)) = [] \<and>
   (0, Call_disconnected Closed_by_peer) \<in> set (kl_results (key_client_do (Conn_disconnected None) (fold key_client_do [Call_find_key [7]] make_key_client)))"
proof -
  have "waiting (fold key_client_do [Call_find_key [7]] make_key_client) = [0]"
    using demo_lookup by (auto simp: waiting_def make_key_client_def)
  then show ?thesis using key_calls_completed_once [OF refl, of "[Call_find_key [7]]" None] by (simp del: fold_simps)
qed

theorem lookup_returns_servers_key_witness:
  "\<exists>kl1 sv1 sv2 resp. async_find_key [7] make_key_client = (Inr 0, kl1) \<and>
     sv1 = demo_run [Handle 0 (Register_key_request 1 (demo_key 7 [])), Resume 0] demo_server \<and>
     sv2 = demo_run [Handle 3 (last (kl_sent kl1))] sv1 \<and> kn_sent (sv_conns sv2 3) = [resp] \<and>
     kl_results (key_client_do (Conn_received resp) (fold key_client_do [Reset_connect] kl1)) = [(0, Found_key (Some (demo_key 7 [])))]"
proof -
  let ?evs = "[Handle 0 (Register_key_request 1 (demo_key 7 [])), Resume 0]"
  let ?resp = "Find_key_response 1 (Some (demo_key 7 [])) no_net_error"
  obtain kl1 where kl1: "async_find_key [7] make_key_client = (Inr 0, kl1)" "kl1 = make_key_client\<lparr>kl_calls := 1, kl_next_id := 1,
    kl_find_key := [(1, 0)], kl_sent := [Find_key_request 1 [7]]\<rparr>" using demo_lookup by blast
  define sv1 where "sv1 = demo_run ?evs demo_server"
  define sv2 where "sv2 = demo_run [Handle 3 (last (kl_sent kl1))] sv1"
  obtain s where s: "sv1 = respond 0 (Some (Register_key_response 1 no_net_error)) (demo_server\<lparr>sv_store := s\<rparr>)" "demo_view sv1 [7] = Some (demo_key 7 [])"
    using demo_registered by (auto simp: sv1_def)
  have ok: "list_all (event_ok (key_storable demo_crypto)) ?evs" using demo_signed_storable [of "[]" 7] by (simp add: event_ok_def)
  have idle: "\<not> kn_closed (sv_conns sv1 3)" "sv_registering sv1 3 = None" "kn_sent (sv_conns sv1 3) = []"
    by (simp_all add: s(1) respond_def demo_server_def Let_def)
  have g: "cache_good (key_db_good demo_crypto map_of) (\<lambda>_. key_id) (ks_keys (sv_store sv1))"
    unfolding sv1_def by (rule kh.server_run_view(1) [OF demo_server_good(1,2) ok])
  obtain s' where a: "answer (public_key_cache (public_key_database demo_crypto text_list)) (certificate_database demo_crypto cert_list)
      (Find_key_request 1 [7]) (sv_store sv1) = (Some ?resp, s')"
    using kh.find_answer [OF g, of "certificate_database demo_crypto cert_list" 1 "[7]"] s(2) by (metis prod.collapse)
  obtain b where b: "write_key_message ?resp = Inr b" using demo_response_written by blast
  have "sv2 = respond 3 (Some ?resp) (sv1\<lparr>sv_store := s'\<rparr>)"
    using a idle by (simp add: sv2_def kl1(2) server_run_def server_do_def handle_message_def Let_def)
  then have sent: "kn_sent (sv_conns sv2 3) = kn_sent (sv_conns sv1 3) @ [?resp]" by (simp add: respond_def b Let_def)
  have "kl_results (key_client_do (Conn_received ?resp) (fold key_client_do [Reset_connect] kl1)) =
      kl_results (fold key_client_do [Reset_connect] kl1) @ [(0, Found_key (demo_view sv1 [7]))]"
    by (rule lookup_returns_servers_key [OF kc.keyed_store_axioms demo_server_good(1,2) kl1(1) refl _ _ ok sv1_def idle(1,2) sv2_def sent])
      (simp_all add: make_key_client_def leaves_lookup_def)
  then have "kl_results (key_client_do (Conn_received ?resp) (fold key_client_do [Reset_connect] kl1)) = [(0, Found_key (Some (demo_key 7 [])))]"
    by (simp add: s(2) kl1(2) reset_connect_promise_def make_key_client_def)
  moreover have "kn_sent (sv_conns sv2 3) = [?resp]" using sent idle(3) by simp
  ultimately show ?thesis using kl1(1) sv1_def sv2_def by blast
qed

theorem close_abandons_calls_witness:
  "\<exists>kl1 cn kl2 cn2. async_find_key [7] make_key_client = (Inr 0, kl1) \<and> cn_client cn \<and> client_close (kl1, cn) = (kl2, cn2) \<and> \<not> cn_client cn2 \<and>
     kl_results (fold key_client_do [Call_find_key [8]] kl2) = [] \<and> 0 \<in> set (waiting (fold key_client_do [Call_find_key [8]] kl2))"
proof -
  obtain kl1 where kl1: "async_find_key [7] make_key_client = (Inr 0, kl1)" "kl1 = make_key_client\<lparr>kl_calls := 1, kl_next_id := 1,
    kl_find_key := [(1, 0)], kl_sent := [Find_key_request 1 [7]]\<rparr>" using demo_lookup by blast
  define cn where "cn = make_connection node_context False node_info"
  define cn2 where "cn2 = close_on_strand cn"
  have cn: "cn_client cn" "\<not> cn_is_closed cn" "conn_reach node_env (\<lambda>l c n. None) (\<lambda>_. []) cn cn" "\<not> cn_client cn2"
    "drop (length (cn_log cn)) (cn_log cn2) = []"
    by (simp_all add: cn2_def cn_def make_connection_def reach_start close_on_strand_def do_close_def mark_closed_def release_transport_def)
  have close: "client_close (kl1, cn) = (reset_connect_promise kl1, cn2)" by (simp add: client_close_def cn2_def)
  from close_abandons_calls [OF cn(3) [unfolded cn_def] cn(2) [unfolded cn_def] close [unfolded cn_def] reach_start,
      of "[Call_find_key [8]]" "[Call_find_key [8]]" "\<lambda>_. []" "\<lambda>_. []"]
  have "kl_results (fold key_client_do [Call_find_key [8]] (reset_connect_promise kl1)) = kl_results kl1"
    "set (waiting kl1) \<subseteq> set (waiting (fold key_client_do [Call_find_key [8]] (reset_connect_promise kl1)))"
    using cn(5) by (simp_all add: own_call_def cn_def del: fold_simps)
  moreover have "waiting kl1 = [0]" "kl_results kl1 = []" using kl1(2) by (simp_all add: waiting_def make_key_client_def)
  ultimately show ?thesis using kl1(1) cn(1,4) close by (metis insert_subset list.set(2))
qed

end
