(* ===== verification/Text_Util.thy ===== *)
theory Text_Util
  imports Prelude
begin

text \<open>
  \<^verbatim>\<open>util/string_util.cpp\<close>: the conversions between UTF-8 and wide strings, hexadecimal text with a separator, and the two
  ways of cutting a string at separators. A \<^verbatim>\<open>std::string\<close> is its octets, a \<^verbatim>\<open>char32_t\<close> a 32 bit word. A \<^verbatim>\<open>wchar_t\<close> has 16 or
  32 bits: the flag \<^verbatim>\<open>utf16\<close> is the compile time test of its size, and a unit of either width is held in a 32 bit word. A
  position in a string is the string that is left from there.
\<close>

section \<open>UTF-8\<close>

type_synonym code_point = "32 word"
type_synonym wide_string = "32 word list"

definition replacement_char :: code_point where
  "replacement_char = 0xFFFD"

definition valid_code_point :: "code_point \<Rightarrow> bool" where
  "valid_code_point cp \<longleftrightarrow> cp \<le> 0x10FFFF \<and> (cp < 0xD800 \<or> cp > 0xDFFF)"

definition utf8_octet :: "code_point \<Rightarrow> octet" where
  "utf8_octet cp = ucast cp"

definition append_utf8 :: "octets \<Rightarrow> code_point \<Rightarrow> octets" where
  "append_utf8 out cp0 =
     (let cp = if \<not> valid_code_point cp0 then replacement_char else cp0 in
      if cp < 0x80 then out @ [utf8_octet cp]
      else if cp < 0x800 then out @ [utf8_octet (0xC0 OR drop_bit 6 cp), utf8_octet (0x80 OR (cp AND 0x3F))]
      else if cp < 0x10000
      then out @ [utf8_octet (0xE0 OR drop_bit 12 cp), utf8_octet (0x80 OR (drop_bit 6 cp AND 0x3F)), utf8_octet (0x80 OR (cp AND 0x3F))]
      else out @ [utf8_octet (0xF0 OR drop_bit 18 cp), utf8_octet (0x80 OR (drop_bit 12 cp AND 0x3F)),
                  utf8_octet (0x80 OR (drop_bit 6 cp AND 0x3F)), utf8_octet (0x80 OR (cp AND 0x3F))])"

definition sequence_length :: "octet \<Rightarrow> nat" where
  "sequence_length c = (if c < 0x80 then 1 else if c < 0xC2 then 0 else if c < 0xE0 then 2 else if c < 0xF0 then 3 else if c < 0xF5 then 4 else 0)"

definition min_for_len :: "nat \<Rightarrow> code_point" where
  "min_for_len len = [0, 0, 0x80, 0x800, 0x10000] ! len"

text \<open>The loop over the continuation octets; \<open>None\<close> is the early return.\<close>

fun continuation :: "octets \<Rightarrow> code_point \<Rightarrow> code_point option" where
  "continuation [] cp = Some cp"
| "continuation (cc # ccs) cp = (if cc AND 0xC0 \<noteq> 0x80 then None else continuation ccs (push_bit 6 cp OR (ucast cc AND 0x3F)))"

definition lead_bits :: "nat \<Rightarrow> octet \<Rightarrow> code_point" where
  "lead_bits len c = (if len = 1 then ucast c else ucast c AND drop_bit len 0x7F)"

definition decode_utf8 :: "octet \<Rightarrow> octets \<Rightarrow> code_point \<times> octets" where
  "decode_utf8 c str =
     (let len = sequence_length c in
      if len = 0 \<or> len > Suc (length str) then (replacement_char, str)
      else case continuation (take (len - 1) str) (lead_bits len c) of
        None \<Rightarrow> (replacement_char, str)
      | Some cp \<Rightarrow> (if valid_code_point cp \<and> cp \<ge> min_for_len len then cp else replacement_char, drop (len - 1) str))"

section \<open>Wide strings\<close>

definition wide_unit :: "bool \<Rightarrow> 32 word \<Rightarrow> 32 word" where
  "wide_unit utf16 u = (if utf16 then take_bit 16 u else u)"

definition append_wide :: "bool \<Rightarrow> wide_string \<Rightarrow> code_point \<Rightarrow> wide_string" where
  "append_wide utf16 out cp =
     (if utf16 then
        if cp \<ge> 0x10000 then
          let cp' = cp - 0x10000 in out @ [wide_unit utf16 (0xD800 OR drop_bit 10 cp'), wide_unit utf16 (0xDC00 OR (cp' AND 0x3FF))]
        else out @ [wide_unit utf16 cp]
      else out @ [wide_unit utf16 cp])"

definition decode_wide :: "bool \<Rightarrow> 32 word \<Rightarrow> wide_string \<Rightarrow> code_point \<times> wide_string" where
  "decode_wide utf16 cp str =
     (let single = (if valid_code_point cp then cp else replacement_char, str) in
      if utf16 \<and> cp \<ge> 0xD800 \<and> cp \<le> 0xDBFF then
        case str of
          [] \<Rightarrow> single
        | lo # rest \<Rightarrow>
            if lo \<ge> 0xDC00 \<and> lo \<le> 0xDFFF then (0x10000 + push_bit 10 (cp - 0xD800) + (lo - 0xDC00), rest) else single
      else single)"

section \<open>The conversions\<close>

lemma decode_utf8_shorter: "decode_utf8 c str = (cp, rest) \<Longrightarrow> length rest \<le> length str"
  by (auto simp: decode_utf8_def Let_def split: if_splits option.splits)

lemma decode_wide_shorter: "decode_wide utf16 u str = (cp, rest) \<Longrightarrow> length rest \<le> length str"
  by (auto simp: decode_wide_def Let_def split: if_splits list.splits)

function to_wstring_loop :: "bool \<Rightarrow> octets \<Rightarrow> wide_string \<Rightarrow> wide_string" where
  "to_wstring_loop utf16 [] ret = ret"
| "to_wstring_loop utf16 (c # str) ret = (case decode_utf8 c str of (cp, rest) \<Rightarrow> to_wstring_loop utf16 rest (append_wide utf16 ret cp))"
  by pat_completeness auto

termination to_wstring_loop
  by (relation "measure (\<lambda>(_, str, _). length str)") (auto dest: decode_utf8_shorter [OF sym])

definition to_wstring :: "bool \<Rightarrow> octets \<Rightarrow> wide_string" where
  "to_wstring utf16 str = to_wstring_loop utf16 str []"

function to_string_loop :: "bool \<Rightarrow> wide_string \<Rightarrow> octets \<Rightarrow> octets" where
  "to_string_loop utf16 [] ret = ret"
| "to_string_loop utf16 (u # str) ret = (case decode_wide utf16 u str of (cp, rest) \<Rightarrow> to_string_loop utf16 rest (append_utf8 ret cp))"
  by pat_completeness auto

termination to_string_loop
  by (relation "measure (\<lambda>(_, str, _). length str)") (auto dest: decode_wide_shorter [OF sym])

definition to_string :: "bool \<Rightarrow> wide_string \<Rightarrow> octets" where
  "to_string utf16 str = to_string_loop utf16 str []"

section \<open>Bit fields as numbers\<close>

lemma or_field:
  assumes "unat (b :: 'a :: len word) < 2 ^ k"
  shows "push_bit k a OR b = push_bit k a + b"
proof -
  have "push_bit k a AND b = 0"
    by (rule bit_word_eqI) (auto simp: bit_simps dest: bit_imp_less [OF _ assms])
  then show ?thesis by (simp add: disjunctive_add_eq_or)
qed

lemma unat_and_mask: "unat ((v :: 'a :: len word) AND mask n) = unat v mod 2 ^ n"
  by (simp only: take_bit_eq_mask [symmetric] unsigned_take_bit_eq) (simp add: take_bit_eq_mod)

lemma unat_or_field:
  assumes "unat (b :: 32 word) < 2 ^ k" "unat a * 2 ^ k + unat b < 2 ^ 32"
  shows "unat (push_bit k a OR b) = unat a * 2 ^ k + unat b"
proof -
  have "push_bit k a OR b = of_nat (unat a * 2 ^ k + unat b)"
    by (simp only: or_field [OF assms(1)]) (simp add: push_bit_eq_mult)
  then show ?thesis using assms(2) by (simp add: unat_of_nat del: of_nat_add of_nat_mult)
qed

lemma lead_or:
  "unat y < 32 \<Longrightarrow> unat (0xC0 OR y :: 32 word) = 192 + unat y"
  "unat y < 16 \<Longrightarrow> unat (0xE0 OR y :: 32 word) = 224 + unat y"
  "unat y < 8 \<Longrightarrow> unat (0xF0 OR y :: 32 word) = 240 + unat y"
  "unat y < 64 \<Longrightarrow> unat (0x80 OR y :: 32 word) = 128 + unat y"
  "unat y < 1024 \<Longrightarrow> unat (0xD800 OR y :: 32 word) = 55296 + unat y"
  "unat y < 1024 \<Longrightarrow> unat (0xDC00 OR y :: 32 word) = 56320 + unat y"
  using unat_or_field [of y 6 3] unat_or_field [of y 5 7] unat_or_field [of y 4 15] unat_or_field [of y 6 2]
    unat_or_field [of y 10 54] unat_or_field [of y 10 55] by simp_all

lemma low_bits:
  "unat (y AND 0x3F :: 32 word) = unat y mod 64" "unat (y AND 0x1F :: 32 word) = unat y mod 32"
  "unat (y AND 0x0F :: 32 word) = unat y mod 16" "unat (y AND 0x07 :: 32 word) = unat y mod 8"
  "unat (y AND 0x3FF :: 32 word) = unat y mod 1024"
  using unat_and_mask [of y 6] unat_and_mask [of y 5] unat_and_mask [of y 4] unat_and_mask [of y 3] unat_and_mask [of y 10]
  by (simp_all add: mask_eq_exp_minus_1)

lemma unat_utf8_octet [simp]: "unat (utf8_octet cp) = unat cp mod 256"
  by (simp add: utf8_octet_def unsigned_ucast_eq take_bit_eq_mod)

lemma unat_wide_octet [simp]: "unat (ucast (c :: octet) :: 32 word) = unat c"
proof -
  have "unat c < 2 ^ 32" using unat_octet_less [of c] by (rule less_trans) simp
  then show ?thesis by (simp add: unsigned_ucast_eq take_bit_eq_mod)
qed

lemma continuation_test: "(cc :: octet) AND 0xC0 = 0x80 \<longleftrightarrow> unat cc div 64 = 2"
proof -
  have "(0xC0 :: octet) = NOT (mask 6)" by (simp add: mask_eq_exp_minus_1 word_eq_iff_unsigned)
  then have "cc AND 0xC0 = cc AND NOT (mask 6)" by simp
  also have "\<dots> = push_bit 6 (drop_bit 6 cc)" by (rule bit_word_eqI) (auto simp: bit_simps)
  finally have "unat (cc AND 0xC0) = unat cc div 64 * 64 mod 256"
    by (simp only: push_bit_eq_mult unat_word_ariths unat_drop_bit) simp
  moreover have "unat cc div 64 < 4" using unat_octet_less [of cc] by linarith
  ultimately have "unat (cc AND 0xC0) = 128 \<longleftrightarrow> unat cc div 64 = 2" by auto
  then show ?thesis by (simp add: word_unat_eq_iff)
qed

section \<open>What is encoded is decoded\<close>

lemma continuation_value:
  "\<lbrakk> list_all (\<lambda>cc. unat cc div 64 = 2) ccs; unat cp < 2 ^ (32 - 6 * length ccs); length ccs \<le> 5 \<rbrakk>
    \<Longrightarrow> \<exists>w. continuation ccs cp = Some w \<and> unat w = foldl (\<lambda>a cc. a * 64 + unat cc mod 64) (unat cp) ccs"
proof (induction ccs arbitrary: cp)
  case Nil
  then show ?case by simp
next
  case (Cons cc ccs)
  let ?w = "push_bit 6 cp OR (ucast cc AND 0x3F)"
  define e where "e = 32 - 6 * length (cc # ccs)"
  have e: "32 - 6 * length ccs = e + 6" "e \<le> 26" using Cons.prems(3) by (auto simp: e_def)
  have cp: "unat cp < 2 ^ e" using Cons.prems(2) by (simp only: e_def)
  then have "unat cp * 64 + 64 \<le> 2 ^ e * 64" by linarith
  also have "\<dots> = 2 ^ (e + 6)" by (simp add: power_add)
  finally have b: "unat cp * 64 + 64 \<le> 2 ^ (e + 6)" .
  moreover have "(2 :: nat) ^ (e + 6) \<le> 2 ^ 32" using e(2) by (intro power_increasing) auto
  moreover have m: "unat (ucast cc AND 0x3F :: 32 word) = unat cc mod 64" by (simp add: low_bits)
  ultimately have w: "unat ?w = unat cp * 64 + unat cc mod 64"
    using unat_or_field [of "ucast cc AND 0x3F" 6 cp] mod_less_divisor [of 64 "unat cc"] by (simp only: m) simp
  then have "unat ?w < 2 ^ (e + 6)" using b mod_less_divisor [of 64 "unat cc"] by linarith
  then have "\<exists>w. continuation ccs ?w = Some w \<and> unat w = foldl (\<lambda>a cc. a * 64 + unat cc mod 64) (unat ?w) ccs"
    using Cons.prems by (intro Cons.IH) (auto simp: e)
  then show ?case using Cons.prems(1) w by (simp add: continuation_test)
qed

lemma sequence_length_unat:
  "sequence_length c = (if unat c < 128 then 1 else if unat c < 194 then 0 else if unat c < 224 then 2 else if unat c < 240 then 3
     else if unat c < 245 then 4 else 0)"
  by (simp add: sequence_length_def word_less_nat_alt)

lemma valid_code_point_unat: "valid_code_point cp \<longleftrightarrow> unat cp < 55296 \<or> 57343 < unat cp \<and> unat cp \<le> 1114111"
  by (auto simp: valid_code_point_def word_less_nat_alt word_le_nat_alt)

lemma decode_sequence:
  assumes "sequence_length c = Suc (length ccs)" "list_all (\<lambda>cc. unat cc div 64 = 2) ccs"
    "unat cp = foldl (\<lambda>a cc. a * 64 + unat cc mod 64) (if ccs = [] then unat c else unat c mod 2 ^ (6 - length ccs)) ccs"
    "valid_code_point cp" "min_for_len (sequence_length c) \<le> cp"
  shows "decode_utf8 c (ccs @ rest) = (cp, rest)"
proof -
  let ?lead = "lead_bits (sequence_length c) c"
  have len: "length ccs \<le> 3" using assms(1) by (simp add: sequence_length_unat split: if_splits)
  then consider "length ccs = 0" | "length ccs = 1" | "length ccs = 2" | "length ccs = 3" by linarith
  then have lead: "unat ?lead = (if ccs = [] then unat c else unat c mod 2 ^ (6 - length ccs))"
    by cases (auto simp: lead_bits_def assms(1) low_bits)
  have "unat ?lead < 256" unfolding lead using unat_octet_less [of c] by (auto intro: le_less_trans [OF mod_less_eq_dividend])
  moreover have "(256 :: nat) \<le> 2 ^ (32 - 6 * length ccs)"
  proof -
    have "(2 :: nat) ^ 8 \<le> 2 ^ (32 - 6 * length ccs)" using len by (intro power_increasing) auto
    then show ?thesis by simp
  qed
  ultimately obtain w where w: "continuation ccs ?lead = Some w" "unat w = unat cp"
    using continuation_value [OF assms(2), of ?lead] len assms(3) lead by fastforce
  then have "w = cp" by (simp add: word_unat_eq_iff)
  then show ?thesis using w(1) assms(1,4,5) by (simp add: decode_utf8_def Let_def)
qed


lemma min_for_len_unat [simp]:
  "unat (min_for_len (Suc 0)) = 0" "unat (min_for_len 2) = 128" "unat (min_for_len 3) = 2048" "unat (min_for_len 4) = 65536"
  by (simp_all add: min_for_len_def)

lemma append_utf8_append: "append_utf8 out cp = out @ append_utf8 [] cp"
  by (simp add: append_utf8_def Let_def)

lemma lead_mod:
  "a < 32 \<Longrightarrow> (192 + a) mod 32 = (a :: nat)" "a < 16 \<Longrightarrow> (224 + a) mod 16 = (a :: nat)" "a < 8 \<Longrightarrow> (240 + a) mod 8 = (a :: nat)"
  "a < 64 \<Longrightarrow> (128 + a) mod 64 = (a :: nat)"
  using mod_mult_self3 [of 6 32 a] mod_mult_self3 [of 14 16 a] mod_mult_self3 [of 30 8 a] mod_mult_self3 [of 2 64 a] by simp_all

lemma continuation_div: "(128 + n mod 64) div 64 = (2 :: nat)"
  using div_mult_self3 [of 64 2 "n mod 64"] by simp

lemma six_bit_digits:
  "(n div 4096 * 64 + n div 64 mod 64) * 64 + n mod 64 = (n :: nat)"
  "((n div 262144 * 64 + n div 4096 mod 64) * 64 + n div 64 mod 64) * 64 + n mod 64 = (n :: nat)"
proof -
  have "n div 4096 = n div 64 div 64" "n div 262144 = n div 64 div 64 div 64" by (simp_all add: div_mult2_eq [symmetric])
  then show "(n div 4096 * 64 + n div 64 mod 64) * 64 + n mod 64 = n"
    "((n div 262144 * 64 + n div 4096 mod 64) * 64 + n div 64 mod 64) * 64 + n mod 64 = n" by simp_all
qed

lemma decode_encoded:
  assumes "valid_code_point cp"
  shows "\<exists>c ccs. append_utf8 [] cp = c # ccs \<and> (\<forall>rest. decode_utf8 c (ccs @ rest) = (cp, rest))"
proof -
  let ?n = "unat cp"
  have n: "?n < 2097152" using assms by (auto simp: valid_code_point_unat)
  note enc = append_utf8_def Let_def assms word_less_nat_alt lead_or low_bits unat_drop_bit word_le_nat_alt
  consider "?n < 128" | "128 \<le> ?n" "?n < 2048" | "2048 \<le> ?n" "?n < 65536" | "65536 \<le> ?n" by linarith
  then show ?thesis
  proof cases
    case 1
    then have "decode_utf8 (utf8_octet cp) ([] @ rest) = (cp, rest)" for rest
      using assms by (intro decode_sequence) (simp_all add: sequence_length_unat word_le_nat_alt)
    then show ?thesis using 1 by (simp add: enc)
  next
    case 2
    then have "unat (utf8_octet (0xC0 OR drop_bit 6 cp)) = 192 + ?n div 64" "unat (utf8_octet (0x80 OR (cp AND 0x3F))) = 128 + ?n mod 64"
      by (simp_all add: enc less_mult_imp_div_less)
    moreover have "194 \<le> 192 + ?n div 64" "192 + ?n div 64 < 224" using 2 by linarith+
    ultimately have "decode_utf8 (utf8_octet (0xC0 OR drop_bit 6 cp)) ([utf8_octet (0x80 OR (cp AND 0x3F))] @ rest) = (cp, rest)" for rest
      using assms 2 by (intro decode_sequence) (simp_all add: sequence_length_unat word_le_nat_alt lead_mod del: unat_utf8_octet)
    then show ?thesis using 2 by (simp add: enc)
  next
    case 3
    let ?a = "utf8_octet (0xE0 OR drop_bit 12 cp)" and ?b = "utf8_octet (0x80 OR (drop_bit 6 cp AND 0x3F))" and ?c = "utf8_octet (0x80 OR (cp AND 0x3F))"
    have q: "?n div 4096 < 16" using 3 by linarith
    then have u: "unat ?a = 224 + ?n div 4096" "unat ?b = 128 + ?n div 64 mod 64" "unat ?c = 128 + ?n mod 64"
      by (simp_all add: enc)
    have "decode_utf8 ?a ([?b, ?c] @ rest) = (cp, rest)" for rest
      using assms 3 q six_bit_digits(1) [of ?n] by (intro decode_sequence) (simp_all add: sequence_length_unat word_le_nat_alt lead_mod continuation_div u del: unat_utf8_octet)
    then show ?thesis using 3 by (simp add: enc)
  next
    case 4
    let ?a = "utf8_octet (0xF0 OR drop_bit 18 cp)" and ?b = "utf8_octet (0x80 OR (drop_bit 12 cp AND 0x3F))"
      and ?c = "utf8_octet (0x80 OR (drop_bit 6 cp AND 0x3F))" and ?d = "utf8_octet (0x80 OR (cp AND 0x3F))"
    have q: "?n div 262144 < 5" "?n div 262144 < 8" using assms by (auto simp: valid_code_point_unat)
    then have u: "unat ?a = 240 + ?n div 262144" "unat ?b = 128 + ?n div 4096 mod 64" "unat ?c = 128 + ?n div 64 mod 64" "unat ?d = 128 + ?n mod 64"
      by (simp_all add: enc)
    have "decode_utf8 ?a ([?b, ?c, ?d] @ rest) = (cp, rest)" for rest
      using assms 4 q six_bit_digits(2) [of ?n] by (intro decode_sequence) (simp_all add: sequence_length_unat word_le_nat_alt lead_mod continuation_div u del: unat_utf8_octet)
    then show ?thesis using 4 by (simp add: enc)
  qed
qed


lemma unat_diff: "b \<le> a \<Longrightarrow> unat (a - b :: 32 word) = unat a - unat b"
  by (simp add: unat_sub)

lemma unat_push_bit: "unat (v :: 32 word) * 2 ^ k < 2 ^ 32 \<Longrightarrow> unat (push_bit k v) = unat v * 2 ^ k"
  using unat_or_field [of 0 k v] by simp

lemma append_wide_append: "append_wide utf16 out cp = out @ append_wide utf16 [] cp"
  by (simp add: append_wide_def Let_def)

lemma wide_unit_small: "unat u < 65536 \<Longrightarrow> wide_unit utf16 u = u"
  by (simp add: wide_unit_def word_unat_eq_iff unsigned_take_bit_eq take_bit_nat_eq_self_iff)

lemma unat_plus: "unat a + unat b < 2 ^ 32 \<Longrightarrow> unat (a + b :: 32 word) = unat a + unat b"
  by (simp add: unat_word_ariths)

lemma surrogates_decoded:
  assumes "valid_code_point cp" "0x10000 \<le> cp"
  shows "\<exists>hi lo. append_wide True [] cp = [hi, lo] \<and> (\<forall>rest. decode_wide True hi (lo # rest) = (cp, rest))"
proof -
  let ?c = "cp - 0x10000"
  define n where "n = unat cp - 65536"
  let ?hi = "0xD800 OR drop_bit 10 ?c" and ?lo = "0xDC00 OR (?c AND 0x3FF)"
  have c: "unat ?c = n" "n < 1048576" "unat cp = n + 65536"
    using assms by (auto simp: valid_code_point_unat unat_diff word_le_nat_alt n_def)
  have q: "n div 1024 < 1024" using c(2) by (simp add: less_mult_imp_div_less)
  have hi: "unat ?hi = 55296 + n div 1024" using q by (subst lead_or) (simp_all add: unat_drop_bit c)
  have lo: "unat ?lo = 56320 + n mod 1024" by (subst lead_or) (simp_all add: low_bits c)
  have s: "0xD800 \<le> ?hi" "?hi \<le> 0xDBFF" "0xDC00 \<le> ?lo" "?lo \<le> 0xDFFF"
    using q by (simp_all add: word_le_nat_alt hi lo)
  have d: "unat (?hi - 0xD800) = n div 1024" "unat (?lo - 0xDC00) = n mod 1024"
    using s by (simp_all add: unat_diff hi lo)
  define h l where "h = ?hi - 0xD800" and "l = ?lo - 0xDC00"
  have hl: "unat h = n div 1024" "unat l = n mod 1024" using d by (simp_all only: h_def l_def)
  have p: "unat (push_bit 10 h) = n div 1024 * 1024" using q by (subst unat_push_bit) (simp_all add: hl)
  have b: "n div 1024 * 1024 + n mod 1024 = n" by simp
  have "unat (0x10000 + push_bit 10 h) = 65536 + n div 1024 * 1024" using q by (subst unat_plus) (simp_all only: p, simp_all)
  then have "unat (0x10000 + push_bit 10 h + l) = unat cp" using b c by (subst unat_plus) (simp_all only: hl, simp_all)
  then have "0x10000 + push_bit 10 (?hi - 0xD800) + (?lo - 0xDC00) = cp" by (simp only: word_unat_eq_iff h_def l_def)
  then have "decode_wide True ?hi (?lo # rest) = (cp, rest)" for rest
    using s by (simp add: decode_wide_def)
  moreover have "append_wide True [] cp = [?hi, ?lo]"
    using assms(2) q by (simp add: append_wide_def wide_unit_small hi lo Let_def)
  ultimately show ?thesis by blast
qed

lemma wide_decoded:
  assumes "valid_code_point cp"
  shows "\<exists>u us. append_wide utf16 [] cp = u # us \<and> (\<forall>rest. decode_wide utf16 u (us @ rest) = (cp, rest))"
proof (cases "utf16 \<and> 0x10000 \<le> cp")
  case True
  then show ?thesis using surrogates_decoded [OF assms] by fastforce
next
  case False
  then have "append_wide utf16 [] cp = [cp]"
    by (cases utf16) (simp_all add: append_wide_def wide_unit_small word_le_nat_alt, simp add: wide_unit_def)
  moreover have "decode_wide utf16 cp rest = (cp, rest)" for rest
    using assms by (auto simp: decode_wide_def Let_def valid_code_point_unat word_le_nat_alt)
  ultimately show ?thesis by simp
qed


section \<open>Whole strings\<close>

text \<open>The two encodings of a text, a list of code points.\<close>

definition utf8_text :: "code_point list \<Rightarrow> octets" where
  "utf8_text cps = concat (map (append_utf8 []) cps)"

definition wide_text :: "bool \<Rightarrow> code_point list \<Rightarrow> wide_string" where
  "wide_text utf16 cps = concat (map (append_wide utf16 []) cps)"

lemma to_wstring_loop_text:
  "list_all valid_code_point cps \<Longrightarrow> to_wstring_loop utf16 (utf8_text cps) ret = ret @ wide_text utf16 cps"
proof (induction cps arbitrary: ret)
  case (Cons cp cps)
  then obtain c ccs where "append_utf8 [] cp = c # ccs" "\<And>rest. decode_utf8 c (ccs @ rest) = (cp, rest)"
    using decode_encoded [of cp] by auto
  then show ?case using Cons append_wide_append [of utf16 ret cp] by (simp add: utf8_text_def wide_text_def)
qed (simp add: utf8_text_def wide_text_def)

lemma to_string_loop_text:
  "list_all valid_code_point cps \<Longrightarrow> to_string_loop utf16 (wide_text utf16 cps) ret = ret @ utf8_text cps"
proof (induction cps arbitrary: ret)
  case (Cons cp cps)
  then obtain u us where "append_wide utf16 [] cp = u # us" "\<And>rest. decode_wide utf16 u (us @ rest) = (cp, rest)"
    using wide_decoded [of cp utf16] by auto
  then show ?case using Cons append_utf8_append [of ret cp] by (simp add: utf8_text_def wide_text_def)
qed (simp add: utf8_text_def wide_text_def)

lemma replacement_char_valid [simp]: "valid_code_point replacement_char"
  by (simp add: valid_code_point_def replacement_char_def)

lemma decode_utf8_valid: "decode_utf8 c str = (cp, rest) \<Longrightarrow> valid_code_point cp"
  by (auto simp: decode_utf8_def Let_def split: if_splits option.splits)

lemma to_wstring_loop_valid:
  "\<exists>cps. list_all valid_code_point cps \<and> length cps \<le> length str \<and> to_wstring_loop utf16 str ret = ret @ wide_text utf16 cps"
proof (induction utf16 str ret rule: to_wstring_loop.induct)
  case (1 utf16 ret)
  then show ?case by (simp add: wide_text_def)
next
  case (2 utf16 c str ret)
  obtain cp rest where d: "decode_utf8 c str = (cp, rest)" by fastforce
  obtain cps where "list_all valid_code_point cps" "length cps \<le> length rest"
    "to_wstring_loop utf16 rest (append_wide utf16 ret cp) = append_wide utf16 ret cp @ wide_text utf16 cps"
    using "2.IH" [OF d [symmetric]] by blast
  then show ?case using d decode_utf8_valid [OF d] decode_utf8_shorter [OF d] append_wide_append [of utf16 ret cp]
    by (intro exI [of _ "cp # cps"]) (simp add: wide_text_def)
qed

section \<open>Separators\<close>

text \<open>\<^verbatim>\<open>find_first_of\<close> from the current position: the characters before the first separator and, unless there is none, what follows it.\<close>

definition find_first_of :: "'a list \<Rightarrow> 'a list \<Rightarrow> 'a list \<times> 'a list option" where
  "find_first_of sep view =
     (let before = takeWhile (\<lambda>c. c \<notin> set sep) view in
      (before, case dropWhile (\<lambda>c. c \<notin> set sep) view of [] \<Rightarrow> None | _ # rest \<Rightarrow> Some rest))"

lemma find_first_of_shorter: "find_first_of sep view = (piece, Some rest) \<Longrightarrow> length rest < length view"
  using length_dropWhile_le [of "\<lambda>c. c \<notin> set sep" view] by (auto simp: find_first_of_def Let_def split: list.splits)

function split_loop :: "'a list \<Rightarrow> 'a list \<Rightarrow> 'a list list \<Rightarrow> 'a list list" where
  "split_loop sep view res =
     (case find_first_of sep view of
        (piece, None) \<Rightarrow> res @ [piece]
      | (piece, Some rest) \<Rightarrow> split_loop sep rest (res @ [piece]))"
  by pat_completeness auto

termination split_loop
  by (relation "measure (\<lambda>(_, view, _). length view)") (auto dest: find_first_of_shorter [OF sym])

definition split_view :: "'a list \<Rightarrow> 'a list \<Rightarrow> 'a list list" where
  "split_view view sep = (if view \<noteq> [] then split_loop sep view [] else [])"

function tokenise_loop :: "'a list \<Rightarrow> 'a list \<Rightarrow> 'a list list \<Rightarrow> 'a list list" where
  "tokenise_loop sep view res =
     (case find_first_of sep view of
        (piece, None) \<Rightarrow> res @ [piece]
      | (piece, Some rest) \<Rightarrow> tokenise_loop sep rest (if length piece > 0 then res @ [piece] else res))"
  by pat_completeness auto

termination tokenise_loop
  by (relation "measure (\<lambda>(_, view, _). length view)") (auto dest: find_first_of_shorter [OF sym])

definition tokenise_view :: "'a list \<Rightarrow> 'a list \<Rightarrow> 'a list list" where
  "tokenise_view view sep = (if view \<noteq> [] then tokenise_loop sep view [] else [])"

declare split_loop.simps [simp del] tokenise_loop.simps [simp del]


text \<open>Every element becomes two hexadecimal digits; a separator goes in front of it unless the result is still empty.\<close>

definition hex_pair :: "octet \<Rightarrow> string" where
  "hex_pair c = [''0123456789ABCDEF'' ! unat (drop_bit 4 c), ''0123456789ABCDEF'' ! unat (c AND 0x0F)]"

definition to_hex_separated :: "octets \<Rightarrow> string \<Rightarrow> string" where
  "to_hex_separated str sep = foldl (\<lambda>ret c. (if ret \<noteq> [] then ret @ sep else ret) @ hex_pair c) [] str"

section \<open>Cutting at separators\<close>

text \<open>The recursive reading of a cut: a separator ends a piece.\<close>

fun pieces :: "'a list \<Rightarrow> 'a list \<Rightarrow> 'a list list" where
  "pieces sep [] = [[]]"
| "pieces sep (c # cs) = (if c \<in> set sep then [] # pieces sep cs else (case pieces sep cs of p # ps \<Rightarrow> (c # p) # ps | [] \<Rightarrow> []))"

lemma pieces_not_Nil [simp]: "pieces sep cs \<noteq> []"
  by (induction cs) (auto split: list.splits)

lemma pieces_found:
  "pieces sep view = (case find_first_of sep view of (piece, None) \<Rightarrow> [piece] | (piece, Some rest) \<Rightarrow> piece # pieces sep rest)"
  by (induction view) (auto simp: find_first_of_def Let_def split: list.splits option.splits)

lemma split_loop_pieces: "split_loop sep view res = res @ pieces sep view"
proof (induction sep view res rule: split_loop.induct)
  case (1 sep view res)
  then show ?case
    by (subst split_loop.simps, subst pieces_found) (auto split: prod.splits option.splits)
qed

lemma tokenise_loop_pieces:
  "tokenise_loop sep view res = res @ filter (\<lambda>p. p \<noteq> []) (butlast (pieces sep view)) @ [last (pieces sep view)]"
proof (induction sep view res rule: tokenise_loop.induct)
  case (1 sep view res)
  then show ?case
    by (subst tokenise_loop.simps, subst (1 2) pieces_found) (auto split: prod.splits option.splits)
qed


fun joined :: "'a \<Rightarrow> 'a list list \<Rightarrow> 'a list" where
  "joined c [] = []"
| "joined c [p] = p"
| "joined c (p # q # ps) = p @ c # joined c (q # ps)"

lemma joined_Cons: "joined c ((x # p) # ps) = x # joined c (p # ps)"
  by (cases ps) simp_all

lemma joined_pieces: "joined c (pieces [c] view) = view"
proof (induction view)
  case (Cons x view)
  obtain p ps where "pieces [c] view = p # ps" by (cases "pieces [c] view") auto
  then show ?case using Cons by (auto simp: joined_Cons)
qed simp

lemma pieces_no_separator: "p \<in> set (pieces sep view) \<Longrightarrow> set p \<inter> set sep = {}"
proof (induction view arbitrary: p)
  case (Cons x view)
  then show ?case by (cases "pieces sep view") (fastforce split: if_splits)+
qed simp

lemma split_view_joined: "joined c (split_view view [c]) = view"
  by (simp add: split_view_def split_loop_pieces joined_pieces)

lemma split_view_pieces:
  "p \<in> set (split_view view sep) \<Longrightarrow> set p \<inter> set sep = {}"
  "view \<noteq> [] \<Longrightarrow> tokenise_view view sep = filter (\<lambda>p. p \<noteq> []) (butlast (split_view view sep)) @ [last (split_view view sep)]"
  by (auto simp: split_view_def tokenise_view_def split_loop_pieces tokenise_loop_pieces dest: pieces_no_separator split: if_splits)

section \<open>Properties\<close>

text \<open>A sequence that is too long for its code point is skipped as a whole and gives one replacement character: only a missing or
  wrong continuation octet is skipped alone.\<close>

lemma overlong_skipped: "decode_utf8 0xE0 (0x80 # 0x80 # rest) = (replacement_char, rest)"
  by (simp add: decode_utf8_def Let_def sequence_length_def lead_bits_def min_for_len_def)

lemma bad_continuation_kept: "decode_utf8 0xE0 (0x41 # 0x80 # rest) = (replacement_char, 0x41 # 0x80 # rest)"
  by (simp add: decode_utf8_def Let_def sequence_length_def)

text \<open>The conversions between UTF-8 and wide strings, for either width of a wide character, are inverse to each other on every text of
  valid code points; and whatever octets \<^verbatim>\<open>to_wstring\<close> is given, it ends, with at most one code point for each octet, in a valid text
  that \<^verbatim>\<open>to_string\<close> turns into the UTF-8 encoding of the same code points.\<close>

theorem text_roundtrip:
  assumes "list_all valid_code_point cps"
  shows "to_wstring utf16 (utf8_text cps) = wide_text utf16 cps \<and> to_string utf16 (wide_text utf16 cps) = utf8_text cps \<and>
    (\<forall>str. \<exists>ds. list_all valid_code_point ds \<and> length ds \<le> length str \<and> to_wstring utf16 str = wide_text utf16 ds \<and>
       to_string utf16 (to_wstring utf16 str) = utf8_text ds)"
  using to_wstring_loop_text [OF assms] to_string_loop_text [OF assms]
proof (intro conjI allI)
  fix str
  obtain ds where "list_all valid_code_point ds" "length ds \<le> length str" "to_wstring_loop utf16 str [] = [] @ wide_text utf16 ds"
    using to_wstring_loop_valid by blast
  then show "\<exists>ds. list_all valid_code_point ds \<and> length ds \<le> length str \<and> to_wstring utf16 str = wide_text utf16 ds \<and>
       to_string utf16 (to_wstring utf16 str) = utf8_text ds"
    by (auto simp: to_wstring_def to_string_def to_string_loop_text)
qed (simp_all add: to_wstring_def to_string_def)

theorem text_roundtrip_witness:
  "to_wstring True (utf8_text [0xE4, 0x1F3B5]) = wide_text True [0xE4, 0x1F3B5] \<and>
   utf8_text [0xE4, 0x1F3B5] = [0xC3, 0xA4, 0xF0, 0x9F, 0x8E, 0xB5] \<and> wide_text True [0xE4, 0x1F3B5] = [0xE4, 0xD83C, 0xDFB5]"
proof -
  have "list_all valid_code_point [0xE4, 0x1F3B5]" by (simp add: valid_code_point_def)
  from text_roundtrip [OF this, of True] show ?thesis
    by (simp add: utf8_text_def wide_text_def append_utf8_def append_wide_def Let_def valid_code_point_def utf8_octet_def wide_unit_def)
qed


end
