(* ===== verification/Command_Parser.thy ===== *)
theory Command_Parser
  imports Prelude "HOL-Library.List_Lexorder" "HOL-Library.Char_ord"
begin

text \<open>
  \<^verbatim>\<open>util/command_parser.hpp\<close> and \<^verbatim>\<open>.cpp\<close>: the parameters of the programs. An input stream is what is left of it and its two state
  bits; the operations on it are those of the standard library that the parser uses. A registered variable is a slot of a
  store. The type \<^verbatim>\<open>T\<close> of a template is given by the operations the parser uses of it, and all values are of one type.
  The three loops of the parser are partial functions, whose value is \<^verbatim>\<open>None\<close> when they do not end.
\<close>

section \<open>Input streams\<close>

record istream =
  in_rest :: string
  in_eof :: bool
  in_fail :: bool

definition istringstream :: "string \<Rightarrow> istream" where
  "istringstream s = \<lparr>in_rest = s, in_eof = False, in_fail = False\<rparr>"

definition good :: "istream \<Rightarrow> bool" where
  "good st \<longleftrightarrow> \<not> in_eof st \<and> \<not> in_fail st"

definition is_space :: "char \<Rightarrow> bool" where
  "is_space c \<longleftrightarrow> c \<in> {CHR '' '', CHR 0x09, CHR 0x0A, CHR 0x0B, CHR 0x0C, CHR 0x0D}"

text \<open>\<^verbatim>\<open>in >> std::ws\<close>: every input operation on a stream that is not good sets the fail bit, and nothing else.\<close>

definition in_ws :: "istream \<Rightarrow> istream" where
  "in_ws st =
     (if \<not> good st then st\<lparr>in_fail := True\<rparr>
      else let r = dropWhile is_space (in_rest st) in st\<lparr>in_rest := r, in_eof := (r = [])\<rparr>)"

definition in_peek :: "istream \<Rightarrow> char option \<times> istream" where
  "in_peek st =
     (if \<not> good st then (None, st\<lparr>in_fail := True\<rparr>)
      else case in_rest st of [] \<Rightarrow> (None, st\<lparr>in_eof := True\<rparr>) | c # _ \<Rightarrow> (Some c, st))"

definition in_get :: "istream \<Rightarrow> char option \<times> istream" where
  "in_get st =
     (if \<not> good st then (None, st\<lparr>in_fail := True\<rparr>)
      else case in_rest st of [] \<Rightarrow> (None, st\<lparr>in_eof := True, in_fail := True\<rparr>) | c # r \<Rightarrow> (Some c, st\<lparr>in_rest := r\<rparr>))"

definition in_ignore :: "istream \<Rightarrow> istream" where
  "in_ignore st =
     (if \<not> good st then st\<lparr>in_fail := True\<rparr>
      else case in_rest st of [] \<Rightarrow> st\<lparr>in_eof := True\<rparr> | c # r \<Rightarrow> st\<lparr>in_rest := r\<rparr>)"

text \<open>\<^verbatim>\<open>in >> s\<close> for an empty string \<^verbatim>\<open>s\<close>.\<close>

definition in_word :: "istream \<Rightarrow> string \<times> istream" where
  "in_word st =
     (if \<not> good st then ([], st\<lparr>in_fail := True\<rparr>)
      else let r = dropWhile is_space (in_rest st); w = takeWhile (\<lambda>c. \<not> is_space c) r; r' = drop (length w) r in
        (w, st\<lparr>in_rest := r', in_eof := (r' = []), in_fail := (w = [])\<rparr>))"

section \<open>Commands\<close>

datatype invalid_argument =
    Unterminated_quote
  | No_parameter string
  | Invalid_amount "string list"
  | Failed_to_interpret string

datatype 'v var = Value 'v | Text string | Values "'v list" | Optional "'v option" | Flag bool

text \<open>What the parser uses of a type: its default value, \<^verbatim>\<open>operator>>\<close> on a stream of a string, which gives the new value and whether
  the stream has not failed, and \<^verbatim>\<open>operator<<\<close>.\<close>

record 'v type_ops =
  ty_default :: 'v
  ty_extract :: "string \<Rightarrow> 'v \<Rightarrow> 'v \<times> bool"
  ty_print :: "'v \<Rightarrow> string"

datatype 'v command_base =
    Normal_command "'v type_ops" nat
  | Normal_string_command nat
  | Vector_command "'v type_ops" nat
  | Optional_command "'v type_ops" nat
  | Bool_command nat

record 'v command =
  cmd_name :: string
  cmd_alias :: string
  cmd_info :: string
  cmd_extract :: "'v command_base"

type_synonym 'v vars = "nat \<Rightarrow> 'v var"

definition normal_parse :: "'v type_ops \<Rightarrow> nat \<Rightarrow> string list \<Rightarrow> ('v vars, invalid_argument, unit) action" where
  "normal_parse T i args vs =
     (case args of
        [arg] \<Rightarrow> (case ty_extract T arg (case vs i of Value v \<Rightarrow> v | _ \<Rightarrow> ty_default T) of
           (v, ok) \<Rightarrow> (if \<not> ok then Inl (Failed_to_interpret arg) else Inr (), vs(i := Value v)))
      | _ \<Rightarrow> (Inl (Invalid_amount args), vs))"

definition string_parse :: "nat \<Rightarrow> string list \<Rightarrow> ('v vars, invalid_argument, unit) action" where
  "string_parse i args vs = (case args of [arg] \<Rightarrow> (Inr (), vs(i := Text arg)) | _ \<Rightarrow> (Inl (Invalid_amount args), vs))"

primrec vector_loop :: "'v type_ops \<Rightarrow> string list \<Rightarrow> 'v list \<Rightarrow> (invalid_argument + unit) \<times> 'v list" where
  "vector_loop T [] value = (Inr (), value)"
| "vector_loop T (v # args) value =
     (case ty_extract T v (ty_default T) of (temp, ok) \<Rightarrow>
        if \<not> ok then (Inl (Failed_to_interpret v), value) else vector_loop T args (value @ [temp]))"

definition vector_parse :: "'v type_ops \<Rightarrow> nat \<Rightarrow> string list \<Rightarrow> ('v vars, invalid_argument, unit) action" where
  "vector_parse T i args vs = (case vector_loop T args [] of (r, value) \<Rightarrow> (r, vs(i := Values value)))"

definition optional_parse :: "'v type_ops \<Rightarrow> nat \<Rightarrow> string list \<Rightarrow> ('v vars, invalid_argument, unit) action" where
  "optional_parse T i args vs =
     (case args of
        [] \<Rightarrow> (Inr (), vs(i := Optional (Some (ty_default T))))
      | [arg] \<Rightarrow> (case ty_extract T arg (ty_default T) of
           (v, ok) \<Rightarrow> (if \<not> ok then Inl (Failed_to_interpret arg) else Inr (), vs(i := Optional (Some v))))
      | _ \<Rightarrow> (Inl (Invalid_amount args), vs))"

definition bool_parse :: "nat \<Rightarrow> string list \<Rightarrow> ('v vars, invalid_argument, unit) action" where
  "bool_parse i args vs = (Inr (), vs(i := Flag True))"

definition command_parse :: "'v command_base \<Rightarrow> string list \<Rightarrow> ('v vars, invalid_argument, unit) action" where
  "command_parse c = (case c of
      Normal_command T i \<Rightarrow> normal_parse T i
    | Normal_string_command i \<Rightarrow> string_parse i
    | Vector_command T i \<Rightarrow> vector_parse T i
    | Optional_command T i \<Rightarrow> optional_parse T i
    | Bool_command i \<Rightarrow> bool_parse i)"

text \<open>\<^verbatim>\<open>std::map::insert\<close> on the association list in the order of its keys: an existing entry stays.\<close>

fun map_insert :: "string \<Rightarrow> 'b \<Rightarrow> (string \<times> 'b) list \<Rightarrow> (string \<times> 'b) list" where
  "map_insert k v [] = [(k, v)]"
| "map_insert k v ((k', v') # m) = (if k < k' then (k, v) # (k', v') # m else if k = k' then (k', v') # m else (k', v') # map_insert k v m)"

type_synonym 'v command_parser = "(string \<times> 'v command) list"

definition add_impl :: "'v command_base \<Rightarrow> string \<Rightarrow> string \<Rightarrow> string \<Rightarrow> 'v command_parser \<Rightarrow> 'v command_parser" where
  "add_impl e name alias info commands =
     (let p = \<lparr>cmd_name = name, cmd_alias = alias, cmd_info = info, cmd_extract = e\<rparr>;
          c1 = (if name \<noteq> [] then map_insert (''--'' @ name) p commands else commands)
      in if alias \<noteq> [] then map_insert (''-'' @ alias) p c1 else c1)"

section \<open>Parsing\<close>

definition octet_of_eof :: char where
  "octet_of_eof = CHR 0xFF"

definition as_char :: "char option \<Rightarrow> char" where
  "as_char c = (case c of None \<Rightarrow> octet_of_eof | Some c \<Rightarrow> c)"

text \<open>\<^verbatim>\<open>parse_quoted\<close>; a call of \<^verbatim>\<open>peek\<close> may set a state bit, so that the stream it leaves is passed on.\<close>

partial_function (option) quoted_loop :: "istream \<Rightarrow> string \<Rightarrow> (string \<times> istream) option" where
  [code]: "quoted_loop st s =
     (if good st then
        case in_peek st of (c, st1) \<Rightarrow>
          if c \<noteq> Some (CHR 0x22) then (case in_get st1 of (g, st2) \<Rightarrow> quoted_loop st2 (s @ [as_char g])) else Some (s, st1)
      else Some (s, st))"

definition parse_quoted :: "istream \<Rightarrow> (invalid_argument + string \<times> istream) option" where
  "parse_quoted st =
     Option.bind (quoted_loop (in_ignore st) []) (\<lambda>(s, st1).
       Some (if \<not> good st1 then Inl Unterminated_quote else Inr (s, in_ignore st1)))"

definition parse_name :: "istream \<Rightarrow> string \<times> istream" where
  "parse_name st = in_word st"

definition parse_arg :: "istream \<Rightarrow> (invalid_argument + string \<times> istream) option" where
  "parse_arg st =
     (case in_peek st of (c, st1) \<Rightarrow> if c = Some (CHR 0x22) then parse_quoted st1 else Some (Inr (in_word st1)))"

text \<open>The loop of \<^verbatim>\<open>parse_args\<close>.\<close>

partial_function (option) args_loop :: "istream \<Rightarrow> string list \<Rightarrow> (invalid_argument + string list \<times> istream) option" where
  [code]: "args_loop st args =
     (let st1 = in_ws st in
      if in_fail st1 then Some (Inr (args, st1))
      else case in_peek st1 of (c, st2) \<Rightarrow>
        if c = Some (CHR ''-'') then Some (Inr (args, st2))
        else Option.bind (parse_arg st2) (\<lambda>r. case r of
            Inl e \<Rightarrow> Some (Inl e)
          | Inr p \<Rightarrow> args_loop (snd p) (if fst p \<noteq> [] then args @ [fst p] else args)))"

definition run_command :: "'v command_parser \<Rightarrow> string \<Rightarrow> string list \<Rightarrow> ('v vars, invalid_argument, unit) action" where
  "run_command commands name args vs =
     (case map_of commands name of None \<Rightarrow> (Inl (No_parameter name), vs) | Some c \<Rightarrow> command_parse (cmd_extract c) args vs)"

definition parse_args :: "'v command_parser \<Rightarrow> istream \<Rightarrow> string \<Rightarrow> 'v vars \<Rightarrow> ((invalid_argument + istream) \<times> 'v vars) option" where
  "parse_args commands st name vs =
     Option.bind (args_loop st []) (\<lambda>r. Some (case r of
         Inl e \<Rightarrow> (Inl e, vs)
       | Inr (args, st1) \<Rightarrow> (case run_command commands name args vs of
            (Inl e, vs1) \<Rightarrow> (Inl e, vs1)
          | (Inr _, vs1) \<Rightarrow> (Inr st1, vs1))))"

text \<open>\<^verbatim>\<open>parse(std::istream&)\<close>.\<close>

partial_function (option) parse_stream :: "'v command_parser \<Rightarrow> istream \<Rightarrow> 'v vars \<Rightarrow> ((invalid_argument + unit) \<times> 'v vars) option" where
  [code]: "parse_stream commands st vs =
     (let st1 = in_ws st in
      if in_fail st1 then Some (Inr (), vs)
      else case in_peek st1 of (c, st2) \<Rightarrow>
        Option.bind
          (if c = Some (CHR ''-'') then (case parse_name st2 of (name, st3) \<Rightarrow> parse_args commands st3 name vs)
           else Option.bind (parse_arg st2) (\<lambda>r. Some (case r of Inl e \<Rightarrow> (Inl e, vs) | Inr (_, st3) \<Rightarrow> (Inr st3, vs))))
          (\<lambda>p. case fst p of Inl e \<Rightarrow> Some (Inl e, snd p) | Inr st3 \<Rightarrow> parse_stream commands st3 (snd p)))"

definition parse_string :: "'v command_parser \<Rightarrow> string \<Rightarrow> 'v vars \<Rightarrow> ((invalid_argument + unit) \<times> 'v vars) option" where
  "parse_string commands s vs = parse_stream commands (istringstream s) vs"

definition quote_arg :: "string \<Rightarrow> string" where
  "quote_arg arg = (if CHR '' '' \<in> set arg then [CHR 0x22] @ arg @ [CHR 0x22] else arg)"

text \<open>\<^verbatim>\<open>parse(int argc, char* args[])\<close> on the arguments behind the program's name; the loop adds a space in front of every argument
  but the first.\<close>

primrec argv_text :: "string list \<Rightarrow> string" where
  "argv_text [] = []"
| "argv_text (arg # args) = '' '' @ quote_arg arg @ argv_text args"

definition parse_argv :: "'v command_parser \<Rightarrow> string list \<Rightarrow> 'v vars \<Rightarrow> ((invalid_argument + unit) \<times> 'v vars) option" where
  "parse_argv commands args vs =
     (case args of
        [] \<Rightarrow> parse_string commands [] vs
      | arg # rest \<Rightarrow> parse_string commands (quote_arg arg @ argv_text rest) vs)"

text \<open>\<^verbatim>\<open>parse_file\<close> on the lines of the file.\<close>

primrec parse_lines :: "'v command_parser \<Rightarrow> string list \<Rightarrow> 'v vars \<Rightarrow> ((invalid_argument + unit) \<times> 'v vars) option" where
  "parse_lines commands [] vs = Some (Inr (), vs)"
| "parse_lines commands (line # ls) vs =
     Option.bind (parse_string commands line vs) (\<lambda>p. case fst p of
         Inl e \<Rightarrow> Some (Inl e, snd p)
       | Inr _ \<Rightarrow> parse_lines commands ls (snd p))"

section \<open>Help\<close>

text \<open>\<^verbatim>\<open>print_list\<close>.\<close>

definition print_list :: "string \<Rightarrow> string list \<Rightarrow> string" where
  "print_list separator c = (case c of [] \<Rightarrow> [] | v # vs \<Rightarrow> v @ concat (map (\<lambda>w. separator @ w) vs))"

definition command_print :: "'v command_base \<Rightarrow> 'v vars \<Rightarrow> string" where
  "command_print c vs = (case c of
      Normal_command T i \<Rightarrow> (case vs i of Value v \<Rightarrow> ty_print T v | _ \<Rightarrow> [])
    | Normal_string_command i \<Rightarrow> (case vs i of Text s \<Rightarrow> s | _ \<Rightarrow> [])
    | Vector_command T i \<Rightarrow> (case vs i of Values v \<Rightarrow> print_list '', '' (map (ty_print T) v) | _ \<Rightarrow> [])
    | Optional_command T i \<Rightarrow> (case vs i of Optional (Some v) \<Rightarrow> ty_print T v | _ \<Rightarrow> ''<value not set>'')
    | Bool_command i \<Rightarrow> (case vs i of Flag b \<Rightarrow> if b then ''true'' else ''false'' | _ \<Rightarrow> []))"

text \<open>\<^verbatim>\<open>print_align::align\<close> on the text collected so far: a text that is too long is cut.\<close>

definition align :: "nat \<Rightarrow> string \<Rightarrow> string" where
  "align s t = (let str = take s t in str @ replicate (s - length str) (CHR '' ''))"

definition help_line :: "'v vars \<Rightarrow> string \<times> 'v command \<Rightarrow> string" where
  "help_line vs v =
     (if take 2 (fst v) = ''--'' then
        let info = snd v;
            alias = (if cmd_alias info \<noteq> [] then '', -'' @ cmd_alias info else []);
            eout = command_print (cmd_extract info) vs
        in align 50 (''--'' @ cmd_name info @ alias) @ '' '' @ cmd_info info @
           (if eout \<noteq> [] then '' ('' @ eout @ '')'' else []) @ [CHR 0x0A]
      else [])"

definition print_help :: "'v command_parser \<Rightarrow> 'v vars \<Rightarrow> string" where
  "print_help commands vs = concat (map (help_line vs) commands)"


section \<open>Every loop ends\<close>

lemma in_ws_cases:
  "in_ws st = (if good st then \<lparr>in_rest = dropWhile is_space (in_rest st), in_eof = (dropWhile is_space (in_rest st) = []), in_fail = False\<rparr>
     else st\<lparr>in_fail := True\<rparr>)"
  by (cases st) (auto simp: in_ws_def good_def Let_def)

lemma quoted_loop_bad: "\<not> good st \<Longrightarrow> quoted_loop st s = Some (s, st)"
  by (subst quoted_loop.simps) simp

lemma quoted_loop_ends: "\<exists>s' st'. quoted_loop st s = Some (s', st') \<and> length (in_rest st') \<le> length (in_rest st)"
proof (induction "length (in_rest st)" arbitrary: st s rule: less_induct)
  case less
  consider "\<not> good st" | "good st" "in_rest st = []" | c r where "good st" "in_rest st = c # r" by (cases "in_rest st") auto
  then show ?case
  proof cases
    case 1
    then show ?thesis by (simp add: quoted_loop_bad)
  next
    case 2
    then show ?thesis
      by (subst quoted_loop.simps) (simp add: in_peek_def in_get_def good_def quoted_loop_bad)
  next
    case 3
    let ?st = "st\<lparr>in_rest := r\<rparr>"
    have "\<exists>s' st'. quoted_loop ?st (s @ [c]) = Some (s', st') \<and> length (in_rest st') \<le> length r"
      using less [of ?st "s @ [c]"] 3 by simp
    then show ?thesis using 3
      by (subst quoted_loop.simps) (auto simp: in_peek_def in_get_def as_char_def good_def intro: le_SucI)
  qed
qed

lemma in_word_shorter: "in_word st = (w, st') \<Longrightarrow> length (in_rest st') \<le> length (in_rest st)"
  using le_trans [OF diff_le_self length_dropWhile_le] by (auto simp: in_word_def Let_def split: if_splits)

lemma in_word_consumes:
  assumes "in_word st = (w, st')" "good st" "in_rest st = c # r" "\<not> is_space c"
  shows "length (in_rest st') < length (in_rest st)"
  using assms by (auto simp: in_word_def Let_def)

lemma in_ignore_shorter: "length (in_rest (in_ignore st)) \<le> length (in_rest st)"
  by (auto simp: in_ignore_def split: list.splits)

text \<open>An argument is always read, or refused; when the stream has a character other than a space it gets shorter, and when it has
  none it fails.\<close>

lemma parse_arg_ends:
  assumes "in_eof st \<longleftrightarrow> in_rest st = []" "\<not> in_fail st" "\<And>c r. in_rest st = c # r \<Longrightarrow> \<not> is_space c"
    "in_peek st = (c, st1)"
  shows "\<exists>r. parse_arg st1 = Some r \<and> (\<forall>a st2. r = Inr (a, st2) \<longrightarrow>
    2 * length (in_rest st2) + (if in_fail st2 then 0 else 1) < 2 * length (in_rest st) + 1)"
proof (cases "in_rest st")
  case Nil
  then show ?thesis using assms by (auto simp: in_peek_def good_def parse_arg_def in_word_def)
next
  case (Cons d r)
  then have st: "good st" "c = Some d" "st1 = st" "in_peek st = (Some d, st)" "\<not> is_space d" using assms by (auto simp: in_peek_def good_def)
  show ?thesis
  proof (cases "d = CHR 0x22")
    case True
    obtain s' st' where q: "quoted_loop (st\<lparr>in_rest := r\<rparr>) [] = Some (s', st')" "length (in_rest st') \<le> length r"
      using quoted_loop_ends [of "st\<lparr>in_rest := r\<rparr>" "[]"] by auto
    have "in_ignore st = st\<lparr>in_rest := r\<rparr>" using st Cons by (simp add: in_ignore_def)
    then show ?thesis using True st q(1) Cons le_trans [OF in_ignore_shorter q(2)]
      by (auto simp: parse_arg_def parse_quoted_def)
  next
    case False
    obtain w st' where "in_word st = (w, st')" by fastforce
    then show ?thesis using False st Cons in_word_consumes [of st w st' d r] by (auto simp: parse_arg_def)
  qed
qed

lemma in_ws_shape:
  assumes "\<not> in_fail (in_ws st)"
  shows "in_eof (in_ws st) \<longleftrightarrow> in_rest (in_ws st) = []" "in_rest (in_ws st) = c # r \<Longrightarrow> \<not> is_space c"
    "length (in_rest (in_ws st)) \<le> length (in_rest st)" "\<not> in_fail st"
proof -
  have g: "good st" using assms by (auto simp: in_ws_cases split: if_splits)
  show "in_eof (in_ws st) \<longleftrightarrow> in_rest (in_ws st) = []" "length (in_rest (in_ws st)) \<le> length (in_rest st)" "\<not> in_fail st"
    using g by (simp_all add: in_ws_cases length_dropWhile_le) (simp add: good_def)
  show "in_rest (in_ws st) = c # r \<Longrightarrow> \<not> is_space c"
    using g hd_dropWhile [of is_space "in_rest st"] by (auto simp: in_ws_cases)
qed

lemma args_loop_ends: "\<exists>r. args_loop st args = Some r \<and> (\<forall>as st'. r = Inr (as, st') \<longrightarrow> length (in_rest st') \<le> length (in_rest st))"
proof (induction "2 * length (in_rest st) + (if in_fail st then 0 else 1)" arbitrary: st args rule: less_induct)
  case less
  let ?st = "in_ws st"
  show ?case
  proof (cases "in_fail ?st")
    case True
    then show ?thesis by (subst args_loop.simps) (auto simp: Let_def in_ws_cases length_dropWhile_le)
  next
    case False
    note w = in_ws_shape [OF False]
    obtain c st1 where p: "in_peek ?st = (c, st1)" by fastforce
    have same: "in_rest st1 = in_rest ?st" using p by (auto simp: in_peek_def split: if_splits list.splits)
    obtain r where r: "parse_arg st1 = Some r"
      "\<And>a st2. r = Inr (a, st2) \<Longrightarrow> 2 * length (in_rest st2) + (if in_fail st2 then 0 else 1) < 2 * length (in_rest ?st) + 1"
      using parse_arg_ends [of ?st c st1, OF w(1) False _ p] w(2) by blast
    have "\<exists>q. args_loop st2 as = Some q \<and> (\<forall>as' st'. q = Inr (as', st') \<longrightarrow> length (in_rest st') \<le> length (in_rest st))"
      if a: "r = Inr (a, st2)" for a st2 as
    proof -
      have "2 * length (in_rest st2) + (if in_fail st2 then 0 else 1) < 2 * length (in_rest st) + (if in_fail st then 0 else 1)"
        using r(2) [OF a] w(3,4) by simp
      then have "\<exists>q. args_loop st2 as = Some q \<and> (\<forall>as' st'. q = Inr (as', st') \<longrightarrow> length (in_rest st') \<le> length (in_rest st2))"
        by (rule less)
      moreover have "length (in_rest st2) \<le> length (in_rest st)" using r(2) [OF a] w(3) by simp
      ultimately show ?thesis using le_trans by blast
    qed
    note step = this
    have "args_loop st args = (if c = Some (CHR ''-'') then Some (Inr (args, st1)) else case r of
        Inl e \<Rightarrow> Some (Inl e) | Inr p \<Rightarrow> args_loop (snd p) (if fst p \<noteq> [] then args @ [fst p] else args))"
      using False p r(1) by (subst args_loop.simps) (simp add: Let_def)
    then show ?thesis using step w(3) same by (cases r) (auto split: if_splits)
  qed
qed


lemma parse_stream_ends: "\<exists>r. parse_stream commands st vs = Some r"
proof (induction "2 * length (in_rest st) + (if in_fail st then 0 else 1)" arbitrary: st vs rule: less_induct)
  case less
  let ?st = "in_ws st"
  show ?case
  proof (cases "in_fail ?st")
    case True
    then show ?thesis by (subst parse_stream.simps) (simp add: Let_def)
  next
    case False
    note w = in_ws_shape [OF False]
    obtain c st1 where p: "in_peek ?st = (c, st1)" by fastforce
    have step: "\<exists>r. parse_stream commands st2 vs2 = Some r"
      if "2 * length (in_rest st2) + (if in_fail st2 then 0 else 1) < 2 * length (in_rest ?st) + 1" for st2 vs2
      using less [of st2 vs2] that w(3,4) by simp
    show ?thesis
    proof (cases "c = Some (CHR ''-'')")
      case True
      obtain name st2 where n: "in_word st1 = (name, st2)" by fastforce
      have "st1 = ?st" "good ?st" "\<exists>r. in_rest ?st = CHR ''-'' # r" using p True by (auto simp: in_peek_def split: if_splits list.splits)
      then have "length (in_rest st2) < length (in_rest ?st)" using n in_word_consumes [of ?st name st2] w(2) by metis
      moreover obtain r where r: "args_loop st2 [] = Some r" "\<And>as st'. r = Inr (as, st') \<Longrightarrow> length (in_rest st') \<le> length (in_rest st2)"
        using args_loop_ends [of st2 "[]"] by blast
      ultimately have "\<exists>q. parse_stream commands st3 vs2 = Some q" if "r = Inr (as, st3)" for as st3 vs2
        using r(2) [OF that] by (intro step) auto
      then show ?thesis using False p True n r(1)
        by (subst parse_stream.simps) (auto simp: Let_def parse_name_def parse_args_def split: sum.splits prod.splits)
    next
      case nd: False
      obtain r where r: "parse_arg st1 = Some r"
        "\<And>a st2. r = Inr (a, st2) \<Longrightarrow> 2 * length (in_rest st2) + (if in_fail st2 then 0 else 1) < 2 * length (in_rest ?st) + 1"
        using parse_arg_ends [of ?st c st1, OF w(1) False _ p] w(2) by blast
      have "\<exists>q. parse_stream commands st3 vs2 = Some q" if "r = Inr (a, st3)" for a st3 vs2
        using r(2) [OF that] by (rule step)
      then show ?thesis using False p nd r(1)
        by (subst parse_stream.simps) (auto simp: Let_def split: sum.splits prod.splits)
    qed
  qed
qed


section \<open>What a command line means\<close>

text \<open>The arguments without the detour through a string: an option is followed by its arguments, and what stands before the first option is
  ignored.\<close>

definition is_option :: "string \<Rightarrow> bool" where
  "is_option a \<longleftrightarrow> (\<exists>r. a = CHR ''-'' # r) \<and> CHR '' '' \<notin> set a"

function run_args :: "'v command_parser \<Rightarrow> string list \<Rightarrow> ('v vars, invalid_argument, unit) action" where
  "run_args commands [] vs = (Inr (), vs)"
| "run_args commands (a # as) vs =
     (if is_option a then
        case run_command commands a (takeWhile (\<lambda>x. \<not> is_option x) as) vs of
          (Inl e, vs1) \<Rightarrow> (Inl e, vs1)
        | (Inr _, vs1) \<Rightarrow> run_args commands (dropWhile (\<lambda>x. \<not> is_option x) as) vs1
      else run_args commands as vs)"
  by pat_completeness auto

termination run_args
  by (relation "measure (\<lambda>(_, as, _). length as)") (auto intro: le_less_trans [OF length_dropWhile_le])

definition plain_arg :: "string \<Rightarrow> bool" where
  "plain_arg a \<longleftrightarrow> a \<noteq> [] \<and> CHR 0x22 \<notin> set a \<and> list_all (\<lambda>c. is_space c \<longrightarrow> c = CHR '' '') a"

abbreviation (input) stream_of :: "string \<Rightarrow> istream" where
  "stream_of s \<equiv> \<lparr>in_rest = s, in_eof = False, in_fail = False\<rparr>"

text \<open>The stream stands before the arguments that are left, with or without the space in front of them.\<close>

definition before :: "string list \<Rightarrow> istream \<Rightarrow> bool" where
  "before as st \<longleftrightarrow> as = [] \<and> in_fail st \<or>
     \<not> in_fail st \<and> (in_rest st = argv_text as \<or> as \<noteq> [] \<and> in_rest st = tl (argv_text as)) \<and> (as \<noteq> [] \<longrightarrow> \<not> in_eof st)"

lemma space_is_space [simp]: "is_space (CHR '' '')" "\<not> is_space (CHR 0x22)" "\<not> is_space (CHR ''-'')"
  by (simp_all add: is_space_def)

lemma quote_arg_head:
  assumes "plain_arg a"
  shows "\<exists>c r. quote_arg a = c # r \<and> \<not> is_space c \<and> (c = CHR 0x22 \<longleftrightarrow> CHR '' '' \<in> set a) \<and> (c = CHR ''-'' \<longleftrightarrow> is_option a)"
  using assms by (cases a) (auto simp: quote_arg_def plain_arg_def is_option_def)

lemma in_ws_before_Cons:
  assumes "before (a # as) st" "plain_arg a"
  shows "in_ws st = stream_of (quote_arg a @ argv_text as)"
  using assms(1) quote_arg_head [OF assms(2)] by (auto simp: before_def in_ws_cases good_def)

lemma in_ws_before_Nil: "before [] st \<Longrightarrow> in_fail (in_ws st) \<or> in_ws st = \<lparr>in_rest = [], in_eof = True, in_fail = False\<rparr>"
  by (auto simp: before_def in_ws_cases good_def)

lemma takeWhile_word: "list_all (\<lambda>c. \<not> is_space c) a \<Longrightarrow> takeWhile (\<lambda>c. \<not> is_space c) (a @ argv_text as) = a"
  by (cases as) (simp_all add: takeWhile_append list_all_iff)

lemma in_word_at:
  assumes "plain_arg a" "CHR '' '' \<notin> set a"
  shows "\<exists>st'. in_word (stream_of (a @ argv_text as)) = (a, st') \<and> before as st'"
proof -
  have s: "list_all (\<lambda>c. \<not> is_space c) a" using assms by (auto simp: plain_arg_def list_all_iff)
  then have "dropWhile is_space (a @ argv_text as) = a @ argv_text as"
    using assms(1) by (cases a) (auto simp: plain_arg_def)
  moreover have "argv_text as = [] \<Longrightarrow> as = []" by (cases as) simp_all
  ultimately show ?thesis using assms(1) by (auto simp: in_word_def good_def Let_def takeWhile_word [OF s] before_def plain_arg_def)
qed

lemma quoted_loop_at: "CHR 0x22 \<notin> set s \<Longrightarrow> quoted_loop (stream_of (s @ CHR 0x22 # r)) acc = Some (acc @ s, stream_of (CHR 0x22 # r))"
  by (induction s arbitrary: acc) (subst quoted_loop.simps, auto simp: good_def in_peek_def in_get_def as_char_def)+

lemma parse_arg_at:
  assumes "plain_arg a"
  shows "\<exists>st'. parse_arg (stream_of (quote_arg a @ argv_text as)) = Some (Inr (a, st')) \<and> before as st'"
proof (cases "CHR '' '' \<in> set a")
  case True
  have "CHR 0x22 \<notin> set a" using assms by (simp add: plain_arg_def)
  then show ?thesis using True
    by (simp add: parse_arg_def parse_quoted_def in_peek_def good_def quote_arg_def in_ignore_def quoted_loop_at before_def)
next
  case False
  obtain c r where "a = c # r" "c \<noteq> CHR 0x22" using assms by (cases a) (auto simp: plain_arg_def)
  then show ?thesis using in_word_at [OF assms False, of as] False
    by (auto simp: parse_arg_def in_peek_def good_def quote_arg_def)
qed

lemma args_loop_at:
  "\<lbrakk> list_all plain_arg as; before as st \<rbrakk>
    \<Longrightarrow> \<exists>st'. args_loop st acc = Some (Inr (acc @ takeWhile (\<lambda>x. \<not> is_option x) as, st')) \<and> before (dropWhile (\<lambda>x. \<not> is_option x) as) st'"
proof (induction as arbitrary: st acc)
  case Nil
  then consider "in_fail (in_ws st)" | "in_ws st = \<lparr>in_rest = [], in_eof = True, in_fail = False\<rparr>" using in_ws_before_Nil by blast
  then show ?case
  proof cases
    case 1
    then show ?thesis by (subst args_loop.simps) (simp add: Let_def before_def)
  next
    case 2
    have f: "args_loop \<lparr>in_rest = [], in_eof = True, in_fail = True\<rparr> acc = Some (Inr (acc, \<lparr>in_rest = [], in_eof = True, in_fail = True\<rparr>))"
      by (subst args_loop.simps) (simp add: Let_def in_ws_def good_def)
    show ?thesis using 2 f
      by (subst args_loop.simps) (simp add: Let_def in_peek_def good_def parse_arg_def in_word_def before_def)
  qed
next
  case (Cons a as)
  let ?st = "stream_of (quote_arg a @ argv_text as)"
  have w: "in_ws st = ?st" using Cons.prems in_ws_before_Cons by simp
  obtain c r where q: "quote_arg a = c # r" "c = CHR ''-'' \<longleftrightarrow> is_option a" using quote_arg_head [of a] Cons.prems(1) by auto
  then have p: "in_peek ?st = (Some c, ?st)" by (simp add: in_peek_def good_def)
  show ?case
  proof (cases "is_option a")
    case True
    then show ?thesis using w p q by (subst args_loop.simps) (auto simp: Let_def before_def)
  next
    case False
    obtain st2 where a: "parse_arg ?st = Some (Inr (a, st2))" "before as st2" using parse_arg_at [of a as] Cons.prems(1) by auto
    have "a \<noteq> []" using Cons.prems(1) by (simp add: plain_arg_def)
    then have "args_loop st acc = args_loop st2 (acc @ [a])"
      using False w p q(2) a(1) by (subst args_loop.simps) (simp add: Let_def)
    then show ?thesis using Cons.IH [OF _ a(2), of "acc @ [a]"] Cons.prems(1) False by simp
  qed
qed

lemma list_all_dropWhile: "list_all P xs \<Longrightarrow> list_all P (dropWhile Q xs)"
  by (auto simp: list_all_iff dest: set_dropWhileD)

lemma parse_stream_at:
  "\<lbrakk> list_all plain_arg as; before as st \<rbrakk> \<Longrightarrow> parse_stream commands st vs = Some (run_args commands as vs)"
proof (induction commands as vs arbitrary: st rule: run_args.induct)
  case (1 commands vs)
  then consider "in_fail (in_ws st)" | "in_ws st = \<lparr>in_rest = [], in_eof = True, in_fail = False\<rparr>" using in_ws_before_Nil by blast
  then show ?case
  proof cases
    case 1
    then show ?thesis by (subst parse_stream.simps) (simp add: Let_def)
  next
    case 2
    have f: "parse_stream commands \<lparr>in_rest = [], in_eof = True, in_fail = True\<rparr> vs = Some (Inr (), vs)"
      by (subst parse_stream.simps) (simp add: Let_def in_ws_def good_def)
    show ?thesis using 2 f
      by (subst parse_stream.simps) (simp add: Let_def in_peek_def good_def parse_arg_def in_word_def)
  qed
next
  case (2 commands a as vs)
  let ?st = "stream_of (quote_arg a @ argv_text as)"
  have w: "in_ws st = ?st" using "2.prems" in_ws_before_Cons by simp
  obtain c r where q: "quote_arg a = c # r" "c = CHR ''-'' \<longleftrightarrow> is_option a" using quote_arg_head [of a] "2.prems"(1) by auto
  then have p: "in_peek ?st = (Some c, ?st)" by (simp add: in_peek_def good_def)
  show ?case
  proof (cases "is_option a")
    case True
    then have na: "CHR '' '' \<notin> set a" "quote_arg a = a" by (auto simp: is_option_def quote_arg_def)
    obtain st2 where n: "in_word ?st = (a, st2)" "before as st2" using in_word_at [of a as] na "2.prems"(1) by auto
    obtain st3 where l: "args_loop st2 [] = Some (Inr (takeWhile (\<lambda>x. \<not> is_option x) as, st3))" "before (dropWhile (\<lambda>x. \<not> is_option x) as) st3"
      using args_loop_at [of as st2 "[]"] n(2) "2.prems"(1) by auto
    obtain r vs1 where r: "run_command commands a (takeWhile (\<lambda>x. \<not> is_option x) as) vs = (r, vs1)" by fastforce
    have "parse_stream commands st vs = (case r of Inl e \<Rightarrow> Some (Inl e, vs1) | Inr _ \<Rightarrow> parse_stream commands st3 vs1)"
      using w p q(2) True n(1) l(1) r by (subst parse_stream.simps) (simp add: Let_def parse_name_def parse_args_def split: sum.splits)
    then show ?thesis using True r "2.IH"(1) [OF True r [symmetric], of _ st3] l(2) "2.prems"(1)
      by (cases r) (simp_all add: list_all_dropWhile)
  next
    case False
    obtain st2 where a: "parse_arg ?st = Some (Inr (a, st2))" "before as st2" using parse_arg_at [of a as] "2.prems"(1) by auto
    have "parse_stream commands st vs = parse_stream commands st2 vs"
      using False w p q(2) a(1) by (subst parse_stream.simps) (simp add: Let_def)
    then show ?thesis using "2.IH"(2) [OF False _ a(2)] "2.prems"(1) False by simp
  qed
qed


section \<open>The table of commands\<close>

lemma map_insert_keys: "set (map fst (map_insert k v m)) = insert k (set (map fst m))"
  by (induction k v m rule: map_insert.induct) (simp_all add: insert_commute)

lemma map_insert_sorted: "sorted_wrt (<) (map fst m) \<Longrightarrow> sorted_wrt (<) (map fst (map_insert k v m))"
proof (induction m)
  case (Cons p m)
  then show ?case using map_insert_keys [of k v m] by (cases p) (auto simp: image_iff dest: less_trans)
qed simp

lemma map_insert_lookup:
  "sorted_wrt (<) (map fst m) \<Longrightarrow> map_of (map_insert k v m) = (map_of m)(k \<mapsto> case map_of m k of None \<Rightarrow> v | Some w \<Rightarrow> w)"
proof (induction m)
  case (Cons p m)
  obtain k' v' where p: "p = (k', v')" by fastforce
  have "map_of m k = None" if "k < k'"
    using Cons.prems that p by (auto simp: map_of_eq_None_iff dest: less_trans)
  then show ?case using Cons p by (auto simp: fun_eq_iff)
qed (simp add: fun_eq_iff)

text \<open>A command is found under its name and its alias unless they were taken: the first registration counts.\<close>

lemma add_impl_registers:
  assumes "sorted_wrt (<) (map fst commands)"
  shows "sorted_wrt (<) (map fst (add_impl e name alias info commands))"
    and "\<lbrakk> name \<noteq> []; map_of commands (''--'' @ name) = None; alias \<noteq> CHR ''-'' # name \<rbrakk>
      \<Longrightarrow> map_option cmd_extract (map_of (add_impl e name alias info commands) (''--'' @ name)) = Some e"
    and "map_of commands k = Some c \<Longrightarrow> map_of (add_impl e name alias info commands) k = Some c"
  using assms by (auto simp: add_impl_def Let_def map_insert_sorted map_insert_lookup split: option.splits)

section \<open>Properties\<close>

text \<open>C34: Parsing ends on every input: whatever characters a stream holds, quotes that are never closed included, and in whatever state it
  is, \<^verbatim>\<open>parse\<close> returns or throws.\<close>

theorem parse_terminates: "\<exists>r vs'. parse_stream commands st vs = Some (r, vs')"
  using parse_stream_ends [of commands st vs] by auto

text \<open>C35: The command line is understood as it was given: for arguments that are not empty and hold no quotes and no blanks but
  spaces, joining them to one string and parsing that runs each option on exactly its arguments, an argument with spaces as
  one argument and never as an option, and stops at the first option that is refused.\<close>

theorem parse_argv_runs_args:
  assumes "list_all plain_arg args"
  shows "parse_argv commands args vs = Some (run_args commands args vs)"
proof (cases args)
  case Nil
  then show ?thesis
    by (simp add: parse_argv_def parse_string_def istringstream_def parse_stream_at [where as = "[]", simplified] before_def)
next
  case (Cons a as)
  then have "before args (istringstream (quote_arg a @ argv_text as))" by (simp add: before_def istringstream_def)
  then have "parse_stream commands (istringstream (quote_arg a @ argv_text as)) vs = Some (run_args commands args vs)"
    by (rule parse_stream_at [OF assms])
  then show ?thesis using Cons by (simp add: parse_argv_def parse_string_def del: run_args.simps)
qed

text \<open>The restriction is needed, since the text does not tell how it was divided: of two arguments one of which begins and
  the other ends with a quote the parser makes a single one.\<close>

lemma quotes_merge_arguments:
  assumes "CHR '' '' \<notin> set a" "CHR '' '' \<notin> set b"
  shows "parse_argv commands (option # (CHR 0x22 # a) # (b @ [CHR 0x22]) # args) vs = parse_argv commands (option # (a @ '' '' @ b) # args) vs"
  using assms by (simp add: parse_argv_def quote_arg_def)

definition word_ops :: "string type_ops" where
  "word_ops = \<lparr>ty_default = [], ty_extract = (\<lambda>s _. case in_word (istringstream s) of (w, st) \<Rightarrow> (w, \<not> in_fail st)), ty_print = (\<lambda>s. s)\<rparr>"

definition demo_parser :: "string command_parser" where
  "demo_parser = add_impl (Vector_command word_ops 2) ''names'' ''s'' ''show names''
     (add_impl (Normal_string_command 1) ''order'' ''o'' ''what to order'' (add_impl (Bool_command 0) ''help'' ''h'' ''help me'' []))"

theorem parse_argv_runs_args_witness:
  "map_option (\<lambda>p. (fst p, snd p 0, snd p 1)) (parse_argv demo_parser [''--order'', ''cheese burger'', ''-h''] (\<lambda>_. Flag False)) =
     Some (Inr (), Flag True, Text ''cheese burger'')"
proof -
  have p: "list_all plain_arg [''--order'', ''cheese burger'', ''-h'']" by (simp add: plain_arg_def is_space_def)
  show ?thesis
    by (simp add: parse_argv_runs_args [OF p] is_option_def run_command_def demo_parser_def add_impl_def Let_def command_parse_def
        string_parse_def bool_parse_def less_char_def)
qed

text \<open>A list or an optional of strings loses the words of an argument behind the first one: \<^verbatim>\<open>--names "Jane Doe"\<close> gives the
  list of the one name \<^verbatim>\<open>Jane\<close>, while a plain string parameter keeps the whole argument.\<close>

theorem vector_of_strings_keeps_first_word:
  "vector_parse word_ops 2 [''Jane Doe''] vs = (Inr (), vs(2 := Values [''Jane''])) \<and>
   optional_parse word_ops 2 [''Jane Doe''] vs = (Inr (), vs(2 := Optional (Some ''Jane''))) \<and>
   string_parse 2 [''Jane Doe''] vs = (Inr (), vs(2 := Text ''Jane Doe''))"
  by (simp add: vector_parse_def optional_parse_def string_parse_def word_ops_def in_word_def istringstream_def good_def is_space_def Let_def)


end
