(* ===== verification/Event_Loop.thy ===== *)
theory Event_Loop
  imports Prelude
begin

text \<open>
  \<^verbatim>\<open>event_system/event_loop.cpp\<close> and \<^verbatim>\<open>event_handler.cpp\<close>: the event queue, the timers and the thread that calls the handlers. Every
  section under the loop's mutex is a function on the state; between two sections the threads interleave freely, as steps of
  a relation. The loop's thread is given by where it is when it does not hold the mutex. A \<^verbatim>\<open>time_point\<close> is a number whose \<open>0\<close> is the
  default \<^verbatim>\<open>time_point{}\<close>; what the clock shows is an argument and never \<open>0\<close>. The calls of \<^verbatim>\<open>handle_event\<close> are logged, as that is what
  an owner of the loop sees.
\<close>

section \<open>State\<close>

type_synonym receiver = nat
type_synonym timer_handle = "64 word"

text \<open>What a handler is called with: an event that was emitted or \<^verbatim>\<open>event<timer_event>\<close>.\<close>

datatype 'e loop_event = Emitted 'e | Timer timer_handle

record timer_holder =
  tm_id :: timer_handle
  tm_next :: nat
  tm_interval :: nat
  tm_handler :: receiver

text \<open>Where the thread is: about to take the mutex at the top of its loop, inside a handler it called for a timer or for an event,
  waiting on the condition variable, possibly until a point in time, or at its end.\<close>

datatype thread = Ready | Handling bool | Waiting "nat option" | Ended

record 'e event_loop =
  events :: "('e \<times> receiver) list"
  active_handler :: "receiver option"
  timers :: "timer_holder list"
  next_trigger :: nat
  last_timer_handle :: timer_handle
  quit :: bool
  is_active :: "receiver \<Rightarrow> bool"
  thread :: thread
  calls :: "(receiver \<times> 'e loop_event) list"

definition make_event_loop :: "'e event_loop" where
  "make_event_loop = \<lparr>events = [], active_handler = None, timers = [], next_trigger = 0, last_timer_handle = 0, quit = False,
     is_active = (\<lambda>_. True), thread = Ready, calls = []\<rparr>"

section \<open>Operations of any thread\<close>

definition notify_one :: "'e event_loop \<Rightarrow> 'e event_loop" where
  "notify_one s = (case thread s of Waiting _ \<Rightarrow> s\<lparr>thread := Ready\<rparr> | _ \<Rightarrow> s)"

definition emit_event :: "receiver \<Rightarrow> 'e \<Rightarrow> 'e event_loop \<Rightarrow> 'e event_loop" where
  "emit_event r ev s =
     (if \<not> quit s \<and> is_active s r then
        let s1 = (if events s = [] then notify_one s else s) in s1\<lparr>events := events s1 @ [(ev, r)]\<rparr>
      else s)"

text \<open>\<^verbatim>\<open>remove_receiver\<close> up to the test whether the handler runs on another thread.\<close>

definition remove_receiver :: "receiver \<Rightarrow> 'e event_loop \<Rightarrow> 'e event_loop" where
  "remove_receiver r s =
     s\<lparr>is_active := (is_active s)(r := False),
       events := filter (\<lambda>h. snd h \<noteq> r) (events s),
       timers := filter (\<lambda>h. tm_handler h \<noteq> r) (timers s)\<rparr>"

definition update_next_trigger :: "nat \<Rightarrow> 'e event_loop \<Rightarrow> 'e event_loop" where
  "update_next_trigger t s = (if next_trigger s = 0 \<or> t < next_trigger s then s\<lparr>next_trigger := t\<rparr> else s)"

definition start_timer :: "nat \<Rightarrow> receiver \<Rightarrow> nat \<Rightarrow> bool \<Rightarrow> 'e event_loop \<Rightarrow> timer_handle \<times> 'e event_loop" where
  "start_timer now r dur single_shot s =
     (if \<not> quit s \<and> is_active s r then
        let ret = last_timer_handle s + 1;
            trigger = now + dur;
            s1 = s\<lparr>last_timer_handle := ret,
              timers := timers s @ [\<lparr>tm_id = ret, tm_next = trigger, tm_interval = (if single_shot then 0 else dur), tm_handler = r\<rparr>]\<rparr>;
            s2 = (if events s1 = [] \<and> (next_trigger s1 = 0 \<or> trigger < next_trigger s1) then notify_one s1 else s1)
        in (ret, update_next_trigger trigger s2)
      else (0, s))"

fun erase_timer :: "timer_handle \<Rightarrow> timer_holder list \<Rightarrow> timer_holder list option" where
  "erase_timer i [] = None"
| "erase_timer i (h # hs) = (if tm_id h = i then Some hs else map_option ((#) h) (erase_timer i hs))"

definition stop_timer :: "timer_handle \<Rightarrow> 'e event_loop \<Rightarrow> 'e event_loop" where
  "stop_timer i s =
     (case erase_timer i (timers s) of
        None \<Rightarrow> s
      | Some ts \<Rightarrow> let s1 = s\<lparr>timers := ts\<rparr> in if ts = [] then s1\<lparr>next_trigger := 0\<rparr> else s1)"

text \<open>\<^verbatim>\<open>stop\<close> before and after it joins the thread.\<close>

definition request_stop :: "'e event_loop \<Rightarrow> 'e event_loop" where
  "request_stop s = notify_one (s\<lparr>quit := True\<rparr>)"

definition finish_stop :: "'e event_loop \<Rightarrow> 'e event_loop" where
  "finish_stop s = s\<lparr>events := [], timers := []\<rparr>"

section \<open>The thread\<close>

definition handle_event :: "receiver \<Rightarrow> bool \<Rightarrow> 'e loop_event \<Rightarrow> 'e event_loop \<Rightarrow> 'e event_loop" where
  "handle_event handler timer event s = s\<lparr>active_handler := Some handler, thread := Handling timer, calls := calls s @ [(handler, event)]\<rparr>"

text \<open>The first timer that is due, with those before and behind it.\<close>

fun find_due :: "nat \<Rightarrow> timer_holder list \<Rightarrow> (timer_holder list \<times> timer_holder \<times> timer_holder list) option" where
  "find_due now [] = None"
| "find_due now (h # hs) = (if now < tm_next h then map_option (\<lambda>(a, t, b). (h # a, t, b)) (find_due now hs) else Some ([], h, hs))"

definition update_all :: "timer_holder list \<Rightarrow> 'e event_loop \<Rightarrow> 'e event_loop" where
  "update_all hs s = fold (\<lambda>h. update_next_trigger (tm_next h)) hs s"

definition process_timers :: "nat \<Rightarrow> 'e event_loop \<Rightarrow> bool \<times> 'e event_loop" where
  "process_timers now s =
     (if next_trigger s = 0 \<or> now < next_trigger s then (False, s)
      else let s1 = s\<lparr>next_trigger := 0\<rparr> in
        case find_due now (timers s) of
          None \<Rightarrow> (False, update_all (timers s) s1)
        | Some (a, t, b) \<Rightarrow>
            let s2 = update_all b (update_all a s1);
                s3 = (if tm_interval t \<noteq> 0
                      then update_next_trigger (now + tm_interval t) (s2\<lparr>timers := a @ t\<lparr>tm_next := now + tm_interval t\<rparr> # b\<rparr>)
                      else s2\<lparr>timers := a @ b\<rparr>)
            in (True, handle_event (tm_handler t) True (Timer (tm_id t)) s3))"

definition wait_on :: "'e event_loop \<Rightarrow> 'e event_loop" where
  "wait_on s = s\<lparr>thread := Waiting (if next_trigger s \<noteq> 0 then Some (next_trigger s) else None)\<rparr>"

text \<open>The body of \<^verbatim>\<open>thread_entry\<close>'s loop from its top, with \<^verbatim>\<open>process_single_event\<close>, until the mutex is released: to call a handler, to wait or at
  the end.\<close>

definition loop_top :: "nat \<Rightarrow> 'e event_loop \<Rightarrow> 'e event_loop" where
  "loop_top now s =
     (if quit s then s\<lparr>thread := Ended\<rparr>
      else case process_timers now s of
        (True, s1) \<Rightarrow> s1
      | (False, s1) \<Rightarrow> (case events s1 of
            (ev, h) # evs \<Rightarrow> handle_event h False (Emitted ev) (s1\<lparr>events := evs\<rparr>)
          | [] \<Rightarrow> wait_on s1))"

text \<open>From the return of a handler to the next release of the mutex.\<close>

definition handler_returns :: "nat \<Rightarrow> bool \<Rightarrow> 'e event_loop \<Rightarrow> 'e event_loop" where
  "handler_returns now ret s =
     (let s1 = s\<lparr>active_handler := None\<rparr>; more = (ret \<or> events s1 \<noteq> []) in
      if \<not> quit s1 \<and> \<not> more then wait_on s1 else loop_top now s1)"

section \<open>Runs\<close>

text \<open>A call of \<^verbatim>\<open>remove_receiver\<close> has two labels: its section under the mutex and, when it has to wait for the handler, its return; the
  flag says whether the loop's own thread calls it, from inside a handler.\<close>

datatype 'e label =
    Emit receiver 'e
  | Remove bool receiver
  | Removed receiver
  | Start_timer nat receiver nat bool
  | Stop_timer timer_handle
  | Request_stop
  | Finish_stop
  | Wake
  | Turn nat

text \<open>The second component holds the receivers whose removal waits for the handler to return, the third those whose removal has returned on
  another thread than the loop's.\<close>

type_synonym 'e loop_run = "'e event_loop \<times> receiver list \<times> receiver list"

definition thread_turn :: "nat \<Rightarrow> 'e event_loop \<Rightarrow> 'e event_loop" where
  "thread_turn now s = (case thread s of Ready \<Rightarrow> loop_top now s | Handling ret \<Rightarrow> handler_returns now ret s | _ \<Rightarrow> s)"

inductive loop_step :: "'e loop_run \<Rightarrow> 'e label \<Rightarrow> 'e loop_run \<Rightarrow> bool" where
  emit: "loop_step (s, ws, gs) (Emit r ev) (emit_event r ev s, ws, gs)"
| remove_inside: "thread s = Handling ret \<Longrightarrow> loop_step (s, ws, gs) (Remove True r) (remove_receiver r s, ws, gs)"
| remove_waits: "active_handler s = Some r \<Longrightarrow> loop_step (s, ws, gs) (Remove False r) (remove_receiver r s, r # ws, gs)"
| remove_idle: "active_handler s \<noteq> Some r \<Longrightarrow> loop_step (s, ws, gs) (Remove False r) (remove_receiver r s, ws, r # gs)"
| removed: "\<lbrakk> r \<in> set ws; active_handler s \<noteq> Some r \<rbrakk> \<Longrightarrow> loop_step (s, ws, gs) (Removed r) (s, remove1 r ws, r # gs)"
| start: "0 < now \<Longrightarrow> loop_step (s, ws, gs) (Start_timer now r dur single_shot) (snd (start_timer now r dur single_shot s), ws, gs)"
| stop_timer: "loop_step (s, ws, gs) (Stop_timer i) (stop_timer i s, ws, gs)"
| request: "loop_step (s, ws, gs) Request_stop (request_stop s, ws, gs)"
| finish: "\<lbrakk> quit s; thread s = Ended \<rbrakk> \<Longrightarrow> loop_step (s, ws, gs) Finish_stop (finish_stop s, ws, gs)"
| wake: "thread s = Waiting d \<Longrightarrow> loop_step (s, ws, gs) Wake (s\<lparr>thread := Ready\<rparr>, ws, gs)"
| turn: "\<lbrakk> 0 < now; thread s = Ready \<or> thread s = Handling ret \<rbrakk> \<Longrightarrow> loop_step (s, ws, gs) (Turn now) (thread_turn now s, ws, gs)"

inductive loop_runs :: "'e loop_run \<Rightarrow> 'e label list \<Rightarrow> 'e loop_run \<Rightarrow> bool" where
  loop_runs_Nil: "loop_runs c [] c"
| loop_runs_snoc: "\<lbrakk> loop_runs c ls c'; loop_step c' l c'' \<rbrakk> \<Longrightarrow> loop_runs c (ls @ [l]) c''"

inductive_cases loop_stepE: "loop_step c l c'"

section \<open>Handlers\<close>

text \<open>\<^verbatim>\<open>event_handler::dispatch\<close>: a destination takes the events of its type, a forwarding takes all; the first that matches is called.\<close>

datatype 't destination = Event_destination 't | Event_forwarding

definition is_match :: "'t destination \<Rightarrow> 't \<Rightarrow> bool" where
  "is_match d t = (case d of Event_destination e \<Rightarrow> t = e | Event_forwarding \<Rightarrow> True)"

fun dispatch :: "'t \<Rightarrow> ('t destination \<times> 'f) list \<Rightarrow> 'f option" where
  "dispatch t [] = None"
| "dispatch t (d # ds) = (if is_match (fst d) t then Some (snd d) else dispatch t ds)"

section \<open>The invariant\<close>

definition least_trigger :: "nat \<Rightarrow> nat \<Rightarrow> nat" where
  "least_trigger t n = (if n = 0 \<or> t < n then t else n)"

lemma update_next_trigger_eq: "update_next_trigger t s = s\<lparr>next_trigger := least_trigger t (next_trigger s)\<rparr>"
  by (simp add: update_next_trigger_def least_trigger_def)

lemma update_all_eq: "update_all hs s = s\<lparr>next_trigger := fold (\<lambda>h. least_trigger (tm_next h)) hs (next_trigger s)\<rparr>"
  unfolding update_all_def by (induction hs arbitrary: s) (simp_all add: update_next_trigger_eq)

text \<open>A trigger that is set and no later than the timers of a list.\<close>

definition bounds_timers :: "nat \<Rightarrow> timer_holder list \<Rightarrow> bool" where
  "bounds_timers n hs \<longleftrightarrow> (\<forall>h \<in> set hs. 0 < n \<and> n \<le> tm_next h)"

lemma bounds_timers_append: "bounds_timers n (xs @ ys) \<longleftrightarrow> bounds_timers n xs \<and> bounds_timers n ys"
  by (auto simp: bounds_timers_def)

lemma bounds_timers_subset: "bounds_timers n hs \<Longrightarrow> set hs' \<subseteq> set hs \<Longrightarrow> bounds_timers n hs'"
  by (auto simp: bounds_timers_def)

lemma bounds_timers_Nil [simp]: "bounds_timers n []"
  by (simp add: bounds_timers_def)

lemma least_trigger_bounds: "bounds_timers n hs \<Longrightarrow> 0 < t \<Longrightarrow> bounds_timers (least_trigger t n) hs"
  by (auto simp: bounds_timers_def least_trigger_def)

lemma fold_least_trigger:
  assumes "\<And>h. h \<in> set hs \<Longrightarrow> 0 < tm_next h"
  shows "bounds_timers n xs \<Longrightarrow> bounds_timers (fold (\<lambda>h. least_trigger (tm_next h)) hs n) (xs @ hs)"
  using assms
proof (induction hs arbitrary: n xs)
  case (Cons h hs)
  have "bounds_timers (least_trigger (tm_next h) n) (xs @ [h])"
    using Cons.prems least_trigger_bounds [of n xs "tm_next h"] by (auto simp: bounds_timers_def least_trigger_def)
  then show ?case using Cons.IH [of "least_trigger (tm_next h) n" "xs @ [h]"] Cons.prems by simp
qed simp

lemma find_due_split: "find_due now hs = Some (a, t, b) \<Longrightarrow> hs = a @ t # b"
  by (induction hs arbitrary: a) (auto split: if_splits)

lemma erase_timer_subset: "erase_timer i hs = Some hs' \<Longrightarrow> set hs' \<subseteq> set hs"
  by (induction hs arbitrary: hs') (auto split: if_splits)

definition loop_core :: "'e loop_run \<Rightarrow> bool" where
  "loop_core c = (case c of (s, ws, gs) \<Rightarrow>
     list_all (\<lambda>p. is_active s (snd p)) (events s) \<and> (\<forall>h \<in> set (timers s). is_active s (tm_handler h)) \<and>
     (\<forall>r \<in> set ws \<union> set gs. \<not> is_active s r) \<and> bounds_timers (next_trigger s) (timers s))"

definition loop_inv :: "'e loop_run \<Rightarrow> bool" where
  "loop_inv c \<longleftrightarrow> loop_core c \<and> (case c of (s, ws, gs) \<Rightarrow>
     (\<forall>r \<in> set gs. active_handler s \<noteq> Some r) \<and>
     (\<forall>d. thread s = Waiting d \<longrightarrow> events s = [] \<and> \<not> quit s \<and> (next_trigger s = 0 \<or> d = Some (next_trigger s))) \<and>
     (active_handler s \<noteq> None \<longleftrightarrow> (\<exists>b. thread s = Handling b)))"

lemma timers_trigger_swap: "s\<lparr>timers := ts, next_trigger := n\<rparr> = s\<lparr>next_trigger := n, timers := ts\<rparr>"
  by simp

lemma process_timers_cases:
  assumes "process_timers now s = (b, s')" "bounds_timers (next_trigger s) (timers s)" "0 < now"
  obtains n where "\<not> b" "s' = s\<lparr>next_trigger := n\<rparr>" "bounds_timers n (timers s)"
  | t n ts where "b" "s' = handle_event (tm_handler t) True (Timer (tm_id t)) (s\<lparr>next_trigger := n, timers := ts\<rparr>)"
    "t \<in> set (timers s)" "bounds_timers n ts" "tm_handler ` set ts \<subseteq> tm_handler ` set (timers s)"
proof (cases "next_trigger s = 0 \<or> now < next_trigger s")
  case True
  then show ?thesis using that(1) [of "next_trigger s"] assms by (simp add: process_timers_def)
next
  case False
  have pos: "\<And>h. h \<in> set (timers s) \<Longrightarrow> 0 < tm_next h" using assms(2) by (fastforce simp: bounds_timers_def)
  show ?thesis
  proof (cases "find_due now (timers s)")
    case None
    then have "s' = s\<lparr>next_trigger := fold (\<lambda>h. least_trigger (tm_next h)) (timers s) 0\<rparr>" "\<not> b"
      using False assms(1) by (auto simp: process_timers_def Let_def update_all_eq)
    moreover have "bounds_timers (fold (\<lambda>h. least_trigger (tm_next h)) (timers s) 0) ([] @ timers s)"
      by (rule fold_least_trigger) (simp_all add: pos)
    ultimately show ?thesis using that(1) by simp
  next
    case (Some p)
    then obtain a t d where f: "find_due now (timers s) = Some (a, t, d)" by (cases p) auto
    note sp = find_due_split [OF f]
    define n where "n = fold (\<lambda>h. least_trigger (tm_next h)) (a @ d) 0"
    have "bounds_timers n ([] @ a @ d)" unfolding n_def
      by (rule fold_least_trigger) (use pos sp in \<open>auto simp: bounds_timers_def\<close>)
    then have n: "bounds_timers n (a @ d)" by simp
    have n2: "fold (\<lambda>h. least_trigger (tm_next h)) d (fold (\<lambda>h. least_trigger (tm_next h)) a 0) = n" by (simp add: n_def)
    show ?thesis
    proof (cases "tm_interval t = 0")
      case True
      then show ?thesis using that(2) [of t "a @ d" n] False assms(1) f sp n n2
        by (auto simp: process_timers_def Let_def update_all_eq)
    next
      case nz: False
      let ?t = "t\<lparr>tm_next := now + tm_interval t\<rparr>"
      have "bounds_timers (least_trigger (now + tm_interval t) n) (a @ ?t # d)"
        using least_trigger_bounds [OF n, of "now + tm_interval t"] assms(3)
        by (auto simp: bounds_timers_def least_trigger_def)
      then show ?thesis using that(2) [of t "a @ ?t # d" "least_trigger (now + tm_interval t) n"] nz False assms(1) f sp n2
        by (auto simp: process_timers_def Let_def update_all_eq update_next_trigger_eq timers_trigger_swap)
    qed
  qed
qed


lemma notify_one_simps [simp]:
  "events (notify_one s) = events s" "active_handler (notify_one s) = active_handler s" "timers (notify_one s) = timers s"
  "next_trigger (notify_one s) = next_trigger s" "quit (notify_one s) = quit s" "is_active (notify_one s) = is_active s"
  "calls (notify_one s) = calls s" "last_timer_handle (notify_one s) = last_timer_handle s" "thread (notify_one s) \<noteq> Waiting d"
  "thread (notify_one s) = Handling b \<longleftrightarrow> thread s = Handling b"
  by (simp_all add: notify_one_def split: thread.splits)

lemma loop_top_inv:
  assumes "loop_core (s, ws, gs)" "0 < now" "active_handler s = None"
  shows "loop_inv (loop_top now s, ws, gs)"
proof (cases "quit s")
  case True
  then show ?thesis using assms by (auto simp: loop_inv_def loop_core_def loop_top_def)
next
  case False
  obtain b s' where p: "process_timers now s = (b, s')" by fastforce
  have bt: "bounds_timers (next_trigger s) (timers s)" using assms(1) by (simp add: loop_core_def)
  show ?thesis
  proof (rule process_timers_cases [OF p bt assms(2)])
    fix n assume "\<not> b" "s' = s\<lparr>next_trigger := n\<rparr>" "bounds_timers n (timers s)"
    then show ?thesis using assms False p
      by (cases "events s") (auto simp: loop_inv_def loop_core_def loop_top_def handle_event_def wait_on_def)
  next
    fix t n ts
    assume a: "b" "s' = handle_event (tm_handler t) True (Timer (tm_id t)) (s\<lparr>next_trigger := n, timers := ts\<rparr>)"
      "t \<in> set (timers s)" "bounds_timers n ts" "tm_handler ` set ts \<subseteq> tm_handler ` set (timers s)"
    then have "\<forall>h \<in> set ts. is_active s (tm_handler h)" using assms(1) by (auto simp: loop_core_def image_subset_iff)
    then show ?thesis using a assms False p by (auto simp: loop_inv_def loop_core_def loop_top_def handle_event_def)
  qed
qed

lemma thread_turn_inv:
  assumes "loop_inv (s, ws, gs)" "0 < now" "thread s = Ready \<or> thread s = Handling ret"
  shows "loop_inv (thread_turn now s, ws, gs)"
proof (cases "thread s")
  case Ready
  then have "active_handler s = None" using assms(1) by (auto simp: loop_inv_def)
  then show ?thesis using Ready assms loop_top_inv [of s ws gs now] by (simp add: thread_turn_def loop_inv_def)
next
  case (Handling r)
  let ?s = "s\<lparr>active_handler := None\<rparr>"
  have c: "loop_core (?s, ws, gs)" using assms(1) by (simp add: loop_inv_def loop_core_def)
  then have "loop_inv (loop_top now ?s, ws, gs)" using assms(2) by (intro loop_top_inv) simp_all
  moreover have "loop_inv (wait_on ?s, ws, gs)" if "\<not> quit s" "events s = []"
    using that c by (auto simp: loop_inv_def loop_core_def wait_on_def)
  ultimately show ?thesis using Handling by (simp add: thread_turn_def handler_returns_def Let_def)
qed (use assms in simp_all)

lemma start_timer_inv:
  assumes "0 < now" "loop_inv (s, ws, gs)"
  shows "loop_inv (snd (start_timer now r dur single_shot s), ws, gs)"
proof (cases "\<not> quit s \<and> is_active s r")
  case True
  define s' where "s' = snd (start_timer now r dur single_shot s)"
  have f: "events s' = events s" "active_handler s' = active_handler s" "quit s' = quit s" "is_active s' = is_active s"
    "next_trigger s' = least_trigger (now + dur) (next_trigger s)" "thread s' = Handling b \<longleftrightarrow> thread s = Handling b"
    "\<exists>h. timers s' = timers s @ [h] \<and> tm_handler h = r \<and> tm_next h = now + dur"
    "thread s' = Waiting d \<Longrightarrow> thread s = Waiting d \<and> (events s \<noteq> [] \<or> next_trigger s \<noteq> 0 \<and> next_trigger s \<le> now + dur)" for b d
    using True by (auto simp: s'_def start_timer_def Let_def update_next_trigger_eq split: if_splits)
  have b: "bounds_timers (next_trigger s) (timers s)" using assms(2) by (simp add: loop_inv_def loop_core_def)
  obtain h where h: "timers s' = timers s @ [h]" "tm_handler h = r" "tm_next h = now + dur" using f(7) by blast
  then have "bounds_timers (next_trigger s') (timers s')"
    using least_trigger_bounds [OF b, of "now + dur"] assms(1) f(5) by (simp add: bounds_timers_append) (simp add: bounds_timers_def least_trigger_def)
  moreover have "\<forall>h \<in> set (timers s'). is_active s' (tm_handler h)" using assms(2) h f(4) True by (simp add: loop_inv_def loop_core_def)
  ultimately have "loop_core (s', ws, gs)" using assms(2) f(1,4) by (simp add: loop_inv_def loop_core_def)
  moreover have "events s' = [] \<and> \<not> quit s' \<and> (next_trigger s' = 0 \<or> d = Some (next_trigger s'))" if "thread s' = Waiting d" for d
    using f(8) [OF that] assms(2) f(1,3,5) by (auto simp: loop_inv_def least_trigger_def)
  ultimately have "loop_inv (s', ws, gs)" using assms(2) f(2,6) by (simp add: loop_inv_def)
  then show ?thesis by (simp add: s'_def)
qed (use assms(2) in \<open>auto simp: start_timer_def\<close>)

lemma loop_step_inv: "loop_step c l c' \<Longrightarrow> loop_inv c \<Longrightarrow> loop_inv c'"
proof (induction rule: loop_step.induct)
  case (emit s ws gs r ev)
  then show ?case by (auto simp: loop_inv_def loop_core_def emit_event_def Let_def)
next
  case (remove_inside s ret ws gs r)
  then show ?case by (auto simp: loop_inv_def loop_core_def remove_receiver_def bounds_timers_def list_all_iff)
next
  case (remove_waits s r ws gs)
  then show ?case by (auto simp: loop_inv_def loop_core_def remove_receiver_def bounds_timers_def list_all_iff)
next
  case (remove_idle s r ws gs)
  then show ?case by (auto simp: loop_inv_def loop_core_def remove_receiver_def bounds_timers_def list_all_iff)
next
  case (removed r ws s gs)
  then show ?case using set_remove1_subset [of r ws] by (auto simp: loop_inv_def loop_core_def)
next
  case (start now s ws gs r dur single_shot)
  then show ?case by (intro start_timer_inv)
next
  case (stop_timer s ws gs i)
  show ?case
  proof (cases "erase_timer i (timers s)")
    case (Some ts)
    then show ?thesis using stop_timer erase_timer_subset [OF Some] bounds_timers_subset [of "next_trigger s" "timers s" ts]
      by (auto simp: loop_inv_def loop_core_def stop_timer_def Let_def)
  qed (use stop_timer in \<open>simp add: stop_timer_def\<close>)
next
  case (request s ws gs)
  then show ?case by (auto simp: loop_inv_def loop_core_def request_stop_def)
next
  case (finish s ws gs)
  then show ?case by (auto simp: loop_inv_def loop_core_def finish_stop_def bounds_timers_def)
next
  case (wake s d ws gs)
  then show ?case by (auto simp: loop_inv_def loop_core_def)
next
  case (turn now s ret ws gs)
  then show ?case by (intro thread_turn_inv) auto
qed

lemma loop_runs_inv: "loop_runs c ls c' \<Longrightarrow> loop_inv c \<Longrightarrow> loop_inv c'"
  by (induction rule: loop_runs.induct) (auto intro: loop_step_inv)

lemma make_event_loop_inv [simp]: "loop_inv (make_event_loop, [], [])"
  by (simp add: loop_inv_def loop_core_def make_event_loop_def bounds_timers_def)


section \<open>What is delivered\<close>

text \<open>No step calls a handler that has been disabled, and a disabled handler stays so.\<close>

definition calls_of :: "receiver \<Rightarrow> 'e event_loop \<Rightarrow> 'e loop_event list" where
  "calls_of r s = map snd (filter (\<lambda>p. fst p = r) (calls s))"

lemma loop_top_calls:
  assumes "loop_core (s, ws, gs)" "0 < now"
  shows "calls (loop_top now s) = calls s \<or> (\<exists>h e. is_active s h \<and> calls (loop_top now s) = calls s @ [(h, e)])"
    "is_active (loop_top now s) = is_active s"
proof -
  obtain b s' where p: "process_timers now s = (b, s')" by fastforce
  have bt: "bounds_timers (next_trigger s) (timers s)" using assms(1) by (simp add: loop_core_def)
  have "(calls (loop_top now s) = calls s \<or> (\<exists>h e. is_active s h \<and> calls (loop_top now s) = calls s @ [(h, e)])) \<and>
    is_active (loop_top now s) = is_active s"
  proof (rule process_timers_cases [OF p bt assms(2)])
    fix n assume "\<not> b" "s' = s\<lparr>next_trigger := n\<rparr>"
    then show ?thesis using assms p
      by (cases "events s") (auto simp: loop_core_def loop_top_def handle_event_def wait_on_def)
  next
    fix t n ts
    assume "b" "s' = handle_event (tm_handler t) True (Timer (tm_id t)) (s\<lparr>next_trigger := n, timers := ts\<rparr>)" "t \<in> set (timers s)"
    then show ?thesis using assms p by (auto simp: loop_core_def loop_top_def handle_event_def)
  qed
  then show "calls (loop_top now s) = calls s \<or> (\<exists>h e. is_active s h \<and> calls (loop_top now s) = calls s @ [(h, e)])"
    "is_active (loop_top now s) = is_active s" by blast+
qed

text \<open>The events a receiver was called with, and those that wait for it.\<close>

definition received :: "receiver \<Rightarrow> 'e event_loop \<Rightarrow> 'e list" where
  "received r s = concat (map (\<lambda>p. if fst p = r then (case snd p of Emitted e \<Rightarrow> [e] | Timer _ \<Rightarrow> []) else []) (calls s))"

definition queued :: "receiver \<Rightarrow> 'e event_loop \<Rightarrow> 'e list" where
  "queued r s = map fst (filter (\<lambda>p. snd p = r) (events s))"

definition emitted :: "receiver \<Rightarrow> 'e label list \<Rightarrow> 'e list" where
  "emitted r ls = concat (map (\<lambda>l. case l of Emit q e \<Rightarrow> if q = r then [e] else [] | _ \<Rightarrow> []) ls)"

lemma loop_top_effect:
  assumes "loop_core (s, ws, gs)" "0 < now" "s' = loop_top now s"
  shows "is_active s' = is_active s \<and> quit s' = quit s \<and> received r s' @ queued r s' = received r s @ queued r s \<and>
    (is_active s r \<or> calls_of r s' = calls_of r s)"
proof (cases "quit s")
  case True
  then show ?thesis using assms(3) by (simp add: loop_top_def received_def queued_def calls_of_def)
next
  case False
  obtain b t where p: "process_timers now s = (b, t)" by fastforce
  have bt: "bounds_timers (next_trigger s) (timers s)" using assms(1) by (simp add: loop_core_def)
  show ?thesis
  proof (rule process_timers_cases [OF p bt assms(2)])
    fix n assume "\<not> b" "t = s\<lparr>next_trigger := n\<rparr>"
    then show ?thesis using assms p False
      by (cases "events s") (auto simp: loop_core_def loop_top_def handle_event_def wait_on_def received_def queued_def calls_of_def)
  next
    fix h n ts
    assume "b" "t = handle_event (tm_handler h) True (Timer (tm_id h)) (s\<lparr>next_trigger := n, timers := ts\<rparr>)" "h \<in> set (timers s)"
    then show ?thesis using assms p False
      by (auto simp: loop_core_def loop_top_def handle_event_def received_def queued_def calls_of_def)
  qed
qed

lemma thread_turn_effect:
  assumes "loop_inv (s, ws, gs)" "0 < now" "s' = thread_turn now s"
  shows "is_active s' = is_active s \<and> quit s' = quit s \<and> received r s' @ queued r s' = received r s @ queued r s \<and>
    (is_active s r \<or> calls_of r s' = calls_of r s)"
proof (cases "thread s")
  case Ready
  then show ?thesis using loop_top_effect [of s ws gs now s' r] assms by (simp add: thread_turn_def loop_inv_def)
next
  case (Handling ret)
  let ?s = "s\<lparr>active_handler := None\<rparr>"
  have "loop_core (?s, ws, gs)" using assms(1) by (simp add: loop_inv_def loop_core_def)
  then show ?thesis using Handling loop_top_effect [of ?s ws gs now "loop_top now ?s" r] assms(2,3)
    by (auto simp: thread_turn_def handler_returns_def Let_def wait_on_def received_def queued_def calls_of_def)
qed (use assms(3) in \<open>simp_all add: thread_turn_def\<close>)

lemma loop_step_removed:
  "\<lbrakk> loop_step c l c'; loop_inv c; \<not> is_active (fst c) r \<rbrakk> \<Longrightarrow> \<not> is_active (fst c') r \<and> calls_of r (fst c') = calls_of r (fst c)"
proof (induction rule: loop_step.induct)
  case (turn now s ret ws gs)
  then show ?case using thread_turn_effect [OF turn(3,1) refl, of r] by simp
qed (auto simp: emit_event_def remove_receiver_def start_timer_def stop_timer_def request_stop_def finish_stop_def calls_of_def Let_def
    update_next_trigger_eq split: option.splits)

lemma loop_runs_removed:
  "\<lbrakk> loop_runs c ls c'; loop_inv c; \<not> is_active (fst c) r \<rbrakk> \<Longrightarrow> \<not> is_active (fst c') r \<and> calls_of r (fst c') = calls_of r (fst c)"
proof (induction rule: loop_runs.induct)
  case (loop_runs_snoc c ls c' l c'')
  then show ?case using loop_step_removed [of c' l c'' r] loop_runs_inv [of c ls c'] by auto
qed simp

lemma gone_kept: "loop_step c l c' \<Longrightarrow> set (snd (snd c)) \<subseteq> set (snd (snd c'))"
  by (induction rule: loop_step.induct) auto

lemma loop_runs_gone: "loop_runs c ls c' \<Longrightarrow> set (snd (snd c)) \<subseteq> set (snd (snd c'))"
  by (induction rule: loop_runs.induct) (auto dest: gone_kept)


lemma loop_step_fifo:
  "\<lbrakk> loop_step c l c'; loop_inv c; is_active (fst c) r; \<not> quit (fst c); \<forall>b. l \<noteq> Remove b r; l \<noteq> Request_stop \<rbrakk>
    \<Longrightarrow> is_active (fst c') r \<and> \<not> quit (fst c') \<and>
      received r (fst c') @ queued r (fst c') = received r (fst c) @ queued r (fst c) @ emitted r [l]"
proof (induction rule: loop_step.induct)
  case (turn now s ret ws gs)
  then show ?case using thread_turn_effect [OF turn(3,1) refl, of r] by (simp add: emitted_def)
next
  case (remove_inside s ret ws gs q)
  then have "filter (\<lambda>x. snd x \<noteq> q \<and> snd x = r) (events s) = filter (\<lambda>x. snd x = r) (events s)" by (intro filter_cong) auto
  then show ?case using remove_inside by (auto simp: remove_receiver_def received_def queued_def emitted_def)
next
  case (remove_waits s q ws gs)
  then have "filter (\<lambda>x. snd x \<noteq> q \<and> snd x = r) (events s) = filter (\<lambda>x. snd x = r) (events s)" by (intro filter_cong) auto
  then show ?case using remove_waits by (auto simp: remove_receiver_def received_def queued_def emitted_def)
next
  case (remove_idle s q ws gs)
  then have "filter (\<lambda>x. snd x \<noteq> q \<and> snd x = r) (events s) = filter (\<lambda>x. snd x = r) (events s)" by (intro filter_cong) auto
  then show ?case using remove_idle by (auto simp: remove_receiver_def received_def queued_def emitted_def)
qed (auto simp: emit_event_def start_timer_def stop_timer_def request_stop_def finish_stop_def Let_def received_def queued_def emitted_def
    update_next_trigger_eq split: option.splits)

lemma emitted_append: "emitted r (ls @ ls') = emitted r ls @ emitted r ls'"
  by (simp add: emitted_def)

lemma loop_runs_one: "loop_step c l c' \<Longrightarrow> loop_runs c [l] c'"
  using loop_runs_snoc [OF loop_runs_Nil] by simp

section \<open>Properties\<close>

text \<open>C36: Removing a receiver makes it safe to destroy it: once \<^verbatim>\<open>remove_receiver\<close> has returned on another thread than the loop's, its handler is
  not being called and is never called again, whatever the other threads and the loop do; and from the removal's section under the mutex
  on, no call begins.\<close>

theorem removed_receiver_is_safe:
  assumes "loop_runs (make_event_loop, [], []) ls (s, ws, gs)" "loop_runs (s, ws, gs) ls' (s', ws', gs')"
  shows "(r \<in> set gs \<longrightarrow> active_handler s' \<noteq> Some r) \<and> (r \<in> set ws \<union> set gs \<longrightarrow> calls_of r s' = calls_of r s)"
proof -
  have i: "loop_inv (s, ws, gs)" using loop_runs_inv [OF assms(1)] by simp
  then have "loop_inv (s', ws', gs')" by (rule loop_runs_inv [OF assms(2)])
  moreover have "set gs \<subseteq> set gs'" using loop_runs_gone [OF assms(2)] by simp
  ultimately show ?thesis using i loop_runs_removed [OF assms(2) i, of r] by (auto simp: loop_inv_def loop_core_def)
qed

text \<open>C37: The loop never sleeps over work: whenever its thread waits on the condition variable, no event is queued, no stop is requested, and
  it wakes up no later than the earliest timer; every interleaving of the threads with the waiting is covered, so that no
  notification is lost.\<close>

theorem loop_never_sleeps_over_work:
  assumes "loop_runs (make_event_loop, [], []) ls (s, ws, gs)" "thread s = Waiting d"
  shows "events s = [] \<and> \<not> quit s \<and> (\<forall>h \<in> set (timers s). \<exists>t. d = Some t \<and> t \<le> tm_next h)"
  using loop_runs_inv [OF assms(1) make_event_loop_inv] assms(2) by (auto simp: loop_inv_def loop_core_def bounds_timers_def)

text \<open>C38: Events arrive in order and none is lost or repeated: as long as a receiver is not removed and the loop not stopped, what the
  receiver has been called with, followed by what waits for it in the queue, is exactly what was emitted to it, in that order.\<close>

theorem events_arrive_in_order:
  assumes "loop_runs (make_event_loop, [], []) ls (s, ws, gs)" "\<forall>b. Remove b r \<notin> set ls" "Request_stop \<notin> set ls"
  shows "received r s @ queued r s = emitted r ls"
proof -
  have "loop_runs c ls c' \<Longrightarrow> c = (make_event_loop, [], []) \<Longrightarrow> \<forall>b. Remove b r \<notin> set ls \<Longrightarrow> Request_stop \<notin> set ls
    \<Longrightarrow> is_active (fst c') r \<and> \<not> quit (fst c') \<and> received r (fst c') @ queued r (fst c') = emitted r ls" for c c' :: "'a loop_run" and ls
  proof (induction rule: loop_runs.induct)
    case (loop_runs_Nil c)
    then show ?case by (simp add: make_event_loop_def received_def queued_def emitted_def)
  next
    case (loop_runs_snoc c ls c' l c'')
    then have "loop_inv c'" using loop_runs_inv [of c ls c'] by simp
    moreover have "\<forall>b. l \<noteq> Remove b r" "l \<noteq> Request_stop" using loop_runs_snoc.prems by auto
    ultimately show ?case using loop_step_fifo [of c' l c'' r] loop_runs_snoc by (simp add: emitted_append)
  qed
  from this [OF assms(1) refl assms(2,3)] show ?thesis by simp
qed

text \<open>A handler that is called for every one of a burst of events while timers are due.\<close>

lemma demo_run:
  "loop_runs (make_event_loop, [], []) [Turn 1, Emit 7 a, Emit 8 b, Turn 2, Remove False 7]
     (remove_receiver 7 (thread_turn 2 (emit_event 8 b (emit_event 7 a (thread_turn 1 make_event_loop)))), [7], [])"
proof -
  let ?s1 = "thread_turn 1 make_event_loop"
  let ?s2 = "emit_event 7 a ?s1" let ?s3 = "emit_event 8 b ?s2" let ?s4 = "thread_turn 2 ?s3"
  have "loop_runs (make_event_loop, [], []) [Turn 1] (?s1, [], [])"
    by (intro loop_runs_one loop_step.turn) (simp_all add: make_event_loop_def)
  note r = loop_runs_snoc [OF loop_runs_snoc [OF this loop_step.emit [of _ _ _ 7 a]] loop_step.emit [of _ _ _ 8 b]]
  have "thread ?s3 = Ready"
    by (simp add: make_event_loop_def thread_turn_def loop_top_def process_timers_def wait_on_def emit_event_def notify_one_def Let_def)
  then have "loop_step (?s3, [], []) (Turn 2) (?s4, [], [])" by (intro loop_step.turn) auto
  note r2 = loop_runs_snoc [OF r this]
  have "active_handler ?s4 = Some 7"
    by (simp add: make_event_loop_def thread_turn_def loop_top_def process_timers_def wait_on_def emit_event_def notify_one_def Let_def
        handle_event_def)
  note r3 = loop_runs_snoc [OF r2 loop_step.remove_waits [OF this]]
  then show ?thesis by simp
qed

theorem removed_receiver_is_safe_witness:
  "\<exists>s. loop_runs (make_event_loop, [], []) [Turn 1, Emit 7 ''a'', Emit 8 ''b'', Turn 2, Remove False 7] (s, [7], []) \<and>
     calls_of 7 s = [Emitted ''a''] \<and> calls_of 7 (thread_turn 3 s) = [Emitted ''a'']"
proof -
  let ?s = "remove_receiver 7 (thread_turn 2 (emit_event 8 ''b'' (emit_event 7 ''a'' (thread_turn 1 make_event_loop))))"
  note run = demo_run [of "''a''" "''b''"]
  have h: "thread ?s = Handling False" and c: "calls_of 7 ?s = [Emitted ''a'']"
    by (simp_all add: make_event_loop_def thread_turn_def loop_top_def process_timers_def wait_on_def emit_event_def notify_one_def Let_def
        handle_event_def remove_receiver_def calls_of_def)
  have "loop_runs (?s, [7], []) [Turn 3] (thread_turn 3 ?s, [7], [])"
    by (intro loop_runs_one loop_step.turn) (use h in auto)
  from removed_receiver_is_safe [OF run this, of 7] run c show ?thesis by auto
qed

theorem loop_never_sleeps_over_work_witness:
  "\<exists>s. loop_runs (make_event_loop, [], []) [Turn 1] (s, [], []) \<and> thread s = Waiting None \<and> events s = []"
proof -
  have "loop_runs (make_event_loop, [], []) [Turn 1] (thread_turn 1 make_event_loop, [], [])"
    by (intro loop_runs_one loop_step.turn) (simp_all add: make_event_loop_def)
  moreover have "thread (thread_turn 1 make_event_loop) = Waiting None"
    by (simp add: make_event_loop_def thread_turn_def loop_top_def process_timers_def wait_on_def)
  ultimately show ?thesis using loop_never_sleeps_over_work [of "[Turn 1]" "thread_turn 1 make_event_loop" "[]" "[]" None] by auto
qed

theorem events_arrive_in_order_witness:
  "\<exists>s. loop_runs (make_event_loop, [], []) [Turn 1, Emit 7 ''a'', Emit 8 ''b'', Turn 2, Remove False 7] (s, [7], []) \<and>
     received 8 s @ queued 8 s = [''b'']"
  using events_arrive_in_order [OF demo_run [of "''a''" "''b''"], of 8] demo_run [of "''a''" "''b''"] by (auto simp: emitted_def)


end
