(* ===== verification/Broadcast.thy ===== *)
theory Broadcast
  imports Event_Loop
begin

text \<open>
  The broadcast side of \<^verbatim>\<open>event_system\<close>: \<^verbatim>\<open>broadcast_event_handler.cpp\<close>, which knows the observers of every event type,
  \<^verbatim>\<open>impl/bc_observer_impl.cpp\<close>, which holds an observer's functions, and the two kinds of observers, one that posts the calls to
  an asio strand and one that emits the event to an event loop. Each operation holds one mutex at a time and they are taken as
  atomic. An observer is a number, a multimap the list of its pairs, and \<^verbatim>\<open>typeid(Event)\<close> a value of an arbitrary type.
\<close>

section \<open>Observers of a type\<close>

type_synonym observer = nat
type_synonym 't observers = "('t \<times> observer) list"

text \<open>The search of \<^verbatim>\<open>register_observer\<close> in the range of the type.\<close>

definition register_observer :: "observer \<Rightarrow> 't \<Rightarrow> 't observers \<Rightarrow> 't observers" where
  "register_observer ob index obs =
     (if list_all (\<lambda>p. snd p \<noteq> ob) (filter (\<lambda>p. fst p = index) obs) then obs @ [(index, ob)] else obs)"

definition deregister_observer :: "observer \<Rightarrow> 't \<Rightarrow> 't observers \<Rightarrow> 't observers" where
  "deregister_observer ob index obs = filter (\<lambda>p. \<not> (fst p = index \<and> snd p = ob)) obs"

definition deregister_everywhere :: "observer \<Rightarrow> 't observers \<Rightarrow> 't observers" where
  "deregister_everywhere ob obs = filter (\<lambda>p. snd p \<noteq> ob) obs"

section \<open>Functions of an observer\<close>

text \<open>The handler's table and the functions of each observer. For asio observers, the tasks posted to the observer's strand, whether its
  caller is enabled, and the calls made; the strand runs its tasks in order, one at a time.\<close>

record ('t, 'f, 'e) broadcast =
  observers :: "'t observers"
  funcs :: "observer \<Rightarrow> ('t \<times> 'f) list"
  strand :: "observer \<Rightarrow> ('f \<times> 'e) list"
  enabled :: "observer \<Rightarrow> bool"
  called :: "(observer \<times> 'f \<times> 'e) list"

definition make_broadcast :: "('t, 'f, 'e) broadcast" where
  "make_broadcast = \<lparr>observers = [], funcs = (\<lambda>_. []), strand = (\<lambda>_. []), enabled = (\<lambda>_. True), called = []\<rparr>"

definition observer_connect :: "observer \<Rightarrow> 't \<Rightarrow> 'f \<Rightarrow> ('t, 'f, 'e) broadcast \<Rightarrow> ('t, 'f, 'e) broadcast" where
  "observer_connect ob index f b = b\<lparr>funcs := (funcs b)(ob := funcs b ob @ [(index, f)]), observers := register_observer ob index (observers b)\<rparr>"

definition observer_disconnect :: "observer \<Rightarrow> 't \<Rightarrow> ('t, 'f, 'e) broadcast \<Rightarrow> ('t, 'f, 'e) broadcast" where
  "observer_disconnect ob index b =
     b\<lparr>funcs := (funcs b)(ob := filter (\<lambda>p. fst p \<noteq> index) (funcs b ob)), observers := deregister_observer ob index (observers b)\<rparr>"

definition observer_disconnect_all :: "observer \<Rightarrow> ('t, 'f, 'e) broadcast \<Rightarrow> ('t, 'f, 'e) broadcast" where
  "observer_disconnect_all ob b = b\<lparr>funcs := (funcs b)(ob := []), observers := deregister_everywhere ob (observers b)\<rparr>"

text \<open>\<^verbatim>\<open>bc_observer_impl::handle_event\<close>: the functions that are called for an event of a type.\<close>

definition observer_functions :: "observer \<Rightarrow> 't \<Rightarrow> ('t, 'f, 'e) broadcast \<Rightarrow> 'f list" where
  "observer_functions ob t b = map snd (filter (\<lambda>p. fst p = t) (funcs b ob))"

text \<open>\<^verbatim>\<open>asio_broadcast_observer::connect\<close>'s function: the call is posted.\<close>

definition post_calls :: "observer \<Rightarrow> 't \<Rightarrow> 'e \<Rightarrow> ('t, 'f, 'e) broadcast \<Rightarrow> ('t, 'f, 'e) broadcast" where
  "post_calls ob t ev b = b\<lparr>strand := (strand b)(ob := strand b ob @ map (\<lambda>f. (f, ev)) (observer_functions ob t b))\<rparr>"

definition emit_broadcast :: "'t \<Rightarrow> 'e \<Rightarrow> ('t, 'f, 'e) broadcast \<Rightarrow> ('t, 'f, 'e) broadcast" where
  "emit_broadcast t ev b = fold (\<lambda>p. post_calls (snd p) t ev) (filter (\<lambda>p. fst p = t) (observers b)) b"

text \<open>A task of the strand: \<^verbatim>\<open>asio_bc_observer_caller::operator()\<close>.\<close>

definition run_task :: "observer \<Rightarrow> ('t, 'f, 'e) broadcast \<Rightarrow> ('t, 'f, 'e) broadcast" where
  "run_task ob b =
     (case strand b ob of
        [] \<Rightarrow> b
      | (f, ev) # ts \<Rightarrow> b\<lparr>strand := (strand b)(ob := ts), called := (if enabled b ob then called b @ [(ob, f, ev)] else called b)\<rparr>)"

text \<open>The destructor of \<^verbatim>\<open>asio_broadcast_observer\<close>; \<^verbatim>\<open>disable\<close> takes the mutex of the caller and so waits for a call that is in progress.\<close>

definition destroy_observer :: "observer \<Rightarrow> ('t, 'f, 'e) broadcast \<Rightarrow> ('t, 'f, 'e) broadcast" where
  "destroy_observer ob b = b\<lparr>observers := deregister_everywhere ob (observers b), enabled := (enabled b)(ob := False)\<rparr>"

text \<open>\<^verbatim>\<open>event_loop_broadcast_observer::connect\<close>'s function, on the loop the observer handles events of.\<close>

definition emit_to_loop :: "'t observers \<Rightarrow> 't \<Rightarrow> 'e \<Rightarrow> 'e event_loop \<Rightarrow> 'e event_loop" where
  "emit_to_loop obs t ev s = fold (\<lambda>p. emit_event (snd p) ev) (filter (\<lambda>p. fst p = t) obs) s"

section \<open>Sequences of operations\<close>

datatype ('t, 'f, 'e) broadcast_op =
    Connect observer 't 'f
  | Disconnect observer 't
  | Disconnect_all observer
  | Broadcast 't 'e
  | Run_task observer
  | Destroy observer

primrec apply_op :: "('t, 'f, 'e) broadcast_op \<Rightarrow> ('t, 'f, 'e) broadcast \<Rightarrow> ('t, 'f, 'e) broadcast" where
  "apply_op (Connect ob t f) b = observer_connect ob t f b"
| "apply_op (Disconnect ob t) b = observer_disconnect ob t b"
| "apply_op (Disconnect_all ob) b = observer_disconnect_all ob b"
| "apply_op (Broadcast t ev) b = emit_broadcast t ev b"
| "apply_op (Run_task ob) b = run_task ob b"
| "apply_op (Destroy ob) b = destroy_observer ob b"

text \<open>An observer is not connected after its destructor.\<close>

fun uses_alive :: "('t, 'f, 'e) broadcast_op list \<Rightarrow> observer set \<Rightarrow> bool" where
  "uses_alive [] dead = True"
| "uses_alive (Connect ob t f # ops) dead = (ob \<notin> dead \<and> uses_alive ops dead)"
| "uses_alive (Destroy ob # ops) dead = uses_alive ops (insert ob dead)"
| "uses_alive (_ # ops) dead = uses_alive ops dead"

section \<open>The table follows the functions\<close>

definition broadcast_inv :: "('t, 'f, 'e) broadcast \<Rightarrow> bool" where
  "broadcast_inv b \<longleftrightarrow> distinct (observers b) \<and>
     (\<forall>t ob. (t, ob) \<in> set (observers b) \<longleftrightarrow> enabled b ob \<and> t \<in> fst ` set (funcs b ob))"

lemma set_register_observer [simp]: "set (register_observer ob t obs) = insert (t, ob) (set obs)"
  by (force simp: register_observer_def list_all_iff)

lemma distinct_register_observer: "distinct obs \<Longrightarrow> distinct (register_observer ob t obs)"
  by (auto simp: register_observer_def list_all_iff)

lemma observed_enabled: "broadcast_inv b \<Longrightarrow> (t, ob) \<in> set (observers b) \<longleftrightarrow> enabled b ob \<and> observer_functions ob t b \<noteq> []"
  by (force simp: broadcast_inv_def observer_functions_def filter_empty_conv)

lemma posted_strand:
  "\<lbrakk> distinct xs; \<forall>p \<in> set xs. fst p = t \<rbrakk> \<Longrightarrow>
    strand (fold (\<lambda>p. post_calls (snd p) t ev) xs b) ob = strand b ob @ (if (t, ob) \<in> set xs then map (\<lambda>f. (f, ev)) (observer_functions ob t b) else [])
    \<and> funcs (fold (\<lambda>p. post_calls (snd p) t ev) xs b) = funcs b \<and> observers (fold (\<lambda>p. post_calls (snd p) t ev) xs b) = observers b
    \<and> enabled (fold (\<lambda>p. post_calls (snd p) t ev) xs b) = enabled b \<and> called (fold (\<lambda>p. post_calls (snd p) t ev) xs b) = called b"
proof (induction xs arbitrary: b)
  case (Cons p xs)
  then show ?case by (cases p) (auto simp: post_calls_def observer_functions_def)
qed simp

lemma emit_broadcast_facts:
  assumes "broadcast_inv b"
  shows "strand (emit_broadcast t ev b) ob =
      strand b ob @ (if (t, ob) \<in> set (observers b) then map (\<lambda>f. (f, ev)) (observer_functions ob t b) else [])"
    "funcs (emit_broadcast t ev b) = funcs b" "observers (emit_broadcast t ev b) = observers b"
    "enabled (emit_broadcast t ev b) = enabled b" "called (emit_broadcast t ev b) = called b"
proof -
  have "distinct (filter (\<lambda>p. fst p = t) (observers b))" using assms by (simp add: broadcast_inv_def)
  from posted_strand [OF this, of t ev b]
  show "strand (emit_broadcast t ev b) ob =
      strand b ob @ (if (t, ob) \<in> set (observers b) then map (\<lambda>f. (f, ev)) (observer_functions ob t b) else [])"
    "funcs (emit_broadcast t ev b) = funcs b" "observers (emit_broadcast t ev b) = observers b"
    "enabled (emit_broadcast t ev b) = enabled b" "called (emit_broadcast t ev b) = called b"
    by (simp_all add: emit_broadcast_def)
qed

lemma run_task_fields [simp]:
  "observers (run_task ob b) = observers b" "funcs (run_task ob b) = funcs b" "enabled (run_task ob b) = enabled b"
  by (simp_all add: run_task_def split: list.splits)

lemma apply_op_enabled: "broadcast_inv b \<Longrightarrow> enabled (apply_op op b) ob \<longleftrightarrow> enabled b ob \<and> op \<noteq> Destroy ob"
  by (cases op) (auto simp: emit_broadcast_facts observer_connect_def observer_disconnect_def observer_disconnect_all_def destroy_observer_def)

lemma apply_op_inv:
  assumes "broadcast_inv b" "\<And>ob t f. op = Connect ob t f \<Longrightarrow> enabled b ob"
  shows "broadcast_inv (apply_op op b)"
proof (cases op)
  case (Connect ob t f)
  then show ?thesis using assms by (auto simp: broadcast_inv_def observer_connect_def distinct_register_observer)
next
  case (Disconnect ob t)
  then show ?thesis using assms(1) by (auto simp: broadcast_inv_def observer_disconnect_def deregister_observer_def)
next
  case (Disconnect_all ob)
  then show ?thesis using assms(1) by (auto simp: broadcast_inv_def observer_disconnect_all_def deregister_everywhere_def)
next
  case (Broadcast t ev)
  then show ?thesis using assms(1) by (simp add: broadcast_inv_def emit_broadcast_facts [OF assms(1)])
next
  case (Run_task ob)
  then show ?thesis using assms(1) by (simp add: broadcast_inv_def)
next
  case (Destroy ob)
  then show ?thesis using assms(1) by (auto simp: broadcast_inv_def destroy_observer_def deregister_everywhere_def)
qed

lemma uses_alive_step: "uses_alive (op # ops) dead \<Longrightarrow> uses_alive ops (dead \<union> {ob. op = Destroy ob})"
  by (cases op) simp_all

lemma uses_alive_applied:
  assumes "broadcast_inv b" "uses_alive (op # ops) {ob. \<not> enabled b ob}"
  shows "broadcast_inv (apply_op op b)" "uses_alive ops {ob. \<not> enabled (apply_op op b) ob}"
proof -
  show "broadcast_inv (apply_op op b)" using assms by (intro apply_op_inv) auto
  have "{ob. \<not> enabled (apply_op op b) ob} = {ob. \<not> enabled b ob} \<union> {ob. op = Destroy ob}"
    using apply_op_enabled [OF assms(1)] by auto
  then show "uses_alive ops {ob. \<not> enabled (apply_op op b) ob}" using uses_alive_step [OF assms(2)] by simp
qed

lemma apply_ops_inv:
  "\<lbrakk> broadcast_inv b; uses_alive ops {ob. \<not> enabled b ob} \<rbrakk>
    \<Longrightarrow> broadcast_inv (fold apply_op ops b) \<and> (\<forall>ob. enabled (fold apply_op ops b) ob \<longleftrightarrow> enabled b ob \<and> Destroy ob \<notin> set ops)"
proof (induction ops arbitrary: b)
  case (Cons op ops)
  show ?case using Cons.IH [OF uses_alive_applied [OF Cons.prems]] apply_op_enabled [OF Cons.prems(1)] by auto
qed simp

definition calls_to :: "observer \<Rightarrow> ('t, 'f, 'e) broadcast \<Rightarrow> ('f \<times> 'e) list" where
  "calls_to ob b = map snd (filter (\<lambda>c. fst c = ob) (called b))"

lemma apply_op_calls: "broadcast_inv b \<Longrightarrow> \<not> enabled b ob \<Longrightarrow> calls_to ob (apply_op op b) = calls_to ob b"
  by (cases op) (auto simp: emit_broadcast_facts observer_connect_def observer_disconnect_def observer_disconnect_all_def destroy_observer_def run_task_def calls_to_def
      split: list.splits)

lemma apply_ops_calls:
  "\<lbrakk> broadcast_inv b; uses_alive ops {ob. \<not> enabled b ob}; \<not> enabled b ob \<rbrakk> \<Longrightarrow> calls_to ob (fold apply_op ops b) = calls_to ob b"
proof (induction ops arbitrary: b)
  case (Cons op ops)
  show ?case using Cons.IH [OF uses_alive_applied [OF Cons.prems(1,2)]] apply_op_enabled [OF Cons.prems(1)] apply_op_calls [of b ob op] Cons.prems
    by simp
qed simp

lemma uses_alive_append: "uses_alive (ops @ ops') dead \<Longrightarrow> uses_alive ops dead"
  by (induction ops dead rule: uses_alive.induct) simp_all

lemma uses_alive_rest: "uses_alive (ops @ ops') dead \<Longrightarrow> uses_alive ops' (dead \<union> {ob. Destroy ob \<in> set ops})"
proof (induction ops arbitrary: dead)
  case (Cons op ops)
  have "uses_alive ops' (dead \<union> {ob. op = Destroy ob} \<union> {ob. Destroy ob \<in> set ops})"
    using Cons.IH uses_alive_step [of op "ops @ ops'" dead] Cons.prems by simp
  moreover have "dead \<union> {ob. op = Destroy ob} \<union> {ob. Destroy ob \<in> set ops} = dead \<union> {ob. Destroy ob \<in> set (op # ops)}" by auto
  ultimately show ?case by simp
qed simp

text \<open>A broadcast reaches every connected function once and none after its observer: after any sequence of operations, an event is posted
  exactly once to every function an observer has connected to its type and not disconnected, in the order of connecting; to
  an observer that has been destroyed nothing is posted, and from its destruction on none of its functions is called, not even
  for events that were posted before.\<close>

theorem broadcast_reaches_connected:
  assumes "uses_alive (ops @ ops') {}" "b = fold apply_op ops make_broadcast"
  shows "strand (emit_broadcast t ev b) ob =
      strand b ob @ (if Destroy ob \<in> set ops then [] else map (\<lambda>f. (f, ev)) (observer_functions ob t b)) \<and>
    (Destroy ob \<in> set ops \<longrightarrow> calls_to ob (fold apply_op ops' b) = calls_to ob b)"
proof -
  have i0: "broadcast_inv make_broadcast" by (simp add: broadcast_inv_def make_broadcast_def)
  have en: "enabled make_broadcast = (\<lambda>_. True)" by (simp add: make_broadcast_def)
  have i: "broadcast_inv b" and e: "\<And>ob. enabled b ob \<longleftrightarrow> Destroy ob \<notin> set ops"
    using apply_ops_inv [OF i0, of ops] uses_alive_append [OF assms(1)] assms(2) by (auto simp: en)
  have "uses_alive ops' {ob. \<not> enabled b ob}" using uses_alive_rest [OF assms(1)] e by simp
  then have "Destroy ob \<in> set ops \<longrightarrow> calls_to ob (fold apply_op ops' b) = calls_to ob b"
    using apply_ops_calls [OF i, of ops' ob] e by auto
  moreover have "strand (emit_broadcast t ev b) ob = strand b ob @ (if Destroy ob \<in> set ops then [] else map (\<lambda>f. (f, ev)) (observer_functions ob t b))"
    by (simp add: emit_broadcast_facts(1) [OF i] observed_enabled [OF i] e)
  ultimately show ?thesis by blast
qed

theorem broadcast_reaches_connected_witness:
  "strand (emit_broadcast ''tick'' (5 :: nat) (fold apply_op [Connect 1 ''tick'' ''f'', Connect 1 ''tick'' ''g'', Connect 2 ''tick'' ''h'', Destroy 2] make_broadcast)) 1 =
     [(''f'', 5), (''g'', 5)] \<and>
   calls_to 2 (fold apply_op [Broadcast ''tick'' (5 :: nat), Run_task 2]
     (fold apply_op [Connect 1 ''tick'' ''f'', Connect 1 ''tick'' ''g'', Connect 2 ''tick'' ''h'', Destroy 2] make_broadcast)) = []"
proof -
  let ?ops = "[Connect 1 ''tick'' ''f'', Connect 1 ''tick'' ''g'', Connect 2 ''tick'' ''h'', Destroy 2]"
  let ?b = "fold apply_op ?ops make_broadcast :: (string, string, nat) broadcast"
  have u: "uses_alive (?ops @ [Broadcast ''tick'' (5 :: nat), Run_task 2]) {}" by simp
  have "strand ?b 1 = []" "observer_functions 1 ''tick'' ?b = [''f'', ''g'']" "calls_to 2 ?b = []"
    by (simp_all add: make_broadcast_def observer_connect_def destroy_observer_def observer_functions_def calls_to_def)
  then show ?thesis
    using broadcast_reaches_connected [OF u refl, of "''tick''" 5 1] conjunct2 [OF broadcast_reaches_connected [OF u refl, of "''tick''" 5 2]] by simp
qed


end
