(* ===== verification/Keygen.thy ===== *)
theory Keygen
  imports Private_Data
begin

text \<open>
  The key generation tool, \<^verbatim>\<open>infrastructure/keygen/pki.cpp\<close> and \<^verbatim>\<open>main.cpp\<close>: the root and CA keys of a deployment, kept as files of one
  directory, and the identities that are certified with them and installed into stores. Random values are arguments, a directory
  is what its four files hold, and the process's root key is part of the state.
\<close>

section \<open>Files\<close>

datatype keygen_error = Runtime_error string | Keygen_crypto crypto_error | Keygen_store store_error

record pki_files =
  root_priv :: "octets option"
  root_pub :: "octets option"
  ca_priv :: "octets option"
  ca_cert_file :: "octets option"

record keygen_state =
  kg_files :: pki_files
  kg_root :: root_key_store

definition load_der :: "ty \<Rightarrow> (val \<Rightarrow> crypto_error + 'a) \<Rightarrow> octets option \<Rightarrow> keygen_error + 'a" where
  "load_der t of_val file =
     (case file of
        None \<Rightarrow> Inl (Runtime_error ''cannot read'')
      | Some b \<Rightarrow> (case read_der t of_val b of Inl e \<Rightarrow> Inl (Keygen_crypto e) | Inr x \<Rightarrow> Inr x))"

text \<open>Opening the file empties it; the flag says whether it can be written.\<close>

definition save_der :: "bool \<Rightarrow> ty \<Rightarrow> val \<Rightarrow> (octets option, keygen_error, unit) action" where
  "save_der writable t v file =
     (if \<not> writable then (Inl (Runtime_error ''cannot write''), file)
      else case write_der t v of Inl e \<Rightarrow> (Inl (Keygen_crypto e), Some []) | Inr b \<Rightarrow> (Inr (), Some b))"

section \<open>Certifying\<close>

text \<open>The random values of a key: the seeds, and what its self signature takes.\<close>

record key_random =
  kr_seed :: octets
  kr_x :: octets
  kr_pq :: octets
  kr_sign :: octets

definition generate_key :: "crypto \<Rightarrow> pk_prims \<Rightarrow> suite \<Rightarrow> key_random \<Rightarrow> keygen_error + private_key" where
  "generate_key c p s R = (case generate_private_key c p (kr_sign R) s (kr_seed R) (kr_x R) (kr_pq R) of Inl e \<Rightarrow> Inl (Keygen_crypto e) | Inr k \<Rightarrow> Inr k)"

definition certify_key ::
    "crypto \<Rightarrow> pk_prims \<Rightarrow> octets \<Rightarrow> octets \<Rightarrow> private_key \<Rightarrow> private_key \<Rightarrow> 64 word \<Rightarrow> octets \<Rightarrow> crypto_error + certificate \<times> private_key" where
  "certify_key c p rc rs issuer sub level rest =
     (let pub = sk_public sub in
      bindE (create_key_certificate p rc issuer (key_id pub) level rest []) (\<lambda>ct.
        bindE (set_public_key p rs (add_certificate_id (cert_id c ct) pub) sub) (\<lambda>sub'. Inr (ct, sub'))))"

section \<open>The deployment's keys\<close>

record pki =
  pki_root :: private_key
  pki_ca :: private_key
  pki_ca_cert :: certificate
  pki_ca_chain :: certificate_chain

definition pki_exists :: "keygen_state \<Rightarrow> bool" where
  "pki_exists st \<longleftrightarrow> root_priv (kg_files st) \<noteq> None"

text \<open>The state change of a file operation.\<close>

definition on_file :: "(pki_files \<Rightarrow> octets option) \<Rightarrow> ((octets option \<Rightarrow> octets option) \<Rightarrow> pki_files \<Rightarrow> pki_files) \<Rightarrow>
    (octets option, 'e, 'a) action \<Rightarrow> (keygen_state, 'e, 'a) action" where
  "on_file get upd f st = (case f (get (kg_files st)) of (r, file) \<Rightarrow> (r, st\<lparr>kg_files := upd (\<lambda>_. file) (kg_files st)\<rparr>))"

definition lift_store :: "(keygen_state, store_error, 'a) action \<Rightarrow> (keygen_state, keygen_error, 'a) action" where
  "lift_store f st = (case f st of (Inl e, st') \<Rightarrow> (Inl (Keygen_store e), st') | (Inr x, st') \<Rightarrow> (Inr x, st'))"

definition lift_keygen :: "'e + 'a \<Rightarrow> ('s, 'e, 'a) action" where
  "lift_keygen r st = (r, st)"

definition write_files :: "bool \<Rightarrow> private_key \<Rightarrow> private_key \<Rightarrow> certificate \<Rightarrow> (keygen_state, keygen_error, unit) action" where
  "write_files writable root ca ct =
     bindA (on_file root_priv root_priv_update (save_der writable private_key_ty (private_key_val root))) (\<lambda>_.
     bindA (lift_store (on_file root_pub root_pub_update (save_public_key_file writable (sk_public root)))) (\<lambda>_.
     bindA (on_file ca_priv ca_priv_update (save_der writable private_key_ty (private_key_val ca))) (\<lambda>_.
     on_file ca_cert_file ca_cert_file_update (save_der writable certificate_ty (certificate_val ct)))))"

definition on_root :: "(root_key_store, store_error, 'a) action \<Rightarrow> (keygen_state, store_error, 'a) action" where
  "on_root f st = (case f (kg_root st) of (r, s) \<Rightarrow> (r, st\<lparr>kg_root := s\<rparr>))"

definition install :: "private_key \<Rightarrow> private_key \<Rightarrow> certificate \<Rightarrow> (keygen_state, keygen_error, pki) action" where
  "install root ca ct =
     bindA (lift_store (on_root (set_root_public_key (sk_public root)))) (\<lambda>_.
       returnA \<lparr>pki_root = root, pki_ca = ca, pki_ca_cert = ct,
         pki_ca_chain = \<lparr>chain_version = 1, root_key_id = key_id (sk_public root), links = [\<lparr>subject = sk_public ca, cert = ct\<rparr>]\<rparr>\<rparr>)"

definition pki_create ::
    "crypto \<Rightarrow> pk_prims \<Rightarrow> bool \<Rightarrow> suite \<Rightarrow> key_random \<Rightarrow> key_random \<Rightarrow> octets \<Rightarrow> octets \<Rightarrow> (keygen_state, keygen_error, pki) action" where
  "pki_create c p writable s R1 R2 rc rs st =
     (if pki_exists st then (Inl (Runtime_error ''a pki already exists''), st)
      else bindA (lift_keygen (generate_key c p s R1)) (\<lambda>root.
           bindA (lift_keygen (generate_key c p s R2)) (\<lambda>ca.
           bindA (lift_keygen (case certify_key c p rc rs root ca 1 [] of Inl e \<Rightarrow> Inl (Keygen_crypto e) | Inr x \<Rightarrow> Inr x)) (\<lambda>(ct, ca').
           bindA (write_files writable root ca' ct) (\<lambda>_. install root ca' ct)))) st)"

definition pki_load :: "crypto \<Rightarrow> (keygen_state, keygen_error, pki) action" where
  "pki_load c st =
     bindA (lift_keygen (load_der private_key_ty (private_key_of c) (root_priv (kg_files st)))) (\<lambda>root.
     bindA (lift_keygen (load_der private_key_ty (private_key_of c) (ca_priv (kg_files st)))) (\<lambda>ca.
     bindA (lift_keygen (load_der certificate_ty certificate_of (ca_cert_file (kg_files st)))) (\<lambda>ct.
       if cert_issuer ct \<noteq> key_id (sk_public root) then throwA (Runtime_error ''the CA certificate is not issued by the root key'')
       else install root ca ct))) st"

definition pki_certify :: "crypto \<Rightarrow> pk_prims \<Rightarrow> octets \<Rightarrow> octets \<Rightarrow> pki \<Rightarrow> private_key \<Rightarrow> octets \<Rightarrow> crypto_error + certificate_chain \<times> private_key" where
  "pki_certify c p rc rs m key host =
     bindE (certify_key c p rc rs (pki_ca m) key 0 host) (\<lambda>(ct, key').
       bindE (add_link c (sk_public key') ct (pki_ca_chain m)) (\<lambda>chain. Inr (chain, key')))"

section \<open>Identities\<close>

text \<open>\<^verbatim>\<open>install_identity\<close> on the private data and the public keys of the stores.\<close>

definition install_identity ::
    "crypto \<Rightarrow> pk_prims \<Rightarrow> 'd private_ops \<Rightarrow> (octets, public_key, public_key, 'k) store_ops \<Rightarrow> key_random \<Rightarrow> octets \<Rightarrow> octets \<Rightarrow>
     pki \<Rightarrow> octets \<Rightarrow> ('d \<times> 'k, keygen_error, private_key) action" where
  "install_identity c p P K R rc rs m host st =
     (case po_my_key P (fst st) of
        (Inl e, d) \<Rightarrow> (Inl (Keygen_store e), (d, snd st))
      | (Inr (Some _), d) \<Rightarrow> (Inl (Runtime_error ''an own private key already exists''), (d, snd st))
      | (Inr None, d) \<Rightarrow>
          (case bindE (generate_key c p (sk_suite (pki_ca m)) R) (\<lambda>k.
                  case pki_certify c p rc rs m k host of Inl e \<Rightarrow> Inl (Keygen_crypto e) | Inr x \<Rightarrow> Inr x) of
             Inl e \<Rightarrow> (Inl e, (d, snd st))
           | Inr (chain, key) \<Rightarrow>
               (case bindA (po_set_my_key P key) (\<lambda>_. po_set_my_chain P chain) d of
                  (Inl e, d') \<Rightarrow> (Inl (Keygen_store e), (d', snd st))
                | (Inr _, d') \<Rightarrow>
                    (case so_insert K (sk_public key) (snd st) of
                       (Inl e, k') \<Rightarrow> (Inl (Keygen_store e), (d', k'))
                     | (Inr _, k') \<Rightarrow> (Inr key, (d', k'))))))"

text \<open>\<^verbatim>\<open>run\<close> of \<^verbatim>\<open>main.cpp\<close>, over the operations on the pki directory and on the stores; what is printed is left out.\<close>

record keygen_params =
  kp_pki_dir :: string
  kp_init :: bool
  kp_server :: string
  kp_client :: string
  kp_host :: octets

definition keygen_run ::
    "keygen_params \<Rightarrow> ('s, keygen_error, pki) action \<Rightarrow> ('s, keygen_error, pki) action \<Rightarrow> (pki \<Rightarrow> octets \<Rightarrow> ('s, keygen_error, private_key) action) \<Rightarrow>
     (pki \<Rightarrow> octets \<Rightarrow> ('s, keygen_error, private_key) action) \<Rightarrow> ('s, keygen_error, unit) action" where
  "keygen_run P create load server client =
     (if kp_pki_dir P = [] then throwA (Runtime_error ''--pki is required'')
      else bindA (if kp_init P then create else load) (\<lambda>m.
           bindA (if kp_server P \<noteq> [] then bindA (server m (kp_host P)) (\<lambda>_. returnA ()) else returnA ()) (\<lambda>_.
           if kp_client P \<noteq> [] then bindA (client m []) (\<lambda>_. returnA ()) else returnA ())))"

section \<open>Certified keys\<close>

definition hash_ok :: "crypto \<Rightarrow> bool" where
  "hash_ok c \<longleftrightarrow> (\<forall>x. 0 < length (sha3_256 c x) \<and> length (sha3_256 c x) \<le> 32)"

lemma key_pair_id: "hash_ok c \<Longrightarrow> key_pair c p k \<Longrightarrow> key_id (sk_public k) \<noteq> [] \<and> length (key_id (sk_public k)) \<le> 32"
  by (simp add: hash_ok_def key_pair_def Let_def construct_id_def)

lemma add_certificate_id_fields:
  "pk_suite (add_certificate_id i k) = pk_suite k" "sig_pk (add_certificate_id i k) = sig_pk k" "key_id (add_certificate_id i k) = key_id k"
  "kem_x_pk (add_certificate_id i k) = kem_x_pk k" "kem_pq_pk (add_certificate_id i k) = kem_pq_pk k"
  "construct_id c (add_certificate_id i k) = construct_id c k" "pk_is_valid (add_certificate_id i k) = pk_is_valid k"
  by (simp_all add: add_certificate_id_def pk_is_valid_def)

text \<open>A certificate and the key it certifies, under a key that issued it.\<close>

definition certifies :: "crypto \<Rightarrow> public_key \<Rightarrow> certificate \<Rightarrow> public_key \<Rightarrow> nat \<Rightarrow> octets \<Rightarrow> bool" where
  "certifies c issuer ct sub level rest \<longleftrightarrow>
     cert_issuer ct = key_id issuer \<and> cert_is_authentic c ct issuer = Inr True \<and> pk_verify_me c sub = Inr True \<and>
     extract_key_certificate ct = Inr \<lparr>kc_subject = key_id sub, kc_ca_level = level, kc_restrictions = rest, kc_metadata = []\<rparr> \<and>
     references_certificate sub (cert_id c ct)"

lemma certify_key_ok:
  assumes "prims_ok c a p" "hash_ok c" "key_pair c p issuer" "key_pair c p sub" "length rest \<le> max_structure_size" "unat level < 2 ^ 16"
  obtains ct s where "certify_key c p rc rs issuer sub level rest = Inr (ct, sub\<lparr>sk_public := (add_certificate_id (cert_id c ct) (sk_public sub))\<lparr>self_sig := s\<rparr>\<rparr>)"
    "key_pair c p (sub\<lparr>sk_public := (add_certificate_id (cert_id c ct) (sk_public sub))\<lparr>self_sig := s\<rparr>\<rparr>)"
    "certifies c (sk_public issuer) ct ((add_certificate_id (cert_id c ct) (sk_public sub))\<lparr>self_sig := s\<rparr>) (unat level) rest"
proof -
  have "length (key_id (sk_public sub)) \<le> max_structure_size" "length ([] :: octets) \<le> max_structure_size"
    using key_pair_id [OF assms(2,4)] by (simp_all add: max_structure_size_def)
  from certificate_lifecycle [OF assms(1,3) this(1) assms(5) this(2) assms(6), of rc rc] obtain ct where ct:
    "create_key_certificate p rc issuer (key_id (sk_public sub)) level rest [] = Inr ct" "cert_issuer ct = key_id (sk_public issuer)"
    "cert_is_authentic c ct (sk_public issuer) = Inr True"
    "extract_key_certificate ct = Inr \<lparr>kc_subject = key_id (sk_public sub), kc_ca_level = unat level, kc_restrictions = rest, kc_metadata = []\<rparr>"
    by blast
  let ?pk = "add_certificate_id (cert_id c ct) (sk_public sub)"
  have v: "pk_is_valid ?pk" "pk_suite ?pk = sk_suite sub" "sig_pk ?pk = sig_pk (sk_public sub)" "key_id ?pk = construct_id c ?pk"
    using key_pair_valid [OF assms(1,4)] assms(4) by (simp_all add: add_certificate_id_fields key_pair_def Let_def)
  obtain s where s: "pk_sign_me p rs sub ?pk = Inr (?pk\<lparr>self_sig := s\<rparr>)" "pk_verify_me c (?pk\<lparr>self_sig := s\<rparr>) = Inr True"
    using sign_me_verifies [OF assms(1,4) v, of rs] by blast
  have "certify_key c p rc rs issuer sub level rest = Inr (ct, sub\<lparr>sk_public := ?pk\<lparr>self_sig := s\<rparr>\<rparr>)"
    using ct(1) s(1) by (simp add: certify_key_def Let_def set_public_key_def add_certificate_id_fields)
  moreover have "key_pair c p (sub\<lparr>sk_public := ?pk\<lparr>self_sig := s\<rparr>\<rparr>)"
    using assms(4) by (simp add: key_pair_def Let_def add_certificate_id_fields)
  moreover have "certifies c (sk_public issuer) ct (?pk\<lparr>self_sig := s\<rparr>) (unat level) rest"
    using ct s(2) by (simp add: certifies_def add_certificate_id_fields references_certificate_def)
      (simp add: add_certificate_id_def set_insort_key)
  ultimately show ?thesis by (rule that)
qed

lemma certifies_link:
  "\<lbrakk> certifies c issuer ct sub level rest; is_revoked_in_store c certs ct issuer = Inr False \<rbrakk>
    \<Longrightarrow> link_holds c certs (issuer, \<lparr>subject = sub, cert = ct\<rparr>) \<lparr>kc_subject = key_id sub, kc_ca_level = level, kc_restrictions = rest, kc_metadata = []\<rparr>"
  by (simp add: certifies_def link_holds_def)

text \<open>What \<^verbatim>\<open>create\<close> and \<^verbatim>\<open>load\<close> leave: a CA key certified by the root.\<close>

definition pki_ok :: "crypto \<Rightarrow> pk_prims \<Rightarrow> pki \<Rightarrow> bool" where
  "pki_ok c p m \<longleftrightarrow> key_pair c p (pki_root m) \<and> key_pair c p (pki_ca m) \<and>
     certifies c (sk_public (pki_root m)) (pki_ca_cert m) (sk_public (pki_ca m)) 1 [] \<and>
     pki_ca_chain m = \<lparr>chain_version = 1, root_key_id = key_id (sk_public (pki_root m)),
       links = [\<lparr>subject = sk_public (pki_ca m), cert = pki_ca_cert m\<rparr>]\<rparr>"

lemma certified_accepted:
  assumes "prims_ok c a p" "hash_ok c" "pki_ok c p m" "key_pair c p k" "length host \<le> max_structure_size"
    "key_access.find_root_key keys (key_id (sk_public (pki_root m))) = Some (sk_public (pki_root m))"
    "\<And>ct i. is_revoked_in_store c certs ct i = Inr False"
  shows "\<exists>chain k'. pki_certify c p rc rs m k host = Inr (chain, k') \<and> chain_is_authentic c keys certs chain = Inr True \<and>
    chain_subject chain = Inr (sk_public k') \<and> subject_restrictions chain = Inr host \<and> subject_ca_level chain = Inr 0 \<and>
    key_pair c p k' \<and> key_id (sk_public k') = key_id (sk_public k)"
proof -
  let ?root = "sk_public (pki_root m)" and ?ca = "sk_public (pki_ca m)"
  have m: "key_pair c p (pki_root m)" "key_pair c p (pki_ca m)" "certifies c ?root (pki_ca_cert m) ?ca 1 []"
    and chain: "pki_ca_chain m = \<lparr>chain_version = 1, root_key_id = key_id ?root, links = [\<lparr>subject = ?ca, cert = pki_ca_cert m\<rparr>]\<rparr>"
    using assms(3) by (simp_all add: pki_ok_def)
  have id: "key_id ?root \<noteq> []" using key_pair_id [OF assms(2) m(1)] by simp
  have "chain_trusted c certs ?root (links (pki_ca_chain m)) [\<lparr>kc_subject = key_id ?ca, kc_ca_level = 1, kc_restrictions = [], kc_metadata = []\<rparr>]"
    using certifies_link [OF m(3) assms(7)] by (simp add: chain_trusted_def chain)
  then have auth: "chain_is_authentic c keys certs (pki_ca_chain m) = Inr True"
    unfolding authentic_trusted using assms(6) id by (auto simp: chain)
  obtain ct s where ct: "certify_key c p rc rs (pki_ca m) k 0 host = Inr (ct, k\<lparr>sk_public := (add_certificate_id (cert_id c ct) (sk_public k))\<lparr>self_sig := s\<rparr>\<rparr>)"
    "key_pair c p (k\<lparr>sk_public := (add_certificate_id (cert_id c ct) (sk_public k))\<lparr>self_sig := s\<rparr>\<rparr>)"
    "certifies c ?ca ct ((add_certificate_id (cert_id c ct) (sk_public k))\<lparr>self_sig := s\<rparr>) (unat (0 :: 64 word)) host"
    by (rule certify_key_ok [OF assms(1,2) m(2) assms(4,5), where level = 0]) simp_all
  define k' where "k' = k\<lparr>sk_public := (add_certificate_id (cert_id c ct) (sk_public k))\<lparr>self_sig := s\<rparr>\<rparr>"
  have c3: "certifies c ?ca ct (sk_public k') 0 host" using ct(3) by (simp add: k'_def)
  have ext: "extract_key_certificate (pki_ca_cert m) = Inr \<lparr>kc_subject = key_id ?ca, kc_ca_level = 1, kc_restrictions = [], kc_metadata = []\<rparr>"
    using m(3) by (simp add: certifies_def)
  have "\<exists>d. check_link c (sk_public k') ct ?ca \<lparr>ca_level = 1, restriction = []\<rparr> = Inr (None, d)"
    using c3 extracted_type [of ct] by (auto simp: check_link_ok check_link_certificate_ok check_link_data_ok certifies_def)
  then have added: "add_link c (sk_public k') ct (pki_ca_chain m) = Inr ((pki_ca_chain m)\<lparr>links := links (pki_ca_chain m) @ [\<lparr>subject = sk_public k', cert = ct\<rparr>]\<rparr>)"
    using id ext by (auto simp: add_link_def chain subject_ca_level_def subject_restrictions_def chain_subject_def chain_is_valid_def)
  have "chain_is_authentic c keys certs ((pki_ca_chain m)\<lparr>links := links (pki_ca_chain m) @ [\<lparr>subject = sk_public k', cert = ct\<rparr>]\<rparr>) = Inr True"
    by (rule add_link_keeps_authentic [OF auth added]) (simp_all add: chain assms(7))
  moreover have "pki_certify c p rc rs m k host = Inr ((pki_ca_chain m)\<lparr>links := links (pki_ca_chain m) @ [\<lparr>subject = sk_public k', cert = ct\<rparr>]\<rparr>, k')"
    using ct(1) added by (simp add: pki_certify_def k'_def)
  moreover have "key_id (sk_public k') = key_id (sk_public k)" by (simp add: k'_def add_certificate_id_fields)
  moreover have "extract_key_certificate ct = Inr \<lparr>kc_subject = key_id (sk_public k'), kc_ca_level = 0, kc_restrictions = host, kc_metadata = []\<rparr>"
    using c3 by (simp add: certifies_def)
  ultimately show ?thesis using ct(2) id
    by (auto simp: chain_subject_def subject_restrictions_def subject_ca_level_def chain_is_valid_def chain k'_def)
qed


section \<open>Creating and loading\<close>

text \<open>A key as \<^verbatim>\<open>generate_private_key\<close> makes it, with at most one certificate.\<close>

definition fresh_key :: "crypto \<Rightarrow> pk_prims \<Rightarrow> private_key \<Rightarrow> bool" where
  "fresh_key c p k \<longleftrightarrow> key_pair c p k \<and> sk_version k = 2 \<and> metadata k = Map.empty \<and> sk_trailing k = [] \<and> pk_version (sk_public k) = 2 \<and>
     pk_trailing (sk_public k) = [] \<and> length (certificate_ids (sk_public k)) \<le> 1 \<and>
     list_all (\<lambda>i. length i \<le> 32) (certificate_ids (sk_public k)) \<and> sig_version (self_sig (sk_public k)) = 2 \<and>
     length (sig_issuer (self_sig (sk_public k))) \<le> 32 \<and> length (sig_octets (self_sig (sk_public k))) \<le> 4627"

lemma suite_sizes:
  "sig_public_size (parameters s) \<le> 2592" "x_key_size (parameters s) \<le> 56" "kem_public_size (parameters s) \<le> 1568"
  "sig_seed_size (parameters s) \<le> 32" "kem_seed_size (parameters s) \<le> 64"
  by (simp_all add: parameters_def split: suite.splits)

lemma fresh_key_stored:
  assumes "prims_ok c a p" "fresh_key c p k"
  shows "private_key_wf c k" "key_storable c (sk_public k)"
proof -
  let ?pk = "sk_public k"
  have v: "sk_is_valid k" "pk_is_valid ?pk" using key_pair_valid [OF assms(1)] assms(2) by (simp_all add: fresh_key_def)
  have l: "length (sig_pk ?pk) \<le> 2592" "length (kem_x_pk ?pk) \<le> 56" "length (kem_pq_pk ?pk) \<le> 1568" "length (sig_seed k) \<le> 32"
    "length (kem_x_sk k) \<le> 56" "length (kem_pq_seed k) \<le> 64"
    using v suite_sizes [of "sk_suite k"] by (simp_all add: sk_is_valid_def pk_is_valid_def Let_def)
  have ids: "certificate_ids ?pk = [] \<or> (\<exists>i. certificate_ids ?pk = [i] \<and> length i \<le> 32)"
    using assms(2) by (cases "certificate_ids ?pk") (auto simp: fresh_key_def)
  have sv: "unat (suite_value s) < 65536" for s by (simp add: suite_value_def split: suite.splits)
  have wf: "key_wf c ?pk" using assms(2) ids by (auto simp: fresh_key_def key_wf_def key_pair_def Let_def)
  have pv: "shape_ok public_key_ty (public_key_val ?pk)" "bound public_key_ty (public_key_val ?pk) \<le> 12000"
    using l ids assms(2) sv
    by (auto simp: fresh_key_def public_key_ty_def public_key_val_def signature_ty_def signature_val_def max_structure_size_def)
  then show "key_storable c ?pk" using wf val_ok_bound [of public_key_ty "public_key_val ?pk"]
    by (simp add: key_storable_def max_constructed_size_def)
  have no_optional: "public_key_val ?pk \<noteq> V_optional None" by (simp add: public_key_val_def)
  have "shape_ok private_key_ty (private_key_val k)" "bound private_key_ty (private_key_val k) \<le> 14000"
    using l pv assms(2) sv no_optional
    by (simp_all add: fresh_key_def private_key_ty_def private_key_val_def metadata_ty_def metadata_val_def entries_def max_structure_size_def)
  then show "private_key_wf c k" using wf assms(2) val_ok_bound [of private_key_ty "private_key_val k"]
    by (simp add: private_key_wf_def fresh_key_def max_constructed_size_def)
qed


definition random_ok :: "suite \<Rightarrow> key_random \<Rightarrow> bool" where
  "random_ok s R \<longleftrightarrow> length (kr_seed R) = sig_seed_size (parameters s) \<and> length (kr_x R) = x_key_size (parameters s) \<and>
     length (kr_pq R) = kem_seed_size (parameters s)"

lemma signed_fields:
  assumes "prims_ok c a p" "sk_sign p r k d ctx = Inr sg"
  shows "sig_version sg = 2" "sig_issuer sg = key_id (sk_public k)" "length (sig_octets sg) \<le> 4627"
proof -
  have "signature_size (parameters t) \<le> 4627" for t by (simp add: parameters_def split: suite.splits)
  then show "sig_version sg = 2" "sig_issuer sg = key_id (sk_public k)" "length (sig_octets sg) \<le> 4627"
    using assms by (auto simp: sk_sign_def sign_framed_def prims_ok_def split: if_splits)
qed

lemma generate_key_ok:
  assumes "prims_ok c a p" "hash_ok c" "random_ok s R"
  obtains k where "generate_key c p s R = Inr k" "fresh_key c p k" "certificate_ids (sk_public k) = []"
proof -
  obtain k where k: "generate_private_key c p (kr_sign R) s (kr_seed R) (kr_x R) (kr_pq R) = Inr k" "key_pair c p k"
    using generated_key_verifies [OF assms(1), of "kr_seed R" s "kr_x R" "kr_pq R" "kr_sign R"] assms(3) by (auto simp: random_ok_def)
  obtain k0 sg where k0: "make_private_key_impl c p s (kr_seed R) \<lparr>kpriv_suite = s, kpriv_x = kr_x R, kpriv_seed = kr_pq R\<rparr> = Inr k0"
    "sk_sign p (kr_sign R) k0 (signature_content (sk_public k0)) self_signature_context = Inr sg" "k = k0\<lparr>sk_public := (sk_public k0)\<lparr>self_sig := sg\<rparr>\<rparr>"
    using k(1) by (auto simp: generate_private_key_def make_private_key_def pk_sign_me_def)
  have f: "sk_version k0 = 2" "metadata k0 = Map.empty" "sk_trailing k0 = []" "pk_version (sk_public k0) = 2" "pk_trailing (sk_public k0) = []"
    "certificate_ids (sk_public k0) = []"
    using k0(1) by (auto simp: make_private_key_impl_def make_public_key_def make_public_key_impl_def Let_def split: if_splits)
  have "length (key_id (sk_public k0)) \<le> 32" using key_pair_id [OF assms(2) k(2)] k0(3) by simp
  then have "fresh_key c p k" using k(2) k0(3) f signed_fields [OF assms(1) k0(2)] by (simp add: fresh_key_def)
  then show ?thesis using that [of k] k(1) k0(3) f(6) by (simp add: generate_key_def)
qed

lemma certified_fresh:
  assumes "prims_ok c a p" "hash_ok c" "fresh_key c p k" "certificate_ids (sk_public k) = []" "certify_key c p rc rs issuer k level rest = Inr (ct, k')"
    "key_pair c p k'"
  shows "fresh_key c p k'"
proof -
  obtain sg where sg: "sk_sign p rs k (signature_content (add_certificate_id (cert_id c ct) (sk_public k))) self_signature_context = Inr sg"
    "k' = k\<lparr>sk_public := (add_certificate_id (cert_id c ct) (sk_public k))\<lparr>self_sig := sg\<rparr>\<rparr>"
    using assms(5) by (auto simp: certify_key_def Let_def set_public_key_def pk_sign_me_def split: if_splits)
  have "length (cert_id c ct) \<le> 32" using assms(2) by (simp add: cert_id_def hash_ok_def)
  moreover have "length (key_id (sk_public k)) \<le> 32" using key_pair_id [OF assms(2), of p k] assms(3) by (simp add: fresh_key_def)
  ultimately show ?thesis
    using assms(3,4,6) sg(2) signed_fields [OF assms(1) sg(1)] by (simp add: fresh_key_def add_certificate_id_def)
qed


lemma certificate_stored:
  assumes "prims_ok c a p" "create_key_certificate p rc issuer sub 1 [] [] = Inr ct" "length sub \<le> 32" "length (key_id (sk_public issuer)) \<le> 32"
  shows "\<exists>b. write_der certificate_ty (certificate_val ct) = Inr b \<and> read_der certificate_ty certificate_of b = Inr ct"
proof -
  let ?d = "der key_certificate_ty None (key_certificate_val sub 1 [] [])"
  have sub: "length sub \<le> max_structure_size" "length ([] :: octets) \<le> max_structure_size" "unat (1 :: 64 word) < 2 ^ 16"
    using assms(3) by (simp_all add: max_structure_size_def)
  obtain sg where sg: "sk_sign p rc issuer (cert_make_sig_data (make_certificate key_certificate_type ?d)) certificate_context = Inr sg"
    "ct = (make_certificate key_certificate_type ?d)\<lparr>cert_sig := sg\<rparr>"
    using assms(2) key_certificate_der(1) [OF sub(1,2,2,3)] by (auto simp: create_key_certificate_def cert_sign_me_def)
  have b: "shape_ok key_certificate_ty (key_certificate_val sub 1 [] [])" "bound key_certificate_ty (key_certificate_val sub 1 [] []) \<le> 400"
    using assms(3) by (simp_all add: key_certificate_ty_def max_structure_size_def)
  have "length ?d \<le> bound key_certificate_ty (key_certificate_val sub 1 [] [])"
    using fits_all [of key_certificate_ty, rule_format, OF tag_ok_None b(1)] b(2) by (simp add: max_constructed_size_def)
  then have d: "length ?d \<le> 400" using b(2) by linarith
  have "shape_ok certificate_ty (certificate_val ct)" "bound certificate_ty (certificate_val ct) \<le> 12000"
    using d signed_fields [OF assms(1) sg(1)] assms(4)
    by (simp_all add: sg(2) make_certificate_def certificate_ty_def certificate_val_def signature_ty_def signature_val_def max_structure_size_def)
  then have v: "val_ok certificate_ty (certificate_val ct)" using val_ok_bound by (simp add: max_constructed_size_def)
  have t: "headed certificate_ty" "ty_ok certificate_ty" "depth certificate_ty \<le> max_structure_depth"
    by (simp_all add: certificate_ty_def signature_ty_def revocation_ty_def max_structure_depth_def)
  show ?thesis using asn_der_ok(1) [OF t(1,2) v t(3)] asn_der_ok(2) [OF t(1,2) v t(3), of "[]"]
    by (simp add: write_der_def read_der_def)
qed


lemma certified_certificate:
  "certify_key c p rc rs issuer k level rest = Inr (ct, k') \<Longrightarrow> create_key_certificate p rc issuer (key_id (sk_public k)) level rest [] = Inr ct"
  by (auto simp: certify_key_def Let_def)

text \<open>Creating succeeds in a directory that can be written and holds no root key; the files are the keys and the certificate, so that
  loading gives the same.\<close>

lemma created_and_loaded:
  assumes "prims_ok c a p" "hash_ok c" "random_ok s R1" "random_ok s R2" "\<not> pki_exists st"
  obtains m st' where "pki_create c p True s R1 R2 rc rs st = (Inr m, st')" "pki_ok c p m" "kg_root st' = Some (sk_public (pki_root m))"
    "load_public_key_file c (root_pub (kg_files st')) = Inr (sk_public (pki_root m))"
    "\<And>g. pki_load c \<lparr>kg_files = kg_files st', kg_root = g\<rparr> = (Inr m, st')"
proof -
  obtain root where root: "generate_key c p s R1 = Inr root" "fresh_key c p root" "certificate_ids (sk_public root) = []"
    using generate_key_ok [OF assms(1-3)] .
  obtain ca where ca: "generate_key c p s R2 = Inr ca" "fresh_key c p ca" "certificate_ids (sk_public ca) = []"
    using generate_key_ok [OF assms(1,2,4)] .
  have kp: "key_pair c p root" "key_pair c p ca" using root(2) ca(2) by (simp_all add: fresh_key_def)
  have lv: "length ([] :: octets) \<le> max_structure_size" "unat (1 :: 64 word) < 2 ^ 16" by simp_all
  obtain ct sg where "certify_key c p rc rs root ca 1 [] = Inr (ct, ca\<lparr>sk_public := (add_certificate_id (cert_id c ct) (sk_public ca))\<lparr>self_sig := sg\<rparr>\<rparr>)"
    "key_pair c p (ca\<lparr>sk_public := (add_certificate_id (cert_id c ct) (sk_public ca))\<lparr>self_sig := sg\<rparr>\<rparr>)"
    "certifies c (sk_public root) ct ((add_certificate_id (cert_id c ct) (sk_public ca))\<lparr>self_sig := sg\<rparr>) (unat (1 :: 64 word)) []"
    using certify_key_ok [OF assms(1,2) kp lv] .
  then obtain ca' where ca': "certify_key c p rc rs root ca 1 [] = Inr (ct, ca')" "key_pair c p ca'" "certifies c (sk_public root) ct (sk_public ca') 1 []"
    by (auto simp: unat_1)
  note f = fresh_key_stored [OF assms(1) root(2)] fresh_key_stored [OF assms(1) certified_fresh [OF assms(1,2) ca(2,3) ca'(1,2)]]
  obtain b1 where b1: "write_der private_key_ty (private_key_val root) = Inr b1" "read_der private_key_ty (private_key_of c) b1 = Inr root"
    using private_key_written [OF f(1)] by blast
  obtain b2 where b2: "write_der public_key_ty (public_key_val (sk_public root)) = Inr b2" "read_der public_key_ty (public_key_of c) b2 = Inr (sk_public root)"
    using key_stored [OF f(2)] by blast
  obtain b3 where b3: "write_der private_key_ty (private_key_val ca') = Inr b3" "read_der private_key_ty (private_key_of c) b3 = Inr ca'"
    using private_key_written [OF f(3)] by blast
  obtain b4 where b4: "write_der certificate_ty (certificate_val ct) = Inr b4" "read_der certificate_ty certificate_of b4 = Inr ct"
    using certificate_stored [OF assms(1) certified_certificate [OF ca'(1)]] key_pair_id [OF assms(2) kp(1)] key_pair_id [OF assms(2) kp(2)] by blast
  define m where "m = \<lparr>pki_root = root, pki_ca = ca', pki_ca_cert = ct,
     pki_ca_chain = \<lparr>chain_version = 1, root_key_id = key_id (sk_public root), links = [\<lparr>subject = sk_public ca', cert = ct\<rparr>]\<rparr>\<rparr>"
  define st' where "st' = \<lparr>kg_files = \<lparr>root_priv = Some b1, root_pub = Some b2, ca_priv = Some b3, ca_cert_file = Some b4\<rparr>, kg_root = Some (sk_public root)\<rparr>"
  have v: "pk_is_valid (sk_public root)" using key_pair_valid [OF assms(1) kp(1)] by simp
  have inst: "install root ca' ct \<lparr>kg_files = kg_files st', kg_root = g\<rparr> = (Inr m, st')" for g
    using v by (simp add: install_def bindA_def lift_store_def on_root_def set_root_public_key_def returnA_def m_def st'_def)
  have w: "write_files True root ca' ct st = (Inr (), \<lparr>kg_files = kg_files st', kg_root = kg_root st\<rparr>)"
    using b1(1) b2(1) b3(1) b4(1)
    by (simp add: write_files_def bindA_def on_file_def save_der_def lift_store_def save_public_key_file_def lift_crypto_def returnA_def st'_def)
  have "pki_create c p True s R1 R2 rc rs st = (Inr m, st')"
    using assms(5) root(1) ca(1) ca'(1) w inst by (simp add: pki_create_def bindA_def lift_keygen_def)
  moreover have "pki_load c \<lparr>kg_files = kg_files st', kg_root = g\<rparr> = (Inr m, st')" for g
    using b1(2) b3(2) b4(2) inst [of g] ca'(3) by (simp add: pki_load_def bindA_def lift_keygen_def load_der_def st'_def certifies_def)
  moreover have "pki_ok c p m" using kp ca' by (simp add: pki_ok_def m_def)
  moreover have "load_public_key_file c (root_pub (kg_files st')) = Inr (sk_public (pki_root m))" using b2(2) by (simp add: load_public_key_file_def st'_def m_def)
  ultimately show ?thesis using that [of m st'] by (simp add: st'_def m_def)
qed

section \<open>Properties\<close>

text \<open>An identity is never replaced: when the private data already has an own key, nothing is generated or written.\<close>

lemma install_identity_keeps_key:
  "po_my_key P d = (Inr (Some k), d') \<Longrightarrow>
    install_identity c p P K R rc rs m host (d, ks) = (Inl (Runtime_error ''an own private key already exists''), (d', ks))"
  by (simp add: install_identity_def)

text \<open>Loading compares the issuer of the CA certificate with the root key's identifier and nothing else: neither the signature of the
  certificate nor that it names the CA key is checked.\<close>

lemma load_checks_issuer_only:
  assumes "load_der private_key_ty (private_key_of c) (root_priv (kg_files st)) = Inr root"
    "load_der private_key_ty (private_key_of c) (ca_priv (kg_files st)) = Inr ca"
    "load_der certificate_ty certificate_of (ca_cert_file (kg_files st)) = Inr ct"
    "cert_issuer ct = key_id (sk_public root)" "pk_is_valid (sk_public root)"
  shows "\<exists>m st'. pki_load c st = (Inr m, st') \<and> pki_ca_cert m = ct \<and> pki_ca m = ca"
  using assms by (simp add: pki_load_def bindA_def lift_keygen_def install_def lift_store_def on_root_def set_root_public_key_def returnA_def)

lemma unsigned_ca_chain_refused:
  assumes "links cc = \<lparr>subject = k, cert = ct\<rparr> # es" "cert_is_authentic c ct root \<noteq> Inr True"
    "key_access.find_root_key keys (root_key_id cc) = Some root"
  shows "chain_is_authentic c keys certs cc \<noteq> Inr True"
  using assms unfolding authentic_trusted by (auto simp: chain_trusted_def link_holds_def list_all2_Cons1)

text \<open>C40: The tool's keys work: in a directory that has no pki and can be written, creating one succeeds, the files it leaves load to the
  same keys and hold the root's public key for the other processes; and every key that is certified with it, for any host name,
  comes with a chain that ends in that key, carries the host name, has no CA rights, and is accepted by every process that has loaded
  the root key and knows of no revocation.\<close>

theorem certified_identity_is_accepted:
  assumes "prims_ok c a p" "hash_ok c" "random_ok s R1" "random_ok s R2" "\<not> pki_exists st" "key_pair c p k" "length host \<le> max_structure_size"
  shows "\<exists>m st' chain k'. pki_create c p True s R1 R2 rc rs st = (Inr m, st') \<and>
    pki_load c \<lparr>kg_files = kg_files st', kg_root = None\<rparr> = (Inr m, st') \<and>
    load_public_key_file c (root_pub (kg_files st')) = Inr (sk_public (pki_root m)) \<and>
    pki_certify c p rc' rs' m k host = Inr (chain, k') \<and> key_id (sk_public k') = key_id (sk_public k) \<and>
    chain_subject chain = Inr (sk_public k') \<and> subject_restrictions chain = Inr host \<and> subject_ca_level chain = Inr 0 \<and>
    (\<forall>keys certs. key_access.find_root_key keys (key_id (sk_public (pki_root m))) = Some (sk_public (pki_root m)) \<longrightarrow>
       (\<forall>ct i. is_revoked_in_store c certs ct i = Inr False) \<longrightarrow> chain_is_authentic c keys certs chain = Inr True)"
proof -
  obtain m st' where m: "pki_create c p True s R1 R2 rc rs st = (Inr m, st')" "pki_ok c p m"
    "load_public_key_file c (root_pub (kg_files st')) = Inr (sk_public (pki_root m))"
    "\<And>g. pki_load c \<lparr>kg_files = kg_files st', kg_root = g\<rparr> = (Inr m, st')"
    using created_and_loaded [OF assms(1-5)] by metis
  note acc = certified_accepted [OF assms(1,2) m(2) assms(6,7), of _ _ rc' rs']
  define keys0 where "keys0 = \<lparr>find_key = (\<lambda>_. None), key_access.find_root_key = (\<lambda>_. Some (sk_public (pki_root m)))\<rparr>"
  obtain chain k' where ck: "pki_certify c p rc' rs' m k host = Inr (chain, k')" "chain_subject chain = Inr (sk_public k')"
    "subject_restrictions chain = Inr host" "subject_ca_level chain = Inr 0" "key_id (sk_public k') = key_id (sk_public k)"
    using acc [of keys0 "\<lambda>_. None"] by (auto simp: keys0_def is_revoked_in_store_def)
  moreover have "chain_is_authentic c keys certs chain = Inr True"
    if "key_access.find_root_key keys (key_id (sk_public (pki_root m))) = Some (sk_public (pki_root m))"
      "\<forall>ct i. is_revoked_in_store c certs ct i = Inr False" for keys certs
    using acc [of keys certs] that ck(1) by auto
  ultimately show ?thesis using m(1,3,4) by blast
qed

theorem certified_identity_is_accepted_witness:
  "\<exists>m st' chain k'. pki_create demo_crypto demo_prims True Pq1_high
       \<lparr>kr_seed = replicate 32 0, kr_x = replicate 56 0, kr_pq = replicate 64 0, kr_sign = []\<rparr>
       \<lparr>kr_seed = replicate 32 1, kr_x = replicate 56 1, kr_pq = replicate 64 1, kr_sign = []\<rparr> [] []
       \<lparr>kg_files = \<lparr>root_priv = None, root_pub = None, ca_priv = None, ca_cert_file = None\<rparr>, kg_root = None\<rparr> = (Inr m, st') \<and>
     pki_certify demo_crypto demo_prims [] [] m demo_sk (octets_of ''example.org'') = Inr (chain, k') \<and>
     subject_restrictions chain = Inr (octets_of ''example.org'')"
proof -
  have h: "hash_ok demo_crypto" by (simp add: hash_ok_def demo_crypto_def)
  have "random_ok Pq1_high \<lparr>kr_seed = replicate 32 0, kr_x = replicate 56 0, kr_pq = replicate 64 0, kr_sign = []\<rparr>"
    "random_ok Pq1_high \<lparr>kr_seed = replicate 32 1, kr_x = replicate 56 1, kr_pq = replicate 64 1, kr_sign = []\<rparr>"
    "\<not> pki_exists \<lparr>kg_files = \<lparr>root_priv = None, root_pub = None, ca_priv = None, ca_cert_file = None\<rparr>, kg_root = None\<rparr>"
    "length (octets_of ''example.org'') \<le> max_structure_size"
    by (simp_all add: random_ok_def parameters_def pki_exists_def octets_of_def max_structure_size_def)
  from certified_identity_is_accepted [OF demo_prims_ok h this(1-3) demo_key_pair this(4), of "[]" "[]" "[]" "[]"] show ?thesis by blast
qed

end
