(* ===== verification/Spec2Isabelle.thy ===== *)
theory Spec2Isabelle
  imports Prelude Asn_Util Octet_Stream Buffered_Stream Serialiser_Findings Deserialiser_Total Connection Packet_Server_Properties Packet_Client Private_Data Key_Client Text_Util Command_Parser Broadcast Keygen
begin

text \<open>
  \<^bold>\<open>A verification development of securepath.\<close>

  securepath is a set of C++ libraries for authenticated, encrypted messaging: an ASN.1 DER serialisation
  library, a cryptographic library (keys, certificates, envelopes) over Botan, an encrypted transport
  (TLS 1.3, framing, an authentication handshake inside the channel), and servers and clients built on them.
  The development follows a message from the value that is sent down to the octets of the wire and back, and
  the trust that is put in a peer from the primitive signature up to the callback that reports a connection.

  \<^bold>\<open>Parts, theories and sources\<close> (paths under \<^verbatim>\<open>src/securepath/\<close>)

  \<^item> Serialisation. \<^verbatim>\<open>Asn_Util\<close> is the integer and digit coding of \<^verbatim>\<open>serialisation/codec/asn_der/util.hpp\<close> on 64 bit
    words. \<^verbatim>\<open>Octet_Stream\<close> holds the streams of \<^verbatim>\<open>octet_vector_stream.cpp\<close> and the interface \<^verbatim>\<open>octet_source\<close> with its
    two providers; \<^verbatim>\<open>Buffered_Stream\<close> the look-ahead reader \<^verbatim>\<open>buffered_stream.hpp\<close>, proved against that interface
    to read what the source would. \<^verbatim>\<open>Asn_Encoder\<close> and \<^verbatim>\<open>Asn_Decoder\<close> are the two codec classes, operation by operation;
    \<^verbatim>\<open>Asn_Codec\<close> joins them on headers and elements. \<^verbatim>\<open>Serialiser\<close> interprets the C++ types as a datatype of types and
    values and models \<^verbatim>\<open>serialiser\<close>, \<^verbatim>\<open>deserialiser\<close>, sequences, optionals, containers and trailing data;
    \<^verbatim>\<open>Serialiser_Roundtrip\<close> shows that what is written is read back, whatever follows it, for every type and value
    within the coder's limits. \<^verbatim>\<open>Packet_Deserialiser\<close> is the choice coding and the reassembly of packets from pieces
    of a stream. \<^verbatim>\<open>Serialiser_Findings\<close> records values the pair does not carry, and \<^verbatim>\<open>Deserialiser_Total\<close> shows that
    deserialising ends by itself on any octets.
  \<^item> Transport. \<^verbatim>\<open>Byte_Order\<close> is \<^verbatim>\<open>util/byte_order.hpp\<close>. \<^verbatim>\<open>Tls_Stream\<close> is the state machine of \<^verbatim>\<open>network/encryption/tls_stream.cpp\<close>
    around the TLS engine, whose callbacks are events: no completion handler is lost or called twice. \<^verbatim>\<open>Framing\<close> is
    \<^verbatim>\<open>framing.cpp\<close>: the reader rebuilds the frames from any chunking, proved over the interface \<^verbatim>\<open>chunk_source\<close>, which is
    interpreted on the TLS stream's read.
  \<^item> Cryptography. \<^verbatim>\<open>Crypto_Keys\<close> has suites, signatures, public keys and the framing of signed messages; \<^verbatim>\<open>Certificates\<close>
    has certificates, revocations, chain verification, extension and construction (\<^verbatim>\<open>crypto/certificate_chain.cpp\<close>);
    the builder is complete for stores whose key certificates are well formed, and throws at the first one that is not;
    \<^verbatim>\<open>Aes_Gcm\<close> the incremental ciphers of \<^verbatim>\<open>crypto/aes_gcm.cpp\<close>; \<^verbatim>\<open>Private_Keys\<close> signing, hybrid key encapsulation, and
    envelopes; \<^verbatim>\<open>Crypto_Wire\<close> the encodings of keys, certificates and chains. The primitives (SHA-3, ML-DSA, ML-KEM, X25519, HKDF,
    AES, HMAC) are the arguments \<^verbatim>\<open>crypto\<close>, \<^verbatim>\<open>pk_prims\<close>, \<^verbatim>\<open>aes\<close> and \<^verbatim>\<open>ne_hmac\<close>; what is assumed of them is the predicate
    \<^verbatim>\<open>prims_ok\<close>: signatures verify, encapsulated secrets are recovered, sealed messages are opened, and sizes are
    as documented. No theorem assumes that forging is impossible: the theorems say what was checked, not what an
    attacker can compute.
  \<^item> Stores. \<^verbatim>\<open>Key_Stores\<close>, \<^verbatim>\<open>Certificate_Stores\<close> and \<^verbatim>\<open>Private_Data\<close> are the databases of \<^verbatim>\<open>crypto/\<close>, over the statements they
    execute (locales \<^verbatim>\<open>text_table\<close> and \<^verbatim>\<open>certificate_table\<close>), and the caches in front of them. What a user of a store relies on
    is the locale \<^verbatim>\<open>keyed_store\<close>, in which a store is a map; databases satisfy it, and caches over stores that do.
    \<^verbatim>\<open>Keygen\<close> is the tool of \<^verbatim>\<open>infrastructure/keygen\<close>, which creates the keys of a deployment and certifies identities.
  \<^item> Authentication. \<^verbatim>\<open>Handshake\<close> is \<^verbatim>\<open>network/encryption/handshake\<close> and \<^verbatim>\<open>context.cpp\<close>: the hello exchange, the
    binding to the TLS exporter, and the public key and shared secret variants.
  \<^item> Connections. \<^verbatim>\<open>Connection\<close> is \<^verbatim>\<open>detail/encrypted_connection_impl.cpp\<close>: every handler is a function on the state, an
    asynchronous operation that was started may complete at any later time with any result, except that a read fails
    once the stream was closed, and the owner may send or close inside every callback.
  \<^item> Packet transport (\<^verbatim>\<open>infrastructure/packet_transport\<close>). \<^verbatim>\<open>Message_Delivery\<close> is what every protocol of the repository
    needs on top of the choice coding, as the locale \<^verbatim>\<open>message_protocol\<close>; \<^verbatim>\<open>Packet_Protocol\<close> are the messages of
    \<^verbatim>\<open>protocol/protocol.hpp\<close>, an instance of it. \<^verbatim>\<open>Packet_Storage\<close> is \<^verbatim>\<open>server_lib/packet_storage.cpp\<close>: queues, index, remove
    flags and the writer thread, one step per atomic section, over a database that satisfies the locale
    \<^verbatim>\<open>packet_table\<close>. \<^verbatim>\<open>Packet_Server\<close> is \<^verbatim>\<open>server_lib/connection.cpp\<close> and \<^verbatim>\<open>packet_server.cpp\<close> on top of it: the handlers of
    all connections and the writer interleave freely; \<^verbatim>\<open>Packet_Server_Invariant\<close> and
    \<^verbatim>\<open>Packet_Server_Properties\<close> are the proofs. \<^verbatim>\<open>Packet_Client\<close> is \<^verbatim>\<open>client/\<close>: sending, the two tables (locale \<^verbatim>\<open>blob_table\<close>)
    and the events.
  \<^item> Key distribution (\<^verbatim>\<open>infrastructure/key_server\<close>). \<^verbatim>\<open>Key_Server\<close> is the protocol, the server's store and its handlers; the two
    locked calls of a registration are steps of their own, between which the handlers of other connections run. Its
    proofs rest on the locale \<^verbatim>\<open>key_holder\<close>, an extension of \<^verbatim>\<open>keyed_store\<close> that is interpreted on the cache over the
    database. \<^verbatim>\<open>Key_Client\<close> is the client, the owner of a connection of \<^verbatim>\<open>Connection\<close>: closing it closes that connection, and
    what the client hears of it is read off the connection's callbacks.
  \<^item> Utilities. \<^verbatim>\<open>Text_Util\<close> is \<^verbatim>\<open>util/string_util.cpp\<close>; \<^verbatim>\<open>Command_Parser\<close> is \<^verbatim>\<open>util/command_parser.cpp\<close> with the stream operations it
    uses. \<^verbatim>\<open>Event_Loop\<close> is the queue, timers and thread of \<^verbatim>\<open>event_system/event_loop.cpp\<close>, one step per section under the mutex,
    and \<^verbatim>\<open>Broadcast\<close> the observers on top of it.

  \<^bold>\<open>What is shown\<close>

  \<^item> Round trips: integers, headers, all serialisable types, choices, frames, chains, envelopes and encrypted content.
  \<^item> Refinement: the look-ahead reader and the vector stream refine plain queues of octets, incremental GCM is one-shot
    GCM whatever the segmentation, chain verification is the conjunction of the conditions that make a chain
    trustworthy, and on well-formed stores the chain builder finds a chain whenever there is one.
  \<^item> State machines: the TLS stream accounts for every handler and delivers the plain text in order; a connection
    calls its owner back in order, sends in order, leaves no message lying, stays silent once it is disconnected, and, where
    the public key handshakes are the ones enabled, reports itself connected only with a peer that proved its key for this
    very channel, or, on a server that does not ask for that, with an anonymous one. The event loop delivers in order,
    does not sleep over work, and does not call a receiver that was removed.
  \<^item> Packet transport: for every interleaving, the database settles to exactly the unacknowledged packets, a packet leaves
    the server only when the key it is addressed to has acknowledged it, a sender is only told of a packet that is
    safe, a client is only handed what is meant for it, and every unacknowledged packet is offered to its
    connected receiver, but for the moment in which the writer holds it, which is one of the recorded faults. The client
    keeps what it sends until it is answered and what it is sent until it is seen.
  \<^item> Keys: a cache over databases is a map, a revocation the cache has seen is final (one it has not seen is not, a
    recorded fault), the key server hands out only self-consistent keys and never loses one, though two registrations of one
    identifier that race both succeed, and a client's lookup returns the key the server holds.
  \<^item> Liveness: honest parties complete both handshakes.
  \<^item> Errors: every \<^verbatim>\<open>throw\<close> is a value of a sum type, and the theorems of kind error describe inputs on which the code
    does not do what its documentation says.

  \<^bold>\<open>Conventions\<close>

  Exceptions are the left side of a sum; \<^verbatim>\<open>action\<close> in \<^verbatim>\<open>Prelude\<close> threads a state through code that throws, the state at the
  throw included. Machine integers are words where they wrap. Loops are structural or have a proved measure
  (\<^verbatim>\<open>drain\<close>, \<^verbatim>\<open>split_packets\<close>); the loop over a container's elements takes as fuel one more than the octets that are left,
  which is proved to be enough (\<^verbatim>\<open>deserialise_never_out_of_rounds\<close>) because an element that consumes nothing is an error in
  the code; the loops of the command parser are partial functions that are proved to return. Random values and the results of the
  operating system are arguments. Witnesses instantiate the primitives with small concrete functions (\<^verbatim>\<open>demo_crypto\<close>,
  \<^verbatim>\<open>demo_prims\<close>, \<^verbatim>\<open>demo_aes\<close>).

  \<^bold>\<open>Assumptions and simplifications\<close>

  \<^item> Databases. A statement of the packet server's table does not fail for reasons of its own (\<^verbatim>\<open>packet_table\<close>); the code logs such
    a failure and drops the packet or leaves the row. The deletions of the key, certificate and client tables (\<^verbatim>\<open>db_remove\<close>,
    \<^verbatim>\<open>cert_db_remove\<close>, \<^verbatim>\<open>out_remove\<close>, \<^verbatim>\<open>mark_seen\<close>) do not fail either, while their insertions may.
  \<^item> Atomicity. In the packet server, \<^verbatim>\<open>storage_remove\<close> and the end of \<^verbatim>\<open>on_connect\<close> (\<^verbatim>\<open>finish_connect\<close>) are one step each, though
    the code takes several locks in them; the runs considered are those in which the payloads that come in can be written
    to the database and read back (\<^verbatim>\<open>acceptable\<close>).
  \<^item> Identifiers and signed contents (\<^verbatim>\<open>construct_id\<close>, \<^verbatim>\<open>signature_content\<close>, \<^verbatim>\<open>cert_make_sig_data\<close>, \<^verbatim>\<open>cert_id\<close>) are made with the total
    encoding \<^verbatim>\<open>der\<close>; the code throws when a string in them exceeds the encoder's limit of 2 MiB.
  \<^item> Time. Time points and durations of the event loop are natural numbers: no duration is negative, and none overflows.

  \<^bold>\<open>Not modelled\<close>

  The REAL coding of the DER library; wiping of memory; logging; the bodies of third party code (Botan, asio, SQLite, ALSA,
  DirectSound, ncurses), and with it the thin adapters that only call it; the acceptor and thread pool of the network
  servers; the coroutine types; the console and the audio library.
\<close>

end
